(* ===== verification/Prelude.thy ===== *)
theory Prelude
  imports Main "HOL-Library.Word"
begin

text \<open>
  Shared vocabulary of the development: the C integer types of \<open>kernel/types.h\<close> as words, the
  outcome type of a kernel function (a value with the new state, a panic, going to sleep on a
  channel, or never returning), byte-addressed memory, the little-endian layout of integers in
  memory and in disk blocks, and the lemmas on words, lists and memory that the component
  theories share.
\<close>

unbundle bit_operations_syntax

section \<open>Integer types\<close>

type_synonym u8 = "8 word"
type_synonym u16 = "16 word"
type_synonym u32 = "32 word"
type_synonym u64 = "64 word"

text \<open>Rules that unfold an outcome or a state update, collected by the components.\<close>

named_theorems bind_simps
named_theorems frame_simps

section \<open>Sleep channels and outcomes\<close>

text \<open>
  A channel is the address a process sleeps on. Each constructor names one kernel object whose
  address the sources pass to \<open>sleep\<close> and \<open>wakeup\<close>; \<open>NoChan\<close> is the null pointer.
\<close>

datatype chan =
    NoChan
  | ProcChan nat
  | TicksChan
  | LogChan
  | InodeLockChan nat
  | BufLockChan nat
  | BufChan nat
  | PipeReadChan u64
  | PipeWriteChan u64
  | DiskFreeChan
  | ConsChan
  | UartChan

text \<open>
  The outcome of a kernel function on a state: it returns a value and a new state, it panics
  (with the message), it goes to sleep on a channel in a state (and has not returned yet), or it
  never returns (a loop that does not end).
\<close>

datatype ('a, 's) res =
    Ok 'a 's
  | Panic string
  | Sleep chan 's
  | Diverge

primrec bind :: "('a, 's) res \<Rightarrow> ('a \<Rightarrow> 's \<Rightarrow> ('b, 's) res) \<Rightarrow> ('b, 's) res" where
  "bind (Ok x s) f = f x s"
| "bind (Panic e) f = Panic e"
| "bind (Sleep c s) f = Sleep c s"
| "bind Diverge f = Diverge"

lemma bind_eq_Ok [bind_simps]:
  "(bind m f = Ok y t) \<longleftrightarrow> (\<exists>x s. m = Ok x s \<and> f x s = Ok y t)"
  by (cases m) auto

lemma bind_Ok_right [simp]: "bind m Ok = m"
  by (cases m) auto

lemma bind_assoc: "bind (bind m f) g = bind m (\<lambda>x s. bind (f x s) g)"
  by (cases m) auto

lemma bind_cong [fundef_cong]:
  "m = m' \<Longrightarrow> (\<And>x s. m' = Ok x s \<Longrightarrow> f x s = f' x s) \<Longrightarrow> bind m f = bind m' f'"
  by (cases m') auto

lemma bind_OkE [elim]:
  assumes "bind m f = Ok y t"
  obtains x s where "m = Ok x s" and "f x s = Ok y t"
  using assms by (cases m) auto

definition returns :: "('a, 's) res \<Rightarrow> bool" where
  "returns r \<longleftrightarrow> (\<exists>x s. r = Ok x s)"

lemma returns_Ok [simp]: "returns (Ok x s)"
  by (simp add: returns_def)

section \<open>Words\<close>

lemma unat_of_nat_eq: "n < 2 ^ LENGTH('a) \<Longrightarrow> unat (of_nat n :: 'a::len word) = n"
  by (simp add: unat_of_nat)

lemma unat_less_of_nat: "n < 2 ^ LENGTH('a) \<Longrightarrow> (w :: 'a::len word) < of_nat n \<Longrightarrow> unat w < n"
  by (simp add: word_less_nat_alt unat_of_nat_eq)

lemma unat_add_no_wrap:
  "unat (a :: 'a::len word) + n < 2 ^ LENGTH('a) \<Longrightarrow> unat (a + of_nat n) = unat a + n"
  by (simp add: unat_word_ariths unat_of_nat mod_simps)

lemma unat_suc_less: "(i :: 'a::len word) < n \<Longrightarrow> unat (i + 1) = Suc (unat i)"
proof -
  assume "i < n"
  moreover have "unat n < 2 ^ LENGTH('a)"
    by (rule unsigned_less)
  ultimately have "unat i + 1 < 2 ^ LENGTH('a)"
    unfolding word_less_nat_alt by linarith
  then show ?thesis using unat_add_no_wrap [of i 1] by simp
qed

lemma unat_diff_no_wrap: "(a :: 'a::len word) \<le> b \<Longrightarrow> unat (b - a) = unat b - unat a"
  by (simp add: unat_sub)

lemma word_ne_diff_ne_0: "(a :: 'a::len word) \<noteq> b \<Longrightarrow> a - b \<noteq> 0"
  by simp

section \<open>Memory\<close>

text \<open>
  Memory is a function from 64-bit addresses to bytes. A run of bytes is read with \<open>mbytes\<close>
  and written with \<open>mwrite\<close>; addresses wrap around modulo \<open>2^64\<close>, as pointer arithmetic does.
\<close>

type_synonym memory = "u64 \<Rightarrow> u8"

definition mbytes :: "memory \<Rightarrow> u64 \<Rightarrow> nat \<Rightarrow> u8 list" where
  "mbytes m a n = map (\<lambda>i. m (a + of_nat i)) [0..<n]"

definition mwrite :: "memory \<Rightarrow> u64 \<Rightarrow> u8 list \<Rightarrow> memory" where
  "mwrite m a bs = (\<lambda>x. if unat (x - a) < length bs then bs ! unat (x - a) else m x)"

lemma length_mbytes [simp]: "length (mbytes m a n) = n"
  by (simp add: mbytes_def)

lemma nth_mbytes [simp]: "i < n \<Longrightarrow> mbytes m a n ! i = m (a + of_nat i)"
  by (simp add: mbytes_def)

lemma mwrite_Nil [simp]: "mwrite m a [] = m"
  by (simp add: mwrite_def)

lemma mwrite_in: "unat (x - a) < length bs \<Longrightarrow> mwrite m a bs x = bs ! unat (x - a)"
  by (simp add: mwrite_def)

lemma mwrite_out: "\<not> unat (x - a) < length bs \<Longrightarrow> mwrite m a bs x = m x"
  by (simp add: mwrite_def)

lemma mwrite_at:
  assumes "i < length bs" and "length bs \<le> 2 ^ 64"
  shows "mwrite m a bs (a + of_nat i) = bs ! i"
proof -
  have "unat (of_nat i :: u64) = i"
    using assms by (intro unat_of_nat_eq) simp
  then show ?thesis using assms(1) by (simp add: mwrite_def)
qed

lemma mwrite_single: "mwrite m a [b] = m(a := b)"
  by (rule ext) (auto simp: mwrite_def unat_eq_0)

lemma mwrite_append:
  assumes "length xs + length ys \<le> 2 ^ 64"
  shows "mwrite (mwrite m a xs) (a + of_nat (length xs)) ys = mwrite m a (xs @ ys)"
proof (rule ext)
  fix x
  let ?d = "x - a" and ?n = "length xs"
  have eq: "x - (a + of_nat ?n) = ?d - of_nat ?n"
    by simp
  show "mwrite (mwrite m a xs) (a + of_nat ?n) ys x = mwrite m a (xs @ ys) x"
  proof (cases "ys = []")
    case False
    then have "?n < 2 ^ 64"
      using assms by (cases ys) auto
    then have n: "unat (of_nat ?n :: u64) = ?n"
      by (intro unat_of_nat_eq) simp
    show ?thesis
    proof (cases "unat ?d < ?n")
      case True
      then have "unat (?d - of_nat ?n) = unat ?d + 2 ^ 64 - ?n"
        using n by (simp add: unat_sub_if')
      then have "\<not> unat (?d - of_nat ?n) < length ys"
        using assms by linarith
      then show ?thesis
        using True unfolding eq mwrite_def by (simp add: nth_append)
    next
      case nlt: False
      then have "unat (?d - of_nat ?n) = unat ?d - ?n"
        using n by (simp add: unat_sub_if')
      then show ?thesis
        using nlt unfolding eq mwrite_def by (auto simp: nth_append)
    qed
  qed simp
qed

lemma mwrite_Cons: "length bs < 2 ^ 64 \<Longrightarrow> mwrite (m(a := b)) (a + 1) bs = mwrite m a (b # bs)"
  using mwrite_append [of "[b]" bs m a] by (simp add: mwrite_single)

lemma mwrite_snoc:
  "length bs < 2 ^ 64 \<Longrightarrow> mwrite (m(a + of_nat (length bs) := b)) a bs = mwrite m a (bs @ [b])"
proof -
  assume len: "length bs < 2 ^ 64"
  have comm: "mwrite (m(a + of_nat (length bs) := b)) a bs
      = (mwrite m a bs)(a + of_nat (length bs) := b)"
  proof (rule ext)
    fix x
    have "unat (of_nat (length bs) :: u64) = length bs"
      using len by (intro unat_of_nat_eq) simp
    then show "mwrite (m(a + of_nat (length bs) := b)) a bs x
        = ((mwrite m a bs)(a + of_nat (length bs) := b)) x"
      by (auto simp: mwrite_def)
  qed
  show ?thesis
    using mwrite_append [of bs "[b]" m a] len by (simp add: comm mwrite_single)
qed

lemma mbytes_Suc: "mbytes m a (Suc n) = m a # mbytes m (a + 1) n"
  unfolding mbytes_def upt_conv_Cons [OF zero_less_Suc] list.map map_Suc_upt [symmetric] map_map
  by (simp add: algebra_simps)

lemma mbytes_snoc: "mbytes m a (Suc n) = mbytes m a n @ [m (a + of_nat n)]"
  by (simp add: mbytes_def)

lemma mbytes_cong: "(\<And>i. i < n \<Longrightarrow> m (a + of_nat i) = m' (a + of_nat i)) \<Longrightarrow> mbytes m a n = mbytes m' a n"
  by (simp add: mbytes_def)

lemma mbytes_upd_out:
  "(\<And>i. i < n \<Longrightarrow> a + of_nat i \<noteq> x) \<Longrightarrow> mbytes (m(x := b)) a n = mbytes m a n"
  by (rule mbytes_cong) auto

lemma add_of_nat_ne:
  assumes "unat a + i \<noteq> unat b + j" and "unat a + i < 2 ^ 64" and "unat b + j < 2 ^ 64"
  shows "(a :: u64) + of_nat i \<noteq> b + of_nat j"
proof
  assume "a + of_nat i = b + of_nat j"
  moreover have "unat (a + of_nat i) = unat a + i" "unat (b + of_nat j) = unat b + j"
    using assms(2,3) by (auto intro: unat_add_no_wrap)
  ultimately show False using assms(1) by simp
qed

lemma mbytes_mwrite_same:
  assumes "length bs \<le> 2 ^ 64"
  shows "mbytes (mwrite m a bs) a (length bs) = bs"
  using assms by (intro nth_equalityI) (simp_all add: mwrite_at)

text \<open>Two runs of bytes are apart when no address is in both.\<close>

definition apart :: "u64 \<Rightarrow> nat \<Rightarrow> u64 \<Rightarrow> nat \<Rightarrow> bool" where
  "apart a n b k \<longleftrightarrow> (\<forall>i<n. \<forall>j<k. a + of_nat i \<noteq> b + of_nat j)"

lemma apart_sym: "apart a n b k \<Longrightarrow> apart b k a n"
  by (auto simp: apart_def) metis

lemma mwrite_apart:
  assumes "apart a (length bs) b k" and "j < k"
  shows "mwrite m a bs (b + of_nat j) = m (b + of_nat j)"
proof (rule mwrite_out)
  let ?x = "b + of_nat j"
  show "\<not> unat (?x - a) < length bs"
  proof
    assume lt: "unat (?x - a) < length bs"
    have "a + of_nat (unat (?x - a)) = ?x" by simp
    with assms lt show False unfolding apart_def by metis
  qed
qed

lemma mbytes_mwrite_apart:
  "apart a (length bs) b k \<Longrightarrow> mbytes (mwrite m a bs) b k = mbytes m b k"
  by (rule nth_equalityI) (simp_all add: mwrite_apart)

lemma apart_intervals:
  assumes "unat a + n \<le> unat b \<or> unat b + k \<le> unat a"
    and "unat a + n \<le> 2 ^ 64" and "unat b + k \<le> 2 ^ 64"
  shows "apart a n b k"
  unfolding apart_def
proof (intro allI impI notI)
  fix i j assume i: "i < n" and j: "j < k" and eq: "a + of_nat i = b + of_nat j"
  have "unat (a + of_nat i) = unat a + i"
    using i assms(2) by (intro unat_add_no_wrap) simp
  moreover have "unat (b + of_nat j) = unat b + j"
    using j assms(3) by (intro unat_add_no_wrap) simp
  ultimately show False using eq i j assms(1) by auto
qed

section \<open>Little-endian integers\<close>

fun le_word :: "u8 list \<Rightarrow> 'a::len word" where
  "le_word [] = 0"
| "le_word (b # bs) = ucast b OR push_bit 8 (le_word bs)"

fun le_bytes :: "nat \<Rightarrow> 'a::len word \<Rightarrow> u8 list" where
  "le_bytes 0 w = []"
| "le_bytes (Suc n) w = ucast w # le_bytes n (drop_bit 8 w)"

lemma length_le_bytes [simp]: "length (le_bytes n w) = n"
  by (induction n arbitrary: w) auto

lemma le_word_le_bytes: "le_word (le_bytes n w) = take_bit (8 * n) (w :: 'a::len word)"
proof (induction n arbitrary: w)
  case 0
  then show ?case by simp
next
  case (Suc n)
  have "bit (take_bit (8 * Suc n) w) i \<longleftrightarrow>
      bit (ucast (ucast w :: u8) OR push_bit 8 (take_bit (8 * n) (drop_bit 8 w))) i"
    if "i < LENGTH('a)" for i
    using that
    by (cases "i < 8")
      (simp_all add: bit_or_iff bit_ucast_iff bit_push_bit_iff bit_take_bit_iff bit_drop_bit_eq,
       auto)
  then show ?case
    unfolding le_bytes.simps le_word.simps Suc by (intro bit_word_eqI) blast
qed

lemma bit_le_word_bound: "bit (le_word bs :: 'a::len word) i \<Longrightarrow> i < 8 * length bs"
proof (induction bs arbitrary: i)
  case Nil
  then show ?case by simp
next
  case (Cons b bs)
  show ?case
  proof (cases "i < 8")
    case False
    then have "\<not> bit (ucast b :: 'a word) i"
      by (auto simp: bit_ucast_iff dest: bit_imp_le_length)
    with Cons.prems have "bit (le_word bs :: 'a word) (i - 8)"
      by (simp add: bit_or_iff bit_push_bit_iff)
    then have "i - 8 < 8 * length bs" by (rule Cons.IH)
    with False show ?thesis by simp
  qed simp
qed

lemma le_word_le_bytes_full [simp]:
  "LENGTH('a) = 8 * n \<Longrightarrow> le_word (le_bytes n w) = (w :: 'a::len word)"
  by (metis le_word_le_bytes take_bit_length_eq)

lemma le_bytes_le_word:
  "8 * length bs \<le> LENGTH('a) \<Longrightarrow> le_bytes (length bs) (le_word bs :: 'a::len word) = bs"
proof (induction bs)
  case Nil
  then show ?case by simp
next
  case (Cons b bs)
  then have len: "8 + 8 * length bs \<le> LENGTH('a)" by simp
  have low: "ucast (ucast b OR push_bit 8 (le_word bs) :: 'a word) = b"
    by (rule bit_word_eqI)
      (use len in \<open>simp add: bit_ucast_iff bit_or_iff bit_push_bit_iff\<close>)
  have "drop_bit 8 (ucast b OR push_bit 8 (le_word bs) :: 'a word) = le_word bs"
  proof (rule bit_word_eqI)
    fix i assume "i < LENGTH('a)"
    have "\<not> bit b (i + 8)"
      by (auto dest: bit_imp_le_length)
    moreover have "i + 8 < LENGTH('a)" if "bit (le_word bs :: 'a word) i"
      using bit_le_word_bound [OF that] len by simp
    ultimately show "bit (drop_bit 8 (ucast b OR push_bit 8 (le_word bs) :: 'a word)) i =
        bit (le_word bs :: 'a word) i"
      by (auto simp: bit_drop_bit_eq bit_or_iff bit_ucast_iff bit_push_bit_iff add.commute)
  qed
  with low Cons show ?case by simp
qed

definition load64 :: "memory \<Rightarrow> u64 \<Rightarrow> u64" where
  "load64 m a = le_word (mbytes m a 8)"

definition store64 :: "memory \<Rightarrow> u64 \<Rightarrow> u64 \<Rightarrow> memory" where
  "store64 m a v = mwrite m a (le_bytes 8 v)"

lemma load64_store64 [simp]: "load64 (store64 m a v) a = v"
proof -
  have "mbytes (mwrite m a (le_bytes 8 v)) a (length (le_bytes 8 v)) = le_bytes 8 v"
    by (rule mbytes_mwrite_same) simp
  then show ?thesis by (simp add: load64_def store64_def)
qed

lemma load64_mwrite_apart:
  "apart a (length bs) b 8 \<Longrightarrow> load64 (mwrite m a bs) b = load64 m b"
  by (simp add: load64_def mbytes_mwrite_apart)

lemma load64_store64_apart: "apart a 8 b 8 \<Longrightarrow> load64 (store64 m a v) b = load64 m b"
  by (simp add: store64_def load64_mwrite_apart)

end
