(* ===== verification/Riscv.thy ===== *)
theory Riscv
  imports Prelude
begin

text \<open>
  The constants and address macros of \<open>kernel/riscv.h\<close>, \<open>kernel/memlayout.h\<close> and
  \<open>kernel/param.h\<close>: page rounding, page-table entries, the three 9-bit page-table indices of a
  virtual address, and the fixed addresses of the physical and virtual memory layout. The lemmas
  give the macros their arithmetic meaning and their round trips.
\<close>

section \<open>Pages and page-table entries (riscv.h)\<close>

definition PGSIZE :: u64 where "PGSIZE = 4096"

definition PGSHIFT :: nat where "PGSHIFT = 12"

definition PGROUNDUP :: "u64 \<Rightarrow> u64" where
  "PGROUNDUP sz = (sz + PGSIZE - 1) AND NOT (PGSIZE - 1)"

definition PGROUNDDOWN :: "u64 \<Rightarrow> u64" where
  "PGROUNDDOWN a = a AND NOT (PGSIZE - 1)"

definition PTE_V :: u64 where "PTE_V = push_bit 0 1"
definition PTE_R :: u64 where "PTE_R = push_bit 1 1"
definition PTE_W :: u64 where "PTE_W = push_bit 2 1"
definition PTE_X :: u64 where "PTE_X = push_bit 3 1"
definition PTE_U :: u64 where "PTE_U = push_bit 4 1"

definition PA2PTE :: "u64 \<Rightarrow> u64" where
  "PA2PTE pa = push_bit 10 (drop_bit 12 pa)"

definition PTE2PA :: "u64 \<Rightarrow> u64" where
  "PTE2PA pte = push_bit 12 (drop_bit 10 pte)"

definition PTE_FLAGS :: "u64 \<Rightarrow> u64" where
  "PTE_FLAGS pte = pte AND 0x3FF"

definition PXMASK :: u64 where "PXMASK = 0x1FF"

definition PXSHIFT :: "nat \<Rightarrow> nat" where
  "PXSHIFT level = PGSHIFT + 9 * level"

definition PX :: "nat \<Rightarrow> u64 \<Rightarrow> u64" where
  "PX level va = drop_bit (PXSHIFT level) va AND PXMASK"

definition MAXVA :: u64 where
  "MAXVA = push_bit (9 + 9 + 9 + 12 - 1) 1"

definition SATP_SV39 :: u64 where "SATP_SV39 = push_bit 60 8"

definition MAKE_SATP :: "u64 \<Rightarrow> u64" where
  "MAKE_SATP pagetable = SATP_SV39 OR drop_bit 12 pagetable"

section \<open>Memory layout (memlayout.h) and parameters (param.h)\<close>

definition UART0 :: u64 where "UART0 = 0x10000000"
definition UART0_IRQ :: u32 where "UART0_IRQ = 10"
definition VIRTIO0 :: u64 where "VIRTIO0 = 0x10001000"
definition VIRTIO0_IRQ :: u32 where "VIRTIO0_IRQ = 1"
definition CLINT :: u64 where "CLINT = 0x2000000"
definition PLIC :: u64 where "PLIC = 0x0c000000"

definition CLINT_MTIMECMP :: "u64 \<Rightarrow> u64" where
  "CLINT_MTIMECMP hartid = CLINT + 0x4000 + 8 * hartid"

definition CLINT_MTIME :: u64 where "CLINT_MTIME = CLINT + 0xBFF8"

definition PLIC_SENABLE :: "u64 \<Rightarrow> u64" where
  "PLIC_SENABLE hart = PLIC + 0x2080 + hart * 0x100"

definition PLIC_SPRIORITY :: "u64 \<Rightarrow> u64" where
  "PLIC_SPRIORITY hart = PLIC + 0x201000 + hart * 0x2000"

definition PLIC_SCLAIM :: "u64 \<Rightarrow> u64" where
  "PLIC_SCLAIM hart = PLIC + 0x201004 + hart * 0x2000"

definition KERNBASE :: u64 where "KERNBASE = 0x80000000"
definition PHYSTOP :: u64 where "PHYSTOP = KERNBASE + 128 * 1024 * 1024"
definition TRAMPOLINE :: u64 where "TRAMPOLINE = MAXVA - PGSIZE"
definition TRAPFRAME :: u64 where "TRAPFRAME = TRAMPOLINE - PGSIZE"
definition USYSCALL :: u64 where "USYSCALL = TRAPFRAME - PGSIZE"

definition KSTACK :: "nat \<Rightarrow> u64" where
  "KSTACK p = TRAMPOLINE - of_nat p * 2 * PGSIZE - 3 * PGSIZE"

definition NPROC :: nat where "NPROC = 64"
definition NCPU :: nat where "NCPU = 8"
definition NOFILE :: nat where "NOFILE = 16"
definition NFILE :: nat where "NFILE = 100"
definition NINODE :: nat where "NINODE = 50"
definition NDEV :: nat where "NDEV = 10"
definition ROOTDEV :: u32 where "ROOTDEV = 1"
definition MAXARG :: nat where "MAXARG = 32"
definition MAXOPBLOCKS :: nat where "MAXOPBLOCKS = 10"
definition LOGSIZE :: nat where "LOGSIZE = MAXOPBLOCKS * 3"
definition NBUF :: nat where "NBUF = MAXOPBLOCKS * 3"
definition FSSIZE :: nat where "FSSIZE = 2000"
definition MAXPATH :: nat where "MAXPATH = 128"

lemmas riscv_consts =
  PGSIZE_def PGSHIFT_def PTE_V_def PTE_R_def PTE_W_def PTE_X_def PTE_U_def PXMASK_def
  PXSHIFT_def MAXVA_def SATP_SV39_def

lemmas layout_consts =
  UART0_def VIRTIO0_def CLINT_def PLIC_def KERNBASE_def PHYSTOP_def TRAMPOLINE_def
  TRAPFRAME_def USYSCALL_def

lemmas param_consts =
  NPROC_def NCPU_def NOFILE_def NFILE_def NINODE_def NDEV_def ROOTDEV_def MAXARG_def
  MAXOPBLOCKS_def LOGSIZE_def NBUF_def FSSIZE_def MAXPATH_def

section \<open>Page rounding\<close>

definition page_aligned :: "u64 \<Rightarrow> bool" where
  "page_aligned a \<longleftrightarrow> a mod PGSIZE = 0"

lemma page_aligned_unat: "page_aligned a \<longleftrightarrow> 4096 dvd unat a"
  by (simp add: page_aligned_def PGSIZE_def word_unat_eq_iff unat_mod dvd_eq_mod_eq_0)

lemma page_aligned_take_bit: "page_aligned a \<longleftrightarrow> take_bit 12 a = 0"
proof -
  have "take_bit 12 a = a mod 4096"
    by (simp add: take_bit_eq_mod)
  then show ?thesis by (simp add: page_aligned_def PGSIZE_def)
qed

lemma mask12: "(4095 :: u64) = mask 12"
  by (simp add: mask_eq_exp_minus_1)

lemma PGROUNDDOWN_bits: "PGROUNDDOWN a = push_bit 12 (drop_bit 12 a)"
proof -
  have "PGROUNDDOWN a = a AND NOT (mask 12)"
    by (simp add: PGROUNDDOWN_def PGSIZE_def mask12)
  also have "\<dots> = push_bit 12 (drop_bit 12 a)"
    by (rule bit_word_eqI) (auto simp: bit_simps)
  finally show ?thesis .
qed

lemma unat_PGROUNDDOWN: "unat (PGROUNDDOWN a) = unat a div 4096 * 4096"
proof -
  have "PGROUNDDOWN a = a - take_bit 12 a"
    by (metis PGROUNDDOWN_bits add_diff_cancel_right' bits_ident)
  moreover have "take_bit 12 a = a mod 4096"
    by (simp add: take_bit_eq_mod)
  moreover have "a mod 4096 \<le> a"
    by (simp add: word_le_nat_alt unat_mod)
  ultimately have "unat (PGROUNDDOWN a) = unat a - unat (a mod 4096)"
    by (metis unat_sub)
  then show ?thesis
    by (simp add: unat_mod minus_mod_eq_div_mult)
qed

lemma PGROUNDDOWN_aligned [simp]: "page_aligned (PGROUNDDOWN a)"
  by (simp add: page_aligned_unat unat_PGROUNDDOWN)

lemma PGROUNDDOWN_le [simp]: "PGROUNDDOWN a \<le> a"
  by (simp add: word_le_nat_alt unat_PGROUNDDOWN)

lemma PGROUNDDOWN_id: "page_aligned a \<Longrightarrow> PGROUNDDOWN a = a"
  by (simp add: word_unat_eq_iff unat_PGROUNDDOWN page_aligned_unat)

lemma PGROUNDUP_eq: "PGROUNDUP a = PGROUNDDOWN (a + 4095)"
  by (simp add: PGROUNDUP_def PGROUNDDOWN_def PGSIZE_def add.commute)

lemma unat_PGROUNDUP:
  assumes "unat a + 4095 < 2 ^ 64"
  shows "unat (PGROUNDUP a) = (unat a + 4095) div 4096 * 4096"
proof -
  have "unat (a + of_nat 4095) = unat a + 4095"
    using assms by (intro unat_add_no_wrap) simp
  then show ?thesis by (simp add: PGROUNDUP_eq unat_PGROUNDDOWN)
qed

lemma PGROUNDUP_aligned [simp]: "page_aligned (PGROUNDUP a)"
  by (simp add: PGROUNDUP_eq)

section \<open>Page-table entries and indices\<close>

text \<open>A physical address fits a page-table entry when it is page-aligned and below \<open>2^56\<close>.\<close>

definition pte_addr :: "u64 \<Rightarrow> bool" where
  "pte_addr pa \<longleftrightarrow> page_aligned pa \<and> unat pa < 2 ^ 56"

lemma take_bit_le_bit: "take_bit n a = (0 :: u64) \<Longrightarrow> bit a i \<Longrightarrow> n \<le> i"
  by (metis bit_0_eq bit_take_bit_iff bot_apply bot_bool_def linorder_not_less)

lemma unat_lt_bit: "unat (a :: u64) < 2 ^ n \<Longrightarrow> bit a i \<Longrightarrow> i < n"
proof -
  assume "unat a < 2 ^ n" and b: "bit a i"
  then have "take_bit n (unat a) = unat a"
    by (simp add: take_bit_nat_eq_self)
  moreover have "bit (unat a) i"
    using b by (simp add: bit_unsigned_iff)
  ultimately show "i < n"
    by (metis bit_take_bit_iff)
qed

lemma PTE2PA_PA2PTE:
  assumes "pte_addr pa" and "unat flags < 2 ^ 10"
  shows "PTE2PA (PA2PTE pa OR flags) = pa"
proof (rule bit_word_eqI)
  fix i assume i: "i < LENGTH(64)"
  have lo: "12 \<le> i" and hi: "i < 56" if "bit pa i"
    using that assms(1) take_bit_le_bit [of 12 pa i] unat_lt_bit [of pa 56 i]
    by (auto simp: pte_addr_def page_aligned_take_bit)
  have "\<not> bit flags j" if "10 \<le> j" for j
    using unat_lt_bit [OF assms(2), of j] that by auto
  then show "bit (PTE2PA (PA2PTE pa OR flags)) i = bit pa i"
    using lo hi i
    by (auto simp: PTE2PA_def PA2PTE_def bit_push_bit_iff bit_drop_bit_eq bit_or_iff)
qed

lemma PTE_FLAGS_PA2PTE:
  assumes "unat flags < 2 ^ 10"
  shows "PTE_FLAGS (PA2PTE pa OR flags) = flags"
proof -
  have m: "(0x3FF :: u64) = mask 10"
    by (simp add: mask_eq_exp_minus_1)
  show ?thesis
    unfolding PTE_FLAGS_def m
    by (rule bit_word_eqI)
      (use unat_lt_bit [OF assms] in \<open>auto simp: PA2PTE_def bit_simps\<close>)
qed

lemma PX_bits: "bit (PX l va) i \<longleftrightarrow> i < 9 \<and> bit va (12 + 9 * l + i)"
proof -
  have m: "PXMASK = mask 9"
    by (simp add: PXMASK_def mask_eq_exp_minus_1)
  show ?thesis
    by (auto simp: PX_def m PXSHIFT_def PGSHIFT_def bit_simps dest: bit_imp_le_length)
qed

lemma unat_PX: "unat (PX l va) < 512"
proof -
  have "PX l va AND PXMASK = PX l va"
    by (simp add: PX_def and.assoc)
  then have "PX l va \<le> PXMASK"
    by (metis word_and_le1)
  then show ?thesis by (simp add: word_le_nat_alt PXMASK_def)
qed

lemma lt_MAXVA_bit: "va < MAXVA \<Longrightarrow> bit va i \<Longrightarrow> i < 38"
  by (rule unat_lt_bit) (simp add: MAXVA_def word_less_nat_alt)

text \<open>
  A virtual address below \<open>MAXVA\<close> is its three indices and its page offset: no bit is lost and
  none is used twice.
\<close>

lemma PX_decompose:
  assumes "va < MAXVA"
  shows "va = push_bit 30 (PX 2 va) OR push_bit 21 (PX 1 va) OR push_bit 12 (PX 0 va)
      OR take_bit 12 va"
proof (rule bit_word_eqI)
  fix i assume "i < LENGTH(64)"
  consider "i < 12" | "12 \<le> i" "i < 21" | "21 \<le> i" "i < 30" | "30 \<le> i" "i < 39" | "39 \<le> i"
    by linarith
  then show "bit va i = bit (push_bit 30 (PX 2 va) OR push_bit 21 (PX 1 va) OR
      push_bit 12 (PX 0 va) OR take_bit 12 va) i"
    using lt_MAXVA_bit [OF assms, of i] \<open>i < LENGTH(64)\<close>
    by cases (auto simp: bit_or_iff bit_push_bit_iff bit_take_bit_iff PX_bits)
qed

lemma PX_inject:
  assumes "va < MAXVA" and "vb < MAXVA"
    and "PX 0 va = PX 0 vb" and "PX 1 va = PX 1 vb" and "PX 2 va = PX 2 vb"
  shows "PGROUNDDOWN va = PGROUNDDOWN vb"
proof -
  have eq: "bit va i = bit vb i" if "12 \<le> i" for i
  proof -
    consider "i < 21" | "21 \<le> i" "i < 30" | "30 \<le> i" "i < 39" | "39 \<le> i"
      by linarith
    then show ?thesis
    proof cases
      case 1
      with that PX_bits [of 0 va "i - 12"] PX_bits [of 0 vb "i - 12"] assms(3)
      show ?thesis by auto
    next
      case 2
      with PX_bits [of 1 va "i - 21"] PX_bits [of 1 vb "i - 21"] assms(4)
      show ?thesis by auto
    next
      case 3
      with PX_bits [of 2 va "i - 30"] PX_bits [of 2 vb "i - 30"] assms(5)
      show ?thesis by auto
    next
      case 4
      with lt_MAXVA_bit assms(1,2) show ?thesis by fastforce
    qed
  qed
  show ?thesis
    unfolding PGROUNDDOWN_bits
    by (rule bit_word_eqI) (auto simp: bit_push_bit_iff bit_drop_bit_eq eq)
qed

section \<open>Kernel stacks\<close>

lemma unat_KSTACK:
  assumes "p < NPROC"
  shows "unat (KSTACK p) = 0x3FFFFFC000 - p * 8192"
proof -
  have "of_nat p * 2 * (4096 :: u64) = of_nat (p * 8192)"
    by simp
  then have k: "KSTACK p = 0x3FFFFFC000 - of_nat (p * 8192)"
    by (simp add: KSTACK_def TRAMPOLINE_def MAXVA_def PGSIZE_def algebra_simps)
  have b: "unat (of_nat (p * 8192) :: u64) = p * 8192"
    using assms by (intro unat_of_nat_eq) (simp add: NPROC_def)
  have "(of_nat (p * 8192) :: u64) \<le> 0x3FFFFFC000"
    unfolding word_le_nat_alt b using assms by (simp add: NPROC_def)
  then have "unat (0x3FFFFFC000 - of_nat (p * 8192) :: u64) = unat (0x3FFFFFC000 :: u64) - p * 8192"
    by (simp only: unat_sub b)
  then show ?thesis unfolding k by simp
qed

end
