(* ===== verification/Cstring.thy ===== *)
theory Cstring
  imports Riscv
begin

text \<open>
  The memory and string routines of \<open>kernel/string.c\<close>, as loops over byte-addressed memory
  with the source's pointer arithmetic, and their closed forms: \<open>memset\<close> fills a run of bytes,
  \<open>memmove\<close> copies one run onto another even when they overlap, \<open>strncpy\<close> and
  \<open>safestrcpy\<close> write what C promises, \<open>strlen\<close> finds the terminator.
\<close>

section \<open>memset, memcmp, memmove\<close>

text \<open>
  \<open>memset\<close>: the counter \<open>i\<close> is an \<open>int\<close> compared with the unsigned \<open>n\<close> (so as unsigned) and
  used as a signed index.
\<close>

function memset_loop :: "memory \<Rightarrow> u64 \<Rightarrow> u8 \<Rightarrow> u32 \<Rightarrow> u32 \<Rightarrow> memory" where
  "memset_loop m cdst c i n =
     (if i < n then memset_loop (m(cdst + scast i := c)) cdst c (i + 1) n else m)"
  by pat_completeness auto
termination
proof (relation "measure (\<lambda>(m, cdst, c, i, n). unat n - unat i)")
  fix m :: memory and cdst c i and n :: u32
  assume "i < n"
  moreover from this have "unat (i + 1) = Suc (unat i)"
    by (rule unat_suc_less)
  ultimately show "((m(cdst + scast i := c), cdst, c, i + 1, n), m, cdst, c, i, n)
      \<in> measure (\<lambda>(m, cdst, c, i, n). unat n - unat i)"
    by (simp add: word_less_nat_alt)
qed simp

definition memset :: "memory \<Rightarrow> u64 \<Rightarrow> u32 \<Rightarrow> u32 \<Rightarrow> memory" where
  "memset m dst c n = memset_loop m dst (ucast c) 0 n"

text \<open>\<open>memcmp\<close>: the first difference of two runs, as unsigned characters.\<close>

fun memcmp_loop :: "memory \<Rightarrow> u64 \<Rightarrow> u64 \<Rightarrow> nat \<Rightarrow> int" where
  "memcmp_loop m s1 s2 0 = 0"
| "memcmp_loop m s1 s2 (Suc n) =
     (if m s1 \<noteq> m s2 then uint (m s1) - uint (m s2)
      else memcmp_loop m (s1 + 1) (s2 + 1) n)"

definition memcmp :: "memory \<Rightarrow> u64 \<Rightarrow> u64 \<Rightarrow> u32 \<Rightarrow> int" where
  "memcmp m v1 v2 n = memcmp_loop m v1 v2 (unat n)"

text \<open>\<open>memmove\<close>: forwards, or backwards from the end when the source starts below an overlapping
  destination.\<close>

fun memmove_fwd :: "memory \<Rightarrow> u64 \<Rightarrow> u64 \<Rightarrow> nat \<Rightarrow> memory" where
  "memmove_fwd m d s 0 = m"
| "memmove_fwd m d s (Suc n) = memmove_fwd (m(d := m s)) (d + 1) (s + 1) n"

fun memmove_bwd :: "memory \<Rightarrow> u64 \<Rightarrow> u64 \<Rightarrow> nat \<Rightarrow> memory" where
  "memmove_bwd m d s 0 = m"
| "memmove_bwd m d s (Suc n) = memmove_bwd (m(d - 1 := m (s - 1))) (d - 1) (s - 1) n"

definition memmove :: "memory \<Rightarrow> u64 \<Rightarrow> u64 \<Rightarrow> u32 \<Rightarrow> memory" where
  "memmove m dst src n =
     (if n = 0 then m
      else if src < dst \<and> src + ucast n > dst
      then memmove_bwd m (dst + ucast n) (src + ucast n) (unat n)
      else memmove_fwd m dst src (unat n))"

section \<open>Strings\<close>

fun strncmp_loop :: "memory \<Rightarrow> u64 \<Rightarrow> u64 \<Rightarrow> nat \<Rightarrow> int" where
  "strncmp_loop m p q 0 = 0"
| "strncmp_loop m p q (Suc n) =
     (if m p \<noteq> 0 \<and> m p = m q then strncmp_loop m (p + 1) (q + 1) n
      else uint (m p) - uint (m q))"

definition strncmp :: "memory \<Rightarrow> u64 \<Rightarrow> u64 \<Rightarrow> u32 \<Rightarrow> int" where
  "strncmp m p q n = strncmp_loop m p q (unat n)"

text \<open>The second loop of \<open>strncpy\<close>: zero the rest of the field.\<close>

fun strncpy_pad :: "memory \<Rightarrow> u64 \<Rightarrow> nat \<Rightarrow> memory" where
  "strncpy_pad m s 0 = m"
| "strncpy_pad m s (Suc n) = strncpy_pad (m(s := 0)) (s + 1) n"

fun strncpy_loop :: "memory \<Rightarrow> u64 \<Rightarrow> u64 \<Rightarrow> nat \<Rightarrow> memory" where
  "strncpy_loop m s t 0 = m"
| "strncpy_loop m s t (Suc n) =
     (let m' = m(s := m t) in
      if m t \<noteq> 0 then strncpy_loop m' (s + 1) (t + 1) n
      else strncpy_pad m' (s + 1) n)"

text \<open>The argument \<open>n\<close> is an \<open>int\<close>: a negative length copies nothing.\<close>

definition strncpy :: "memory \<Rightarrow> u64 \<Rightarrow> u64 \<Rightarrow> int \<Rightarrow> memory" where
  "strncpy m s t n = strncpy_loop m s t (nat n)"

fun safestrcpy_loop :: "memory \<Rightarrow> u64 \<Rightarrow> u64 \<Rightarrow> nat \<Rightarrow> memory" where
  "safestrcpy_loop m s t 0 = m(s := 0)"
| "safestrcpy_loop m s t (Suc n) =
     (let m' = m(s := m t) in
      if m t \<noteq> 0 then safestrcpy_loop m' (s + 1) (t + 1) n
      else m'(s + 1 := 0))"

definition safestrcpy :: "memory \<Rightarrow> u64 \<Rightarrow> u64 \<Rightarrow> int \<Rightarrow> memory" where
  "safestrcpy m s t n = (if n \<le> 0 then m else safestrcpy_loop m s t (nat (n - 1)))"

partial_function (option) strlen_loop :: "memory \<Rightarrow> u64 \<Rightarrow> nat \<Rightarrow> nat option" where
  "strlen_loop m s n = (if m (s + of_nat n) \<noteq> 0 then strlen_loop m s (Suc n) else Some n)"

definition strlen :: "memory \<Rightarrow> u64 \<Rightarrow> nat option" where
  "strlen m s = strlen_loop m s 0"

section \<open>Closed forms\<close>

declare memset_loop.simps [simp del]

lemma scast_nonneg: "unat (i :: u32) < 2 ^ 31 \<Longrightarrow> (scast i :: u64) = ucast i"
proof -
  assume "unat i < 2 ^ 31"
  then have "uint i < 2 ^ 31"
    by (simp add: nat_less_iff flip: nat_uint_eq)
  moreover have "- (2 ^ 31) \<le> uint i"
    by (rule order_trans [OF _ uint_ge_0]) simp
  ultimately have "sint i = uint i"
    by (simp add: sint_uint signed_take_bit_int_eq_self)
  then show ?thesis
    by (simp only: scast_eq ucast_eq)
qed

lemma unat_ucast64 [simp]: "unat (ucast (i :: u32) :: u64) = unat i"
proof -
  have "unat i < 2 ^ LENGTH(32)"
    by (rule unsigned_less)
  then have "take_bit 64 (unat i) = unat i"
    by (simp add: take_bit_nat_eq_self_iff)
  then show ?thesis by (simp add: unsigned_ucast_eq)
qed

lemma memset_loop_eq:
  "unat n \<le> 2 ^ 31 \<Longrightarrow> unat i \<le> unat n \<Longrightarrow>
   memset_loop m d c i n = mwrite m (d + ucast i) (replicate (unat n - unat i) c)"
proof (induction m d c i n rule: memset_loop.induct)
  case (1 m d c i n)
  show ?case
  proof (cases "i < n")
    case True
    then have lt: "unat i < unat n" by (simp add: word_less_nat_alt)
    have s: "unat (i + 1) = Suc (unat i)"
      using True by (rule unat_suc_less)
    have sc: "scast i = (ucast i :: u64)"
      using lt "1.prems" by (intro scast_nonneg) simp
    have "(ucast (i + 1) :: u64) = of_nat (Suc (unat i))"
      by (metis of_nat_unat s)
    then have u1: "d + ucast (i + 1) = d + ucast i + 1"
      by (simp add: algebra_simps)
    have "memset_loop (m(d + ucast i := c)) d c (i + 1) n
        = mwrite (m(d + ucast i := c)) (d + ucast (i + 1)) (replicate (unat n - unat (i + 1)) c)"
      using True lt "1.prems" s by (intro "1.IH" [OF True, unfolded sc]) simp_all
    then have "memset_loop m d c i n
        = mwrite (m(d + ucast i := c)) (d + ucast i + 1) (replicate (unat n - Suc (unat i)) c)"
      using True by (simp only: memset_loop.simps [of m d c i n] s sc u1 if_True)
    also have "\<dots> = mwrite m (d + ucast i) (c # replicate (unat n - Suc (unat i)) c)"
      using "1.prems" by (intro mwrite_Cons) simp
    also have "c # replicate (unat n - Suc (unat i)) c = replicate (unat n - unat i) c"
      using lt by (metis Suc_diff_Suc replicate_Suc)
    finally show ?thesis .
  next
    case False
    then have "unat n \<le> unat i" by (simp add: word_less_nat_alt)
    with False show ?thesis by (simp add: memset_loop.simps [of m d c i n])
  qed
qed

lemma memset_eq:
  "unat n \<le> 2 ^ 31 \<Longrightarrow> memset m dst c n = mwrite m dst (replicate (unat n) (ucast c))"
  using memset_loop_eq [of n 0 m dst "ucast c"] by (simp add: memset_def)

lemma memmove_fwd_eq:
  assumes "unat s + n \<le> 2 ^ 64" and "unat d + n \<le> 2 ^ 64" and "unat d \<le> unat s \<or> unat s + n \<le> unat d"
  shows "memmove_fwd m d s n = mwrite m d (mbytes m s n)"
  using assms
proof (induction n arbitrary: m d s)
  case 0
  then show ?case by (simp add: mbytes_def)
next
  case (Suc n)
  show ?case
  proof (cases "n = 0")
    case True
    then show ?thesis by (simp add: mbytes_Suc mwrite_single mbytes_def)
  next
    case False
    have s1: "unat (s + 1) = Suc (unat s)" and d1: "unat (d + 1) = Suc (unat d)"
      using unat_add_no_wrap [of s 1] unat_add_no_wrap [of d 1] Suc.prems False by simp_all
    have "mbytes (m(d := m s)) (s + 1) n = mbytes m (s + 1) n"
    proof (rule mbytes_upd_out)
      fix i assume "i < n"
      then show "s + 1 + of_nat i \<noteq> d"
        using add_of_nat_ne [of "s + 1" i d 0] s1 Suc.prems by auto
    qed
    moreover have "memmove_fwd (m(d := m s)) (d + 1) (s + 1) n
        = mwrite (m(d := m s)) (d + 1) (mbytes (m(d := m s)) (s + 1) n)"
      using Suc.prems s1 d1 by (intro Suc.IH) auto
    ultimately show ?thesis
      using Suc.prems by (simp add: mwrite_Cons mbytes_Suc)
  qed
qed

lemma memmove_bwd_eq:
  assumes "unat s < unat d" and "unat d + n \<le> 2 ^ 64"
  shows "memmove_bwd m (d + of_nat n) (s + of_nat n) n = mwrite m d (mbytes m s n)"
  using assms(2)
proof (induction n arbitrary: m)
  case 0
  then show ?case by (simp add: mbytes_def)
next
  case (Suc n)
  let ?m = "m(d + of_nat n := m (s + of_nat n))"
  have "mbytes ?m s n = mbytes m s n"
  proof (rule mbytes_upd_out)
    fix i assume "i < n"
    then show "s + of_nat i \<noteq> d + of_nat n"
      using add_of_nat_ne [of s i d n] assms(1) Suc.prems by auto
  qed
  moreover have "memmove_bwd m (d + of_nat (Suc n)) (s + of_nat (Suc n)) (Suc n)
      = memmove_bwd ?m (d + of_nat n) (s + of_nat n) n"
    by (simp add: algebra_simps)
  moreover have "memmove_bwd ?m (d + of_nat n) (s + of_nat n) n = mwrite ?m d (mbytes ?m s n)"
    using Suc.prems by (intro Suc.IH) simp
  ultimately show ?case
    using mwrite_snoc [of "mbytes m s n" m d "m (s + of_nat n)"] Suc.prems
    by (simp add: mbytes_snoc)
qed

text \<open>Whatever the overlap, the destination ends up with the source's old bytes.\<close>

lemma memmove_eq:
  assumes "unat src + unat n \<le> 2 ^ 64" and "unat dst + unat n \<le> 2 ^ 64"
  shows "memmove m dst src n = mwrite m dst (mbytes m src (unat n))"
proof (cases "n = 0")
  case True
  then show ?thesis by (simp add: memmove_def mbytes_def)
next
  case n0: False
  show ?thesis
  proof (cases "src < dst \<and> src + ucast n > dst")
    case True
    then show ?thesis
      using memmove_bwd_eq [of src dst "unat n" m] assms n0
      by (simp add: memmove_def word_less_nat_alt)
  next
    case False
    have "unat dst \<le> unat src \<or> unat src + unat n \<le> unat dst"
    proof (cases "src < dst")
      case True
      then have "unat src + unat n < 2 ^ 64"
        using assms(2) by (simp add: word_less_nat_alt)
      then have "unat (src + ucast n) = unat src + unat n"
        using unat_add_no_wrap [of src "unat n"] by simp
      then show ?thesis using False True by (simp add: word_less_nat_alt)
    qed (simp add: word_less_nat_alt)
    then show ?thesis
      using False n0 assms by (auto simp: memmove_def memmove_fwd_eq)
  qed
qed

subsection \<open>String routines\<close>

text \<open>The bytes of a C string of at most \<open>n\<close> characters at \<open>t\<close>: up to the terminator.\<close>

definition cstr :: "memory \<Rightarrow> u64 \<Rightarrow> nat \<Rightarrow> u8 list" where
  "cstr m t n = takeWhile (\<lambda>b. b \<noteq> 0) (mbytes m t n)"

lemma cstr_Suc: "cstr m t (Suc n) = (if m t = 0 then [] else m t # cstr m (t + 1) n)"
  by (simp add: cstr_def mbytes_Suc)

lemma cstr_0 [simp]: "cstr m t 0 = []"
  by (simp add: cstr_def mbytes_def)

lemma cstr_length: "length (cstr m t n) \<le> n"
  by (metis cstr_def length_mbytes length_takeWhile_le)

lemma cstr_cong: "mbytes m t n = mbytes m' t n \<Longrightarrow> cstr m t n = cstr m' t n"
  by (simp add: cstr_def)

lemma strncpy_pad_eq: "n < 2 ^ 64 \<Longrightarrow> strncpy_pad m s n = mwrite m s (replicate n 0)"
  by (induction n arbitrary: m s) (simp_all add: mwrite_Cons)

lemma apart_Suc:
  assumes "apart s (Suc n) t (Suc k)"
  shows "apart (s + 1) n (t + 1) k"
  unfolding apart_def
proof (intro allI impI notI)
  fix i j assume "i < n" "j < k" and eq: "s + 1 + of_nat i = t + 1 + of_nat j"
  then have "s + of_nat (Suc i) \<noteq> t + of_nat (Suc j)"
    using assms unfolding apart_def by blast
  with eq show False by (simp add: algebra_simps)
qed

lemma apart_upd:
  assumes "apart s (Suc n) t (Suc n)"
  shows "mbytes (m(s := b)) (t + 1) n = mbytes m (t + 1) n"
proof (rule mbytes_upd_out)
  fix i assume "i < n"
  then have "s + of_nat 0 \<noteq> t + of_nat (Suc i)"
    using assms unfolding apart_def by blast
  then show "t + 1 + of_nat i \<noteq> s" by (simp add: algebra_simps)
qed

lemma strncpy_loop_eq:
  "n < 2 ^ 64 \<Longrightarrow> apart s n t n \<Longrightarrow>
   strncpy_loop m s t n = mwrite m s (cstr m t n @ replicate (n - length (cstr m t n)) 0)"
proof (induction n arbitrary: m s t)
  case 0
  then show ?case by simp
next
  case (Suc n)
  show ?case
  proof (cases "m t = 0")
    case True
    then show ?thesis
      using Suc.prems(1) by (simp add: cstr_Suc strncpy_pad_eq mwrite_Cons)
  next
    case False
    let ?m = "m(s := m t)"
    have "cstr ?m (t + 1) n = cstr m (t + 1) n"
      using Suc.prems(2) by (intro cstr_cong apart_upd)
    moreover have "strncpy_loop ?m (s + 1) (t + 1) n
        = mwrite ?m (s + 1) (cstr ?m (t + 1) n @ replicate (n - length (cstr ?m (t + 1) n)) 0)"
      using Suc.prems by (intro Suc.IH apart_Suc) simp_all
    moreover have "length (cstr m (t + 1) n) + (n - length (cstr m (t + 1) n)) < 2 ^ 64"
      using cstr_length [of m "t + 1" n] Suc.prems(1) by simp
    ultimately show ?thesis
      using False by (simp add: cstr_Suc mwrite_Cons)
  qed
qed

lemma safestrcpy_loop_outside:
  "(\<And>i. i \<le> n \<Longrightarrow> x \<noteq> s + of_nat i) \<Longrightarrow> safestrcpy_loop m s t n x = m x"
proof (induction n arbitrary: m s t)
  case 0
  then show ?case by simp
next
  case (Suc n)
  have "x \<noteq> s" "x \<noteq> s + 1"
    using Suc.prems [of 0] Suc.prems [of 1] by simp_all
  moreover have "x \<noteq> s + 1 + of_nat i" if "i \<le> n" for i
    using Suc.prems [of "Suc i"] that by (simp add: algebra_simps)
  ultimately show ?case by (simp add: Let_def Suc.IH)
qed

text \<open>
  After \<open>safestrcpy\<close> the destination holds the source cut to \<open>n\<close> characters, terminated.
\<close>

lemma safestrcpy_loop_bytes:
  "n < 2 ^ 64 - 1 \<Longrightarrow> apart s (Suc n) t n \<Longrightarrow>
   mbytes (safestrcpy_loop m s t n) s (Suc (length (cstr m t n))) = cstr m t n @ [0]"
proof (induction n arbitrary: m s t)
  case 0
  then show ?case by (simp add: mbytes_Suc mbytes_def)
next
  case (Suc n)
  show ?case
  proof (cases "m t = 0")
    case True
    then show ?thesis by (simp add: cstr_Suc mbytes_Suc) (simp add: mbytes_def)
  next
    case False
    let ?m = "m(s := m t)"
    have ap: "apart s (Suc n) t (Suc n)"
      using Suc.prems(2) by (auto simp: apart_def)
    have c: "cstr ?m (t + 1) n = cstr m (t + 1) n"
      using ap by (intro cstr_cong apart_upd)
    have "mbytes (safestrcpy_loop ?m (s + 1) (t + 1) n) (s + 1)
        (Suc (length (cstr ?m (t + 1) n))) = cstr ?m (t + 1) n @ [0]"
      using Suc.prems by (intro Suc.IH apart_Suc) simp_all
    moreover have "safestrcpy_loop ?m (s + 1) (t + 1) n s = m t"
    proof -
      have "s \<noteq> s + 1 + of_nat i" if "i \<le> n" for i
        using add_of_nat_ne [of 0 0 0 "Suc i"] that Suc.prems(1) by (simp add: algebra_simps)
      then show ?thesis by (subst safestrcpy_loop_outside) auto
    qed
    ultimately show ?thesis
      using False c by (simp add: cstr_Suc mbytes_Suc [of _ s])
  qed
qed

lemma strlen_loop_eq:
  assumes "\<And>j. n \<le> j \<Longrightarrow> j < k \<Longrightarrow> m (s + of_nat j) \<noteq> 0" and "m (s + of_nat k) = 0" and "n \<le> k"
  shows "strlen_loop m s n = Some k"
  using assms(3,1)
proof (induction n rule: inc_induct)
  case base
  then show ?case using assms(2) by (simp add: strlen_loop.simps)
next
  case (step n)
  then have "m (s + of_nat n) \<noteq> 0" by simp
  with step show ?case by (simp add: strlen_loop.simps [of m s n])
qed

lemma uint_eq_uint_iff: "uint a = uint b \<longleftrightarrow> a = (b :: u8)"
  by (metis unsigned_word_eqI)

lemma strncmp_loop_0_iff: "strncmp_loop m p q n = 0 \<longleftrightarrow> cstr m p n = cstr m q n"
  by (induction n arbitrary: p q) (auto simp: cstr_Suc uint_eq_uint_iff uint_0_iff)

end
