(* ===== verification/Kalloc.thy ===== *)
theory Kalloc
  imports Cstring
begin

text \<open>
  The physical page allocator, \<open>kernel/kalloc.c\<close>. Free pages form a linked list threaded
  through their own first eight bytes (\<open>struct run\<close>); the state is physical memory and the
  head of that list. A section between \<open>acquire(&kmem.lock)\<close> and \<open>release\<close> is one step of the
  model. The addresses the linker script defines (\<open>end\<close>, \<open>etext\<close>, \<open>trampoline\<close>) are fields
  that no operation writes.

  The abstraction \<open>flist\<close> reads the list out of memory; the locale \<open>page_pool\<close> states what
  the rest of the kernel may rely on, and the interpretation \<open>kp\<close> shows that the code keeps it.
\<close>

record kmem_st =
  mem :: memory
  freelist :: u64
  sym_end :: u64
  sym_etext :: u64
  sym_trampoline :: u64

section \<open>Operations\<close>

definition kfree :: "u64 \<Rightarrow> 'a kmem_st_scheme \<Rightarrow> (unit, 'a kmem_st_scheme) res" where
  "kfree pa s =
     (if pa mod PGSIZE \<noteq> 0 \<or> pa < sym_end s \<or> pa \<ge> PHYSTOP then Panic ''kfree''
      else
        let m = memset (mem s) pa 1 (ucast PGSIZE);
            m = store64 m pa (freelist s)
        in Ok () (s\<lparr>mem := m, freelist := pa\<rparr>))"

definition kalloc :: "'a kmem_st_scheme \<Rightarrow> (u64, 'a kmem_st_scheme) res" where
  "kalloc s =
     (let r = freelist s;
          s = (if r \<noteq> 0 then s\<lparr>freelist := load64 (mem s) r\<rparr> else s);
          s = (if r \<noteq> 0 then s\<lparr>mem := memset (mem s) r 5 (ucast PGSIZE)\<rparr> else s)
      in Ok r s)"

partial_function (option) kfreemem_loop :: "memory \<Rightarrow> u64 \<Rightarrow> u64 \<Rightarrow> u64 option" where
  "kfreemem_loop m r sz =
     (if r \<noteq> 0 then kfreemem_loop m (load64 m r) (sz + PGSIZE) else Some sz)"

definition kfreemem :: "'a kmem_st_scheme \<Rightarrow> (u64, 'a kmem_st_scheme) res" where
  "kfreemem s =
     (case kfreemem_loop (mem s) (freelist s) 0 of None \<Rightarrow> Diverge | Some sz \<Rightarrow> Ok sz s)"

lemma kfree_OkD:
  "kfree pa s = Ok u t \<Longrightarrow> pa mod PGSIZE = 0 \<and> sym_end s \<le> pa \<and> pa < PHYSTOP"
  by (auto simp: kfree_def not_less split: if_splits)

function freerange_loop ::
    "u64 \<Rightarrow> u64 \<Rightarrow> 'a kmem_st_scheme \<Rightarrow> (unit, 'a kmem_st_scheme) res" where
  "freerange_loop p pa_end s =
     (if p + PGSIZE \<le> pa_end
      then bind (kfree p s) (\<lambda>_ s. freerange_loop (p + PGSIZE) pa_end s)
      else Ok () s)"
  by pat_completeness auto
termination
proof (relation "measure (\<lambda>(p, pa_end, s). unat PHYSTOP - unat p)", goal_cases)
  case (2 p pa_end s x t)
  then have lt: "unat p < unat PHYSTOP"
    using kfree_OkD by (auto simp: word_less_nat_alt)
  then have "unat (p + of_nat 4096) = unat p + 4096"
    by (intro unat_add_no_wrap) (simp add: PHYSTOP_def KERNBASE_def)
  with lt show ?case by (simp add: PGSIZE_def)
qed simp

definition freerange ::
    "u64 \<Rightarrow> u64 \<Rightarrow> 'a kmem_st_scheme \<Rightarrow> (unit, 'a kmem_st_scheme) res" where
  "freerange pa_start pa_end s = freerange_loop (PGROUNDUP pa_start) pa_end s"

definition kinit :: "'a kmem_st_scheme \<Rightarrow> (unit, 'a kmem_st_scheme) res" where
  "kinit s = freerange (sym_end s) PHYSTOP s"

declare freerange_loop.simps [simp del]

section \<open>The free list as a list of pages\<close>

fun flist :: "memory \<Rightarrow> u64 \<Rightarrow> u64 list \<Rightarrow> bool" where
  "flist m r [] \<longleftrightarrow> r = 0"
| "flist m r (p # ps) \<longleftrightarrow> r = p \<and> p \<noteq> 0 \<and> flist m (load64 m p) ps"

definition valid_page :: "'a kmem_st_scheme \<Rightarrow> u64 \<Rightarrow> bool" where
  "valid_page s p \<longleftrightarrow> page_aligned p \<and> sym_end s \<le> p \<and> p < PHYSTOP"

definition kmem_inv :: "'a kmem_st_scheme \<Rightarrow> u64 list \<Rightarrow> bool" where
  "kmem_inv s ps \<longleftrightarrow>
     KERNBASE \<le> sym_end s \<and> flist (mem s) (freelist s) ps \<and> distinct ps \<and>
     (\<forall>p \<in> set ps. valid_page s p)"

definition in_page :: "u64 \<Rightarrow> u64 \<Rightarrow> bool" where
  "in_page p x \<longleftrightarrow> unat (x - p) < 4096"

lemma flist_cong:
  "(\<And>p. p \<in> set ps \<Longrightarrow> load64 m p = load64 m' p) \<Longrightarrow> flist m r ps = flist m' r ps"
  by (induction ps arbitrary: r) auto

subsection \<open>Pages apart\<close>

lemma aligned_gap:
  assumes "page_aligned p" and "page_aligned q" and "p \<noteq> q"
  shows "unat p + 4096 \<le> unat q \<or> unat q + 4096 \<le> unat p"
proof -
  obtain i j where ij: "unat p = 4096 * i" "unat q = 4096 * j"
    using assms(1,2) by (auto simp: page_aligned_unat elim!: dvdE)
  with assms(3) have "i \<noteq> j" by (auto simp: word_unat_eq_iff)
  then have "i + 1 \<le> j \<or> j + 1 \<le> i" by linarith
  with ij show ?thesis by auto
qed

lemma aligned_top: "page_aligned p \<Longrightarrow> unat p + 4096 \<le> 2 ^ 64"
proof -
  assume "page_aligned p"
  then obtain i where i: "unat p = 4096 * i"
    by (auto simp: page_aligned_unat elim!: dvdE)
  have "unat p < 2 ^ LENGTH(64)"
    by (rule unsigned_less)
  with i have "i < 2 ^ 52" by simp
  with i show ?thesis by simp
qed

lemma pages_apart:
  assumes "page_aligned p" and "page_aligned q" and "p \<noteq> q"
    and "i + n \<le> 4096" and "j + k \<le> 4096"
  shows "apart (p + of_nat i) n (q + of_nat j) k"
proof (cases "n = 0 \<or> k = 0")
  case False
  have "unat (p + of_nat i) = unat p + i" "unat (q + of_nat j) = unat q + j"
    using aligned_top [OF assms(1)] aligned_top [OF assms(2)] assms(4,5) False
    by (auto intro!: unat_add_no_wrap)
  with aligned_gap [OF assms(1-3)] aligned_top [OF assms(1)] aligned_top [OF assms(2)] assms(4,5)
  show ?thesis by (intro apart_intervals) auto
qed (auto simp: apart_def)

lemma pages_apart0:
  "page_aligned p \<Longrightarrow> page_aligned q \<Longrightarrow> p \<noteq> q \<Longrightarrow> n \<le> 4096 \<Longrightarrow> k \<le> 4096 \<Longrightarrow> apart p n q k"
  using pages_apart [of p q 0 n 0 k] by simp

lemma memset_page: "memset m p c (ucast PGSIZE) = mwrite m p (replicate 4096 (ucast c))"
  using memset_eq [of "ucast PGSIZE" m p c] by (simp add: PGSIZE_def)

lemma mwrite_page_out:
  "\<not> in_page p x \<Longrightarrow> length bs \<le> 4096 \<Longrightarrow> mwrite m p bs x = m x"
  by (auto simp: in_page_def intro!: mwrite_out)

lemma load64_page_out:
  assumes "page_aligned p" and "page_aligned q" and "p \<noteq> q" and "length bs \<le> 4096"
  shows "load64 (mwrite m p bs) q = load64 m q"
  using assms by (intro load64_mwrite_apart pages_apart0) auto

section \<open>The contract of a page pool\<close>

text \<open>
  \<open>inv s ps\<close>: in state \<open>s\<close> the pool holds exactly the pages \<open>ps\<close>, next to be handed out first;
  \<open>page s p\<close>: \<open>p\<close> is an address the pool may manage; \<open>changed p s t\<close>: the step from \<open>s\<close>
  to \<open>t\<close> wrote no byte outside page \<open>p\<close>.
\<close>

locale page_pool =
  fixes alloc :: "'s \<Rightarrow> (u64, 's) res"
    and free :: "u64 \<Rightarrow> 's \<Rightarrow> (unit, 's) res"
    and inv :: "'s \<Rightarrow> u64 list \<Rightarrow> bool"
    and page :: "'s \<Rightarrow> u64 \<Rightarrow> bool"
    and only_page :: "u64 \<Rightarrow> 's \<Rightarrow> 's \<Rightarrow> bool"
  assumes alloc_Nil: "inv s [] \<Longrightarrow> alloc s = Ok 0 s"
    and alloc_Cons: "inv s (p # ps) \<Longrightarrow>
      \<exists>t. alloc s = Ok p t \<and> inv t ps \<and> page t = page s \<and> only_page p s t"
    and free_page: "inv s ps \<Longrightarrow> page s p \<Longrightarrow> p \<notin> set ps \<Longrightarrow>
      \<exists>t. free p s = Ok () t \<and> inv t (p # ps) \<and> page t = page s \<and> only_page p s t"
    and inv_distinct: "inv s ps \<Longrightarrow> distinct ps"
    and inv_page: "inv s ps \<Longrightarrow> p \<in> set ps \<Longrightarrow> page s p"
    and page_nonzero: "inv s ps \<Longrightarrow> page s p \<Longrightarrow> p \<noteq> 0"
begin

lemma alloc_returns: "inv s ps \<Longrightarrow> returns (alloc s)"
  using alloc_Nil alloc_Cons by (cases ps) (fastforce simp: returns_def)+

text \<open>An allocated page is valid, not null and no longer in the pool.\<close>

lemma alloc_fresh:
  assumes "inv s ps" and "alloc s = Ok p t" and "p \<noteq> 0"
  shows "\<exists>qs. ps = p # qs \<and> inv t qs \<and> p \<notin> set qs \<and> page s p \<and> only_page p s t"
proof (cases ps)
  case Nil
  with assms alloc_Nil show ?thesis by auto
next
  case (Cons q qs)
  with assms alloc_Cons [of s q qs] have "p = q" and "inv t qs" and "only_page p s t"
    by auto
  moreover have "p \<notin> set qs"
    using Cons assms(1) inv_distinct \<open>p = q\<close> by fastforce
  moreover have "page s p"
    using Cons assms(1) inv_page \<open>p = q\<close> by fastforce
  ultimately show ?thesis using Cons by simp
qed

text \<open>Allocation fails (returns the null pointer) exactly when the pool is empty.\<close>

lemma alloc_null_iff:
  assumes "inv s ps" and "alloc s = Ok p t"
  shows "p = 0 \<longleftrightarrow> ps = []"
proof (cases ps)
  case Nil
  with assms alloc_Nil show ?thesis by auto
next
  case (Cons q qs)
  with assms(1) alloc_Cons [of s q qs] assms(2) have "p = q" by auto
  moreover have "q \<noteq> 0"
    using Cons assms(1) inv_page page_nonzero by (metis list.set_intros(1))
  ultimately show ?thesis using Cons by simp
qed

lemma free_then_alloc:
  assumes "inv s ps" and "page s p" and "p \<notin> set ps"
  shows "\<exists>t. bind (free p s) (\<lambda>_. alloc) = Ok p t \<and> inv t ps"
proof -
  obtain t where t: "free p s = Ok () t" "inv t (p # ps)"
    using free_page [OF assms] by blast
  with alloc_Cons [of t p ps] show ?thesis by auto
qed

lemma two_allocs_differ:
  assumes "inv s ps" and "alloc s = Ok p t" and "alloc t = Ok q u" and "p \<noteq> 0" and "q \<noteq> 0"
  shows "p \<noteq> q"
  using alloc_fresh [OF assms(1,2,4)] alloc_fresh [OF _ assms(3,5)] by fastforce

end

section \<open>The code keeps the contract\<close>

definition only_page :: "u64 \<Rightarrow> 'a kmem_st_scheme \<Rightarrow> 'a kmem_st_scheme \<Rightarrow> bool" where
  "only_page p s t \<longleftrightarrow>
     (\<exists>m r. t = s\<lparr>mem := m, freelist := r\<rparr> \<and> (\<forall>x. \<not> in_page p x \<longrightarrow> m x = mem s x))"

lemma kalloc_empty: "kmem_inv s [] \<Longrightarrow> kalloc s = Ok 0 s"
  by (simp add: kmem_inv_def kalloc_def)

lemma kalloc_step:
  assumes "kmem_inv s (p # ps)"
  shows "\<exists>t. kalloc s = Ok p t \<and> kmem_inv t ps \<and> valid_page t = valid_page s \<and> only_page p s t"
proof -
  let ?m = "mwrite (mem s) p (replicate 4096 5)"
  let ?t = "s\<lparr>mem := ?m, freelist := load64 (mem s) p\<rparr>"
  from assms have fl: "freelist s = p" "p \<noteq> 0" "flist (mem s) (load64 (mem s) p) ps"
    and pg: "page_aligned p" "\<And>q. q \<in> set ps \<Longrightarrow> page_aligned q \<and> p \<noteq> q"
    by (auto simp: kmem_inv_def valid_page_def)
  have k: "kalloc s = Ok p ?t"
    using fl by (simp add: kalloc_def memset_page Let_def)
  have "flist ?m (load64 (mem s) p) ps = flist (mem s) (load64 (mem s) p) ps"
    using pg by (intro flist_cong load64_page_out) auto
  with assms fl have "kmem_inv ?t ps"
    by (auto simp: kmem_inv_def valid_page_def)
  moreover have "only_page p s ?t"
    unfolding only_page_def by (rule exI [of _ ?m], rule exI) (auto simp: mwrite_page_out)
  ultimately show ?thesis using k by (auto simp: valid_page_def fun_eq_iff)
qed

lemma kfree_step:
  assumes "kmem_inv s ps" and "valid_page s p" and "p \<notin> set ps"
  shows "\<exists>t. kfree p s = Ok () t \<and> kmem_inv t (p # ps) \<and> valid_page t = valid_page s \<and> only_page p s t"
proof -
  let ?m1 = "mwrite (mem s) p (replicate 4096 1)"
  let ?m = "store64 ?m1 p (freelist s)"
  let ?t = "s\<lparr>mem := ?m, freelist := p\<rparr>"
  have pg: "page_aligned p" "\<And>q. q \<in> set ps \<Longrightarrow> page_aligned q \<and> p \<noteq> q"
    using assms by (auto simp: kmem_inv_def valid_page_def)
  have nz: "p \<noteq> 0"
    using assms(1,2) by (auto simp: kmem_inv_def valid_page_def KERNBASE_def)
  have k: "kfree p s = Ok () ?t"
    using assms(2)
    by (simp add: kfree_def valid_page_def page_aligned_def memset_page Let_def not_less not_le)
  have "load64 ?m q = load64 (mem s) q" if "q \<in> set ps" for q
    using pg that by (simp add: store64_def load64_page_out)
  then have "flist ?m (freelist s) ps = flist (mem s) (freelist s) ps"
    by (intro flist_cong)
  with assms nz have "kmem_inv ?t (p # ps)"
    by (auto simp: kmem_inv_def valid_page_def)
  moreover have "only_page p s ?t"
    unfolding only_page_def store64_def
    by (rule exI [of _ "mwrite ?m1 p (le_bytes 8 (freelist s))"], rule exI)
      (auto simp: mwrite_page_out)
  ultimately show ?thesis using k by (auto simp: valid_page_def fun_eq_iff)
qed

interpretation kp: page_pool kalloc kfree kmem_inv valid_page only_page
proof (unfold_locales, goal_cases)
  case (1 s)
  then show ?case by (rule kalloc_empty)
next
  case (2 s p ps)
  then show ?case by (rule kalloc_step)
next
  case (3 s ps p)
  then show ?case by (rule kfree_step)
next
  case (6 s ps p)
  then show ?case by (auto simp: kmem_inv_def valid_page_def KERNBASE_def)
qed (auto simp: kmem_inv_def)

section \<open>Counting free memory\<close>

lemma kfreemem_loop_flist:
  "flist m r ps \<Longrightarrow> kfreemem_loop m r sz = Some (sz + of_nat (4096 * length ps))"
  by (induction ps arbitrary: r sz)
    (simp_all add: kfreemem_loop.simps PGSIZE_def algebra_simps)

lemma pool_bound: "kmem_inv s ps \<Longrightarrow> length ps \<le> 32768"
proof -
  assume inv: "kmem_inv s ps"
  let ?f = "\<lambda>p::u64. unat p div 4096"
  have rng: "?f p \<in> {0x80000..<0x88000}" if "p \<in> set ps" for p
  proof -
    have "KERNBASE \<le> p" "p < PHYSTOP"
      using inv that order_trans by (auto simp: kmem_inv_def valid_page_def)
    then have "0x80000000 \<le> unat p" "unat p < 0x88000000"
      by (simp_all add: KERNBASE_def PHYSTOP_def word_le_nat_alt word_less_nat_alt)
    then have "0x80000 \<le> unat p div 4096" "unat p div 4096 < 0x88000"
      by linarith+
    then show ?thesis by simp
  qed
  have "inj_on ?f (set ps)"
  proof (rule inj_onI)
    fix p q assume "p \<in> set ps" "q \<in> set ps" "?f p = ?f q"
    moreover from this have "4096 dvd unat p" "4096 dvd unat q"
      using inv by (auto simp: kmem_inv_def valid_page_def page_aligned_unat)
    ultimately show "p = q" by (metis dvd_div_mult_self word_unat_eq_iff)
  qed
  then have "card (set ps) \<le> card {0x80000..<0x88000::nat}"
    using rng by (intro card_inj_on_le [of ?f]) auto
  then show ?thesis using inv by (simp add: kmem_inv_def distinct_card)
qed

section \<open>Initialisation\<close>

text \<open>The pages from \<open>p\<close> up, \<open>n\<close> of them, in the order \<open>freerange\<close> leaves them.\<close>

definition pages_down :: "u64 \<Rightarrow> nat \<Rightarrow> u64 list" where
  "pages_down p n = rev (map (\<lambda>i. p + of_nat (4096 * i)) [0..<n])"

lemma pages_down_Suc:
  "pages_down p (Suc n) = pages_down (p + PGSIZE) n @ [p]"
proof -
  have "map (\<lambda>i. p + of_nat (4096 * i)) [0..<Suc n]
      = p # map (\<lambda>i. p + PGSIZE + of_nat (4096 * i)) [0..<n]"
    unfolding upt_conv_Cons [OF zero_less_Suc] list.map map_Suc_upt [symmetric] map_map
    by (simp add: PGSIZE_def algebra_simps)
  then show ?thesis by (simp add: pages_down_def)
qed

lemma freerange_loop_frees:
  assumes "page_aligned p" and "sym_end s \<le> p" and "unat p + 4096 * n \<le> unat PHYSTOP"
    and "unat PHYSTOP < unat p + 4096 * Suc n" and "kmem_inv s ps" and "\<forall>q \<in> set ps. q < p"
  shows "\<exists>t. freerange_loop p PHYSTOP s = Ok () t \<and> kmem_inv t (pages_down p n @ ps)"
  using assms
proof (induction n arbitrary: p s ps)
  case 0
  have "unat (p + of_nat 4096) = unat p + 4096"
    using 0 by (intro unat_add_no_wrap) (simp add: PHYSTOP_def KERNBASE_def)
  then have "\<not> p + PGSIZE \<le> PHYSTOP"
    using 0 by (simp add: PGSIZE_def word_le_nat_alt)
  then have "freerange_loop p PHYSTOP s = Ok () s"
    by (simp add: freerange_loop.simps [of p])
  with 0 show ?case by (simp add: pages_down_def)
next
  case (Suc n)
  have u: "unat (p + PGSIZE) = unat p + 4096"
    using Suc.prems(3) unat_add_no_wrap [of p 4096]
    by (simp add: PGSIZE_def PHYSTOP_def KERNBASE_def)
  have le: "p + PGSIZE \<le> PHYSTOP" and lt: "p < PHYSTOP" and lt': "p < p + PGSIZE"
    using Suc.prems(3) u by (simp_all add: word_le_nat_alt word_less_nat_alt)
  have vp: "valid_page s p"
    using Suc.prems lt by (simp add: valid_page_def)
  moreover have "p \<notin> set ps" using Suc.prems(6) by auto
  ultimately obtain t where t: "kfree p s = Ok () t" "kmem_inv t (p # ps)" "only_page p s t"
    using kfree_step Suc.prems(5) by blast
  have "page_aligned (p + PGSIZE)"
    using Suc.prems(1) u by (simp add: page_aligned_unat)
  moreover have "sym_end t \<le> p + PGSIZE"
    using Suc.prems(2) lt' t(3) by (auto simp: only_page_def intro: order_trans less_imp_le)
  moreover have "\<forall>q \<in> set (p # ps). q < p + PGSIZE"
    using Suc.prems(6) lt' by auto
  ultimately obtain t' where "freerange_loop (p + PGSIZE) PHYSTOP t = Ok () t'"
      "kmem_inv t' (pages_down (p + PGSIZE) n @ p # ps)"
    using Suc.IH [of "p + PGSIZE" t "p # ps"] Suc.prems(3,4) t(2) u by auto
  with t(1) le show ?case
    by (simp add: freerange_loop.simps [of p] pages_down_Suc)
qed

lemma kinit_pool:
  assumes "KERNBASE \<le> sym_end s" and "sym_end s \<le> PHYSTOP" and "freelist s = 0"
  shows "\<exists>t. kinit s = Ok () t \<and>
    kmem_inv t (pages_down (PGROUNDUP (sym_end s)) (unat (PHYSTOP - PGROUNDUP (sym_end s)) div 4096))"
proof -
  let ?p = "PGROUNDUP (sym_end s)"
  let ?n = "unat (PHYSTOP - ?p) div 4096"
  have b: "unat (sym_end s) \<le> 0x88000000" "unat PHYSTOP = 0x88000000"
    using assms(2) by (simp_all add: PHYSTOP_def KERNBASE_def word_le_nat_alt)
  then have u: "unat ?p = (unat (sym_end s) + 4095) div 4096 * 4096"
    by (intro unat_PGROUNDUP) simp
  have le: "unat (sym_end s) \<le> unat ?p" "unat ?p \<le> 0x88000000"
  proof -
    have "(unat (sym_end s) + 4095) div 4096 \<le> (0x88000000 + 4095) div 4096"
      using b(1) by (intro div_le_mono) simp
    then show "unat (sym_end s) \<le> unat ?p" "unat ?p \<le> 0x88000000"
      unfolding u by (linarith, simp)
  qed
  have d: "unat (PHYSTOP - ?p) = 0x88000000 - unat ?p"
    using le(2) b(2) by (subst unat_diff_no_wrap) (simp_all add: word_le_nat_alt)
  have al: "page_aligned ?p"
    unfolding page_aligned_unat u by simp
  have "sym_end s \<le> ?p"
    using le(1) by (simp add: word_le_nat_alt)
  moreover have "unat ?p + 4096 * ?n \<le> unat PHYSTOP" "unat PHYSTOP < unat ?p + 4096 * Suc ?n"
    unfolding d b(2) using le(2) dividend_less_div_times [of 4096 "0x88000000 - unat ?p"]
    by (linarith, simp)
  moreover have "kmem_inv s []"
    using assms by (simp add: kmem_inv_def)
  ultimately show ?thesis
    using freerange_loop_frees [of ?p s ?n "[]"] al by (simp add: kinit_def freerange_def)
qed

lemma load64_zero: "load64 (\<lambda>_. 0) a = 0"
  by (simp add: load64_def mbytes_def numeral_eq_Suc)

lemma kfreemem_count: "kmem_inv s ps \<Longrightarrow> \<exists>sz. kfreemem s = Ok sz s \<and> unat sz = 4096 * length ps"
proof -
  assume inv: "kmem_inv s ps"
  then have "kfreemem s = Ok (of_nat (4096 * length ps)) s"
    using kfreemem_loop_flist [of "mem s" "freelist s" ps 0] by (simp add: kfreemem_def kmem_inv_def)
  moreover have "unat (of_nat (4096 * length ps) :: u64) = 4096 * length ps"
    using pool_bound [OF inv] by (intro unat_of_nat_eq) simp
  ultimately show ?thesis by blast
qed

section \<open>Properties\<close>

text \<open>
  C10: Allocation is exclusive. When the free list is well formed, a page \<open>kalloc\<close> returns was the
  head of the list, is page aligned and inside the managed range, is no longer on the list, and
  nothing outside that page and the list head has changed; the rest of the list is well formed.
\<close>

theorem kalloc_exclusive:
  assumes "kmem_inv s ps" and "kalloc s = Ok p t" and "p \<noteq> 0"
  shows "\<exists>qs. ps = p # qs \<and> kmem_inv t qs \<and> p \<notin> set qs \<and> valid_page s p \<and> only_page p s t"
  using assms by (rule kp.alloc_fresh)

theorem kalloc_exclusive_witness:
  "\<exists>s t p. kmem_inv s [0x80100000] \<and> kalloc s = Ok p (t :: kmem_st) \<and> p \<noteq> 0 \<and> kmem_inv t [] \<and>
     valid_page s p \<and> only_page p s t"
proof -
  let ?s = "\<lparr>mem = (\<lambda>_. 0), freelist = 0x80100000, sym_end = 0x80022000, sym_etext = 0x80008000,
     sym_trampoline = 0x80007000\<rparr> :: kmem_st"
  have i: "kmem_inv ?s [0x80100000]"
    by (simp add: kmem_inv_def valid_page_def page_aligned_def PGSIZE_def KERNBASE_def PHYSTOP_def
        load64_zero)
  obtain t where k: "kalloc ?s = Ok 0x80100000 t"
    using kalloc_step [OF i] by auto
  have "kmem_inv t []" "valid_page ?s 0x80100000" "only_page 0x80100000 ?s t"
    using kalloc_exclusive [OF i k] by auto
  with i k show ?thesis
    by (-, rule_tac x = ?s in exI, rule_tac x = t in exI, rule_tac x = "0x80100000" in exI, simp)
qed

text \<open>
  \<open>kinit\<close> builds the pool. From an empty free list it returns without a panic, and the list
  then holds exactly the whole pages from \<open>PGROUNDUP(end)\<close> up to \<open>PHYSTOP\<close>, once each, the highest
  first.
\<close>

lemma kinit_builds_pool:
  assumes "KERNBASE \<le> sym_end s" and "sym_end s \<le> PHYSTOP" and "freelist s = 0"
  shows "\<exists>t. kinit s = Ok () t \<and>
    kmem_inv t (pages_down (PGROUNDUP (sym_end s)) (unat (PHYSTOP - PGROUNDUP (sym_end s)) div 4096))"
  using assms by (rule kinit_pool)

text \<open>
  \<open>kfreemem\<close> is exact. On a well-formed free list it returns, changes nothing, and the number
  of bytes it reports is the page size times the number of free pages, without wrap-around.
\<close>

lemma kfreemem_exact:
  assumes "kmem_inv s ps"
  shows "\<exists>sz. kfreemem s = Ok sz s \<and> unat sz = 4096 * length ps"
  using assms by (rule kfreemem_count)

text \<open>
  The allocator is last-in first-out: a valid page that is not on the free list, once freed, is
  the next page \<open>kalloc\<close> hands out, and the list is then as it was.
\<close>

lemma kfree_then_kalloc:
  assumes "kmem_inv s ps" and "valid_page s p" and "p \<notin> set ps"
  shows "\<exists>t. bind (kfree p s) (\<lambda>_. kalloc) = Ok p t \<and> kmem_inv t ps"
  using assms by (rule kp.free_then_alloc)

end
