(* ===== verification/Vm.thy ===== *)
theory Vm
  imports Kalloc
begin

text \<open>
  Virtual memory, \<open>kernel/vm.c\<close>. A page table is the physical address of a page of 512 64-bit
  entries in memory; \<open>walk\<close> follows the three Sv39 levels through memory, allocating page-table
  pages on the way when asked. Kernel buffers that \<open>copyout\<close> reads and \<open>copyin\<close> fills are byte
  lists; user memory is physical memory reached through the page table. An \<open>int\<close> return code is
  the number the C function returns. A \<open>perm\<close> argument is the \<open>int\<close> widened to 64 bits.
\<close>

section \<open>Walking a page table\<close>

definition pte_at :: "u64 \<Rightarrow> nat \<Rightarrow> u64 \<Rightarrow> u64" where
  "pte_at pagetable level va = pagetable + 8 * PX level va"

fun walk_loop ::
    "u64 \<Rightarrow> u64 \<Rightarrow> bool \<Rightarrow> nat \<Rightarrow> 'a kmem_st_scheme \<Rightarrow> (u64, 'a kmem_st_scheme) res" where
  "walk_loop pagetable va alloc 0 s = Ok (pte_at pagetable 0 va) s"
| "walk_loop pagetable va alloc (Suc l) s =
     (let ptep = pte_at pagetable (Suc l) va; pte = load64 (mem s) ptep in
      if pte AND PTE_V \<noteq> 0 then walk_loop (PTE2PA pte) va alloc l s
      else if \<not> alloc then Ok 0 s
      else bind (kalloc s) (\<lambda>pg s.
        if pg = 0 then Ok 0 s
        else
          let s = s\<lparr>mem := memset (mem s) pg 0 (ucast PGSIZE)\<rparr>;
              s = s\<lparr>mem := store64 (mem s) ptep (PA2PTE pg OR PTE_V)\<rparr>
          in walk_loop pg va alloc l s))"

definition walk ::
    "u64 \<Rightarrow> u64 \<Rightarrow> bool \<Rightarrow> 'a kmem_st_scheme \<Rightarrow> (u64, 'a kmem_st_scheme) res" where
  "walk pagetable va alloc s =
     (if va \<ge> MAXVA then Panic ''walk'' else walk_loop pagetable va alloc 2 s)"

definition walkaddr :: "u64 \<Rightarrow> u64 \<Rightarrow> 'a kmem_st_scheme \<Rightarrow> (u64, 'a kmem_st_scheme) res" where
  "walkaddr pagetable va s =
     (if va \<ge> MAXVA then Ok 0 s
      else bind (walk pagetable va False s) (\<lambda>pte s.
        if pte = 0 then Ok 0 s
        else let e = load64 (mem s) pte in
          if e AND PTE_V = 0 then Ok 0 s
          else if e AND PTE_U = 0 then Ok 0 s
          else Ok (PTE2PA e) s))"

lemma walk_Ok_lt: "walk pt va al s = Ok x t \<Longrightarrow> va < MAXVA"
  by (auto simp: walk_def not_le split: if_splits)

text \<open>Stepping an address below \<open>MAXVA\<close> by one page does not wrap.\<close>

lemma va_step:
  assumes "a < MAXVA"
  shows "unat MAXVA - unat (a + PGSIZE) < unat MAXVA - unat a"
proof -
  have "unat a < 2 ^ 38"
    using assms by (simp add: MAXVA_def word_less_nat_alt)
  then have "unat (a + of_nat 4096) = unat a + 4096"
    by (intro unat_add_no_wrap) simp
  with \<open>unat a < 2 ^ 38\<close> show ?thesis by (simp add: PGSIZE_def MAXVA_def)
qed

section \<open>Mapping and unmapping\<close>

function mappages_loop ::
    "u64 \<Rightarrow> u64 \<Rightarrow> u64 \<Rightarrow> u64 \<Rightarrow> u64 \<Rightarrow> 'a kmem_st_scheme \<Rightarrow> (int, 'a kmem_st_scheme) res" where
  "mappages_loop pagetable a lst pa perm s =
     bind (walk pagetable a True s) (\<lambda>pte s.
       if pte = 0 then Ok (-1) s
       else if load64 (mem s) pte AND PTE_V \<noteq> 0 then Panic ''mappages: remap''
       else
         let s = s\<lparr>mem := store64 (mem s) pte (PA2PTE pa OR perm OR PTE_V)\<rparr> in
         if a = lst then Ok 0 s
         else mappages_loop pagetable (a + PGSIZE) lst (pa + PGSIZE) perm s)"
  by pat_completeness auto
termination
  by (relation "measure (\<lambda>(pagetable, a, lst, pa, perm, s). unat MAXVA - unat a)")
    (auto dest!: walk_Ok_lt intro: va_step)

declare mappages_loop.simps [simp del]

definition mappages ::
    "u64 \<Rightarrow> u64 \<Rightarrow> u64 \<Rightarrow> u64 \<Rightarrow> u64 \<Rightarrow> 'a kmem_st_scheme \<Rightarrow> (int, 'a kmem_st_scheme) res" where
  "mappages pagetable va sz pa perm s =
     (if sz = 0 then Panic ''mappages: size''
      else mappages_loop pagetable (PGROUNDDOWN va) (PGROUNDDOWN (va + sz - 1)) pa perm s)"

definition kvmmap ::
    "u64 \<Rightarrow> u64 \<Rightarrow> u64 \<Rightarrow> u64 \<Rightarrow> u64 \<Rightarrow> 'a kmem_st_scheme \<Rightarrow> (unit, 'a kmem_st_scheme) res" where
  "kvmmap kpgtbl va pa sz perm s =
     bind (mappages kpgtbl va sz pa perm s) (\<lambda>r s.
       if r \<noteq> 0 then Panic ''kvmmap'' else Ok () s)"

function uvmunmap_loop ::
    "u64 \<Rightarrow> u64 \<Rightarrow> u64 \<Rightarrow> bool \<Rightarrow> 'a kmem_st_scheme \<Rightarrow> (unit, 'a kmem_st_scheme) res" where
  "uvmunmap_loop pagetable a lst do_free s =
     (if a < lst then
        bind (walk pagetable a False s) (\<lambda>pte s.
          if pte = 0 then Panic ''uvmunmap: walk''
          else let e = load64 (mem s) pte in
            if e AND PTE_V = 0 then Panic ''uvmunmap: not mapped''
            else if PTE_FLAGS e = PTE_V then Panic ''uvmunmap: not a leaf''
            else bind (if do_free then kfree (PTE2PA e) s else Ok () s) (\<lambda>_ s.
              uvmunmap_loop pagetable (a + PGSIZE) lst do_free
                (s\<lparr>mem := store64 (mem s) pte 0\<rparr>)))
      else Ok () s)"
  by pat_completeness auto
termination
  by (relation "measure (\<lambda>(pagetable, a, lst, do_free, s). unat MAXVA - unat a)")
    (auto dest!: walk_Ok_lt intro: va_step)

declare uvmunmap_loop.simps [simp del]

definition uvmunmap ::
    "u64 \<Rightarrow> u64 \<Rightarrow> u64 \<Rightarrow> bool \<Rightarrow> 'a kmem_st_scheme \<Rightarrow> (unit, 'a kmem_st_scheme) res" where
  "uvmunmap pagetable va npages do_free s =
     (if va mod PGSIZE \<noteq> 0 then Panic ''uvmunmap: not aligned''
      else uvmunmap_loop pagetable va (va + npages * PGSIZE) do_free s)"

definition uvmcreate :: "'a kmem_st_scheme \<Rightarrow> (u64, 'a kmem_st_scheme) res" where
  "uvmcreate s =
     bind (kalloc s) (\<lambda>pagetable s.
       if pagetable = 0 then Ok 0 s
       else Ok pagetable (s\<lparr>mem := memset (mem s) pagetable 0 (ucast PGSIZE)\<rparr>))"

definition uvmfirst ::
    "u64 \<Rightarrow> u8 list \<Rightarrow> 'a kmem_st_scheme \<Rightarrow> (unit, 'a kmem_st_scheme) res" where
  "uvmfirst pagetable src s =
     (if length src \<ge> 4096 then Panic ''uvmfirst: more than a page''
      else bind (kalloc s) (\<lambda>pg s.
        bind (mappages pagetable 0 PGSIZE pg (PTE_W OR PTE_R OR PTE_X OR PTE_U)
               (s\<lparr>mem := memset (mem s) pg 0 (ucast PGSIZE)\<rparr>)) (\<lambda>_ s.
          Ok () (s\<lparr>mem := mwrite (mem s) pg src\<rparr>))))"

section \<open>Growing and shrinking\<close>

definition uvmdealloc ::
    "u64 \<Rightarrow> u64 \<Rightarrow> u64 \<Rightarrow> 'a kmem_st_scheme \<Rightarrow> (u64, 'a kmem_st_scheme) res" where
  "uvmdealloc pagetable oldsz newsz s =
     (if newsz \<ge> oldsz then Ok oldsz s
      else if PGROUNDUP newsz < PGROUNDUP oldsz then
        let npages = (ucast ((PGROUNDUP oldsz - PGROUNDUP newsz) div PGSIZE) :: u32) in
        bind (uvmunmap pagetable (PGROUNDUP newsz) (scast npages) True s) (\<lambda>_ s. Ok newsz s)
      else Ok newsz s)"

lemma mappages_loop_Ok_lt: "mappages_loop pt a lst pa perm s = Ok x t \<Longrightarrow> a < MAXVA"
  by (subst (asm) mappages_loop.simps) (auto simp: bind_simps dest: walk_Ok_lt)

lemma mappages_Ok_lt:
  "mappages pt a PGSIZE pa perm s = Ok x t \<Longrightarrow> page_aligned a \<Longrightarrow> a < MAXVA"
  by (auto simp: mappages_def PGROUNDDOWN_id split: if_splits dest: mappages_loop_Ok_lt)

function uvmalloc_loop ::
    "u64 \<Rightarrow> u64 \<Rightarrow> u64 \<Rightarrow> u64 \<Rightarrow> u64 \<Rightarrow> 'a kmem_st_scheme \<Rightarrow> (u64, 'a kmem_st_scheme) res" where
  "uvmalloc_loop pagetable a oldsz newsz xperm s =
     (if a < newsz then
        bind (kalloc s) (\<lambda>pg s.
          if pg = 0 then bind (uvmdealloc pagetable a oldsz s) (\<lambda>_ s. Ok 0 s)
          else
            bind (mappages pagetable a PGSIZE pg (PTE_R OR PTE_U OR xperm)
                   (s\<lparr>mem := memset (mem s) pg 0 (ucast PGSIZE)\<rparr>)) (\<lambda>r s.
              if r \<noteq> 0 then
                bind (kfree pg s) (\<lambda>_ s. bind (uvmdealloc pagetable a oldsz s) (\<lambda>_ s. Ok 0 s))
              else uvmalloc_loop pagetable (a + PGSIZE) oldsz newsz xperm s))
      else Ok newsz s)"
  by pat_completeness auto
termination
proof (relation "measure (\<lambda>(pagetable, a, oldsz, newsz, xperm, s).
    unat MAXVA + 4096 - unat (PGROUNDDOWN a))", goal_cases)
  case (2 pagetable a oldsz newsz xperm s pg s1 r s2)
  have "PGROUNDDOWN a < MAXVA"
    using 2(4) by (auto simp: mappages_def split: if_splits dest: mappages_loop_Ok_lt)
  then have "unat (PGROUNDDOWN a) < 2 ^ 38"
    by (simp add: MAXVA_def word_less_nat_alt)
  then have small: "unat a < 2 ^ 38 + 4096"
    by (simp add: unat_PGROUNDDOWN)
  then have "unat (a + of_nat 4096) = unat a + 4096"
    by (intro unat_add_no_wrap) simp
  then have "unat (PGROUNDDOWN (a + PGSIZE)) = unat (PGROUNDDOWN a) + 4096"
    by (simp add: unat_PGROUNDDOWN PGSIZE_def div_add_self2 [of 4096 "unat a"])
  with \<open>unat (PGROUNDDOWN a) < 2 ^ 38\<close> show ?case by (simp add: MAXVA_def)
qed simp

declare uvmalloc_loop.simps [simp del]

definition uvmalloc ::
    "u64 \<Rightarrow> u64 \<Rightarrow> u64 \<Rightarrow> u64 \<Rightarrow> 'a kmem_st_scheme \<Rightarrow> (u64, 'a kmem_st_scheme) res" where
  "uvmalloc pagetable oldsz newsz xperm s =
     (if newsz < oldsz then Ok oldsz s
      else uvmalloc_loop pagetable (PGROUNDUP oldsz) (PGROUNDUP oldsz) newsz xperm s)"

text \<open>
  \<open>freewalk\<close> recurses through page-table pages. A chain of nested calls longer than the number of
  pages there are revisits a page, so the recursion does not end; \<open>2^52 + 1\<close> levels of fuel
  therefore decide it.
\<close>

fun freewalk_fuel :: "nat \<Rightarrow> u64 \<Rightarrow> 'a kmem_st_scheme \<Rightarrow> (unit, 'a kmem_st_scheme) res"
  and freewalk_loop ::
    "nat \<Rightarrow> u64 \<Rightarrow> nat \<Rightarrow> 'a kmem_st_scheme \<Rightarrow> (unit, 'a kmem_st_scheme) res" where
  "freewalk_fuel 0 pagetable s = Diverge"
| "freewalk_fuel (Suc fuel) pagetable s =
     bind (freewalk_loop fuel pagetable 512 s) (\<lambda>_ s. kfree pagetable s)"
| "freewalk_loop fuel pagetable 0 s = Ok () s"
| "freewalk_loop fuel pagetable (Suc k) s =
     (let ptep = pagetable + 8 * of_nat (512 - Suc k); pte = load64 (mem s) ptep in
      if pte AND PTE_V \<noteq> 0 \<and> pte AND (PTE_R OR PTE_W OR PTE_X) = 0 then
        bind (freewalk_fuel fuel (PTE2PA pte) s) (\<lambda>_ s.
          freewalk_loop fuel pagetable k (s\<lparr>mem := store64 (mem s) ptep 0\<rparr>))
      else if pte AND PTE_V \<noteq> 0 then Panic ''freewalk: leaf''
      else freewalk_loop fuel pagetable k s)"

definition freewalk :: "u64 \<Rightarrow> 'a kmem_st_scheme \<Rightarrow> (unit, 'a kmem_st_scheme) res" where
  "freewalk pagetable s = freewalk_fuel (2 ^ 52 + 1) pagetable s"

definition uvmfree :: "u64 \<Rightarrow> u64 \<Rightarrow> 'a kmem_st_scheme \<Rightarrow> (unit, 'a kmem_st_scheme) res" where
  "uvmfree pagetable sz s =
     bind (if sz > 0 then uvmunmap pagetable 0 (PGROUNDUP sz div PGSIZE) True s else Ok () s)
       (\<lambda>_ s. freewalk pagetable s)"

definition uvmcopy_err :: "u64 \<Rightarrow> u64 \<Rightarrow> 'a kmem_st_scheme \<Rightarrow> (int, 'a kmem_st_scheme) res" where
  "uvmcopy_err new i s = bind (uvmunmap new 0 (i div PGSIZE) True s) (\<lambda>_ s. Ok (-1) s)"

function uvmcopy_loop ::
    "u64 \<Rightarrow> u64 \<Rightarrow> u64 \<Rightarrow> u64 \<Rightarrow> 'a kmem_st_scheme \<Rightarrow> (int, 'a kmem_st_scheme) res" where
  "uvmcopy_loop old new sz i s =
     (if i < sz then
        bind (walk old i False s) (\<lambda>pte s.
          if pte = 0 then Panic ''uvmcopy: pte should exist''
          else let e = load64 (mem s) pte in
            if e AND PTE_V = 0 then Panic ''uvmcopy: page not present''
            else bind (kalloc s) (\<lambda>pg s.
              if pg = 0 then uvmcopy_err new i s
              else
                bind (mappages new i PGSIZE pg (PTE_FLAGS e)
                       (s\<lparr>mem := memmove (mem s) pg (PTE2PA e) (ucast PGSIZE)\<rparr>)) (\<lambda>r s.
                  if r \<noteq> 0 then bind (kfree pg s) (\<lambda>_ s. uvmcopy_err new i s)
                  else uvmcopy_loop old new sz (i + PGSIZE) s)))
      else Ok 0 s)"
  by pat_completeness auto
termination
  by (relation "measure (\<lambda>(old, new, sz, i, s). unat MAXVA - unat i)")
    (auto dest!: walk_Ok_lt intro: va_step)

declare uvmcopy_loop.simps [simp del]

definition uvmcopy ::
    "u64 \<Rightarrow> u64 \<Rightarrow> u64 \<Rightarrow> 'a kmem_st_scheme \<Rightarrow> (int, 'a kmem_st_scheme) res" where
  "uvmcopy old new sz s = uvmcopy_loop old new sz 0 s"

definition uvmclear :: "u64 \<Rightarrow> u64 \<Rightarrow> 'a kmem_st_scheme \<Rightarrow> (unit, 'a kmem_st_scheme) res" where
  "uvmclear pagetable va s =
     bind (walk pagetable va False s) (\<lambda>pte s.
       if pte = 0 then Panic ''uvmclear''
       else Ok () (s\<lparr>mem := store64 (mem s) pte (load64 (mem s) pte AND NOT PTE_U)\<rparr>))"

section \<open>Copying between kernel and user memory\<close>

text \<open>The bytes of a page from an offset on: \<open>n = PGSIZE - (va - va0)\<close>, cut to the length left.\<close>

definition page_rest :: "u64 \<Rightarrow> nat \<Rightarrow> nat" where
  "page_rest va len = min (unat (PGSIZE - (va - PGROUNDDOWN va))) len"

lemma page_offset: "unat (va - PGROUNDDOWN va) = unat va mod 4096"
  by (simp add: unat_sub unat_PGROUNDDOWN minus_div_mult_eq_mod)

lemma unat_page_rest: "unat (PGSIZE - (va - PGROUNDDOWN va)) = 4096 - unat va mod 4096"
proof -
  have "va - PGROUNDDOWN va \<le> PGSIZE"
    unfolding word_le_nat_alt page_offset
    by (simp add: PGSIZE_def mod_le_divisor order_less_imp_le)
  then show ?thesis by (simp add: unat_sub page_offset) (simp add: PGSIZE_def)
qed

lemma page_rest_pos: "0 < len \<Longrightarrow> 0 < page_rest va len"
  by (simp add: page_rest_def unat_page_rest)

lemma page_rest_le: "page_rest va len \<le> len"
  by (simp add: page_rest_def)

function copyout ::
    "u64 \<Rightarrow> u64 \<Rightarrow> u8 list \<Rightarrow> 'a kmem_st_scheme \<Rightarrow> (int, 'a kmem_st_scheme) res" where
  "copyout pagetable dstva src s =
     (if src \<noteq> [] then
        let va0 = PGROUNDDOWN dstva in
        bind (walkaddr pagetable va0 s) (\<lambda>pa0 s.
          if pa0 = 0 then Ok (-1) s
          else
            let n = page_rest dstva (length src);
                s = s\<lparr>mem := mwrite (mem s) (pa0 + (dstva - va0)) (take n src)\<rparr>
            in copyout pagetable (va0 + PGSIZE) (drop n src) s)
      else Ok 0 s)"
  by pat_completeness auto
termination
  by (relation "measure (\<lambda>(pagetable, dstva, src, s). length src)") (auto simp: page_rest_pos)

declare copyout.simps [simp del]

text \<open>\<open>copyin\<close> returns its code with the bytes it stored at \<open>dst\<close> (all of them when the code is 0).\<close>

function copyin_loop ::
    "u64 \<Rightarrow> u8 list \<Rightarrow> u64 \<Rightarrow> nat \<Rightarrow> 'a kmem_st_scheme \<Rightarrow> (int \<times> u8 list, 'a kmem_st_scheme) res" where
  "copyin_loop pagetable dst srcva len s =
     (if len > 0 then
        let va0 = PGROUNDDOWN srcva in
        bind (walkaddr pagetable va0 s) (\<lambda>pa0 s.
          if pa0 = 0 then Ok (-1, dst) s
          else
            let n = page_rest srcva len in
            copyin_loop pagetable (dst @ mbytes (mem s) (pa0 + (srcva - va0)) n)
              (va0 + PGSIZE) (len - n) s)
      else Ok (0, dst) s)"
  by pat_completeness auto
termination
  by (relation "measure (\<lambda>(pagetable, dst, srcva, len, s). len)") (auto simp: page_rest_pos)

declare copyin_loop.simps [simp del]

definition copyin ::
    "u64 \<Rightarrow> u64 \<Rightarrow> nat \<Rightarrow> 'a kmem_st_scheme \<Rightarrow> (int \<times> u8 list, 'a kmem_st_scheme) res" where
  "copyin pagetable srcva len s = copyin_loop pagetable [] srcva len s"

text \<open>The inner loop of \<open>copyinstr\<close>: at most \<open>n\<close> characters of one page, up to the terminator.\<close>

fun copyinstr_page :: "memory \<Rightarrow> u64 \<Rightarrow> nat \<Rightarrow> u8 list \<Rightarrow> u8 list \<times> bool" where
  "copyinstr_page m p 0 dst = (dst, False)"
| "copyinstr_page m p (Suc n) dst =
     (if m p = 0 then (dst @ [0], True) else copyinstr_page m (p + 1) n (dst @ [m p]))"

function copyinstr_loop ::
    "u64 \<Rightarrow> u8 list \<Rightarrow> u64 \<Rightarrow> nat \<Rightarrow> 'a kmem_st_scheme \<Rightarrow> (int \<times> u8 list, 'a kmem_st_scheme) res" where
  "copyinstr_loop pagetable dst srcva mx s =
     (if mx > 0 then
        let va0 = PGROUNDDOWN srcva in
        bind (walkaddr pagetable va0 s) (\<lambda>pa0 s.
          if pa0 = 0 then Ok (-1, dst) s
          else
            let n = page_rest srcva mx;
                (dst', got_null) = copyinstr_page (mem s) (pa0 + (srcva - va0)) n dst
            in if got_null then Ok (0, dst') s
               else copyinstr_loop pagetable dst' (va0 + PGSIZE) (mx - n) s)
      else Ok (-1, dst) s)"
  by pat_completeness auto
termination
  by (relation "measure (\<lambda>(pagetable, dst, srcva, mx, s). mx)") (auto simp: page_rest_pos)

declare copyinstr_loop.simps [simp del]

definition copyinstr ::
    "u64 \<Rightarrow> u64 \<Rightarrow> nat \<Rightarrow> 'a kmem_st_scheme \<Rightarrow> (int \<times> u8 list, 'a kmem_st_scheme) res" where
  "copyinstr pagetable srcva mx s = copyinstr_loop pagetable [] srcva mx s"

section \<open>Slots of page tables\<close>

text \<open>The pure walk: what the loop computes when it allocates nothing.\<close>

fun walk0 :: "memory \<Rightarrow> u64 \<Rightarrow> u64 \<Rightarrow> nat \<Rightarrow> u64" where
  "walk0 m pt va 0 = pte_at pt 0 va"
| "walk0 m pt va (Suc l) =
     (let pte = load64 m (pte_at pt (Suc l) va) in
      if pte AND PTE_V \<noteq> 0 then walk0 m (PTE2PA pte) va l else 0)"

lemma walk_loop_noalloc: "walk_loop pt va False l s = Ok (walk0 (mem s) pt va l) s"
  by (induction l arbitrary: pt) (auto simp: Let_def)

lemma walk_noalloc: "va < MAXVA \<Longrightarrow> walk pt va False s = Ok (walk0 (mem s) pt va 2) s"
  by (simp add: walk_def walk_loop_noalloc)

text \<open>The page-table pages a walk visits.\<close>

fun pt_pages :: "memory \<Rightarrow> u64 \<Rightarrow> u64 \<Rightarrow> nat \<Rightarrow> u64 set" where
  "pt_pages m pt va 0 = {pt}"
| "pt_pages m pt va (Suc l) =
     insert pt (let pte = load64 m (pte_at pt (Suc l) va) in
       if pte AND PTE_V \<noteq> 0 then pt_pages m (PTE2PA pte) va l else {})"

definition slot :: "u64 \<Rightarrow> bool" where
  "slot a \<longleftrightarrow> 8 dvd unat a"

lemma PTE2PA_aligned [simp]: "page_aligned (PTE2PA e)"
  by (simp add: page_aligned_take_bit PTE2PA_def take_bit_push_bit)

lemma unat_pte_at:
  assumes "page_aligned pt"
  shows "unat (pte_at pt l va) = unat pt + 8 * unat (PX l va)"
proof -
  have "8 * PX l va = of_nat (8 * unat (PX l va))"
    by simp
  moreover have "unat (pt + of_nat (8 * unat (PX l va))) = unat pt + 8 * unat (PX l va)"
    using aligned_top [OF assms] unat_PX [of l va] by (intro unat_add_no_wrap) simp
  ultimately show ?thesis by (simp add: pte_at_def)
qed

lemma slot_pte_at [simp]: "page_aligned pt \<Longrightarrow> slot (pte_at pt l va)"
  by (auto simp: slot_def unat_pte_at page_aligned_unat elim!: dvdE intro!: dvd_add)

lemma page_pte_at [simp]: "page_aligned pt \<Longrightarrow> PGROUNDDOWN (pte_at pt l va) = pt"
  using unat_PX [of l va]
  by (auto simp: word_unat_eq_iff unat_PGROUNDDOWN unat_pte_at page_aligned_unat elim!: dvdE)

lemma slots_apart:
  assumes "slot a" and "slot b" and "a \<noteq> b"
  shows "apart a 8 b 8"
proof -
  obtain i j where ij: "unat a = 8 * i" "unat b = 8 * j"
    using assms(1,2) by (auto simp: slot_def elim!: dvdE)
  with assms(3) have "i \<noteq> j" by (auto simp: word_unat_eq_iff)
  moreover have "unat a < 2 ^ LENGTH(64)" "unat b < 2 ^ LENGTH(64)"
    by (rule unsigned_less)+
  ultimately show ?thesis
    using ij by (intro apart_intervals) auto
qed

lemma page_split: "x = PGROUNDDOWN x + of_nat (unat x mod 4096)"
  by (metis add.commute diff_add_cancel of_nat_unat page_offset ucast_id)

lemma slot_room: "slot x \<Longrightarrow> unat x mod 4096 + 8 \<le> 4096"
proof -
  assume "slot x"
  then have "8 dvd unat x mod 4096"
    by (simp add: slot_def dvd_mod_iff)
  then obtain k where "unat x mod 4096 = 8 * k" by (auto elim: dvdE)
  moreover have "unat x mod 4096 < 4096" by simp
  ultimately show ?thesis by simp
qed

text \<open>Writing inside one page leaves the slots of every other page alone.\<close>

lemma load64_other_page:
  assumes "slot x" and "PGROUNDDOWN a \<noteq> PGROUNDDOWN x" and "unat a mod 4096 + length bs \<le> 4096"
  shows "load64 (mwrite m a bs) x = load64 m x"
proof -
  have "apart (PGROUNDDOWN a + of_nat (unat a mod 4096)) (length bs)
      (PGROUNDDOWN x + of_nat (unat x mod 4096)) 8"
    using assms slot_room [OF assms(1)] by (intro pages_apart) simp_all
  then show ?thesis
    using load64_mwrite_apart page_split by metis
qed

lemma load64_other_slot:
  "slot a \<Longrightarrow> slot x \<Longrightarrow> a \<noteq> x \<Longrightarrow> load64 (store64 m a v) x = load64 m x"
  by (intro load64_store64_apart slots_apart)

lemma kmem_inv_mwrite:
  assumes "kmem_inv s ps" and "PGROUNDDOWN a \<notin> set ps" and "unat a mod 4096 + length bs \<le> 4096"
  shows "kmem_inv (s\<lparr>mem := mwrite (mem s) a bs\<rparr>) ps"
proof -
  have "load64 (mwrite (mem s) a bs) p = load64 (mem s) p" if "p \<in> set ps" for p
  proof (rule load64_other_page)
    have al: "page_aligned p"
      using assms(1) that by (auto simp: kmem_inv_def valid_page_def)
    then show "slot p" by (auto simp: slot_def page_aligned_unat elim!: dvdE)
    show "PGROUNDDOWN a \<noteq> PGROUNDDOWN p"
      using al assms(2) that by (auto simp: PGROUNDDOWN_id)
  qed (use assms(3) in simp)
  then have "flist (mwrite (mem s) a bs) (freelist s) ps = flist (mem s) (freelist s) ps"
    by (intro flist_cong)
  with assms(1) show ?thesis by (simp add: kmem_inv_def valid_page_def)
qed

lemma kmem_inv_store64:
  "kmem_inv s ps \<Longrightarrow> PGROUNDDOWN a \<notin> set ps \<Longrightarrow> slot a \<Longrightarrow>
   kmem_inv (s\<lparr>mem := store64 (mem s) a v\<rparr>) ps"
  unfolding store64_def by (rule kmem_inv_mwrite) (simp_all add: slot_room)

lemma load64_zeroed:
  assumes "page_aligned p" and "PGROUNDDOWN x = p" and "slot x"
  shows "load64 (mwrite m p (replicate 4096 0)) x = 0"
proof -
  have x: "x = p + of_nat (unat x mod 4096)"
    using page_split [of x] assms(2) by simp
  have room: "unat x mod 4096 + 8 \<le> 4096"
    by (rule slot_room [OF assms(3)])
  have "mwrite m p (replicate 4096 0) (x + of_nat i) = 0" if "i < 8" for i
  proof -
    have eq: "x + of_nat i = p + of_nat (unat x mod 4096 + i)"
      by (subst x) (simp add: add.assoc)
    have "mwrite m p (replicate 4096 0) (p + of_nat (unat x mod 4096 + i))
        = replicate 4096 0 ! (unat x mod 4096 + i)"
      using room that by (intro mwrite_at) simp_all
    also have "\<dots> = 0"
      using room that by (intro nth_replicate) simp
    finally show ?thesis by (simp only: eq)
  qed
  then have "mbytes (mwrite m p (replicate 4096 0)) x 8 = replicate 8 0"
    by (intro nth_equalityI) simp_all
  then show ?thesis by (simp add: load64_def numeral_eq_Suc)
qed

section \<open>Walking with allocation\<close>

text \<open>
  What \<open>walk(.., alloc = 1)\<close> guarantees: no valid entry outside the pages it was handed changes,
  and the returned slot is what a plain walk of the new memory finds.
\<close>

definition keeps_valid :: "u64 list \<Rightarrow> memory \<Rightarrow> memory \<Rightarrow> bool" where
  "keeps_valid ps m m' \<longleftrightarrow>
     (\<forall>x. slot x \<longrightarrow> PGROUNDDOWN x \<notin> set ps \<longrightarrow> load64 m x AND PTE_V \<noteq> 0 \<longrightarrow>
          load64 m' x = load64 m x)"

lemma keeps_validD:
  "keeps_valid ps m m' \<Longrightarrow> slot x \<Longrightarrow> PGROUNDDOWN x \<notin> set ps \<Longrightarrow> load64 m x AND PTE_V \<noteq> 0 \<Longrightarrow>
   load64 m' x = load64 m x"
  by (simp add: keeps_valid_def)

lemma keeps_valid_refl [simp]: "keeps_valid ps m m"
  by (simp add: keeps_valid_def)

lemma keeps_valid_trans:
  assumes "keeps_valid ps m m'" and "keeps_valid qs m' m''" and "set qs \<subseteq> set ps"
  shows "keeps_valid ps m m''"
  unfolding keeps_valid_def
proof (intro allI impI)
  fix x assume x: "slot x" "PGROUNDDOWN x \<notin> set ps" "load64 m x AND PTE_V \<noteq> 0"
  then have eq: "load64 m' x = load64 m x"
    using assms(1) by (intro keeps_validD) auto
  then have "load64 m'' x = load64 m' x"
    using x assms(3) by (intro keeps_validD [OF assms(2)]) auto
  with eq show "load64 m'' x = load64 m x" by simp
qed

text \<open>The state after one page-table page \<open>pg\<close> has been allocated for slot \<open>ptep\<close>.\<close>

definition new_table :: "u64 \<Rightarrow> u64 \<Rightarrow> 'a kmem_st_scheme \<Rightarrow> 'a kmem_st_scheme" where
  "new_table pg ptep s =
     (let s = s\<lparr>mem := memset (mem s) pg 0 (ucast PGSIZE)\<rparr>
      in s\<lparr>mem := store64 (mem s) ptep (PA2PTE pg OR PTE_V)\<rparr>)"

lemma valid_page_pte_addr: "valid_page s p \<Longrightarrow> pte_addr p"
  by (auto simp: valid_page_def pte_addr_def PHYSTOP_def KERNBASE_def word_less_nat_alt)

lemma PTE_V_nonzero [simp]: "PTE_V \<noteq> 0"
  by (simp add: PTE_V_def)

lemma pte_entry_valid [simp]: "(a OR PTE_V) AND PTE_V \<noteq> 0"
proof -
  have "bit ((a OR PTE_V) AND PTE_V) 0"
    by (simp add: bit_and_iff bit_or_iff PTE_V_def)
  then show ?thesis by (metis bit_0_eq bot_apply bot_bool_def)
qed

lemma new_table_facts:
  assumes inv: "kmem_inv s (pg # qs)" and al: "kalloc s = Ok pg s1"
    and pt: "page_aligned pt" "pt \<notin> set (pg # qs)"
    and bad: "load64 (mem s) (pte_at pt (Suc l) va) AND PTE_V = 0"
  defines "s2 \<equiv> new_table pg (pte_at pt (Suc l) va) s1"
  shows "kmem_inv s2 qs"
    and "keeps_valid (pg # qs) (mem s) (mem s2)"
    and "load64 (mem s2) (pte_at pt (Suc l) va) = PA2PTE pg OR PTE_V"
    and "pt_pages (mem s2) pg va k = {pg}"
    and "slot x \<Longrightarrow> PGROUNDDOWN x = pg \<Longrightarrow> load64 (mem s2) x = 0"
    and "slot x \<Longrightarrow> PGROUNDDOWN x \<noteq> pg \<Longrightarrow> x \<noteq> pte_at pt (Suc l) va \<Longrightarrow> load64 (mem s2) x = load64 (mem s) x"
proof -
  let ?e = "pte_at pt (Suc l) va"
  obtain t where "kalloc s = Ok pg t" "kmem_inv t qs" "only_page pg s t"
    using kalloc_step [OF inv] by blast
  with al have inv1: "kmem_inv s1 qs" and op: "only_page pg s s1" by auto
  have pga: "page_aligned pg" and pgn: "pg \<notin> set qs" and ne: "pt \<noteq> pg"
    using inv pt(2) by (auto simp: kmem_inv_def valid_page_def)
  have m2: "mem s2 = store64 (mwrite (mem s1) pg (replicate 4096 0)) ?e (PA2PTE pg OR PTE_V)"
    by (simp add: s2_def new_table_def Let_def memset_page)
  have off: "unat pg mod 4096 = 0"
    using pga by (simp add: page_aligned_unat)
  have "kmem_inv (s1\<lparr>mem := mwrite (mem s1) pg (replicate 4096 0)\<rparr>) qs"
    using inv1 pgn pga off by (intro kmem_inv_mwrite) (simp_all add: PGROUNDDOWN_id)
  then show "kmem_inv s2 qs"
    using pt kmem_inv_store64 [of "s1\<lparr>mem := mwrite (mem s1) pg (replicate 4096 0)\<rparr>" qs ?e]
    by (simp add: s2_def new_table_def Let_def memset_page)
  have same: "load64 (mem s2) x = load64 (mem s) x"
    if x: "slot x" "PGROUNDDOWN x \<noteq> pg" "x \<noteq> ?e" for x
  proof -
    have "load64 (mem s2) x = load64 (mwrite (mem s1) pg (replicate 4096 0)) x"
      unfolding m2 using x pt by (intro load64_other_slot) auto
    also have "\<dots> = load64 (mem s1) x"
      using x pga off by (intro load64_other_page) (auto simp: PGROUNDDOWN_id)
    also have "\<dots> = load64 (mem s) x"
    proof -
      have "\<not> in_page pg (x + of_nat i)" if "i < 8" for i
      proof -
        have ap: "apart pg 4096 (PGROUNDDOWN x + of_nat (unat x mod 4096)) 8"
          using pages_apart [of pg "PGROUNDDOWN x" 0 4096 "unat x mod 4096" 8]
            pga x slot_room [of x] by simp
        have "unat (x + of_nat i - pg) < 4096 \<Longrightarrow> False"
          using ap that unfolding apart_def page_split [symmetric]
          by (metis add.commute diff_add_cancel of_nat_unat ucast_id)
        then show ?thesis by (auto simp: in_page_def)
      qed
      with op show ?thesis
        by (auto simp: only_page_def load64_def intro!: arg_cong [of _ _ le_word] mbytes_cong)
    qed
    finally show ?thesis .
  qed
  show "keeps_valid (pg # qs) (mem s) (mem s2)"
    unfolding keeps_valid_def using same bad by auto
  show "load64 (mem s2) ?e = PA2PTE pg OR PTE_V"
    by (simp add: m2)
  have zero: "load64 (mem s2) x = 0" if x: "slot x" "PGROUNDDOWN x = pg" for x
  proof -
    have "x \<noteq> ?e" using ne pt(1) x(2) by auto
    then have "load64 (mem s2) x = load64 (mwrite (mem s1) pg (replicate 4096 0)) x"
      unfolding m2 using pt(1) x by (intro load64_other_slot) auto
    also have "\<dots> = 0"
      using pga x by (intro load64_zeroed) auto
    finally show ?thesis .
  qed
  then show "pt_pages (mem s2) pg va k = {pg}"
    using pga by (cases k) (simp_all add: Let_def)
  show "slot x \<Longrightarrow> PGROUNDDOWN x = pg \<Longrightarrow> load64 (mem s2) x = 0" by (rule zero)
  show "slot x \<Longrightarrow> PGROUNDDOWN x \<noteq> pg \<Longrightarrow> x \<noteq> ?e \<Longrightarrow> load64 (mem s2) x = load64 (mem s) x"
    by (rule same)
qed

lemma walk_loop_alloc:
  assumes "kmem_inv s ps" and "page_aligned pt" and "pt_pages (mem s) pt va l \<inter> set ps = {}"
    and "walk_loop pt va True l s = Ok e t" and "e \<noteq> 0"
  shows "\<exists>qs. kmem_inv t qs \<and> set qs \<subseteq> set ps \<and> keeps_valid ps (mem s) (mem t) \<and>
     e = walk0 (mem t) pt va l \<and> slot e \<and> PGROUNDDOWN e \<notin> set qs"
  using assms
proof (induction l arbitrary: pt s ps)
  case 0
  then show ?case by (intro exI [of _ ps]) auto
next
  case (Suc l)
  let ?e = "pte_at pt (Suc l) va"
  have ptn: "pt \<notin> set ps" using Suc.prems(3) by auto
  show ?case
  proof (cases "load64 (mem s) ?e AND PTE_V \<noteq> 0")
    case True
    let ?n = "PTE2PA (load64 (mem s) ?e)"
    have "pt_pages (mem s) ?n va l \<inter> set ps = {}"
      using Suc.prems(3) True by (auto simp: Let_def)
    moreover have "walk_loop ?n va True l s = Ok e t"
      using Suc.prems(4) True by (simp add: Let_def)
    ultimately obtain qs where qs: "kmem_inv t qs" "set qs \<subseteq> set ps"
        "keeps_valid ps (mem s) (mem t)" "e = walk0 (mem t) ?n va l" "slot e" "PGROUNDDOWN e \<notin> set qs"
      using Suc.IH [OF Suc.prems(1) PTE2PA_aligned] Suc.prems(5) by blast
    have "load64 (mem t) ?e = load64 (mem s) ?e"
      using qs(3) Suc.prems(2) ptn True by (intro keeps_validD) auto
    with qs True show ?thesis by (intro exI [of _ qs]) (simp add: Let_def)
  next
    case False
    then obtain pg s1 where k: "kalloc s = Ok pg s1" and pg: "pg \<noteq> 0"
      and w: "walk_loop pg va True l (new_table pg ?e s1) = Ok e t"
      using Suc.prems(4,5) by (auto simp: Let_def new_table_def bind_simps split: if_splits)
    obtain qs where ps: "ps = pg # qs"
      using kp.alloc_fresh [OF Suc.prems(1) k pg] by blast
    have bad: "load64 (mem s) ?e AND PTE_V = 0" using False by simp
    note f = new_table_facts [OF Suc.prems(1) [unfolded ps] k Suc.prems(2) ptn [unfolded ps] bad]
    have pga: "page_aligned pg" "pg \<notin> set qs" "valid_page s pg"
      using Suc.prems(1) ps by (auto simp: kmem_inv_def valid_page_def)
    obtain rs where rs: "kmem_inv t rs" "set rs \<subseteq> set qs"
        "keeps_valid qs (mem (new_table pg ?e s1)) (mem t)" "e = walk0 (mem t) pg va l"
        "slot e" "PGROUNDDOWN e \<notin> set rs"
      using Suc.IH [OF f(1) pga(1) _ w Suc.prems(5)] f(4) pga(2) by auto
    have "load64 (mem t) ?e = PA2PTE pg OR PTE_V"
      using keeps_validD [OF rs(3), of ?e] f(3) Suc.prems(2) ptn ps by simp
    moreover have "PTE2PA (PA2PTE pg OR PTE_V) = pg"
      using valid_page_pte_addr [OF pga(3)] by (intro PTE2PA_PA2PTE) (simp_all add: PTE_V_def)
    moreover have "keeps_valid ps (mem s) (mem t)"
      using keeps_valid_trans [OF f(2) rs(3)] ps by auto
    ultimately show ?thesis
      using rs ps by (intro exI [of _ rs]) (auto simp: Let_def)
  qed
qed

section \<open>Mapping one page\<close>

text \<open>The user address translation that \<open>walkaddr\<close> computes, as a function of memory.\<close>

definition uaddr :: "memory \<Rightarrow> u64 \<Rightarrow> u64 \<Rightarrow> u64" where
  "uaddr m pt va =
     (let p = walk0 m pt va 2; e = load64 m p in
      if va \<ge> MAXVA \<or> p = 0 \<or> e AND PTE_V = 0 \<or> e AND PTE_U = 0 then 0 else PTE2PA e)"

lemma walkaddr_eq: "walkaddr pt va s = Ok (uaddr (mem s) pt va) s"
  by (auto simp: walkaddr_def uaddr_def walk_noalloc not_le Let_def)

lemma PX_page: "PGROUNDDOWN va = PGROUNDDOWN vb \<Longrightarrow> PX l va = PX l vb"
proof -
  assume eq: "PGROUNDDOWN va = PGROUNDDOWN vb"
  have "bit va (12 + 9 * l + i) = bit vb (12 + 9 * l + i)" for i
  proof -
    have "bit (PGROUNDDOWN w) (12 + 9 * l + i) = bit w (12 + 9 * l + i)" for w
      by (auto simp: PGROUNDDOWN_bits bit_push_bit_iff bit_drop_bit_eq add.assoc
          dest: bit_imp_le_length)
    then show ?thesis using eq by metis
  qed
  then show ?thesis
    by (intro bit_word_eqI) (auto simp: PX_bits)
qed

lemma walk0_page: "PGROUNDDOWN va = PGROUNDDOWN vb \<Longrightarrow> walk0 m pt va l = walk0 m pt vb l"
  by (induction l arbitrary: pt) (simp_all add: pte_at_def PX_page [of va vb] Let_def)

text \<open>A walk all of whose entries are valid finds the same slot when valid entries are kept.\<close>

lemma walk0_keeps:
  assumes "keeps_valid ps m m'" and "page_aligned pt" and "pt_pages m pt va l \<inter> set ps = {}"
    and "walk0 m pt va l \<noteq> 0"
  shows "walk0 m' pt va l = walk0 m pt va l \<and> slot (walk0 m pt va l) \<and>
    PGROUNDDOWN (walk0 m pt va l) \<notin> set ps"
  using assms(2-)
proof (induction l arbitrary: pt)
  case 0
  then show ?case by simp
next
  case (Suc l)
  let ?e = "pte_at pt (Suc l) va"
  have v: "load64 m ?e AND PTE_V \<noteq> 0"
    using Suc.prems(3) by (auto simp: Let_def split: if_splits)
  then have "load64 m' ?e = load64 m ?e"
    using Suc.prems(1,2) by (intro keeps_validD [OF assms(1)]) auto
  with v Suc.IH [of "PTE2PA (load64 m ?e)"] Suc.prems show ?case
    by (auto simp: Let_def)
qed

lemma uaddr_keeps:
  assumes "keeps_valid ps m m'" and "page_aligned pt" and "pt_pages m pt va 2 \<inter> set ps = {}"
    and "uaddr m pt va \<noteq> 0"
  shows "uaddr m' pt va = uaddr m pt va"
proof -
  have p: "walk0 m pt va 2 \<noteq> 0" "load64 m (walk0 m pt va 2) AND PTE_V \<noteq> 0"
    using assms(4) by (auto simp: uaddr_def Let_def split: if_splits)
  note w = walk0_keeps [OF assms(1-3) p(1)]
  have "load64 m' (walk0 m pt va 2) = load64 m (walk0 m pt va 2)"
    using w p(2) by (intro keeps_validD [OF assms(1)]) auto
  then show ?thesis by (simp add: uaddr_def w)
qed

lemma mappages_page:
  assumes "page_aligned va"
  shows "mappages pt va PGSIZE pa perm s =
     bind (walk pt va True s) (\<lambda>pte s.
       if pte = 0 then Ok (-1) s
       else if load64 (mem s) pte AND PTE_V \<noteq> 0 then Panic ''mappages: remap''
       else Ok 0 (s\<lparr>mem := store64 (mem s) pte (PA2PTE pa OR perm OR PTE_V)\<rparr>))"
proof -
  have "va + PGSIZE - 1 = va + of_nat 4095"
    by (simp add: PGSIZE_def)
  moreover have "unat (va + of_nat 4095) = unat va + 4095"
    using aligned_top [OF assms] by (intro unat_add_no_wrap) simp
  moreover have "(unat va + 4095) div 4096 * 4096 = unat va"
    using assms by (auto simp: page_aligned_unat elim!: dvdE)
  ultimately have "PGROUNDDOWN (va + PGSIZE - 1) = va"
    by (simp add: word_unat_eq_iff unat_PGROUNDDOWN)
  moreover have "PGSIZE \<noteq> 0"
    by (simp add: PGSIZE_def)
  ultimately show ?thesis
    using assms
    by (simp add: mappages_def mappages_loop.simps [of pt va va] PGROUNDDOWN_id Let_def cong: if_cong)
qed

lemma mappages_effect:
  assumes inv: "kmem_inv s ps" and pt: "page_aligned pt" "pt_pages (mem s) pt va 2 \<inter> set ps = {}"
    and va: "page_aligned va" and ok: "mappages pt va PGSIZE pa perm s = Ok 0 t"
  shows "\<exists>qs e. kmem_inv t qs \<and> set qs \<subseteq> set ps \<and> keeps_valid ps (mem s) (mem t) \<and>
     e \<noteq> 0 \<and> walk0 (mem t) pt va 2 = e \<and> load64 (mem t) e = PA2PTE pa OR perm OR PTE_V \<and> va < MAXVA"
proof -
  obtain e u where w: "walk pt va True s = Ok e u" and e: "e \<noteq> 0"
    and bad: "load64 (mem u) e AND PTE_V = 0"
    and t: "t = u\<lparr>mem := store64 (mem u) e (PA2PTE pa OR perm OR PTE_V)\<rparr>"
    using ok unfolding mappages_page [OF va] by (auto simp: bind_simps split: if_splits)
  have lt: "va < MAXVA" using w by (rule walk_Ok_lt)
  then have "walk_loop pt va True 2 s = Ok e u"
    using w by (simp add: walk_def not_le split: if_splits)
  then obtain qs where qs: "kmem_inv u qs" "set qs \<subseteq> set ps" "keeps_valid ps (mem s) (mem u)"
      "e = walk0 (mem u) pt va 2" "slot e" "PGROUNDDOWN e \<notin> set qs"
    using walk_loop_alloc [OF inv pt] e by blast
  have store: "keeps_valid [] (mem u) (mem t)"
    unfolding keeps_valid_def t using bad load64_other_slot [OF qs(5)] by auto
  have "walk0 (mem t) pt va 2 = walk0 (mem u) pt va 2"
    using walk0_keeps [OF store pt(1)] e qs(4) by auto
  moreover have "kmem_inv t qs"
    using qs unfolding t by (intro kmem_inv_store64)
  moreover have "keeps_valid ps (mem s) (mem t)"
    using keeps_valid_trans [OF qs(3) store] by simp
  ultimately show ?thesis
    using qs e lt t by (intro exI [of _ qs] exI [of _ e]) auto
qed

lemma bit_PTE_U: "bit PTE_U n \<longleftrightarrow> n = 4"
  unfolding PTE_U_def bit_push_bit_iff bit_1_iff by auto

lemma mappages_translates:
  assumes "kmem_inv s ps" and "page_aligned pt" and "pt_pages (mem s) pt va 2 \<inter> set ps = {}"
    and "page_aligned va" and "pte_addr pa" and "unat perm < 2 ^ 10" and "perm AND PTE_U \<noteq> 0"
    and "mappages pt va PGSIZE pa perm s = Ok 0 t" and "PGROUNDDOWN vb = va" and "vb < MAXVA"
  shows "walkaddr pt vb t = Ok pa t"
proof -
  obtain e where e: "e \<noteq> 0" "walk0 (mem t) pt va 2 = e"
      "load64 (mem t) e = PA2PTE pa OR perm OR PTE_V" "va < MAXVA"
    using mappages_effect [OF assms(1-4) assms(8)] by blast
  have w: "walk0 (mem t) pt vb 2 = e"
    using e(2) walk0_page [of vb va] assms(4,9) by (simp add: PGROUNDDOWN_id)
  have f: "unat (perm OR PTE_V) < 2 ^ 10"
  proof -
    have "perm = take_bit 10 perm"
      using assms(6) by (simp add: take_bit_eq_mod word_unat_eq_iff unat_mod)
    moreover have "PTE_V = take_bit 10 PTE_V" by (simp add: PTE_V_def)
    ultimately have "perm OR PTE_V = take_bit 10 (perm OR PTE_V)"
      by (metis take_bit_or)
    then have "unat (perm OR PTE_V) = unat (perm OR PTE_V) mod 2 ^ 10"
      by (metis take_bit_eq_mod unsigned_take_bit_eq)
    then show ?thesis
      by (metis mod_less_divisor zero_less_numeral zero_less_power)
  qed
  have "bit perm 4"
  proof (rule ccontr)
    assume "\<not> bit perm 4"
    then have "perm AND PTE_U = 0"
      by (intro bit_word_eqI) (auto simp: bit_PTE_U bit_and_iff)
    with assms(7) show False by simp
  qed
  then have "bit ((PA2PTE pa OR perm OR PTE_V) AND PTE_U) 4"
    by (simp add: bit_PTE_U bit_and_iff bit_or_iff)
  then have u: "(PA2PTE pa OR perm OR PTE_V) AND PTE_U \<noteq> 0"
    by (metis bit_0_eq bot_apply bot_bool_def)
  have "PTE2PA (PA2PTE pa OR perm OR PTE_V) = pa"
    using PTE2PA_PA2PTE [OF assms(5) f] by (simp add: or.assoc)
  moreover have "(PA2PTE pa OR perm OR PTE_V) AND PTE_V \<noteq> 0"
    using pte_entry_valid [of "PA2PTE pa OR perm"] by (simp add: or.assoc)
  ultimately show ?thesis
    using e w u assms(10) by (auto simp: walkaddr_eq uaddr_def Let_def)
qed

end
