(* ===== verification/Spinlock.thy ===== *)
theory Spinlock
  imports Riscv
begin

text \<open>
  Spin locks (\<open>kernel/spinlock.c\<close>), the interrupt-enable bit they manage (\<open>intr_on\<close>,
  \<open>intr_off\<close>, \<open>intr_get\<close> of \<open>kernel/riscv.h\<close>), and sleep locks (\<open>kernel/sleeplock.c\<close>).

  Each function is given first as it runs on one CPU. The lock is then put under an interleaving
  semantics in which any CPU may take its next atomic action (the swap of \<open>acquire\<close>, the store to
  \<open>lk->cpu\<close>, the clearing store of \<open>release\<close>): \<open>spin_step\<close>, whose reachable states satisfy
  mutual exclusion. The locale \<open>exclusive_lock\<close> states the contract that both kinds of lock keep.
\<close>

section \<open>Interrupt enable and per-CPU state\<close>

definition SSTATUS_SPP :: u64 where "SSTATUS_SPP = push_bit 8 1"
definition SSTATUS_SPIE :: u64 where "SSTATUS_SPIE = push_bit 5 1"
definition SSTATUS_SIE :: u64 where "SSTATUS_SIE = push_bit 1 1"

record cpu =
  c_proc :: "nat option"
  noff :: int
  intena :: bool
  sstatus :: u64

definition intr_on :: "cpu \<Rightarrow> cpu" where
  "intr_on c = c\<lparr>sstatus := sstatus c OR SSTATUS_SIE\<rparr>"

definition intr_off :: "cpu \<Rightarrow> cpu" where
  "intr_off c = c\<lparr>sstatus := sstatus c AND NOT SSTATUS_SIE\<rparr>"

definition intr_get :: "cpu \<Rightarrow> bool" where
  "intr_get c \<longleftrightarrow> sstatus c AND SSTATUS_SIE \<noteq> 0"

definition push_off :: "cpu \<Rightarrow> cpu" where
  "push_off c =
     (let old = intr_get c;
          c = intr_off c;
          c = (if noff c = 0 then c\<lparr>intena := old\<rparr> else c)
      in c\<lparr>noff := noff c + 1\<rparr>)"

definition pop_off :: "cpu \<Rightarrow> (unit, cpu) res" where
  "pop_off c =
     (if intr_get c then Panic ''pop_off - interruptible''
      else if noff c < 1 then Panic ''pop_off''
      else
        let c = c\<lparr>noff := noff c - 1\<rparr>
        in Ok () (if noff c = 0 \<and> intena c then intr_on c else c))"

lemma bit_SIE: "bit SSTATUS_SIE n \<longleftrightarrow> n = Suc 0"
  unfolding SSTATUS_SIE_def bit_push_bit_iff bit_1_iff by auto

lemma SIE_and: "x AND SSTATUS_SIE = 0 \<longleftrightarrow> \<not> bit x (Suc 0)"
proof -
  have "x AND SSTATUS_SIE = 0 \<longleftrightarrow> (\<forall>n. \<not> bit (x AND SSTATUS_SIE) n)"
    by (metis bit_eqI bit_0_eq bot_apply bot_bool_def)
  then show ?thesis by (auto simp: bit_and_iff bit_SIE)
qed

lemma intr_get_bit: "intr_get c \<longleftrightarrow> bit (sstatus c) (Suc 0)"
  by (simp add: intr_get_def SIE_and)

lemma intr_get_on [simp]: "intr_get (intr_on c)"
  by (simp add: intr_get_bit intr_on_def bit_or_iff bit_SIE)

lemma intr_get_off [simp]: "\<not> intr_get (intr_off c)"
  by (simp add: intr_get_bit intr_off_def bit_and_iff bit_not_iff bit_SIE)

lemma sstatus_on_off: "intr_get c \<Longrightarrow> (sstatus c AND NOT SSTATUS_SIE) OR SSTATUS_SIE = sstatus c"
  by (rule bit_word_eqI)
    (auto simp: intr_get_bit bit_or_iff bit_and_iff bit_not_iff bit_SIE)

lemma sstatus_off: "\<not> intr_get c \<Longrightarrow> sstatus c AND NOT SSTATUS_SIE = sstatus c"
  by (rule bit_word_eqI) (auto simp: intr_get_bit bit_and_iff bit_not_iff bit_SIE)

lemma push_off_eq:
  "push_off c = c\<lparr>sstatus := sstatus c AND NOT SSTATUS_SIE, noff := noff c + 1,
     intena := (if noff c = 0 then intr_get c else intena c)\<rparr>"
  by (simp add: push_off_def intr_off_def Let_def)

lemma push_off_facts [simp]:
  "\<not> intr_get (push_off c)" "noff (push_off c) = noff c + 1" "c_proc (push_off c) = c_proc c"
  by (simp_all add: push_off_eq intr_get_bit bit_and_iff bit_not_iff bit_SIE)

lemma pop_off_push_off:
  assumes "0 \<le> noff c" and "0 < noff c \<Longrightarrow> \<not> intr_get c"
  shows "pop_off (push_off c) = Ok () (c\<lparr>intena := (if noff c = 0 then intr_get c else intena c)\<rparr>)"
proof -
  have "sstatus c AND NOT SSTATUS_SIE OR (if intr_get c then SSTATUS_SIE else 0) = sstatus c"
    by (simp add: sstatus_on_off sstatus_off)
  moreover have "\<not> intr_get (push_off c)" "\<not> noff (push_off c) < 1"
    using assms(1) by simp_all
  ultimately show ?thesis
    using assms by (auto simp: pop_off_def push_off_eq intr_on_def Let_def sstatus_off)
qed

text \<open>Undoing \<open>n\<close> nested \<open>push_off\<close>s.\<close>

fun pop_offs :: "nat \<Rightarrow> cpu \<Rightarrow> (unit, cpu) res" where
  "pop_offs 0 c = Ok () c"
| "pop_offs (Suc n) c = bind (pop_off c) (\<lambda>_ c. pop_offs n c)"

lemma noff_pushes [simp]: "noff ((push_off ^^ n) c) = noff c + int n"
  by (induction n) simp_all

lemma pop_offs_pushes:
  assumes "0 \<le> noff c" and "0 < noff c \<Longrightarrow> \<not> intr_get c"
  shows "\<exists>d. pop_offs n ((push_off ^^ n) c) = Ok () d \<and> sstatus d = sstatus c \<and> noff d = noff c"
proof (induction n)
  case 0
  then show ?case by simp
next
  case (Suc n)
  let ?x = "(push_off ^^ n) c"
  show ?case
  proof (cases n)
    case 0
    then show ?thesis
      using pop_off_push_off [OF assms] by simp
  next
    case (Suc k)
    then have "\<not> intr_get ?x" by simp
    then have "pop_off (push_off ?x) = Ok () ?x"
      using pop_off_push_off [of ?x] assms(1) Suc by simp
    then show ?thesis using Suc.IH by simp
  qed
qed

section \<open>Spin locks\<close>

record spinlock =
  locked :: u32
  lk_name :: string
  lk_cpu :: "nat option"

definition initlock :: "string \<Rightarrow> spinlock" where
  "initlock name = \<lparr>locked = 0, lk_name = name, lk_cpu = None\<rparr>"

definition holding :: "nat \<Rightarrow> spinlock \<Rightarrow> bool" where
  "holding me lk \<longleftrightarrow> locked lk \<noteq> 0 \<and> lk_cpu lk = Some me"

text \<open>The state of a lock on a machine: the lock and every CPU's own state.\<close>

type_synonym lockst = "spinlock \<times> (nat \<Rightarrow> cpu)"

definition acquire :: "nat \<Rightarrow> lockst \<Rightarrow> (unit, lockst) res" where
  "acquire me s =
     (let (lk, cs) = s;
          cs = cs(me := push_off (cs me))
      in if holding me lk then Panic ''acquire''
         else if locked lk \<noteq> 0 then Diverge
         else Ok () (lk\<lparr>locked := 1, lk_cpu := Some me\<rparr>, cs))"

definition release :: "nat \<Rightarrow> lockst \<Rightarrow> (unit, lockst) res" where
  "release me s =
     (let (lk, cs) = s in
      if \<not> holding me lk then Panic ''release''
      else
        let lk = lk\<lparr>lk_cpu := None\<rparr>;
            lk = lk\<lparr>locked := 0\<rparr>
        in (case pop_off (cs me) of
              Ok _ c \<Rightarrow> Ok () (lk, cs(me := c))
            | Panic e \<Rightarrow> Panic e
            | Sleep ch _ \<Rightarrow> Diverge
            | Diverge \<Rightarrow> Diverge))"

section \<open>Sleep locks\<close>

text \<open>
  A sleep lock is held by a process, known by its pid; \<open>ch\<close> is the channel of the lock's own
  address. The inner spin lock makes each function one step.
\<close>

record sleeplock =
  sl_locked :: bool
  sl_name :: string
  sl_pid :: int

definition initsleeplock :: "string \<Rightarrow> sleeplock" where
  "initsleeplock name = \<lparr>sl_locked = False, sl_name = name, sl_pid = 0\<rparr>"

definition acquiresleep :: "chan \<Rightarrow> int \<Rightarrow> sleeplock \<Rightarrow> (unit, sleeplock) res" where
  "acquiresleep ch pid lk =
     (if sl_locked lk then Sleep ch lk
      else Ok () (lk\<lparr>sl_locked := True, sl_pid := pid\<rparr>))"

definition releasesleep :: "sleeplock \<Rightarrow> sleeplock" where
  "releasesleep lk = lk\<lparr>sl_locked := False, sl_pid := 0\<rparr>"

definition holdingsleep :: "int \<Rightarrow> sleeplock \<Rightarrow> bool" where
  "holdingsleep pid lk \<longleftrightarrow> sl_locked lk \<and> sl_pid lk = pid"

section \<open>The contract of a lock\<close>

datatype 'p lock_op = Acq 'p | Rel 'p

locale exclusive_lock =
  fixes acq :: "'p \<Rightarrow> 's \<Rightarrow> (unit, 's) res"
    and rel :: "'p \<Rightarrow> 's \<Rightarrow> (unit, 's) res"
    and holder :: "'s \<Rightarrow> 'p option"
    and inv :: "'s \<Rightarrow> bool"
  assumes acq_free: "inv s \<Longrightarrow> holder s = None \<Longrightarrow>
      \<exists>t. acq p s = Ok () t \<and> inv t \<and> holder t = Some p"
    and acq_busy: "inv s \<Longrightarrow> holder s = Some q \<Longrightarrow> \<not> returns (acq p s)"
    and rel_holder: "inv s \<Longrightarrow> holder s = Some p \<Longrightarrow>
      \<exists>t. rel p s = Ok () t \<and> inv t \<and> holder t = None"
begin

text \<open>A party that acquires and releases leaves the lock free again.\<close>

lemma acq_then_rel:
  assumes "inv s" and "holder s = None"
  shows "\<exists>t. bind (acq p s) (\<lambda>_. rel p) = Ok () t \<and> inv t \<and> holder t = None"
  using acq_free [OF assms, of p] rel_holder by fastforce

text \<open>While one party holds the lock no other party's \<open>acq\<close> returns.\<close>

lemma no_second_holder:
  assumes "inv s" and "acq p s = Ok () t" and "acq q t = Ok () u"
  shows False
proof -
  have free: "holder s = None"
    using assms(1,2) acq_busy by (cases "holder s") (auto simp: returns_def)
  then have "inv t" "holder t = Some p"
    using acq_free [OF assms(1) free, of p] assms(2) by auto
  with assms(3) acq_busy show False by (auto simp: returns_def)
qed

end

definition spin_holder :: "lockst \<Rightarrow> nat option" where
  "spin_holder s = (if locked (fst s) \<noteq> 0 then lk_cpu (fst s) else None)"

text \<open>
  The recorded CPU agrees with the lock bit, and the CPU that holds the lock runs with interrupts
  off and at least one \<open>push_off\<close> outstanding.
\<close>

definition spin_ok :: "lockst \<Rightarrow> bool" where
  "spin_ok s \<longleftrightarrow>
     (locked (fst s) \<noteq> 0 \<longleftrightarrow> lk_cpu (fst s) \<noteq> None) \<and> (\<forall>c. 0 \<le> noff (snd s c)) \<and>
     (\<forall>c. lk_cpu (fst s) = Some c \<longrightarrow> 1 \<le> noff (snd s c) \<and> \<not> intr_get (snd s c))"

interpretation spin: exclusive_lock acquire release spin_holder spin_ok
proof (unfold_locales, goal_cases)
  case (1 s p)
  then show ?case
    by (cases s) (auto simp: acquire_def spin_holder_def spin_ok_def holding_def split: if_splits)
next
  case (2 s q p)
  then show ?case
    by (cases s) (auto simp: acquire_def spin_holder_def spin_ok_def holding_def returns_def Let_def
        split: if_splits)
next
  case (3 s p)
  obtain lk cs where s: "s = (lk, cs)" by (cases s)
  have h: "holding p lk" "\<not> intr_get (cs p)" "\<not> noff (cs p) < 1"
    using 3 by (auto simp: s spin_holder_def spin_ok_def holding_def split: if_splits)
  then show ?case
    using 3 by (auto simp: s release_def pop_off_def Let_def spin_ok_def spin_holder_def intr_on_def)
qed

definition sleep_holder :: "sleeplock \<Rightarrow> int option" where
  "sleep_holder lk = (if sl_locked lk then Some (sl_pid lk) else None)"

interpretation slp: exclusive_lock "acquiresleep ch" "\<lambda>_ lk. Ok () (releasesleep lk)" sleep_holder
    "\<lambda>_. True" for ch
  by unfold_locales
    (auto simp: acquiresleep_def releasesleep_def sleep_holder_def returns_def split: if_splits)

section \<open>Spin locks under interleaving\<close>

text \<open>
  Where a CPU stands: outside, in the swap loop of \<open>acquire\<close>, between the successful swap and the
  store to \<open>lk->cpu\<close>, inside its critical section, or between the two stores of \<open>release\<close>.
\<close>

datatype spin_pc = Outside | Spinning | Swapped | Critical | Clearing

record spinsys =
  s_lk :: spinlock
  s_cpus :: "nat \<Rightarrow> cpu"
  s_pc :: "nat \<Rightarrow> spin_pc"

inductive spin_step :: "spinsys \<Rightarrow> spinsys \<Rightarrow> bool" where
  enter: "s_pc s me = Outside \<Longrightarrow> \<not> holding me (s_lk s) \<Longrightarrow>
    spin_step s (s\<lparr>s_cpus := (s_cpus s)(me := push_off (s_cpus s me)), s_pc := (s_pc s)(me := Spinning)\<rparr>)"
| spin: "s_pc s me = Spinning \<Longrightarrow> locked (s_lk s) \<noteq> 0 \<Longrightarrow>
    spin_step s (s\<lparr>s_lk := (s_lk s)\<lparr>locked := 1\<rparr>\<rparr>)"
| swap: "s_pc s me = Spinning \<Longrightarrow> locked (s_lk s) = 0 \<Longrightarrow>
    spin_step s (s\<lparr>s_lk := (s_lk s)\<lparr>locked := 1\<rparr>, s_pc := (s_pc s)(me := Swapped)\<rparr>)"
| record_cpu: "s_pc s me = Swapped \<Longrightarrow>
    spin_step s (s\<lparr>s_lk := (s_lk s)\<lparr>lk_cpu := Some me\<rparr>, s_pc := (s_pc s)(me := Critical)\<rparr>)"
| clear_cpu: "s_pc s me = Critical \<Longrightarrow> holding me (s_lk s) \<Longrightarrow>
    spin_step s (s\<lparr>s_lk := (s_lk s)\<lparr>lk_cpu := None\<rparr>, s_pc := (s_pc s)(me := Clearing)\<rparr>)"
| unlock: "s_pc s me = Clearing \<Longrightarrow> pop_off (s_cpus s me) = Ok () c \<Longrightarrow>
    spin_step s (s\<lparr>s_lk := (s_lk s)\<lparr>locked := 0\<rparr>, s_cpus := (s_cpus s)(me := c),
      s_pc := (s_pc s)(me := Outside)\<rparr>)"

inductive spin_reachable :: "spinsys \<Rightarrow> bool" where
  start: "(\<And>c. 0 \<le> noff (cs c)) \<Longrightarrow>
    spin_reachable \<lparr>s_lk = initlock nm, s_cpus = cs, s_pc = (\<lambda>_. Outside)\<rparr>"
| step: "spin_reachable s \<Longrightarrow> spin_step s t \<Longrightarrow> spin_reachable t"

definition owning :: "spin_pc \<Rightarrow> bool" where
  "owning p \<longleftrightarrow> p = Swapped \<or> p = Critical \<or> p = Clearing"

definition spin_inv :: "spinsys \<Rightarrow> bool" where
  "spin_inv s \<longleftrightarrow>
     (locked (s_lk s) = 0 \<longrightarrow> (\<forall>c. \<not> owning (s_pc s c))) \<and>
     (\<forall>c d. owning (s_pc s c) \<longrightarrow> owning (s_pc s d) \<longrightarrow> c = d) \<and>
     (\<forall>c. lk_cpu (s_lk s) = Some c \<longleftrightarrow> s_pc s c = Critical) \<and>
     (\<forall>c. 0 \<le> noff (s_cpus s c)) \<and>
     (\<forall>c. s_pc s c \<noteq> Outside \<longrightarrow> 1 \<le> noff (s_cpus s c) \<and> \<not> intr_get (s_cpus s c))"

lemma spin_invI:
  assumes "locked (s_lk s) = 0 \<Longrightarrow> (\<forall>c. \<not> owning (s_pc s c))"
    and "\<And>c d. owning (s_pc s c) \<Longrightarrow> owning (s_pc s d) \<Longrightarrow> c = d"
    and "\<And>c. lk_cpu (s_lk s) = Some c \<longleftrightarrow> s_pc s c = Critical"
    and "\<And>c. 0 \<le> noff (s_cpus s c)"
    and "\<And>c. s_pc s c \<noteq> Outside \<Longrightarrow> 1 \<le> noff (s_cpus s c) \<and> \<not> intr_get (s_cpus s c)"
  shows "spin_inv s"
  using assms by (simp add: spin_inv_def)

lemma pop_off_noff: "pop_off c = Ok () d \<Longrightarrow> 0 \<le> noff d"
  by (auto simp: pop_off_def Let_def intr_on_def split: if_splits)

lemma spin_step_inv: "spin_step s t \<Longrightarrow> spin_inv s \<Longrightarrow> spin_inv t"
proof (induction rule: spin_step.induct)
  case (enter s me)
  then show ?case
    by (intro spin_invI) (auto simp: spin_inv_def owning_def split: if_splits)
next
  case (spin s me)
  then show ?case
    by (intro spin_invI) (auto simp: spin_inv_def owning_def)
next
  case (swap s me)
  then show ?case
    by (intro spin_invI) (auto simp: spin_inv_def owning_def split: if_splits)
next
  case (record_cpu s me)
  then have "owning (s_pc s me)" by (simp add: owning_def)
  with record_cpu show ?case
    by (intro spin_invI) (auto simp: spin_inv_def owning_def split: if_splits)
next
  case (clear_cpu s me)
  then have "owning (s_pc s me)" by (simp add: owning_def)
  with clear_cpu show ?case
    by (intro spin_invI) (auto simp: spin_inv_def owning_def holding_def split: if_splits)
next
  case (unlock s me c)
  then have "owning (s_pc s me)" by (simp add: owning_def)
  with unlock show ?case
    by (intro spin_invI) (auto simp: spin_inv_def owning_def dest: pop_off_noff split: if_splits)
qed

lemma spin_reachable_inv: "spin_reachable s \<Longrightarrow> spin_inv s"
proof (induction rule: spin_reachable.induct)
  case (start cs nm)
  then show ?case by (intro spin_invI) (auto simp: owning_def initlock_def)
qed (rule spin_step_inv)

section \<open>Properties\<close>

text \<open>
  C3: Mutual exclusion of a spin lock. In every interleaving of the atomic actions of
  \<open>acquire\<close> and \<open>release\<close> by any number of CPUs, while one CPU is between its successful swap and
  its clearing store, no other CPU is.
\<close>

theorem spin_mutual_exclusion:
  assumes "spin_reachable s" and "owning (s_pc s i)" and "i \<noteq> j"
  shows "\<not> owning (s_pc s j)"
  using spin_reachable_inv [OF assms(1)] assms(2,3) by (auto simp: spin_inv_def)

theorem spin_mutual_exclusion_witness:
  "\<exists>s. spin_reachable s \<and> owning (s_pc s 0) \<and> \<not> owning (s_pc s 1)"
proof -
  let ?c = "\<lparr>c_proc = None, noff = 0, intena = False, sstatus = 0\<rparr>"
  let ?s0 = "\<lparr>s_lk = initlock ''kmem'', s_cpus = (\<lambda>_. ?c), s_pc = (\<lambda>_. Outside)\<rparr>"
  let ?s1 = "?s0\<lparr>s_cpus := (s_cpus ?s0)(0 := push_off ?c), s_pc := (s_pc ?s0)(0 := Spinning)\<rparr>"
  let ?s2 = "?s1\<lparr>s_lk := (s_lk ?s1)\<lparr>locked := 1\<rparr>, s_pc := (s_pc ?s1)(0 := Swapped)\<rparr>"
  have r0: "spin_reachable ?s0"
    by (rule spin_reachable.start) simp
  have st1: "spin_step ?s0 ?s1"
    using spin_step.enter [of ?s0 0] by (simp add: holding_def initlock_def)
  have st2: "spin_step ?s1 ?s2"
    using spin_step.swap [of ?s1 0] by (simp add: initlock_def)
  have r: "spin_reachable ?s2"
    by (rule spin_reachable.step [OF spin_reachable.step [OF r0 st1] st2])
  have o: "owning (s_pc ?s2 0)" by (simp add: owning_def)
  have "\<not> owning (s_pc ?s2 1)"
    by (rule spin_mutual_exclusion [OF r o]) simp
  with r o show ?thesis by blast
qed

text \<open>
  \<open>holding\<close> tells the truth. In every reachable state \<open>holding(lk)\<close> on a CPU is true exactly
  while that CPU is inside its critical section, which is what the checks of
  \<open>acquire\<close> and \<open>release\<close> rely on.
\<close>

lemma holding_iff_critical:
  assumes "spin_reachable s"
  shows "holding c (s_lk s) \<longleftrightarrow> s_pc s c = Critical"
proof -
  note inv = spin_reachable_inv [OF assms]
  have "locked (s_lk s) \<noteq> 0" if "s_pc s c = Critical"
    using inv that by (auto simp: spin_inv_def owning_def)
  with inv show ?thesis by (auto simp: holding_def spin_inv_def)
qed

text \<open>
  \<open>push_off\<close> and \<open>pop_off\<close> nest. On a CPU whose nesting count is not negative, and whose
  interrupts are off if the count is positive, \<open>n\<close> calls of \<open>push_off\<close> undone by \<open>n\<close> calls of
  \<open>pop_off\<close> do not panic and leave the status register and the count as they were.
\<close>

lemma push_pop_balanced:
  assumes "0 \<le> noff c" and "0 < noff c \<Longrightarrow> \<not> intr_get c"
  shows "\<exists>d. pop_offs n ((push_off ^^ n) c) = Ok () d \<and> sstatus d = sstatus c \<and> noff d = noff c"
  using assms by (rule pop_offs_pushes)

end
