(* ===== verification/Proc.thy ===== *)
theory Proc
  imports Vm Spinlock
begin

text \<open>
  The process table, \<open>kernel/proc.c\<close>, up to the operations that touch open files and the file
  system (\<open>fork\<close>, \<open>exit\<close>, \<open>userinit\<close> are in \<open>Process\<close>). The state extends the allocator's with
  the table of \<open>NPROC\<close> processes, the pid counter, the CPU that runs the code and the address of
  \<open>forkret\<close>. A pointer to a process is its index in the table, \<open>None\<close> the null pointer. Pids
  are 32-bit and wrap as the C \<open>int\<close> does. Code that holds \<open>p->lock\<close>, \<open>wait_lock\<close> or
  \<open>pid_lock\<close> throughout is one step; a process that calls \<open>sleep\<close> has the outcome \<open>Sleep\<close>.
\<close>

section \<open>State\<close>

datatype procstate = UNUSED | USED | SLEEPING | RUNNABLE | RUNNING | ZOMBIE

record ctx =
  ctx_ra :: u64
  ctx_sp :: u64
  ctx_s :: "u64 list"

record proc =
  p_state :: procstate
  p_chan :: chan
  p_killed :: bool
  p_xstate :: u32
  p_pid :: u32
  p_parent :: "nat option"
  p_kstack :: u64
  p_sz :: u64
  p_pagetable :: u64
  p_trapframe :: u64
  p_context :: ctx
  p_ofile :: "nat option list"
  p_cwd :: "nat option"
  p_name :: "u8 list"
  p_trace_mask :: u32

record proc_st = kmem_st +
  procs :: "proc list"
  nextpid :: u32
  initproc :: "nat option"
  this_cpu :: cpu
  sym_forkret :: u64

text \<open>Offsets of the registers in \<open>struct trapframe\<close>; the frame is a page of memory.\<close>

definition tf_kernel_satp :: u64 where "tf_kernel_satp = 0"
definition tf_kernel_sp :: u64 where "tf_kernel_sp = 8"
definition tf_kernel_trap :: u64 where "tf_kernel_trap = 16"
definition tf_epc :: u64 where "tf_epc = 24"
definition tf_kernel_hartid :: u64 where "tf_kernel_hartid = 32"
definition tf_sp :: u64 where "tf_sp = 48"
definition tf_a :: "nat \<Rightarrow> u64" where "tf_a n = 112 + 8 * of_nat n"
definition trapframe_size :: nat where "trapframe_size = 288"

lemmas tf_offsets = tf_kernel_satp_def tf_kernel_sp_def tf_kernel_trap_def tf_epc_def
  tf_kernel_hartid_def tf_sp_def tf_a_def trapframe_size_def

definition upd_proc :: "nat \<Rightarrow> (proc \<Rightarrow> proc) \<Rightarrow> 'a proc_st_scheme \<Rightarrow> 'a proc_st_scheme" where
  "upd_proc i f s = s\<lparr>procs := (procs s)[i := f (procs s ! i)]\<rparr>"

definition myproc :: "'a proc_st_scheme \<Rightarrow> nat option" where
  "myproc s = c_proc (this_cpu s)"

text \<open>The current process where the code dereferences \<open>myproc()\<close>.\<close>

definition me :: "'a proc_st_scheme \<Rightarrow> nat" where
  "me s = (case myproc s of Some i \<Rightarrow> i | None \<Rightarrow> 0)"

definition mine :: "'a proc_st_scheme \<Rightarrow> proc" where
  "mine s = procs s ! me s"

section \<open>Initialisation and allocation\<close>

fun proc_mapstacks_loop ::
    "u64 \<Rightarrow> nat \<Rightarrow> 'a kmem_st_scheme \<Rightarrow> (unit, 'a kmem_st_scheme) res" where
  "proc_mapstacks_loop kpgtbl 0 s = Ok () s"
| "proc_mapstacks_loop kpgtbl (Suc k) s =
     bind (kalloc s) (\<lambda>pa s.
       if pa = 0 then Panic ''kalloc''
       else bind (kvmmap kpgtbl (KSTACK (NPROC - Suc k)) pa PGSIZE (PTE_R OR PTE_W) s)
         (\<lambda>_ s. proc_mapstacks_loop kpgtbl k s))"

definition proc_mapstacks :: "u64 \<Rightarrow> 'a kmem_st_scheme \<Rightarrow> (unit, 'a kmem_st_scheme) res" where
  "proc_mapstacks kpgtbl s = proc_mapstacks_loop kpgtbl NPROC s"

definition kvmmake :: "'a kmem_st_scheme \<Rightarrow> (u64, 'a kmem_st_scheme) res" where
  "kvmmake s =
     bind (kalloc s) (\<lambda>kpgtbl s.
     bind (kvmmap kpgtbl UART0 UART0 PGSIZE (PTE_R OR PTE_W)
            (s\<lparr>mem := memset (mem s) kpgtbl 0 (ucast PGSIZE)\<rparr>)) (\<lambda>_ s.
     bind (kvmmap kpgtbl VIRTIO0 VIRTIO0 PGSIZE (PTE_R OR PTE_W) s) (\<lambda>_ s.
     bind (kvmmap kpgtbl PLIC PLIC 0x400000 (PTE_R OR PTE_W) s) (\<lambda>_ s.
     bind (kvmmap kpgtbl KERNBASE KERNBASE (sym_etext s - KERNBASE) (PTE_R OR PTE_X) s) (\<lambda>_ s.
     bind (kvmmap kpgtbl (sym_etext s) (sym_etext s) (PHYSTOP - sym_etext s) (PTE_R OR PTE_W) s) (\<lambda>_ s.
     bind (kvmmap kpgtbl TRAMPOLINE (sym_trampoline s) PGSIZE (PTE_R OR PTE_X) s) (\<lambda>_ s.
     bind (proc_mapstacks kpgtbl s) (\<lambda>_ s. Ok kpgtbl s))))))))"

definition procinit :: "'a proc_st_scheme \<Rightarrow> 'a proc_st_scheme" where
  "procinit s =
     s\<lparr>procs := map (\<lambda>i. (procs s ! i)\<lparr>p_state := UNUSED, p_kstack := KSTACK i\<rparr>)
         [0..<length (procs s)]\<rparr>"

definition allocpid :: "'a proc_st_scheme \<Rightarrow> u32 \<times> 'a proc_st_scheme" where
  "allocpid s = (nextpid s, s\<lparr>nextpid := nextpid s + 1\<rparr>)"

definition proc_pagetable :: "nat \<Rightarrow> 'a proc_st_scheme \<Rightarrow> (u64, 'a proc_st_scheme) res" where
  "proc_pagetable p s =
     bind (uvmcreate s) (\<lambda>pagetable s.
       if pagetable = 0 then Ok 0 s
       else bind (mappages pagetable TRAMPOLINE PGSIZE (sym_trampoline s) (PTE_R OR PTE_X) s) (\<lambda>r s.
         if r < 0 then bind (uvmfree pagetable 0 s) (\<lambda>_ s. Ok 0 s)
         else bind (mappages pagetable TRAPFRAME PGSIZE (p_trapframe (procs s ! p))
                     (PTE_R OR PTE_W) s) (\<lambda>r s.
           if r < 0 then
             bind (uvmunmap pagetable TRAMPOLINE 1 False s) (\<lambda>_ s.
             bind (uvmfree pagetable 0 s) (\<lambda>_ s. Ok 0 s))
           else Ok pagetable s)))"

definition proc_freepagetable ::
    "u64 \<Rightarrow> u64 \<Rightarrow> 'a kmem_st_scheme \<Rightarrow> (unit, 'a kmem_st_scheme) res" where
  "proc_freepagetable pagetable sz s =
     bind (uvmunmap pagetable TRAMPOLINE 1 False s) (\<lambda>_ s.
     bind (uvmunmap pagetable TRAPFRAME 1 False s) (\<lambda>_ s.
     uvmfree pagetable sz s))"

definition freeproc :: "nat \<Rightarrow> 'a proc_st_scheme \<Rightarrow> (unit, 'a proc_st_scheme) res" where
  "freeproc p s =
     bind (if p_trapframe (procs s ! p) \<noteq> 0 then kfree (p_trapframe (procs s ! p)) s else Ok () s)
       (\<lambda>_ s. let s = upd_proc p (\<lambda>q. q\<lparr>p_trapframe := 0\<rparr>) s in
     bind (if p_pagetable (procs s ! p) \<noteq> 0
           then proc_freepagetable (p_pagetable (procs s ! p)) (p_sz (procs s ! p)) s
           else Ok () s)
       (\<lambda>_ s. Ok () (upd_proc p (\<lambda>q. q\<lparr>p_pagetable := 0, p_sz := 0, p_pid := 0, p_parent := None,
          p_name := (p_name q)[0 := 0], p_chan := NoChan, p_killed := False, p_xstate := 0,
          p_state := UNUSED\<rparr>) s)))"

fun find_unused :: "proc list \<Rightarrow> nat \<Rightarrow> nat option" where
  "find_unused [] i = None"
| "find_unused (p # ps) i = (if p_state p = UNUSED then Some i else find_unused ps (Suc i))"

text \<open>\<open>allocproc\<close> from \<open>found:\<close> on, with the lock of slot \<open>p\<close> held, and the search before it.\<close>

definition allocproc_at :: "nat \<Rightarrow> 'a proc_st_scheme \<Rightarrow> (nat option, 'a proc_st_scheme) res" where
  "allocproc_at p s =
     (let (pid, s) = allocpid s;
          s = upd_proc p (\<lambda>q. q\<lparr>p_pid := pid, p_state := USED\<rparr>) s
      in bind (kalloc s) (\<lambda>tf s.
         let s = upd_proc p (\<lambda>q. q\<lparr>p_trapframe := tf\<rparr>) s in
         if tf = 0 then bind (freeproc p s) (\<lambda>_ s. Ok None s)
         else bind (proc_pagetable p s) (\<lambda>pt s.
           let s = upd_proc p (\<lambda>q. q\<lparr>p_pagetable := pt\<rparr>) s in
           if pt = 0 then bind (freeproc p s) (\<lambda>_ s. Ok None s)
           else Ok (Some p) (upd_proc p (\<lambda>q. q\<lparr>p_context :=
             \<lparr>ctx_ra = sym_forkret s, ctx_sp = p_kstack q + PGSIZE, ctx_s = replicate 12 0\<rparr>\<rparr>) s))))"

definition allocproc :: "'a proc_st_scheme \<Rightarrow> (nat option, 'a proc_st_scheme) res" where
  "allocproc s =
     (case find_unused (procs s) 0 of
        None \<Rightarrow> Ok None s
      | Some p \<Rightarrow> allocproc_at p s)"

text \<open>\<open>growproc(n)\<close>: \<open>n\<close> is an \<open>int\<close>, sign-extended where it is added to a size.\<close>

definition growproc :: "u32 \<Rightarrow> 'a proc_st_scheme \<Rightarrow> (int, 'a proc_st_scheme) res" where
  "growproc n s =
     (let p = me s; sz = p_sz (mine s); pt = p_pagetable (mine s) in
      if 0 < sint n then
        bind (uvmalloc pt sz (sz + scast n) PTE_W s) (\<lambda>sz s.
          if sz = 0 then Ok (-1) s else Ok 0 (upd_proc p (\<lambda>q. q\<lparr>p_sz := sz\<rparr>) s))
      else if sint n < 0 then
        bind (uvmdealloc pt sz (sz + scast n) s) (\<lambda>sz s. Ok 0 (upd_proc p (\<lambda>q. q\<lparr>p_sz := sz\<rparr>) s))
      else Ok 0 (upd_proc p (\<lambda>q. q\<lparr>p_sz := sz\<rparr>) s))"

section \<open>Sleeping, waking, killing\<close>

definition wakeup :: "chan \<Rightarrow> 'a proc_st_scheme \<Rightarrow> 'a proc_st_scheme" where
  "wakeup ch s =
     s\<lparr>procs := map (\<lambda>i. let p = procs s ! i in
         if myproc s \<noteq> Some i \<and> p_state p = SLEEPING \<and> p_chan p = ch
         then p\<lparr>p_state := RUNNABLE\<rparr> else p) [0..<length (procs s)]\<rparr>"

text \<open>The body of its loop, under the lock of slot \<open>i\<close>.\<close>

definition wakeup_slot :: "chan \<Rightarrow> nat \<Rightarrow> 'a proc_st_scheme \<Rightarrow> 'a proc_st_scheme" where
  "wakeup_slot ch i s =
     (if myproc s \<noteq> Some i \<and> p_state (procs s ! i) = SLEEPING \<and> p_chan (procs s ! i) = ch
      then upd_proc i (\<lambda>q. q\<lparr>p_state := RUNNABLE\<rparr>) s else s)"

fun kill_loop :: "u32 \<Rightarrow> proc list \<Rightarrow> proc list \<times> int" where
  "kill_loop pid [] = ([], -1)"
| "kill_loop pid (p # ps) =
     (if p_pid p = pid then
        (p\<lparr>p_killed := True, p_state := (if p_state p = SLEEPING then RUNNABLE else p_state p)\<rparr> # ps, 0)
      else let (qs, r) = kill_loop pid ps in (p # qs, r))"

definition kill :: "u32 \<Rightarrow> 'a proc_st_scheme \<Rightarrow> (int, 'a proc_st_scheme) res" where
  "kill pid s = (let (ps, r) = kill_loop pid (procs s) in Ok r (s\<lparr>procs := ps\<rparr>))"

text \<open>The body of its loop, under the lock of slot \<open>i\<close>: whether \<open>kill\<close> returns there.\<close>

definition kill_slot :: "u32 \<Rightarrow> nat \<Rightarrow> 'a proc_st_scheme \<Rightarrow> bool \<times> 'a proc_st_scheme" where
  "kill_slot pid i s =
     (if p_pid (procs s ! i) = pid
      then (True, upd_proc i (\<lambda>q. q\<lparr>p_killed := True,
              p_state := (if p_state q = SLEEPING then RUNNABLE else p_state q)\<rparr>) s)
      else (False, s))"

definition setkilled :: "nat \<Rightarrow> 'a proc_st_scheme \<Rightarrow> 'a proc_st_scheme" where
  "setkilled p s = upd_proc p (\<lambda>q. q\<lparr>p_killed := True\<rparr>) s"

definition killed :: "nat \<Rightarrow> 'a proc_st_scheme \<Rightarrow> bool" where
  "killed p s = p_killed (procs s ! p)"

section \<open>Switching between processes and the scheduler\<close>

text \<open>
  What \<open>acquire\<close> and \<open>release\<close> of a lock do to the CPU that calls them. The lock itself is not a field of
  this state: who holds which \<open>p->lock\<close> is part of the machine with many CPUs in \<open>Smp\<close>.
\<close>

definition acquire_cpu :: "'a proc_st_scheme \<Rightarrow> 'a proc_st_scheme" where
  "acquire_cpu s = s\<lparr>this_cpu := push_off (this_cpu s)\<rparr>"

definition release_cpu :: "'a proc_st_scheme \<Rightarrow> (unit, 'a proc_st_scheme) res" where
  "release_cpu s =
     (case pop_off (this_cpu s) of
        Ok _ c \<Rightarrow> Ok () (s\<lparr>this_cpu := c\<rparr>)
      | Panic msg \<Rightarrow> Panic msg
      | Sleep ch c \<Rightarrow> Sleep ch (s\<lparr>this_cpu := c\<rparr>)
      | Diverge \<Rightarrow> Diverge)"

text \<open>
  \<open>sched\<close> up to its \<open>swtch\<close>; \<open>held\<close> says whether this CPU holds \<open>p->lock\<close>. Its result is the local
  variable \<open>intena\<close>, which stays on the stack of the process while it is switched out; \<open>sched_resume\<close>
  is the rest, when the process runs again.
\<close>

definition sched :: "bool \<Rightarrow> 'a proc_st_scheme \<Rightarrow> (bool, 'a proc_st_scheme) res" where
  "sched held s =
     (if \<not> held then Panic ''sched p->lock''
      else if noff (this_cpu s) \<noteq> 1 then Panic ''sched locks''
      else if p_state (mine s) = RUNNING then Panic ''sched running''
      else if intr_get (this_cpu s) then Panic ''sched interruptible''
      else Ok (intena (this_cpu s)) s)"

definition sched_resume :: "bool \<Rightarrow> 'a proc_st_scheme \<Rightarrow> 'a proc_st_scheme" where
  "sched_resume ie s = s\<lparr>this_cpu := (this_cpu s)\<lparr>intena := ie\<rparr>\<rparr>"

text \<open>\<open>yield\<close> up to the switch, and from the switch back to its return.\<close>

definition yield :: "'a proc_st_scheme \<Rightarrow> (bool, 'a proc_st_scheme) res" where
  "yield s = sched True (upd_proc (me s) (\<lambda>q. q\<lparr>p_state := RUNNABLE\<rparr>) (acquire_cpu s))"

definition yield_resume :: "bool \<Rightarrow> 'a proc_st_scheme \<Rightarrow> (unit, 'a proc_st_scheme) res" where
  "yield_resume ie s = release_cpu (sched_resume ie s)"

text \<open>
  \<open>sleep(chan, lk)\<close>. For its callers it is the mark on the process, and the outcome says that control has
  left it. \<open>sleep_switch\<close> is the same code with its locks, up to the switch: \<open>acquire(&p->lock)\<close>,
  \<open>release(lk)\<close>, the mark, \<open>sched\<close>. \<open>sleep_resume\<close> is the rest up to the release of \<open>p->lock\<close>; the
  acquire of \<open>lk\<close> comes after it.
\<close>

definition sleep :: "chan \<Rightarrow> 'a proc_st_scheme \<Rightarrow> ('b, 'a proc_st_scheme) res" where
  "sleep ch s = Sleep ch (upd_proc (me s) (\<lambda>q. q\<lparr>p_chan := ch, p_state := SLEEPING\<rparr>) s)"

definition sleep_switch :: "chan \<Rightarrow> 'a proc_st_scheme \<Rightarrow> (bool, 'a proc_st_scheme) res" where
  "sleep_switch ch s =
     bind (release_cpu (acquire_cpu s)) (\<lambda>_ s.
       case sleep ch s :: (bool, 'a proc_st_scheme) res of Sleep _ t \<Rightarrow> sched True t | r \<Rightarrow> r)"

definition sleep_resume :: "bool \<Rightarrow> 'a proc_st_scheme \<Rightarrow> (unit, 'a proc_st_scheme) res" where
  "sleep_resume ie s = release_cpu (upd_proc (me s) (\<lambda>q. q\<lparr>p_chan := NoChan\<rparr>) (sched_resume ie s))"

text \<open>
  The end of \<open>exit\<close>, with \<open>wait_lock\<close> held: \<open>acquire(&p->lock)\<close>, the exit status and the state,
  \<open>release(&wait_lock)\<close>, \<open>sched\<close>. The process never runs again.
\<close>

definition exit_switch :: "u32 \<Rightarrow> 'a proc_st_scheme \<Rightarrow> (bool, 'a proc_st_scheme) res" where
  "exit_switch status s =
     bind (release_cpu (upd_proc (me s) (\<lambda>q. q\<lparr>p_xstate := status, p_state := ZOMBIE\<rparr>) (acquire_cpu s)))
       (\<lambda>_ s. sched True s)"

text \<open>
  The scheduler's loop: the head of a round; the body for slot \<open>i\<close> up to its \<open>swtch\<close>, with \<open>True\<close> if it
  switches into the process (and still holds its lock) and \<open>False\<close> if it passes the slot over; and the
  rest of the body when the process has switched back.
\<close>

definition scheduler_round :: "'a proc_st_scheme \<Rightarrow> 'a proc_st_scheme" where
  "scheduler_round s = s\<lparr>this_cpu := intr_on (this_cpu s)\<rparr>"

definition scheduler_pick :: "nat \<Rightarrow> 'a proc_st_scheme \<Rightarrow> (bool, 'a proc_st_scheme) res" where
  "scheduler_pick i s =
     (let s = acquire_cpu s in
      if p_state (procs s ! i) = RUNNABLE then
        let s = upd_proc i (\<lambda>q. q\<lparr>p_state := RUNNING\<rparr>) s in
        Ok True (s\<lparr>this_cpu := (this_cpu s)\<lparr>c_proc := Some i\<rparr>\<rparr>)
      else bind (release_cpu s) (\<lambda>_ s. Ok False s))"

definition scheduler_back :: "'a proc_st_scheme \<Rightarrow> (unit, 'a proc_st_scheme) res" where
  "scheduler_back s = release_cpu (s\<lparr>this_cpu := (this_cpu s)\<lparr>c_proc := None\<rparr>\<rparr>)"

section \<open>Parents and children\<close>

definition reparent :: "nat \<Rightarrow> 'a proc_st_scheme \<Rightarrow> 'a proc_st_scheme" where
  "reparent p s =
     (let kids = filter (\<lambda>i. p_parent (procs s ! i) = Some p) [0..<length (procs s)] in
      fold (\<lambda>i s. wakeup (case initproc s of Some q \<Rightarrow> ProcChan q | None \<Rightarrow> NoChan)
             (upd_proc i (\<lambda>q. q\<lparr>p_parent := initproc s\<rparr>) s)) kids s)"

text \<open>
  \<open>wait\<close>: one pass over the table from index \<open>i\<close>. \<open>Inl r\<close>: return \<open>r\<close>; \<open>Inr k\<close>: the pass is over,
  \<open>k\<close> tells whether there are children.
\<close>

fun wait_loop ::
    "nat \<Rightarrow> u64 \<Rightarrow> nat list \<Rightarrow> bool \<Rightarrow> 'a proc_st_scheme \<Rightarrow> (int + bool, 'a proc_st_scheme) res" where
  "wait_loop p addr [] havekids s = Ok (Inr havekids) s"
| "wait_loop p addr (pp # is) havekids s =
     (if p_parent (procs s ! pp) = Some p then
        if p_state (procs s ! pp) = ZOMBIE then
          let pid = p_pid (procs s ! pp) in
          bind (if addr \<noteq> 0
                then copyout (p_pagetable (procs s ! p)) addr (le_bytes 4 (p_xstate (procs s ! pp))) s
                else Ok 0 s) (\<lambda>r s.
            if r < 0 then Ok (Inl (-1)) s
            else bind (freeproc pp s) (\<lambda>_ s. Ok (Inl (sint pid)) s))
        else wait_loop p addr is True s
      else wait_loop p addr is havekids s)"

definition wait :: "u64 \<Rightarrow> 'a proc_st_scheme \<Rightarrow> (int, 'a proc_st_scheme) res" where
  "wait addr s =
     (let p = me s in
      bind (wait_loop p addr [0..<length (procs s)] False s) (\<lambda>r s.
        case r of
          Inl v \<Rightarrow> Ok v s
        | Inr havekids \<Rightarrow>
            if \<not> havekids \<or> killed p s then Ok (-1) s else sleep (ProcChan p) s))"

section \<open>Copies to and from either space, listing, tracing\<close>

text \<open>
  \<open>either_copyout\<close> and \<open>either_copyin\<close>: a user address goes through the page table, a kernel
  address is memory itself.
\<close>

definition either_copyout ::
    "bool \<Rightarrow> u64 \<Rightarrow> u8 list \<Rightarrow> 'a proc_st_scheme \<Rightarrow> (int, 'a proc_st_scheme) res" where
  "either_copyout user_dst dst src s =
     (if user_dst then copyout (p_pagetable (mine s)) dst src s
      else Ok 0 (s\<lparr>mem := mwrite (mem s) dst src\<rparr>))"

definition either_copyin ::
    "bool \<Rightarrow> u64 \<Rightarrow> nat \<Rightarrow> 'a proc_st_scheme \<Rightarrow> (int \<times> u8 list, 'a proc_st_scheme) res" where
  "either_copyin user_src src len s =
     (if user_src then copyin (p_pagetable (mine s)) src len s
      else Ok (0, mbytes (mem s) src len) s)"

definition state_name :: "procstate \<Rightarrow> string" where
  "state_name st = (case st of UNUSED \<Rightarrow> ''unused'' | USED \<Rightarrow> ''used'' | SLEEPING \<Rightarrow> ''sleep ''
     | RUNNABLE \<Rightarrow> ''runble'' | RUNNING \<Rightarrow> ''run   '' | ZOMBIE \<Rightarrow> ''zombie'')"

text \<open>\<open>procdump\<close>: the lines it prints, as pid, state and name.\<close>

definition procdump :: "'a proc_st_scheme \<Rightarrow> (int \<times> string \<times> u8 list) list" where
  "procdump s =
     map (\<lambda>p. (sint (p_pid p), state_name (p_state p), takeWhile (\<lambda>c. c \<noteq> 0) (p_name p)))
       (filter (\<lambda>p. p_state p \<noteq> UNUSED) (procs s))"

definition trace :: "u32 \<Rightarrow> 'a proc_st_scheme \<Rightarrow> (int, 'a proc_st_scheme) res" where
  "trace msk s = Ok 0 (upd_proc (me s) (\<lambda>q. q\<lparr>p_trace_mask := msk\<rparr>) s)"

record sysinfo_t =
  freemem :: u64
  nproc :: u64

definition sysinfo :: "'a proc_st_scheme \<Rightarrow> (sysinfo_t, 'a proc_st_scheme) res" where
  "sysinfo s =
     bind (kfreemem s) (\<lambda>f s.
       Ok \<lparr>freemem = f,
           nproc = fold (\<lambda>p n. if p_state p \<noteq> UNUSED then n + 1 else n) (procs s) 0\<rparr> s)"

end
