(* ===== verification/Virtio.thy ===== *)
theory Virtio
  imports Proc
begin

text \<open>
  The disk driver, \<open>kernel/virtio_disk.c\<close>, and the buffers it transfers (\<open>kernel/buf.h\<close>). The
  state extends the process table with the array of buffers, the driver's bookkeeping and the
  contents of the disk. A descriptor's address names a kernel object: a request header, a buffer's
  data or a status byte. The device itself (\<open>virtio_device\<close>) is the block device of the virtio
  specification: it takes a chain from the avail ring, transfers the block, stores the status and
  puts the head of the chain in the used ring; it is hardware, not code of the repository.

  \<open>disk_writes\<close> is a history variable: the blocks written to the disk, in order. It is read by no
  operation; the crash theorems of the log are stated over it.
\<close>

definition BSIZE :: nat where "BSIZE = 1024"

section \<open>State\<close>

text \<open>
  \<open>vdisk\<close> is \<open>struct disk\<close> with the rings it points to and, last, the device's side: how far the device has
  read the avail ring, whether \<open>QUEUE_NOTIFY\<close> has been written since it last looked, and its
  \<open>INTERRUPT_STATUS\<close> register.
\<close>

record buf =
  b_valid :: bool
  b_disk :: bool
  b_dev :: u32
  b_blockno :: u32
  b_lock :: sleeplock
  b_refcnt :: u32
  b_prev :: nat
  b_next :: nat
  b_data :: "u8 list"

definition NUM :: nat where "NUM = 8"
definition VRING_DESC_F_NEXT :: u16 where "VRING_DESC_F_NEXT = 1"
definition VRING_DESC_F_WRITE :: u16 where "VRING_DESC_F_WRITE = 2"
definition VIRTIO_BLK_T_IN :: u32 where "VIRTIO_BLK_T_IN = 0"
definition VIRTIO_BLK_T_OUT :: u32 where "VIRTIO_BLK_T_OUT = 1"

lemmas virtio_consts = NUM_def VRING_DESC_F_NEXT_def VRING_DESC_F_WRITE_def
  VIRTIO_BLK_T_IN_def VIRTIO_BLK_T_OUT_def BSIZE_def

datatype dma_addr = NullAddr | OpsAddr nat | DataAddr nat | StatusAddr nat

record virtq_desc =
  d_addr :: dma_addr
  d_len :: u32
  d_flags :: u16
  d_next :: u16

record virtio_blk_req =
  r_type :: u32
  r_reserved :: u32
  r_sector :: u64

record vdisk =
  desc :: "virtq_desc list"
  avail_ring :: "u16 list"
  avail_idx :: u16
  used_ring :: "u32 list"
  used_idx :: u16
  d_free :: "bool list"
  seen_idx :: u16
  info_b :: "nat option list"
  info_status :: "u8 list"
  ops :: "virtio_blk_req list"
  dev_idx :: u16
  q_notified :: bool
  intr_status :: u32

record virtio_st = proc_st +
  bcache :: "buf list"
  vdisk :: vdisk
  disk :: "u32 \<Rightarrow> u8 list"
  disk_writes :: "(u32 \<times> u8 list) list"

definition upd_buf :: "nat \<Rightarrow> (buf \<Rightarrow> buf) \<Rightarrow> 'a virtio_st_scheme \<Rightarrow> 'a virtio_st_scheme" where
  "upd_buf b f s = s\<lparr>bcache := (bcache s)[b := f (bcache s ! b)]\<rparr>"

definition upd_vdisk :: "(vdisk \<Rightarrow> vdisk) \<Rightarrow> 'a virtio_st_scheme \<Rightarrow> 'a virtio_st_scheme" where
  "upd_vdisk f s = s\<lparr>vdisk := f (vdisk s)\<rparr>"

definition upd_desc :: "nat \<Rightarrow> (virtq_desc \<Rightarrow> virtq_desc) \<Rightarrow> vdisk \<Rightarrow> vdisk" where
  "upd_desc i f v = v\<lparr>desc := (desc v)[i := f (desc v ! i)]\<rparr>"

section \<open>Descriptors\<close>

text \<open>\<open>alloc_desc\<close> returns the first free descriptor (\<open>None\<close> for \<open>-1\<close>) and marks it.\<close>

fun first_free :: "bool list \<Rightarrow> nat option" where
  "first_free [] = None"
| "first_free (f # fs) = (if f then Some 0 else map_option Suc (first_free fs))"

definition alloc_desc :: "vdisk \<Rightarrow> nat option \<times> vdisk" where
  "alloc_desc v =
     (case first_free (d_free v) of
        None \<Rightarrow> (None, v)
      | Some i \<Rightarrow> (Some i, v\<lparr>d_free := (d_free v)[i := False]\<rparr>))"

definition free_desc :: "nat \<Rightarrow> 'a virtio_st_scheme \<Rightarrow> (unit, 'a virtio_st_scheme) res" where
  "free_desc i s =
     (if i \<ge> NUM then Panic ''free_desc 1''
      else if d_free (vdisk s) ! i then Panic ''free_desc 2''
      else Ok () (wakeup DiskFreeChan (upd_vdisk (\<lambda>v. (upd_desc i (\<lambda>d.
             d\<lparr>d_addr := NullAddr, d_len := 0, d_flags := 0, d_next := 0\<rparr>) v)
               \<lparr>d_free := (d_free v)[i := True]\<rparr>) s)))"

lemma vdisk_wakeup [simp]: "vdisk (wakeup c s) = vdisk s"
  by (simp add: wakeup_def)

lemma free_desc_count:
  assumes "free_desc i s = Ok u t" and "length (d_free (vdisk s)) = NUM"
  shows "count_list (d_free (vdisk t)) False < count_list (d_free (vdisk s)) False"
proof -
  let ?f = "d_free (vdisk s)"
  have i: "i < length ?f" "\<not> ?f ! i" and t: "d_free (vdisk t) = ?f[i := True]"
    using assms by (auto simp: free_desc_def upd_vdisk_def split: if_splits)
  have "?f = take i ?f @ False # drop (Suc i) ?f"
    using i id_take_nth_drop [of i ?f] by simp
  then have "count_list ?f False = count_list (take i ?f) False + 1 + count_list (drop (Suc i) ?f) False"
    by (metis count_list.simps(2) count_list_append add.assoc add.commute)
  with t i show ?thesis by (simp add: upd_conv_take_nth_drop)
qed

text \<open>
  \<open>free_chain\<close>: every round frees a descriptor that was in use (\<open>free_desc\<close> panics otherwise), so
  the loop ends after at most \<open>NUM\<close> rounds.
\<close>

fun free_chain_loop :: "nat \<Rightarrow> nat \<Rightarrow> 'a virtio_st_scheme \<Rightarrow> (unit, 'a virtio_st_scheme) res" where
  "free_chain_loop 0 i s = Diverge"
| "free_chain_loop (Suc k) i s =
     (let flag = d_flags (desc (vdisk s) ! i); nxt = d_next (desc (vdisk s) ! i) in
      bind (free_desc i s) (\<lambda>_ s.
        if flag AND VRING_DESC_F_NEXT \<noteq> 0 then free_chain_loop k (unat nxt) s else Ok () s))"

definition free_chain :: "nat \<Rightarrow> 'a virtio_st_scheme \<Rightarrow> (unit, 'a virtio_st_scheme) res" where
  "free_chain i s = free_chain_loop (Suc NUM) i s"

fun alloc3_desc_loop ::
    "nat \<Rightarrow> nat list \<Rightarrow> 'a virtio_st_scheme \<Rightarrow> (nat list option, 'a virtio_st_scheme) res" where
  "alloc3_desc_loop 0 idx s = Ok (Some idx) s"
| "alloc3_desc_loop (Suc k) idx s =
     (case alloc_desc (vdisk s) of
        (Some i, v) \<Rightarrow> alloc3_desc_loop k (idx @ [i]) (s\<lparr>vdisk := v\<rparr>)
      | (None, v) \<Rightarrow>
          fold (\<lambda>j r. bind r (\<lambda>_ s. bind (free_desc j s) (\<lambda>_ s. Ok None s))) idx (Ok None s))"

definition alloc3_desc :: "'a virtio_st_scheme \<Rightarrow> (nat list option, 'a virtio_st_scheme) res" where
  "alloc3_desc s = alloc3_desc_loop 3 [] s"

lemma free_desc_length:
  "free_desc i s = Ok u t \<Longrightarrow> length (d_free (vdisk t)) = length (d_free (vdisk s))"
  by (auto simp: free_desc_def upd_vdisk_def split: if_splits)

lemma free_chain_loop_ends:
  "length (d_free (vdisk s)) = NUM \<Longrightarrow> count_list (d_free (vdisk s)) False < k \<Longrightarrow>
     free_chain_loop k i s \<noteq> Diverge"
proof (induction k arbitrary: i s)
  case (Suc k)
  have "free_desc i s \<noteq> Diverge" by (simp add: free_desc_def)
  moreover have "free_chain_loop k j t \<noteq> Diverge" if "free_desc i s = Ok u t" for u t j
    using Suc free_desc_count [OF that] free_desc_length [OF that] by simp
  ultimately show ?case by (cases "free_desc i s") (auto simp: Let_def)
qed simp

lemma free_chain_ends: "length (d_free (vdisk s)) = NUM \<Longrightarrow> free_chain i s \<noteq> Diverge"
  unfolding free_chain_def
  using count_le_length [of "d_free (vdisk s)" False] by (intro free_chain_loop_ends) simp_all

section \<open>Requests\<close>

text \<open>
  The three descriptors of a request: the header, the data, the status byte. \<open>b->blockno\<close> is a
  \<open>uint\<close>, so the sector number is computed in 32 bits before it is widened.
\<close>

definition format_request :: "nat \<Rightarrow> u32 \<Rightarrow> bool \<Rightarrow> nat \<Rightarrow> nat \<Rightarrow> nat \<Rightarrow> vdisk \<Rightarrow> vdisk" where
  "format_request b blockno write i0 i1 i2 v =
     (let sector = ucast (blockno * (of_nat BSIZE div 512)) :: u64;
          v = v\<lparr>ops := (ops v)[i0 := \<lparr>r_type = (if write then VIRTIO_BLK_T_OUT else VIRTIO_BLK_T_IN),
                r_reserved = 0, r_sector = sector\<rparr>]\<rparr>;
          v = upd_desc i0 (\<lambda>_. \<lparr>d_addr = OpsAddr i0, d_len = 16, d_flags = VRING_DESC_F_NEXT,
                d_next = of_nat i1\<rparr>) v;
          v = upd_desc i1 (\<lambda>_. \<lparr>d_addr = DataAddr b, d_len = of_nat BSIZE,
                d_flags = (if write then 0 else VRING_DESC_F_WRITE) OR VRING_DESC_F_NEXT,
                d_next = of_nat i2\<rparr>) v;
          v = v\<lparr>info_status := (info_status v)[i0 := 0xff]\<rparr>
      in upd_desc i2 (\<lambda>_. \<lparr>d_addr = StatusAddr i0, d_len = 1, d_flags = VRING_DESC_F_WRITE,
           d_next = 0\<rparr>) v)"

text \<open>The two registers that the driver writes in operation: the store starts the device, or clears the
  bits of its interrupt status that are set in the value written.\<close>

definition write_queue_notify :: "vdisk \<Rightarrow> vdisk" where
  "write_queue_notify v = v\<lparr>q_notified := True\<rparr>"

definition write_interrupt_ack :: "u32 \<Rightarrow> vdisk \<Rightarrow> vdisk" where
  "write_interrupt_ack x v = v\<lparr>intr_status := intr_status v AND NOT x\<rparr>"

text \<open>\<open>virtio_disk_rw\<close> up to and with the notification of the device; it returns the head of the chain.\<close>

definition virtio_disk_submit ::
    "nat \<Rightarrow> bool \<Rightarrow> 'a virtio_st_scheme \<Rightarrow> (nat, 'a virtio_st_scheme) res" where
  "virtio_disk_submit b write s =
     bind (alloc3_desc s) (\<lambda>r s.
       case r of
         None \<Rightarrow> sleep DiskFreeChan s
       | Some idx \<Rightarrow>
           let i0 = idx ! 0;
               s = upd_vdisk (format_request b (b_blockno (bcache s ! b)) write i0 (idx ! 1) (idx ! 2)) s;
               s = upd_buf b (\<lambda>q. q\<lparr>b_disk := True\<rparr>) s;
               s = upd_vdisk (\<lambda>v. v\<lparr>info_b := (info_b v)[i0 := Some b]\<rparr>) s;
               s = upd_vdisk (\<lambda>v. v\<lparr>avail_ring :=
                     (avail_ring v)[unat (avail_idx v) mod NUM := of_nat i0]\<rparr>) s;
               s = upd_vdisk (\<lambda>v. v\<lparr>avail_idx := avail_idx v + 1\<rparr>) s;
               s = upd_vdisk write_queue_notify s
           in Ok i0 s)"

text \<open>\<open>virtio_disk_rw\<close> from the wait for the interrupt handler on.\<close>

definition virtio_disk_finish ::
    "nat \<Rightarrow> nat \<Rightarrow> 'a virtio_st_scheme \<Rightarrow> (unit, 'a virtio_st_scheme) res" where
  "virtio_disk_finish b i0 s =
     (if b_disk (bcache s ! b) then sleep (BufChan b) s
      else free_chain i0 (upd_vdisk (\<lambda>v. v\<lparr>info_b := (info_b v)[i0 := None]\<rparr>) s))"

text \<open>
  \<open>virtio_disk_intr\<close>: it acknowledges the interrupt and handles the entries of the used ring up to the device's index. The index
  is 16 bits wide, so its distance to the driver's is the number of rounds.
\<close>

fun virtio_disk_intr_loop :: "nat \<Rightarrow> 'a virtio_st_scheme \<Rightarrow> (unit, 'a virtio_st_scheme) res" where
  "virtio_disk_intr_loop 0 s = Ok () s"
| "virtio_disk_intr_loop (Suc k) s =
     (let v = vdisk s; i = unat (used_ring v ! (unat (seen_idx v) mod NUM)) in
      if info_status v ! i \<noteq> 0 then Panic ''virtio_disk_intr status''
      else case info_b v ! i of
        None \<Rightarrow> Panic ''null pointer''
      | Some b \<Rightarrow>
          let s = upd_buf b (\<lambda>q. q\<lparr>b_disk := False\<rparr>) s;
              s = wakeup (BufChan b) s;
              s = upd_vdisk (\<lambda>v. v\<lparr>seen_idx := seen_idx v + 1\<rparr>) s
          in virtio_disk_intr_loop k s)"

definition virtio_disk_intr :: "'a virtio_st_scheme \<Rightarrow> (unit, 'a virtio_st_scheme) res" where
  "virtio_disk_intr s =
     (let s = upd_vdisk (\<lambda>v. write_interrupt_ack (intr_status v AND 3) v) s
      in virtio_disk_intr_loop (unat (used_idx (vdisk s) - seen_idx (vdisk s))) s)"

section \<open>The device\<close>

text \<open>
  The device serves one chain of the avail ring, as the virtio specification says (5.2.6): the
  first descriptor is the request, the second the data, the third the status byte. A chain of
  another shape, or a transfer against the direction of its flags, is not served. The driver's
  sectors are even, and the disk is kept as an array of blocks of two sectors.
\<close>

definition virtio_device_one :: "'a virtio_st_scheme \<Rightarrow> 'a virtio_st_scheme option" where
  "virtio_device_one s =
     (let v = vdisk s;
          i0 = unat (avail_ring v ! (unat (dev_idx v) mod NUM));
          d0 = desc v ! i0;
          d1 = desc v ! unat (d_next d0);
          d2 = desc v ! unat (d_next d1)
      in case (d_addr d0, d_addr d1, d_addr d2) of
        (OpsAddr r, DataAddr b, StatusAddr j) \<Rightarrow>
          let req = ops v ! r;
              bn = ucast (r_sector req div 2) :: u32;
              v' = v\<lparr>info_status := (info_status v)[j := 0],
                     used_ring := (used_ring v)[unat (used_idx v) mod NUM := of_nat i0],
                     used_idx := used_idx v + 1, dev_idx := dev_idx v + 1\<rparr>
          in if d_flags d0 AND VRING_DESC_F_NEXT = 0 \<or> d_flags d1 AND VRING_DESC_F_NEXT = 0 then None
             else if r_type req = VIRTIO_BLK_T_OUT \<and> d_flags d1 AND VRING_DESC_F_WRITE = 0 then
               Some (s\<lparr>vdisk := v', disk := (disk s)(bn := b_data (bcache s ! b)),
                 disk_writes := disk_writes s @ [(bn, b_data (bcache s ! b))]\<rparr>)
             else if r_type req = VIRTIO_BLK_T_IN \<and> d_flags d1 AND VRING_DESC_F_WRITE \<noteq> 0 then
               Some ((upd_buf b (\<lambda>q. q\<lparr>b_data := disk s bn\<rparr>) s)\<lparr>vdisk := v'\<rparr>)
             else None
      | _ \<Rightarrow> None)"

fun virtio_device_loop :: "nat \<Rightarrow> 'a virtio_st_scheme \<Rightarrow> 'a virtio_st_scheme" where
  "virtio_device_loop 0 s = s"
| "virtio_device_loop (Suc k) s =
     (case virtio_device_one s of None \<Rightarrow> s | Some t \<Rightarrow> virtio_device_loop k t)"

text \<open>
  The device looks at the avail ring when it has been notified, and then sets bit 0 of its interrupt
  status. It interrupts the driver when that status was clear before: the interrupt stays pending, and no
  further one is raised, until the driver has acknowledged it.
\<close>

definition virtio_device :: "'a virtio_st_scheme \<Rightarrow> 'a virtio_st_scheme" where
  "virtio_device s =
     (if q_notified (vdisk s)
      then upd_vdisk (\<lambda>v. v\<lparr>q_notified := False, intr_status := intr_status v OR 1\<rparr>)
             (virtio_device_loop (unat (avail_idx (vdisk s) - dev_idx (vdisk s))) s)
      else s)"

definition device_interrupts :: "'a virtio_st_scheme \<Rightarrow> 'a virtio_st_scheme \<Rightarrow> bool" where
  "device_interrupts s t \<longleftrightarrow> intr_status (vdisk s) = 0 \<and> intr_status (vdisk t) \<noteq> 0"

text \<open>
  A whole transfer: the request is submitted, the device serves it and interrupts, the handler runs
  and wakes the caller, which frees the descriptors.
\<close>

definition virtio_disk_rw ::
    "nat \<Rightarrow> bool \<Rightarrow> 'a virtio_st_scheme \<Rightarrow> (unit, 'a virtio_st_scheme) res" where
  "virtio_disk_rw b write s =
     bind (virtio_disk_submit b write s) (\<lambda>i0 s.
     bind (if device_interrupts s (virtio_device s) then virtio_disk_intr (virtio_device s)
           else Ok () (virtio_device s)) (\<lambda>_ s.
     virtio_disk_finish b i0 s))"

section \<open>Initialisation\<close>

text \<open>
  Registers of the device, by their offset. What a register reads is up to the device: \<open>rd ws r\<close> is
  the value register \<open>r\<close> reads after the writes \<open>ws\<close>. \<open>virtio_disk_init\<close> returns the writes it made.
\<close>

definition VIRTIO_MMIO_MAGIC_VALUE :: u32 where "VIRTIO_MMIO_MAGIC_VALUE = 0x000"
definition VIRTIO_MMIO_VERSION :: u32 where "VIRTIO_MMIO_VERSION = 0x004"
definition VIRTIO_MMIO_DEVICE_ID :: u32 where "VIRTIO_MMIO_DEVICE_ID = 0x008"
definition VIRTIO_MMIO_VENDOR_ID :: u32 where "VIRTIO_MMIO_VENDOR_ID = 0x00c"
definition VIRTIO_MMIO_DEVICE_FEATURES :: u32 where "VIRTIO_MMIO_DEVICE_FEATURES = 0x010"
definition VIRTIO_MMIO_DRIVER_FEATURES :: u32 where "VIRTIO_MMIO_DRIVER_FEATURES = 0x020"
definition VIRTIO_MMIO_QUEUE_SEL :: u32 where "VIRTIO_MMIO_QUEUE_SEL = 0x030"
definition VIRTIO_MMIO_QUEUE_NUM_MAX :: u32 where "VIRTIO_MMIO_QUEUE_NUM_MAX = 0x034"
definition VIRTIO_MMIO_QUEUE_NUM :: u32 where "VIRTIO_MMIO_QUEUE_NUM = 0x038"
definition VIRTIO_MMIO_QUEUE_READY :: u32 where "VIRTIO_MMIO_QUEUE_READY = 0x044"
definition VIRTIO_MMIO_STATUS :: u32 where "VIRTIO_MMIO_STATUS = 0x070"
definition VIRTIO_MMIO_QUEUE_DESC_LOW :: u32 where "VIRTIO_MMIO_QUEUE_DESC_LOW = 0x080"
definition VIRTIO_MMIO_QUEUE_DESC_HIGH :: u32 where "VIRTIO_MMIO_QUEUE_DESC_HIGH = 0x084"
definition VIRTIO_MMIO_DRIVER_DESC_LOW :: u32 where "VIRTIO_MMIO_DRIVER_DESC_LOW = 0x090"
definition VIRTIO_MMIO_DRIVER_DESC_HIGH :: u32 where "VIRTIO_MMIO_DRIVER_DESC_HIGH = 0x094"
definition VIRTIO_MMIO_DEVICE_DESC_LOW :: u32 where "VIRTIO_MMIO_DEVICE_DESC_LOW = 0x0a0"
definition VIRTIO_MMIO_DEVICE_DESC_HIGH :: u32 where "VIRTIO_MMIO_DEVICE_DESC_HIGH = 0x0a4"
definition VIRTIO_CONFIG_S_ACKNOWLEDGE :: u32 where "VIRTIO_CONFIG_S_ACKNOWLEDGE = 1"
definition VIRTIO_CONFIG_S_DRIVER :: u32 where "VIRTIO_CONFIG_S_DRIVER = 2"
definition VIRTIO_CONFIG_S_DRIVER_OK :: u32 where "VIRTIO_CONFIG_S_DRIVER_OK = 4"
definition VIRTIO_CONFIG_S_FEATURES_OK :: u32 where "VIRTIO_CONFIG_S_FEATURES_OK = 8"

definition virtio_features :: "u32 \<Rightarrow> u32" where
  "virtio_features f = fold (\<lambda>k f. f AND NOT (push_bit k 1)) [5, 7, 11, 12, 27, 29, 28] f"

type_synonym mmio = "(u32 \<times> u32) list \<Rightarrow> u32 \<Rightarrow> u32"

text \<open>The queue memory: three pages, zeroed, whose contents are the rings of \<open>vdisk\<close>.\<close>

definition virtio_queue_pages ::
    "'a virtio_st_scheme \<Rightarrow> (u64 \<times> u64 \<times> u64, 'a virtio_st_scheme) res" where
  "virtio_queue_pages s =
     bind (kalloc s) (\<lambda>d s. bind (kalloc s) (\<lambda>a s. bind (kalloc s) (\<lambda>u s.
       if d = 0 \<or> a = 0 \<or> u = 0 then Panic ''virtio disk kalloc''
       else
         let m = memset (mem s) d 0 (ucast PGSIZE);
             m = memset m a 0 (ucast PGSIZE);
             m = memset m u 0 (ucast PGSIZE);
             s = upd_vdisk (\<lambda>v. v\<lparr>
                   desc := replicate NUM \<lparr>d_addr = NullAddr, d_len = 0, d_flags = 0, d_next = 0\<rparr>,
                   avail_ring := replicate NUM 0, avail_idx := 0,
                   used_ring := replicate NUM 0, used_idx := 0\<rparr>) (s\<lparr>mem := m\<rparr>)
         in Ok (d, a, u) s)))"

definition virtio_disk_init ::
    "mmio \<Rightarrow> 'a virtio_st_scheme \<Rightarrow> ((u32 \<times> u32) list, 'a virtio_st_scheme) res" where
  "virtio_disk_init rd s =
     (if rd [] VIRTIO_MMIO_MAGIC_VALUE \<noteq> 0x74726976 \<or> rd [] VIRTIO_MMIO_VERSION \<noteq> 2 \<or>
         rd [] VIRTIO_MMIO_DEVICE_ID \<noteq> 2 \<or> rd [] VIRTIO_MMIO_VENDOR_ID \<noteq> 0x554d4551
      then Panic ''could not find virtio disk''
      else
        let status = 0;
            ws = [(VIRTIO_MMIO_STATUS, status)];
            status = status OR VIRTIO_CONFIG_S_ACKNOWLEDGE;
            ws = ws @ [(VIRTIO_MMIO_STATUS, status)];
            status = status OR VIRTIO_CONFIG_S_DRIVER;
            ws = ws @ [(VIRTIO_MMIO_STATUS, status)];
            ws = ws @ [(VIRTIO_MMIO_DRIVER_FEATURES,
                        virtio_features (rd ws VIRTIO_MMIO_DEVICE_FEATURES))];
            status = status OR VIRTIO_CONFIG_S_FEATURES_OK;
            ws = ws @ [(VIRTIO_MMIO_STATUS, status)];
            status = rd ws VIRTIO_MMIO_STATUS
        in if status AND VIRTIO_CONFIG_S_FEATURES_OK = 0 then Panic ''virtio disk FEATURES_OK unset''
           else
             let ws = ws @ [(VIRTIO_MMIO_QUEUE_SEL, 0)] in
             if rd ws VIRTIO_MMIO_QUEUE_READY \<noteq> 0 then Panic ''virtio disk should not be ready''
             else if rd ws VIRTIO_MMIO_QUEUE_NUM_MAX = 0 then Panic ''virtio disk has no queue 0''
             else if rd ws VIRTIO_MMIO_QUEUE_NUM_MAX < of_nat NUM
             then Panic ''virtio disk max queue too short''
             else bind (virtio_queue_pages s) (\<lambda>(d, a, u) s.
               let ws = ws @ [(VIRTIO_MMIO_QUEUE_NUM, of_nat NUM),
                     (VIRTIO_MMIO_QUEUE_DESC_LOW, ucast d), (VIRTIO_MMIO_QUEUE_DESC_HIGH, ucast (drop_bit 32 d)),
                     (VIRTIO_MMIO_DRIVER_DESC_LOW, ucast a), (VIRTIO_MMIO_DRIVER_DESC_HIGH, ucast (drop_bit 32 a)),
                     (VIRTIO_MMIO_DEVICE_DESC_LOW, ucast u), (VIRTIO_MMIO_DEVICE_DESC_HIGH, ucast (drop_bit 32 u)),
                     (VIRTIO_MMIO_QUEUE_READY, 1)];
                   s = upd_vdisk (\<lambda>v. v\<lparr>d_free := replicate NUM True\<rparr>) s;
                   ws = ws @ [(VIRTIO_MMIO_STATUS, status OR VIRTIO_CONFIG_S_DRIVER_OK)]
               in Ok ws s))"

section \<open>A transfer is a block read or a block write\<close>

text \<open>Processes that differ only in having been woken.\<close>

definition woken :: "proc list \<Rightarrow> proc list \<Rightarrow> bool" where
  "woken ps qs \<longleftrightarrow>
     list_all2 (\<lambda>p q. q = p \<or> p_state p = SLEEPING \<and> q = p\<lparr>p_state := RUNNABLE\<rparr>) ps qs"

lemma woken_refl [simp]: "woken ps ps"
  by (simp add: woken_def list_all2_same)

lemma woken_trans [trans]: "woken ps qs \<Longrightarrow> woken qs rs \<Longrightarrow> woken ps rs"
  unfolding woken_def by (rule list_all2_trans) auto

lemma woken_wakeup: "woken (procs s) (procs (wakeup c s))"
  by (auto simp: woken_def wakeup_def list_all2_conv_all_nth Let_def)

lemma wakeup_woken: "\<exists>ps. wakeup c s = s\<lparr>procs := ps\<rparr> \<and> woken (procs s) ps"
  using woken_wakeup [of s c] by (intro exI [of _ "procs (wakeup c s)"]) (simp add: wakeup_def)

lemma woken_length: "woken ps qs \<Longrightarrow> length qs = length ps"
  by (simp add: woken_def list_all2_lengthD)

lemma woken_pid: "woken ps qs \<Longrightarrow> i < length ps \<Longrightarrow> p_pid (qs ! i) = p_pid (ps ! i)"
  by (auto simp: woken_def list_all2_conv_all_nth)

text \<open>
  The driver at rest: every descriptor is free, both rings are drained, no notification is under way and no
  interrupt is left unacknowledged.
\<close>

definition vdisk_idle :: "vdisk \<Rightarrow> bool" where
  "vdisk_idle v \<longleftrightarrow>
     length (desc v) = NUM \<and> length (avail_ring v) = NUM \<and> length (used_ring v) = NUM \<and>
     d_free v = replicate NUM True \<and> length (info_b v) = NUM \<and> length (info_status v) = NUM \<and>
     length (ops v) = NUM \<and> dev_idx v = avail_idx v \<and> seen_idx v = used_idx v \<and>
     \<not> q_notified v \<and> intr_status v = 0"

definition disk_read :: "nat \<Rightarrow> 'a virtio_st_scheme \<Rightarrow> 'a virtio_st_scheme" where
  "disk_read b s = upd_buf b (\<lambda>q. q\<lparr>b_data := disk s (b_blockno q), b_disk := False\<rparr>) s"

definition disk_write :: "nat \<Rightarrow> 'a virtio_st_scheme \<Rightarrow> 'a virtio_st_scheme" where
  "disk_write b s =
     (let q = bcache s ! b in
      (upd_buf b (\<lambda>q. q\<lparr>b_disk := False\<rparr>) s)
        \<lparr>disk := (disk s)(b_blockno q := b_data q), disk_writes := disk_writes s @ [(b_blockno q, b_data q)]\<rparr>)"

lemma alloc3_idle:
  assumes "vdisk_idle (vdisk s)"
  shows "alloc3_desc s = Ok (Some [0, 1, 2])
    (s\<lparr>vdisk := (vdisk s)\<lparr>d_free := [False, False, False, True, True, True, True, True]\<rparr>\<rparr>)"
  using assms
  by (simp add: alloc3_desc_def alloc_desc_def vdisk_idle_def NUM_def numeral_eq_Suc)

lemma sector_block:
  assumes "blockno < 0x80000000"
  shows "ucast ((ucast (blockno * (of_nat BSIZE div 512) :: u32) :: u64) div 2) = blockno"
proof -
  have b: "unat blockno < 0x80000000"
    using assms by (simp add: word_less_nat_alt)
  then have u: "unat (blockno * 2) = unat blockno * 2"
    by (subst unat_mult_lem [THEN iffD1]) simp_all
  have c: "(of_nat BSIZE div 512 :: u32) = 2" by (simp add: BSIZE_def)
  show ?thesis
    unfolding c word_unat_eq_iff unsigned_ucast_eq
    using b by (simp add: unat_div u take_bit_nat_eq_self)
qed

lemma unat_of_nat16 [simp]: "n < 65536 \<Longrightarrow> unat (of_nat n :: u16) = n"
  by (simp add: unat_of_nat_eq)

lemma free_desc_step:
  assumes "i < NUM" and "\<not> d_free (vdisk s) ! i"
  shows "\<exists>ps d. free_desc i s = Ok () (s\<lparr>procs := ps, vdisk := (vdisk s)\<lparr>desc := (desc (vdisk s))[i := d],
     d_free := (d_free (vdisk s))[i := True]\<rparr>\<rparr>) \<and> woken (procs s) ps"
proof -
  let ?d = "(desc (vdisk s) ! i)\<lparr>d_addr := NullAddr, d_len := 0, d_flags := 0, d_next := 0\<rparr>"
  let ?t = "s\<lparr>vdisk := (vdisk s)\<lparr>desc := (desc (vdisk s))[i := ?d], d_free := (d_free (vdisk s))[i := True]\<rparr>\<rparr>"
  have "free_desc i s = Ok () (wakeup DiskFreeChan ?t)"
    using assms by (simp add: free_desc_def upd_vdisk_def upd_desc_def)
  moreover obtain ps where "wakeup DiskFreeChan ?t = ?t\<lparr>procs := ps\<rparr>" "woken (procs s) ps"
    using wakeup_woken [of DiskFreeChan ?t] by auto
  ultimately show ?thesis by (intro exI [of _ ps] exI [of _ ?d]) simp
qed

lemma free_chain3:
  assumes "length (desc (vdisk s)) = NUM"
    and "d_free (vdisk s) = [False, False, False, True, True, True, True, True]"
    and "d_flags (desc (vdisk s) ! 0) AND VRING_DESC_F_NEXT \<noteq> 0" "d_next (desc (vdisk s) ! 0) = 1"
    and "d_flags (desc (vdisk s) ! 1) AND VRING_DESC_F_NEXT \<noteq> 0" "d_next (desc (vdisk s) ! 1) = 2"
    and "d_flags (desc (vdisk s) ! 2) AND VRING_DESC_F_NEXT = 0"
  shows "\<exists>ds ps. free_chain 0 s = Ok () (s\<lparr>procs := ps,
      vdisk := (vdisk s)\<lparr>desc := ds, d_free := replicate NUM True\<rparr>\<rparr>) \<and> length ds = NUM \<and> woken (procs s) ps"
proof -
  obtain p0 d0 where 0: "free_desc 0 s = Ok () (s\<lparr>procs := p0, vdisk := (vdisk s)\<lparr>
      desc := (desc (vdisk s))[0 := d0], d_free := (d_free (vdisk s))[0 := True]\<rparr>\<rparr>)" (is "_ = Ok _ ?s1")
    and w0: "woken (procs s) p0"
    using free_desc_step [of 0 s] assms(2) by (auto simp: NUM_def)
  obtain p1 d1 where 1: "free_desc 1 ?s1 = Ok () (?s1\<lparr>procs := p1, vdisk := (vdisk ?s1)\<lparr>
      desc := (desc (vdisk ?s1))[1 := d1], d_free := (d_free (vdisk ?s1))[1 := True]\<rparr>\<rparr>)" (is "_ = Ok _ ?s2")
    and w1: "woken p0 p1"
    using free_desc_step [of 1 ?s1] assms(2) by (auto simp: NUM_def)
  obtain p2 d2 where 2: "free_desc 2 ?s2 = Ok () (?s2\<lparr>procs := p2, vdisk := (vdisk ?s2)\<lparr>
      desc := (desc (vdisk ?s2))[2 := d2], d_free := (d_free (vdisk ?s2))[2 := True]\<rparr>\<rparr>)" (is "_ = Ok _ ?s3")
    and w2: "woken p1 p2"
    using free_desc_step [of 2 ?s2] assms(2) by (auto simp: NUM_def)
  have "free_chain_loop (Suc (Suc (Suc k))) 0 s = Ok () ?s3" for k
    using assms 0 1 2 by (simp add: Let_def)
  then have "free_chain 0 s = Ok () ?s3"
    by (simp add: free_chain_def NUM_def numeral_eq_Suc)
  moreover have "woken (procs s) p2"
    using w0 w1 w2 by (blast intro: woken_trans)
  moreover have "d_free (vdisk ?s3) = replicate NUM True"
    using assms(2) by (simp add: NUM_def numeral_eq_Suc)
  ultimately show ?thesis
    using assms(1) by (intro exI [of _ "desc (vdisk ?s3)"] exI [of _ p2]) simp
qed

text \<open>A driver with one request under way, the chain 0, 1, 2.\<close>

definition in_flight :: "nat \<Rightarrow> bool \<Rightarrow> u32 \<Rightarrow> vdisk \<Rightarrow> bool" where
  "in_flight b w bn v \<longleftrightarrow>
    length (desc v) = NUM \<and> length (avail_ring v) = NUM \<and> length (used_ring v) = NUM \<and>
    length (info_b v) = NUM \<and> length (info_status v) = NUM \<and> length (ops v) = NUM \<and>
    d_free v = [False, False, False, True, True, True, True, True] \<and>
    desc v ! 0 = \<lparr>d_addr = OpsAddr 0, d_len = 16, d_flags = VRING_DESC_F_NEXT, d_next = 1\<rparr> \<and>
    desc v ! 1 = \<lparr>d_addr = DataAddr b, d_len = of_nat BSIZE,
      d_flags = (if w then 0 else VRING_DESC_F_WRITE) OR VRING_DESC_F_NEXT, d_next = 2\<rparr> \<and>
    desc v ! 2 = \<lparr>d_addr = StatusAddr 0, d_len = 1, d_flags = VRING_DESC_F_WRITE, d_next = 0\<rparr> \<and>
    ops v ! 0 = \<lparr>r_type = (if w then VIRTIO_BLK_T_OUT else VIRTIO_BLK_T_IN), r_reserved = 0,
      r_sector = ucast (bn * (of_nat BSIZE div 512))\<rparr> \<and>
    info_b v ! 0 = Some b"

lemma in_flight_format:
  assumes "vdisk_idle v"
  shows "in_flight b w bn ((format_request b bn w 0 1 2
     (v\<lparr>d_free := [False, False, False, True, True, True, True, True]\<rparr>))\<lparr>info_b := (info_b v)[0 := Some b]\<rparr>)"
  using assms
  by (simp add: in_flight_def vdisk_idle_def format_request_def upd_desc_def Let_def NUM_def)

lemma in_flight_rings:
  "in_flight b w bn v \<Longrightarrow> length ring = NUM \<Longrightarrow> in_flight b w bn (v\<lparr>avail_ring := ring, avail_idx := i, q_notified := n\<rparr>)"
  "in_flight b w bn v \<Longrightarrow> length ring' = NUM \<Longrightarrow> length st = NUM \<Longrightarrow>
    in_flight b w bn (v\<lparr>info_status := st, used_ring := ring', used_idx := j, dev_idx := k, q_notified := n,
      intr_status := x\<rparr>)"
  by (simp_all add: in_flight_def)

text \<open>The state of the driver when the device has been notified.\<close>

lemma submit_idle:
  assumes "vdisk_idle (vdisk s)"
  shows "\<exists>v. virtio_disk_submit b w s = Ok 0 ((upd_buf b (\<lambda>q. q\<lparr>b_disk := True\<rparr>) s)\<lparr>vdisk := v\<rparr>) \<and>
    in_flight b w (b_blockno (bcache s ! b)) v \<and> avail_idx v = dev_idx v + 1 \<and> used_idx v = seen_idx v \<and>
    avail_ring v ! (unat (dev_idx v) mod NUM) = 0 \<and> q_notified v \<and> intr_status v = 0"
proof -
  let ?v = "vdisk s"
  let ?w = "(format_request b (b_blockno (bcache s ! b)) w 0 1 2
     (?v\<lparr>d_free := [False, False, False, True, True, True, True, True]\<rparr>))\<lparr>info_b := (info_b ?v)[0 := Some b]\<rparr>"
  let ?x = "?w\<lparr>avail_ring := (avail_ring ?v)[unat (avail_idx ?v) mod NUM := 0], avail_idx := avail_idx ?v + 1,
     q_notified := True\<rparr>"
  have fr: "avail_ring ?w = avail_ring ?v" "avail_idx ?w = avail_idx ?v" "dev_idx ?w = dev_idx ?v"
    "used_idx ?w = used_idx ?v" "seen_idx ?w = seen_idx ?v" "intr_status ?w = intr_status ?v"
    by (simp_all add: format_request_def upd_desc_def Let_def)
  have "virtio_disk_submit b w s = Ok 0 ((upd_buf b (\<lambda>q. q\<lparr>b_disk := True\<rparr>) s)\<lparr>vdisk := ?x\<rparr>)"
    using fr
    by (simp add: virtio_disk_submit_def alloc3_idle [OF assms] Let_def upd_vdisk_def upd_buf_def
        format_request_def upd_desc_def write_queue_notify_def)
  moreover have "in_flight b w (b_blockno (bcache s ! b)) ?x"
    using assms by (intro in_flight_rings in_flight_format) (simp_all add: vdisk_idle_def)
  moreover have "avail_ring ?x ! (unat (dev_idx ?x) mod NUM) = 0"
    using assms fr by (simp add: vdisk_idle_def NUM_def)
  ultimately show ?thesis
    using assms fr by (intro exI [of _ ?x]) (simp add: vdisk_idle_def)
qed

text \<open>On such a state the device completes the request.\<close>

lemma device_serves:
  assumes "in_flight b w bn v" and "bn < 0x80000000" and "avail_idx v = dev_idx v + 1"
    and "avail_ring v ! (unat (dev_idx v) mod NUM) = 0" and "q_notified v" and "vdisk s = v"
  shows "virtio_device s = (if w
     then s\<lparr>disk := (disk s)(bn := b_data (bcache s ! b)), disk_writes := disk_writes s @ [(bn, b_data (bcache s ! b))]\<rparr>
     else upd_buf b (\<lambda>q. q\<lparr>b_data := disk s bn\<rparr>) s)
       \<lparr>vdisk := v\<lparr>info_status := (info_status v)[0 := 0],
          used_ring := (used_ring v)[unat (used_idx v) mod NUM := 0],
          used_idx := used_idx v + 1, dev_idx := dev_idx v + 1, q_notified := False,
          intr_status := intr_status v OR 1\<rparr>\<rparr>"
proof -
  have "VRING_DESC_F_NEXT AND VRING_DESC_F_NEXT \<noteq> 0"
    "(VRING_DESC_F_WRITE OR VRING_DESC_F_NEXT) AND VRING_DESC_F_NEXT \<noteq> 0"
    "(VRING_DESC_F_WRITE OR VRING_DESC_F_NEXT) AND VRING_DESC_F_WRITE \<noteq> 0"
    "VRING_DESC_F_NEXT AND VRING_DESC_F_WRITE = 0" "VIRTIO_BLK_T_IN \<noteq> VIRTIO_BLK_T_OUT"
    by (simp_all add: virtio_consts)
  then show ?thesis
    using assms sector_block [OF assms(2)]
    by (simp add: in_flight_def virtio_device_def virtio_device_one_def Let_def upd_vdisk_def)
qed

lemma intr_serves:
  assumes "in_flight b w bn v" and "used_idx v = seen_idx v + 1" and "info_status v ! 0 = 0"
    and "used_ring v ! (unat (seen_idx v) mod NUM) = 0" and "intr_status v = 1" and "vdisk s = v"
  shows "\<exists>ps. virtio_disk_intr s = Ok () ((upd_buf b (\<lambda>q. q\<lparr>b_disk := False\<rparr>) s)
     \<lparr>procs := ps, vdisk := v\<lparr>seen_idx := used_idx v, intr_status := 0\<rparr>\<rparr>) \<and> woken (procs s) ps"
proof -
  let ?s = "upd_buf b (\<lambda>q. q\<lparr>b_disk := False\<rparr>) (s\<lparr>vdisk := v\<lparr>intr_status := 0\<rparr>\<rparr>)"
  obtain ps where "wakeup (BufChan b) ?s = ?s\<lparr>procs := ps\<rparr>" "woken (procs s) ps"
    using wakeup_woken [of "BufChan b" ?s] by (auto simp: upd_buf_def)
  with assms show ?thesis
    by (intro exI [of _ ps])
      (simp add: virtio_disk_intr_def write_interrupt_ack_def in_flight_def Let_def upd_vdisk_def upd_buf_def)
qed

lemma finish_frees:
  assumes "in_flight b w bn v" and "vdisk s = v" and "\<not> b_disk (bcache s ! b)"
    and "avail_idx v = dev_idx v" and "used_idx v = seen_idx v" and "\<not> q_notified v" and "intr_status v = 0"
  shows "\<exists>ps v'. virtio_disk_finish b 0 s = Ok () (s\<lparr>procs := ps, vdisk := v'\<rparr>) \<and>
    vdisk_idle v' \<and> woken (procs s) ps"
proof -
  let ?s = "upd_vdisk (\<lambda>v. v\<lparr>info_b := (info_b v)[0 := None]\<rparr>) s"
  have fl: "VRING_DESC_F_NEXT AND VRING_DESC_F_NEXT \<noteq> 0"
    "(VRING_DESC_F_WRITE OR VRING_DESC_F_NEXT) AND VRING_DESC_F_NEXT \<noteq> 0"
    "VRING_DESC_F_WRITE AND VRING_DESC_F_NEXT = 0"
    by (simp_all add: virtio_consts)
  obtain ds ps where "free_chain 0 ?s = Ok () (?s\<lparr>procs := ps,
      vdisk := (vdisk ?s)\<lparr>desc := ds, d_free := replicate NUM True\<rparr>\<rparr>)" "length ds = NUM" "woken (procs s) ps"
    using free_chain3 [of ?s] assms(1,2) fl by (auto simp: in_flight_def upd_vdisk_def)
  with assms show ?thesis
    by (intro exI [of _ ps] exI [of _ "(vdisk ?s)\<lparr>desc := ds, d_free := replicate NUM True\<rparr>"])
      (simp add: virtio_disk_finish_def vdisk_idle_def in_flight_def upd_vdisk_def)
qed

lemma virtio_rw:
  assumes "vdisk_idle (vdisk s)" and "b < length (bcache s)" and "b_blockno (bcache s ! b) < 0x80000000"
  shows "\<exists>ps v. virtio_disk_rw b w s =
     Ok () ((if w then disk_write b s else disk_read b s)\<lparr>procs := ps, vdisk := v\<rparr>) \<and>
     vdisk_idle v \<and> woken (procs s) ps"
proof -
  let ?bn = "b_blockno (bcache s ! b)"
  let ?s0 = "upd_buf b (\<lambda>q. q\<lparr>b_disk := True\<rparr>) s"
  obtain v where v: "virtio_disk_submit b w s = Ok 0 (?s0\<lparr>vdisk := v\<rparr>)" "in_flight b w ?bn v"
      "avail_idx v = dev_idx v + 1" "used_idx v = seen_idx v" "avail_ring v ! (unat (dev_idx v) mod NUM) = 0"
      "q_notified v" "intr_status v = 0"
    using submit_idle [OF assms(1)] by blast
  define v1 where "v1 = v\<lparr>info_status := (info_status v)[0 := 0],
      used_ring := (used_ring v)[unat (used_idx v) mod NUM := 0],
      used_idx := used_idx v + 1, dev_idx := dev_idx v + 1, q_notified := False, intr_status := 1\<rparr>"
  define s1 where "s1 = virtio_device (?s0\<lparr>vdisk := v\<rparr>)"
  have s1: "s1 = (if w then ?s0\<lparr>disk := (disk s)(?bn := b_data (bcache s ! b)),
      disk_writes := disk_writes s @ [(?bn, b_data (bcache s ! b))]\<rparr>
     else upd_buf b (\<lambda>q. q\<lparr>b_data := disk s ?bn\<rparr>) ?s0)\<lparr>vdisk := v1\<rparr>"
    using device_serves [OF v(2) assms(3) v(3,5,6), of "?s0\<lparr>vdisk := v\<rparr>"] assms(2)
    by (simp add: s1_def v1_def upd_buf_def v(7))
  have f1: "in_flight b w ?bn v1"
    unfolding v1_def using v(2) by (intro in_flight_rings) (simp_all add: in_flight_def)
  have "info_status v1 ! 0 = 0" "used_ring v1 ! (unat (seen_idx v1) mod NUM) = 0"
      "used_idx v1 = seen_idx v1 + 1" "intr_status v1 = 1" "vdisk s1 = v1"
    using v by (simp_all add: v1_def s1 in_flight_def NUM_def)
  then obtain p1 where p1: "virtio_disk_intr s1 = Ok () ((upd_buf b (\<lambda>q. q\<lparr>b_disk := False\<rparr>) s1)
     \<lparr>procs := p1, vdisk := v1\<lparr>seen_idx := used_idx v1, intr_status := 0\<rparr>\<rparr>)" (is "_ = Ok _ ?s2") "woken (procs s1) p1"
    using intr_serves [OF f1] by blast
  have "in_flight b w ?bn (vdisk ?s2)" using f1 by (simp add: in_flight_def)
  moreover have "\<not> b_disk (bcache ?s2 ! b)"
    using assms(2) by (simp add: s1 upd_buf_def)
  moreover have "avail_idx (vdisk ?s2) = dev_idx (vdisk ?s2)" "used_idx (vdisk ?s2) = seen_idx (vdisk ?s2)"
      "\<not> q_notified (vdisk ?s2)" "intr_status (vdisk ?s2) = 0"
    using v(3) by (simp_all add: v1_def)
  ultimately obtain ps v' where ps: "virtio_disk_finish b 0 ?s2 = Ok () (?s2\<lparr>procs := ps, vdisk := v'\<rparr>)"
      "vdisk_idle v'" "woken (procs ?s2) ps"
    using finish_frees [of b w ?bn "vdisk ?s2" ?s2] by blast
  have "device_interrupts (?s0\<lparr>vdisk := v\<rparr>) s1" using v(7) by (simp add: device_interrupts_def s1 v1_def)
  then have "virtio_disk_rw b w s = Ok () (?s2\<lparr>procs := ps, vdisk := v'\<rparr>)"
    using v(1) p1(1) ps(1) by (simp add: virtio_disk_rw_def s1_def)
  moreover have "?s2\<lparr>procs := ps, vdisk := v'\<rparr> =
      (if w then disk_write b s else disk_read b s)\<lparr>procs := ps, vdisk := v'\<rparr>"
    using assms(2) by (simp add: s1 disk_write_def disk_read_def upd_buf_def Let_def)
  moreover have "woken (procs s) ps"
    using p1(2) ps(3) by (auto simp: s1 upd_buf_def intro: woken_trans split: if_splits)
  ultimately show ?thesis using ps(2) by auto
qed

section \<open>Properties\<close>


end
