(* ===== verification/Bio.thy ===== *)
theory Bio
  imports Virtio
begin

text \<open>
  The buffer cache, \<open>kernel/bio.c\<close>. The buffers are the first \<open>NBUF\<close> entries of \<open>bcache\<close>; entry
  \<open>NBUF\<close> is \<open>bcache.head\<close>, the sentinel of the doubly linked list that orders them by use. A
  section under \<open>bcache.lock\<close> is one step. The two searches of \<open>bget\<close> follow the list's pointers
  and end because the list is a ring through the sentinel (\<open>linked\<close>).
\<close>

definition mypid :: "'a proc_st_scheme \<Rightarrow> int" where
  "mypid s = sint (p_pid (mine s))"

section \<open>Operations\<close>

definition b_push_front :: "nat \<Rightarrow> 'a virtio_st_scheme \<Rightarrow> 'a virtio_st_scheme" where
  "b_push_front b s =
     (let s = upd_buf b (\<lambda>q. q\<lparr>b_next := b_next (bcache s ! NBUF)\<rparr>) s;
          s = upd_buf b (\<lambda>q. q\<lparr>b_prev := NBUF\<rparr>) s;
          s = upd_buf (b_next (bcache s ! NBUF)) (\<lambda>q. q\<lparr>b_prev := b\<rparr>) s
      in upd_buf NBUF (\<lambda>q. q\<lparr>b_next := b\<rparr>) s)"

definition binit :: "'a virtio_st_scheme \<Rightarrow> 'a virtio_st_scheme" where
  "binit s =
     fold (\<lambda>b s. b_push_front b (upd_buf b (\<lambda>q. q\<lparr>b_lock := initsleeplock ''buffer''\<rparr>) s)) [0..<NBUF]
       (upd_buf NBUF (\<lambda>q. q\<lparr>b_prev := NBUF, b_next := NBUF\<rparr>) s)"

partial_function (option) bget_cached ::
    "buf list \<Rightarrow> u32 \<Rightarrow> u32 \<Rightarrow> nat \<Rightarrow> nat option option" where
  "bget_cached bs dev blockno b =
     (if b = NBUF then Some None
      else if b_dev (bs ! b) = dev \<and> b_blockno (bs ! b) = blockno then Some (Some b)
      else bget_cached bs dev blockno (b_next (bs ! b)))"

partial_function (option) bget_unused :: "buf list \<Rightarrow> nat \<Rightarrow> nat option option" where
  "bget_unused bs b =
     (if b = NBUF then Some None
      else if b_refcnt (bs ! b) = 0 then Some (Some b)
      else bget_unused bs (b_prev (bs ! b)))"

text \<open>\<open>acquiresleep(&b->lock)\<close>: the process sleeps while another holds the buffer.\<close>

definition b_acquire :: "nat \<Rightarrow> 'a virtio_st_scheme \<Rightarrow> (nat, 'a virtio_st_scheme) res" where
  "b_acquire b s =
     (case acquiresleep (BufLockChan b) (mypid s) (b_lock (bcache s ! b)) of
        Ok _ lk \<Rightarrow> Ok b (upd_buf b (\<lambda>q. q\<lparr>b_lock := lk\<rparr>) s)
      | _ \<Rightarrow> sleep (BufLockChan b) s)"

definition bget :: "u32 \<Rightarrow> u32 \<Rightarrow> 'a virtio_st_scheme \<Rightarrow> (nat, 'a virtio_st_scheme) res" where
  "bget dev blockno s =
     (case bget_cached (bcache s) dev blockno (b_next (bcache s ! NBUF)) of
        None \<Rightarrow> Diverge
      | Some (Some b) \<Rightarrow> b_acquire b (upd_buf b (\<lambda>q. q\<lparr>b_refcnt := b_refcnt q + 1\<rparr>) s)
      | Some None \<Rightarrow>
          (case bget_unused (bcache s) (b_prev (bcache s ! NBUF)) of
             None \<Rightarrow> Diverge
           | Some None \<Rightarrow> Panic ''bget: no buffers''
           | Some (Some b) \<Rightarrow>
               b_acquire b (upd_buf b (\<lambda>q. q\<lparr>b_dev := dev, b_blockno := blockno, b_valid := False,
                 b_refcnt := 1\<rparr>) s)))"

definition bread :: "u32 \<Rightarrow> u32 \<Rightarrow> 'a virtio_st_scheme \<Rightarrow> (nat, 'a virtio_st_scheme) res" where
  "bread dev blockno s =
     bind (bget dev blockno s) (\<lambda>b s.
       if \<not> b_valid (bcache s ! b) then
         bind (virtio_disk_rw b False s) (\<lambda>_ s. Ok b (upd_buf b (\<lambda>q. q\<lparr>b_valid := True\<rparr>) s))
       else Ok b s)"

definition bwrite :: "nat \<Rightarrow> 'a virtio_st_scheme \<Rightarrow> (unit, 'a virtio_st_scheme) res" where
  "bwrite b s =
     (if \<not> holdingsleep (mypid s) (b_lock (bcache s ! b)) then Panic ''bwrite''
      else virtio_disk_rw b True s)"

definition b_unlink :: "nat \<Rightarrow> 'a virtio_st_scheme \<Rightarrow> 'a virtio_st_scheme" where
  "b_unlink b s =
     (let s = upd_buf (b_next (bcache s ! b)) (\<lambda>q. q\<lparr>b_prev := b_prev (bcache s ! b)\<rparr>) s
      in upd_buf (b_prev (bcache s ! b)) (\<lambda>q. q\<lparr>b_next := b_next (bcache s ! b)\<rparr>) s)"

definition brelse :: "nat \<Rightarrow> 'a virtio_st_scheme \<Rightarrow> (unit, 'a virtio_st_scheme) res" where
  "brelse b s =
     (if \<not> holdingsleep (mypid s) (b_lock (bcache s ! b)) then Panic ''brelse''
      else
        let s = wakeup (BufLockChan b) (upd_buf b (\<lambda>q. q\<lparr>b_lock := releasesleep (b_lock q)\<rparr>) s);
            s = upd_buf b (\<lambda>q. q\<lparr>b_refcnt := b_refcnt q - 1\<rparr>) s
        in if b_refcnt (bcache s ! b) = 0 then Ok () (b_push_front b (b_unlink b s)) else Ok () s)"

definition bpin :: "nat \<Rightarrow> 'a virtio_st_scheme \<Rightarrow> 'a virtio_st_scheme" where
  "bpin b s = upd_buf b (\<lambda>q. q\<lparr>b_refcnt := b_refcnt q + 1\<rparr>) s"

definition bunpin :: "nat \<Rightarrow> 'a virtio_st_scheme \<Rightarrow> 'a virtio_st_scheme" where
  "bunpin b s = upd_buf b (\<lambda>q. q\<lparr>b_refcnt := b_refcnt q - 1\<rparr>) s"

text \<open>An assignment through \<open>b->data\<close>.\<close>

definition set_bdata :: "nat \<Rightarrow> u8 list \<Rightarrow> 'a virtio_st_scheme \<Rightarrow> 'a virtio_st_scheme" where
  "set_bdata b d s = upd_buf b (\<lambda>q. q\<lparr>b_data := d\<rparr>) s"

section \<open>The list of buffers\<close>

text \<open>\<open>seg f a xs z\<close>: following \<open>f\<close> from \<open>a\<close> one meets \<open>xs\<close> and then \<open>z\<close>.\<close>

fun seg :: "(nat \<Rightarrow> nat) \<Rightarrow> nat \<Rightarrow> nat list \<Rightarrow> nat \<Rightarrow> bool" where
  "seg f a [] z \<longleftrightarrow> f a = z"
| "seg f a (x # xs) z \<longleftrightarrow> f a = x \<and> seg f x xs z"

lemma seg_append: "seg f a (xs @ y # ys) z \<longleftrightarrow> seg f a xs y \<and> seg f y ys z"
  by (induction xs arbitrary: a) auto

lemma seg_cong: "(\<And>x. x \<in> set (a # xs) \<Longrightarrow> f x = g x) \<Longrightarrow> seg f a xs z = seg g a xs z"
  by (induction xs arbitrary: a) auto

definition ringed :: "buf list \<Rightarrow> nat list \<Rightarrow> bool" where
  "ringed bs xs \<longleftrightarrow>
     length bs = Suc NBUF \<and> distinct xs \<and> set xs \<subseteq> {..<NBUF} \<and>
     seg (\<lambda>i. b_next (bs ! i)) NBUF xs NBUF \<and> seg (\<lambda>i. b_prev (bs ! i)) NBUF (rev xs) NBUF"

definition linked :: "buf list \<Rightarrow> nat list \<Rightarrow> bool" where
  "linked bs xs \<longleftrightarrow> ringed bs xs \<and> set xs = {..<NBUF}"

lemma bget_cached_seg:
  assumes "seg (\<lambda>i. b_next (bs ! i)) a xs NBUF" and "NBUF \<notin> set xs"
  shows "bget_cached bs dev blockno (b_next (bs ! a)) =
     Some (find (\<lambda>b. b_dev (bs ! b) = dev \<and> b_blockno (bs ! b) = blockno) xs)"
  using assms
  by (induction xs arbitrary: a) (auto simp: bget_cached.simps)

lemma bget_unused_seg:
  assumes "seg (\<lambda>i. b_prev (bs ! i)) a xs NBUF" and "NBUF \<notin> set xs"
  shows "bget_unused bs (b_prev (bs ! a)) = Some (find (\<lambda>b. b_refcnt (bs ! b) = 0) xs)"
  using assms
  by (induction xs arbitrary: a) (auto simp: bget_unused.simps)

lemma seg_upd_last:
  "seg f a xs z \<Longrightarrow> distinct (a # xs) \<Longrightarrow> seg (f(last (a # xs) := w)) a xs w"
  by (induction xs arbitrary: a) auto

lemma seg_drop:
  assumes "seg f a (xs @ b # ys) z" and "distinct (a # xs @ b # ys)"
  shows "seg (f(last (a # xs) := hd (ys @ [z]))) a (xs @ ys) z"
proof -
  have 1: "seg f a xs b" "seg f b ys z" using assms(1) by (simp_all add: seg_append)
  have 2: "seg (f(last (a # xs) := w)) a xs w" for w
    using seg_upd_last [OF 1(1)] assms(2) by auto
  show ?thesis
  proof (cases ys)
    case (Cons y ys')
    have "last (a # xs) \<in> set (a # xs)" by (rule last_in_set) simp
    then have "seg (f(last (a # xs) := y)) y ys' z = seg f y ys' z"
      using assms(2) Cons by (intro seg_cong) auto
    with Cons 1(2) 2 show ?thesis by (simp add: seg_append)
  qed (use 2 in simp)
qed

lemma seg_front:
  assumes "seg f a ws z" and "distinct (a # ws)" and "b \<notin> set (a # ws)"
  shows "seg (f(b := f a, a := b)) a (b # ws) z"
proof (cases ws)
  case (Cons w ws')
  then have "seg (f(b := f a, a := b)) w ws' z = seg f w ws' z"
    using assms by (intro seg_cong) auto
  with Cons assms show ?thesis by auto
qed (use assms in auto)

lemma seg_back:
  assumes "seg f a ws a" and "distinct (a # ws)" and "b \<notin> set (a # ws)"
  shows "seg (f(b := a, last (a # ws) := b)) a (ws @ [b]) a"
proof -
  have "seg (f(last (a # ws) := b)) a ws b"
    using seg_upd_last assms by blast
  moreover have "seg (f(b := a, last (a # ws) := b)) a ws b = seg (f(last (a # ws) := b)) a ws b"
    using assms(3) by (intro seg_cong) auto
  moreover have "last (a # ws) \<noteq> b" using assms(3) last_in_set [of "a # ws"] by auto
  ultimately show ?thesis by (simp add: seg_append)
qed

text \<open>The list pointers as functions of the index.\<close>

abbreviation nxt :: "buf list \<Rightarrow> nat \<Rightarrow> nat" where "nxt bs \<equiv> \<lambda>i. b_next (bs ! i)"
abbreviation prv :: "buf list \<Rightarrow> nat \<Rightarrow> nat" where "prv bs \<equiv> \<lambda>i. b_prev (bs ! i)"

lemma ringed_cong:
  assumes "length bs = Suc NBUF" and "\<And>i. i \<le> NBUF \<Longrightarrow> nxt bs i = N i" and "\<And>i. i \<le> NBUF \<Longrightarrow> prv bs i = P i"
    and "distinct xs" "set xs \<subseteq> {..<NBUF}" "seg N NBUF xs NBUF" "seg P NBUF (rev xs) NBUF"
  shows "ringed bs xs"
proof -
  have "x \<le> NBUF" if "x \<in> set (NBUF # xs)" for x
    using that assms(5) by auto
  then have "seg (nxt bs) NBUF xs NBUF = seg N NBUF xs NBUF"
      "seg (prv bs) NBUF (rev xs) NBUF = seg P NBUF (rev xs) NBUF"
    using assms(2,3) by (auto intro!: seg_cong)
  with assms show ?thesis by (simp add: ringed_def)
qed

lemma length_upd_buf [simp]: "length (bcache (upd_buf b f s)) = length (bcache s)"
  by (simp add: upd_buf_def)

lemma nth_upd_buf: "b < length (bcache s) \<Longrightarrow>
    bcache (upd_buf b f s) ! i = (if i = b then f (bcache s ! b) else bcache s ! i)"
  by (simp add: upd_buf_def nth_list_update)

lemma push_front_ptrs:
  assumes "length (bcache s) = Suc NBUF" and "b < NBUF" and "b_next (bcache s ! NBUF) = h" and "h \<le> NBUF" and "h \<noteq> b"
  shows "length (bcache (b_push_front b s)) = Suc NBUF"
    and "b_next (bcache (b_push_front b s) ! i) = (if i = NBUF then b else if i = b then h else b_next (bcache s ! i))"
    and "b_prev (bcache (b_push_front b s) ! i) = (if i = h then b else if i = b then NBUF else b_prev (bcache s ! i))"
  using assms by (simp_all add: b_push_front_def Let_def nth_upd_buf)

lemma ringed_push_front:
  assumes "ringed (bcache s) ws" and "b < NBUF" and "b \<notin> set ws"
  shows "ringed (bcache (b_push_front b s)) (b # ws)"
proof -
  let ?H = NBUF
  let ?N = "nxt (bcache s)" and ?P = "prv (bcache s)"
  have r: "length (bcache s) = Suc ?H" "distinct (?H # ws)" "set ws \<subseteq> {..<?H}" "b \<notin> set (?H # ws)"
    and N: "seg ?N ?H ws ?H" and P: "seg ?P ?H (rev ws) ?H"
    using assms by (auto simp: ringed_def)
  have h: "?N ?H = last (?H # rev ws)"
    using N by (cases ws) (auto simp: last_rev)
  have "?N ?H \<in> set (?H # ws)"
    using last_in_set [of "?H # rev ws"] unfolding h by auto
  then have hb: "?N ?H \<le> ?H" "?N ?H \<noteq> b" using r by auto
  note u = push_front_ptrs [OF r(1) assms(2) refl hb]
  have "seg (?N(b := ?N ?H, ?H := b)) ?H (b # ws) ?H"
    using N r by (intro seg_front) auto
  moreover have "seg (?P(b := ?H, ?N ?H := b)) ?H (rev ws @ [b]) ?H"
    unfolding h using P r by (intro seg_back) auto
  moreover have "nxt (bcache (b_push_front b s)) i = (?N(b := ?N ?H, ?H := b)) i"
      "prv (bcache (b_push_front b s)) i = (?P(b := ?H, ?N ?H := b)) i" for i
    by (simp_all only: u fun_upd_apply)
  ultimately show ?thesis
    using u(1) r assms(2)
    by (intro ringed_cong [where N = "?N(b := ?N ?H, ?H := b)" and P = "?P(b := ?H, ?N ?H := b)"]) auto
qed

lemma ringed_unlink:
  assumes "ringed (bcache s) (xs @ b # ys)"
  shows "ringed (bcache (b_unlink b s)) (xs @ ys)"
proof -
  let ?H = NBUF
  let ?N = "nxt (bcache s)" and ?P = "prv (bcache s)"
  let ?p = "last (?H # xs)" and ?n = "hd (ys @ [?H])"
  have l: "length (bcache s) = Suc ?H" and d: "distinct (?H # xs @ b # ys)" "distinct (?H # rev ys @ b # rev xs)"
    and rng: "set (xs @ b # ys) \<subseteq> {..<?H}"
    and N: "seg ?N ?H (xs @ b # ys) ?H" and P: "seg ?P ?H (rev ys @ b # rev xs) ?H"
    using assms by (auto simp: ringed_def)
  have hl: "last (?H # rev ys) = ?n" "hd (rev xs @ [?H]) = ?p"
    by (simp_all add: last_rev hd_rev hd_append)
  have sn: "?N b = ?n" using N by (cases ys) (auto simp: seg_append)
  have sp: "?P b = ?p" using P by (cases xs rule: rev_cases) (auto simp: seg_append)
  have "?p \<in> set (?H # xs)" "?n \<in> set (?H # ys)"
    by (rule last_in_set) (auto simp: hd_append)
  then have b: "?p \<le> ?H" "?n \<le> ?H" "b \<noteq> ?p" "b \<noteq> ?n"
    using rng d(1) by auto
  have "length (bcache (b_unlink b s)) = Suc ?H" "nxt (bcache (b_unlink b s)) i = (?N(?p := ?n)) i"
      "prv (bcache (b_unlink b s)) i = (?P(?n := ?p)) i" for i
    unfolding sn [symmetric] sp [symmetric] using l b unfolding sn [symmetric] sp [symmetric]
    by (simp_all add: b_unlink_def nth_upd_buf Let_def)
  then show ?thesis
    using seg_drop [OF N d(1)] seg_drop [OF P d(2)] d(1) rng unfolding hl
    by (intro ringed_cong [where N = "?N(?p := ?n)" and P = "?P(?n := ?p)"]) auto
qed

text \<open>Taking a buffer out of the ring and putting it at the front.\<close>

lemma linked_move_front:
  assumes "linked (bcache s) (xs @ b # ys)"
  shows "linked (bcache (b_push_front b (b_unlink b s))) (b # xs @ ys)"
  using assms ringed_push_front [OF ringed_unlink [of s xs b ys]]
  by (auto simp: linked_def ringed_def)

lemma ringed_fields:
  "(\<And>i. b_next (bs' ! i) = b_next (bs ! i)) \<Longrightarrow> (\<And>i. b_prev (bs' ! i) = b_prev (bs ! i)) \<Longrightarrow>
     length bs' = length bs \<Longrightarrow> ringed bs' xs = ringed bs xs"
  by (simp add: ringed_def)

lemma ringed_binit_fold:
  "ringed (bcache s) (rev [0..<k]) \<Longrightarrow> k + n \<le> NBUF \<Longrightarrow>
     ringed (bcache (fold (\<lambda>b s. b_push_front b (upd_buf b (\<lambda>q. q\<lparr>b_lock := initsleeplock ''buffer''\<rparr>) s))
       [k..<k + n] s)) (rev [0..<k + n])"
proof (induction n arbitrary: s k)
  case (Suc n)
  let ?s = "upd_buf k (\<lambda>q. q\<lparr>b_lock := initsleeplock ''buffer''\<rparr>) s"
  have "length (bcache s) = Suc NBUF" using Suc.prems(1) by (simp add: ringed_def)
  then have "ringed (bcache ?s) (rev [0..<k])"
    using Suc.prems by (subst ringed_fields [of _ "bcache s"]) (auto simp: nth_upd_buf)
  then have "ringed (bcache (b_push_front k ?s)) (rev [0..<Suc k])"
    using ringed_push_front [of ?s "rev [0..<k]" k] Suc.prems by simp
  moreover have "[k..<k + Suc n] = k # [Suc k..<Suc k + n]" by (subst upt_conv_Cons) simp_all
  moreover have "k + Suc n = Suc k + n" by simp
  ultimately show ?case
    using Suc.IH [of "b_push_front k ?s" "Suc k"] Suc.prems(2) by (simp only: fold_simps)
qed simp

lemma binit_linked:
  assumes "length (bcache s) = Suc NBUF"
  shows "linked (bcache (binit s)) (rev [0..<NBUF])"
proof -
  let ?s = "upd_buf NBUF (\<lambda>q. q\<lparr>b_prev := NBUF, b_next := NBUF\<rparr>) s"
  have "ringed (bcache ?s) (rev [0..<0])"
    using assms by (simp add: ringed_def nth_upd_buf)
  then show ?thesis
    using ringed_binit_fold [of ?s 0 NBUF] by (auto simp: linked_def binit_def)
qed

section \<open>What the cache promises\<close>

text \<open>
  The cache as its clients see it: which buffer holds a block that is in use (\<open>buf_of\<close>), how many
  references it has (\<open>rc\<close>), whether it is locked (\<open>lk\<close>), and the current contents of every block
  (\<open>view\<close>), cached or not.
\<close>

definition buf_of :: "'a virtio_st_scheme \<Rightarrow> u32 \<Rightarrow> nat option" where
  "buf_of s bn = find (\<lambda>i. b_refcnt (bcache s ! i) \<noteq> 0 \<and> b_dev (bcache s ! i) = ROOTDEV \<and>
     b_blockno (bcache s ! i) = bn) [0..<NBUF]"

definition rc :: "'a virtio_st_scheme \<Rightarrow> u32 \<Rightarrow> nat" where
  "rc s bn = (case buf_of s bn of None \<Rightarrow> 0 | Some i \<Rightarrow> unat (b_refcnt (bcache s ! i)))"

definition lk :: "'a virtio_st_scheme \<Rightarrow> u32 \<Rightarrow> bool" where
  "lk s bn = (case buf_of s bn of None \<Rightarrow> False | Some i \<Rightarrow> sl_locked (b_lock (bcache s ! i)))"

definition view :: "'a virtio_st_scheme \<Rightarrow> u32 \<Rightarrow> u8 list" where
  "view s bn = (case buf_of s bn of None \<Rightarrow> disk s bn | Some i \<Rightarrow> b_data (bcache s ! i))"

definition buf_ok :: "'a virtio_st_scheme \<Rightarrow> buf \<Rightarrow> bool" where
  "buf_ok s q \<longleftrightarrow>
     (b_refcnt q \<noteq> 0 \<longrightarrow> b_dev q = ROOTDEV \<and> b_valid q) \<and>
     (b_dev q = ROOTDEV \<longrightarrow> b_blockno q < 0x80000000) \<and>
     (sl_locked (b_lock q) \<longrightarrow> b_refcnt q \<noteq> 0 \<and> sl_pid (b_lock q) = mypid s) \<and>
     (b_refcnt q = 0 \<and> b_dev q = ROOTDEV \<and> b_valid q \<longrightarrow> b_data q = disk s (b_blockno q))"

definition bio_inv :: "'a virtio_st_scheme \<Rightarrow> bool" where
  "bio_inv s \<longleftrightarrow>
     (\<exists>xs. linked (bcache s) xs) \<and> vdisk_idle (vdisk s) \<and> me s < length (procs s) \<and>
     (\<forall>i < NBUF. buf_ok s (bcache s ! i)) \<and>
     (\<forall>i < NBUF. \<forall>j < NBUF. b_dev (bcache s ! i) = ROOTDEV \<and> b_dev (bcache s ! j) = ROOTDEV \<and>
        b_blockno (bcache s ! i) = b_blockno (bcache s ! j) \<longrightarrow> i = j)"

text \<open>What no operation of the cache touches: \<open>t\<close> is \<open>s\<close> but for the cache, the disk and wake-ups.\<close>

definition bio_frame :: "'a virtio_st_scheme \<Rightarrow> 'a virtio_st_scheme \<Rightarrow> bool" where
  "bio_frame s t \<longleftrightarrow> (\<exists>bs v d w ps.
     t = s\<lparr>procs := ps, bcache := bs, vdisk := v, disk := d, disk_writes := w\<rparr> \<and> woken (procs s) ps)"

lemma bio_frame_refl [simp]: "bio_frame s s"
  unfolding bio_frame_def
  by (rule exI [of _ "bcache s"], rule exI [of _ "vdisk s"], rule exI [of _ "disk s"],
      rule exI [of _ "disk_writes s"], rule exI [of _ "procs s"]) simp

lemma bio_frame_trans [trans]: "bio_frame s t \<Longrightarrow> bio_frame t u \<Longrightarrow> bio_frame s u"
proof -
  assume "bio_frame s t" "bio_frame t u"
  then obtain bs v d w ps bs' v' d' w' ps' where
    "t = s\<lparr>procs := ps, bcache := bs, vdisk := v, disk := d, disk_writes := w\<rparr>" "woken (procs s) ps"
    "u = t\<lparr>procs := ps', bcache := bs', vdisk := v', disk := d', disk_writes := w'\<rparr>" "woken (procs t) ps'"
    by (auto simp: bio_frame_def)
  then show ?thesis
    unfolding bio_frame_def
    by (intro exI [of _ bs'] exI [of _ v'] exI [of _ d'] exI [of _ w'] exI [of _ ps'])
      (auto intro: woken_trans)
qed

lemma mypid_frame:
  assumes "bio_frame s t" and "me s < length (procs s)"
  shows "mypid t = mypid s" and "me t = me s" and "length (procs t) = length (procs s)"
  using assms woken_pid woken_length
  by (auto simp: bio_frame_def mypid_def mine_def me_def myproc_def split: option.splits)

lemma bio_inv_cached:
  assumes "bio_inv s" and "i < NBUF" and "b_dev (bcache s ! i) = ROOTDEV" and "b_blockno (bcache s ! i) = bn"
  shows "buf_of s bn = (if b_refcnt (bcache s ! i) \<noteq> 0 then Some i else None)"
proof -
  have u: "j = i" if "j < NBUF" "b_dev (bcache s ! j) = ROOTDEV" "b_blockno (bcache s ! j) = bn" for j
    using assms that unfolding bio_inv_def by metis
  show ?thesis
  proof (cases "b_refcnt (bcache s ! i) = 0")
    case True
    then show ?thesis using u by (auto simp: buf_of_def find_None_iff)
  next
    case False
    then have "\<exists>j. buf_of s bn = Some j"
      using assms by (cases "buf_of s bn") (auto simp: buf_of_def find_None_iff)
    then show ?thesis using u False by (auto simp: buf_of_def find_Some_iff)
  qed
qed

lemma buf_of_SomeD:
  assumes "buf_of s bn = Some i"
  shows "i < NBUF" "b_refcnt (bcache s ! i) \<noteq> 0" "b_dev (bcache s ! i) = ROOTDEV" "b_blockno (bcache s ! i) = bn"
  using assms by (auto simp: buf_of_def find_Some_iff)

text \<open>The fields of a buffer that are not list pointers or the driver's flag.\<close>

definition core :: "buf \<Rightarrow> buf" where
  "core q = q\<lparr>b_prev := 0, b_next := 0, b_disk := False\<rparr>"

lemma core_eqD:
  assumes "core p = core q"
  shows "b_valid p = b_valid q" "b_dev p = b_dev q" "b_blockno p = b_blockno q" "b_lock p = b_lock q"
    "b_refcnt p = b_refcnt q" "b_data p = b_data q"
  using assms by (cases p; cases q; simp add: core_def)+

text \<open>A step that changes one buffer, which holds block \<open>bn\<close> afterwards, and the disk at \<open>bn\<close> only.\<close>

definition one_buf ::
    "nat \<Rightarrow> buf \<Rightarrow> 'a virtio_st_scheme \<Rightarrow> 'a virtio_st_scheme \<Rightarrow> bool" where
  "one_buf i q s t \<longleftrightarrow>
     i < NBUF \<and> bio_frame s t \<and> (\<exists>xs. linked (bcache t) xs) \<and> vdisk_idle (vdisk t) \<and>
     (\<forall>j < NBUF. core (bcache t ! j) = core (if j = i then q else bcache s ! j)) \<and>
     b_dev q = ROOTDEV \<and> b_valid q \<and> b_blockno q < 0x80000000 \<and>
     (\<forall>j < NBUF. j \<noteq> i \<and> b_dev (bcache s ! j) = ROOTDEV \<longrightarrow> b_blockno (bcache s ! j) \<noteq> b_blockno q) \<and>
     (b_refcnt (bcache s ! i) = 0 \<or> b_dev (bcache s ! i) = ROOTDEV \<and> b_blockno (bcache s ! i) = b_blockno q) \<and>
     (sl_locked (b_lock q) \<longrightarrow> b_refcnt q \<noteq> 0 \<and> sl_pid (b_lock q) = mypid s) \<and>
     (b_refcnt q = 0 \<longrightarrow> b_data q = disk t (b_blockno q)) \<and>
     (\<forall>x. x \<noteq> b_blockno q \<longrightarrow> disk t x = disk s x)"

lemma one_buf_inv:
  assumes inv: "bio_inv s" and ob: "one_buf i q s t"
  shows "bio_inv t"
proof -
  have me: "me s < length (procs s)" using inv by (simp add: bio_inv_def)
  have fr: "bio_frame s t" using ob by (simp add: one_buf_def)
  note pid = mypid_frame [OF fr me]
  have c: "\<And>j. j < NBUF \<Longrightarrow> core (bcache t ! j) = core (if j = i then q else bcache s ! j)"
    using ob by (simp add: one_buf_def)
  note c' = core_eqD [OF c]
  have oi: "buf_ok s (bcache s ! j)" if "j < NBUF" for j
    using inv that by (simp add: bio_inv_def)
  have "buf_ok t (bcache t ! j)" if j: "j < NBUF" for j
  proof (cases "j = i")
    case True
    with ob j pid show ?thesis by (simp add: buf_ok_def c' one_buf_def)
  next
    case False
    have "b_dev (bcache s ! j) = ROOTDEV \<Longrightarrow> disk t (b_blockno (bcache s ! j)) = disk s (b_blockno (bcache s ! j))"
      using ob False j by (simp add: one_buf_def)
    with False oi [OF j] j pid show ?thesis by (auto simp: buf_ok_def c')
  qed
  moreover have "j = k" if jk: "j < NBUF" "k < NBUF" "b_dev (bcache t ! j) = ROOTDEV" "b_dev (bcache t ! k) = ROOTDEV"
      "b_blockno (bcache t ! j) = b_blockno (bcache t ! k)" for j k
  proof -
    have u: "b_dev (bcache s ! j) = ROOTDEV \<Longrightarrow> b_dev (bcache s ! k) = ROOTDEV \<Longrightarrow>
        b_blockno (bcache s ! j) = b_blockno (bcache s ! k) \<Longrightarrow> j = k"
      using inv jk(1,2) unfolding bio_inv_def by metis
    have n: "j \<noteq> i \<Longrightarrow> b_dev (bcache s ! j) = ROOTDEV \<Longrightarrow> b_blockno (bcache s ! j) \<noteq> b_blockno q"
        "k \<noteq> i \<Longrightarrow> b_dev (bcache s ! k) = ROOTDEV \<Longrightarrow> b_blockno (bcache s ! k) \<noteq> b_blockno q"
      using ob jk(1,2) by (auto simp: one_buf_def)
    show ?thesis using u n jk by (auto simp: c' split: if_splits)
  qed
  ultimately show ?thesis
    using ob me pid unfolding bio_inv_def one_buf_def by auto
qed

lemma one_buf_of:
  assumes inv: "bio_inv s" and ob: "one_buf i q s t"
  shows "buf_of t = (buf_of s)(b_blockno q := (if b_refcnt q \<noteq> 0 then Some i else None))"
proof
  fix x
  have i: "i < NBUF" and c: "\<And>j. j < NBUF \<Longrightarrow> core (bcache t ! j) = core (if j = i then q else bcache s ! j)"
    using ob by (simp_all add: one_buf_def)
  note c' = core_eqD [OF c]
  show "buf_of t x = ((buf_of s)(b_blockno q := (if b_refcnt q \<noteq> 0 then Some i else None))) x"
  proof (cases "x = b_blockno q")
    case True
    have "b_dev (bcache t ! i) = ROOTDEV" "b_blockno (bcache t ! i) = x" "b_refcnt (bcache t ! i) = b_refcnt q"
      using ob True by (simp_all add: c' i one_buf_def)
    then show ?thesis
      using bio_inv_cached [OF one_buf_inv [OF inv ob] i, of x] True by simp
  next
    case False
    have "buf_of t x = buf_of s x"
      unfolding buf_of_def
    proof (rule find_cong [OF refl])
      fix j assume "j \<in> set [0..<NBUF]"
      then show "(b_refcnt (bcache t ! j) \<noteq> 0 \<and> b_dev (bcache t ! j) = ROOTDEV \<and> b_blockno (bcache t ! j) = x)
         = (b_refcnt (bcache s ! j) \<noteq> 0 \<and> b_dev (bcache s ! j) = ROOTDEV \<and> b_blockno (bcache s ! j) = x)"
        using False ob by (auto simp: c' one_buf_def)
    qed
    with False show ?thesis by simp
  qed
qed

lemma one_buf_effects:
  assumes inv: "bio_inv s" and ob: "one_buf i q s t"
  shows "rc t = (rc s)(b_blockno q := unat (b_refcnt q))"
    and "lk t = (lk s)(b_blockno q := sl_locked (b_lock q))"
    and "view t = (view s)(b_blockno q := b_data q)"
proof -
  note bo = one_buf_of [OF inv ob]
  have i: "i < NBUF" and c: "\<And>j. j < NBUF \<Longrightarrow> core (bcache t ! j) = core (if j = i then q else bcache s ! j)"
    using ob by (simp_all add: one_buf_def)
  note c' = core_eqD [OF c]
  have other: "j < NBUF \<and> j \<noteq> i" if "x \<noteq> b_blockno q" "buf_of s x = Some j" for x j
    using buf_of_SomeD [OF that(2)] that(1) ob by (auto simp: one_buf_def)
  show "rc t = (rc s)(b_blockno q := unat (b_refcnt q))"
    using other by (auto simp: rc_def bo c' i fun_eq_iff split: option.splits)
  show "lk t = (lk s)(b_blockno q := sl_locked (b_lock q))"
    using other ob by (auto simp: lk_def bo c' i one_buf_def fun_eq_iff split: option.splits)
  show "view t = (view s)(b_blockno q := b_data q)"
    using other ob by (auto simp: view_def bo c' i one_buf_def fun_eq_iff split: option.splits)
qed

section \<open>The operations keep the promise\<close>

lemma linked_core:
  assumes "linked (bcache s) xs" and "\<And>j. b_next (bs ! j) = b_next (bcache s ! j)"
    and "\<And>j. b_prev (bs ! j) = b_prev (bcache s ! j)" and "length bs = length (bcache s)"
  shows "linked bs xs"
  using assms ringed_fields [of bs "bcache s" xs] by (simp add: linked_def)

lemma nth_list_update': "xs[i := x] ! j = (if i = j \<and> i < length xs then x else xs ! j)"
  by (cases "i < length xs") (simp_all add: nth_list_update list_update_beyond)

lemma linked_update:
  "linked bs xs \<Longrightarrow> b_next q = b_next (bs ! i) \<Longrightarrow> b_prev q = b_prev (bs ! i) \<Longrightarrow> linked (bs[i := q]) xs"
proof -
  assume a: "linked bs xs" "b_next q = b_next (bs ! i)" "b_prev q = b_prev (bs ! i)"
  have "b_next (bs[i := q] ! j) = b_next (bs ! j)" "b_prev (bs[i := q] ! j) = b_prev (bs ! j)" for j
  proof -
    have "bs[i := q] ! j = (if i = j \<and> i < length bs then q else bs ! j)"
      by (simp add: nth_list_update')
    with a(2,3) show "b_next (bs[i := q] ! j) = b_next (bs ! j)" "b_prev (bs[i := q] ! j) = b_prev (bs ! j)"
      by simp_all
  qed
  then show ?thesis using a(1) ringed_fields [of "bs[i := q]" bs xs] by (simp add: linked_def)
qed

lemma find_SomeD: "find P xs = Some x \<Longrightarrow> x \<in> set xs \<and> P x"
  by (auto simp: find_Some_iff)

lemma bio_inv_linked: "bio_inv s \<Longrightarrow> \<exists>xs. linked (bcache s) xs"
  and bio_inv_length: "bio_inv s \<Longrightarrow> length (bcache s) = Suc NBUF"
  by (auto simp: bio_inv_def linked_def ringed_def)

lemma bget_searches:
  assumes "linked (bcache s) xs"
  shows "bget_cached (bcache s) dev blockno (b_next (bcache s ! NBUF)) =
      Some (find (\<lambda>b. b_dev (bcache s ! b) = dev \<and> b_blockno (bcache s ! b) = blockno) xs)"
    and "bget_unused (bcache s) (b_prev (bcache s ! NBUF)) =
      Some (find (\<lambda>b. b_refcnt (bcache s ! b) = 0) (rev xs))"
  using assms by (auto simp: linked_def ringed_def intro!: bget_cached_seg bget_unused_seg)

text \<open>A buffer is free: some buffer has no references.\<close>

definition spare :: "'a virtio_st_scheme \<Rightarrow> bool" where
  "spare s \<longleftrightarrow> (\<exists>i < NBUF. b_refcnt (bcache s ! i) = 0)"

text \<open>\<open>bget\<close> with nothing to wait for: it takes the buffer with the block, or the least recently used free one.\<close>

lemma bget_effect:
  assumes inv: "bio_inv s" and nl: "\<not> lk s bn" and ok: "0 < rc s bn \<or> spare s"
  shows "\<exists>i q. i < NBUF \<and> bget ROOTDEV bn s = Ok i (s\<lparr>bcache := (bcache s)[i := q]\<rparr>) \<and>
    (\<forall>j < NBUF. j \<noteq> i \<and> b_dev (bcache s ! j) = ROOTDEV \<longrightarrow> b_blockno (bcache s ! j) \<noteq> bn) \<and>
    (b_refcnt (bcache s ! i) = 0 \<or> b_dev (bcache s ! i) = ROOTDEV \<and> b_blockno (bcache s ! i) = bn) \<and>
    b_next q = b_next (bcache s ! i) \<and> b_prev q = b_prev (bcache s ! i) \<and>
    b_dev q = ROOTDEV \<and> b_blockno q = bn \<and> b_refcnt q = of_nat (rc s bn) + 1 \<and>
    sl_locked (b_lock q) \<and> sl_pid (b_lock q) = mypid s \<and> (b_valid q \<longrightarrow> b_data q = view s bn) \<and>
    (0 < rc s bn \<longrightarrow> b_valid q)"
proof -
  obtain xs where xs: "linked (bcache s) xs" using bio_inv_linked [OF inv] by blast
  have l: "length (bcache s) = Suc NBUF" and st: "set xs = {..<NBUF}"
    using xs by (auto simp: linked_def ringed_def)
  let ?P = "\<lambda>b. b_dev (bcache s ! b) = ROOTDEV \<and> b_blockno (bcache s ! b) = bn"
  let ?lk = "\<lambda>i. (b_lock (bcache s ! i))\<lparr>sl_locked := True, sl_pid := mypid s\<rparr>"
  have pid: "mypid (upd_buf b f s) = mypid s" for b f
    by (simp add: mypid_def mine_def me_def myproc_def upd_buf_def)
  show ?thesis
  proof (cases "find ?P xs")
    case (Some i)
    then have i: "i < NBUF" "?P i" using st find_SomeD [OF Some] by auto
    have ok_i: "buf_ok s (bcache s ! i)" using inv i by (simp add: bio_inv_def)
    have bo: "buf_of s bn = (if b_refcnt (bcache s ! i) \<noteq> 0 then Some i else None)"
      using bio_inv_cached [OF inv i(1)] i(2) by simp
    have ul: "\<not> sl_locked (b_lock (bcache s ! i))"
      using nl ok_i bo by (auto simp: lk_def buf_ok_def split: if_splits)
    have un: "\<forall>j < NBUF. j \<noteq> i \<and> b_dev (bcache s ! j) = ROOTDEV \<longrightarrow> b_blockno (bcache s ! j) \<noteq> bn"
      using inv i unfolding bio_inv_def by metis
    let ?q = "(bcache s ! i)\<lparr>b_refcnt := b_refcnt (bcache s ! i) + 1, b_lock := ?lk i\<rparr>"
    have "bget ROOTDEV bn s = Ok i (s\<lparr>bcache := (bcache s)[i := ?q]\<rparr>)"
      using Some ul i l pid unfolding bget_def bget_searches [OF xs]
      by (simp add: b_acquire_def acquiresleep_def nth_upd_buf) (simp add: upd_buf_def)
    moreover have "of_nat (rc s bn) = b_refcnt (bcache s ! i)"
      by (simp add: rc_def bo)
    moreover have "b_valid (bcache s ! i) \<longrightarrow> b_data (bcache s ! i) = view s bn"
      using ok_i i by (auto simp: view_def bo buf_ok_def)
    moreover have "0 < rc s bn \<longrightarrow> b_valid (bcache s ! i)"
      using ok_i by (auto simp: rc_def bo buf_ok_def)
    ultimately show ?thesis
      using i un by (intro exI [of _ i] exI [of _ ?q]) simp
  next
    case None
    then have none: "\<not> ?P j" if "j < NBUF" for j using st that by (auto simp: find_None_iff)
    then have bo: "buf_of s bn = None" by (auto simp: buf_of_def find_None_iff)
    then have rc0: "rc s bn = 0" by (simp add: rc_def)
    with ok have "\<exists>i < NBUF. b_refcnt (bcache s ! i) = 0" by (simp add: spare_def)
    then obtain i where fi: "find (\<lambda>b. b_refcnt (bcache s ! b) = 0) (rev xs) = Some i"
      using st by (cases "find (\<lambda>b. b_refcnt (bcache s ! b) = 0) (rev xs)") (auto simp: find_None_iff)
    then have i: "i < NBUF" "b_refcnt (bcache s ! i) = 0"
      using st find_SomeD [OF fi] by auto
    have ok_i: "buf_ok s (bcache s ! i)" using inv i by (simp add: bio_inv_def)
    then have ul: "\<not> sl_locked (b_lock (bcache s ! i))" using i(2) by (auto simp: buf_ok_def)
    let ?q = "(bcache s ! i)\<lparr>b_dev := ROOTDEV, b_blockno := bn, b_valid := False, b_refcnt := 1, b_lock := ?lk i\<rparr>"
    have "bget ROOTDEV bn s = Ok i (s\<lparr>bcache := (bcache s)[i := ?q]\<rparr>)"
      using None fi ul i l pid unfolding bget_def bget_searches [OF xs]
      by (simp add: b_acquire_def acquiresleep_def nth_upd_buf) (simp add: upd_buf_def)
    then show ?thesis
      using i none rc0 by (intro exI [of _ i] exI [of _ ?q]) simp
  qed
qed

lemma rc_0_iff: "rc s bn = 0 \<longleftrightarrow> buf_of s bn = None"
  using buf_of_SomeD(2) by (fastforce simp: rc_def unat_eq_0 split: option.splits)

lemma of_nat_Suc_ne_0: "Suc n < 2 ^ 32 \<Longrightarrow> (of_nat n + 1 :: u32) \<noteq> 0 \<and> unat (of_nat n + 1 :: u32) = Suc n"
proof -
  assume "Suc n < 2 ^ 32"
  then have "unat (of_nat (n + 1) :: u32) = n + 1"
    by (intro unat_of_nat_eq) simp
  then have "unat (of_nat n + 1 :: u32) = Suc n"
    by (simp only: of_nat_add of_nat_1 Suc_eq_plus1)
  moreover from this have "(of_nat n + 1 :: u32) \<noteq> 0" by (metis nat.distinct(1) unsigned_0)
  ultimately show ?thesis by blast
qed

lemma bio_frame_bcache: "woken (procs s) ps \<Longrightarrow>
    bio_frame s (s\<lparr>procs := ps, bcache := bs, vdisk := v, disk := d, disk_writes := w\<rparr>)"
  unfolding bio_frame_def by blast

lemma bio_frame_bufs: "bio_frame s (s\<lparr>bcache := bs\<rparr>)"
  using bio_frame_bcache [where s = s and ps = "procs s" and bs = bs and v = "vdisk s" and d = "disk s"
      and w = "disk_writes s"] by simp

lemma bread_law:
  assumes inv: "bio_inv s" and bn: "bn < 0x80000000" and nl: "\<not> lk s bn"
    and ok: "0 < rc s bn \<or> spare s" and sm: "Suc (rc s bn) < 2 ^ 32"
  shows "\<exists>i t. bread ROOTDEV bn s = Ok i t \<and> bio_inv t \<and> bio_frame s t \<and>
    buf_of t = (buf_of s)(bn := Some i) \<and> rc t = (rc s)(bn := Suc (rc s bn)) \<and> lk t = (lk s)(bn := True) \<and>
    view t = view s \<and> disk t = disk s \<and> disk_writes t = disk_writes s"
proof -
  obtain i q where i: "i < NBUF" and g: "bget ROOTDEV bn s = Ok i (s\<lparr>bcache := (bcache s)[i := q]\<rparr>)"
    and un: "\<forall>j < NBUF. j \<noteq> i \<and> b_dev (bcache s ! j) = ROOTDEV \<longrightarrow> b_blockno (bcache s ! j) \<noteq> bn"
    and old: "b_refcnt (bcache s ! i) = 0 \<or> b_dev (bcache s ! i) = ROOTDEV \<and> b_blockno (bcache s ! i) = bn"
    and ln: "b_next q = b_next (bcache s ! i)" "b_prev q = b_prev (bcache s ! i)"
    and q: "b_dev q = ROOTDEV" "b_blockno q = bn" "b_refcnt q = of_nat (rc s bn) + 1"
      "sl_locked (b_lock q)" "sl_pid (b_lock q) = mypid s"
    and v: "b_valid q \<longrightarrow> b_data q = view s bn" "0 < rc s bn \<longrightarrow> b_valid q"
    using bget_effect [OF inv nl ok] by (elim exE conjE) (rule that)
  obtain xs where xs: "linked (bcache s) xs" using bio_inv_linked [OF inv] by blast
  have l: "length (bcache s) = Suc NBUF" using inv by (rule bio_inv_length)
  have idle: "vdisk_idle (vdisk s)" using inv by (simp add: bio_inv_def)
  note r = of_nat_Suc_ne_0 [OF sm]
  let ?s1 = "s\<lparr>bcache := (bcache s)[i := q]\<rparr>"
  have "\<exists>t q'. bread ROOTDEV bn s = Ok i t \<and> one_buf i q' s t \<and> b_blockno q' = bn \<and>
    b_refcnt q' = b_refcnt q \<and> sl_locked (b_lock q') \<and> b_data q' = view s bn \<and>
    disk t = disk s \<and> disk_writes t = disk_writes s"
  proof (cases "b_valid q")
    case True
    have "bread ROOTDEV bn s = Ok i ?s1"
      using g True i l by (simp add: bread_def)
    moreover have "one_buf i q s ?s1"
      unfolding one_buf_def using i un old q bn r True idle l linked_update [OF xs ln]
      by (auto simp: bio_frame_bufs nth_list_update')
    ultimately show ?thesis using q v True by auto
  next
    case False
    with v(2) have dv: "view s bn = disk s bn" by (simp add: view_def rc_0_iff)
    obtain ps w where rw: "virtio_disk_rw i False ?s1 = Ok () ((disk_read i ?s1)\<lparr>procs := ps, vdisk := w\<rparr>)"
        "vdisk_idle w" "woken (procs s) ps"
      using virtio_rw [of ?s1 i False] idle i l q(2) bn by auto
    let ?q = "q\<lparr>b_data := disk s bn, b_disk := False, b_valid := True\<rparr>"
    let ?t = "s\<lparr>procs := ps, bcache := (bcache s)[i := ?q], vdisk := w, disk := disk s, disk_writes := disk_writes s\<rparr>"
    have fr: "bio_frame s (s\<lparr>procs := ps, bcache := bs, vdisk := w\<rparr>)" for bs
      using bio_frame_bcache [OF rw(3), where bs = bs and v = w and d = "disk s" and w = "disk_writes s"]
      by simp
    have "bread ROOTDEV bn s = Ok i ?t"
      using g False rw(1) i l q(2) by (simp add: bread_def disk_read_def upd_buf_def)
    moreover have "one_buf i ?q s ?t"
      unfolding one_buf_def
      using i un old q bn r rw(2) l linked_update [OF xs, of ?q i] ln
      by (auto simp: nth_list_update' fr)
    ultimately show ?thesis using q dv by (intro exI [of _ ?t] exI [of _ ?q]) simp
  qed
  then obtain t q' where t: "bread ROOTDEV bn s = Ok i t" "one_buf i q' s t" "b_blockno q' = bn"
      "b_refcnt q' = b_refcnt q" "sl_locked (b_lock q')" "b_data q' = view s bn"
      "disk t = disk s" "disk_writes t = disk_writes s"
    by blast
  note e = one_buf_inv [OF inv t(2)] one_buf_of [OF inv t(2)] one_buf_effects [OF inv t(2)]
  have "bio_frame s t" using t(2) by (simp add: one_buf_def)
  with e t q(3) r show ?thesis by (intro exI [of _ i] exI [of _ t]) simp
qed

lemma core_push_front [simp]:
  "length (bcache s) = Suc NBUF \<Longrightarrow> core (bcache (b_push_front b s) ! j) = core (bcache s ! j)"
  "length (bcache (b_push_front b s)) = length (bcache s)"
  by (simp_all add: b_push_front_def Let_def upd_buf_def nth_list_update' core_def)

lemma core_unlink [simp]:
  "length (bcache s) = Suc NBUF \<Longrightarrow> core (bcache (b_unlink b s) ! j) = core (bcache s ! j)"
  "length (bcache (b_unlink b s)) = length (bcache s)"
  by (simp_all add: b_unlink_def Let_def upd_buf_def nth_list_update' core_def)

lemma push_unlink_frame:
  "\<exists>bs. b_push_front b (b_unlink b s) = s\<lparr>bcache := bs\<rparr>"
  by (simp add: b_push_front_def b_unlink_def Let_def upd_buf_def) blast

lemma buf_of_ok:
  assumes "bio_inv s" and "buf_of s bn = Some i"
  shows "buf_ok s (bcache s ! i)" and "i < length (bcache s)"
    and "\<forall>j < NBUF. j \<noteq> i \<and> b_dev (bcache s ! j) = ROOTDEV \<longrightarrow> b_blockno (bcache s ! j) \<noteq> bn"
    and "b_blockno (bcache s ! i) < 0x80000000" and "b_valid (bcache s ! i)"
proof -
  note d = buf_of_SomeD [OF assms(2)]
  show ok: "buf_ok s (bcache s ! i)" using assms(1) d(1) by (simp add: bio_inv_def)
  then show "b_blockno (bcache s ! i) < 0x80000000" "b_valid (bcache s ! i)"
    using d by (auto simp: buf_ok_def)
  show "i < length (bcache s)" using bio_inv_length [OF assms(1)] d(1) by simp
  show "\<forall>j < NBUF. j \<noteq> i \<and> b_dev (bcache s ! j) = ROOTDEV \<longrightarrow> b_blockno (bcache s ! j) \<noteq> bn"
    using assms(1) d unfolding bio_inv_def by metis
qed

text \<open>A change of the fields of a buffer in use that keeps it in use or leaves it clean.\<close>

lemma one_buf_upd:
  assumes inv: "bio_inv s" and bo: "buf_of s bn = Some i"
    and q: "b_next q = b_next (bcache s ! i)" "b_prev q = b_prev (bcache s ! i)" "b_dev q = ROOTDEV"
      "b_blockno q = bn" "b_valid q"
      "sl_locked (b_lock q) \<longrightarrow> b_refcnt q \<noteq> 0 \<and> sl_pid (b_lock q) = mypid s"
      "b_refcnt q = 0 \<longrightarrow> b_data q = disk s bn"
  shows "one_buf i q s (s\<lparr>bcache := (bcache s)[i := q]\<rparr>)"
proof -
  obtain xs where "linked (bcache s) xs" using bio_inv_linked [OF inv] by blast
  then have "\<exists>xs. linked ((bcache s)[i := q]) xs" using linked_update q(1,2) by blast
  moreover have "vdisk_idle (vdisk s)" using inv by (simp add: bio_inv_def)
  ultimately show ?thesis
    unfolding one_buf_def using buf_of_SomeD [OF bo] buf_of_ok [OF inv bo] q
    by (simp add: bio_frame_bufs nth_list_update')
qed

lemma modify_law:
  assumes inv: "bio_inv s" and bo: "buf_of s bn = Some i"
  shows "bio_inv (set_bdata i d s)" and "bio_frame s (set_bdata i d s)"
    and "buf_of (set_bdata i d s) = buf_of s" and "rc (set_bdata i d s) = rc s" and "lk (set_bdata i d s) = lk s" and "view (set_bdata i d s) = (view s)(bn := d)"
    and "disk (set_bdata i d s) = disk s" and "disk_writes (set_bdata i d s) = disk_writes s"
proof -
  let ?t = "set_bdata i d s"
  let ?q = "(bcache s ! i)\<lparr>b_data := d\<rparr>"
  note k = buf_of_SomeD [OF bo] buf_of_ok [OF inv bo]
  have ob: "one_buf i ?q s ?t"
    unfolding set_bdata_def upd_buf_def using k by (intro one_buf_upd [OF inv bo]) (auto simp: buf_ok_def)
  show "bio_inv ?t" by (rule one_buf_inv [OF inv ob])
  show "bio_frame s ?t" using ob by (simp add: one_buf_def)
  show "buf_of ?t = buf_of s" using one_buf_of [OF inv ob] k bo by auto
  show "rc ?t = rc s" using one_buf_effects(1) [OF inv ob] k bo by (auto simp: rc_def fun_upd_idem_iff)
  show "lk ?t = lk s" using one_buf_effects(2) [OF inv ob] k bo by (auto simp: lk_def fun_upd_idem_iff)
  show "view ?t = (view s)(bn := d)" using one_buf_effects(3) [OF inv ob] k by simp
  show "disk ?t = disk s" "disk_writes ?t = disk_writes s" by (simp_all add: set_bdata_def upd_buf_def)
qed

lemma bpin_law:
  assumes inv: "bio_inv s" and bo: "buf_of s bn = Some i" and sm: "Suc (rc s bn) < 2 ^ 32"
  shows "bio_inv (bpin i s)" and "bio_frame s (bpin i s)"
    and "buf_of (bpin i s) = buf_of s" and "rc (bpin i s) = (rc s)(bn := Suc (rc s bn))" and "lk (bpin i s) = lk s"
    and "view (bpin i s) = view s" and "disk (bpin i s) = disk s" and "disk_writes (bpin i s) = disk_writes s"
proof -
  let ?t = "bpin i s"
  let ?q = "(bcache s ! i)\<lparr>b_refcnt := b_refcnt (bcache s ! i) + 1\<rparr>"
  note k = buf_of_SomeD [OF bo] buf_of_ok [OF inv bo]
  have "of_nat (rc s bn) = b_refcnt (bcache s ! i)" by (simp add: rc_def bo)
  then have r: "b_refcnt (bcache s ! i) + 1 \<noteq> 0" "unat (b_refcnt (bcache s ! i) + 1) = Suc (rc s bn)"
    using of_nat_Suc_ne_0 [OF sm] by simp_all
  have ob: "one_buf i ?q s ?t"
    unfolding bpin_def upd_buf_def using k r by (intro one_buf_upd [OF inv bo]) (auto simp: buf_ok_def)
  show "bio_inv ?t" by (rule one_buf_inv [OF inv ob])
  show "bio_frame s ?t" using ob by (simp add: one_buf_def)
  show "buf_of ?t = buf_of s" using one_buf_of [OF inv ob] k bo r by auto
  show "rc ?t = (rc s)(bn := Suc (rc s bn))" using one_buf_effects(1) [OF inv ob] k r by simp
  show "lk ?t = lk s" using one_buf_effects(2) [OF inv ob] k bo by (auto simp: lk_def fun_upd_idem_iff)
  show "view ?t = view s" using one_buf_effects(3) [OF inv ob] k bo by (auto simp: view_def fun_upd_idem_iff)
  show "disk ?t = disk s" "disk_writes ?t = disk_writes s" by (simp_all add: bpin_def upd_buf_def)
qed

lemma bunpin_law:
  assumes inv: "bio_inv s" and bo: "buf_of s bn = Some i" and gt: "1 < rc s bn"
  shows "bio_inv (bunpin i s)" and "bio_frame s (bunpin i s)"
    and "buf_of (bunpin i s) = buf_of s" and "rc (bunpin i s) = (rc s)(bn := rc s bn - 1)" and "lk (bunpin i s) = lk s"
    and "view (bunpin i s) = view s" and "disk (bunpin i s) = disk s" and "disk_writes (bunpin i s) = disk_writes s"
proof -
  let ?t = "bunpin i s"
  let ?q = "(bcache s ! i)\<lparr>b_refcnt := b_refcnt (bcache s ! i) - 1\<rparr>"
  note k = buf_of_SomeD [OF bo] buf_of_ok [OF inv bo]
  have g: "1 < unat (b_refcnt (bcache s ! i))" using gt by (simp add: rc_def bo)
  then have u: "unat (b_refcnt (bcache s ! i) - 1) = rc s bn - 1"
    using unat_diff_no_wrap [of 1 "b_refcnt (bcache s ! i)"] by (simp add: rc_def bo word_le_nat_alt)
  then have r: "b_refcnt (bcache s ! i) - 1 \<noteq> 0" using gt by (metis unsigned_0 not_less_iff_gr_or_eq zero_less_diff)
  have ob: "one_buf i ?q s ?t"
    unfolding bunpin_def upd_buf_def using k r by (intro one_buf_upd [OF inv bo]) (auto simp: buf_ok_def)
  show "bio_inv ?t" by (rule one_buf_inv [OF inv ob])
  show "bio_frame s ?t" using ob by (simp add: one_buf_def)
  show "buf_of ?t = buf_of s" using one_buf_of [OF inv ob] k bo r by auto
  show "rc ?t = (rc s)(bn := rc s bn - 1)" using one_buf_effects(1) [OF inv ob] k u by simp
  show "lk ?t = lk s" using one_buf_effects(2) [OF inv ob] k bo by (auto simp: lk_def fun_upd_idem_iff)
  show "view ?t = view s" using one_buf_effects(3) [OF inv ob] k bo by (auto simp: view_def fun_upd_idem_iff)
  show "disk ?t = disk s" "disk_writes ?t = disk_writes s" by (simp_all add: bunpin_def upd_buf_def)
qed

lemma bwrite_law:
  assumes inv: "bio_inv s" and bo: "buf_of s bn = Some i" and lk: "lk s bn"
  shows "\<exists>t. bwrite i s = Ok () t \<and> bio_inv t \<and> bio_frame s t \<and> buf_of t = buf_of s \<and> rc t = rc s \<and>
    lk t = lk s \<and> view t = view s \<and> disk t = (disk s)(bn := view s bn) \<and>
    disk_writes t = disk_writes s @ [(bn, view s bn)]"
proof -
  note k = buf_of_SomeD [OF bo] buf_of_ok [OF inv bo]
  have h: "holdingsleep (mypid s) (b_lock (bcache s ! i))"
    using lk bo k(5) by (simp add: lk_def holdingsleep_def buf_ok_def)
  have idle: "vdisk_idle (vdisk s)" using inv by (simp add: bio_inv_def)
  obtain ps w where rw: "virtio_disk_rw i True s = Ok () ((disk_write i s)\<lparr>procs := ps, vdisk := w\<rparr>)"
      "vdisk_idle w" "woken (procs s) ps"
    using virtio_rw [OF idle k(6,8), of True] by auto
  let ?q = "(bcache s ! i)\<lparr>b_disk := False\<rparr>"
  let ?t = "s\<lparr>procs := ps, bcache := (bcache s)[i := ?q], vdisk := w,
    disk := (disk s)(bn := b_data (bcache s ! i)), disk_writes := disk_writes s @ [(bn, b_data (bcache s ! i))]\<rparr>"
  have v: "b_data (bcache s ! i) = view s bn" using bo by (simp add: view_def)
  have w: "bwrite i s = Ok () ?t"
    using h rw(1) k(4) by (simp add: bwrite_def disk_write_def upd_buf_def Let_def)
  obtain xs where "linked (bcache s) xs" using bio_inv_linked [OF inv] by blast
  then have "linked ((bcache s)[i := ?q]) xs" by (rule linked_update) simp_all
  then have ob: "one_buf i ?q s ?t"
    unfolding one_buf_def using bio_frame_bcache [OF rw(3)] rw(2) k
    by (auto simp: nth_list_update' buf_ok_def)
  note e = one_buf_of [OF inv ob] one_buf_effects [OF inv ob]
  show ?thesis
  proof (intro exI [of _ ?t] conjI)
    show "bwrite i s = Ok () ?t" by (rule w)
    show "bio_inv ?t" by (rule one_buf_inv [OF inv ob])
    show "bio_frame s ?t" using bio_frame_bcache [OF rw(3)] .
    show "buf_of ?t = buf_of s" using e(1) k bo by (auto simp: fun_upd_idem_iff)
    show "rc ?t = rc s" using e(2) k bo by (auto simp: rc_def fun_upd_idem_iff)
    show "lk ?t = lk s" using e(3) k bo by (auto simp: lk_def fun_upd_idem_iff)
    show "view ?t = view s" using e(4) k bo by (auto simp: view_def fun_upd_idem_iff)
  qed (simp_all add: v)
qed

lemma brelse_law:
  assumes inv: "bio_inv s" and bo: "buf_of s bn = Some i" and lk: "lk s bn"
    and cl: "1 < rc s bn \<or> view s bn = disk s bn"
  shows "\<exists>t. brelse i s = Ok () t \<and> bio_inv t \<and> bio_frame s t \<and>
    buf_of t = (buf_of s)(bn := (if rc s bn = 1 then None else Some i)) \<and> rc t = (rc s)(bn := rc s bn - 1) \<and>
    lk t = (lk s)(bn := False) \<and> view t = view s \<and> disk t = disk s \<and> disk_writes t = disk_writes s"
proof -
  note k = buf_of_SomeD [OF bo] buf_of_ok [OF inv bo]
  have l: "length (bcache s) = Suc NBUF" using inv by (rule bio_inv_length)
  have h: "holdingsleep (mypid s) (b_lock (bcache s ! i))"
    using lk bo k(5) by (simp add: lk_def holdingsleep_def buf_ok_def)
  let ?r = "b_refcnt (bcache s ! i)"
  let ?q = "(bcache s ! i)\<lparr>b_lock := releasesleep (b_lock (bcache s ! i)), b_refcnt := ?r - 1\<rparr>"
  have v: "b_data (bcache s ! i) = view s bn" and rcs: "rc s bn = unat ?r"
    using bo by (simp_all add: view_def rc_def)
  have u: "unat (?r - 1) = rc s bn - 1"
    using k(2) unat_diff_no_wrap [of 1 ?r] by (simp add: rcs word_le_nat_alt unat_gt_0 Suc_le_eq)
  have r0: "?r - 1 = 0 \<longleftrightarrow> rc s bn = 1"
    by (metis rcs unsigned_1 word_unat_eq_iff right_minus_eq)
  have cd: "?r - 1 = 0 \<longrightarrow> b_data (bcache s ! i) = disk s bn"
    using cl r0 v by auto
  obtain ps where ps: "wakeup (BufLockChan i) (upd_buf i (\<lambda>q. q\<lparr>b_lock := releasesleep (b_lock q)\<rparr>) s)
      = (upd_buf i (\<lambda>q. q\<lparr>b_lock := releasesleep (b_lock q)\<rparr>) s)\<lparr>procs := ps\<rparr>" "woken (procs s) ps"
    using wakeup_woken [of "BufLockChan i" "upd_buf i (\<lambda>q. q\<lparr>b_lock := releasesleep (b_lock q)\<rparr>) s"]
    by (auto simp: upd_buf_def)
  let ?s1 = "s\<lparr>procs := ps, bcache := (bcache s)[i := ?q]\<rparr>"
  define t where "t = (if ?r - 1 = 0 then b_push_front i (b_unlink i ?s1) else ?s1)"
  have br: "brelse i s = Ok () t"
    unfolding brelse_def Let_def ps(1) t_def using h k(6) by (simp add: upd_buf_def)
  obtain xs where xs: "linked (bcache s) xs" using bio_inv_linked [OF inv] by blast
  then have lk1: "linked (bcache ?s1) xs" by (auto intro!: linked_update)
  have "i \<in> set xs" using xs k(1) by (auto simp: linked_def)
  then obtain as bs where "xs = as @ i # bs" by (meson split_list)
  then have lt: "\<exists>xs. linked (bcache t) xs"
    using lk1 linked_move_front [of ?s1 as i bs] by (auto simp: t_def)
  have "\<exists>cs. t = s\<lparr>procs := ps, bcache := cs\<rparr>"
  proof (cases "?r - 1 = 0")
    case True
    then show ?thesis using push_unlink_frame [of i ?s1] by (auto simp: t_def)
  qed (auto simp: t_def)
  then obtain cs where tb: "t = s\<lparr>procs := ps, bcache := cs\<rparr>" by blast
  have ct: "core (bcache t ! j) = core (if j = i then ?q else bcache s ! j)" if "j < NBUF" for j
    using l that k(1) by (simp add: t_def nth_list_update')
  have fr: "bio_frame s t"
    using bio_frame_bcache [OF ps(2), where bs = cs and v = "vdisk s" and d = "disk s" and w = "disk_writes s"]
    by (simp add: tb)
  have "vdisk_idle (vdisk t)" "disk t = disk s" using inv by (simp_all add: bio_inv_def tb)
  with fr lt ct cd k have ob: "one_buf i ?q s t"
    unfolding one_buf_def by (auto simp: buf_ok_def releasesleep_def)
  note e = one_buf_of [OF inv ob] one_buf_effects [OF inv ob]
  show ?thesis
  proof (intro exI [of _ t] conjI)
    show "brelse i s = Ok () t" by (rule br)
    show "bio_inv t" by (rule one_buf_inv [OF inv ob])
    show "bio_frame s t" by (rule fr)
    show "buf_of t = (buf_of s)(bn := (if rc s bn = 1 then None else Some i))" using e(1) k(4) r0 by simp
    show "rc t = (rc s)(bn := rc s bn - 1)" using e(2) k(4) u by simp
    show "lk t = (lk s)(bn := False)" using e(3) k(4) by (simp add: releasesleep_def)
    show "view t = view s" using e(4) k(4) v by (simp add: fun_upd_idem_iff)
  qed (simp_all add: tb)
qed

lemma spareI:
  assumes inv: "bio_inv s" and c: "card {bn. 0 < rc s bn} < NBUF"
  shows "spare s"
proof (rule ccontr)
  assume "\<not> spare s"
  then have u: "b_refcnt (bcache s ! i) \<noteq> 0" if "i < NBUF" for i
    using that by (auto simp: spare_def)
  let ?f = "\<lambda>i. b_blockno (bcache s ! i)"
  have d: "b_dev (bcache s ! i) = ROOTDEV" if "i < NBUF" for i
    using inv u [OF that] that by (auto simp: bio_inv_def buf_ok_def)
  have "inj_on ?f {..<NBUF}"
    using inv d unfolding bio_inv_def inj_on_def by auto
  moreover have "?f ` {..<NBUF} = {bn. 0 < rc s bn}"
  proof (intro equalityI subsetI)
    fix bn assume "bn \<in> ?f ` {..<NBUF}"
    then obtain i where "i < NBUF" "?f i = bn" by auto
    then have "buf_of s bn = Some i" using bio_inv_cached [OF inv _ d] u by auto
    then show "bn \<in> {bn. 0 < rc s bn}" using rc_0_iff [of s bn] by auto
  next
    fix bn assume "bn \<in> {bn. 0 < rc s bn}"
    then obtain i where "buf_of s bn = Some i" using rc_0_iff [of s bn] by auto
    then show "bn \<in> ?f ` {..<NBUF}" using buf_of_SomeD [of s bn i] by auto
  qed
  ultimately have "card {bn. 0 < rc s bn} = NBUF"
    using card_image [of ?f "{..<NBUF}"] by simp
  with c show False by simp
qed

section \<open>The contract of a block cache\<close>

text \<open>
  A cache of \<open>cap\<close> blocks over a disk, as the log and the file system use it. A block is got and
  released; while it is held its contents can be changed and written through; a pinned block stays
  cached. A block nobody references has the contents the disk has.
\<close>

locale block_cache =
  fixes get :: "u32 \<Rightarrow> 's \<Rightarrow> (nat, 's) res"
    and rel :: "nat \<Rightarrow> 's \<Rightarrow> (unit, 's) res"
    and wr :: "nat \<Rightarrow> 's \<Rightarrow> (unit, 's) res"
    and put :: "nat \<Rightarrow> u8 list \<Rightarrow> 's \<Rightarrow> 's"
    and unpin :: "nat \<Rightarrow> 's \<Rightarrow> 's"
    and dat :: "nat \<Rightarrow> 's \<Rightarrow> u8 list"
    and cap :: nat
    and inv :: "'s \<Rightarrow> bool"
    and frame :: "'s \<Rightarrow> 's \<Rightarrow> bool"
    and own :: "'s \<Rightarrow> u32 \<Rightarrow> nat option"
    and refs :: "'s \<Rightarrow> u32 \<Rightarrow> nat"
    and held :: "'s \<Rightarrow> u32 \<Rightarrow> bool"
    and cur :: "'s \<Rightarrow> u32 \<Rightarrow> u8 list"
    and dsk :: "'s \<Rightarrow> u32 \<Rightarrow> u8 list"
    and hist :: "'s \<Rightarrow> (u32 \<times> u8 list) list"
  assumes get_ok: "inv s \<Longrightarrow> bn < 0x80000000 \<Longrightarrow> \<not> held s bn \<Longrightarrow>
      0 < refs s bn \<or> card {b. 0 < refs s b} < cap \<Longrightarrow> Suc (refs s bn) < 2 ^ 32 \<Longrightarrow>
      \<exists>i t. get bn s = Ok i t \<and> inv t \<and> frame s t \<and> own t = (own s)(bn := Some i) \<and>
        refs t = (refs s)(bn := Suc (refs s bn)) \<and> held t = (held s)(bn := True) \<and>
        cur t = cur s \<and> dsk t = dsk s \<and> hist t = hist s"
    and rel_ok: "inv s \<Longrightarrow> own s bn = Some i \<Longrightarrow> held s bn \<Longrightarrow> 1 < refs s bn \<or> cur s bn = dsk s bn \<Longrightarrow>
      \<exists>t. rel i s = Ok () t \<and> inv t \<and> frame s t \<and>
        own t = (own s)(bn := (if refs s bn = 1 then None else Some i)) \<and>
        refs t = (refs s)(bn := refs s bn - 1) \<and> held t = (held s)(bn := False) \<and>
        cur t = cur s \<and> dsk t = dsk s \<and> hist t = hist s"
    and wr_ok: "inv s \<Longrightarrow> own s bn = Some i \<Longrightarrow> held s bn \<Longrightarrow>
      \<exists>t. wr i s = Ok () t \<and> inv t \<and> frame s t \<and> own t = own s \<and> refs t = refs s \<and> held t = held s \<and>
        cur t = cur s \<and> dsk t = (dsk s)(bn := cur s bn) \<and> hist t = hist s @ [(bn, cur s bn)]"
    and put_ok: "inv s \<Longrightarrow> own s bn = Some i \<Longrightarrow>
      inv (put i d s) \<and> frame s (put i d s) \<and> own (put i d s) = own s \<and> refs (put i d s) = refs s \<and>
      held (put i d s) = held s \<and> cur (put i d s) = (cur s)(bn := d) \<and> dsk (put i d s) = dsk s \<and>
      hist (put i d s) = hist s"
    and unpin_ok: "inv s \<Longrightarrow> own s bn = Some i \<Longrightarrow> 1 < refs s bn \<Longrightarrow>
      inv (unpin i s) \<and> frame s (unpin i s) \<and> own (unpin i s) = own s \<and>
      refs (unpin i s) = (refs s)(bn := refs s bn - 1) \<and> held (unpin i s) = held s \<and>
      cur (unpin i s) = cur s \<and> dsk (unpin i s) = dsk s \<and> hist (unpin i s) = hist s"
    and dat_own: "own s bn = Some i \<Longrightarrow> dat i s = cur s bn"
    and unref_clean: "refs s bn = 0 \<Longrightarrow> cur s bn = dsk s bn"
    and unref_own: "refs s bn = 0 \<longleftrightarrow> own s bn = None"
    and frame_trans: "frame s t \<Longrightarrow> frame t u \<Longrightarrow> frame s u"
begin

text \<open>A block that nobody holds can be got: there is room, and its count does not overflow.\<close>

definition can_get :: "'s \<Rightarrow> u32 \<Rightarrow> bool" where
  "can_get s bn \<longleftrightarrow> inv s \<and> bn < 0x80000000 \<and> \<not> held s bn \<and>
     (0 < refs s bn \<or> card {b. 0 < refs s b} < cap) \<and> Suc (refs s bn) < 2 ^ 32"

text \<open>Reading a block and releasing it leaves the cache as it was.\<close>

lemma get_rel:
  assumes "can_get s bn"
  shows "\<exists>i t u. get bn s = Ok i t \<and> dat i t = cur s bn \<and> frame s t \<and> rel i t = Ok () u \<and> inv u \<and> frame s u \<and>
    refs u = refs s \<and> held u = held s \<and> cur u = cur s \<and> dsk u = dsk s \<and> hist u = hist s"
proof -
  obtain i t where t: "get bn s = Ok i t" "inv t" "frame s t" "own t = (own s)(bn := Some i)"
      "refs t = (refs s)(bn := Suc (refs s bn))" "held t = (held s)(bn := True)"
      "cur t = cur s" "dsk t = dsk s" "hist t = hist s"
    using assms get_ok unfolding can_get_def by blast
  have o: "own t bn = Some i" "held t bn" by (simp_all add: t)
  have "1 < refs t bn \<or> cur t bn = dsk t bn"
    using unref_clean [of s bn] by (auto simp: t)
  then obtain u where u: "rel i t = Ok () u" "inv u" "frame t u" "refs u = (refs t)(bn := refs t bn - 1)"
      "held u = (held t)(bn := False)" "cur u = cur t" "dsk u = dsk t" "hist u = hist t"
    using rel_ok [OF t(2) o] by blast
  have nh: "\<not> held s bn" using assms by (simp add: can_get_def)
  show ?thesis
    using t u dat_own [OF o(1)] frame_trans [OF t(3) u(3)] nh
    by (intro exI [of _ i] exI [of _ t] exI [of _ u]) (auto simp: fun_upd_idem_iff)
qed

text \<open>Changing a block and writing it through: one disk write.\<close>

lemma get_put_wr_rel:
  assumes "can_get s bn"
  shows "\<exists>i t u v. get bn s = Ok i t \<and> dat i t = cur s bn \<and> frame s t \<and> wr i (put i d t) = Ok () u \<and> rel i u = Ok () v \<and>
    inv v \<and> frame s v \<and> refs v = refs s \<and> held v = held s \<and>
    cur v = (cur s)(bn := d) \<and> dsk v = (dsk s)(bn := d) \<and> hist v = hist s @ [(bn, d)]"
proof -
  obtain i t where t: "get bn s = Ok i t" "inv t" "frame s t" "own t = (own s)(bn := Some i)"
      "refs t = (refs s)(bn := Suc (refs s bn))" "held t = (held s)(bn := True)"
      "cur t = cur s" "dsk t = dsk s" "hist t = hist s"
    using assms get_ok unfolding can_get_def by blast
  have o: "own t bn = Some i" by (simp add: t)
  note p = put_ok [OF t(2) o, of d]
  have "own (put i d t) bn = Some i" "held (put i d t) bn" using p by (simp_all add: t)
  then obtain u where u: "wr i (put i d t) = Ok () u" "inv u" "frame (put i d t) u" "own u = own t"
      "refs u = refs t" "held u = held t" "cur u = (cur s)(bn := d)" "dsk u = (dsk s)(bn := d)"
      "hist u = hist s @ [(bn, d)]"
    using wr_ok [of "put i d t" bn i] p by (auto simp: t)
  have "own u bn = Some i" "held u bn" "1 < refs u bn \<or> cur u bn = dsk u bn" by (simp_all add: u t)
  then obtain v where v: "rel i u = Ok () v" "inv v" "frame u v" "refs v = (refs u)(bn := refs u bn - 1)"
      "held v = (held u)(bn := False)" "cur v = cur u" "dsk v = dsk u" "hist v = hist u"
    using rel_ok [OF u(2)] by blast
  have fr: "frame s v" using t(3) p u(3) v(3) frame_trans by blast
  have nh: "\<not> held s bn" using assms by (simp add: can_get_def)
  show ?thesis
    using t(1,3) u(1) v fr dat_own [OF o] nh
    by (intro exI [of _ i] exI [of _ t] exI [of _ u] exI [of _ v]) (auto simp: u t fun_upd_idem_iff)
qed

text \<open>Getting two blocks, the second of them in use already.\<close>

lemma get_get:
  assumes "can_get s a" and "can_get s b" and "a \<noteq> b"
    and "0 < refs s b \<or> card {x. 0 < refs s x} + 1 < cap"
  shows "\<exists>i j t u. get a s = Ok i t \<and> get b t = Ok j u \<and> inv u \<and> frame s u \<and>
    own u = (own s)(a := Some i, b := Some j) \<and> refs u = (refs s)(a := Suc (refs s a), b := Suc (refs s b)) \<and>
    held u = (held s)(a := True, b := True) \<and> cur u = cur s \<and> dsk u = dsk s \<and> hist u = hist s"
proof -
  obtain i t where t: "get a s = Ok i t" "inv t" "frame s t" "own t = (own s)(a := Some i)"
      "refs t = (refs s)(a := Suc (refs s a))" "held t = (held s)(a := True)"
      "cur t = cur s" "dsk t = dsk s" "hist t = hist s"
    using assms(1) get_ok unfolding can_get_def by blast
  have "{x. 0 < refs t x} = insert a {x. 0 < refs s x}" by (auto simp: t)
  then have "card {x. 0 < refs t x} \<le> Suc (card {x. 0 < refs s x})"
    by (simp add: card_insert_if)
  moreover have "refs t b = refs s b" using assms(3) by (simp add: t)
  ultimately have c: "0 < refs t b \<or> card {x. 0 < refs t x} < cap"
    using assms(4) by linarith
  have "b < 0x80000000" "\<not> held t b" "Suc (refs t b) < 2 ^ 32"
    using assms(2,3) by (auto simp: can_get_def t)
  then obtain j u where u: "get b t = Ok j u" "inv u" "frame t u" "own u = (own t)(b := Some j)"
      "refs u = (refs t)(b := Suc (refs t b))" "held u = (held t)(b := True)"
      "cur u = cur t" "dsk u = dsk t" "hist u = hist t"
    using get_ok [OF t(2) _ _ c] by blast
  show ?thesis
    using t(1) u(1,2) frame_trans [OF t(3) u(3)] assms(3)
    by (intro exI [of _ i] exI [of _ j] exI [of _ t] exI [of _ u]) (simp add: u t)
qed

text \<open>Releasing two blocks that have other references or are clean.\<close>

lemma rel_rel:
  assumes "inv s" and "own s a = Some i" and "own s b = Some j" and "a \<noteq> b" and "held s a" and "held s b"
    and "1 < refs s a \<or> cur s a = dsk s a" and "1 < refs s b \<or> cur s b = dsk s b"
  shows "\<exists>t u. rel i s = Ok () t \<and> rel j t = Ok () u \<and> inv u \<and> frame s u \<and>
    refs u = (refs s)(a := refs s a - 1, b := refs s b - 1) \<and> held u = (held s)(a := False, b := False) \<and>
    cur u = cur s \<and> dsk u = dsk s \<and> hist u = hist s"
proof -
  obtain t where t: "rel i s = Ok () t" "inv t" "frame s t"
      "own t = (own s)(a := (if refs s a = 1 then None else Some i))" "refs t = (refs s)(a := refs s a - 1)"
      "held t = (held s)(a := False)" "cur t = cur s" "dsk t = dsk s" "hist t = hist s"
    using rel_ok [OF assms(1,2,5,7)] by blast
  have "own t b = Some j" "held t b" "1 < refs t b \<or> cur t b = dsk t b"
    using assms by (simp_all add: t)
  then obtain u where u: "rel j t = Ok () u" "inv u" "frame t u" "refs u = (refs t)(b := refs t b - 1)"
      "held u = (held t)(b := False)" "cur u = cur t" "dsk u = dsk t" "hist u = hist t"
    using rel_ok [OF t(2)] by blast
  show ?thesis
    using t(1) u(1,2) frame_trans [OF t(3) u(3)] assms(4)
    by (intro exI [of _ t] exI [of _ u]) (simp add: u t)
qed

text \<open>Copying a block in use to another block of the disk.\<close>

lemma copy_to:
  assumes "can_get s a" and "can_get s b" and "a \<noteq> b" and "0 < refs s b"
  shows "\<exists>v. bind (get a s) (\<lambda>i s. bind (get b s) (\<lambda>j s.
      bind (wr i (put i (dat j s) s)) (\<lambda>_ s. bind (rel j s) (\<lambda>_ s. rel i s)))) = Ok () v \<and>
    inv v \<and> frame s v \<and> refs v = refs s \<and> held v = held s \<and> cur v = (cur s)(a := cur s b) \<and>
    dsk v = (dsk s)(a := cur s b) \<and> hist v = hist s @ [(a, cur s b)]"
proof -
  obtain i j t u where u: "get a s = Ok i t" "get b t = Ok j u" "inv u" "frame s u"
      "own u = (own s)(a := Some i, b := Some j)" "refs u = (refs s)(a := Suc (refs s a), b := Suc (refs s b))"
      "held u = (held s)(a := True, b := True)" "cur u = cur s" "dsk u = dsk s" "hist u = hist s"
    using get_get [OF assms(1-3)] assms(4) by blast
  have oa: "own u a = Some i" and ob: "own u b = Some j" using assms(3) by (simp_all add: u)
  have d: "dat j u = cur s b" using dat_own [OF ob] by (simp add: u)
  note p = put_ok [OF u(3) oa, of "cur s b"]
  let ?p = "put i (cur s b) u"
  have "own ?p a = Some i" "held ?p a" using p oa assms(3) by (simp_all add: u)
  then obtain w where w: "wr i ?p = Ok () w" "inv w" "frame ?p w" "own w = own u" "refs w = refs u"
      "held w = held u" "cur w = (cur s)(a := cur s b)" "dsk w = (dsk s)(a := cur s b)"
      "hist w = hist s @ [(a, cur s b)]"
    using wr_ok [of ?p a i] p by (auto simp: u)
  have "own w b = Some j" "own w a = Some i" "held w b" "held w a" "1 < refs w b \<or> cur w b = dsk w b"
      "1 < refs w a \<or> cur w a = dsk w a"
    using oa ob assms(3,4) by (simp_all add: w u)
  then obtain x v where v: "rel j w = Ok () x" "rel i x = Ok () v" "inv v" "frame w v"
      "refs v = (refs w)(b := refs w b - 1, a := refs w a - 1)" "held v = (held w)(b := False, a := False)"
      "cur v = cur w" "dsk v = dsk w" "hist v = hist w"
    using rel_rel [OF w(2), of b j a i] assms(3) by blast
  have fr: "frame s v" using u(4) p w(3) v(4) frame_trans by blast
  have nh: "\<not> held s a" "\<not> held s b" using assms(1,2) by (simp_all add: can_get_def)
  show ?thesis
    using u(1,2) w(1) v fr nh assms(3) d
    by (intro exI [of _ v]) (auto simp: u w fun_eq_iff)
qed

text \<open>Copying one block of the disk to another, which loses a pin or not.\<close>

lemma copy_from:
  assumes "can_get s a" and "can_get s b" and "a \<noteq> b" and "0 < refs s b \<or> card {x. 0 < refs s x} + 1 < cap"
    and "pinned \<Longrightarrow> 0 < refs s b"
  shows "\<exists>v. bind (get a s) (\<lambda>i s. bind (get b s) (\<lambda>j s.
      bind (wr j (put j (dat i s) s)) (\<lambda>_ s.
      let s = (if pinned then unpin j s else s) in bind (rel i s) (\<lambda>_ s. rel j s)))) = Ok () v \<and>
    inv v \<and> frame s v \<and> refs v = (if pinned then (refs s)(b := refs s b - 1) else refs s) \<and> held v = held s \<and>
    cur v = (cur s)(b := cur s a) \<and> dsk v = (dsk s)(b := cur s a) \<and> hist v = hist s @ [(b, cur s a)]"
proof -
  obtain i j t u where u: "get a s = Ok i t" "get b t = Ok j u" "inv u" "frame s u"
      "own u = (own s)(a := Some i, b := Some j)" "refs u = (refs s)(a := Suc (refs s a), b := Suc (refs s b))"
      "held u = (held s)(a := True, b := True)" "cur u = cur s" "dsk u = dsk s" "hist u = hist s"
    using get_get [OF assms(1-4)] by blast
  have oa: "own u a = Some i" and ob: "own u b = Some j" using assms(3) by (simp_all add: u)
  have d: "dat i u = cur s a" using dat_own [OF oa] by (simp add: u)
  note p = put_ok [OF u(3) ob, of "cur s a"]
  let ?p = "put j (cur s a) u"
  have "own ?p b = Some j" "held ?p b" using p ob by (simp_all add: u)
  then obtain w where w: "wr j ?p = Ok () w" "inv w" "frame ?p w" "own w = own u" "refs w = refs u"
      "held w = held u" "cur w = (cur s)(b := cur s a)" "dsk w = (dsk s)(b := cur s a)"
      "hist w = hist s @ [(b, cur s a)]"
    using wr_ok [of ?p b j] p by (auto simp: u)
  define x where "x = (if pinned then unpin j w else w)"
  have x: "inv x" "frame s x" "own x = own w" "refs x = (if pinned then (refs w)(b := refs w b - 1) else refs w)"
      "held x = held w" "cur x = cur w" "dsk x = dsk w" "hist x = hist w"
  proof -
    have fw: "frame s w" using u(4) p w(3) frame_trans by blast
    have "inv x \<and> frame s x \<and> own x = own w \<and> refs x = (if pinned then (refs w)(b := refs w b - 1) else refs w) \<and>
      held x = held w \<and> cur x = cur w \<and> dsk x = dsk w \<and> hist x = hist w"
    proof (cases pinned)
      case True
      then have "own w b = Some j" "1 < refs w b" using assms(5) ob by (simp_all add: w u)
      with unpin_ok [OF w(2)] fw frame_trans True show ?thesis by (auto simp: x_def)
    qed (use w fw in \<open>simp add: x_def\<close>)
    then show "inv x" "frame s x" "own x = own w" "refs x = (if pinned then (refs w)(b := refs w b - 1) else refs w)"
      "held x = held w" "cur x = cur w" "dsk x = dsk w" "hist x = hist w" by blast+
  qed
  have "own x a = Some i" "own x b = Some j" "held x a" "held x b" "1 < refs x a \<or> cur x a = dsk x a"
      "1 < refs x b \<or> cur x b = dsk x b"
    using oa ob assms(3) unref_clean [of s a] by (auto simp: x w u)
  then obtain y v where v: "rel i x = Ok () y" "rel j y = Ok () v" "inv v" "frame x v"
      "refs v = (refs x)(a := refs x a - 1, b := refs x b - 1)" "held v = (held x)(a := False, b := False)"
      "cur v = cur x" "dsk v = dsk x" "hist v = hist x"
    using rel_rel [OF x(1), of a i b j] assms(3) by blast
  have nh: "\<not> held s a" "\<not> held s b" using assms(1,2) by (simp_all add: can_get_def)
  show ?thesis
    using u(1,2) w(1) v frame_trans [OF x(2) v(4)] nh assms(3) d
    by (intro exI [of _ v]) (auto simp: x_def [symmetric] x w u fun_eq_iff Let_def)
qed

end

interpretation bc: block_cache "bread ROOTDEV" brelse bwrite set_bdata bunpin "\<lambda>i s. b_data (bcache s ! i)"
  NBUF bio_inv bio_frame buf_of rc lk view disk disk_writes
proof (unfold_locales, goal_cases)
  case (1 s bn)
  then have "0 < rc s bn \<or> spare s" using spareI by blast
  then show ?case using bread_law [OF 1(1-3) _ 1(5)] by blast
next
  case (2 s bn i)
  then show ?case by (rule brelse_law)
next
  case (3 s bn i)
  then show ?case by (rule bwrite_law)
next
  case (4 s bn i d)
  then show ?case by (intro conjI) (rule modify_law [OF 4])+
next
  case (5 s bn i)
  then show ?case by (intro conjI) (rule bunpin_law [OF 5])+
next
  case (6 s bn i)
  then show ?case by (simp add: view_def)
next
  case (7 s bn)
  then show ?case by (simp add: view_def rc_0_iff)
next
  case (8 s bn)
  show ?case by (rule rc_0_iff)
next
  case (9 s t u)
  then show ?case by (rule bio_frame_trans)
qed

section \<open>The cache after boot\<close>

definition fresh_bufs :: "'a virtio_st_scheme \<Rightarrow> bool" where
  "fresh_bufs s \<longleftrightarrow> length (bcache s) = Suc NBUF \<and>
     (\<forall>i < NBUF. b_dev (bcache s ! i) = 0 \<and> b_refcnt (bcache s ! i) = 0)"

lemma binit_fold_core:
  assumes "length (bcache s) = Suc NBUF" and "j < NBUF"
  shows "core (bcache (fold (\<lambda>b s. b_push_front b (upd_buf b (\<lambda>q. q\<lparr>b_lock := initsleeplock ''buffer''\<rparr>) s)) bs s) ! j)
     = core (if j \<in> set bs then (bcache s ! j)\<lparr>b_lock := initsleeplock ''buffer''\<rparr> else bcache s ! j)
   \<and> length (bcache (fold (\<lambda>b s. b_push_front b (upd_buf b (\<lambda>q. q\<lparr>b_lock := initsleeplock ''buffer''\<rparr>) s)) bs s)) = Suc NBUF"
  using assms(1)
proof (induction bs arbitrary: s)
  case (Cons b bs)
  let ?s = "b_push_front b (upd_buf b (\<lambda>q. q\<lparr>b_lock := initsleeplock ''buffer''\<rparr>) s)"
  have l: "length (bcache ?s) = Suc NBUF" using Cons.prems by simp
  have "core (bcache ?s ! j) = core (if j = b then (bcache s ! j)\<lparr>b_lock := initsleeplock ''buffer''\<rparr> else bcache s ! j)"
  proof -
    have "core (bcache ?s ! j) = core (bcache (upd_buf b (\<lambda>q. q\<lparr>b_lock := initsleeplock ''buffer''\<rparr>) s) ! j)"
      using Cons.prems by (intro core_push_front(1)) simp
    then show ?thesis using Cons.prems assms(2) by (cases "j = b") (simp_all add: upd_buf_def)
  qed
  note c = core_eqD [OF this] this
  show ?case
    using Cons.IH [OF l] c by (auto simp: core_def)
qed simp

lemma push_front_bcache: "b_push_front b (s\<lparr>bcache := cs\<rparr>) = s\<lparr>bcache := bcache (b_push_front b (s\<lparr>bcache := cs\<rparr>))\<rparr>"
  by (simp add: b_push_front_def Let_def upd_buf_def)

lemma binit_frame: "\<exists>bs. binit s = s\<lparr>bcache := bs\<rparr>"
proof -
  let ?f = "\<lambda>b s. b_push_front b (upd_buf b (\<lambda>q. q\<lparr>b_lock := initsleeplock ''buffer''\<rparr>) s)"
  have "\<exists>bs. fold ?f ns (s\<lparr>bcache := cs\<rparr>) = s\<lparr>bcache := bs\<rparr>" for ns cs
  proof (induction ns arbitrary: cs)
    case Nil
    show ?case by auto
  next
    case (Cons b ns)
    obtain ds where "upd_buf b (\<lambda>q. q\<lparr>b_lock := initsleeplock ''buffer''\<rparr>) (s\<lparr>bcache := cs\<rparr>) = s\<lparr>bcache := ds\<rparr>"
      by (simp add: upd_buf_def)
    then obtain es where "?f b (s\<lparr>bcache := cs\<rparr>) = s\<lparr>bcache := es\<rparr>"
      using push_front_bcache [where b = b and s = s and cs = ds] by metis
    with Cons.IH [of es] show ?case by simp
  qed
  then show ?thesis by (simp add: binit_def upd_buf_def)
qed

lemma binit_inv:
  assumes "fresh_bufs s" and "vdisk_idle (vdisk s)" and "me s < length (procs s)"
  shows "bio_inv (binit s)" and "rc (binit s) = (\<lambda>_. 0)" and "lk (binit s) = (\<lambda>_. False)"
    and "view (binit s) = disk s" and "disk (binit s) = disk s" and "disk_writes (binit s) = disk_writes s"
proof -
  obtain bs where b: "binit s = s\<lparr>bcache := bs\<rparr>" using binit_frame by blast
  have l: "length (bcache s) = Suc NBUF" using assms(1) by (simp add: fresh_bufs_def)
  let ?s = "upd_buf NBUF (\<lambda>q. q\<lparr>b_prev := NBUF, b_next := NBUF\<rparr>) s"
  have c: "core (bcache (binit s) ! j) = core ((bcache s ! j)\<lparr>b_lock := initsleeplock ''buffer''\<rparr>)" if "j < NBUF" for j
    using binit_fold_core [of ?s j "[0..<NBUF]"] l that by (simp add: binit_def upd_buf_def nth_list_update')
  have f: "b_dev (bs ! j) = 0" "b_refcnt (bs ! j) = 0" "\<not> sl_locked (b_lock (bs ! j))" if "j < NBUF" for j
    using core_eqD [OF c [OF that]] assms(1) that by (simp_all add: b fresh_bufs_def initsleeplock_def)
  show "bio_inv (binit s)"
    using binit_linked [OF l] assms f
    by (auto simp: bio_inv_def b buf_ok_def ROOTDEV_def me_def myproc_def)
  have "buf_of (binit s) = (\<lambda>_. None)"
    using f by (auto simp: buf_of_def find_None_iff b)
  then show "rc (binit s) = (\<lambda>_. 0)" "lk (binit s) = (\<lambda>_. False)" "view (binit s) = disk s"
    by (auto simp: rc_def lk_def view_def b)
  show "disk (binit s) = disk s" "disk_writes (binit s) = disk_writes s" by (simp_all add: b)
qed

text \<open>A machine after boot: zeroed tables, an idle driver, an empty disk, process 0 running.\<close>

definition zero_proc :: proc where
  "zero_proc = \<lparr>p_state = UNUSED, p_chan = NoChan, p_killed = False, p_xstate = 0, p_pid = 0, p_parent = None,
     p_kstack = 0, p_sz = 0, p_pagetable = 0, p_trapframe = 0,
     p_context = \<lparr>ctx_ra = 0, ctx_sp = 0, ctx_s = replicate 12 0\<rparr>, p_ofile = replicate NOFILE None,
     p_cwd = None, p_name = replicate 16 0, p_trace_mask = 0\<rparr>"

definition zero_buf :: buf where
  "zero_buf = \<lparr>b_valid = False, b_disk = False, b_dev = 0, b_blockno = 0, b_lock = initsleeplock ''buffer'',
     b_refcnt = 0, b_prev = 0, b_next = 0, b_data = replicate BSIZE 0\<rparr>"

definition machine0 :: virtio_st where
  "machine0 = \<lparr>mem = (\<lambda>_. 0), freelist = 0, sym_end = 0x80022000, sym_etext = 0x80008000,
     sym_trampoline = 0x80007000, procs = [zero_proc\<lparr>p_state := RUNNING, p_pid := 1\<rparr>], nextpid = 2,
     initproc = Some 0, this_cpu = \<lparr>c_proc = Some 0, noff = 0, intena = False, sstatus = 2\<rparr>, sym_forkret = 0,
     bcache = replicate (Suc NBUF) zero_buf,
     vdisk = \<lparr>desc = replicate 8 \<lparr>d_addr = NullAddr, d_len = 0, d_flags = 0, d_next = 0\<rparr>,
       avail_ring = replicate 8 0, avail_idx = 0, used_ring = replicate 8 0, used_idx = 0,
       d_free = replicate 8 True, seen_idx = 0, info_b = replicate 8 None, info_status = replicate 8 0,
       ops = replicate 8 \<lparr>r_type = 0, r_reserved = 0, r_sector = 0\<rparr>, dev_idx = 0,
       q_notified = False, intr_status = 0\<rparr>,
     disk = (\<lambda>_. replicate BSIZE 0), disk_writes = []\<rparr>"

lemma machine0_ok: "fresh_bufs machine0" "vdisk_idle (vdisk machine0)" "me machine0 < length (procs machine0)"
  by (simp_all add: machine0_def fresh_bufs_def zero_buf_def vdisk_idle_def NUM_def me_def myproc_def
      nth_append del: replicate_Suc)

section \<open>Properties\<close>

text \<open>
  C9: The cache is coherent. In every state that keeps the cache's invariant, reading a block that
  nobody has locked, while the block is in use or some buffer is free, returns a locked buffer with
  the current contents of that block; no other block's contents, lock or count changes, nothing is
  written to the disk, and the invariant is kept.
\<close>

theorem bread_coherent:
  assumes "bio_inv s" and "bn < 0x80000000" and "\<not> lk s bn" and "0 < rc s bn \<or> spare s"
    and "Suc (rc s bn) < 2 ^ 32"
  shows "\<exists>i t. bread ROOTDEV bn s = Ok i t \<and> bio_inv t \<and> bio_frame s t \<and>
    buf_of t = (buf_of s)(bn := Some i) \<and> rc t = (rc s)(bn := Suc (rc s bn)) \<and> lk t = (lk s)(bn := True) \<and>
    view t = view s \<and> disk t = disk s \<and> disk_writes t = disk_writes s"
  using assms by (rule bread_law)

theorem bread_coherent_witness:
  "\<exists>i t. bread ROOTDEV 33 (binit machine0) = Ok i t \<and> b_data (bcache t ! i) = replicate BSIZE 0 \<and>
     disk_writes t = []"
proof -
  note b = binit_inv [OF machine0_ok]
  have "spare (binit machine0)" using b by (intro spareI) (simp_all add: NBUF_def MAXOPBLOCKS_def)
  then obtain i t where t: "bread ROOTDEV 33 (binit machine0) = Ok i t" "buf_of t 33 = Some i"
      "view t = disk machine0" "disk_writes t = disk_writes machine0"
    using bread_coherent [OF b(1), of 33] b by auto
  have "b_data (bcache t ! i) = view t 33" using t(2) by (simp add: view_def)
  with t show ?thesis by (auto simp: machine0_def)
qed

text \<open>
  Replacement is least recently used. When a block is not cached, \<open>bget\<close> takes the free buffer
  that is last in the list, all buffers behind it being in use, and hands it out locked with one
  reference.
\<close>

lemma bget_takes_lru:
  assumes "linked (bcache s) (xs @ b # ys)" and "b_refcnt (bcache s ! b) = 0"
    and "\<forall>c \<in> set ys. b_refcnt (bcache s ! c) \<noteq> 0" and "\<not> sl_locked (b_lock (bcache s ! b))"
    and "\<forall>c < NBUF. \<not> (b_dev (bcache s ! c) = dev \<and> b_blockno (bcache s ! c) = blockno)"
  shows "bget dev blockno s = Ok b (upd_buf b (\<lambda>q. q\<lparr>b_dev := dev, b_blockno := blockno, b_valid := False,
    b_refcnt := 1, b_lock := (b_lock q)\<lparr>sl_locked := True, sl_pid := mypid s\<rparr>\<rparr>) s)"
proof -
  have l: "b < length (bcache s)" "set (xs @ b # ys) = {..<NBUF}"
    using assms(1) by (auto simp: linked_def ringed_def)
  have "find (\<lambda>c. b_dev (bcache s ! c) = dev \<and> b_blockno (bcache s ! c) = blockno) (xs @ b # ys) = None"
    using assms(5) l(2) by (auto simp: find_None_iff)
  moreover have "find (\<lambda>c. b_refcnt (bcache s ! c) = 0) (zs @ b # ws) = Some b"
    if "\<forall>c \<in> set zs. b_refcnt (bcache s ! c) \<noteq> 0" for zs ws
    using that assms(2) by (induction zs) auto
  then have "find (\<lambda>c. b_refcnt (bcache s ! c) = 0) (rev (xs @ b # ys)) = Some b"
    using assms(3) by simp
  moreover have "mypid (upd_buf b f s) = mypid s" for f
    by (simp add: mypid_def mine_def me_def myproc_def upd_buf_def)
  ultimately show ?thesis
    unfolding bget_def bget_searches [OF assms(1)] using assms(4) l(1)
    by (simp add: b_acquire_def acquiresleep_def nth_upd_buf) (simp add: upd_buf_def)
qed

end
