(* ===== verification/Log.thy ===== *)
theory Log
  imports Bio
begin

text \<open>
  The write-ahead log, \<open>kernel/log.c\<close>. The header's \<open>n\<close> is a C \<open>int\<close>, the block numbers are words.
  A block of the disk is a list of \<open>BSIZE\<close> bytes; an integer field of it is read with \<open>field\<close> and
  written with \<open>put_field\<close>, little endian. The loops of \<open>install_trans\<close> and \<open>write_log\<close> run over
  the indices below \<open>log.lh.n\<close>, which they do not change. An index at or beyond \<open>LOGSIZE\<close> is outside
  \<open>log.lh.block\<close>, and its assignment is lost in the model; the theorems assume a header within
  bounds.
\<close>

section \<open>Integers in a block\<close>

definition field :: "nat \<Rightarrow> u8 list \<Rightarrow> nat \<Rightarrow> 'a::len word" where
  "field k d off = le_word (take k (drop off d))"

definition put_field :: "nat \<Rightarrow> u8 list \<Rightarrow> nat \<Rightarrow> 'a::len word \<Rightarrow> u8 list" where
  "put_field k d off v = take off d @ le_bytes k v @ drop (off + k) d"

section \<open>State\<close>

record superblock =
  sb_magic :: u32
  sb_size :: u32
  sb_nblocks :: u32
  sb_ninodes :: u32
  sb_nlog :: u32
  sb_logstart :: u32
  sb_inodestart :: u32
  sb_bmapstart :: u32

record log_st = virtio_st +
  log_start :: u32
  log_size :: int
  log_outstanding :: int
  log_committing :: bool
  log_dev :: u32
  lh_n :: int
  lh_block :: "u32 list"

section \<open>Operations\<close>

fun install_trans_loop ::
    "bool \<Rightarrow> nat list \<Rightarrow> 'a log_st_scheme \<Rightarrow> (unit, 'a log_st_scheme) res" where
  "install_trans_loop recovering [] s = Ok () s"
| "install_trans_loop recovering (tail # ts) s =
     bind (bread (log_dev s) (log_start s + of_nat tail + 1) s) (\<lambda>lbuf s.
     bind (bread (log_dev s) (lh_block s ! tail) s) (\<lambda>dbuf s.
     bind (bwrite dbuf (set_bdata dbuf (b_data (bcache s ! lbuf)) s)) (\<lambda>_ s.
     let s = (if \<not> recovering then bunpin dbuf s else s) in
     bind (brelse lbuf s) (\<lambda>_ s.
     bind (brelse dbuf s) (\<lambda>_ s.
     install_trans_loop recovering ts s)))))"

definition install_trans :: "bool \<Rightarrow> 'a log_st_scheme \<Rightarrow> (unit, 'a log_st_scheme) res" where
  "install_trans recovering s = install_trans_loop recovering [0..<nat (lh_n s)] s"

definition read_head :: "'a log_st_scheme \<Rightarrow> (unit, 'a log_st_scheme) res" where
  "read_head s =
     bind (bread (log_dev s) (log_start s) s) (\<lambda>b s.
       let d = b_data (bcache s ! b);
           s = s\<lparr>lh_n := sint (field 4 d 0 :: u32)\<rparr>;
           s = s\<lparr>lh_block := fold (\<lambda>i bs. bs[i := field 4 d (4 + 4 * i)]) [0..<nat (lh_n s)] (lh_block s)\<rparr>
       in brelse b s)"

definition header_bytes :: "int \<Rightarrow> u32 list \<Rightarrow> u8 list \<Rightarrow> u8 list" where
  "header_bytes n bs d =
     fold (\<lambda>i d. put_field 4 d (4 + 4 * i) (bs ! i)) [0..<nat n] (put_field 4 d 0 (of_int n :: u32))"

definition write_head :: "'a log_st_scheme \<Rightarrow> (unit, 'a log_st_scheme) res" where
  "write_head s =
     bind (bread (log_dev s) (log_start s) s) (\<lambda>b s.
     bind (bwrite b (set_bdata b (header_bytes (lh_n s) (lh_block s) (b_data (bcache s ! b))) s)) (\<lambda>_ s.
     brelse b s))"

definition recover_from_log :: "'a log_st_scheme \<Rightarrow> (unit, 'a log_st_scheme) res" where
  "recover_from_log s =
     bind (read_head s) (\<lambda>_ s.
     bind (install_trans True s) (\<lambda>_ s.
     write_head (s\<lparr>lh_n := 0\<rparr>)))"

definition initlog :: "u32 \<Rightarrow> superblock \<Rightarrow> 'a log_st_scheme \<Rightarrow> (unit, 'a log_st_scheme) res" where
  "initlog dev sb s =
     (if 4 + 4 * LOGSIZE \<ge> BSIZE then Panic ''initlog: too big logheader''
      else recover_from_log (s\<lparr>log_start := sb_logstart sb, log_size := sint (sb_nlog sb), log_dev := dev\<rparr>))"

definition begin_op :: "'a log_st_scheme \<Rightarrow> (unit, 'a log_st_scheme) res" where
  "begin_op s =
     (if log_committing s then sleep LogChan s
      else if lh_n s + (log_outstanding s + 1) * int MAXOPBLOCKS > int LOGSIZE then sleep LogChan s
      else Ok () (s\<lparr>log_outstanding := log_outstanding s + 1\<rparr>))"

fun write_log_loop :: "nat list \<Rightarrow> 'a log_st_scheme \<Rightarrow> (unit, 'a log_st_scheme) res" where
  "write_log_loop [] s = Ok () s"
| "write_log_loop (tail # ts) s =
     bind (bread (log_dev s) (log_start s + of_nat tail + 1) s) (\<lambda>to s.
     bind (bread (log_dev s) (lh_block s ! tail) s) (\<lambda>from s.
     bind (bwrite to (set_bdata to (b_data (bcache s ! from)) s)) (\<lambda>_ s.
     bind (brelse from s) (\<lambda>_ s.
     bind (brelse to s) (\<lambda>_ s.
     write_log_loop ts s)))))"

definition write_log :: "'a log_st_scheme \<Rightarrow> (unit, 'a log_st_scheme) res" where
  "write_log s = write_log_loop [0..<nat (lh_n s)] s"

definition commit :: "'a log_st_scheme \<Rightarrow> (unit, 'a log_st_scheme) res" where
  "commit s =
     (if lh_n s > 0 then
        bind (write_log s) (\<lambda>_ s.
        bind (write_head s) (\<lambda>_ s.
        bind (install_trans False s) (\<lambda>_ s.
        write_head (s\<lparr>lh_n := 0\<rparr>))))
      else Ok () s)"

definition end_op :: "'a log_st_scheme \<Rightarrow> (unit, 'a log_st_scheme) res" where
  "end_op s =
     (let s = s\<lparr>log_outstanding := log_outstanding s - 1\<rparr> in
      if log_committing s then Panic ''log.committing''
      else if log_outstanding s = 0 then
        bind (commit (s\<lparr>log_committing := True\<rparr>)) (\<lambda>_ s.
          Ok () (wakeup LogChan (s\<lparr>log_committing := False\<rparr>)))
      else Ok () (wakeup LogChan s))"

text \<open>The index of a block in the header, \<open>n\<close> when it is not there (log absorption).\<close>

fun log_index :: "u32 list \<Rightarrow> nat \<Rightarrow> u32 \<Rightarrow> nat \<Rightarrow> nat" where
  "log_index bs 0 bn i = i"
| "log_index bs (Suc k) bn i = (if bs ! i = bn then i else log_index bs k bn (Suc i))"

definition log_write :: "nat \<Rightarrow> 'a log_st_scheme \<Rightarrow> (unit, 'a log_st_scheme) res" where
  "log_write b s =
     (if lh_n s \<ge> int LOGSIZE \<or> lh_n s \<ge> log_size s - 1 then Panic ''too big a transaction''
      else if log_outstanding s < 1 then Panic ''log_write outside of trans''
      else
        let bn = b_blockno (bcache s ! b);
            i = log_index (lh_block s) (nat (lh_n s)) bn 0;
            s = s\<lparr>lh_block := (lh_block s)[i := bn]\<rparr>
        in if int i = lh_n s then Ok () ((bpin b s)\<lparr>lh_n := lh_n s + 1\<rparr>) else Ok () s)"

section \<open>Fields of a block\<close>

lemma length_put_field [simp]: "off + k \<le> length d \<Longrightarrow> length (put_field k d off v) = length d"
  by (simp add: put_field_def)

lemma field_put_same [simp]:
  "off + k \<le> length d \<Longrightarrow> LENGTH('a) = 8 * k \<Longrightarrow> field k (put_field k d off v) off = (v :: 'a::len word)"
  by (simp add: field_def put_field_def)

lemma field_put_other:
  assumes "off + k \<le> length d" and "off' + k' \<le> off \<or> off + k \<le> off'"
  shows "field k' (put_field k d off v) off' = field k' d off'"
proof -
  have "take k' (drop off' (put_field k d off v)) = take k' (drop off' d)"
    using assms by (auto simp: put_field_def drop_take min_def)
  then show ?thesis by (simp add: field_def)
qed

lemma header_fold:
  assumes "4 + 4 * m \<le> length d"
  shows "length (fold (\<lambda>i d. put_field 4 d (4 + 4 * i) (bs ! i :: u32)) [0..<m] d) = length d \<and>
    field 4 (fold (\<lambda>i d. put_field 4 d (4 + 4 * i) (bs ! i :: u32)) [0..<m] d) 0 = (field 4 d 0 :: u32) \<and>
    (\<forall>j < m. field 4 (fold (\<lambda>i d. put_field 4 d (4 + 4 * i) (bs ! i :: u32)) [0..<m] d) (4 + 4 * j) = bs ! j)"
  using assms
proof (induction m)
  case (Suc m)
  let ?e = "fold (\<lambda>i d. put_field 4 d (4 + 4 * i) (bs ! i :: u32)) [0..<m] d"
  have IH: "length ?e = length d" "field 4 ?e 0 = (field 4 d 0 :: u32)" "\<forall>j < m. field 4 ?e (4 + 4 * j) = bs ! j"
    using Suc by simp_all
  have room: "(4 + 4 * m) + 4 \<le> length ?e" using IH(1) Suc.prems by simp
  have "field 4 (put_field 4 ?e (4 + 4 * m) (bs ! m)) (4 + 4 * j) = bs ! j" if "j < Suc m" for j
    using room IH(3) that by (cases "j = m") (auto simp: field_put_other)
  moreover have "field 4 (put_field 4 ?e (4 + 4 * m) (bs ! m)) 0 = (field 4 ?e 0 :: u32)"
    using room by (intro field_put_other) simp_all
  ultimately show ?case using IH room by simp
qed simp

lemma header_bytes_fields:
  assumes "length d = BSIZE" and "m \<le> LOGSIZE"
  shows "length (header_bytes (int m) bs d) = BSIZE" and "field 4 (header_bytes (int m) bs d) 0 = (of_nat m :: u32)"
    and "\<And>j. j < m \<Longrightarrow> field 4 (header_bytes (int m) bs d) (4 + 4 * j) = bs ! j"
proof -
  let ?d = "put_field 4 d 0 (of_nat m :: u32)"
  have r: "4 + 4 * m \<le> length ?d" "length ?d = BSIZE" "field 4 ?d 0 = (of_nat m :: u32)"
    using assms by (simp_all add: BSIZE_def LOGSIZE_def MAXOPBLOCKS_def)
  show "length (header_bytes (int m) bs d) = BSIZE" "field 4 (header_bytes (int m) bs d) 0 = (of_nat m :: u32)"
      "\<And>j. j < m \<Longrightarrow> field 4 (header_bytes (int m) bs d) (4 + 4 * j) = bs ! j"
    using header_fold [OF r(1), of bs] r by (simp_all add: header_bytes_def)
qed

section \<open>Disk writes\<close>

definition apply_writes :: "(u32 \<times> u8 list) list \<Rightarrow> (u32 \<Rightarrow> u8 list) \<Rightarrow> u32 \<Rightarrow> u8 list" where
  "apply_writes ws d = fold (\<lambda>(b, x) d. d(b := x)) ws d"

lemma apply_writes_Nil [simp]: "apply_writes [] d = d"
  and apply_writes_Cons [simp]: "apply_writes ((b, x) # ws) d = apply_writes ws (d(b := x))"
  and apply_writes_append: "apply_writes (ws @ vs) d = apply_writes vs (apply_writes ws d)"
  by (simp_all add: apply_writes_def)

lemma apply_writes_other: "b \<notin> fst ` set ws \<Longrightarrow> apply_writes ws d b = d b"
  by (induction ws arbitrary: d) auto

lemma apply_writes_at:
  "distinct (map fst ws) \<Longrightarrow> (b, x) \<in> set ws \<Longrightarrow> apply_writes ws d b = x"
proof (induction ws arbitrary: d)
  case (Cons w ws)
  then show ?case
    by (cases w) (auto simp: apply_writes_other image_iff)
qed simp

section \<open>The cache under the log\<close>

lemma log_frame:
  assumes "bio_frame s t"
  shows "log_start t = log_start s" "log_size t = log_size s" "log_outstanding t = log_outstanding s"
    "log_committing t = log_committing s" "log_dev t = log_dev s" "lh_n t = lh_n s" "lh_block t = lh_block s"
  using assms by (auto simp: bio_frame_def)

lemma bio_cong:
  assumes "bcache t = bcache s" "vdisk t = vdisk s" "disk t = disk s" "procs t = procs s" "this_cpu t = this_cpu s"
  shows "bio_inv t = bio_inv s" "buf_of t = buf_of s" "rc t = rc s" "lk t = lk s" "view t = view s"
proof -
  show bo: "buf_of t = buf_of s" by (rule ext) (simp add: buf_of_def assms)
  show "rc t = rc s" by (rule ext) (simp add: rc_def bo assms split: option.split)
  show "lk t = lk s" by (rule ext) (simp add: lk_def bo assms split: option.split)
  show "view t = view s" by (rule ext) (simp add: view_def bo assms split: option.split)
  show "bio_inv t = bio_inv s"
    by (simp add: bio_inv_def buf_ok_def mypid_def mine_def me_def myproc_def assms)
qed

text \<open>
  The blocks of the log, as many as \<open>mkfs\<close> sets aside, and a log whose header names the blocks \<open>L\<close>.
\<close>

lemma LOGSIZE_pos [simp]: "0 < LOGSIZE"
  by (simp add: LOGSIZE_def MAXOPBLOCKS_def)

definition log_area :: "'a log_st_scheme \<Rightarrow> u32 set" where
  "log_area s = {b. unat (log_start s) \<le> unat b \<and> unat b < unat (log_start s) + LOGSIZE}"

definition log_wf :: "'a log_st_scheme \<Rightarrow> u32 list \<Rightarrow> bool" where
  "log_wf s L \<longleftrightarrow> bio_inv s \<and> (\<forall>b. Suc (rc s b) < 2 ^ 32) \<and>
     log_dev s = ROOTDEV \<and> unat (log_start s) + LOGSIZE < 0x80000000 \<and>
     lh_n s = int (length L) \<and> length L < LOGSIZE \<and> length (lh_block s) = LOGSIZE \<and>
     take (length L) (lh_block s) = L \<and> (\<forall>b \<in> set L. b < 0x80000000 \<and> b \<notin> log_area s)"

definition log_ok :: "'a log_st_scheme \<Rightarrow> u32 list \<Rightarrow> bool" where
  "log_ok s L \<longleftrightarrow> log_wf s L \<and> lk s = (\<lambda>_. False)"

lemma log_okD:
  assumes "log_ok s L"
  shows "bio_inv s" "\<not> lk s b" "Suc (rc s b) < 2 ^ 32" "log_dev s = ROOTDEV"
    "i < length L \<Longrightarrow> lh_block s ! i = L ! i" "i < length L \<Longrightarrow> L ! i < 0x80000000"
    "i < length L \<Longrightarrow> L ! i \<notin> log_area s"
  using assms by (auto simp: log_ok_def log_wf_def) (metis nth_take)

lemma log_block:
  assumes "unat (log_start s) + LOGSIZE < 0x80000000" and "Suc i < LOGSIZE"
  shows "unat (log_start s + of_nat i + 1) = unat (log_start s) + i + 1"
    and "log_start s + of_nat i + 1 < 0x80000000" and "log_start s + of_nat i + 1 \<in> log_area s"
proof -
  have "log_start s + of_nat i + 1 = log_start s + of_nat (i + 1)" by (simp add: add.assoc add.commute)
  also have "unat \<dots> = unat (log_start s) + (i + 1)"
    using assms by (intro unat_add_no_wrap) simp
  finally show u: "unat (log_start s + of_nat i + 1) = unat (log_start s) + i + 1" by simp
  then show "log_start s + of_nat i + 1 < 0x80000000" using assms by (simp add: word_less_nat_alt)
  show "log_start s + of_nat i + 1 \<in> log_area s" using u assms by (simp add: log_area_def)
qed

lemma log_ok_step:
  assumes "log_ok s L" and "bio_inv t" and "bio_frame s t" and "lk t = lk s" and "\<And>b. rc t b \<le> rc s b"
  shows "log_ok t L" and "log_area t = log_area s"
proof -
  note f = log_frame [OF assms(3)]
  show a: "log_area t = log_area s" by (simp add: log_area_def f)
  have "Suc (rc t b) < 2 ^ 32" for b
    using assms(1) le_less_trans [OF assms(5) [of b]] by (auto simp: log_ok_def log_wf_def)
  with assms f a show "log_ok t L" by (simp add: log_ok_def log_wf_def)
qed

lemma log_can_get:
  assumes "log_ok s L" and "b < 0x80000000" and "0 < rc s b \<or> card {x. 0 < rc s x} < NBUF"
  shows "bc.can_get s b"
  using assms log_okD(1-3) [OF assms(1)] by (simp add: bc.can_get_def)

lemma log_block_ok:
  assumes "log_ok s L" and "i < length L"
  shows "log_start s + of_nat i + 1 < 0x80000000" "log_start s + of_nat i + 1 \<in> log_area s"
    "log_start s + of_nat i + 1 \<noteq> L ! i"
proof -
  have "unat (log_start s) + LOGSIZE < 0x80000000" "Suc i < LOGSIZE" using assms by (auto simp: log_ok_def log_wf_def)
  note b = log_block [OF this]
  show "log_start s + of_nat i + 1 < 0x80000000" "log_start s + of_nat i + 1 \<in> log_area s" by (fact b)+
  then show "log_start s + of_nat i + 1 \<noteq> L ! i" using log_okD(7) [OF assms] by auto
qed

text \<open>The writes of \<open>write_log\<close> and of \<open>install_trans\<close>, for the indices \<open>ts\<close>.\<close>

definition log_writes :: "u32 \<Rightarrow> u32 list \<Rightarrow> (u32 \<Rightarrow> u8 list) \<Rightarrow> nat list \<Rightarrow> (u32 \<times> u8 list) list" where
  "log_writes start L v ts = map (\<lambda>i. (start + of_nat i + 1, v (L ! i))) ts"

definition home_writes :: "u32 \<Rightarrow> u32 list \<Rightarrow> (u32 \<Rightarrow> u8 list) \<Rightarrow> nat list \<Rightarrow> (u32 \<times> u8 list) list" where
  "home_writes start L v ts = map (\<lambda>i. (L ! i, v (start + of_nat i + 1))) ts"

lemma home_writes_blocks: "fst ` set (home_writes start L v [0..<length L]) = set L"
  by (force simp: home_writes_def in_set_conv_nth)

lemma write_log_loop_ok:
  assumes "log_ok s L" and "set ts \<subseteq> {..<length L}" and "card {x. 0 < rc s x} < NBUF"
    and "\<forall>b \<in> set L. 0 < rc s b"
  shows "\<exists>t. write_log_loop ts s = Ok () t \<and> log_ok t L \<and> bio_frame s t \<and> rc t = rc s \<and>
    view t = apply_writes (log_writes (log_start s) L (view s) ts) (view s) \<and>
    disk t = apply_writes (log_writes (log_start s) L (view s) ts) (disk s) \<and>
    disk_writes t = disk_writes s @ log_writes (log_start s) L (view s) ts"
  using assms
proof (induction ts arbitrary: s)
  case Nil
  then show ?case by (auto simp: log_writes_def)
next
  case (Cons i ts)
  let ?a = "log_start s + of_nat i + 1" and ?b = "L ! i"
  have i: "i < length L" using Cons.prems(2) by simp
  have pos: "0 < rc s ?b" using Cons.prems(4) i by simp
  note b = log_block_ok [OF Cons.prems(1) i] log_okD [OF Cons.prems(1)]
  have ga: "bc.can_get s ?a" using Cons.prems(3) b(1) by (intro log_can_get [OF Cons.prems(1)]) auto
  have gb: "bc.can_get s ?b" using pos b(9) [OF i] by (intro log_can_get [OF Cons.prems(1)]) auto
  obtain v where v: "bind (bread ROOTDEV ?a s) (\<lambda>p s. bind (bread ROOTDEV ?b s) (\<lambda>q s.
      bind (bwrite p (set_bdata p (b_data (bcache s ! q)) s)) (\<lambda>_ s. bind (brelse q s) (\<lambda>_ s. brelse p s)))) = Ok () v"
      "bio_inv v" "bio_frame s v" "rc v = rc s" "lk v = lk s" "view v = (view s)(?a := view s ?b)"
      "disk v = (disk s)(?a := view s ?b)" "disk_writes v = disk_writes s @ [(?a, view s ?b)]"
    using bc.copy_to [OF ga gb b(3) pos] by blast
  note f = log_frame [OF v(3)]
  have okv: "log_ok v L" "log_area v = log_area s"
    using log_ok_step [OF Cons.prems(1) v(2,3,5)] v(4) by simp_all
  have same: "log_writes (log_start v) L (view v) ts = log_writes (log_start s) L (view s) ts"
  proof -
    have "view v (L ! j) = view s (L ! j)" if "j \<in> set ts" for j
      using that Cons.prems(2) b(2) log_okD(7) [OF Cons.prems(1), of j] by (auto simp: v(6))
    then show ?thesis by (simp add: log_writes_def f)
  qed
  obtain t where t: "write_log_loop ts v = Ok () t" "log_ok t L" "bio_frame v t" "rc t = rc v"
      "view t = apply_writes (log_writes (log_start v) L (view v) ts) (view v)"
      "disk t = apply_writes (log_writes (log_start v) L (view v) ts) (disk v)"
      "disk_writes t = disk_writes v @ log_writes (log_start v) L (view v) ts"
    using Cons.IH [OF okv(1)] Cons.prems(2-4) v(4) by auto
  obtain p s1 where p: "bread ROOTDEV ?a s = Ok p s1" "bio_frame s s1" using bc.get_rel [OF ga] by blast
  have "write_log_loop (i # ts) s = bind (bind (bread ROOTDEV ?a s) (\<lambda>p s. bind (bread ROOTDEV ?b s) (\<lambda>q s.
      bind (bwrite p (set_bdata p (b_data (bcache s ! q)) s)) (\<lambda>_ s. bind (brelse q s) (\<lambda>_ s. brelse p s)))))
      (\<lambda>_. write_log_loop ts)"
    using p(1) log_frame [OF p(2)] b(7,8) i by (simp add: bind_assoc)
  then have "write_log_loop (i # ts) s = Ok () t"
    by (simp add: v(1) t(1))
  moreover have "log_writes (log_start s) L (view s) (i # ts) = (?a, view s ?b) # log_writes (log_start s) L (view s) ts"
    by (simp add: log_writes_def)
  ultimately show ?case
    using t v(4,6,7,8) bio_frame_trans [OF v(3) t(3)] same by (intro exI [of _ t]) simp
qed

text \<open>Installing: every block of the list gets the contents of its log block.\<close>

lemma install_loop_ok:
  assumes "log_ok s L" and "set ts \<subseteq> {..<length L}"
    and "card {x. 0 < rc s x} + (if recovering then 1 else 0) < NBUF"
    and "\<not> recovering \<Longrightarrow> distinct (map ((!) L) ts) \<and> (\<forall>i \<in> set ts. 0 < rc s (L ! i))"
  shows "\<exists>t. install_trans_loop recovering ts s = Ok () t \<and> log_ok t L \<and> bio_frame s t \<and>
    rc t = (if recovering then rc s else (\<lambda>b. if b \<in> (!) L ` set ts then rc s b - 1 else rc s b)) \<and>
    view t = apply_writes (home_writes (log_start s) L (view s) ts) (view s) \<and>
    disk t = apply_writes (home_writes (log_start s) L (view s) ts) (disk s) \<and>
    disk_writes t = disk_writes s @ home_writes (log_start s) L (view s) ts"
  using assms
proof (induction ts arbitrary: s)
  case Nil
  then show ?case by (auto simp: home_writes_def)
next
  case (Cons i ts)
  let ?a = "log_start s + of_nat i + 1" and ?b = "L ! i"
  have i: "i < length L" using Cons.prems(2) by simp
  have pos: "\<not> recovering \<Longrightarrow> 0 < rc s ?b" using Cons.prems(4) by simp
  have c: "card {x. 0 < rc s x} < NBUF" "0 < rc s ?b \<or> card {x. 0 < rc s x} + 1 < NBUF"
    using Cons.prems(3) pos by (auto split: if_splits)
  note b = log_block_ok [OF Cons.prems(1) i] log_okD [OF Cons.prems(1)]
  have ga: "bc.can_get s ?a" using c b(1) by (intro log_can_get [OF Cons.prems(1)]) auto
  have gb: "bc.can_get s ?b" using c b(9) [OF i] by (intro log_can_get [OF Cons.prems(1)]) auto
  obtain v where v: "bind (bread ROOTDEV ?a s) (\<lambda>p s. bind (bread ROOTDEV ?b s) (\<lambda>q s.
      bind (bwrite q (set_bdata q (b_data (bcache s ! p)) s)) (\<lambda>_ s.
      let s = (if \<not> recovering then bunpin q s else s) in bind (brelse p s) (\<lambda>_ s. brelse q s)))) = Ok () v"
      "bio_inv v" "bio_frame s v" "rc v = (if \<not> recovering then (rc s)(?b := rc s ?b - 1) else rc s)" "lk v = lk s"
      "view v = (view s)(?b := view s ?a)" "disk v = (disk s)(?b := view s ?a)"
      "disk_writes v = disk_writes s @ [(?b, view s ?a)]"
    using bc.copy_from [OF ga gb b(3) c(2), of "\<not> recovering"] pos by blast
  note f = log_frame [OF v(3)]
  have okv: "log_ok v L" "log_area v = log_area s"
    using log_ok_step [OF Cons.prems(1) v(2,3,5)] v(4) by (auto split: if_splits)
  have cv: "card {x. 0 < rc v x} + (if recovering then 1 else 0) < NBUF"
  proof -
    have "card {x. 0 < rc v x} \<le> card {x. 0 < rc s x}"
      by (rule card_mono) (auto simp: v(4) split: if_splits)
    with Cons.prems(3) show ?thesis by linarith
  qed
  have pv: "distinct (map ((!) L) ts) \<and> (\<forall>i \<in> set ts. 0 < rc v (L ! i))" if "\<not> recovering"
    using Cons.prems(4) [OF that] that by (auto simp: v(4) image_iff)
  have same: "home_writes (log_start v) L (view v) ts = home_writes (log_start s) L (view s) ts"
  proof -
    have "view v (log_start s + of_nat j + 1) = view s (log_start s + of_nat j + 1)" if "j \<in> set ts" for j
      using that Cons.prems(2) b(10) [OF i] log_block_ok(2) [OF Cons.prems(1), of j] by (auto simp: v(6))
    then show ?thesis by (simp add: home_writes_def f)
  qed
  obtain t where t: "install_trans_loop recovering ts v = Ok () t" "log_ok t L" "bio_frame v t"
      "rc t = (if recovering then rc v else (\<lambda>b. if b \<in> (!) L ` set ts then rc v b - 1 else rc v b))"
      "view t = apply_writes (home_writes (log_start v) L (view v) ts) (view v)"
      "disk t = apply_writes (home_writes (log_start v) L (view v) ts) (disk v)"
      "disk_writes t = disk_writes v @ home_writes (log_start v) L (view v) ts"
    using Cons.IH [OF okv(1) _ cv pv] Cons.prems(2) by auto
  obtain p s1 where p: "bread ROOTDEV ?a s = Ok p s1" "bio_frame s s1" using bc.get_rel [OF ga] by blast
  have eq: "install_trans_loop recovering (i # ts) s = bind (bind (bread ROOTDEV ?a s) (\<lambda>p s. bind (bread ROOTDEV ?b s) (\<lambda>q s.
      bind (bwrite q (set_bdata q (b_data (bcache s ! p)) s)) (\<lambda>_ s.
      let s = (if \<not> recovering then bunpin q s else s) in bind (brelse p s) (\<lambda>_ s. brelse q s)))))
      (\<lambda>_. install_trans_loop recovering ts)"
    using p(1) log_frame [OF p(2)] b(7,8) i by (simp add: bind_assoc Let_def)
  have "install_trans_loop recovering (i # ts) s = Ok () t"
    unfolding eq v(1) by (simp add: t(1))
  moreover have "home_writes (log_start s) L (view s) (i # ts) = (?b, view s ?a) # home_writes (log_start s) L (view s) ts"
    by (simp add: home_writes_def)
  moreover have "rc t = (if recovering then rc s else (\<lambda>b. if b \<in> (!) L ` set (i # ts) then rc s b - 1 else rc s b))"
    using t(4) v(4) Cons.prems(4) by (auto simp: fun_eq_iff)
  ultimately show ?case
    using t v(6,7,8) bio_frame_trans [OF v(3) t(3)] same by (intro exI [of _ t]) simp
qed

lemma write_head_ok:
  assumes "log_ok s L" and "card {x. 0 < rc s x} < NBUF" and "lh_n s = int m"
    and "h = header_bytes (int m) (lh_block s) (view s (log_start s))"
  shows "\<exists>t. write_head s = Ok () t \<and> log_ok t L \<and> bio_frame s t \<and> rc t = rc s \<and>
    view t = (view s)(log_start s := h) \<and> disk t = (disk s)(log_start s := h) \<and>
    disk_writes t = disk_writes s @ [(log_start s, h)]"
proof -
  have "log_start s < 0x80000000" using assms(1) by (simp add: log_ok_def log_wf_def word_less_nat_alt)
  then have g: "bc.can_get s (log_start s)" using assms(2) by (intro log_can_get [OF assms(1)]) auto
  obtain i t u v where w: "bread ROOTDEV (log_start s) s = Ok i t" "b_data (bcache t ! i) = view s (log_start s)"
      "bio_frame s t" "bwrite i (set_bdata i h t) = Ok () u" "brelse i u = Ok () v" "bio_inv v" "bio_frame s v"
      "rc v = rc s" "lk v = lk s" "view v = (view s)(log_start s := h)" "disk v = (disk s)(log_start s := h)"
      "disk_writes v = disk_writes s @ [(log_start s, h)]"
    using bc.get_put_wr_rel [OF g, of h] by blast
  note f = log_frame [OF w(3)]
  have "write_head s = Ok () v"
    using w f assms(3,4) log_okD(4) [OF assms(1)] by (simp add: write_head_def)
  moreover have "log_ok v L" using log_ok_step(1) [OF assms(1) w(6,7,9)] w(8) by simp
  ultimately show ?thesis using w by blast
qed

lemma bio_frame_lh_n:
  assumes "bio_frame (s\<lparr>lh_n := a\<rparr>) t"
  shows "bio_frame s (t\<lparr>lh_n := lh_n s\<rparr>)"
proof -
  obtain bs v d w ps where t: "t = s\<lparr>lh_n := a, procs := ps, bcache := bs, vdisk := v, disk := d, disk_writes := w\<rparr>"
      and k: "woken (procs s) ps"
    using assms by (auto simp: bio_frame_def)
  have "t\<lparr>lh_n := lh_n s\<rparr> = s\<lparr>procs := ps, bcache := bs, vdisk := v, disk := d, disk_writes := w\<rparr>"
    by (cases s) (simp add: t)
  then show ?thesis using bio_frame_bcache [OF k] by simp
qed

lemma log_ok_clear:
  assumes "log_ok s L"
  shows "log_ok (s\<lparr>lh_n := 0\<rparr>) []"
  using assms bio_cong [of "s\<lparr>lh_n := 0\<rparr>" s] by (simp add: log_ok_def log_wf_def)

section \<open>Commit\<close>

text \<open>The header block as the log writes it, and all the writes of a commit, in order.\<close>

definition commit_header :: "'a log_st_scheme \<Rightarrow> u8 list" where
  "commit_header s = header_bytes (lh_n s) (lh_block s) (view s (log_start s))"

definition commit_writes :: "'a log_st_scheme \<Rightarrow> u32 list \<Rightarrow> (u32 \<times> u8 list) list" where
  "commit_writes s L =
     log_writes (log_start s) L (view s) [0..<length L] @ [(log_start s, commit_header s)] @
     map (\<lambda>b. (b, view s b)) L @ [(log_start s, put_field 4 (commit_header s) 0 (0 :: u32))]"

text \<open>Nothing but the blocks of the transaction is in use.\<close>

definition commit_ready :: "'a log_st_scheme \<Rightarrow> u32 list \<Rightarrow> bool" where
  "commit_ready s L \<longleftrightarrow> log_ok s L \<and> L \<noteq> [] \<and> distinct L \<and> length L < LOGSIZE \<and>
     (\<forall>b \<in> set L. 0 < rc s b) \<and> (\<forall>b. b \<notin> set L \<longrightarrow> rc s b = 0)"

lemma commit_ready_card: "commit_ready s L \<Longrightarrow> card {x. 0 < rc s x} < NBUF"
proof -
  assume r: "commit_ready s L"
  then have "{x. 0 < rc s x} = set L" by (auto simp: commit_ready_def)
  then show ?thesis
    using r by (simp add: commit_ready_def distinct_card LOGSIZE_def NBUF_def)
qed

lemma view_log_blocks:
  assumes "log_ok s L" and "i < length L"
  shows "apply_writes (log_writes (log_start s) L (view s) [0..<length L]) v (log_start s + of_nat i + 1) = view s (L ! i)"
proof (rule apply_writes_at)
  have "unat (log_start s) + LOGSIZE < 0x80000000" "length L < LOGSIZE" using assms(1) by (auto simp: log_ok_def log_wf_def)
  then have u: "unat (log_start s + of_nat j + 1) = unat (log_start s) + j + 1" if "j < length L" for j
    using log_block(1) [of s j] that by simp
  have "inj_on (\<lambda>j. log_start s + of_nat j + 1) {0..<length L}"
  proof (rule inj_onI)
    fix j k assume jk: "j \<in> {0..<length L}" "k \<in> {0..<length L}"
      and eq: "log_start s + of_nat j + 1 = log_start s + of_nat k + 1"
    have "unat (log_start s) + j + 1 = unat (log_start s) + k + 1"
      unfolding u [of j, symmetric, OF jk(1) [simplified]] u [of k, symmetric, OF jk(2) [simplified]] eq ..
    then show "j = k" by linarith
  qed
  then show "distinct (map fst (log_writes (log_start s) L (view s) [0..<length L]))"
    by (simp add: log_writes_def comp_def distinct_map)
qed (use assms(2) in \<open>auto simp: log_writes_def\<close>)

lemma commit_effect:
  assumes ready: "commit_ready s L" and len: "length (view s (log_start s)) = BSIZE"
  shows "\<exists>t. commit s = Ok () t \<and> log_ok t [] \<and> bio_frame s (t\<lparr>lh_n := lh_n s\<rparr>) \<and>
    rc t = (\<lambda>b. rc s b - 1) \<and> disk t = apply_writes (commit_writes s L) (disk s) \<and>
    disk_writes t = disk_writes s @ commit_writes s L"
proof -
  have ok: "log_ok s L" and ne: "L \<noteq> []" and d: "distinct L" and pos: "\<forall>b \<in> set L. 0 < rc s b"
    and zero: "\<forall>b. b \<notin> set L \<longrightarrow> rc s b = 0"
    using ready by (auto simp: commit_ready_def)
  have n: "lh_n s = int (length L)" "length L \<le> LOGSIZE" using ok by (auto simp: log_ok_def log_wf_def)
  note card = commit_ready_card [OF ready]
  have sub: "set [0..<length L] \<subseteq> {..<length L}" by auto
  let ?lw = "log_writes (log_start s) L (view s) [0..<length L]"
  obtain t1 where t1: "write_log s = Ok () t1" "log_ok t1 L" "bio_frame s t1" "rc t1 = rc s"
      "view t1 = apply_writes ?lw (view s)" "disk t1 = apply_writes ?lw (disk s)"
      "disk_writes t1 = disk_writes s @ ?lw"
    using write_log_loop_ok [OF ok sub card pos] n by (auto simp: write_log_def)
  note f1 = log_frame [OF t1(3)]
  have out: "b \<notin> fst ` set ?lw" if "b = log_start s \<or> b \<notin> log_area s" for b
  proof
    assume "b \<in> fst ` set ?lw"
    then obtain i where i: "i < length L" "b = log_start s + of_nat i + 1" by (auto simp: log_writes_def)
    then have "unat b = unat (log_start s) + i + 1" "b \<in> log_area s"
      using log_block [of s i] ok n(2) by (auto simp: log_ok_def log_wf_def)
    with that show False by auto
  qed
  have h1: "view t1 (log_start s) = view s (log_start s)"
    using apply_writes_other [OF out] by (simp add: t1(5))
  obtain t2 where t2: "write_head t1 = Ok () t2" "log_ok t2 L" "bio_frame t1 t2" "rc t2 = rc s"
      "view t2 = (view t1)(log_start s := commit_header s)" "disk t2 = (disk t1)(log_start s := commit_header s)"
      "disk_writes t2 = disk_writes t1 @ [(log_start s, commit_header s)]"
    using write_head_ok [OF t1(2), of "length L" "commit_header s"] card n h1
    by (auto simp: t1(4) f1 commit_header_def)
  note f2 = log_frame [OF t2(3)]
  have logv: "view t2 (log_start s + of_nat i + 1) = view s (L ! i)" if "i < length L" for i
  proof -
    have "unat (log_start s + of_nat i + 1) = unat (log_start s) + i + 1"
      using log_block(1) [of s i] ok n(2) that by (auto simp: log_ok_def log_wf_def)
    then have "log_start s + of_nat i + 1 \<noteq> log_start s" unfolding word_unat_eq_iff by linarith
    then show ?thesis using view_log_blocks [OF ok that] by (simp add: t2(5) t1(5))
  qed
  let ?hw = "map (\<lambda>b. (b, view s b)) L"
  have hw: "home_writes (log_start t2) L (view t2) [0..<length L] = ?hw"
  proof -
    have "home_writes (log_start t2) L (view t2) [0..<length L] = map (\<lambda>i. (L ! i, view s (L ! i))) [0..<length L]"
      using logv by (simp add: home_writes_def f1 f2)
    also have "\<dots> = map ((\<lambda>b. (b, view s b)) \<circ> (!) L) [0..<length L]" by (simp add: comp_def)
    also have "\<dots> = ?hw" by (simp only: list.map_comp [symmetric] map_nth)
    finally show ?thesis .
  qed
  obtain t3 where t3: "install_trans False t2 = Ok () t3" "log_ok t3 L" "bio_frame t2 t3"
      "rc t3 = (\<lambda>b. if b \<in> set L then rc t2 b - 1 else rc t2 b)"
      "view t3 = apply_writes ?hw (view t2)" "disk t3 = apply_writes ?hw (disk t2)"
      "disk_writes t3 = disk_writes t2 @ ?hw"
  proof -
    have "(!) L ` set [0..<length L] = set L" "distinct (map ((!) L) [0..<length L])"
      using d by (simp_all add: map_nth nth_image flip: set_map)
    then show ?thesis
      using that install_loop_ok [OF t2(2) sub, of False] card pos t2(4) hw n
      by (auto simp: install_trans_def f1 f2 t2(4))
  qed
  note f3 = log_frame [OF t3(3)]
  have rc3: "rc t3 = (\<lambda>b. rc s b - 1)" using zero by (auto simp: t3(4) t2(4) fun_eq_iff)
  have c3: "card {x. 0 < rc t3 x} < NBUF"
  proof -
    have "card {x. 0 < rc t3 x} \<le> card {x. 0 < rc s x}" by (rule card_mono) (auto simp: rc3)
    with card show ?thesis by linarith
  qed
  have "log_start s \<notin> set L"
    using ok by (auto simp: log_ok_def log_wf_def log_area_def)
  then have h3: "view t3 (log_start s) = commit_header s"
    by (simp add: t3(5) apply_writes_other t2(5) image_iff)
  let ?s3 = "t3\<lparr>lh_n := 0\<rparr>"
  note bc3 = bio_cong [of ?s3 t3]
  let ?h0 = "put_field 4 (commit_header s) 0 (0 :: u32)"
  obtain t where t: "write_head ?s3 = Ok () t" "log_ok t []" "bio_frame ?s3 t" "rc t = rc t3"
      "disk t = (disk t3)(log_start s := ?h0)" "disk_writes t = disk_writes t3 @ [(log_start s, ?h0)]"
    using write_head_ok [OF log_ok_clear [OF t3(2)], of 0 ?h0] c3 bc3 h3
    by (auto simp: f1 f2 f3 header_bytes_def)
  have "commit s = Ok () t"
    using n ne t1(1) t2(1) t3(1) t(1) by (simp add: commit_def)
  moreover have "bio_frame s (t\<lparr>lh_n := lh_n s\<rparr>)"
  proof -
    have "bio_frame s t3" using t1(3) t2(3) t3(3) bio_frame_trans by blast
    moreover have "bio_frame t3 (t\<lparr>lh_n := lh_n s\<rparr>)"
      using bio_frame_lh_n [OF t(3)] by (simp add: f1 f2 f3)
    ultimately show ?thesis by (rule bio_frame_trans)
  qed
  ultimately show ?thesis
    using t rc3 t1(6,7) t2(6,7) t3(6,7)
    by (intro exI [of _ t]) (simp add: commit_writes_def apply_writes_append)
qed

section \<open>Recovery\<close>

text \<open>What recovery and updates under a transaction leave alone: everything but the cache, the disk and the header.\<close>

definition log_only :: "'a log_st_scheme \<Rightarrow> 'a log_st_scheme \<Rightarrow> bool" where
  "log_only s t \<longleftrightarrow> (\<exists>bs v d w ps n b. t = s\<lparr>procs := ps, bcache := bs, vdisk := v, disk := d, disk_writes := w,
     lh_n := n, lh_block := b\<rparr> \<and> woken (procs s) ps)"

lemma log_only_header:
  assumes "bio_frame s (t\<lparr>lh_n := n, lh_block := b\<rparr>)"
  shows "log_only s t"
proof -
  obtain bs v d w ps where "t\<lparr>lh_n := n, lh_block := b\<rparr> = s\<lparr>procs := ps, bcache := bs, vdisk := v, disk := d, disk_writes := w\<rparr>"
      and w: "woken (procs s) ps"
    using assms unfolding bio_frame_def by blast
  then have "(t\<lparr>lh_n := n, lh_block := b\<rparr>)\<lparr>lh_n := lh_n t, lh_block := lh_block t\<rparr> =
      s\<lparr>procs := ps, bcache := bs, vdisk := v, disk := d, disk_writes := w, lh_n := lh_n t, lh_block := lh_block t\<rparr>"
    by simp
  then have "t = s\<lparr>procs := ps, bcache := bs, vdisk := v, disk := d, disk_writes := w, lh_n := lh_n t, lh_block := lh_block t\<rparr>"
    by simp
  then show ?thesis using w unfolding log_only_def by blast
qed

lemma log_only_bio: "bio_frame s t \<Longrightarrow> log_only s t"
  using log_only_header [where t = t and s = s and n = "lh_n t" and b = "lh_block t"] by simp

lemma log_only_trans: "log_only s t \<Longrightarrow> log_only t u \<Longrightarrow> log_only s u"
proof -
  assume "log_only s t"
  then obtain bs v d w ps n b where t: "t = s\<lparr>procs := ps, bcache := bs, vdisk := v, disk := d, disk_writes := w,
      lh_n := n, lh_block := b\<rparr>" "woken (procs s) ps"
    unfolding log_only_def by blast
  assume "log_only t u"
  then obtain bs' v' d' w' ps' n' b' where "u = t\<lparr>procs := ps', bcache := bs', vdisk := v', disk := d', disk_writes := w',
      lh_n := n', lh_block := b'\<rparr>" "woken (procs t) ps'"
    unfolding log_only_def by blast
  then have "u = s\<lparr>procs := ps', bcache := bs', vdisk := v', disk := d', disk_writes := w', lh_n := n', lh_block := b'\<rparr>"
      "woken (procs s) ps'"
    using t woken_trans by simp_all
  then show ?thesis unfolding log_only_def by blast
qed

lemma log_only_lh: "log_only s (s\<lparr>lh_n := n\<rparr>)" "log_only s (s\<lparr>lh_n := n, lh_block := b\<rparr>)"
proof -
  have "log_only s (s\<lparr>lh_n := m, lh_block := c\<rparr>)" for m c
    by (rule log_only_header [where n = "lh_n s" and b = "lh_block s"]) simp
  from this [of "lh_block s" n] this [of b n] show "log_only s (s\<lparr>lh_n := n\<rparr>)" "log_only s (s\<lparr>lh_n := n, lh_block := b\<rparr>)"
    by simp_all
qed

text \<open>The blocks that a header block names.\<close>

definition header_count :: "u8 list \<Rightarrow> int" where
  "header_count h = sint (field 4 h 0 :: u32)"

definition header_blocks :: "u8 list \<Rightarrow> u32 list" where
  "header_blocks h = map (\<lambda>i. field 4 h (4 + 4 * i)) [0..<nat (header_count h)]"

text \<open>A machine that has just booted: nothing is cached.\<close>

definition booted :: "'a log_st_scheme \<Rightarrow> bool" where
  "booted s \<longleftrightarrow> bio_inv s \<and> rc s = (\<lambda>_. 0) \<and> lk s = (\<lambda>_. False) \<and> view s = disk s \<and>
     length (lh_block s) = LOGSIZE"

lemma fold_update_blocks:
  assumes "m \<le> length bs"
  shows "length (fold (\<lambda>i bs. bs[i := f i]) [0..<m] bs) = length bs \<and>
    take m (fold (\<lambda>i bs. bs[i := f i]) [0..<m] bs) = map f [0..<m]"
  using assms
proof (induction m)
  case (Suc m)
  let ?bs = "fold (\<lambda>i bs. bs[i := f i]) [0..<m] bs"
  have "length ?bs = length bs" "take m ?bs = map f [0..<m]" using Suc by simp_all
  with Suc.prems show ?case by (simp add: take_Suc_conv_app_nth)
qed simp

lemma recover_effect:
  assumes boot: "booted s" and geo: "log_dev s = ROOTDEV" "unat (log_start s) + LOGSIZE < 0x80000000"
    and h: "h = disk s (log_start s)" "length h = BSIZE" "0 \<le> header_count h" "header_count h < int LOGSIZE"
    and L: "L = header_blocks h" "\<forall>b \<in> set L. b < 0x80000000 \<and> b \<notin> log_area s"
  shows "\<exists>t. recover_from_log s = Ok () t \<and> log_ok t [] \<and> rc t = (\<lambda>_. 0) \<and> view t = disk t \<and>
    disk t = (apply_writes (home_writes (log_start s) L (disk s) [0..<length L]) (disk s))
      (log_start s := put_field 4 h 0 (0 :: u32)) \<and> log_only s t"
proof -
  have n: "nat (header_count h) = length L" "header_count h = int (length L)" "length L < LOGSIZE"
    using h(3,4) by (simp_all add: L(1) header_blocks_def)
  have ls: "log_start s < 0x80000000" using geo(2) by (simp add: word_less_nat_alt)
  have g: "bc.can_get s (log_start s)"
    unfolding bc.can_get_def using boot ls by (simp add: booted_def NBUF_def MAXOPBLOCKS_def)
  obtain i t u where r: "bread ROOTDEV (log_start s) s = Ok i t" "b_data (bcache t ! i) = view s (log_start s)"
      "bio_frame s t" "brelse i t = Ok () u"
    using bc.get_rel [OF g] by blast
  obtain i' t' where r': "bread ROOTDEV (log_start s) s = Ok i' t'" "bio_inv t'"
      "buf_of t' = (buf_of s)(log_start s := Some i')" "rc t' = (rc s)(log_start s := Suc (rc s (log_start s)))"
      "lk t' = (lk s)(log_start s := True)" "view t' = view s" "disk t' = disk s" "disk_writes t' = disk_writes s"
    using bc.get_ok [of s "log_start s"] g unfolding bc.can_get_def by blast
  have it: "i' = i" "t' = t" using r(1) r'(1) by simp_all
  note f = log_frame [OF r(3)]
  let ?bl = "fold (\<lambda>i bs. bs[i := field 4 h (4 + 4 * i)]) [0..<length L] (lh_block s)"
  have "L = map (\<lambda>i. field 4 h (4 + 4 * i)) [0..<length L]"
    using n(1) L(1) unfolding header_blocks_def by metis
  moreover have "length (lh_block s) = LOGSIZE" using boot by (simp add: booted_def)
  ultimately have bl: "length ?bl = LOGSIZE" "take (length L) ?bl = L"
    using fold_update_blocks [of "length L" "lh_block s" "\<lambda>i. field 4 h (4 + 4 * i)"] n(3) by auto
  let ?t1 = "t\<lparr>lh_n := int (length L), lh_block := ?bl\<rparr>"
  note c1 = bio_cong [of ?t1 t]
  have v0: "view s = disk s" "rc s = (\<lambda>_. 0)" "lk s = (\<lambda>_. False)" using boot by (simp_all add: booted_def)
  have "bio_inv ?t1" "buf_of ?t1 (log_start s) = Some i" "lk ?t1 (log_start s)"
      "1 < rc ?t1 (log_start s) \<or> view ?t1 (log_start s) = disk ?t1 (log_start s)"
    using c1 r'(2-7) v0 by (simp_all add: it)
  from bc.rel_ok [OF this] obtain t2 where t2: "brelse i ?t1 = Ok () t2" "bio_inv t2" "bio_frame ?t1 t2"
      "rc t2 = (rc ?t1)(log_start s := rc ?t1 (log_start s) - 1)" "lk t2 = (lk ?t1)(log_start s := False)"
      "view t2 = view ?t1" "disk t2 = disk ?t1"
    by blast
  note f2 = log_frame [OF t2(3)]
  have st2: "rc t2 = (\<lambda>_. 0)" "lk t2 = (\<lambda>_. False)" "view t2 = disk s" "disk t2 = disk s"
    using t2 c1 r' v0 by (auto simp: it)
  have rh: "read_head s = Ok () t2"
    using r t2(1) h(1) n v0 geo(1) f by (simp add: read_head_def Let_def header_count_def)
  have area: "log_area t2 = log_area s" by (simp add: log_area_def f2 f)
  have ok2: "log_ok t2 L"
    using t2(2) st2 geo bl n L(2) area by (simp add: log_ok_def log_wf_def f2 f)
  have sub: "set [0..<length L] \<subseteq> {..<length L}" by auto
  let ?hw = "home_writes (log_start s) L (disk s) [0..<length L]"
  obtain t3 where t3: "install_trans True t2 = Ok () t3" "log_ok t3 L" "bio_frame t2 t3" "rc t3 = rc t2"
      "view t3 = apply_writes ?hw (disk s)" "disk t3 = apply_writes ?hw (disk s)"
    using install_loop_ok [OF ok2 sub, of True] st2
    by (auto simp: install_trans_def f2 f NBUF_def MAXOPBLOCKS_def)
  note f3 = log_frame [OF t3(3)]
  have "log_start s \<notin> set L" using L(2) by (auto simp: log_area_def)
  then have h3: "view t3 (log_start s) = h"
    using apply_writes_other [of "log_start s" ?hw "disk s"] by (simp add: t3(5) h(1) home_writes_blocks)
  let ?s3 = "t3\<lparr>lh_n := 0\<rparr>"
  note bc3 = bio_cong [of ?s3 t3]
  let ?h0 = "put_field 4 h 0 (0 :: u32)"
  obtain u where t: "write_head ?s3 = Ok () u" "log_ok u []" "rc u = rc t3"
      "view u = (view t3)(log_start s := ?h0)" "disk u = (disk t3)(log_start s := ?h0)" "bio_frame ?s3 u"
    using write_head_ok [OF log_ok_clear [OF t3(2)], of 0 ?h0] bc3 h3 t3(4) st2(1)
    by (auto simp: f f2 f3 header_bytes_def NBUF_def MAXOPBLOCKS_def)
  have "recover_from_log s = Ok () u"
    using rh t3(1) t(1) by (simp add: recover_from_log_def)
  moreover have "log_only s u"
    using log_only_bio [OF r(3)] log_only_lh(2) [of t ?bl "int (length L)"] log_only_bio [OF t2(3)] log_only_bio [OF t3(3)]
      log_only_lh(1) [of t3 0] log_only_bio [OF t(6)] by (blast intro: log_only_trans)
  ultimately show ?thesis using t t3 st2 by (intro exI [of _ u]) simp
qed

section \<open>Crashes\<close>

lemma commit_header_fields:
  assumes "log_ok s L" and "length (view s (log_start s)) = BSIZE"
  shows "length (commit_header s) = BSIZE" "header_count (commit_header s) = int (length L)"
    "header_blocks (commit_header s) = L"
proof -
  have n: "lh_n s = int (length L)" "length L \<le> LOGSIZE" using assms(1) by (auto simp: log_ok_def log_wf_def)
  note h = header_bytes_fields [OF assms(2) n(2), where bs = "lh_block s"]
  show "length (commit_header s) = BSIZE" by (simp add: commit_header_def n h)
  have "sint (of_nat (length L) :: u32) = int (length L)"
    using n(2) by (simp add: LOGSIZE_def MAXOPBLOCKS_def signed_of_nat signed_take_bit_int_eq_self)
  then show c: "header_count (commit_header s) = int (length L)"
    by (simp add: commit_header_def n h header_count_def)
  show "header_blocks (commit_header s) = L"
  proof (rule nth_equalityI)
    fix i assume "i < length (header_blocks (commit_header s))"
    then have "i < length L" by (simp add: header_blocks_def c)
    then show "header_blocks (commit_header s) ! i = L ! i"
      using log_okD(5) [OF assms(1)] c by (simp add: header_blocks_def) (simp add: commit_header_def n h)
  qed (simp add: header_blocks_def c)
qed

lemma log_writes_area:
  assumes "log_ok s L" and "b \<in> fst ` set (log_writes (log_start s) L v [0..<length L])"
  shows "b \<in> log_area s" "b \<noteq> log_start s"
proof -
  obtain i where i: "i < length L" "b = log_start s + of_nat i + 1" using assms(2) by (auto simp: log_writes_def)
  then have u: "unat b = unat (log_start s) + i + 1" "b \<in> log_area s"
    using log_block [of s i] assms(1) by (auto simp: log_ok_def log_wf_def)
  then show "b \<in> log_area s" "b \<noteq> log_start s" by auto
qed

text \<open>The disk after a prefix of the writes of a commit, before and after the header is written.\<close>

lemma crash_before:
  assumes ok: "log_ok s L" and k: "k \<le> length L" and b: "b = log_start s \<or> b \<notin> log_area s"
  shows "apply_writes (take k (commit_writes s L)) d b = d b"
proof -
  have "take k (commit_writes s L) = take k (log_writes (log_start s) L (view s) [0..<length L])"
    using k by (simp add: commit_writes_def log_writes_def)
  moreover have "b \<notin> fst ` set (take k (log_writes (log_start s) L (view s) [0..<length L]))"
    using b log_writes_area [OF ok] set_take_subset by fastforce
  ultimately show ?thesis by (simp add: apply_writes_other)
qed

lemma crash_after:
  assumes ok: "log_ok s L" and k: "length L < k" "k \<le> 2 * length L + 1"
    and d: "d = apply_writes (take k (commit_writes s L)) (disk s)"
  shows "d (log_start s) = commit_header s"
    and "i < length L \<Longrightarrow> d (log_start s + of_nat i + 1) = view s (L ! i)"
    and "b \<notin> log_area s \<Longrightarrow> b \<notin> set L \<Longrightarrow> d b = disk s b"
proof -
  let ?lw = "log_writes (log_start s) L (view s) [0..<length L]" and ?hw = "take (k - length L - 1) (map (\<lambda>b. (b, view s b)) L)"
  have "take k (commit_writes s L) = ?lw @ (log_start s, commit_header s) # ?hw"
    using k by (simp add: commit_writes_def log_writes_def take_Cons' min_def)
  then have de: "d = apply_writes ?hw ((apply_writes ?lw (disk s))(log_start s := commit_header s))"
    by (simp add: d apply_writes_append)
  have hw: "x \<notin> fst ` set ?hw" if "x \<notin> set L" for x
    using that by (auto dest!: in_set_takeD)
  have inL: "x \<notin> log_area s" if "x \<in> set L" for x using that ok by (auto simp: log_ok_def log_wf_def)
  have "log_start s \<notin> set L" using inL [of "log_start s"] by (auto simp: log_area_def)
  then show "d (log_start s) = commit_header s" using apply_writes_other [OF hw] by (simp add: de)
  show "d (log_start s + of_nat i + 1) = view s (L ! i)" if "i < length L"
  proof -
    have a: "log_start s + of_nat i + 1 \<in> fst ` set ?lw" using that by (force simp: log_writes_def)
    have "log_start s + of_nat i + 1 \<notin> set L" using inL log_writes_area(1) [OF ok a] by auto
    then show ?thesis
      using apply_writes_other [OF hw] log_writes_area(2) [OF ok a] view_log_blocks [OF ok that] by (simp add: de)
  qed
  show "d b = disk s b" if "b \<notin> log_area s" "b \<notin> set L"
  proof -
    have "b \<notin> fst ` set ?lw" using log_writes_area(1) [OF ok] that(1) by blast
    moreover have "b \<noteq> log_start s" using that(1) by (auto simp: log_area_def)
    ultimately show ?thesis using apply_writes_other [OF hw [OF that(2)]] by (simp add: de apply_writes_other)
  qed
qed

lemma crash_done:
  assumes ok: "log_ok s L" and dis: "distinct L" and k: "2 * length L + 1 < k"
    and d: "d = apply_writes (take k (commit_writes s L)) (disk s)"
  shows "d (log_start s) = put_field 4 (commit_header s) 0 (0 :: u32)"
    and "b \<notin> log_area s \<Longrightarrow> d b = (if b \<in> set L then view s b else disk s b)"
proof -
  let ?lw = "log_writes (log_start s) L (view s) [0..<length L]" and ?hw = "map (\<lambda>b. (b, view s b)) L"
  have "take k (commit_writes s L) = commit_writes s L"
    using k by (simp add: commit_writes_def log_writes_def)
  then have de: "d = (apply_writes ?hw ((apply_writes ?lw (disk s))(log_start s := commit_header s)))
      (log_start s := put_field 4 (commit_header s) 0 (0 :: u32))"
    by (simp add: d commit_writes_def apply_writes_append)
  then show "d (log_start s) = put_field 4 (commit_header s) 0 (0 :: u32)" by simp
  assume b: "b \<notin> log_area s"
  then have ne: "b \<noteq> log_start s" "b \<notin> fst ` set ?lw"
    using log_writes_area(1) [OF ok] by (auto simp: log_area_def)
  show "d b = (if b \<in> set L then view s b else disk s b)"
  proof (cases "b \<in> set L")
    case True
    then have "apply_writes ?hw v b = view s b" for v
      using dis by (intro apply_writes_at) (auto simp: comp_def)
    with True ne show ?thesis by (simp add: de)
  next
    case False
    then have "b \<notin> fst ` set ?hw" by auto
    with False ne show ?thesis by (simp add: de apply_writes_other)
  qed
qed

lemma header_count_0: "length h = BSIZE \<Longrightarrow> header_count (put_field 4 h 0 (0 :: u32)) = 0"
  by (simp add: header_count_def BSIZE_def)

lemma recover_empty:
  assumes "booted r" and "log_dev r = ROOTDEV" and "unat (log_start r) + LOGSIZE < 0x80000000"
    and "length (disk r (log_start r)) = BSIZE" and "header_count (disk r (log_start r)) = 0"
  shows "\<exists>u. recover_from_log r = Ok () u \<and> (\<forall>b. b \<notin> log_area r \<longrightarrow> disk u b = disk r b)"
proof -
  have "header_blocks (disk r (log_start r)) = []" by (simp add: header_blocks_def assms(5))
  then obtain u where "recover_from_log r = Ok () u"
      "disk u = (disk r)(log_start r := put_field 4 (disk r (log_start r)) 0 (0 :: u32))"
    using recover_effect [OF assms(1-3) refl assms(4) _ _ refl] assms(5) by (auto simp: home_writes_def)
  then show ?thesis by (auto simp: log_area_def)
qed

text \<open>
  Recovery after a crash at any point of a commit: the old contents if the crash came before the
  header was written, the new contents if it came after.
\<close>

lemma recover_crash:
  assumes ready: "commit_ready s L" and len: "length (disk s (log_start s)) = BSIZE"
    and empty: "header_count (disk s (log_start s)) = 0"
    and boot: "booted r" "log_dev r = ROOTDEV" "log_start r = log_start s"
    and d: "disk r = apply_writes (take k (commit_writes s L)) (disk s)"
  shows "\<exists>u. recover_from_log r = Ok () u \<and>
    (\<forall>b. b \<notin> log_area s \<longrightarrow> disk u b = (if k \<le> length L then disk s b else view s b))"
proof -
  have ok: "log_ok s L" and dis: "distinct L" and zero: "\<forall>b. b \<notin> set L \<longrightarrow> rc s b = 0"
    using ready by (auto simp: commit_ready_def)
  have geo: "unat (log_start r) + LOGSIZE < 0x80000000" and area: "log_area r = log_area s"
    using ok boot(3) by (auto simp: log_ok_def log_wf_def log_area_def)
  have clean: "view s b = disk s b" if "b \<notin> set L" for b
    using zero that bc.unref_clean [of s b] by simp
  have "log_start s \<notin> set L" using ok by (auto simp: log_ok_def log_wf_def log_area_def)
  then have lenv: "length (view s (log_start s)) = BSIZE" using clean len by simp
  note ch = commit_header_fields [OF ok lenv]
  consider (before) "k \<le> length L" | (after) "length L < k" "k \<le> 2 * length L + 1" | (finished) "2 * length L + 1 < k"
    by linarith
  then show ?thesis
  proof cases
    case before
    have same: "disk r b = disk s b" if "b = log_start s \<or> b \<notin> log_area s" for b
      using crash_before [OF ok before that] by (simp add: d)
    then show ?thesis
      using recover_empty [OF boot(1,2) geo] len empty before area by (simp add: boot(3))
  next
    case after
    note c = crash_after [OF ok after d]
    have blocks: "\<forall>b \<in> set L. b < 0x80000000 \<and> b \<notin> log_area r"
      using ok area by (auto simp: log_ok_def log_wf_def)
    have le: "0 \<le> header_count (commit_header s)" "header_count (commit_header s) < int LOGSIZE"
      using ch(2) ok by (auto simp: log_ok_def log_wf_def)
    have hd: "commit_header s = disk r (log_start r)" using c(1) boot(3) by simp
    obtain u where u: "recover_from_log r = Ok () u"
        "disk u = (apply_writes (home_writes (log_start s) L (disk r) [0..<length L]) (disk r))
          (log_start s := put_field 4 (commit_header s) 0 (0 :: u32))"
      using recover_effect [OF boot(1,2) geo hd ch(1) le ch(3) [symmetric] blocks] unfolding boot(3) by blast
    have "disk u b = view s b" if b: "b \<notin> log_area s" for b
    proof -
      have ne: "b \<noteq> log_start s" using b by (auto simp: log_area_def)
      show ?thesis
      proof (cases "b \<in> set L")
        case True
        then obtain i where i: "i < length L" "b = L ! i" by (auto simp: in_set_conv_nth)
        have "map fst (home_writes (log_start s) L (disk r) [0..<length L]) = L"
          by (simp add: home_writes_def comp_def map_nth)
        moreover have "(b, view s b) \<in> set (home_writes (log_start s) L (disk r) [0..<length L])"
          using i c(2) [OF i(1)] by (force simp: home_writes_def)
        ultimately show ?thesis using u(2) ne dis apply_writes_at by fastforce
      next
        case False
        then show ?thesis using u(2) ne c(3) [OF b False] clean [OF False]
          by (simp add: apply_writes_other home_writes_blocks)
      qed
    qed
    with u(1) after(1) show ?thesis by auto
  next
    case finished
    note c = crash_done [OF ok dis finished d]
    have "header_count (disk r (log_start r)) = 0" "length (disk r (log_start r)) = BSIZE"
      using c(1) header_count_0 [OF ch(1)] ch(1) by (simp_all add: boot(3) BSIZE_def)
    then obtain u where "recover_from_log r = Ok () u" "\<forall>b. b \<notin> log_area r \<longrightarrow> disk u b = disk r b"
      using recover_empty [OF boot(1,2) geo] by blast
    then show ?thesis using c(2) clean finished area by auto
  qed
qed

section \<open>Logging a block\<close>

lemma log_index_find:
  "i + k \<le> length bs \<Longrightarrow> log_index bs k bn i = (case find (\<lambda>j. bs ! j = bn) [i..<i + k] of None \<Rightarrow> i + k | Some j \<Rightarrow> j)"
proof (induction k arbitrary: i)
  case (Suc k)
  have "[i..<i + Suc k] = i # [Suc i..<Suc i + k]" by (subst upt_conv_Cons) simp_all
  with Suc.IH [of "Suc i"] Suc.prems show ?case by (simp split: option.split)
qed simp

lemma log_index_eq:
  assumes "log_wf s L"
  shows "log_index (lh_block s) (length L) bn 0 = (case find (\<lambda>j. L ! j = bn) [0..<length L] of None \<Rightarrow> length L | Some j \<Rightarrow> j)"
proof -
  have "length L \<le> length (lh_block s)" "\<And>j. j < length L \<Longrightarrow> lh_block s ! j = L ! j"
    using assms by (auto simp: log_wf_def) (metis nth_take)
  then show ?thesis
    using log_index_find [of 0 "length L" "lh_block s" bn] find_cong [of "[0..<length L]" "[0..<length L]"
      "\<lambda>j. lh_block s ! j = bn" "\<lambda>j. L ! j = bn"] by (simp split: option.split)
qed

text \<open>\<open>log_write\<close> with room: a block that is new to the transaction is appended and pinned.\<close>

lemma log_write_law:
  assumes wf: "log_wf s L" and bo: "buf_of s bn = Some b" and out: "1 \<le> log_outstanding s"
    and room: "log_size s \<le> int LOGSIZE" "int (length L) < log_size s - 1" and bn: "bn < 0x80000000" "bn \<notin> log_area s"
    and sm: "Suc (Suc (rc s bn)) < 2 ^ 32"
  shows "\<exists>t. log_write b s = Ok () t \<and> log_wf t (if bn \<in> set L then L else L @ [bn]) \<and>
    (bio_frame s (t\<lparr>lh_n := lh_n s, lh_block := lh_block s\<rparr>)) \<and>
    buf_of t = buf_of s \<and> rc t = (if bn \<in> set L then rc s else (rc s)(bn := Suc (rc s bn))) \<and>
    lk t = lk s \<and> view t = view s \<and> disk t = disk s \<and> disk_writes t = disk_writes s"
proof -
  have n: "lh_n s = int (length L)" "length (lh_block s) = LOGSIZE" "take (length L) (lh_block s) = L"
    using wf by (auto simp: log_wf_def)
  have bb: "b_blockno (bcache s ! b) = bn" using buf_of_SomeD [OF bo] by simp
  have inv: "bio_inv s" using wf by (simp add: log_wf_def)
  show ?thesis
  proof (cases "find (\<lambda>j. L ! j = bn) [0..<length L]")
    case (Some j)
    then have j: "j < length L" "L ! j = bn" using find_SomeD [OF Some] by auto
    then have m: "bn \<in> set L" by auto
    have "lh_block s ! j = bn" using n(3) j by (metis nth_take)
    then have "(lh_block s)[j := bn] = lh_block s" by (metis list_update_id)
    then have "log_write b s = Ok () s"
      using n room out j Some by (simp add: log_write_def bb log_index_eq [OF wf])
    then show ?thesis using wf m by (intro exI [of _ s]) simp
  next
    case None
    then have m: "bn \<notin> set L" by (auto simp: find_None_iff in_set_conv_nth)
    let ?s1 = "s\<lparr>lh_block := (lh_block s)[length L := bn]\<rparr>"
    let ?t = "(bpin b ?s1)\<lparr>lh_n := int (length L) + 1\<rparr>"
    have lw: "log_write b s = Ok () ?t"
      using n room out None by (simp add: log_write_def bb log_index_eq [OF wf] Let_def)
    note c1 = bio_cong [of ?s1 s] and c2 = bio_cong [of ?t "bpin b ?s1"]
    have "bio_inv ?s1" "buf_of ?s1 bn = Some b" "Suc (rc ?s1 bn) < 2 ^ 32"
      using inv bo sm c1 by simp_all
    note p = bpin_law [OF this]
    note f = log_frame [OF p(2)]
    have rct: "rc ?t = (rc s)(bn := Suc (rc s bn))" using p(4) c1 c2 by simp
    have lt: "Suc (length L) < LOGSIZE" using room by simp
    then have tk: "take (Suc (length L)) ((lh_block s)[length L := bn]) = L @ [bn]"
      using n(2,3) by (simp add: take_Suc_conv_app_nth)
    have area: "log_area ?t = log_area s" by (simp add: log_area_def f)
    have "log_wf ?t (L @ [bn])"
      using wf bn lt p(1) c2(1) rct sm tk area n by (auto simp: log_wf_def f)
    moreover have "bio_frame s (?t\<lparr>lh_n := lh_n s, lh_block := lh_block s\<rparr>)"
    proof -
      have "?t\<lparr>lh_n := lh_n s, lh_block := lh_block s\<rparr> = s\<lparr>bcache := bcache (bpin b ?s1)\<rparr>"
        by (cases s) (simp add: bpin_def upd_buf_def)
      then show ?thesis using bio_frame_bufs by simp
    qed
    ultimately show ?thesis
      using lw m rct p c1 c2 by (intro exI [of _ ?t]) simp
  qed
qed

text \<open>The idiom of the file system: read a block, change it, log it, release it.\<close>

definition logged_update ::
    "u32 \<Rightarrow> (u8 list \<Rightarrow> u8 list) \<Rightarrow> 'a log_st_scheme \<Rightarrow> (unit, 'a log_st_scheme) res" where
  "logged_update bn f s =
     bind (bread ROOTDEV bn s) (\<lambda>b s.
     bind (log_write b (set_bdata b (f (b_data (bcache s ! b))) s)) (\<lambda>_ s. brelse b s))"

definition tx :: "'a log_st_scheme \<Rightarrow> u32 list \<Rightarrow> bool" where
  "tx s L \<longleftrightarrow> log_wf s L \<and> 1 \<le> log_outstanding s \<and> distinct L \<and> (\<forall>b \<in> set L. 0 < rc s b)"

lemma logged_update_law:
  assumes t: "tx s L" and nl: "\<not> lk s bn" and cap: "0 < rc s bn \<or> card {x. 0 < rc s x} < NBUF"
    and room: "log_size s \<le> int LOGSIZE" "int (length L) < log_size s - 1" and bn: "bn < 0x80000000" "bn \<notin> log_area s"
    and sm: "Suc (Suc (Suc (rc s bn))) < 2 ^ 32"
  shows "\<exists>t. logged_update bn f s = Ok () t \<and> tx t (if bn \<in> set L then L else L @ [bn]) \<and>
    rc t = (if bn \<in> set L then rc s else (rc s)(bn := Suc (rc s bn))) \<and> lk t = lk s \<and>
    view t = (view s)(bn := f (view s bn)) \<and> disk t = disk s \<and> disk_writes t = disk_writes s \<and>
    log_start t = log_start s \<and> log_size t = log_size s \<and> log_outstanding t = log_outstanding s \<and> log_only s t"
proof -
  have wf: "log_wf s L" and out: "1 \<le> log_outstanding s" and dis: "distinct L" and pins: "\<forall>b \<in> set L. 0 < rc s b"
    using t by (simp_all add: tx_def)
  have inv: "bio_inv s" using wf by (simp add: log_wf_def)
  obtain b s1 where 1: "bread ROOTDEV bn s = Ok b s1" "bio_inv s1" "bio_frame s s1" "buf_of s1 = (buf_of s)(bn := Some b)"
      "rc s1 = (rc s)(bn := Suc (rc s bn))" "lk s1 = (lk s)(bn := True)" "view s1 = view s" "disk s1 = disk s"
      "disk_writes s1 = disk_writes s"
    using bc.get_ok [OF inv bn(1) nl cap] sm by auto
  note f1 = log_frame [OF 1(3)]
  have bo: "buf_of s1 bn = Some b" by (simp add: 1)
  have dat: "b_data (bcache s1 ! b) = view s bn" using bc.dat_own [OF bo] by (simp add: 1)
  let ?d = "f (view s bn)"
  let ?s2 = "set_bdata b ?d s1"
  note m = modify_law [OF 1(2) bo, of ?d]
  note f2 = log_frame [OF m(2)]
  have area: "log_area ?s2 = log_area s" by (simp add: log_area_def f1 f2)
  have wf2: "log_wf ?s2 L"
  proof -
    have "Suc (rc ?s2 x) < 2 ^ 32" for x using wf sm by (auto simp: m(4) 1(5) log_wf_def)
    then show ?thesis using wf m(1) area by (simp add: log_wf_def f1 f2)
  qed
  let ?L = "if bn \<in> set L then L else L @ [bn]"
  obtain s3 where 3: "log_write b ?s2 = Ok () s3" "log_wf s3 ?L" "bio_frame ?s2 (s3\<lparr>lh_n := lh_n ?s2, lh_block := lh_block ?s2\<rparr>)"
      "buf_of s3 = buf_of ?s2" "rc s3 = (if bn \<in> set L then rc ?s2 else (rc ?s2)(bn := Suc (rc ?s2 bn)))"
      "lk s3 = lk ?s2" "view s3 = view ?s2" "disk s3 = disk ?s2" "disk_writes s3 = disk_writes ?s2"
    using log_write_law [OF wf2, of bn b] m bo out room bn area sm by (auto simp: f1 f2 1(5))
  note f3 = log_frame(1-5) [OF 3(3), simplified]
  have "bio_inv s3" using 3(2) by (simp add: log_wf_def)
  moreover have "buf_of s3 bn = Some b" "lk s3 bn" using 3 m bo 1(6) by simp_all
  moreover have "1 < rc s3 bn" using 3(5) m(4) 1(5) pins by auto
  ultimately obtain u where u: "brelse b s3 = Ok () u" "bio_inv u" "bio_frame s3 u" "rc u = (rc s3)(bn := rc s3 bn - 1)"
      "lk u = (lk s3)(bn := False)" "view u = view s3" "disk u = disk s3" "disk_writes u = disk_writes s3"
    using bc.rel_ok [of s3 bn b] by blast
  note fu = log_frame [OF u(3)]
  have rcu: "rc u = (if bn \<in> set L then rc s else (rc s)(bn := Suc (rc s bn)))"
    using u(4) 3(5) m(4) 1(5) by auto
  have "log_wf u ?L"
  proof -
    have "Suc (rc u x) < 2 ^ 32" for x using wf sm by (auto simp: rcu log_wf_def)
    moreover have "log_area u = log_area s3" by (simp add: log_area_def fu)
    ultimately show ?thesis using 3(2) u(2) fu by (simp add: log_wf_def)
  qed
  then have "tx u ?L"
    using out dis pins by (auto simp: tx_def fu f3 f2 f1 rcu)
  moreover have "logged_update bn f s = Ok () u"
    using 1(1) dat 3(1) u(1) by (simp add: logged_update_def)
  moreover have "lk u = lk s" using u(5) 3(6) m(5) 1(6) nl by (auto simp: fun_upd_idem_iff)
  moreover have "log_only s u"
    using log_only_trans [OF log_only_trans [OF log_only_trans [OF log_only_bio [OF 1(3)] log_only_bio [OF m(2)]]
      log_only_header [OF 3(3)]] log_only_bio [OF u(3)]] .
  ultimately show ?thesis
    using rcu u(6-8) 3(7-9) m(6-8) 1(7-9) f3 f2 f1 fu by (intro exI [of _ u]) simp
qed

section \<open>Properties\<close>

text \<open>The booted machine on a given disk, its log at block 2, with one system call under way.\<close>

definition log_machine :: "(u32 \<Rightarrow> u8 list) \<Rightarrow> log_st" where
  "log_machine d = binit (virtio_st.extend (machine0\<lparr>disk := d\<rparr>)
     (log_st.fields 2 30 1 False ROOTDEV 0 (replicate LOGSIZE 0)))"

lemma log_machine_facts:
  "bio_inv (log_machine d)" "rc (log_machine d) = (\<lambda>_. 0)" "lk (log_machine d) = (\<lambda>_. False)"
  "view (log_machine d) = d" "disk (log_machine d) = d"
  "disk_writes (log_machine d) = []" "log_start (log_machine d) = 2" "log_size (log_machine d) = 30"
  "log_outstanding (log_machine d) = 1" "log_dev (log_machine d) = ROOTDEV" "lh_n (log_machine d) = 0"
  "lh_block (log_machine d) = replicate LOGSIZE 0"
proof -
  let ?m = "virtio_st.extend (machine0\<lparr>disk := d\<rparr>) (log_st.fields 2 30 1 False ROOTDEV 0 (replicate LOGSIZE 0)) :: log_st"
  have "fresh_bufs ?m" "vdisk_idle (vdisk ?m)" "me ?m < length (procs ?m)"
    using machine0_ok by (simp_all add: virtio_st.extend_def fresh_bufs_def me_def myproc_def)
  note b = binit_inv [OF this]
  show "bio_inv (log_machine d)" "rc (log_machine d) = (\<lambda>_. 0)" "lk (log_machine d) = (\<lambda>_. False)"
    unfolding log_machine_def by (fact b)+
  show "view (log_machine d) = d" "disk (log_machine d) = d" "disk_writes (log_machine d) = []"
    unfolding log_machine_def using b by (simp_all add: virtio_st.extend_def machine0_def)
  obtain bs where e: "log_machine d = ?m\<lparr>bcache := bs\<rparr>" using binit_frame unfolding log_machine_def by blast
  show "log_start (log_machine d) = 2" "log_size (log_machine d) = 30" "log_outstanding (log_machine d) = 1"
    "log_dev (log_machine d) = ROOTDEV" "lh_n (log_machine d) = 0" "lh_block (log_machine d) = replicate LOGSIZE 0"
    unfolding e by (simp_all add: virtio_st.extend_def log_st.fields_def)
qed

lemma log_machine_tx: "tx (log_machine d) []" "booted (log_machine d)"
  by (simp_all add: tx_def log_wf_def booted_def log_machine_facts LOGSIZE_def MAXOPBLOCKS_def)

text \<open>
  C1: A commit is atomic under crashes. From a state in which the blocks of the transaction, and
  only they, are in use, and the log on disk is empty, \<open>commit\<close> returns. If the machine crashes
  after any number \<open>k\<close> of its disk writes and boots again with nothing cached, \<open>initlog\<close> returns and
  every block outside the log then has its contents from before the transaction, when the crash came
  before the header was written, and the contents the transaction gave it otherwise.
\<close>

theorem commit_crash_atomic:
  assumes "commit_ready s L" and "length (disk s (log_start s)) = BSIZE"
    and "header_count (disk s (log_start s)) = 0"
  shows "\<exists>t ws. commit s = Ok () t \<and> disk_writes t = disk_writes s @ ws \<and>
    (\<forall>k r sb. booted r \<and> sb_logstart sb = log_start s \<and> disk r = apply_writes (take k ws) (disk s) \<longrightarrow>
      (\<exists>u. initlog ROOTDEV sb r = Ok () u \<and>
        (\<forall>b. b \<notin> log_area s \<longrightarrow> disk u b = (if k \<le> length L then disk s b else view s b))))"
proof -
  have "log_start s \<notin> set L" using assms(1) by (auto simp: commit_ready_def log_ok_def log_wf_def log_area_def)
  then have "view s (log_start s) = disk s (log_start s)"
    using assms(1) bc.unref_clean [of s "log_start s"] by (simp add: commit_ready_def)
  then obtain t where t: "commit s = Ok () t" "disk_writes t = disk_writes s @ commit_writes s L"
    using commit_effect [OF assms(1)] assms(2) by auto
  have "\<exists>u. initlog ROOTDEV sb r = Ok () u \<and>
      (\<forall>b. b \<notin> log_area s \<longrightarrow> disk u b = (if k \<le> length L then disk s b else view s b))"
    if r: "booted r" "sb_logstart sb = log_start s" "disk r = apply_writes (take k (commit_writes s L)) (disk s)" for k r sb
  proof -
    let ?r = "r\<lparr>log_start := sb_logstart sb, log_size := sint (sb_nlog sb), log_dev := ROOTDEV\<rparr>"
    have "booted ?r" using r(1) bio_cong [of ?r r] by (simp add: booted_def)
    then show ?thesis
      using recover_crash [OF assms, of ?r k] r(2,3)
      by (simp add: initlog_def LOGSIZE_def MAXOPBLOCKS_def BSIZE_def)
  qed
  then show ?thesis using t by blast
qed

theorem commit_crash_atomic_witness:
  "\<exists>s t ws u v sb. view s 100 = replicate BSIZE 7 \<and> disk s 100 = replicate BSIZE 0 \<and> commit s = Ok () (t :: log_st) \<and>
    disk_writes t = disk_writes s @ ws \<and>
    initlog ROOTDEV sb (log_machine (apply_writes (take 1 ws) (disk s))) = Ok () u \<and> disk u 100 = replicate BSIZE 0 \<and>
    initlog ROOTDEV sb (log_machine (apply_writes (take 2 ws) (disk s))) = Ok () v \<and> disk v 100 = replicate BSIZE 7"
proof -
  let ?z = "\<lambda>_::u32. replicate BSIZE (0::u8)"
  let ?sb = "\<lparr>sb_magic = 0, sb_size = 0, sb_nblocks = 0, sb_ninodes = 0, sb_nlog = 30, sb_logstart = 2,
    sb_inodestart = 0, sb_bmapstart = 0\<rparr>"
  note m = log_machine_facts
  have na: "100 \<notin> log_area (log_machine ?z)" by (simp add: log_area_def m LOGSIZE_def MAXOPBLOCKS_def)
  obtain s :: log_st where s: "tx s [100]" "rc s = (rc (log_machine ?z))(100 := 1)" "lk s = lk (log_machine ?z)"
      "view s = (view (log_machine ?z))(100 := replicate BSIZE 7)" "disk s = ?z" "log_start s = 2"
    using logged_update_law [OF log_machine_tx(1), of ?z 100 "\<lambda>_. replicate BSIZE 7"] na
    by (auto simp: m NBUF_def LOGSIZE_def MAXOPBLOCKS_def)
  have rd: "commit_ready s [100]"
    using s by (simp add: commit_ready_def log_ok_def tx_def m LOGSIZE_def MAXOPBLOCKS_def)
  have ln: "length (disk s (log_start s)) = BSIZE" by (simp add: s)
  have "field 4 (replicate BSIZE 0) 0 = (0 :: u32)"
    by (simp add: field_def BSIZE_def numeral_eq_Suc)
  then have hc: "header_count (disk s (log_start s)) = 0" by (simp add: s header_count_def)
  have na: "100 \<notin> log_area s" using na by (simp add: log_area_def s m)
  obtain t ws where t: "commit s = Ok () t" "disk_writes t = disk_writes s @ ws"
    and rec: "\<And>k (r :: log_st) sb. booted r \<Longrightarrow> sb_logstart sb = log_start s \<Longrightarrow> disk r = apply_writes (take k ws) (disk s) \<Longrightarrow>
      \<exists>u. initlog ROOTDEV sb r = Ok () u \<and>
        (\<forall>b. b \<notin> log_area s \<longrightarrow> disk u b = (if k \<le> length [100::u32] then disk s b else view s b))"
    using commit_crash_atomic [OF rd ln hc] by blast
  have "\<exists>u. initlog ROOTDEV ?sb (log_machine (apply_writes (take k ws) (disk s))) = Ok () u \<and>
      disk u 100 = (if k \<le> 1 then disk s 100 else view s 100)" for k
    using rec [of "log_machine (apply_writes (take k ws) (disk s))" ?sb k] log_machine_tx(2) na
    by (auto simp: m s(6))
  from this [of 1] this [of 2] obtain u v where
    "initlog ROOTDEV ?sb (log_machine (apply_writes (take 1 ws) (disk s))) = Ok () u" "disk u 100 = replicate BSIZE 0"
    "initlog ROOTDEV ?sb (log_machine (apply_writes (take 2 ws) (disk s))) = Ok () v" "disk v 100 = replicate BSIZE 7"
    by (auto simp: s m)
  moreover have "view s 100 = replicate BSIZE 7" "disk s 100 = replicate BSIZE 0" by (simp_all add: s m)
  ultimately show ?thesis using t by blast
qed

text \<open>
  C8: Updates wait for the commit. Inside a transaction with room in the log, reading a block,
  changing it, logging it and releasing it returns; the change is what every later read sees, the
  disk is not written, the block is in the transaction once, however often it is logged, and it stays
  in the cache until the commit.
\<close>

theorem logged_update_deferred:
  assumes "tx s L" and "\<not> lk s bn" and "0 < rc s bn \<or> card {x. 0 < rc s x} < NBUF"
    and "log_size s \<le> int LOGSIZE" and "int (length L) < log_size s - 1" and "bn < 0x80000000" and "bn \<notin> log_area s"
    and "Suc (Suc (Suc (rc s bn))) < 2 ^ 32"
  shows "\<exists>t. bind (bread ROOTDEV bn s) (\<lambda>b s.
       bind (log_write b (set_bdata b (f (b_data (bcache s ! b))) s)) (\<lambda>_ s. brelse b s)) = Ok () t \<and>
    tx t (if bn \<in> set L then L else L @ [bn]) \<and>
    rc t = (if bn \<in> set L then rc s else (rc s)(bn := Suc (rc s bn))) \<and>
    view t = (view s)(bn := f (view s bn)) \<and> disk t = disk s \<and> disk_writes t = disk_writes s"
  using logged_update_law [OF assms] unfolding logged_update_def by blast

theorem logged_update_deferred_witness:
  "\<exists>t. bind (bread ROOTDEV 45 (log_machine (\<lambda>_. [1, 2]))) (\<lambda>b s.
       bind (log_write b (set_bdata b (rev (b_data (bcache s ! b))) s)) (\<lambda>_ s. brelse b s)) = Ok () t \<and>
    tx t [45] \<and> view t 45 = [2, 1] \<and> disk_writes t = []"
  using logged_update_deferred [OF log_machine_tx(1) [of "\<lambda>_. [1, 2]"], where bn = 45 and f = rev]
  by (auto simp: log_machine_facts log_area_def NBUF_def LOGSIZE_def MAXOPBLOCKS_def)

text \<open>A system call that logs a series of blocks, one after the other.\<close>

fun logged_updates :: "u32 list \<Rightarrow> (u8 list \<Rightarrow> u8 list) \<Rightarrow> 'a log_st_scheme \<Rightarrow> (unit, 'a log_st_scheme) res" where
  "logged_updates [] f s = Ok () s"
| "logged_updates (bn # bns) f s = bind (logged_update bn f s) (\<lambda>_ s. logged_updates bns f s)"

text \<open>A transaction in which nothing is in the cache but the blocks it has logged.\<close>

definition tx_only :: "'a log_st_scheme \<Rightarrow> u32 list \<Rightarrow> bool" where
  "tx_only s L \<longleftrightarrow> tx s L \<and> lk s = (\<lambda>_. False) \<and> rc s = (\<lambda>b. if b \<in> set L then 1 else 0) \<and>
     log_size s = int LOGSIZE"

lemma tx_only_card: "tx_only s L \<Longrightarrow> card {b. 0 < rc s b} = length L"
  by (simp add: tx_only_def tx_def distinct_card)

lemma logged_updates_law:
  assumes "tx_only s L" and "distinct (L @ bns)" and "length L + length bns < LOGSIZE"
    and "\<forall>b \<in> set bns. b < 0x80000000 \<and> b \<notin> log_area s"
  shows "\<exists>t. logged_updates bns f s = Ok () t \<and> tx_only t (L @ bns) \<and> log_area t = log_area s"
  using assms
proof (induction bns arbitrary: s L)
  case (Cons bn bns)
  have tx: "tx s L" and l: "lk s = (\<lambda>_. False)" and r: "rc s = (\<lambda>b. if b \<in> set L then 1 else 0)"
    and n: "log_size s = int LOGSIZE" using Cons.prems(1) by (simp_all add: tx_only_def)
  have cap: "card {x. 0 < rc s x} < NBUF"
    using tx_only_card [OF Cons.prems(1)] Cons.prems(3) by (simp add: NBUF_def LOGSIZE_def)
  obtain t where t: "logged_update bn f s = Ok () t" "tx t (L @ [bn])" "rc t = (rc s)(bn := Suc (rc s bn))" "lk t = lk s"
      "log_start t = log_start s" "log_size t = log_size s"
    using logged_update_law [OF tx, of bn f] l cap n Cons.prems(2-4) by (auto simp: r)
  have a: "log_area t = log_area s" by (simp add: log_area_def t(5))
  have "tx_only t (L @ [bn])" using t l r n Cons.prems(2) by (auto simp: tx_only_def)
  then obtain u where "logged_updates bns f t = Ok () u" "tx_only u ((L @ [bn]) @ bns)" "log_area u = log_area t"
    using Cons.IH [of t "L @ [bn]"] Cons.prems(2-4) a by auto
  then show ?case using t(1) a by auto
qed simp

text \<open>A block more than the log takes.\<close>

lemma logged_update_too_big:
  assumes "tx_only s L" and "Suc (length L) = LOGSIZE" and "bn < 0x80000000" and "bn \<notin> set L"
  shows "logged_update bn f s = Panic ''too big a transaction''"
proof -
  have wf: "log_wf s L" using assms(1) by (simp add: tx_only_def tx_def)
  have cap: "card {x. 0 < rc s x} < NBUF"
    using tx_only_card [OF assms(1)] assms(2) by (simp add: NBUF_def LOGSIZE_def)
  obtain b t where b: "bread ROOTDEV bn s = Ok b t" "bio_frame s t"
    using bc.get_ok [of s bn] assms cap wf by (auto simp: log_wf_def tx_only_def)
  have "lh_n t = int LOGSIZE - 1" "log_size t = int LOGSIZE"
    using log_frame [OF b(2)] wf assms(1,2) by (simp_all add: log_wf_def tx_only_def)
  then show ?thesis using b(1) by (simp add: logged_update_def log_write_def set_bdata_def upd_buf_def)
qed

text \<open>A freshly mounted log lets three system calls in.\<close>

lemma begin_op_three:
  assumes "log_ok s []" and "rc s = (\<lambda>_. 0)" and "log_size s = int LOGSIZE" and "log_outstanding s = 0" and "\<not> log_committing s"
  shows "\<exists>t. bind (begin_op s) (\<lambda>_ s. bind (begin_op s) (\<lambda>_ s. begin_op s)) = Ok () t \<and> tx_only t [] \<and> log_area t = log_area s"
proof -
  let ?t = "s\<lparr>log_outstanding := 3\<rparr>"
  have "lh_n s = 0" using assms(1) by (simp add: log_ok_def log_wf_def)
  then have "bind (begin_op s) (\<lambda>_ s. bind (begin_op s) (\<lambda>_ s. begin_op s)) = Ok () ?t"
    using assms(4,5) by (simp add: begin_op_def LOGSIZE_def MAXOPBLOCKS_def)
  moreover have a: "log_area ?t = log_area s" by (simp add: log_area_def)
  moreover have "tx_only ?t []"
    using assms(1-3) a bio_cong [of ?t s] by (simp add: tx_only_def tx_def log_ok_def log_wf_def)
  ultimately show ?thesis by blast
qed

text \<open>
  C34: The reservations of \<open>begin_op\<close> are one block short. On a machine that has just booted with an empty log
  of the size that \<open>mkfs\<close> makes, three system calls may begin at once, with \<open>MAXOPBLOCKS\<close> blocks reserved
  for each; but when between them they log that many different blocks from outside the log area, all
  but the last are taken and the last \<open>log_write\<close> panics: \<open>log_write\<close> leaves one block of the log for its
  header, and \<open>begin_op\<close> does not count it.
\<close>

theorem begin_op_overcommits:
  assumes "booted r" and "log_outstanding r = 0" and "\<not> log_committing r" and "sb_nlog sb = of_nat LOGSIZE"
    and "unat (sb_logstart sb) + LOGSIZE < 0x80000000" and "length (disk r (sb_logstart sb)) = BSIZE"
    and "header_count (disk r (sb_logstart sb)) = 0"
    and "length bns = 3 * MAXOPBLOCKS" and "distinct bns"
    and "\<forall>b \<in> set bns. b < 0x80000000 \<and> \<not> (sb_logstart sb \<le> b \<and> b < sb_logstart sb + of_nat LOGSIZE)"
  shows "\<exists>s t u. initlog ROOTDEV sb r = Ok () s \<and>
    bind (begin_op s) (\<lambda>_ s. bind (begin_op s) (\<lambda>_ s. begin_op s)) = Ok () t \<and>
    logged_updates (butlast bns) f t = Ok () u \<and> logged_update (last bns) f u = Panic ''too big a transaction''"
proof -
  let ?r = "r\<lparr>log_start := sb_logstart sb, log_size := sint (sb_nlog sb), log_dev := ROOTDEV\<rparr>"
  have br: "booted ?r" using assms(1) bio_cong [of ?r r] by (simp add: booted_def)
  have hb: "header_blocks (disk r (sb_logstart sb)) = []" by (simp add: header_blocks_def assms(7))
  obtain s where s: "recover_from_log ?r = Ok () s" "log_ok s []" "rc s = (\<lambda>_. 0)" "log_only ?r s"
    using recover_effect [OF br, of "disk r (sb_logstart sb)" "[]"] assms(5-7) hb by auto
  have i: "initlog ROOTDEV sb r = Ok () s" using s(1) by (simp add: initlog_def LOGSIZE_def MAXOPBLOCKS_def BSIZE_def)
  have f: "log_size s = sint (sb_nlog sb)" "log_outstanding s = 0" "\<not> log_committing s" "log_start s = sb_logstart sb"
    using s(4) assms(2,3) by (auto simp: log_only_def)
  have n: "sint (sb_nlog sb) = int LOGSIZE" by (simp add: assms(4) LOGSIZE_def MAXOPBLOCKS_def)
  obtain t where t: "bind (begin_op s) (\<lambda>_ s. bind (begin_op s) (\<lambda>_ s. begin_op s)) = Ok () t" "tx_only t []"
      "log_area t = log_area s"
    using begin_op_three [OF s(2,3)] f n by auto
  have bl: "bns = butlast bns @ [last bns]" "length (butlast bns) = LOGSIZE - 1"
    using assms(8) by (auto simp: LOGSIZE_def MAXOPBLOCKS_def intro!: append_butlast_last_id [symmetric])
  have d: "distinct (butlast bns)" "last bns \<notin> set (butlast bns)"
    using assms(9) bl(1) distinct_append [of "butlast bns" "[last bns]"] by auto
  have home: "b < 0x80000000 \<and> b \<notin> log_area s" if "b \<in> set bns" for b
  proof -
    have "unat (sb_logstart sb + of_nat LOGSIZE) = unat (sb_logstart sb) + LOGSIZE"
      using assms(5) by (simp add: unat_word_ariths LOGSIZE_def MAXOPBLOCKS_def)
    then show ?thesis using assms(10) that by (auto simp: log_area_def f(4) word_le_nat_alt word_less_nat_alt)
  qed
  obtain u where u: "logged_updates (butlast bns) f t = Ok () u" "tx_only u (butlast bns)"
    using logged_updates_law [OF t(2), of "butlast bns" f] d(1) bl(2) home t(3) in_set_butlastD [of _ bns] by auto
  have "last bns \<in> set bns" using bl(1) by (metis in_set_conv_decomp)
  then have "logged_update (last bns) f u = Panic ''too big a transaction''"
    using logged_update_too_big [OF u(2)] bl(2) d(2) home by (simp add: LOGSIZE_def MAXOPBLOCKS_def)
  then show ?thesis using i t(1) u(1) by blast
qed

theorem begin_op_overcommits_witness:
  "\<exists>(r :: log_st) sb s t u. initlog ROOTDEV sb r = Ok () s \<and>
    bind (begin_op s) (\<lambda>_ s. bind (begin_op s) (\<lambda>_ s. begin_op s)) = Ok () t \<and>
    logged_updates (map of_nat [100..<129]) rev t = Ok () u \<and> logged_update 129 rev u = Panic ''too big a transaction''"
proof -
  let ?z = "\<lambda>_::u32. replicate BSIZE (0::u8)"
  let ?r = "(log_machine ?z)\<lparr>log_outstanding := 0, log_committing := False\<rparr>"
  let ?sb = "\<lparr>sb_magic = 0, sb_size = 0, sb_nblocks = 0, sb_ninodes = 0, sb_nlog = of_nat LOGSIZE, sb_logstart = 2,
    sb_inodestart = 0, sb_bmapstart = 0\<rparr>"
  let ?bns = "map of_nat [100..<130] :: u32 list"
  have b: "booted ?r" using log_machine_tx(2) [of ?z] bio_cong [of ?r "log_machine ?z"] by (simp add: booted_def)
  have dk: "disk ?r (sb_logstart ?sb) = replicate BSIZE 0" by (simp add: log_machine_facts)
  have h: "header_count (disk ?r (sb_logstart ?sb)) = 0"
    unfolding dk by (simp add: header_count_def field_def BSIZE_def numeral_eq_Suc)
  have u: "unat (of_nat k :: u32) = k" if "k < 130" for k using that by (simp add: unat_of_nat)
  have inj: "distinct ?bns" by (auto simp: distinct_map inj_on_def dest!: arg_cong [of _ _ unat] simp: u)
  have home: "\<forall>b \<in> set ?bns. b < 0x80000000 \<and> \<not> (sb_logstart ?sb \<le> b \<and> b < sb_logstart ?sb + of_nat LOGSIZE)"
    using u by (auto simp: word_less_nat_alt word_le_nat_alt LOGSIZE_def MAXOPBLOCKS_def)
  have bl: "butlast ?bns = map of_nat [100..<129]" "last ?bns = 129" by (simp_all add: upt_rec numeral_eq_Suc)
  have "\<exists>s t u. initlog ROOTDEV ?sb ?r = Ok () s \<and>
    bind (begin_op s) (\<lambda>_ s. bind (begin_op s) (\<lambda>_ s. begin_op s)) = Ok () t \<and>
    logged_updates (butlast ?bns) rev t = Ok () u \<and> logged_update (last ?bns) rev u = Panic ''too big a transaction''"
    using dk h inj home by (intro begin_op_overcommits [OF b]) (simp_all add: LOGSIZE_def MAXOPBLOCKS_def)
  then show ?thesis unfolding bl by blast
qed

end
