(* ===== verification/Fs.thy ===== *)
theory Fs
  imports Log
begin

text \<open>
  The file system, \<open>kernel/fs.c\<close>: blocks, inodes, file contents, directories and paths. The on-disk
  structures of \<open>kernel/fs.h\<close> are bytes of a block at their C offsets. An inode pointer is an index
  into the table, \<open>None\<close> the null pointer. A local variable that a C function passes to \<open>readi\<close> or
  \<open>writei\<close> by its address has no address in the model: \<open>ToLocal\<close> and \<open>FromLocal\<close> stand for it, and
  \<open>readi\<close> returns the bytes. File offsets are natural numbers where the code has checked that the
  \<open>uint\<close> sums do not wrap. What \<open>printf\<close> prints is not part of the state.
\<close>

section \<open>Constants and state\<close>

definition ROOTINO :: u32 where "ROOTINO = 1"
definition FSMAGIC :: u32 where "FSMAGIC = 0x10203040"
definition NDIRECT :: nat where "NDIRECT = 12"
definition NINDIRECT :: nat where "NINDIRECT = BSIZE div 4"
definition MAXFILE :: nat where "MAXFILE = NDIRECT + NINDIRECT"
definition dinode_size :: nat where "dinode_size = 64"
definition IPB :: nat where "IPB = BSIZE div dinode_size"
definition BPB :: nat where "BPB = BSIZE * 8"
definition DIRSIZ :: nat where "DIRSIZ = 14"
definition dirent_size :: nat where "dirent_size = 16"
definition T_DIR :: u16 where "T_DIR = 1"
definition T_FILE :: u16 where "T_FILE = 2"
definition T_DEVICE :: u16 where "T_DEVICE = 3"

lemmas fs_consts = ROOTINO_def FSMAGIC_def NDIRECT_def NINDIRECT_def MAXFILE_def dinode_size_def IPB_def
  BPB_def DIRSIZ_def dirent_size_def T_DIR_def T_FILE_def T_DEVICE_def BSIZE_def

record inode =
  i_dev :: u32
  i_inum :: u32
  i_ref :: int
  i_lock :: sleeplock
  i_valid :: bool
  i_type :: u16
  i_major :: u16
  i_minor :: u16
  i_nlink :: u16
  i_size :: u32
  i_addrs :: "u32 list"

record fs_st = log_st +
  sb :: superblock
  itable :: "inode list"

definition upd_inode :: "nat \<Rightarrow> (inode \<Rightarrow> inode) \<Rightarrow> 'a fs_st_scheme \<Rightarrow> 'a fs_st_scheme" where
  "upd_inode ip f s = s\<lparr>itable := (itable s)[ip := f (itable s ! ip)]\<rparr>"

definition IBLOCK :: "nat \<Rightarrow> superblock \<Rightarrow> u32" where
  "IBLOCK i blk = of_nat (i div IPB) + sb_inodestart blk"

definition BBLOCK :: "nat \<Rightarrow> superblock \<Rightarrow> u32" where
  "BBLOCK b blk = of_nat (b div BPB) + sb_bmapstart blk"

section \<open>Superblock and blocks\<close>

definition superblock_of :: "u8 list \<Rightarrow> superblock" where
  "superblock_of d = \<lparr>sb_magic = field 4 d 0, sb_size = field 4 d 4, sb_nblocks = field 4 d 8,
     sb_ninodes = field 4 d 12, sb_nlog = field 4 d 16, sb_logstart = field 4 d 20,
     sb_inodestart = field 4 d 24, sb_bmapstart = field 4 d 28\<rparr>"

definition readsb :: "u32 \<Rightarrow> 'a fs_st_scheme \<Rightarrow> (unit, 'a fs_st_scheme) res" where
  "readsb dev s =
     bind (bread dev 1 s) (\<lambda>bp s. brelse bp (s\<lparr>sb := superblock_of (b_data (bcache s ! bp))\<rparr>))"

definition fsinit :: "u32 \<Rightarrow> 'a fs_st_scheme \<Rightarrow> (unit, 'a fs_st_scheme) res" where
  "fsinit dev s =
     bind (readsb dev s) (\<lambda>_ s.
       if sb_magic (sb s) \<noteq> FSMAGIC then Panic ''invalid file system'' else initlog dev (sb s) s)"

definition bzero :: "u32 \<Rightarrow> u32 \<Rightarrow> 'a fs_st_scheme \<Rightarrow> (unit, 'a fs_st_scheme) res" where
  "bzero dev bno s =
     bind (bread dev bno s) (\<lambda>bp s.
     bind (log_write bp (set_bdata bp (replicate BSIZE 0) s)) (\<lambda>_ s. brelse bp s))"

text \<open>Bit \<open>bi\<close> of a block of the free map.\<close>

definition map_bit :: "u8 list \<Rightarrow> nat \<Rightarrow> bool" where
  "map_bit d bi = bit (d ! (bi div 8)) (bi mod 8)"

definition set_map_bit :: "bool \<Rightarrow> u8 list \<Rightarrow> nat \<Rightarrow> u8 list" where
  "set_map_bit v d bi =
     d[bi div 8 := (if v then d ! (bi div 8) OR push_bit (bi mod 8) 1
                    else d ! (bi div 8) AND NOT (push_bit (bi mod 8) 1))]"

text \<open>
  \<open>balloc\<close>: one round of the outer loop for each block of the map, from bit number \<open>b\<close>. With no free block
  it returns 0; the message it prints then is left out.
\<close>

fun balloc_loop :: "u32 \<Rightarrow> nat list \<Rightarrow> 'a fs_st_scheme \<Rightarrow> (u32, 'a fs_st_scheme) res" where
  "balloc_loop dev [] s = Ok 0 s"
| "balloc_loop dev (b # bs) s =
     bind (bread dev (BBLOCK b (sb s)) s) (\<lambda>bp s.
       case find (\<lambda>bi. \<not> map_bit (b_data (bcache s ! bp)) bi) [0..<min BPB (unat (sb_size (sb s)) - b)] of
         Some bi \<Rightarrow>
           bind (log_write bp (set_bdata bp (set_map_bit True (b_data (bcache s ! bp)) bi) s)) (\<lambda>_ s.
           bind (brelse bp s) (\<lambda>_ s.
           bind (bzero dev (of_nat (b + bi)) s) (\<lambda>_ s. Ok (of_nat (b + bi)) s)))
       | None \<Rightarrow> bind (brelse bp s) (\<lambda>_ s. balloc_loop dev bs s))"

definition balloc :: "u32 \<Rightarrow> 'a fs_st_scheme \<Rightarrow> (u32, 'a fs_st_scheme) res" where
  "balloc dev s =
     balloc_loop dev (map (\<lambda>k. k * BPB) [0..<(unat (sb_size (sb s)) + BPB - 1) div BPB]) s"

definition bfree :: "u32 \<Rightarrow> u32 \<Rightarrow> 'a fs_st_scheme \<Rightarrow> (unit, 'a fs_st_scheme) res" where
  "bfree dev b s =
     bind (bread dev (BBLOCK (unat b) (sb s)) s) (\<lambda>bp s.
       let bi = unat b mod BPB; d = b_data (bcache s ! bp) in
       if \<not> map_bit d bi then Panic ''freeing free block''
       else bind (log_write bp (set_bdata bp (set_map_bit False d bi) s)) (\<lambda>_ s. brelse bp s))"

section \<open>Inodes\<close>

definition iinit :: "'a fs_st_scheme \<Rightarrow> 'a fs_st_scheme" where
  "iinit s = s\<lparr>itable := map (\<lambda>q. q\<lparr>i_lock := initsleeplock ''inode''\<rparr>) (itable s)\<rparr>"

text \<open>\<open>iget\<close>: the entry with this device and number, or else the first free one.\<close>

definition iget :: "u32 \<Rightarrow> u32 \<Rightarrow> 'a fs_st_scheme \<Rightarrow> (nat, 'a fs_st_scheme) res" where
  "iget dev inum s =
     (case find (\<lambda>i. i_ref (itable s ! i) > 0 \<and> i_dev (itable s ! i) = dev \<and> i_inum (itable s ! i) = inum)
             [0..<length (itable s)] of
        Some ip \<Rightarrow> Ok ip (upd_inode ip (\<lambda>q. q\<lparr>i_ref := i_ref q + 1\<rparr>) s)
      | None \<Rightarrow>
          (case find (\<lambda>i. i_ref (itable s ! i) = 0) [0..<length (itable s)] of
             None \<Rightarrow> Panic ''iget: no inodes''
           | Some ip \<Rightarrow>
               Ok ip (upd_inode ip (\<lambda>q. q\<lparr>i_dev := dev, i_inum := inum, i_ref := 1, i_valid := False\<rparr>) s)))"

text \<open>The bytes of the on-disk inode at an offset of its block.\<close>

definition dinode_off :: "nat \<Rightarrow> nat" where
  "dinode_off inum = (inum mod IPB) * dinode_size"

fun ialloc_loop :: "u32 \<Rightarrow> u16 \<Rightarrow> nat list \<Rightarrow> 'a fs_st_scheme \<Rightarrow> (nat option, 'a fs_st_scheme) res" where
  "ialloc_loop dev type [] s = Ok None s"
| "ialloc_loop dev type (inum # is) s =
     bind (bread dev (IBLOCK inum (sb s)) s) (\<lambda>bp s.
       let d = b_data (bcache s ! bp); off = dinode_off inum in
       if field 2 d off = (0 :: u16) then
         let d = take off d @ replicate dinode_size 0 @ drop (off + dinode_size) d;
             d = put_field 2 d off type
         in bind (log_write bp (set_bdata bp d s)) (\<lambda>_ s.
            bind (brelse bp s) (\<lambda>_ s.
            bind (iget dev (of_nat inum) s) (\<lambda>ip s. Ok (Some ip) s)))
       else bind (brelse bp s) (\<lambda>_ s. ialloc_loop dev type is s))"

definition ialloc :: "u32 \<Rightarrow> u16 \<Rightarrow> 'a fs_st_scheme \<Rightarrow> (nat option, 'a fs_st_scheme) res" where
  "ialloc dev type s = ialloc_loop dev type [1..<unat (sb_ninodes (sb s))] s"

definition put_dinode :: "inode \<Rightarrow> u8 list \<Rightarrow> nat \<Rightarrow> u8 list" where
  "put_dinode q d off =
     (let d = put_field 2 d off (i_type q);
          d = put_field 2 d (off + 2) (i_major q);
          d = put_field 2 d (off + 4) (i_minor q);
          d = put_field 2 d (off + 6) (i_nlink q);
          d = put_field 4 d (off + 8) (i_size q)
      in fold (\<lambda>k d. put_field 4 d (off + 12 + 4 * k) (i_addrs q ! k)) [0..<NDIRECT + 1] d)"

definition get_dinode :: "u8 list \<Rightarrow> nat \<Rightarrow> inode \<Rightarrow> inode" where
  "get_dinode d off q =
     q\<lparr>i_type := field 2 d off, i_major := field 2 d (off + 2), i_minor := field 2 d (off + 4),
       i_nlink := field 2 d (off + 6), i_size := field 4 d (off + 8),
       i_addrs := map (\<lambda>k. field 4 d (off + 12 + 4 * k)) [0..<NDIRECT + 1]\<rparr>"

definition iupdate :: "nat \<Rightarrow> 'a fs_st_scheme \<Rightarrow> (unit, 'a fs_st_scheme) res" where
  "iupdate ip s =
     (let q = itable s ! ip in
      bind (bread (i_dev q) (IBLOCK (unat (i_inum q)) (sb s)) s) (\<lambda>bp s.
      bind (log_write bp (set_bdata bp
             (put_dinode q (b_data (bcache s ! bp)) (dinode_off (unat (i_inum q)))) s)) (\<lambda>_ s.
      brelse bp s)))"

definition idup :: "nat \<Rightarrow> 'a fs_st_scheme \<Rightarrow> nat \<times> 'a fs_st_scheme" where
  "idup ip s = (ip, upd_inode ip (\<lambda>q. q\<lparr>i_ref := i_ref q + 1\<rparr>) s)"

definition i_acquire :: "nat \<Rightarrow> 'a fs_st_scheme \<Rightarrow> (unit, 'a fs_st_scheme) res" where
  "i_acquire ip s =
     (case acquiresleep (InodeLockChan ip) (mypid s) (i_lock (itable s ! ip)) of
        Ok _ sl \<Rightarrow> Ok () (upd_inode ip (\<lambda>q. q\<lparr>i_lock := sl\<rparr>) s)
      | _ \<Rightarrow> sleep (InodeLockChan ip) s)"

definition i_release :: "nat \<Rightarrow> 'a fs_st_scheme \<Rightarrow> 'a fs_st_scheme" where
  "i_release ip s = wakeup (InodeLockChan ip) (upd_inode ip (\<lambda>q. q\<lparr>i_lock := releasesleep (i_lock q)\<rparr>) s)"

definition ilock :: "nat option \<Rightarrow> 'a fs_st_scheme \<Rightarrow> (unit, 'a fs_st_scheme) res" where
  "ilock ipo s =
     (case ipo of None \<Rightarrow> Panic ''ilock''
      | Some ip \<Rightarrow>
          if i_ref (itable s ! ip) < 1 then Panic ''ilock''
          else bind (i_acquire ip s) (\<lambda>_ s.
            let q = itable s ! ip in
            if \<not> i_valid q then
              bind (bread (i_dev q) (IBLOCK (unat (i_inum q)) (sb s)) s) (\<lambda>bp s.
              let q = get_dinode (b_data (bcache s ! bp)) (dinode_off (unat (i_inum q))) q in
              bind (brelse bp (upd_inode ip (\<lambda>_. q) s)) (\<lambda>_ s.
              let s = upd_inode ip (\<lambda>q. q\<lparr>i_valid := True\<rparr>) s in
              if i_type (itable s ! ip) = 0 then Panic ''ilock: no type'' else Ok () s))
            else Ok () s))"

definition iunlock :: "nat option \<Rightarrow> 'a fs_st_scheme \<Rightarrow> (unit, 'a fs_st_scheme) res" where
  "iunlock ipo s =
     (case ipo of None \<Rightarrow> Panic ''iunlock''
      | Some ip \<Rightarrow>
          if \<not> holdingsleep (mypid s) (i_lock (itable s ! ip)) \<or> i_ref (itable s ! ip) < 1
          then Panic ''iunlock''
          else Ok () (i_release ip s))"

section \<open>Contents\<close>

definition bmap :: "nat \<Rightarrow> nat \<Rightarrow> 'a fs_st_scheme \<Rightarrow> (u32, 'a fs_st_scheme) res" where
  "bmap ip bn s =
     (if bn < NDIRECT then
        let addr = i_addrs (itable s ! ip) ! bn in
        if addr = 0 then
          bind (balloc (i_dev (itable s ! ip)) s) (\<lambda>addr s.
            if addr = 0 then Ok 0 s
            else Ok addr (upd_inode ip (\<lambda>q. q\<lparr>i_addrs := (i_addrs q)[bn := addr]\<rparr>) s))
        else Ok addr s
      else
        let bn = bn - NDIRECT in
        if bn < NINDIRECT then
          bind (let addr = i_addrs (itable s ! ip) ! NDIRECT in
                if addr = 0 then
                  bind (balloc (i_dev (itable s ! ip)) s) (\<lambda>addr s.
                    if addr = 0 then Ok 0 s
                    else Ok addr (upd_inode ip (\<lambda>q. q\<lparr>i_addrs := (i_addrs q)[NDIRECT := addr]\<rparr>) s))
                else Ok addr s) (\<lambda>ind s.
            if ind = 0 then Ok 0 s
            else bind (bread (i_dev (itable s ! ip)) ind s) (\<lambda>bp s.
              let addr = field 4 (b_data (bcache s ! bp)) (4 * bn) :: u32 in
              if addr = 0 then
                bind (balloc (i_dev (itable s ! ip)) s) (\<lambda>addr s.
                  bind (if addr \<noteq> 0
                        then log_write bp (set_bdata bp (put_field 4 (b_data (bcache s ! bp)) (4 * bn) addr) s)
                        else Ok () s) (\<lambda>_ s.
                  bind (brelse bp s) (\<lambda>_ s. Ok addr s)))
              else bind (brelse bp s) (\<lambda>_ s. Ok addr s)))
        else Panic ''bmap: out of range'')"

fun itrunc_direct :: "nat \<Rightarrow> nat list \<Rightarrow> 'a fs_st_scheme \<Rightarrow> (unit, 'a fs_st_scheme) res" where
  "itrunc_direct ip [] s = Ok () s"
| "itrunc_direct ip (i # is) s =
     (if i_addrs (itable s ! ip) ! i \<noteq> 0 then
        bind (bfree (i_dev (itable s ! ip)) (i_addrs (itable s ! ip) ! i) s) (\<lambda>_ s.
          itrunc_direct ip is (upd_inode ip (\<lambda>q. q\<lparr>i_addrs := (i_addrs q)[i := 0]\<rparr>) s))
      else itrunc_direct ip is s)"

fun itrunc_indirect ::
    "u32 \<Rightarrow> nat \<Rightarrow> nat list \<Rightarrow> 'a fs_st_scheme \<Rightarrow> (unit, 'a fs_st_scheme) res" where
  "itrunc_indirect dev bp [] s = Ok () s"
| "itrunc_indirect dev bp (j # js) s =
     (let a = field 4 (b_data (bcache s ! bp)) (4 * j) :: u32 in
      if a \<noteq> 0 then bind (bfree dev a s) (\<lambda>_ s. itrunc_indirect dev bp js s)
      else itrunc_indirect dev bp js s)"

definition itrunc :: "nat \<Rightarrow> 'a fs_st_scheme \<Rightarrow> (unit, 'a fs_st_scheme) res" where
  "itrunc ip s =
     bind (itrunc_direct ip [0..<NDIRECT] s) (\<lambda>_ s.
     bind (let q = itable s ! ip; addr = i_addrs q ! NDIRECT in
           if addr \<noteq> 0 then
             bind (bread (i_dev q) addr s) (\<lambda>bp s.
             bind (itrunc_indirect (i_dev q) bp [0..<NINDIRECT] s) (\<lambda>_ s.
             bind (brelse bp s) (\<lambda>_ s.
             bind (bfree (i_dev q) addr s) (\<lambda>_ s.
             Ok () (upd_inode ip (\<lambda>q. q\<lparr>i_addrs := (i_addrs q)[NDIRECT := 0]\<rparr>) s)))))
           else Ok () s) (\<lambda>_ s.
     iupdate ip (upd_inode ip (\<lambda>q. q\<lparr>i_size := 0\<rparr>) s)))"

text \<open>
  \<open>iput\<close>: with one reference left nobody else can hold the lock, so \<open>acquiresleep\<close> does not block.
\<close>

definition iput :: "nat \<Rightarrow> 'a fs_st_scheme \<Rightarrow> (unit, 'a fs_st_scheme) res" where
  "iput ip s =
     bind (let q = itable s ! ip in
           if i_ref q = 1 \<and> i_valid q \<and> i_nlink q = 0 then
             bind (i_acquire ip s) (\<lambda>_ s.
             bind (itrunc ip s) (\<lambda>_ s.
             bind (iupdate ip (upd_inode ip (\<lambda>q. q\<lparr>i_type := 0\<rparr>) s)) (\<lambda>_ s.
             Ok () (i_release ip (upd_inode ip (\<lambda>q. q\<lparr>i_valid := False\<rparr>) s)))))
           else Ok () s) (\<lambda>_ s.
     Ok () (upd_inode ip (\<lambda>q. q\<lparr>i_ref := i_ref q - 1\<rparr>) s))"

definition iunlockput :: "nat \<Rightarrow> 'a fs_st_scheme \<Rightarrow> (unit, 'a fs_st_scheme) res" where
  "iunlockput ip s = bind (iunlock (Some ip) s) (\<lambda>_ s. iput ip s)"

record stat =
  st_dev :: u32
  st_ino :: u32
  st_type :: u16
  st_nlink :: u16
  st_size :: u64

definition stati :: "inode \<Rightarrow> stat" where
  "stati q = \<lparr>st_dev = i_dev q, st_ino = i_inum q, st_type = i_type q, st_nlink = i_nlink q,
     st_size = ucast (i_size q)\<rparr>"

text \<open>Where \<open>readi\<close> puts the bytes and \<open>writei\<close> takes them from.\<close>

datatype dest = ToUser u64 | ToKernel u64 | ToLocal
datatype orig = FromUser u64 | FromLocal "u8 list"

definition copy_to_dest :: "dest \<Rightarrow> nat \<Rightarrow> u8 list \<Rightarrow> 'a proc_st_scheme \<Rightarrow> (int, 'a proc_st_scheme) res" where
  "copy_to_dest dst tot bs s =
     (case dst of
        ToUser a \<Rightarrow> either_copyout True (a + of_nat tot) bs s
      | ToKernel a \<Rightarrow> either_copyout False (a + of_nat tot) bs s
      | ToLocal \<Rightarrow> Ok 0 s)"

definition copy_from_orig ::
    "orig \<Rightarrow> nat \<Rightarrow> nat \<Rightarrow> 'a proc_st_scheme \<Rightarrow> (int \<times> u8 list, 'a proc_st_scheme) res" where
  "copy_from_orig src tot m s =
     (case src of
        FromUser a \<Rightarrow> either_copyin True (a + of_nat tot) m s
      | FromLocal bs \<Rightarrow> Ok (0, take m (drop tot bs)) s)"

lemma chunk_less: "tot < n \<Longrightarrow> n - (tot + min (n - tot) (BSIZE - off mod BSIZE)) < n - tot"
proof -
  assume "tot < n"
  moreover have "off mod BSIZE < BSIZE" by (simp add: BSIZE_def)
  ultimately show ?thesis by linarith
qed

text \<open>The loop of \<open>readi\<close>: \<open>tot\<close> bytes are done, \<open>acc\<close> are they. A failed copy returns \<open>-1\<close>.\<close>

function readi_loop ::
    "nat \<Rightarrow> dest \<Rightarrow> nat \<Rightarrow> nat \<Rightarrow> nat \<Rightarrow> u8 list \<Rightarrow> 'a fs_st_scheme \<Rightarrow> (int \<times> u8 list, 'a fs_st_scheme) res" where
  "readi_loop ip dst off n tot acc s =
     (if tot < n then
        bind (bmap ip (off div BSIZE) s) (\<lambda>addr s.
          if addr = 0 then Ok (int tot, acc) s
          else bind (bread (i_dev (itable s ! ip)) addr s) (\<lambda>bp s.
            let m = min (n - tot) (BSIZE - off mod BSIZE);
                bs = take m (drop (off mod BSIZE) (b_data (bcache s ! bp)))
            in bind (copy_to_dest dst tot bs s) (\<lambda>r s.
               if r = -1 then bind (brelse bp s) (\<lambda>_ s. Ok (-1, acc) s)
               else bind (brelse bp s) (\<lambda>_ s. readi_loop ip dst (off + m) n (tot + m) (acc @ bs) s))))
      else Ok (int tot, acc) s)"
  by pat_completeness auto
termination
  by (relation "measure (\<lambda>(ip, dst, off, n, tot, acc, s). n - tot)") (auto simp: chunk_less)

declare readi_loop.simps [simp del]

definition readi ::
    "nat \<Rightarrow> dest \<Rightarrow> u32 \<Rightarrow> u32 \<Rightarrow> 'a fs_st_scheme \<Rightarrow> (int \<times> u8 list, 'a fs_st_scheme) res" where
  "readi ip dst off n s =
     (let sz = i_size (itable s ! ip) in
      if off > sz \<or> off + n < off then Ok (0, []) s
      else
        let n = (if off + n > sz then sz - off else n)
        in readi_loop ip dst (unat off) (unat n) 0 [] s)"

text \<open>The loop of \<open>writei\<close> returns the bytes written and the final offset.\<close>

function writei_loop ::
    "nat \<Rightarrow> orig \<Rightarrow> nat \<Rightarrow> nat \<Rightarrow> nat \<Rightarrow> 'a fs_st_scheme \<Rightarrow> (nat \<times> nat, 'a fs_st_scheme) res" where
  "writei_loop ip src off n tot s =
     (if tot < n then
        bind (bmap ip (off div BSIZE) s) (\<lambda>addr s.
          if addr = 0 then Ok (tot, off) s
          else bind (bread (i_dev (itable s ! ip)) addr s) (\<lambda>bp s.
            let m = min (n - tot) (BSIZE - off mod BSIZE) in
            bind (copy_from_orig src tot m s) (\<lambda>(r, bs) s.
              let d = b_data (bcache s ! bp);
                  o0 = off mod BSIZE;
                  s = set_bdata bp (take o0 d @ bs @ drop (o0 + length bs) d) s
              in if r = -1 then bind (brelse bp s) (\<lambda>_ s. Ok (tot, off) s)
                 else bind (log_write bp s) (\<lambda>_ s.
                      bind (brelse bp s) (\<lambda>_ s. writei_loop ip src (off + m) n (tot + m) s)))))
      else Ok (tot, off) s)"
  by pat_completeness auto
termination
  by (relation "measure (\<lambda>(ip, src, off, n, tot, s). n - tot)") (auto simp: chunk_less)

declare writei_loop.simps [simp del]

definition writei :: "nat \<Rightarrow> orig \<Rightarrow> u32 \<Rightarrow> u32 \<Rightarrow> 'a fs_st_scheme \<Rightarrow> (int, 'a fs_st_scheme) res" where
  "writei ip src off n s =
     (if off > i_size (itable s ! ip) \<or> off + n < off then Ok (-1) s
      else if unat (off + n) > MAXFILE * BSIZE then Ok (-1) s
      else bind (writei_loop ip src (unat off) (unat n) 0 s) (\<lambda>(tot, off') s.
        let s = (if off' > unat (i_size (itable s ! ip))
                 then upd_inode ip (\<lambda>q. q\<lparr>i_size := of_nat off'\<rparr>) s else s)
        in bind (iupdate ip s) (\<lambda>_ s. Ok (int tot) s)))"

section \<open>Directories\<close>

text \<open>\<open>strncmp(s, t, n)\<close> on two strings; a string ends with its list, which is the terminator.\<close>

fun str_at :: "u8 list \<Rightarrow> u8" where
  "str_at [] = 0"
| "str_at (c # cs) = c"

fun namecmp_loop :: "nat \<Rightarrow> u8 list \<Rightarrow> u8 list \<Rightarrow> int" where
  "namecmp_loop 0 p q = 0"
| "namecmp_loop (Suc n) p q =
     (if str_at p \<noteq> 0 \<and> str_at p = str_at q then namecmp_loop n (tl p) (tl q)
      else uint (str_at p) - uint (str_at q))"

definition namecmp :: "u8 list \<Rightarrow> u8 list \<Rightarrow> int" where
  "namecmp p q = namecmp_loop DIRSIZ p q"

text \<open>\<open>dirlookup\<close> over the offsets of the entries; it returns the inode and the entry's offset.\<close>

fun dirlookup_loop ::
    "nat \<Rightarrow> u8 list \<Rightarrow> nat list \<Rightarrow> 'a fs_st_scheme \<Rightarrow> ((nat \<times> u32) option, 'a fs_st_scheme) res" where
  "dirlookup_loop dp name [] s = Ok None s"
| "dirlookup_loop dp name (off # offs) s =
     bind (readi dp ToLocal (of_nat off) (of_nat dirent_size) s) (\<lambda>(r, de) s.
       if r \<noteq> int dirent_size then Panic ''dirlookup read''
       else if (field 2 de 0 :: u16) = 0 then dirlookup_loop dp name offs s
       else if namecmp name (drop 2 de) = 0 then
         bind (iget (i_dev (itable s ! dp)) (ucast (field 2 de 0 :: u16)) s) (\<lambda>ip s.
           Ok (Some (ip, of_nat off)) s)
       else dirlookup_loop dp name offs s)"

definition dir_offsets :: "u32 \<Rightarrow> nat list" where
  "dir_offsets sz = map (\<lambda>k. k * dirent_size) [0..<(unat sz + dirent_size - 1) div dirent_size]"

definition dirlookup ::
    "nat \<Rightarrow> u8 list \<Rightarrow> 'a fs_st_scheme \<Rightarrow> ((nat \<times> u32) option, 'a fs_st_scheme) res" where
  "dirlookup dp name s =
     (if i_type (itable s ! dp) \<noteq> T_DIR then Panic ''dirlookup not DIR''
      else dirlookup_loop dp name (dir_offsets (i_size (itable s ! dp))) s)"

text \<open>\<open>dirlink\<close>'s search for an empty entry: its offset, or the one after the last entry.\<close>

fun dirlink_find :: "nat \<Rightarrow> nat \<Rightarrow> nat list \<Rightarrow> 'a fs_st_scheme \<Rightarrow> (nat, 'a fs_st_scheme) res" where
  "dirlink_find dp end [] s = Ok end s"
| "dirlink_find dp end (off # offs) s =
     bind (readi dp ToLocal (of_nat off) (of_nat dirent_size) s) (\<lambda>(r, de) s.
       if r \<noteq> int dirent_size then Panic ''dirlink read''
       else if (field 2 de 0 :: u16) = 0 then Ok off s
       else dirlink_find dp end offs s)"

definition dirent_bytes :: "u32 \<Rightarrow> u8 list \<Rightarrow> u8 list" where
  "dirent_bytes inum name =
     le_bytes 2 (ucast inum :: u16) @
       (let nm = take DIRSIZ (takeWhile (\<lambda>c. c \<noteq> 0) name) in nm @ replicate (DIRSIZ - length nm) 0)"

definition dirlink :: "nat \<Rightarrow> u8 list \<Rightarrow> u32 \<Rightarrow> 'a fs_st_scheme \<Rightarrow> (int, 'a fs_st_scheme) res" where
  "dirlink dp name inum s =
     bind (dirlookup dp name s) (\<lambda>r s.
       case r of
         Some (ip, off) \<Rightarrow> bind (iput ip s) (\<lambda>_ s. Ok (-1) s)
       | None \<Rightarrow>
           let offs = dir_offsets (i_size (itable s ! dp)) in
           bind (dirlink_find dp (length offs * dirent_size) offs s) (\<lambda>off s.
           bind (writei dp (FromLocal (dirent_bytes inum name)) (of_nat off) (of_nat dirent_size) s) (\<lambda>r s.
           if r \<noteq> int dirent_size then Ok (-1) s else Ok 0 s)))"

section \<open>Paths\<close>

definition slash :: u8 where "slash = 0x2f"

text \<open>
  \<open>skipelem\<close>: the element (at most \<open>DIRSIZ\<close> characters) and the rest of the path. A path is a list of
  characters without the terminator.
\<close>

definition skipelem :: "u8 list \<Rightarrow> (u8 list \<times> u8 list) option" where
  "skipelem path =
     (let path = dropWhile (\<lambda>c. c = slash) path in
      if path = [] then None
      else Some (take DIRSIZ (takeWhile (\<lambda>c. c \<noteq> slash) path),
                 dropWhile (\<lambda>c. c = slash) (dropWhile (\<lambda>c. c \<noteq> slash) path)))"

lemma dropWhile_length_le: "length (dropWhile P xs) \<le> length xs"
  by (induction xs) auto

lemma skipelem_shorter:
  assumes "skipelem path = Some (name, rest)"
  shows "length rest < length path"
proof -
  let ?p = "dropWhile (\<lambda>c. c = slash) path"
  have p: "?p \<noteq> []" and r: "rest = dropWhile (\<lambda>c. c = slash) (dropWhile (\<lambda>c. c \<noteq> slash) ?p)"
    using assms by (auto simp: skipelem_def Let_def split: if_splits)
  then have "hd ?p \<noteq> slash" using hd_dropWhile by blast
  then have "length (dropWhile (\<lambda>c. c \<noteq> slash) ?p) < length ?p"
    using p by (cases ?p) (auto simp: le_imp_less_Suc dropWhile_length_le)
  then show ?thesis
    using r dropWhile_length_le [of "\<lambda>c. c = slash" path]
      dropWhile_length_le [of "\<lambda>c. c = slash" "dropWhile (\<lambda>c. c \<noteq> slash) ?p"] by simp
qed

function namex_loop ::
    "bool \<Rightarrow> nat \<Rightarrow> u8 list \<Rightarrow> u8 list \<Rightarrow> 'a fs_st_scheme \<Rightarrow> (nat option \<times> u8 list, 'a fs_st_scheme) res" where
  "namex_loop parent ip path name s =
     (case skipelem path of
        None \<Rightarrow> if parent then bind (iput ip s) (\<lambda>_ s. Ok (None, name) s) else Ok (Some ip, name) s
      | Some (name, path) \<Rightarrow>
          bind (ilock (Some ip) s) (\<lambda>_ s.
            if i_type (itable s ! ip) \<noteq> T_DIR then bind (iunlockput ip s) (\<lambda>_ s. Ok (None, name) s)
            else if parent \<and> path = [] then bind (iunlock (Some ip) s) (\<lambda>_ s. Ok (Some ip, name) s)
            else bind (dirlookup ip name s) (\<lambda>r s.
              case r of
                None \<Rightarrow> bind (iunlockput ip s) (\<lambda>_ s. Ok (None, name) s)
              | Some (next, off) \<Rightarrow> bind (iunlockput ip s) (\<lambda>_ s. namex_loop parent next path name s))))"
  by pat_completeness auto
termination
  by (relation "measure (\<lambda>(parent, ip, path, name, s). length path)") (auto simp: skipelem_shorter)

declare namex_loop.simps [simp del]

definition namex ::
    "u8 list \<Rightarrow> bool \<Rightarrow> 'a fs_st_scheme \<Rightarrow> (nat option \<times> u8 list, 'a fs_st_scheme) res" where
  "namex path parent s =
     bind (if str_at path = slash then iget ROOTDEV ROOTINO s
           else case p_cwd (mine s) of
             Some ip \<Rightarrow> (case idup ip s of (ip, s) \<Rightarrow> Ok ip s)
           | None \<Rightarrow> Panic ''null pointer'') (\<lambda>ip s.
     namex_loop parent ip path [] s)"

definition namei :: "u8 list \<Rightarrow> 'a fs_st_scheme \<Rightarrow> (nat option, 'a fs_st_scheme) res" where
  "namei path s = bind (namex path False s) (\<lambda>(ip, name) s. Ok ip s)"

definition nameiparent ::
    "u8 list \<Rightarrow> 'a fs_st_scheme \<Rightarrow> (nat option \<times> u8 list, 'a fs_st_scheme) res" where
  "nameiparent path s = namex path True s"

text \<open>The machine of the log on a disk, with a superblock and a table of inodes.\<close>

definition fs_machine :: "(u32 \<Rightarrow> u8 list) \<Rightarrow> superblock \<Rightarrow> inode list \<Rightarrow> fs_st" where
  "fs_machine d blk its = log_st.extend (log_machine d) (fs_st.fields blk its)"

end
