(* ===== verification/Ring.thy ===== *)
theory Ring
  imports Prelude
begin

text \<open>
  Circular buffers with free-running indices. The pipe (512 bytes, \<open>uint\<close> counters), the console
  input (128 bytes, \<open>uint\<close>) and the serial output (32 bytes, \<open>uint64\<close>) all index an array with a
  counter that is only ever incremented, modulo the size of the array, and let the counter wrap at
  the width of its type. The locale states what makes that work: the size divides \<open>2^w\<close>.
\<close>

definition ring :: "nat \<Rightarrow> 'w::len word \<Rightarrow> 'w word \<Rightarrow> 'a list \<Rightarrow> 'a list" where
  "ring N r w buf = map (\<lambda>k. buf ! (unat (r + of_nat k) mod N)) [0..<unat (w - r)]"

lemma length_ring [simp]: "length (ring N r w buf) = unat (w - r)"
  by (simp add: ring_def)

lemma ring_same [simp]: "ring N r r buf = []"
  by (simp add: ring_def)

lemma unat_diff_Suc: "unat ((w :: 'w::len word) - r) < n \<Longrightarrow> n < 2 ^ LENGTH('w) \<Longrightarrow> unat (w + 1 - r) = Suc (unat (w - r))"
  using unat_add_no_wrap [of "w - r" 1] by (simp add: algebra_simps)

lemma unat_diff_pred: "(r :: 'w::len word) \<noteq> w \<Longrightarrow> unat (w - r) = Suc (unat (w - (r + 1)))"
  using unat_minus_one [of "w - r"] unat_gt_0 [of "w - r"] by (simp add: algebra_simps)

lemma of_nat_unat_diff: "(r :: 'w::len word) + of_nat (unat (w - r)) = w"
  by simp

locale ring_buffer =
  fixes N :: nat and idx :: "'w::len itself"
  assumes size_pos: "0 < N"
    and size_dvd: "N dvd 2 ^ LENGTH('w)"
    and size_less: "N < 2 ^ LENGTH('w)"
begin

lemma unat_mod: "unat (r + of_nat k :: 'w word) mod N = (unat r + k) mod N"
  using size_dvd by (simp add: unat_word_ariths unat_of_nat mod_mod_cancel mod_simps)

lemma same_slot:
  assumes "(i + k) mod N = (i + j) mod N" and "k \<le> j" and "j - k < N"
  shows "k = j"
proof -
  have "N dvd (i + j) - (i + k)"
    using assms(1,2) by (metis mod_eq_dvd_iff_nat add_le_cancel_left)
  then show ?thesis using assms(2,3) by (auto dest: nat_dvd_not_less)
qed

lemma ring_update_outside:
  assumes "unat (w - r) \<le> j" and "j < N"
  shows "ring N r w (buf[unat (r + of_nat j :: 'w word) mod N := c]) = ring N r w buf"
  unfolding ring_def
proof (rule map_cong)
  fix k assume "k \<in> set [0..<unat (w - r)]"
  then have "k < j" using assms by simp
  then have "unat (r + of_nat k) mod N \<noteq> unat (r + of_nat j) mod N"
    using same_slot [of "unat r" k j] assms less_imp_diff_less [of j N k] unfolding unat_mod by auto
  then show "buf[unat (r + of_nat j) mod N := c] ! (unat (r + of_nat k) mod N) = buf ! (unat (r + of_nat k) mod N)"
    by simp
qed simp

text \<open>Writing at the write index appends to the contents while there is room.\<close>

lemma ring_put:
  assumes "unat (w - r) < N" and "length buf = N"
  shows "ring N r (w + 1 :: 'w word) (buf[unat w mod N := c]) = ring N r w buf @ [c]"
proof -
  have "ring N r w (buf[unat w mod N := c]) = ring N r w buf"
    using ring_update_outside [of w r "unat (w - r)" buf c] assms(1) by simp
  moreover have "ring N r (w + 1) (buf[unat w mod N := c]) = ring N r w (buf[unat w mod N := c]) @ [c]"
    using assms size_pos by (simp add: ring_def unat_diff_Suc [OF assms(1) size_less])
  ultimately show ?thesis by simp
qed

text \<open>Reading at the read index takes the oldest element off.\<close>

lemma ring_get:
  assumes "r \<noteq> (w :: 'w word)"
  shows "ring N r w buf = buf ! (unat r mod N) # ring N (r + 1) w buf"
  unfolding ring_def unat_diff_pred [OF assms] upt_conv_Cons [OF zero_less_Suc]
  by (simp add: map_Suc_upt [symmetric] algebra_simps del: upt_Suc map_Suc_upt)

text \<open>Moving the write index back drops the newest element.\<close>

lemma ring_unput:
  assumes "r \<noteq> (w :: 'w word)"
  shows "ring N r w buf = ring N r (w - 1) buf @ [buf ! (unat (w - 1) mod N)]"
proof -
  have "unat (w - r) = Suc (unat (w - 1 - r))"
    using assms unat_minus_one [of "w - r"] unat_gt_0 [of "w - r"] by (simp add: algebra_simps)
  then show ?thesis by (simp add: ring_def)
qed

text \<open>The contents up to a middle index are a prefix.\<close>

lemma ring_split:
  assumes "unat (m - r) \<le> unat (w - r :: 'w word)"
  shows "ring N r w buf = ring N r m buf @ ring N m w buf"
proof -
  have d: "unat (w - m) = unat (w - r) - unat (m - r)"
    using assms unat_diff_no_wrap [of "m - r" "w - r"] by (simp add: word_le_nat_alt)
  have "[0..<unat (w - r)] = [0..<unat (m - r)] @ map (\<lambda>k. k + unat (m - r)) [0..<unat (w - m)]"
    using assms upt_add_eq_append [of 0 "unat (m - r)" "unat (w - m)"] by (simp add: d map_add_upt)
  then show ?thesis by (simp add: ring_def algebra_simps)
qed

lemma put_bound: "unat (w - r :: 'w word) < N \<Longrightarrow> unat (w + 1 - r) \<le> N"
  using unat_diff_Suc [of w r N] size_less by simp

lemma not_full: "unat (w - r :: 'w word) \<le> N \<Longrightarrow> w \<noteq> r + of_nat N \<Longrightarrow> unat (w - r) < N"
  using of_nat_unat_diff [of r w] by (metis le_neq_implies_less)

end
end
