(* ===== verification/Uart.thy ===== *)
theory Uart
  imports Fs Ring
begin

text \<open>
  The serial port and formatted output: \<open>kernel/uart.c\<close>, \<open>consputc\<close> of \<open>kernel/console.c\<close> and
  \<open>kernel/printf.c\<close>. The device is a part of the state: the bytes that wait in its receiver, whether
  the transmitter is idle at each poll of the line status register, and the writes to its registers,
  oldest first. Code under \<open>uart_tx_lock\<close> or \<open>pr.lock\<close> is one step; \<open>push_off\<close> and \<open>pop_off\<close> around
  the wait in \<open>uartputc_sync\<close> cancel out.
\<close>

section \<open>State\<close>

definition THR :: u8 where "THR = 0"
definition IER :: u8 where "IER = 1"
definition IER_RX_ENABLE :: u8 where "IER_RX_ENABLE = 1"
definition IER_TX_ENABLE :: u8 where "IER_TX_ENABLE = 2"
definition FCR :: u8 where "FCR = 2"
definition FCR_FIFO_ENABLE :: u8 where "FCR_FIFO_ENABLE = 1"
definition FCR_FIFO_CLEAR :: u8 where "FCR_FIFO_CLEAR = 6"
definition LCR :: u8 where "LCR = 3"
definition LCR_EIGHT_BITS :: u8 where "LCR_EIGHT_BITS = 3"
definition LCR_BAUD_LATCH :: u8 where "LCR_BAUD_LATCH = 128"
definition LSR_RX_READY :: u8 where "LSR_RX_READY = 1"
definition LSR_TX_IDLE :: u8 where "LSR_TX_IDLE = 32"
definition UART_TX_BUF_SIZE :: nat where "UART_TX_BUF_SIZE = 32"

lemmas uart_consts = THR_def IER_def IER_RX_ENABLE_def IER_TX_ENABLE_def FCR_def FCR_FIFO_ENABLE_def
  FCR_FIFO_CLEAR_def LCR_def LCR_EIGHT_BITS_def LCR_BAUD_LATCH_def LSR_RX_READY_def LSR_TX_IDLE_def

record uart_t =
  tx_buf :: "u8 list"
  tx_w :: u64
  tx_r :: u64
  u_rx :: "u8 list"
  u_idle :: "nat \<Rightarrow> bool"
  u_polls :: nat
  u_out :: "(u8 \<times> u8) list"

record uart_st = fs_st +
  uart :: uart_t
  panicked :: bool

definition WriteReg :: "u8 \<Rightarrow> u8 \<Rightarrow> 'a uart_st_scheme \<Rightarrow> 'a uart_st_scheme" where
  "WriteReg reg v s = s\<lparr>uart := (uart s)\<lparr>u_out := u_out (uart s) @ [(reg, v)]\<rparr>\<rparr>"

definition ReadLSR :: "'a uart_st_scheme \<Rightarrow> u8 \<times> 'a uart_st_scheme" where
  "ReadLSR s =
     (let u = uart s in
      ((if u_rx u \<noteq> [] then LSR_RX_READY else 0) OR (if u_idle u (u_polls u) then LSR_TX_IDLE else 0),
       s\<lparr>uart := u\<lparr>u_polls := Suc (u_polls u)\<rparr>\<rparr>))"

definition ReadRHR :: "'a uart_st_scheme \<Rightarrow> u8 \<times> 'a uart_st_scheme" where
  "ReadRHR s = (hd (u_rx (uart s)), s\<lparr>uart := (uart s)\<lparr>u_rx := tl (u_rx (uart s))\<rparr>\<rparr>)"

section \<open>Driver\<close>

definition uartinit :: "'a uart_st_scheme \<Rightarrow> 'a uart_st_scheme" where
  "uartinit s =
     fold (\<lambda>(r, v). WriteReg r v)
       [(IER, 0), (LCR, LCR_BAUD_LATCH), (0, 3), (1, 0), (LCR, LCR_EIGHT_BITS),
        (FCR, FCR_FIFO_ENABLE OR FCR_FIFO_CLEAR), (IER, IER_TX_ENABLE OR IER_RX_ENABLE)] s"

text \<open>\<open>uartstart\<close>: each round sends one byte, so the loop ends when the buffer is empty at the latest.\<close>

function uartstart :: "'a uart_st_scheme \<Rightarrow> 'a uart_st_scheme" where
  "uartstart s =
     (if tx_w (uart s) = tx_r (uart s) then s
      else let (lsr, s) = ReadLSR s in
        if lsr AND LSR_TX_IDLE = 0 then s
        else
          let u = uart s; c = tx_buf u ! (unat (tx_r u) mod UART_TX_BUF_SIZE);
              s = s\<lparr>uart := u\<lparr>tx_r := tx_r u + 1\<rparr>\<rparr>
          in uartstart (WriteReg THR c (wakeup UartChan s)))"
  by pat_completeness auto
termination
proof (relation "measure (\<lambda>s. unat (tx_w (uart s) - tx_r (uart s)))")
qed (auto simp: ReadLSR_def Let_def WriteReg_def wakeup_def unat_diff_pred)

declare uartstart.simps [simp del]

definition uartputc :: "u8 \<Rightarrow> 'a uart_st_scheme \<Rightarrow> (unit, 'a uart_st_scheme) res" where
  "uartputc c s =
     (if panicked s then Diverge
      else let u = uart s in
        if tx_w u = tx_r u + of_nat UART_TX_BUF_SIZE then sleep UartChan s
        else Ok () (uartstart (s\<lparr>uart := u\<lparr>tx_buf := (tx_buf u)[unat (tx_w u) mod UART_TX_BUF_SIZE := c],
               tx_w := tx_w u + 1\<rparr>\<rparr>)))"

partial_function (option) uart_wait :: "'a uart_st_scheme \<Rightarrow> 'a uart_st_scheme option" where
  "uart_wait s =
     (let r = ReadLSR s in if fst r AND LSR_TX_IDLE = 0 then uart_wait (snd r) else Some (snd r))"

definition uartputc_sync :: "u8 \<Rightarrow> 'a uart_st_scheme \<Rightarrow> (unit, 'a uart_st_scheme) res" where
  "uartputc_sync c s =
     (if panicked s then Diverge
      else case uart_wait s of None \<Rightarrow> Diverge | Some s \<Rightarrow> Ok () (WriteReg THR c s))"

definition uartgetc :: "'a uart_st_scheme \<Rightarrow> u8 option \<times> 'a uart_st_scheme" where
  "uartgetc s =
     (let (lsr, s) = ReadLSR s in
      if lsr AND 1 \<noteq> 0 then let (c, s) = ReadRHR s in (Some c, s) else (None, s))"

definition BACKSPACE :: u32 where "BACKSPACE = 0x100"

definition consputc :: "u32 \<Rightarrow> 'a uart_st_scheme \<Rightarrow> (unit, 'a uart_st_scheme) res" where
  "consputc c s =
     (if c = BACKSPACE then
        bind (uartputc_sync 8 s) (\<lambda>_ s. bind (uartputc_sync 0x20 s) (\<lambda>_ s. uartputc_sync 8 s))
      else uartputc_sync (ucast c) s)"

section \<open>Formatted output\<close>

text \<open>
  An argument of \<open>printf\<close>. Taking an argument that is missing or of another type is undefined in C;
  the model stops there. A format and a string argument are lists of characters without the
  terminator, \<open>None\<close> the null pointer.
\<close>

datatype arg = ArgInt u32 | ArgPtr u64 | ArgStr "u8 list option"

definition ascii :: "string \<Rightarrow> u8 list" where
  "ascii str = map of_char str"

fun putchars :: "u8 list \<Rightarrow> 'a uart_st_scheme \<Rightarrow> (unit, 'a uart_st_scheme) res" where
  "putchars [] s = Ok () s"
| "putchars (c # cs) s = bind (consputc (ucast c) s) (\<lambda>_ s. putchars cs s)"

definition digits :: "u8 list" where
  "digits = ascii ''0123456789abcdef''"

text \<open>
  The conversion loop of \<open>printint\<close>, lowest digit first, with \<open>room\<close> characters left of
  \<open>char buf[16]\<close>; \<open>None\<close> would be a write past the end of the array.
\<close>

fun print_digits :: "nat \<Rightarrow> u32 \<Rightarrow> u32 \<Rightarrow> u8 list option" where
  "print_digits 0 base x = None"
| "print_digits (Suc room) base x =
     (if x div base \<noteq> 0
      then map_option (Cons (digits ! unat (x mod base))) (print_digits room base (x div base))
      else Some [digits ! unat (x mod base)])"

definition printint_buf :: "u32 \<Rightarrow> u32 \<Rightarrow> bool \<Rightarrow> u8 list option" where
  "printint_buf xx base sign =
     (let neg = (sign \<and> sint xx < 0); x = (if neg then - xx else xx) in
      case print_digits 16 base x of
        None \<Rightarrow> None
      | Some ds \<Rightarrow>
          if neg then if length ds < 16 then Some (ds @ [0x2d]) else None else Some ds)"

definition printint :: "u32 \<Rightarrow> u32 \<Rightarrow> bool \<Rightarrow> 'a uart_st_scheme \<Rightarrow> (unit, 'a uart_st_scheme) res" where
  "printint xx base sign s =
     (case printint_buf xx base sign of
        None \<Rightarrow> Panic ''buffer overrun''
      | Some buf \<Rightarrow> putchars (rev buf) s)"

fun printptr_loop :: "nat \<Rightarrow> u64 \<Rightarrow> u8 list" where
  "printptr_loop 0 x = []"
| "printptr_loop (Suc k) x = digits ! unat (drop_bit 60 x) # printptr_loop k (push_bit 4 x)"

definition printptr :: "u64 \<Rightarrow> 'a uart_st_scheme \<Rightarrow> (unit, 'a uart_st_scheme) res" where
  "printptr x s = putchars ([0x30, 0x78] @ printptr_loop 16 x) s"

fun printf_loop :: "u8 list \<Rightarrow> arg list \<Rightarrow> 'a uart_st_scheme \<Rightarrow> (unit, 'a uart_st_scheme) res" where
  "printf_loop [] args s = Ok () s"
| "printf_loop [c] args s = (if c \<noteq> 0x25 then consputc (ucast c) s else Ok () s)"
| "printf_loop (c # c2 # fmt) args s =
     (if c \<noteq> 0x25 then bind (consputc (ucast c) s) (\<lambda>_ s. printf_loop (c2 # fmt) args s)
      else if c2 = 0x64 then
        (case args of ArgInt x # args \<Rightarrow> bind (printint x 10 True s) (\<lambda>_ s. printf_loop fmt args s)
         | _ \<Rightarrow> Panic ''va_arg'')
      else if c2 = 0x78 then
        (case args of ArgInt x # args \<Rightarrow> bind (printint x 16 True s) (\<lambda>_ s. printf_loop fmt args s)
         | _ \<Rightarrow> Panic ''va_arg'')
      else if c2 = 0x70 then
        (case args of ArgPtr x # args \<Rightarrow> bind (printptr x s) (\<lambda>_ s. printf_loop fmt args s)
         | _ \<Rightarrow> Panic ''va_arg'')
      else if c2 = 0x73 then
        (case args of
           ArgStr str # args \<Rightarrow>
             bind (putchars (case str of None \<Rightarrow> ascii ''(null)'' | Some cs \<Rightarrow> cs) s)
               (\<lambda>_ s. printf_loop fmt args s)
         | _ \<Rightarrow> Panic ''va_arg'')
      else if c2 = 0x25 then bind (consputc 0x25 s) (\<lambda>_ s. printf_loop fmt args s)
      else bind (consputc 0x25 s) (\<lambda>_ s. bind (consputc (ucast c2) s) (\<lambda>_ s. printf_loop fmt args s)))"

definition printf :: "u8 list option \<Rightarrow> arg list \<Rightarrow> 'a uart_st_scheme \<Rightarrow> (unit, 'a uart_st_scheme) res" where
  "printf fmt args s = (case fmt of None \<Rightarrow> Panic ''null fmt'' | Some f \<Rightarrow> printf_loop f args s)"

text \<open>
  \<open>panic\<close> after it has printed the message: the flag is up and this CPU spins. The outcome \<open>Panic\<close>
  of the other functions is a call of \<open>panic\<close>.
\<close>

definition panic_print :: "u8 list \<Rightarrow> 'a uart_st_scheme \<Rightarrow> (unit, 'a uart_st_scheme) res" where
  "panic_print msg s =
     bind (printf (Some (ascii ''panic: '')) [] s) (\<lambda>_ s.
     bind (printf (Some msg) [] s) (\<lambda>_ s.
     bind (printf (Some [10]) [] s) (\<lambda>_ s. Ok () (s\<lparr>panicked := True\<rparr>))))"

section \<open>The transmit buffer\<close>

definition uart_ok :: "uart_t \<Rightarrow> bool" where
  "uart_ok u \<longleftrightarrow> length (tx_buf u) = UART_TX_BUF_SIZE \<and> unat (tx_w u - tx_r u) \<le> UART_TX_BUF_SIZE"

definition pending :: "uart_t \<Rightarrow> u8 list" where
  "pending u = ring UART_TX_BUF_SIZE (tx_r u) (tx_w u) (tx_buf u)"

definition sent :: "uart_t \<Rightarrow> u8 list" where
  "sent u = map snd (filter (\<lambda>(r, v). r = THR) (u_out u))"

interpretation txq: ring_buffer UART_TX_BUF_SIZE "TYPE(64)"
  by unfold_locales (simp_all add: UART_TX_BUF_SIZE_def)

lemma uart_wakeup [simp]: "uart (wakeup ch s) = uart s"
  by (simp add: wakeup_def)

lemma uart_send_one:
  assumes "uart_ok u" and "tx_w u \<noteq> tx_r u"
  shows "uart_ok (u\<lparr>tx_r := tx_r u + 1, u_polls := k, u_out := u_out u @ [(THR, tx_buf u ! (unat (tx_r u) mod UART_TX_BUF_SIZE))]\<rparr>)"
    and "sent (u\<lparr>tx_r := tx_r u + 1, u_polls := k, u_out := u_out u @ [(THR, tx_buf u ! (unat (tx_r u) mod UART_TX_BUF_SIZE))]\<rparr>)
      @ pending (u\<lparr>tx_r := tx_r u + 1, u_polls := k, u_out := u_out u @ [(THR, tx_buf u ! (unat (tx_r u) mod UART_TX_BUF_SIZE))]\<rparr>)
      = sent u @ pending u"
  using assms unat_diff_pred [OF assms(2) [symmetric]] txq.ring_get [OF assms(2) [symmetric], of "tx_buf u"]
  by (simp_all add: uart_ok_def sent_def pending_def)

lemma uartstart_keeps:
  assumes "uart_ok (uart s)"
  shows "uart_ok (uart (uartstart s)) \<and>
    sent (uart (uartstart s)) @ pending (uart (uartstart s)) = sent (uart s) @ pending (uart s)"
  using assms
proof (induction s rule: uartstart.induct)
  case (1 s)
  let ?u = "uart s"
  let ?v = "?u\<lparr>u_polls := Suc (u_polls ?u)\<rparr>"
  show ?case
  proof (cases "tx_w ?u = tx_r ?u \<or> \<not> u_idle ?u (u_polls ?u)")
    case True
    then show ?thesis using 1(2)
      by (subst (1 2 3) uartstart.simps)
        (auto simp: ReadLSR_def Let_def uart_consts uart_ok_def sent_def pending_def)
  next
    case False
    define t where "t = WriteReg THR (tx_buf ?u ! (unat (tx_r ?u) mod UART_TX_BUF_SIZE))
      (wakeup UartChan (s\<lparr>uart := ?v\<lparr>tx_r := tx_r ?u + 1\<rparr>\<rparr>))"
    have t: "uartstart s = uartstart t"
      using False by (subst uartstart.simps) (auto simp: ReadLSR_def Let_def LSR_RX_READY_def LSR_TX_IDLE_def t_def)
    have ut: "uart t = ?u\<lparr>tx_r := tx_r ?u + 1, u_polls := Suc (u_polls ?u),
        u_out := u_out ?u @ [(THR, tx_buf ?u ! (unat (tx_r ?u) mod UART_TX_BUF_SIZE))]\<rparr>"
      by (simp add: t_def WriteReg_def)
    have "uart_ok (uart t) \<Longrightarrow> uart_ok (uart (uartstart t)) \<and>
        sent (uart (uartstart t)) @ pending (uart (uartstart t)) = sent (uart t) @ pending (uart t)"
      using 1(1) [OF _ refl prod.collapse _ refl refl refl] False
      by (simp add: ReadLSR_def Let_def LSR_RX_READY_def LSR_TX_IDLE_def t_def)
    then have "uart_ok (uart (uartstart t)) \<and>
        sent (uart (uartstart t)) @ pending (uart (uartstart t)) = sent (uart t) @ pending (uart t)"
      using uart_send_one(1) [OF 1(2)] False unfolding ut by blast
    then show ?thesis using uart_send_one(2) [OF 1(2)] False unfolding t ut by simp
  qed
qed

text \<open>
  Serial output keeps its order and loses nothing: \<open>uartputc(c)\<close> on a buffer with room appends
  \<open>c\<close> to the bytes already sent followed by those still buffered, and keeps the buffer well formed;
  on a full buffer it changes no byte and goes to sleep.
\<close>

lemma uartputc_fifo:
  assumes "uart_ok (uart s)" and "\<not> panicked s"
  shows "if length (pending (uart s)) = UART_TX_BUF_SIZE
     then \<exists>t. uartputc c s = Sleep UartChan t \<and> uart t = uart s
     else \<exists>t. uartputc c s = Ok () t \<and> uart_ok (uart t) \<and>
       sent (uart t) @ pending (uart t) = sent (uart s) @ pending (uart s) @ [c]"
proof (cases "tx_w (uart s) = tx_r (uart s) + of_nat UART_TX_BUF_SIZE")
  case True
  then show ?thesis using assms
    by (simp add: pending_def uartputc_def sleep_def upd_proc_def UART_TX_BUF_SIZE_def)
next
  case False
  let ?u = "uart s"
  let ?v = "?u\<lparr>tx_buf := (tx_buf ?u)[unat (tx_w ?u) mod UART_TX_BUF_SIZE := c], tx_w := tx_w ?u + 1\<rparr>"
  have lt: "unat (tx_w ?u - tx_r ?u) < UART_TX_BUF_SIZE"
    using txq.not_full False assms(1) by (simp add: uart_ok_def)
  have ok: "uart_ok ?v" and p: "pending ?v = pending ?u @ [c]" and sv: "sent ?v = sent ?u"
    using txq.put_bound [OF lt] txq.ring_put [OF lt, of "tx_buf ?u" c] assms(1)
    by (simp_all add: uart_ok_def pending_def sent_def)
  have "uartputc c s = Ok () (uartstart (s\<lparr>uart := ?v\<rparr>))"
    using False assms(2) by (simp add: uartputc_def Let_def)
  then show ?thesis using uartstart_keeps [of "s\<lparr>uart := ?v\<rparr>"] ok p sv lt
    by (simp add: pending_def)
qed

definition uart0 :: uart_t where
  "uart0 = \<lparr>tx_buf = replicate 32 0, tx_w = 2, tx_r = 2, u_rx = [], u_idle = (\<lambda>k. True), u_polls = 0,
     u_out = []\<rparr>"

definition uart_machine :: "fs_st \<Rightarrow> uart_t \<Rightarrow> uart_st" where
  "uart_machine s u = fs_st.extend s (uart_st.fields u False)"

section \<open>Numbers in print\<close>

definition digit_value :: "u8 \<Rightarrow> nat" where
  "digit_value c = (if unat c < 58 then unat c - 48 else unat c - 87)"

definition number_value :: "nat \<Rightarrow> u8 list \<Rightarrow> nat" where
  "number_value base cs = foldl (\<lambda>v c. base * v + digit_value c) 0 cs"

definition decimal_value :: "u8 list \<Rightarrow> int" where
  "decimal_value cs = (if cs \<noteq> [] \<and> hd cs = 0x2d then - int (number_value 10 (tl cs)) else int (number_value 10 cs))"

lemma number_value_snoc: "number_value b (cs @ [c]) = b * number_value b cs + digit_value c"
  by (simp add: number_value_def)

lemma all_digits: "\<forall>d\<in>set [0..<16]. digit_value (digits ! d) = d \<and> digits ! d \<noteq> 0x2d"
  unfolding digits_def ascii_def by (simp add: upt_rec digit_value_def)

lemma digit_of: "d < 16 \<Longrightarrow> digit_value (digits ! d) = d \<and> digits ! d \<noteq> 0x2d"
  using all_digits by auto

lemma print_digits_value:
  assumes "2 \<le> unat base" "unat base \<le> 16" "unat x < unat base ^ k" "k \<le> room" "0 < k"
  shows "\<exists>ds. print_digits room base x = Some ds \<and> ds \<noteq> [] \<and> length ds \<le> k \<and>
     0x2d \<notin> set ds \<and> number_value (unat base) (rev ds) = unat x"
  using assms
proof (induction room arbitrary: x k)
  case (Suc room)
  have m: "unat (x mod base) < 16" "unat (x mod base) = unat x mod unat base"
    using Suc.prems by (simp_all add: unat_mod_distrib less_le_trans [OF mod_less_divisor])
  note d = digit_of [OF m(1)]
  show ?case
  proof (cases "x div base = 0")
    case True
    then have "unat x div unat base = 0" by (metis unat_div_distrib unat_0)
    then have "unat x mod unat base = unat x" using Suc.prems by (simp add: div_eq_0_iff)
    then show ?thesis using True Suc.prems d m by (simp add: number_value_def)
  next
    case False
    have q: "unat (x div base) = unat x div unat base" by (simp add: unat_div_distrib)
    then have "unat x div unat base \<noteq> 0" using False by (metis unat_eq_zero)
    then have "k \<noteq> 1" using Suc.prems by (auto simp: div_eq_0_iff)
    then obtain k' where k: "k = Suc k'" "0 < k'" using Suc.prems by (cases k) auto
    have "unat (x div base) < unat base ^ k'"
      using Suc.prems k q by (simp add: less_mult_imp_div_less mult.commute)
    then obtain ds where "print_digits room base (x div base) = Some ds" "ds \<noteq> []" "length ds \<le> k'"
        "0x2d \<notin> set ds" "number_value (unat base) (rev ds) = unat (x div base)"
      using Suc.IH [of "x div base" k'] Suc.prems k by auto
    then show ?thesis using False d m q k
      by (auto simp: number_value_snoc)
  qed
qed simp

lemma sint_abs: "int (unat (if sint (x :: u32) < 0 then - x else x)) = \<bar>sint x\<bar>"
proof (cases "uint x < 2 ^ 31")
  case True
  then have "sint x = uint x" by (simp add: sint_uint signed_take_bit_eq_take_bit_shift take_bit_int_eq_self)
  then show ?thesis by simp
next
  case False
  have u: "uint x < 2 ^ 32" using uint_bounded [of x] by simp
  have "take_bit 32 (uint x + 2 ^ 31) = uint x + 2 ^ 31 - 2 ^ 32"
    using False u by (simp add: take_bit_eq_mod mod_pos_geq)
  then have s: "sint x = uint x - 2 ^ 32"
    by (simp add: sint_uint signed_take_bit_eq_take_bit_shift)
  moreover have "uint (- x) = 2 ^ 32 - uint x"
    using False u by (simp add: uint_word_ariths zmod_zminus1_eq_if)
  ultimately show ?thesis using u by simp
qed

text \<open>
  \<open>printint(xx, 10, 1)\<close> writes at most 11 of the 16 characters of its buffer, and what it prints
  reads back as the signed value of \<open>xx\<close>, for every 32-bit \<open>xx\<close> (the most negative one included).
\<close>

lemma printint_buf_decimal:
  "\<exists>buf. printint_buf xx 10 True = Some buf \<and> length buf \<le> 11 \<and> decimal_value (rev buf) = sint xx"
proof -
  define x where "x = (if sint xx < 0 then - xx else xx)"
  have b: "unat y < unat (10 :: u32) ^ 10" for y :: u32
    using unsigned_less [of y, where 'a = nat] by simp
  obtain ds where ds: "print_digits 16 10 x = Some ds" "ds \<noteq> []" "length ds \<le> 10" "0x2d \<notin> set ds"
      "number_value 10 (rev ds) = unat x"
    using print_digits_value [of 10 x 10 16, OF _ _ b] by auto
  have "hd (rev ds) \<noteq> 0x2d" using ds by (metis hd_in_set rev_is_Nil_conv set_rev)
  moreover have "int (unat x) = \<bar>sint xx\<bar>" unfolding x_def by (rule sint_abs)
  ultimately show ?thesis using ds
    by (auto simp: printint_buf_def Let_def x_def [symmetric] decimal_value_def)
qed

lemma printint_buf_Some: "\<exists>buf. printint_buf xx 10 True = Some buf"
  using printint_buf_decimal by blast

section \<open>What printing changes\<close>

text \<open>Printing touches the poll counter and the written registers, and nothing else.\<close>

definition tty_frame :: "'a uart_st_scheme \<Rightarrow> 'a uart_st_scheme \<Rightarrow> bool" where
  "tty_frame s t \<longleftrightarrow> (\<exists>n out. t = s\<lparr>uart := (uart s)\<lparr>u_polls := n, u_out := out\<rparr>\<rparr>)"

lemma tty_frame_refl [simp]: "tty_frame s s"
  unfolding tty_frame_def by (intro exI [of _ "u_polls (uart s)"] exI [of _ "u_out (uart s)"]) simp

lemma tty_frame_trans [trans]: "tty_frame s t \<Longrightarrow> tty_frame t u \<Longrightarrow> tty_frame s u"
proof -
  assume "tty_frame s t" "tty_frame t u"
  then obtain n out where "u = s\<lparr>uart := (uart s)\<lparr>u_polls := n, u_out := out\<rparr>\<rparr>"
    by (auto simp: tty_frame_def)
  then show ?thesis by (auto simp: tty_frame_def)
qed

text \<open>The transmitter becomes idle again and again, and no CPU has panicked.\<close>

definition uart_live :: "'a uart_st_scheme \<Rightarrow> bool" where
  "uart_live s \<longleftrightarrow> \<not> panicked s \<and> (\<forall>k. \<exists>j\<ge>k. u_idle (uart s) j)"

lemma uart_live_frame: "tty_frame s t \<Longrightarrow> uart_live s \<Longrightarrow> uart_live t"
  by (auto simp: tty_frame_def uart_live_def)

definition prints :: "('a uart_st_scheme \<Rightarrow> (unit, 'a uart_st_scheme) res) \<Rightarrow> bool" where
  "prints m \<longleftrightarrow> (\<forall>s x t. m s = Ok x t \<longrightarrow> tty_frame s t) \<and>
     (\<forall>s. uart_live s \<longrightarrow> (\<exists>t. m s = Ok () t))"

lemma printsD:
  assumes "prints m"
  shows "m s = Ok x t \<Longrightarrow> tty_frame s t"
    and "uart_live s \<Longrightarrow> \<exists>t. m s = Ok () t \<and> tty_frame s t \<and> uart_live t"
  using assms uart_live_frame unfolding prints_def by blast+

lemma prints_Ok: "prints (Ok ())"
  by (simp add: prints_def)

lemma prints_bind:
  assumes "prints m" and "prints m'"
  shows "prints (\<lambda>s. bind (m s) (\<lambda>_ t. m' t))"
  unfolding prints_def
proof (intro conjI allI impI)
  show "tty_frame s t" if "bind (m s) (\<lambda>_ t. m' t) = Ok x t" for s x t
    using that assms by (auto simp: bind_simps dest: printsD(1) intro: tty_frame_trans)
  show "\<exists>t. bind (m s) (\<lambda>_ t. m' t) = Ok () t" if "uart_live s" for s
    using printsD(2) [OF assms(1) that] assms(2) by (auto dest: printsD(2))
qed

lemma uart_wait_frame:
  assumes "uart_wait s = Some t"
  shows "tty_frame s t"
proof (rule uart_wait.raw_induct [OF _ assms])
  fix f and s t :: "'a uart_st_scheme"
  assume IH: "\<And>s t. f s = Some t \<Longrightarrow> tty_frame s t"
    and f: "(let r = ReadLSR s in if fst r AND LSR_TX_IDLE = 0 then f (snd r) else Some (snd r)) = Some t"
  have r: "tty_frame s (snd (ReadLSR s))"
    unfolding tty_frame_def ReadLSR_def Let_def
    by (intro exI [of _ "Suc (u_polls (uart s))"] exI [of _ "u_out (uart s)"]) simp
  show "tty_frame s t"
    using f IH tty_frame_trans [OF r] r by (auto simp: Let_def split: if_splits)
qed

lemma uart_wait_returns:
  assumes "u_idle (uart s) (u_polls (uart s) + d)"
  shows "\<exists>t. uart_wait s = Some t"
  using assms
proof (induction d arbitrary: s)
  case 0
  then show ?case by (subst uart_wait.simps) (simp add: ReadLSR_def Let_def uart_consts)
next
  case (Suc d)
  show ?case
    using Suc.IH [of "snd (ReadLSR s)"] Suc.prems
    by (subst uart_wait.simps) (auto simp: ReadLSR_def Let_def)
qed

lemma prints_uartputc_sync: "prints (uartputc_sync c :: 'a uart_st_scheme \<Rightarrow> _)"
  unfolding prints_def
proof (intro conjI allI impI)
  show "tty_frame s t" if sync: "uartputc_sync c s = Ok x t" for s :: "'a uart_st_scheme" and x t
  proof -
    obtain u where u: "uart_wait s = Some u" "t = WriteReg THR c u"
      using sync by (auto simp: uartputc_sync_def split: if_splits option.splits)
    have "tty_frame u t" unfolding tty_frame_def u(2) WriteReg_def
      by (intro exI [of _ "u_polls (uart u)"] exI [of _ "u_out (uart u) @ [(THR, c)]"]) simp
    then show ?thesis using uart_wait_frame [OF u(1)] tty_frame_trans by blast
  qed
  show "\<exists>t. uartputc_sync c s = Ok () t" if live: "uart_live s" for s :: "'a uart_st_scheme"
  proof -
    obtain j where "j \<ge> u_polls (uart s)" "u_idle (uart s) j" using live by (auto simp: uart_live_def)
    then obtain t where "uart_wait s = Some t"
      using uart_wait_returns [of s "j - u_polls (uart s)"] by auto
    then show ?thesis using live by (simp add: uartputc_sync_def uart_live_def)
  qed
qed

lemma prints_consputc: "prints (consputc c :: 'a uart_st_scheme \<Rightarrow> _)"
proof (cases "c = BACKSPACE")
  case True
  then have "consputc c = (\<lambda>s :: 'a uart_st_scheme. bind (uartputc_sync 8 s) (\<lambda>_ s. bind (uartputc_sync 0x20 s) (\<lambda>_ s. uartputc_sync 8 s)))"
    by (simp add: consputc_def fun_eq_iff)
  then show ?thesis by (simp add: prints_bind prints_uartputc_sync)
next
  case False
  then have "consputc c = (uartputc_sync (ucast c) :: 'a uart_st_scheme \<Rightarrow> _)" by (simp add: consputc_def fun_eq_iff)
  then show ?thesis by (simp add: prints_uartputc_sync)
qed

lemma prints_putchars: "prints (putchars cs :: 'a uart_st_scheme \<Rightarrow> _)"
proof (induction cs)
  case Nil
  have "putchars [] = (Ok () :: 'a uart_st_scheme \<Rightarrow> _)" by (simp add: fun_eq_iff)
  then show ?case by (simp add: prints_Ok)
next
  case (Cons c cs)
  have "putchars (c # cs) = (\<lambda>s :: 'a uart_st_scheme. bind (consputc (ucast c) s) (\<lambda>_ s. putchars cs s))" by (simp add: fun_eq_iff)
  then show ?case using prints_bind [OF prints_consputc Cons] by simp
qed

lemma prints_printint: "prints (printint xx 10 True :: 'a uart_st_scheme \<Rightarrow> _)"
proof -
  obtain buf where "printint_buf xx 10 True = Some buf" using printint_buf_Some by blast
  then have "printint xx 10 True = (putchars (rev buf) :: 'a uart_st_scheme \<Rightarrow> _)" by (simp add: printint_def fun_eq_iff)
  then show ?thesis by (simp add: prints_putchars)
qed

end
