(* ===== verification/Console.thy ===== *)
theory Console
  imports Uart
begin

text \<open>
  The console, \<open>kernel/console.c\<close>: the input line discipline that the UART interrupt drives, and the
  \<open>read\<close> and \<open>write\<close> of the console device. A function that can sleep in the middle of a loop
  returns \<open>Resume\<close> with its local variables, in the state in which the process sleeps; it goes on
  from there when the process runs again.
\<close>

section \<open>State\<close>

datatype ('r, 'l) outcome = Return 'r | Resume 'l

primrec suspend :: "'l \<Rightarrow> (unit, 's) res \<Rightarrow> (('r, 'l) outcome, 's) res" where
  "suspend l (Ok x s) = Ok (Resume l) s"
| "suspend l (Sleep ch s) = Ok (Resume l) s"
| "suspend l (Panic e) = Panic e"
| "suspend l Diverge = Diverge"

text \<open>The caller's view: the function has not returned while it is suspended.\<close>

definition finish :: "chan \<Rightarrow> (('r, 'l) outcome, 's) res \<Rightarrow> ('r, 's) res" where
  "finish ch m = bind m (\<lambda>r s. case r of Return v \<Rightarrow> Ok v s | Resume l \<Rightarrow> Sleep ch s)"

definition INPUT_BUF_SIZE :: nat where "INPUT_BUF_SIZE = 128"

definition Ctrl :: "u32 \<Rightarrow> u32" where "Ctrl x = x - 0x40"

record cons_t =
  c_buf :: "u8 list"
  c_r :: u32
  c_w :: u32
  c_e :: u32

text \<open>An entry of \<open>devsw\<close>: the console's pair of functions, or null pointers.\<close>

datatype device = NoDevice | ConsoleDevice

definition NDEV :: nat where "NDEV = 10"
definition CONSOLE :: nat where "CONSOLE = 1"

record console_st = uart_st +
  cons :: cons_t
  devsw :: "device list"

definition cons_char :: "cons_t \<Rightarrow> u32 \<Rightarrow> u8" where
  "cons_char c i = c_buf c ! (unat i mod INPUT_BUF_SIZE)"

section \<open>Reading and writing\<close>

text \<open>\<open>consolewrite\<close> from character \<open>i\<close>; the local variables are \<open>i\<close> and the character it sends.\<close>

function consolewrite_loop ::
    "bool \<Rightarrow> u64 \<Rightarrow> int \<Rightarrow> int \<Rightarrow> 'a uart_st_scheme \<Rightarrow> ((int, int \<times> u8) outcome, 'a uart_st_scheme) res" where
  "consolewrite_loop user_src src n i s =
     (if i < n then
        bind (either_copyin user_src (src + of_int i) 1 s) (\<lambda>(r, cs) s.
          if r = -1 then Ok (Return i) s
          else case uartputc (hd cs) s of
              Ok _ s \<Rightarrow> consolewrite_loop user_src src n (i + 1) s
            | Sleep ch s \<Rightarrow> Ok (Resume (i, hd cs)) s
            | Panic e \<Rightarrow> Panic e
            | Diverge \<Rightarrow> Diverge)
      else Ok (Return i) s)"
  by pat_completeness auto
termination
  by (relation "measure (\<lambda>(user_src, src, n, i, s). nat (n - i))") auto

declare consolewrite_loop.simps [simp del]

definition consolewrite_resume ::
    "bool \<Rightarrow> u64 \<Rightarrow> int \<Rightarrow> int \<times> u8 \<Rightarrow> 'a uart_st_scheme \<Rightarrow> ((int, int \<times> u8) outcome, 'a uart_st_scheme) res" where
  "consolewrite_resume user_src src n l s =
     (case uartputc (snd l) s of
        Ok _ s \<Rightarrow> consolewrite_loop user_src src n (fst l + 1) s
      | Sleep ch s \<Rightarrow> Ok (Resume l) s
      | Panic e \<Rightarrow> Panic e
      | Diverge \<Rightarrow> Diverge)"

definition consolewrite :: "bool \<Rightarrow> u64 \<Rightarrow> int \<Rightarrow> 'a uart_st_scheme \<Rightarrow> (int, 'a uart_st_scheme) res" where
  "consolewrite user_src src n s = finish UartChan (consolewrite_loop user_src src n 0 s)"

text \<open>\<open>consoleread\<close>: \<open>n\<close> bytes still wanted of \<open>target\<close>, the next one for \<open>dst\<close>.\<close>

function consoleread_loop ::
    "bool \<Rightarrow> int \<Rightarrow> u64 \<Rightarrow> int \<Rightarrow> 'a console_st_scheme \<Rightarrow> ((int, u64 \<times> int) outcome, 'a console_st_scheme) res" where
  "consoleread_loop user_dst target dst n s =
     (if n > 0 then
        if c_r (cons s) = c_w (cons s) then
          if killed (me s) s then Ok (Return (-1)) s else suspend (dst, n) (sleep ConsChan s)
        else
          let c = cons_char (cons s) (c_r (cons s));
              s = s\<lparr>cons := (cons s)\<lparr>c_r := c_r (cons s) + 1\<rparr>\<rparr>
          in if ucast c = Ctrl 0x44 then
               let s = (if n < target then s\<lparr>cons := (cons s)\<lparr>c_r := c_r (cons s) - 1\<rparr>\<rparr> else s)
               in Ok (Return (target - n)) s
             else bind (either_copyout user_dst dst [c] s) (\<lambda>r s.
               if r = -1 then Ok (Return (target - n)) s
               else if c = 10 then Ok (Return (target - (n - 1))) s
               else consoleread_loop user_dst target (dst + 1) (n - 1) s)
      else Ok (Return (target - n)) s)"
  by pat_completeness auto
termination
  by (relation "measure (\<lambda>(user_dst, target, dst, n, s). nat n)") auto

declare consoleread_loop.simps [simp del]

definition consoleread :: "bool \<Rightarrow> u64 \<Rightarrow> int \<Rightarrow> 'a console_st_scheme \<Rightarrow> (int, 'a console_st_scheme) res" where
  "consoleread user_dst dst n s = finish ConsChan (consoleread_loop user_dst n dst n s)"

section \<open>Input\<close>

text \<open>\<open>procdump\<close> of \<open>kernel/proc.c\<close>, printing the lines.\<close>

fun procdump_lines :: "(int \<times> string \<times> u8 list) list \<Rightarrow> 'a uart_st_scheme \<Rightarrow> (unit, 'a uart_st_scheme) res" where
  "procdump_lines [] s = Ok () s"
| "procdump_lines ((pid, st, name) # ls) s =
     bind (printf (Some (ascii ''%d %s %s''))
             [ArgInt (of_int pid), ArgStr (Some (ascii st)), ArgStr (Some name)] s) (\<lambda>_ s.
     bind (printf (Some [10]) [] s) (\<lambda>_ s. procdump_lines ls s))"

definition procdump_print :: "'a uart_st_scheme \<Rightarrow> (unit, 'a uart_st_scheme) res" where
  "procdump_print s =
     bind (printf (Some [10]) [] s) (\<lambda>_ s. procdump_lines (procdump s) s)"

lemma cons_frame: "tty_frame s t \<Longrightarrow> cons t = cons s"
  by (auto simp: tty_frame_def)

lemma consputc_cons [simp]: "consputc c s = Ok x t \<Longrightarrow> cons t = cons s"
  using printsD(1) [OF prints_consputc] cons_frame by blast

function kill_line :: "'a console_st_scheme \<Rightarrow> (unit, 'a console_st_scheme) res" where
  "kill_line s =
     (if c_e (cons s) \<noteq> c_w (cons s) \<and> cons_char (cons s) (c_e (cons s) - 1) \<noteq> 10 then
        bind (consputc BACKSPACE (s\<lparr>cons := (cons s)\<lparr>c_e := c_e (cons s) - 1\<rparr>\<rparr>)) (\<lambda>_ s. kill_line s)
      else Ok () s)"
  by pat_completeness auto
termination
proof (relation "measure (\<lambda>s. unat (c_e (cons s) - c_w (cons s)))")
  fix s t :: "'a console_st_scheme" and x
  assume "c_e (cons s) \<noteq> c_w (cons s) \<and> cons_char (cons s) (c_e (cons s) - 1) \<noteq> 10"
    and "consputc BACKSPACE (s\<lparr>cons := (cons s)\<lparr>c_e := c_e (cons s) - 1\<rparr>\<rparr>) = Ok x t"
  then show "(t, s) \<in> measure (\<lambda>s. unat (c_e (cons s) - c_w (cons s)))"
    using unat_diff_pred [OF not_sym, of "c_e (cons s)" "c_w (cons s)"] by (simp add: algebra_simps)
qed simp

declare kill_line.simps [simp del]

definition consoleintr :: "u32 \<Rightarrow> 'a console_st_scheme \<Rightarrow> (unit, 'a console_st_scheme) res" where
  "consoleintr c s =
     (if c = Ctrl 0x50 then procdump_print s
      else if c = Ctrl 0x55 then kill_line s
      else if c = Ctrl 0x48 \<or> c = 0x7f then
        if c_e (cons s) \<noteq> c_w (cons s)
        then consputc BACKSPACE (s\<lparr>cons := (cons s)\<lparr>c_e := c_e (cons s) - 1\<rparr>\<rparr>)
        else Ok () s
      else if c \<noteq> 0 \<and> c_e (cons s) - c_r (cons s) < of_nat INPUT_BUF_SIZE then
        let c = (if c = 13 then 10 else c) in
        bind (consputc c s) (\<lambda>_ s.
          let k = cons s;
              k = k\<lparr>c_buf := (c_buf k)[unat (c_e k) mod INPUT_BUF_SIZE := ucast c], c_e := c_e k + 1\<rparr>
          in if c = 10 \<or> c = Ctrl 0x44 \<or> c_e k - c_r k = of_nat INPUT_BUF_SIZE
             then Ok () (wakeup ConsChan (s\<lparr>cons := k\<lparr>c_w := c_e k\<rparr>\<rparr>))
             else Ok () (s\<lparr>cons := k\<rparr>))
      else Ok () s)"

definition consoleinit :: "'a console_st_scheme \<Rightarrow> 'a console_st_scheme" where
  "consoleinit s = (let s = uartinit s in s\<lparr>devsw := (devsw s)[CONSOLE := ConsoleDevice]\<rparr>)"

text \<open>The interrupt handler of \<open>kernel/uart.c\<close>: all waiting input, then more output.\<close>

lemma prints_procdump_lines: "prints (procdump_lines ls :: 'a uart_st_scheme \<Rightarrow> _)"
proof (induction ls)
  case Nil
  have "procdump_lines [] = (Ok () :: 'a uart_st_scheme \<Rightarrow> _)" by (simp add: fun_eq_iff)
  then show ?case by (simp add: prints_Ok)
next
  case (Cons l ls)
  obtain pid st name where l: "l = (pid, st, name)" by (cases l)
  have "procdump_lines (l # ls) = (\<lambda>s :: 'a uart_st_scheme.
      bind (printint (of_int pid) 10 True s) (\<lambda>_ s. bind (consputc 0x20 s) (\<lambda>_ s.
      bind (putchars (ascii st) s) (\<lambda>_ s. bind (consputc 0x20 s) (\<lambda>_ s.
      bind (putchars name s) (\<lambda>_ s. bind (consputc 10 s) (\<lambda>_ s. procdump_lines ls s)))))))"
    by (simp add: l fun_eq_iff printf_def ascii_def bind_assoc)
  then show ?case
    using Cons by (simp add: prints_bind prints_consputc prints_putchars prints_printint)
qed

lemma prints_procdump: "prints (procdump_print :: 'a uart_st_scheme \<Rightarrow> _)"
  unfolding prints_def
proof (intro conjI allI impI)
  show "tty_frame s t" if "procdump_print s = Ok x t" for s t :: "'a uart_st_scheme" and x
    using that printsD(1) [OF prints_consputc] printsD(1) [OF prints_procdump_lines]
    by (simp add: procdump_print_def printf_def bind_simps) (blast intro: tty_frame_trans)
  show "\<exists>t. procdump_print s = Ok () t" if live: "uart_live s" for s :: "'a uart_st_scheme"
  proof -
    obtain u where "consputc 10 s = Ok () u" "uart_live u" using printsD(2) [OF prints_consputc live] by blast
    then show ?thesis using printsD(2) [OF prints_procdump_lines] by (fastforce simp: procdump_print_def printf_def)
  qed
qed

lemma kill_line_rx:
  fixes s t :: "'a console_st_scheme"
  shows "kill_line s = Ok x t \<Longrightarrow> u_rx (uart t) = u_rx (uart s)"
proof (induction s rule: kill_line.induct)
  case (1 s)
  show ?case
  proof (cases "c_e (cons s) \<noteq> c_w (cons s) \<and> cons_char (cons s) (c_e (cons s) - 1) \<noteq> 10")
    case True
    then obtain u where u: "consputc BACKSPACE (s\<lparr>cons := (cons s)\<lparr>c_e := c_e (cons s) - 1\<rparr>\<rparr>) = Ok () u"
        "kill_line u = Ok x t"
      using 1(2) by (subst (asm) kill_line.simps) (auto simp: bind_simps)
    then show ?thesis using 1(1) [OF True u(1,2)] printsD(1) [OF prints_consputc u(1)]
      by (auto simp: tty_frame_def)
  next
    case False
    then show ?thesis using 1(2) by (subst (asm) kill_line.simps) auto
  qed
qed

lemma consoleintr_rx:
  fixes s t :: "'a console_st_scheme"
  assumes "consoleintr c s = Ok x t"
  shows "u_rx (uart t) = u_rx (uart s)"
  using assms printsD(1) [OF prints_consputc] printsD(1) [OF prints_procdump]
  by (fastforce simp: consoleintr_def Let_def bind_simps tty_frame_def dest: kill_line_rx split: if_splits)

function uartintr_input :: "'a console_st_scheme \<Rightarrow> (unit, 'a console_st_scheme) res" where
  "uartintr_input s =
     (let r = uartgetc s in
      case fst r of
        None \<Rightarrow> Ok () (snd r)
      | Some c \<Rightarrow> bind (consoleintr (ucast c) (snd r)) (\<lambda>_ s. uartintr_input s))"
  by pat_completeness auto
termination
proof (relation "measure (\<lambda>s. length (u_rx (uart s)))")
  fix s t :: "'a console_st_scheme" and r c x
  assume r: "r = uartgetc s" "fst r = Some c" "consoleintr (ucast c) (snd r) = Ok x t"
  then have "u_rx (uart t) = u_rx (uart (snd (uartgetc s)))" using consoleintr_rx by blast
  then show "(t, s) \<in> measure (\<lambda>s. length (u_rx (uart s)))"
    using r by (auto simp: uartgetc_def ReadLSR_def ReadRHR_def Let_def uart_consts split: if_splits)
qed simp

declare uartintr_input.simps [simp del]

definition uartintr :: "'a console_st_scheme \<Rightarrow> (unit, 'a console_st_scheme) res" where
  "uartintr s = bind (uartintr_input s) (\<lambda>_ s. Ok () (uartstart s))"

section \<open>The line discipline\<close>

text \<open>
  What the console promises: a queue of completed input and the line that is being edited. The
  buffer holds both, between the read and the write index and between the write and the edit index.
\<close>

definition cons_input :: "cons_t \<Rightarrow> u8 list" where
  "cons_input c = ring INPUT_BUF_SIZE (c_r c) (c_w c) (c_buf c)"

definition cons_line :: "cons_t \<Rightarrow> u8 list" where
  "cons_line c = ring INPUT_BUF_SIZE (c_w c) (c_e c) (c_buf c)"

definition cons_ok :: "cons_t \<Rightarrow> bool" where
  "cons_ok c \<longleftrightarrow> length (c_buf c) = INPUT_BUF_SIZE \<and> unat (c_w c - c_r c) \<le> unat (c_e c - c_r c) \<and>
     unat (c_e c - c_r c) \<le> INPUT_BUF_SIZE \<and> 10 \<notin> set (cons_line c)"

definition line_input :: "u8 \<Rightarrow> u8 list \<times> u8 list \<Rightarrow> u8 list \<times> u8 list" where
  "line_input c st =
     (let (inp, line) = st in
      if c = 0x10 then (inp, line)
      else if c = 0x15 then (inp, [])
      else if c = 8 \<or> c = 0x7f then (inp, butlast line)
      else if c \<noteq> 0 \<and> length inp + length line < INPUT_BUF_SIZE then
        let c = (if c = 13 then 10 else c) in
        if c = 10 \<or> c = 4 \<or> length inp + length line + 1 = INPUT_BUF_SIZE
        then (inp @ line @ [c], []) else (inp, line @ [c])
      else (inp, line))"

interpretation consq: ring_buffer INPUT_BUF_SIZE "TYPE(32)"
  by unfold_locales (simp_all add: INPUT_BUF_SIZE_def)

lemma cons_lengths:
  assumes "cons_ok c"
  shows "length (cons_input c) + length (cons_line c) = unat (c_e c - c_r c)"
    and "ring INPUT_BUF_SIZE (c_r c) (c_e c) (c_buf c) = cons_input c @ cons_line c"
proof -
  show 1: "ring INPUT_BUF_SIZE (c_r c) (c_e c) (c_buf c) = cons_input c @ cons_line c"
    using assms consq.ring_split unfolding cons_ok_def cons_input_def cons_line_def by blast
  show "length (cons_input c) + length (cons_line c) = unat (c_e c - c_r c)"
    using arg_cong [OF 1, of length] by simp
qed

text \<open>Dropping the last character of the line.\<close>

lemma cons_backspace:
  assumes ok: "cons_ok c" and ne: "c_e c \<noteq> c_w c"
  defines "d \<equiv> c\<lparr>c_e := c_e c - 1\<rparr>"
  shows "cons_ok d" "cons_input d = cons_input c" "cons_line c = cons_line d @ [cons_char c (c_e c - 1)]"
proof -
  show i: "cons_input d = cons_input c" by (simp add: d_def cons_input_def)
  show l: "cons_line c = cons_line d @ [cons_char c (c_e c - 1)]"
    using consq.ring_unput [OF not_sym [OF ne]] by (simp add: d_def cons_line_def cons_char_def)
  have "c_e c \<noteq> c_r c"
    using cons_lengths(1) [OF ok] l by auto
  then have "unat (c_e c - r) = Suc (unat (c_e c - 1 - r))" if "r \<in> {c_r c, c_w c}" for r
    using unat_diff_pred [of r "c_e c"] ne that by (auto simp: algebra_simps)
  then have "unat (c_e d - c_r d) < unat (c_e c - c_r c)" "unat (c_w d - c_r d) \<le> unat (c_e d - c_r d)"
    using arg_cong [OF l, of length] cons_lengths(1) [OF ok] by (simp_all add: d_def cons_input_def cons_line_def)
  then show "cons_ok d" using ok l by (simp add: cons_ok_def) (simp add: d_def)
qed

lemma kill_line_law:
  fixes s :: "'a console_st_scheme"
  assumes "cons_ok (cons s)" and "uart_live s"
  shows "\<exists>t. kill_line s = Ok () t \<and> cons_ok (cons t) \<and> cons_input (cons t) = cons_input (cons s) \<and>
     cons_line (cons t) = [] \<and> uart_live t"
  using assms
proof (induction s rule: kill_line.induct)
  case (1 s)
  show ?case
  proof (cases "c_e (cons s) = c_w (cons s)")
    case True
    then show ?thesis using 1(2,3) by (subst kill_line.simps) (simp add: cons_line_def)
  next
    case False
    let ?s = "s\<lparr>cons := (cons s)\<lparr>c_e := c_e (cons s) - 1\<rparr>\<rparr>"
    note b = cons_backspace [OF 1(2) False]
    have nl: "cons_char (cons s) (c_e (cons s) - 1) \<noteq> 10"
      using 1(2) b(3) by (auto simp: cons_ok_def)
    have "uart_live ?s" using 1(3) by (simp add: uart_live_def)
    then obtain u where u: "consputc BACKSPACE ?s = Ok () u" "tty_frame ?s u" "uart_live u"
      using printsD(2) [OF prints_consputc] by blast
    then have c: "cons u = (cons s)\<lparr>c_e := c_e (cons s) - 1\<rparr>" using cons_frame by fastforce
    have "kill_line s = kill_line u" using False nl u(1) by (subst kill_line.simps) simp
    then show ?thesis using 1(1) [OF _ u(1)] False nl u(3) c b(1,2) by simp
  qed
qed

text \<open>Appending a character to the line, and completing the line.\<close>

lemma cons_append:
  fixes x :: u8
  assumes ok: "cons_ok c" and lt: "unat (c_e c - c_r c) < INPUT_BUF_SIZE"
  defines "d \<equiv> c\<lparr>c_buf := (c_buf c)[unat (c_e c) mod INPUT_BUF_SIZE := x], c_e := c_e c + 1\<rparr>"
  shows "cons_input d = cons_input c" "cons_line d = cons_line c @ [x]" "unat (c_e d - c_r d) = Suc (unat (c_e c - c_r c))"
    and "x \<noteq> 10 \<Longrightarrow> cons_ok d" "cons_ok (d\<lparr>c_w := c_e d\<rparr>)"
    and "cons_input (d\<lparr>c_w := c_e d\<rparr>) = cons_input c @ cons_line c @ [x]" "cons_line (d\<lparr>c_w := c_e d\<rparr>) = []"
proof -
  have len: "length (c_buf c) = INPUT_BUF_SIZE" using ok by (simp add: cons_ok_def)
  have lw: "unat (c_e c - c_w c) < INPUT_BUF_SIZE"
    using cons_lengths(1) [OF ok] lt by (simp add: cons_line_def)
  show n: "unat (c_e d - c_r d) = Suc (unat (c_e c - c_r c))"
    using unat_diff_Suc [OF lt consq.size_less] by (simp add: d_def)
  have w: "c_e c = c_r c + of_nat (unat (c_e c - c_r c))" by simp
  show i: "cons_input d = cons_input c"
    using consq.ring_update_outside [of "c_w c" "c_r c" "unat (c_e c - c_r c)" "c_buf c" x] ok lt
    unfolding cons_input_def d_def w [symmetric] by (simp add: cons_ok_def)
  show l: "cons_line d = cons_line c @ [x]"
    using consq.ring_put [OF lw len] by (simp add: cons_line_def d_def)
  have all: "ring INPUT_BUF_SIZE (c_r d) (c_e d) (c_buf d) = (cons_input c @ cons_line c) @ [x]"
    using consq.ring_put [OF lt len] cons_lengths(2) [OF ok] by (simp add: d_def)
  show "cons_input (d\<lparr>c_w := c_e d\<rparr>) = cons_input c @ cons_line c @ [x]"
    using all by (simp add: cons_input_def)
  show e: "cons_line (d\<lparr>c_w := c_e d\<rparr>) = []" by (simp add: cons_line_def)
  have ld: "length (c_buf d) = INPUT_BUF_SIZE" "c_r d = c_r c" "c_w d = c_w c" using len by (simp_all add: d_def)
  show "x \<noteq> 10 \<Longrightarrow> cons_ok d" using ok lt n l ld by (simp add: cons_ok_def)
  show "cons_ok (d\<lparr>c_w := c_e d\<rparr>)" using ok lt n e ld by (simp add: cons_ok_def)
qed

lemma ctrl_codes:
  "Ctrl 0x50 = 0x10" "Ctrl 0x55 = 0x15" "Ctrl 0x48 = 8" "Ctrl 0x44 = 4"
  by (simp_all add: Ctrl_def)

lemma ucast_back: "ucast (ucast c :: u32) = (c :: u8)"
  by (rule bit_word_eqI) (auto simp: bit_simps)

lemma ucast_char_eq:
  fixes x y :: u8
  shows "(ucast x = (ucast y :: u32)) = (x = y)"
proof
  assume "ucast x = (ucast y :: u32)"
  then have "ucast (ucast x :: u32) = (ucast (ucast y :: u32) :: u8)" by simp
  then show "x = y" by (simp only: ucast_back)
qed simp

lemma char_codes:
  fixes c :: u8
  shows "(ucast c = (0 :: u32)) = (c = 0)" "(ucast c = (0x10 :: u32)) = (c = 0x10)"
    "(ucast c = (0x15 :: u32)) = (c = 0x15)" "(ucast c = (8 :: u32)) = (c = 8)"
    "(ucast c = (0x7f :: u32)) = (c = 0x7f)" "(ucast c = (13 :: u32)) = (c = 13)"
    "(ucast c = (10 :: u32)) = (c = 10)" "(ucast c = (4 :: u32)) = (c = 4)"
  using ucast_char_eq [of c 0] ucast_char_eq [of c 16] ucast_char_eq [of c 21] ucast_char_eq [of c 8]
    ucast_char_eq [of c 127] ucast_char_eq [of c 13] ucast_char_eq [of c 10] ucast_char_eq [of c 4] by simp_all

text \<open>The default branch of the switch, with room for the character.\<close>

lemma consoleintr_store:
  fixes s :: "'a console_st_scheme" and c :: u8
  assumes ok: "cons_ok (cons s)" and live: "uart_live s"
    and c: "c \<notin> {0x10, 0x15, 8, 0x7f, 0}" and lt: "unat (c_e (cons s) - c_r (cons s)) < INPUT_BUF_SIZE"
  shows "\<exists>t. consoleintr (ucast c) s = Ok () t \<and> cons_ok (cons t) \<and>
     (cons_input (cons t), cons_line (cons t)) = line_input c (cons_input (cons s), cons_line (cons s))"
proof -
  define c' :: u8 where "c' = (if c = 13 then 10 else c)"
  define k where "k = (cons s)\<lparr>c_buf := (c_buf (cons s))[unat (c_e (cons s)) mod INPUT_BUF_SIZE := c'], c_e := c_e (cons s) + 1\<rparr>"
  have c32: "(if ucast c = (13 :: u32) then 10 else ucast c) = (ucast c' :: u32)"
    by (simp add: char_codes c'_def)
  note c8 = ucast_back [of c']
  have lt32: "c_e (cons s) - c_r (cons s) < of_nat INPUT_BUF_SIZE"
    using lt by (simp add: word_less_nat_alt INPUT_BUF_SIZE_def)
  note a = cons_append [OF ok lt, of c', folded k_def]
  have full: "(c_e k - c_r k = of_nat INPUT_BUF_SIZE) = (length (cons_input (cons s)) + length (cons_line (cons s)) + 1 = INPUT_BUF_SIZE)"
    using a(3) cons_lengths(1) [OF ok] by (simp add: word_unat_eq_iff INPUT_BUF_SIZE_def)
  obtain u where u: "consputc (ucast c') s = Ok () u" "tty_frame s u"
    using printsD(2) [OF prints_consputc live] by blast
  let ?t = "if c' = 10 \<or> c' = 4 \<or> c_e k - c_r k = of_nat INPUT_BUF_SIZE
      then wakeup ConsChan (u\<lparr>cons := k\<lparr>c_w := c_e k\<rparr>\<rparr>) else u\<lparr>cons := k\<rparr>"
  have "consoleintr (ucast c) s = Ok () ?t"
    using c lt32 u(1) cons_frame [OF u(2)] unfolding consoleintr_def ctrl_codes c32 Let_def
    by (auto simp: char_codes c8 k_def)
  moreover have "cons_ok (cons ?t) \<and> (cons_input (cons ?t), cons_line (cons ?t)) =
      line_input c (cons_input (cons s), cons_line (cons s))"
    using a full c lt cons_lengths(1) [OF ok]
    by (auto simp: line_input_def Let_def wakeup_def c'_def [symmetric])
  ultimately show ?thesis by blast
qed

text \<open>
  C27: The console implements its line discipline: for every input character, \<open>consoleintr\<close> returns
  (as long as the transmitter keeps becoming idle) and takes the completed input and the edited line
  to what the specification says, for erase, kill, carriage return, end of file and a full buffer
  alike, and keeps the indices and the buffer well formed across their wrap-around.
\<close>

theorem consoleintr_refines:
  fixes s :: "'a console_st_scheme"
  assumes "cons_ok (cons s)" and "uart_live s"
  shows "\<exists>t. consoleintr (ucast (c :: u8)) s = Ok () t \<and> cons_ok (cons t) \<and>
     (cons_input (cons t), cons_line (cons t)) = line_input c (cons_input (cons s), cons_line (cons s))"
proof -
  let ?k = "cons s"
  note lens = cons_lengths(1) [OF assms(1)]
  consider "c = 0x10" | "c = 0x15" | "c = 8 \<or> c = 0x7f"
    | "c \<notin> {0x10, 0x15, 8, 0x7f}" "c = 0 \<or> \<not> unat (c_e ?k - c_r ?k) < INPUT_BUF_SIZE"
    | "c \<notin> {0x10, 0x15, 8, 0x7f, 0}" "unat (c_e ?k - c_r ?k) < INPUT_BUF_SIZE" by blast
  then show ?thesis
  proof cases
    case 1
    then show ?thesis using printsD(2) [OF prints_procdump assms(2)] assms(1) cons_frame
      by (fastforce simp: consoleintr_def ctrl_codes line_input_def)
  next
    case 2
    then show ?thesis using kill_line_law [OF assms] by (auto simp: consoleintr_def ctrl_codes line_input_def)
  next
    case 3
    show ?thesis
    proof (cases "c_e ?k = c_w ?k")
      case True
      then show ?thesis using 3 assms by (auto simp: consoleintr_def ctrl_codes line_input_def cons_line_def)
    next
      case False
      let ?s = "s\<lparr>cons := ?k\<lparr>c_e := c_e ?k - 1\<rparr>\<rparr>"
      have "uart_live ?s" using assms(2) by (simp add: uart_live_def)
      then obtain u where u: "consputc BACKSPACE ?s = Ok () u" "tty_frame ?s u"
        using printsD(2) [OF prints_consputc] by blast
      have "consoleintr (ucast c) s = Ok () u"
        using 3 False u(1) by (auto simp: consoleintr_def ctrl_codes char_codes)
      then show ?thesis using 3 cons_backspace [OF assms(1) False] cons_frame [OF u(2)]
        by (auto simp: line_input_def)
    qed
  next
    case 4
    then have "consoleintr (ucast c) s = Ok () s"
      by (auto simp: consoleintr_def ctrl_codes char_codes word_less_nat_alt INPUT_BUF_SIZE_def)
    moreover have "\<not> (c \<noteq> 0 \<and> length (cons_input ?k) + length (cons_line ?k) < INPUT_BUF_SIZE)"
      using 4(2) lens by simp
    then have "line_input c (cons_input ?k, cons_line ?k) = (cons_input ?k, cons_line ?k)"
      using 4(1) unfolding line_input_def Let_def by simp
    ultimately show ?thesis using assms(1) by simp
  next
    case 5
    then show ?thesis using consoleintr_store [OF assms] by blast
  qed
qed

definition cons0 :: cons_t where
  "cons0 = \<lparr>c_buf = replicate 128 97, c_r = 0xfffffffe, c_w = 0, c_e = 1\<rparr>"

definition console_machine :: "cons_t \<Rightarrow> console_st" where
  "console_machine c =
     uart_st.extend (uart_machine (fs_machine (\<lambda>_. []) (superblock_of []) []) uart0) (console_st.fields c (replicate NDEV NoDevice))"

lemma console_machine_facts:
  "cons (console_machine c) = c" "uart_live (console_machine c)"
  by (auto simp: console_machine_def uart_machine_def uart_st.defs console_st.defs fs_st.defs uart_live_def uart0_def)

lemma cons0_facts:
  "cons_ok cons0" "cons_input cons0 = [97, 97]" "cons_line cons0 = [97]"
  by (simp_all add: cons0_def cons_ok_def cons_input_def cons_line_def ring_def INPUT_BUF_SIZE_def upt_rec)

theorem consoleintr_refines_witness:
  "\<exists>t. consoleintr (ucast (13 :: u8)) (console_machine cons0) = Ok () t \<and> cons_ok (cons t) \<and>
     cons_input (cons t) = [97, 97, 97, 10] \<and> cons_line (cons t) = []"
  using consoleintr_refines [of "console_machine cons0" 13]
  by (simp add: console_machine_facts cons0_facts line_input_def INPUT_BUF_SIZE_def)

lemma cons_take:
  assumes ok: "cons_ok c" and inp: "cons_input c = x # xs"
  shows "c_r c \<noteq> c_w c" "cons_char c (c_r c) = x" "cons_ok (c\<lparr>c_r := c_r c + 1\<rparr>)"
    "cons_input (c\<lparr>c_r := c_r c + 1\<rparr>) = xs" "cons_line (c\<lparr>c_r := c_r c + 1\<rparr>) = cons_line c"
proof -
  show ne: "c_r c \<noteq> c_w c" using inp by (auto simp: cons_input_def)
  have nr: "c_r c \<noteq> c_e c" using cons_lengths(2) [OF ok] inp by auto
  show "cons_char c (c_r c) = x" "cons_input (c\<lparr>c_r := c_r c + 1\<rparr>) = xs"
    using inp consq.ring_get [OF ne, of "c_buf c"] by (simp_all add: cons_input_def cons_char_def)
  show l: "cons_line (c\<lparr>c_r := c_r c + 1\<rparr>) = cons_line c" by (simp add: cons_line_def)
  show "cons_ok (c\<lparr>c_r := c_r c + 1\<rparr>)"
    using ok l unat_diff_pred [OF ne] unat_diff_pred [OF nr] by (simp add: cons_ok_def)
qed

lemma consoleread_loop_line:
  fixes s :: "'a console_st_scheme"
  assumes "cons_ok (cons s)" and "cons_input (cons s) = l @ 10 # rest" and "10 \<notin> set l" "4 \<notin> set l"
    and "int (length l) < n" "length l < 2 ^ 63"
  shows "\<exists>t. consoleread_loop False target dst n s = Ok (Return (target - n + int (length l) + 1)) t \<and>
     mem t = mwrite (mem s) dst (l @ [10]) \<and> cons_ok (cons t) \<and> cons_input (cons t) = rest \<and>
     cons_line (cons t) = cons_line (cons s)"
  using assms
proof (induction l arbitrary: s dst n)
  case Nil
  note k = cons_take [OF Nil(1), of 10 rest]
  show ?case using Nil k
    by (subst consoleread_loop.simps) (simp add: ctrl_codes either_copyout_def Let_def)
next
  case (Cons x l)
  note k = cons_take [OF Cons(2), of x "l @ 10 # rest"]
  let ?s = "s\<lparr>cons := (cons s)\<lparr>c_r := c_r (cons s) + 1\<rparr>, mem := (mem s)(dst := x)\<rparr>"
  have x: "x \<noteq> 10" "ucast x \<noteq> Ctrl 0x44" using Cons.prems by (auto simp: ctrl_codes char_codes)
  have "consoleread_loop False target dst n s = consoleread_loop False target (dst + 1) (n - 1) ?s"
    using k Cons.prems x
    by (subst consoleread_loop.simps) (simp add: either_copyout_def Let_def mwrite_single)
  moreover have "mwrite ((mem s)(dst := x)) (dst + 1) (l @ [10]) = mwrite (mem s) dst (x # l @ [10])"
    using Cons.prems by (intro mwrite_Cons) simp
  ultimately show ?case
    using Cons.IH [of ?s "n - 1" "dst + 1"] k Cons.prems by (simp add: algebra_simps fun_upd_def)
qed

text \<open>
  A \<open>read\<close> of the console into kernel memory returns one line: when the completed input starts
  with a line (no end of file in it) that fits, \<open>consoleread\<close> copies exactly that line with its
  newline to \<open>dst\<close>, returns its length, takes it out of the input and leaves the rest and the line
  under edit alone.
\<close>

lemma consoleread_one_line:
  fixes s :: "'a console_st_scheme"
  assumes "cons_ok (cons s)" and "cons_input (cons s) = l @ 10 # rest" and "10 \<notin> set l" "4 \<notin> set l"
    and "int (length l) < n"
  shows "\<exists>t. consoleread False dst n s = Ok (int (length l) + 1) t \<and>
     mbytes (mem t) dst (length l + 1) = l @ [10] \<and> cons_ok (cons t) \<and> cons_input (cons t) = rest \<and>
     cons_line (cons t) = cons_line (cons s)"
proof -
  have "length (cons_input (cons s)) \<le> INPUT_BUF_SIZE"
    using assms(1) cons_lengths(1) [OF assms(1)] by (simp add: cons_ok_def)
  then have "length l < 2 ^ 63" using assms(2) by (simp add: INPUT_BUF_SIZE_def)
  then show ?thesis
    using consoleread_loop_line [OF assms, of n dst] mbytes_mwrite_same [of "l @ [10]" "mem s" dst]
    by (auto simp: consoleread_def finish_def)
qed

definition cons1 :: cons_t where
  "cons1 = \<lparr>c_buf = (replicate 128 97)[0 := 10], c_r = 0xfffffffe, c_w = 1, c_e = 2\<rparr>"

end
