(* ===== verification/Pipe.thy ===== *)
theory Pipe
  imports Console
begin

text \<open>
  Pipes, \<open>kernel/pipe.c\<close>. A \<open>struct pipe\<close> is named by the address of its page; the contents of these
  structures are a store of their own, separate from the bytes of memory, which is right as long as
  the allocator gives the page to nobody else. The code of one call between two sleeps runs under
  \<open>pi->lock\<close> and is one step.
\<close>

section \<open>State and operations\<close>

definition PIPESIZE :: nat where "PIPESIZE = 512"

record pipe =
  pi_data :: "u8 list"
  pi_nread :: u32
  pi_nwrite :: u32
  pi_readopen :: bool
  pi_writeopen :: bool

record pipe_st = console_st +
  pipes :: "u64 \<Rightarrow> pipe"

definition upd_pipe :: "u64 \<Rightarrow> (pipe \<Rightarrow> pipe) \<Rightarrow> 'a pipe_st_scheme \<Rightarrow> 'a pipe_st_scheme" where
  "upd_pipe p f s = s\<lparr>pipes := (pipes s)(p := f (pipes s p))\<rparr>"

definition pipeclose :: "u64 \<Rightarrow> bool \<Rightarrow> 'a pipe_st_scheme \<Rightarrow> (unit, 'a pipe_st_scheme) res" where
  "pipeclose p writable s =
     (let s = (if writable then wakeup (PipeReadChan p) (upd_pipe p (\<lambda>q. q\<lparr>pi_writeopen := False\<rparr>) s)
               else wakeup (PipeWriteChan p) (upd_pipe p (\<lambda>q. q\<lparr>pi_readopen := False\<rparr>) s))
      in if \<not> pi_readopen (pipes s p) \<and> \<not> pi_writeopen (pipes s p) then kfree p s else Ok () s)"

text \<open>\<open>pipewrite\<close> from byte \<open>i\<close>; a writer that finds the pipe full wakes the readers and sleeps.\<close>

function pipewrite_loop ::
    "u64 \<Rightarrow> u64 \<Rightarrow> int \<Rightarrow> int \<Rightarrow> 'a pipe_st_scheme \<Rightarrow> ((int, int) outcome, 'a pipe_st_scheme) res" where
  "pipewrite_loop p addr n i s =
     (if i < n then
        if \<not> pi_readopen (pipes s p) \<or> killed (me s) s then Ok (Return (-1)) s
        else if pi_nwrite (pipes s p) = pi_nread (pipes s p) + of_nat PIPESIZE then
          suspend i (sleep (PipeWriteChan p) (wakeup (PipeReadChan p) s))
        else bind (copyin (p_pagetable (mine s)) (addr + of_int i) 1 s) (\<lambda>(r, bs) s.
          if r = -1 then Ok (Return i) (wakeup (PipeReadChan p) s)
          else pipewrite_loop p addr n (i + 1)
                 (upd_pipe p (\<lambda>q. q\<lparr>pi_data := (pi_data q)[unat (pi_nwrite q) mod PIPESIZE := hd bs],
                    pi_nwrite := pi_nwrite q + 1\<rparr>) s))
      else Ok (Return i) (wakeup (PipeReadChan p) s))"
  by pat_completeness auto
termination
  by (relation "measure (\<lambda>(p, addr, n, i, s). nat (n - i))") auto

declare pipewrite_loop.simps [simp del]

definition pipewrite :: "u64 \<Rightarrow> u64 \<Rightarrow> int \<Rightarrow> 'a pipe_st_scheme \<Rightarrow> (int, 'a pipe_st_scheme) res" where
  "pipewrite p addr n s = finish (PipeWriteChan p) (pipewrite_loop p addr n 0 s)"

function piperead_loop ::
    "u64 \<Rightarrow> u64 \<Rightarrow> int \<Rightarrow> int \<Rightarrow> 'a pipe_st_scheme \<Rightarrow> (int, 'a pipe_st_scheme) res" where
  "piperead_loop p addr n i s =
     (if i < n then
        if pi_nread (pipes s p) = pi_nwrite (pipes s p) then Ok i s
        else
          let ch = pi_data (pipes s p) ! (unat (pi_nread (pipes s p)) mod PIPESIZE);
              s = upd_pipe p (\<lambda>q. q\<lparr>pi_nread := pi_nread q + 1\<rparr>) s
          in bind (copyout (p_pagetable (mine s)) (addr + of_int i) [ch] s) (\<lambda>r s.
               if r = -1 then Ok i s else piperead_loop p addr n (i + 1) s)
      else Ok i s)"
  by pat_completeness auto
termination
  by (relation "measure (\<lambda>(p, addr, n, i, s). nat (n - i))") auto

declare piperead_loop.simps [simp del]

text \<open>A reader that finds the pipe empty and open for writing sleeps, and looks again when it wakes.\<close>

definition piperead :: "u64 \<Rightarrow> u64 \<Rightarrow> int \<Rightarrow> 'a pipe_st_scheme \<Rightarrow> (int, 'a pipe_st_scheme) res" where
  "piperead p addr n s =
     (if pi_nread (pipes s p) = pi_nwrite (pipes s p) \<and> pi_writeopen (pipes s p) then
        if killed (me s) s then Ok (-1) s else sleep (PipeReadChan p) s
      else bind (piperead_loop p addr n 0 s) (\<lambda>i s. Ok i (wakeup (PipeWriteChan p) s)))"

section \<open>A pipe is a bounded queue\<close>

definition pipe_ok :: "pipe \<Rightarrow> bool" where
  "pipe_ok q \<longleftrightarrow> length (pi_data q) = PIPESIZE \<and> unat (pi_nwrite q - pi_nread q) \<le> PIPESIZE"

definition pipe_bytes :: "pipe \<Rightarrow> u8 list" where
  "pipe_bytes q = ring PIPESIZE (pi_nread q) (pi_nwrite q) (pi_data q)"

interpretation pipeq: ring_buffer PIPESIZE "TYPE(32)"
  by unfold_locales (simp_all add: PIPESIZE_def)

text \<open>The byte at a user address, if the page is mapped for the user.\<close>

definition user_byte :: "memory \<Rightarrow> u64 \<Rightarrow> u64 \<Rightarrow> u8 option" where
  "user_byte m pt a =
     (let pa = uaddr m pt (PGROUNDDOWN a) in
      if pa = 0 then None else Some (m (pa + (a - PGROUNDDOWN a))))"

lemma page_rest_one: "page_rest a (Suc 0) = Suc 0"
  using page_rest_pos [of 1 a] page_rest_le [of a 1] by simp

lemma copyin_byte:
  "copyin pt a (Suc 0) s = Ok (case user_byte (mem s) pt a of None \<Rightarrow> (-1, []) | Some b \<Rightarrow> (0, [b])) s"
  by (simp add: copyin_def copyin_loop.simps [of pt _ _ "Suc 0"] copyin_loop.simps [of pt _ _ 0]
      walkaddr_eq user_byte_def Let_def page_rest_one mbytes_def)

lemma upd_pipe_simps [simp]:
  "mem (upd_pipe p f s) = mem s" "procs (upd_pipe p f s) = procs s" "this_cpu (upd_pipe p f s) = this_cpu s"
  "mine (upd_pipe p f s) = mine s" "me (upd_pipe p f s) = me s" "killed j (upd_pipe p f s) = killed j s"
  "pipes (upd_pipe p f s) p = f (pipes s p)"
  by (simp_all add: upd_pipe_def mine_def me_def myproc_def killed_def)

lemma pipes_wakeup [simp]: "pipes (wakeup ch s) = pipes s"
  by (simp add: wakeup_def)

lemma pipe_put:
  fixes b :: u8
  assumes "pipe_ok q" and "pi_nwrite q \<noteq> pi_nread q + of_nat PIPESIZE"
  defines "q' \<equiv> q\<lparr>pi_data := (pi_data q)[unat (pi_nwrite q) mod PIPESIZE := b], pi_nwrite := pi_nwrite q + 1\<rparr>"
  shows "pipe_ok q'" "pipe_bytes q' = pipe_bytes q @ [b]"
proof -
  have lt: "unat (pi_nwrite q - pi_nread q) < PIPESIZE"
    using pipeq.not_full assms(1,2) by (simp add: pipe_ok_def)
  show "pipe_ok q'" "pipe_bytes q' = pipe_bytes q @ [b]"
    using pipeq.put_bound [OF lt] pipeq.ring_put [OF lt, of "pi_data q" b] assms(1)
    by (simp_all add: pipe_ok_def pipe_bytes_def q'_def)
qed

lemma pipe_get:
  assumes "pipe_ok q" and "pi_nread q \<noteq> pi_nwrite q"
  defines "q' \<equiv> q\<lparr>pi_nread := pi_nread q + 1\<rparr>"
  shows "pipe_ok q'" "pipe_bytes q = pi_data q ! (unat (pi_nread q) mod PIPESIZE) # pipe_bytes q'"
  using assms(1) unat_diff_pred [OF assms(2)] pipeq.ring_get [OF assms(2), of "pi_data q"]
  by (simp_all add: pipe_ok_def pipe_bytes_def q'_def)

definition user_bytes :: "memory \<Rightarrow> u64 \<Rightarrow> u64 \<Rightarrow> u8 list \<Rightarrow> bool" where
  "user_bytes m pt a bs \<longleftrightarrow> (\<forall>k<length bs. user_byte m pt (a + of_nat k) = Some (bs ! k))"

lemma user_bytes_Nil [simp]: "user_bytes m pt a []"
  by (simp add: user_bytes_def)

lemma user_bytes_Cons [simp]:
  "user_bytes m pt a (b # bs) \<longleftrightarrow> user_byte m pt a = Some b \<and> user_bytes m pt (a + 1) bs"
  by (auto simp: user_bytes_def nth_Cons algebra_simps less_Suc_eq_0_disj split: nat.splits)

text \<open>What a run of \<open>pipewrite\<close> from byte \<open>i\<close> to its return or its next sleep has done.\<close>

definition pipe_wrote ::
    "u64 \<Rightarrow> u64 \<Rightarrow> int \<Rightarrow> int \<Rightarrow> 'a pipe_st_scheme \<Rightarrow> (int, int) outcome \<Rightarrow> 'a pipe_st_scheme \<Rightarrow> u8 list \<Rightarrow> bool" where
  "pipe_wrote p addr n i s r t bs \<longleftrightarrow>
     pipe_ok (pipes t p) \<and> mem t = mem s \<and> pipe_bytes (pipes t p) = pipe_bytes (pipes s p) @ bs \<and>
     user_bytes (mem s) (p_pagetable (mine s)) (addr + of_int i) bs \<and>
     (case r of
        Return v \<Rightarrow>
          v = -1 \<and> bs = [] \<and> (\<not> pi_readopen (pipes s p) \<or> killed (me s) s) \<or>
          v = i + int (length bs) \<and> (n \<le> v \<or> user_byte (mem s) (p_pagetable (mine s)) (addr + of_int v) = None)
      | Resume j \<Rightarrow> j = i + int (length bs) \<and> j < n \<and> length (pipe_bytes (pipes t p)) = PIPESIZE)"

lemma pipe_wrote_Cons:
  assumes "pipe_wrote p addr n (i + 1) (upd_pipe p f s) r t bs"
    and "user_byte (mem s) (p_pagetable (mine s)) (addr + of_int i) = Some b"
    and "pipe_bytes (f (pipes s p)) = pipe_bytes (pipes s p) @ [b]"
    and "pi_readopen (f (pipes s p)) = pi_readopen (pipes s p)" "pi_readopen (pipes s p)" "\<not> killed (me s) s"
  shows "pipe_wrote p addr n i s r t (b # bs)"
  using assms unfolding pipe_wrote_def by (cases r) (auto simp: add.assoc)

lemma pipewrite_loop_law:
  fixes s :: "'a pipe_st_scheme"
  assumes "pipe_ok (pipes s p)"
  shows "\<exists>r t bs. pipewrite_loop p addr n i s = Ok r t \<and> pipe_wrote p addr n i s r t bs"
  using assms
proof (induction p addr n i s rule: pipewrite_loop.induct)
  case (1 p addr n i s)
  let ?q = "pipes s p" and ?pt = "p_pagetable (mine s)"
  consider "\<not> i < n \<or> user_byte (mem s) ?pt (addr + of_int i) = None \<and> i < n \<and> pi_readopen ?q \<and> \<not> killed (me s) s
       \<and> pi_nwrite ?q \<noteq> pi_nread ?q + of_nat PIPESIZE"
    | "i < n" "\<not> pi_readopen ?q \<or> killed (me s) s"
    | "i < n" "pi_readopen ?q" "\<not> killed (me s) s" "pi_nwrite ?q = pi_nread ?q + of_nat PIPESIZE"
    | b where "i < n" "pi_readopen ?q" "\<not> killed (me s) s" "pi_nwrite ?q \<noteq> pi_nread ?q + of_nat PIPESIZE"
        "user_byte (mem s) ?pt (addr + of_int i) = Some b" by fastforce
  then show ?case
  proof cases
    case 1
    then show ?thesis using \<open>pipe_ok ?q\<close>
      by (subst pipewrite_loop.simps) (auto simp: pipe_wrote_def copyin_byte wakeup_def intro!: exI [of _ "[]"])
  next
    case 2
    then show ?thesis using \<open>pipe_ok ?q\<close> by (subst pipewrite_loop.simps) (auto simp: pipe_wrote_def)
  next
    case 3
    then show ?thesis using \<open>pipe_ok ?q\<close>
      by (subst pipewrite_loop.simps)
        (auto simp: pipe_wrote_def sleep_def upd_proc_def wakeup_def pipe_bytes_def PIPESIZE_def intro!: exI [of _ "[]"])
  next
    case (4 b)
    let ?f = "\<lambda>q. q\<lparr>pi_data := (pi_data q)[unat (pi_nwrite q) mod PIPESIZE := b], pi_nwrite := pi_nwrite q + 1\<rparr>"
    have cp: "copyin ?pt (addr + of_int i) 1 s = Ok (0, [b]) s" using 4(5) by (simp add: copyin_byte)
    have step: "pipewrite_loop p addr n i s = pipewrite_loop p addr n (i + 1) (upd_pipe p ?f s)"
      using 4 cp by (subst pipewrite_loop.simps) simp
    note q = pipe_put [OF \<open>pipe_ok ?q\<close> 4(4), of b]
    have ok: "pipe_ok (pipes (upd_pipe p (\<lambda>q. q\<lparr>pi_data := (pi_data q)[unat (pi_nwrite q) mod PIPESIZE := hd [b]],
        pi_nwrite := pi_nwrite q + 1\<rparr>) s) p)" using q(1) by simp
    obtain r t bs where r: "pipewrite_loop p addr n (i + 1) (upd_pipe p ?f s) = Ok r t"
        "pipe_wrote p addr n (i + 1) (upd_pipe p ?f s) r t bs"
      using 1(1) [OF 4(1) _ 4(4) cp refl _ ok] 4(2,3) by auto
    have "pipe_wrote p addr n i s r t (b # bs)"
      using pipe_wrote_Cons [OF r(2) 4(5) q(2)] 4(2,3) by simp
    then show ?thesis using r(1) step by auto
  qed
qed

text \<open>The effect on memory of \<open>copyout\<close> of single bytes, one after the other.\<close>

fun put_user :: "memory \<Rightarrow> u64 \<Rightarrow> u64 \<Rightarrow> u8 list \<Rightarrow> memory" where
  "put_user m pt a [] = m"
| "put_user m pt a (b # bs) =
     put_user (m(uaddr m pt (PGROUNDDOWN a) + (a - PGROUNDDOWN a) := b)) pt (a + 1) bs"

lemma copyout_byte:
  "copyout pt a [b] s =
     (if uaddr (mem s) pt (PGROUNDDOWN a) = 0 then Ok (-1) s
      else Ok 0 (s\<lparr>mem := (mem s)(uaddr (mem s) pt (PGROUNDDOWN a) + (a - PGROUNDDOWN a) := b)\<rparr>))"
  by (simp add: copyout.simps [of pt _ "[b]"] copyout.simps [of pt _ "[]"] walkaddr_eq Let_def page_rest_one mwrite_single)

definition pipe_read_out ::
    "u64 \<Rightarrow> u64 \<Rightarrow> int \<Rightarrow> int \<Rightarrow> 'a pipe_st_scheme \<Rightarrow> int \<Rightarrow> 'a pipe_st_scheme \<Rightarrow> u8 list \<Rightarrow> bool" where
  "pipe_read_out p addr n i s v t bs \<longleftrightarrow>
     pipe_ok (pipes t p) \<and> v = i + int (length bs) \<and> mem t = put_user (mem s) (p_pagetable (mine s)) (addr + of_int i) bs \<and>
     (pipe_bytes (pipes s p) = bs @ pipe_bytes (pipes t p) \<and> (n \<le> v \<or> pipe_bytes (pipes t p) = []) \<or>
      (\<exists>b. pipe_bytes (pipes s p) = bs @ b # pipe_bytes (pipes t p)) \<and>
        uaddr (mem t) (p_pagetable (mine s)) (PGROUNDDOWN (addr + of_int v)) = 0)"

lemma piperead_loop_law:
  fixes s :: "'a pipe_st_scheme"
  assumes "pipe_ok (pipes s p)"
  shows "\<exists>v t bs. piperead_loop p addr n i s = Ok v t \<and> pipe_read_out p addr n i s v t bs"
  using assms
proof (induction p addr n i s rule: piperead_loop.induct)
  case (1 p addr n i s)
  let ?q = "pipes s p" and ?pt = "p_pagetable (mine s)" and ?a = "addr + of_int i"
  show ?case
  proof (cases "i < n \<and> pi_nread ?q \<noteq> pi_nwrite ?q")
    case False
    then show ?thesis using 1(2)
      by (subst piperead_loop.simps) (auto simp: pipe_read_out_def pipe_bytes_def intro!: exI [of _ "[]"])
  next
    case True
    define b where "b = pi_data ?q ! (unat (pi_nread ?q) mod PIPESIZE)"
    let ?s = "upd_pipe p (\<lambda>q. q\<lparr>pi_nread := pi_nread q + 1\<rparr>) s"
    note q = pipe_get [OF 1(2)] 
    show ?thesis
    proof (cases "uaddr (mem s) ?pt (PGROUNDDOWN ?a) = 0")
      case bad: True
      then show ?thesis using True q
        by (subst piperead_loop.simps) (auto simp: copyout_byte pipe_read_out_def intro!: exI [of _ "[]"])
    next
      case False
      let ?t = "?s\<lparr>mem := (mem s)(uaddr (mem s) ?pt (PGROUNDDOWN ?a) + (?a - PGROUNDDOWN ?a) := b)\<rparr>"
      have cp: "copyout (p_pagetable (mine ?s)) ?a [b] ?s = Ok 0 ?t" using False by (simp add: copyout_byte)
      have t: "mine ?t = mine s" by (simp add: mine_def me_def myproc_def upd_pipe_def)
      have step: "piperead_loop p addr n i s = piperead_loop p addr n (i + 1) ?t"
        using True cp by (subst piperead_loop.simps) (simp add: b_def [symmetric])
      obtain v u bs where "piperead_loop p addr n (i + 1) ?t = Ok v u" "pipe_read_out p addr n (i + 1) ?t v u bs"
        using 1(1) [OF _ _ refl refl cp [unfolded b_def]] True q(1) by (auto simp: b_def)
      moreover from this(2) have "pipe_read_out p addr n i s v u (b # bs)"
        using q(2) True unfolding pipe_read_out_def t by (auto simp: b_def algebra_simps)
      ultimately show ?thesis unfolding step by blast
    qed
  qed
qed

text \<open>
  C28: \<open>pipewrite\<close> appends to the queue, in order, exactly the bytes of the caller's buffer that it
  counts, for every address, length and position of the wrapping indices: it returns all \<open>n\<close>, or
  stops before an unmapped byte, or goes to sleep on a full pipe with its place in the buffer; it
  fails with \<open>-1\<close> only when no reader is left or the caller was killed, and then writes nothing.
\<close>

theorem pipewrite_appends:
  assumes "pipe_ok (pipes s p)"
  shows "\<exists>r t bs. pipewrite_loop p addr n i s = Ok r t \<and> pipe_ok (pipes t p) \<and>
     pipe_bytes (pipes t p) = pipe_bytes (pipes s p) @ bs \<and>
     user_bytes (mem s) (p_pagetable (mine s)) (addr + of_int i) bs \<and>
     (case r of
        Return v \<Rightarrow>
          v = -1 \<and> bs = [] \<and> (\<not> pi_readopen (pipes s p) \<or> killed (me s) s) \<or>
          v = i + int (length bs) \<and> (n \<le> v \<or> user_byte (mem s) (p_pagetable (mine s)) (addr + of_int v) = None)
      | Resume j \<Rightarrow> j = i + int (length bs) \<and> j < n \<and> length (pipe_bytes (pipes t p)) = PIPESIZE)"
  using pipewrite_loop_law [OF assms] unfolding pipe_wrote_def by blast

text \<open>
  C29: \<open>piperead\<close> takes bytes off the front of the queue in order and stores them at consecutive user
  addresses, until it has \<open>n\<close>, the pipe is empty, or a byte cannot be stored. In the last case that
  byte is lost: it has left the queue and is not counted.
\<close>

theorem piperead_takes_front:
  assumes "pipe_ok (pipes s p)"
  shows "\<exists>v t bs. piperead_loop p addr n 0 s = Ok v t \<and> pipe_ok (pipes t p) \<and> v = int (length bs) \<and>
     mem t = put_user (mem s) (p_pagetable (mine s)) addr bs \<and>
     (pipe_bytes (pipes s p) = bs @ pipe_bytes (pipes t p) \<and> (n \<le> v \<or> pipe_bytes (pipes t p) = []) \<or>
      (\<exists>b. pipe_bytes (pipes s p) = bs @ b # pipe_bytes (pipes t p)) \<and>
        uaddr (mem t) (p_pagetable (mine s)) (PGROUNDDOWN (addr + of_int v)) = 0)"
  using piperead_loop_law [OF assms, of addr n 0] unfolding pipe_read_out_def by auto

text \<open>A pipe whose counters are about to wrap, and a page table that maps nothing.\<close>

definition pipe0 :: pipe where
  "pipe0 = \<lparr>pi_data = replicate PIPESIZE 7, pi_nread = 0xffffffff, pi_nwrite = 1, pi_readopen = True,
     pi_writeopen = True\<rparr>"

definition pipe_machine :: "pipe \<Rightarrow> pipe_st" where
  "pipe_machine q = console_st.extend (console_machine cons0) (pipe_st.fields (\<lambda>_. q))"

lemma pipe_machine_pipes [simp]: "pipes (pipe_machine q) p = q"
  by (simp add: pipe_machine_def console_st.defs pipe_st.defs console_machine_def)

lemma pipe0_facts: "pipe_ok pipe0" "pipe_bytes pipe0 = [7, 7]"
  by (simp_all add: pipe0_def pipe_ok_def pipe_bytes_def ring_def PIPESIZE_def upt_rec nth_replicate)

theorem pipewrite_appends_witness:
  "\<exists>r t bs. pipewrite_loop 0x80030000 0 4 0 (pipe_machine pipe0) = Ok r t \<and> pipe_ok (pipes t 0x80030000) \<and>
     pipe_bytes (pipes t 0x80030000) = [7, 7] @ bs"
  using pipewrite_appends [of "pipe_machine pipe0" "0x80030000" 0 4 0] by (auto simp: pipe0_facts)

theorem piperead_takes_front_witness:
  "\<exists>v t (bs :: u8 list). piperead_loop 0x80030000 0 4 0 (pipe_machine pipe0) = Ok v t \<and> pipe_ok (pipes t 0x80030000) \<and>
     v = int (length bs) \<and> length bs \<le> 2"
proof -
  obtain v t bs where r: "piperead_loop 0x80030000 0 4 0 (pipe_machine pipe0) = Ok v t" "pipe_ok (pipes t 0x80030000)"
      "v = int (length bs)"
    and b: "pipe_bytes pipe0 = bs @ pipe_bytes (pipes t 0x80030000) \<or>
      (\<exists>b. pipe_bytes pipe0 = bs @ b # pipe_bytes (pipes t 0x80030000))"
    using piperead_takes_front [of "pipe_machine pipe0" "0x80030000" 0 4]
    unfolding pipe_machine_pipes by (auto simp: pipe0_facts(1))
  have "length bs \<le> length (pipe_bytes pipe0)" using b by (elim disjE exE) simp_all
  then have "length bs \<le> 2" by (simp add: pipe0_facts(2))
  then show ?thesis using r by blast
qed

end
