(* ===== verification/File.thy ===== *)
theory File
  imports Pipe
begin

text \<open>
  Open files, \<open>kernel/file.c\<close>, and \<open>pipealloc\<close> of \<open>kernel/pipe.c\<close>, which allocates files. A \<open>struct
  file\<close> pointer is an index into the table of open files.
\<close>

section \<open>State\<close>

datatype fdtype = FD_NONE | FD_PIPE | FD_INODE | FD_DEVICE

record struct_file =
  f_type :: fdtype
  f_ref :: int
  f_readable :: bool
  f_writable :: bool
  f_pipe :: u64
  f_ip :: "nat option"
  f_off :: u32
  f_major :: u16

record file_st = pipe_st +
  ftable :: "struct_file list"

definition NFILE :: nat where "NFILE = 100"

definition upd_file :: "nat \<Rightarrow> (struct_file \<Rightarrow> struct_file) \<Rightarrow> 'a file_st_scheme \<Rightarrow> 'a file_st_scheme" where
  "upd_file f g s = s\<lparr>ftable := (ftable s)[f := g (ftable s ! f)]\<rparr>"

section \<open>Allocation and reference counts\<close>

definition filealloc :: "'a file_st_scheme \<Rightarrow> nat option \<times> 'a file_st_scheme" where
  "filealloc s =
     (case find (\<lambda>f. f_ref (ftable s ! f) = 0) [0..<length (ftable s)] of
        None \<Rightarrow> (None, s)
      | Some f \<Rightarrow> (Some f, upd_file f (\<lambda>q. q\<lparr>f_ref := 1\<rparr>) s))"

definition filedup :: "nat \<Rightarrow> 'a file_st_scheme \<Rightarrow> (nat, 'a file_st_scheme) res" where
  "filedup f s =
     (if f_ref (ftable s ! f) < 1 then Panic ''filedup''
      else Ok f (upd_file f (\<lambda>q. q\<lparr>f_ref := f_ref q + 1\<rparr>) s))"

text \<open>\<open>iput\<close> of a pointer that a file or a process holds; the null pointer would be dereferenced.\<close>

definition iput_ptr :: "nat option \<Rightarrow> 'a fs_st_scheme \<Rightarrow> (unit, 'a fs_st_scheme) res" where
  "iput_ptr ipo s = (case ipo of None \<Rightarrow> Panic ''null pointer'' | Some ip \<Rightarrow> iput ip s)"

definition fileclose :: "nat \<Rightarrow> 'a file_st_scheme \<Rightarrow> (unit, 'a file_st_scheme) res" where
  "fileclose f s =
     (if f_ref (ftable s ! f) < 1 then Panic ''fileclose''
      else
        let s = upd_file f (\<lambda>q. q\<lparr>f_ref := f_ref q - 1\<rparr>) s in
        if f_ref (ftable s ! f) > 0 then Ok () s
        else
          let ff = ftable s ! f;
              s = upd_file f (\<lambda>q. q\<lparr>f_ref := 0, f_type := FD_NONE\<rparr>) s
          in if f_type ff = FD_PIPE then pipeclose (f_pipe ff) (f_writable ff) s
             else if f_type ff = FD_INODE \<or> f_type ff = FD_DEVICE then
               bind (begin_op s) (\<lambda>_ s. bind (iput_ptr (f_ip ff) s) (\<lambda>_ s. end_op s))
             else Ok () s)"

section \<open>Metadata, reading and writing\<close>

text \<open>The bytes of \<open>struct stat\<close> at its C offsets, with the padding before \<open>size\<close>.\<close>

definition stat_bytes :: "stat \<Rightarrow> u8 list" where
  "stat_bytes st =
     le_bytes 4 (st_dev st) @ le_bytes 4 (st_ino st) @ le_bytes 2 (st_type st) @ le_bytes 2 (st_nlink st) @
       replicate 4 0 @ le_bytes 8 (st_size st)"

definition filestat :: "nat \<Rightarrow> u64 \<Rightarrow> 'a file_st_scheme \<Rightarrow> (int, 'a file_st_scheme) res" where
  "filestat f addr s =
     (let q = ftable s ! f in
      if f_type q = FD_INODE \<or> f_type q = FD_DEVICE then
        bind (ilock (f_ip q) s) (\<lambda>_ s.
          let st = stati (itable s ! the (f_ip q)) in
          bind (iunlock (f_ip q) s) (\<lambda>_ s.
          bind (copyout (p_pagetable (mine s)) addr (stat_bytes st) s) (\<lambda>r s.
          Ok (if r < 0 then -1 else 0) s)))
      else Ok (-1) s)"

text \<open>The guard on a device file: no such device, or no function for it.\<close>

definition bad_device :: "u16 \<Rightarrow> 'a console_st_scheme \<Rightarrow> bool" where
  "bad_device mj s \<longleftrightarrow> sint mj < 0 \<or> sint mj \<ge> int NDEV \<or> devsw s ! unat mj = NoDevice"

definition fileread :: "nat \<Rightarrow> u64 \<Rightarrow> int \<Rightarrow> 'a file_st_scheme \<Rightarrow> (int, 'a file_st_scheme) res" where
  "fileread f addr n s =
     (let q = ftable s ! f in
      if \<not> f_readable q then Ok (-1) s
      else case f_type q of
          FD_PIPE \<Rightarrow> piperead (f_pipe q) addr n s
        | FD_DEVICE \<Rightarrow> if bad_device (f_major q) s then Ok (-1) s else consoleread True addr n s
        | FD_INODE \<Rightarrow>
            bind (ilock (f_ip q) s) (\<lambda>_ s.
            bind (readi (the (f_ip q)) (ToUser addr) (f_off (ftable s ! f)) (of_int n) s) (\<lambda>(r, _) s.
              let s = (if r > 0 then upd_file f (\<lambda>q. q\<lparr>f_off := f_off q + of_int r\<rparr>) s else s)
              in bind (iunlock (f_ip q) s) (\<lambda>_ s. Ok r s)))
        | FD_NONE \<Rightarrow> Panic ''fileread'')"

definition write_max :: int where
  "write_max = int ((MAXOPBLOCKS - 1 - 1 - 2) div 2 * BSIZE)"

text \<open>
  The loop of \<open>filewrite\<close> on an inode: one transaction for each chunk. The counter grows by the whole
  chunk, or the loop ends.
\<close>

function filewrite_loop :: "nat \<Rightarrow> u64 \<Rightarrow> int \<Rightarrow> int \<Rightarrow> 'a file_st_scheme \<Rightarrow> (int, 'a file_st_scheme) res" where
  "filewrite_loop f addr n i s =
     (if i < n then
        let n1 = min (n - i) write_max; ip = f_ip (ftable s ! f) in
        bind (begin_op s) (\<lambda>_ s.
        bind (ilock ip s) (\<lambda>_ s.
        bind (writei (the ip) (FromUser (addr + of_int i)) (f_off (ftable s ! f)) (of_int n1) s) (\<lambda>r s.
          let s = (if r > 0 then upd_file f (\<lambda>q. q\<lparr>f_off := f_off q + of_int r\<rparr>) s else s)
          in bind (iunlock ip s) (\<lambda>_ s.
             bind (end_op s) (\<lambda>_ s.
               if r \<noteq> n1 then Ok i s else filewrite_loop f addr n (i + n1) s)))))
      else Ok i s)"
  by pat_completeness auto
termination
  by (relation "measure (\<lambda>(f, addr, n, i, s). nat (n - i))") (auto simp: write_max_def MAXOPBLOCKS_def BSIZE_def)

declare filewrite_loop.simps [simp del]

definition filewrite :: "nat \<Rightarrow> u64 \<Rightarrow> int \<Rightarrow> 'a file_st_scheme \<Rightarrow> (int, 'a file_st_scheme) res" where
  "filewrite f addr n s =
     (let q = ftable s ! f in
      if \<not> f_writable q then Ok (-1) s
      else case f_type q of
          FD_PIPE \<Rightarrow> pipewrite (f_pipe q) addr n s
        | FD_DEVICE \<Rightarrow> if bad_device (f_major q) s then Ok (-1) s else consolewrite True addr n s
        | FD_INODE \<Rightarrow> bind (filewrite_loop f addr n 0 s) (\<lambda>i s. Ok (if i = n then n else -1) s)
        | FD_NONE \<Rightarrow> Panic ''filewrite'')"

section \<open>Making a pipe\<close>

definition close_opt :: "nat option \<Rightarrow> 'a file_st_scheme \<Rightarrow> (unit, 'a file_st_scheme) res" where
  "close_opt fo s = (case fo of None \<Rightarrow> Ok () s | Some f \<Rightarrow> fileclose f s)"

definition pipe_offset :: u64 where "pipe_offset = 24"

definition pipealloc :: "'a file_st_scheme \<Rightarrow> ((nat \<times> nat) option, 'a file_st_scheme) res" where
  "pipealloc s =
     (case filealloc s of
        (None, s) \<Rightarrow> Ok None s
      | (Some f0, s) \<Rightarrow>
          (case filealloc s of
             (None, s) \<Rightarrow> bind (close_opt (Some f0) s) (\<lambda>_ s. Ok None s)
           | (Some f1, s) \<Rightarrow>
               bind (kalloc s) (\<lambda>p s.
                 if p = 0 then
                   bind (close_opt (Some f0) s) (\<lambda>_ s. bind (close_opt (Some f1) s) (\<lambda>_ s. Ok None s))
                 else
                   let s = upd_pipe p (\<lambda>_. \<lparr>pi_data = mbytes (mem s) (p + pipe_offset) PIPESIZE, pi_nread = 0,
                         pi_nwrite = 0, pi_readopen = True, pi_writeopen = True\<rparr>) s;
                       s = upd_file f0 (\<lambda>q. q\<lparr>f_type := FD_PIPE, f_readable := True, f_writable := False, f_pipe := p\<rparr>) s;
                       s = upd_file f1 (\<lambda>q. q\<lparr>f_type := FD_PIPE, f_readable := False, f_writable := True, f_pipe := p\<rparr>) s
                   in Ok (Some (f0, f1)) s)))"

section \<open>The file table\<close>

text \<open>Reference counts are never negative and a free entry has no type.\<close>

definition ftable_ok :: "struct_file list \<Rightarrow> bool" where
  "ftable_ok fs \<longleftrightarrow> (\<forall>q\<in>set fs. 0 \<le> f_ref q \<and> (f_ref q = 0 \<longrightarrow> f_type q = FD_NONE))"

lemma ftable_okD: "ftable_ok fs \<Longrightarrow> f < length fs \<Longrightarrow> f_ref (fs ! f) = 0 \<Longrightarrow> f_type (fs ! f) = FD_NONE"
  by (auto simp: ftable_ok_def)

lemma ftable_ok_update: "ftable_ok fs \<Longrightarrow> 0 < f_ref q \<or> f_ref q = 0 \<and> f_type q = FD_NONE \<Longrightarrow> ftable_ok (fs[f := q])"
  by (auto simp: ftable_ok_def dest!: subsetD [OF set_update_subset_insert])

lemma find_upt_Some:
  assumes "find P [0..<n] = Some i"
  shows "i < n" "P i" "\<forall>j<i. \<not> P j"
  using assms by (auto simp: find_Some_iff)

lemma filealloc_Some:
  assumes "filealloc s = (Some f, t)"
  shows "f < length (ftable s)" "f_ref (ftable s ! f) = 0" "t = upd_file f (\<lambda>q. q\<lparr>f_ref := 1\<rparr>) s"
    "ftable t = (ftable s)[f := (ftable s ! f)\<lparr>f_ref := 1\<rparr>]"
  using assms by (auto simp: filealloc_def upd_file_def split: option.splits dest: find_upt_Some)

lemma filealloc_None: "filealloc s = (None, t) \<Longrightarrow> t = s \<and> (\<forall>q\<in>set (ftable s). f_ref q \<noteq> 0)"
  by (auto simp: filealloc_def find_None_iff in_set_conv_nth split: option.splits)

text \<open>Closing a file that was just allocated only gives it back.\<close>

lemma free_entry: "f_ref q = 0 \<Longrightarrow> f_type q = FD_NONE \<Longrightarrow> q\<lparr>f_ref := 0, f_type := FD_NONE\<rparr> = q"
  by (cases q) simp

lemma fileclose_fresh:
  assumes "f < length (ftable s)" "f_ref (ftable s ! f) = 1" "f_type (ftable s ! f) = FD_NONE"
  shows "fileclose f s = Ok () (s\<lparr>ftable := (ftable s)[f := (ftable s ! f)\<lparr>f_ref := 0, f_type := FD_NONE\<rparr>]\<rparr>)"
  using assms by (simp add: fileclose_def upd_file_def Let_def)

lemma close_undoes_alloc:
  assumes "ftable_ok fs" "f < length fs" "f_ref (fs ! f) = 0"
    and "f < length (ftable s)" "ftable s ! f = (fs ! f)\<lparr>f_ref := 1\<rparr>"
  shows "close_opt (Some f) s = Ok () (s\<lparr>ftable := (ftable s)[f := fs ! f]\<rparr>)"
proof -
  note n = ftable_okD [OF assms(1-3)]
  show ?thesis using fileclose_fresh [OF assms(4)] assms(3,5) n free_entry [OF assms(3) n]
    by (simp add: close_opt_def)
qed

lemma kalloc_ftable: "kalloc s = Ok p t \<Longrightarrow> ftable t = ftable s"
  by (auto simp: kalloc_def Let_def split: if_splits)

lemma pipe_fresh:
  "length ds = PIPESIZE \<Longrightarrow> pipe_ok \<lparr>pi_data = ds, pi_nread = 0, pi_nwrite = 0, pi_readopen = ro, pi_writeopen = wo\<rparr> \<and>
     pipe_bytes \<lparr>pi_data = ds, pi_nread = 0, pi_nwrite = 0, pi_readopen = ro, pi_writeopen = wo\<rparr> = []"
  by (simp add: pipe_ok_def pipe_bytes_def)

definition pipe_ends :: "nat \<Rightarrow> nat \<Rightarrow> 'a file_st_scheme \<Rightarrow> 'a file_st_scheme \<Rightarrow> bool" where
  "pipe_ends f0 f1 s t \<longleftrightarrow>
     f0 \<noteq> f1 \<and> f_ref (ftable s ! f0) = 0 \<and> f_ref (ftable s ! f1) = 0 \<and>
     (\<exists>p. p \<noteq> 0 \<and> pipe_ok (pipes t p) \<and> pipe_bytes (pipes t p) = [] \<and> pi_readopen (pipes t p) \<and> pi_writeopen (pipes t p) \<and>
       ftable t = (ftable s)
         [f0 := (ftable s ! f0)\<lparr>f_ref := 1, f_type := FD_PIPE, f_readable := True, f_writable := False, f_pipe := p\<rparr>,
          f1 := (ftable s ! f1)\<lparr>f_ref := 1, f_type := FD_PIPE, f_readable := False, f_writable := True, f_pipe := p\<rparr>])"

lemma kalloc_Ok: "\<exists>p t. kalloc s = Ok p t"
  by (simp add: kalloc_def Let_def)

lemma pipealloc_cases:
  assumes ok: "ftable_ok (ftable s)"
  shows "(\<exists>t. pipealloc s = Ok None t \<and> ftable t = ftable s) \<or>
    (\<exists>f0 f1 t. pipealloc s = Ok (Some (f0, f1)) t \<and> f0 < length (ftable s) \<and> f1 < length (ftable s) \<and> pipe_ends f0 f1 s t)"
proof (cases "filealloc s")
  case (Pair r0 s0)
  show ?thesis
  proof (cases r0)
    case None
    then show ?thesis using filealloc_None Pair by (auto simp: pipealloc_def)
  next
    case (Some f0)
    note a0 = filealloc_Some [OF Pair [unfolded Some]]
    obtain r1 s1 where e1: "filealloc s0 = (r1, s1)" by fastforce
    show ?thesis
    proof (cases r1)
      case None
      then have "s1 = s0" using filealloc_None e1 by blast
      then have "close_opt (Some f0) s1 = Ok () (s0\<lparr>ftable := (ftable s0)[f0 := ftable s ! f0]\<rparr>)"
        using close_undoes_alloc [OF ok a0(1,2), of s0] a0(1,4) by simp
      then show ?thesis using a0(4) Pair Some e1 None by (simp add: pipealloc_def)
    next
      case r1: (Some f1)
      note a1 = filealloc_Some [OF e1 [unfolded r1]]
      have d: "f0 \<noteq> f1" using a1(2) a0 by auto
      have f1: "f1 < length (ftable s)" "f_ref (ftable s ! f1) = 0" "ftable s0 ! f1 = ftable s ! f1"
        using a1(1,2) a0(4) d by simp_all
      obtain p s2 where k: "kalloc s1 = Ok p s2" using kalloc_Ok by blast
      have t2: "ftable s2 = (ftable s)[f0 := (ftable s ! f0)\<lparr>f_ref := 1\<rparr>, f1 := (ftable s ! f1)\<lparr>f_ref := 1\<rparr>]"
        using kalloc_ftable [OF k] a1(4) a0(4) f1(3) by simp
      show ?thesis
      proof (cases "p = 0")
        case True
        let ?s3 = "s2\<lparr>ftable := (ftable s2)[f0 := ftable s ! f0]\<rparr>"
        have "close_opt (Some f0) s2 = Ok () ?s3"
          using close_undoes_alloc [OF ok a0(1,2), of s2] t2 a0(1) d by simp
        moreover have "close_opt (Some f1) ?s3 = Ok () (?s3\<lparr>ftable := (ftable ?s3)[f1 := ftable s ! f1]\<rparr>)"
          using close_undoes_alloc [OF ok f1(1,2), of ?s3] t2 f1(1) d by simp
        moreover have "(ftable ?s3)[f1 := ftable s ! f1] = ftable s"
          using t2 d a0(1) f1(1) by (simp add: list_update_swap)
        ultimately show ?thesis using Pair Some e1 r1 k True by (simp add: pipealloc_def)
      next
        case False
        then show ?thesis using Pair Some e1 r1 k t2 d a0(1,2) f1 pipe_fresh [of "mbytes (mem s2) (p + pipe_offset) PIPESIZE"]
          by (auto simp: pipealloc_def pipe_ends_def upd_file_def upd_pipe_def list_update_swap [of f1 f0] intro!: exI [of _ p])
      qed
    qed
  qed
qed

text \<open>
  C35: \<open>pipealloc\<close> either returns two different, previously free files that are the read end and the
  write end of one fresh, empty, open pipe (with one reference each, no other file touched), or it
  fails and has given back every file that it took.
\<close>

theorem pipealloc_all_or_nothing:
  assumes "ftable_ok (ftable s)"
  shows "(\<exists>t. pipealloc s = Ok None t \<and> ftable t = ftable s) \<or>
    (\<exists>f0 f1 t. pipealloc s = Ok (Some (f0, f1)) t \<and> f0 < length (ftable s) \<and> f1 < length (ftable s) \<and> pipe_ends f0 f1 s t)"
  using assms by (rule pipealloc_cases)

definition free_file :: struct_file where
  "free_file = \<lparr>f_type = FD_NONE, f_ref = 0, f_readable = False, f_writable = False, f_pipe = 0, f_ip = None,
     f_off = 0, f_major = 0\<rparr>"

definition file_machine :: "struct_file list \<Rightarrow> file_st" where
  "file_machine fs = pipe_st.extend (pipe_machine pipe0) (file_st.fields fs)"

theorem pipealloc_all_or_nothing_witness:
  "(\<exists>t. pipealloc (file_machine [free_file]) = Ok None t \<and> ftable t = [free_file]) \<or>
    (\<exists>f0 f1 t. pipealloc (file_machine [free_file]) = Ok (Some (f0, f1)) t)"
proof -
  have "ftable (file_machine [free_file]) = [free_file]" "ftable_ok [free_file]"
    by (simp_all add: file_machine_def pipe_st.defs file_st.defs ftable_ok_def free_file_def)
  then show ?thesis using pipealloc_all_or_nothing [of "file_machine [free_file]"] by auto
qed

end
