(* ===== verification/Process.thy ===== *)
theory Process
  imports File
begin

text \<open>
  Processes with open files: \<open>fork\<close>, \<open>exit\<close> and \<open>userinit\<close> of \<open>kernel/proc.c\<close>. The rest of the
  kernel's global state is added here: the clock, the flag of \<open>forkret\<close>, the trap registers of the
  running hart and the addresses of the assembly routines.
\<close>

section \<open>State\<close>

text \<open>
  The supervisor registers that the C code reads and writes, the interrupts that wait at the PLIC for
  this hart, and the writes to the PLIC's registers, oldest first.
\<close>

record hart =
  h_id :: nat
  h_sepc :: u64
  h_scause :: u64
  h_stval :: u64
  h_stvec :: u64
  h_satp :: u64
  h_sip :: u64
  h_irqs :: "u32 list"
  h_plic :: "(u64 \<times> u32) list"

record kern_st = file_st +
  ticks :: u32
  forkret_first :: bool
  hart :: hart
  kernel_pagetable :: u64
  sym_kernelvec :: u64
  sym_uservec :: u64
  sym_userret :: u64
  sym_usertrap :: u64

text \<open>\<open>safestrcpy(p->name, src, sizeof(p->name))\<close> on the 16 characters of a name.\<close>

definition set_name :: "u8 list \<Rightarrow> proc \<Rightarrow> proc" where
  "set_name src q =
     (let nm = take 15 (takeWhile (\<lambda>c. c \<noteq> 0) src);
          w = nm @ (if length nm < 15 then [0, 0] else [0])
      in q\<lparr>p_name := w @ drop (length w) (p_name q)\<rparr>)"

definition tf_get :: "nat \<Rightarrow> u64 \<Rightarrow> 'a proc_st_scheme \<Rightarrow> u64" where
  "tf_get p off s = load64 (mem s) (p_trapframe (procs s ! p) + off)"

definition tf_set :: "nat \<Rightarrow> u64 \<Rightarrow> u64 \<Rightarrow> 'a proc_st_scheme \<Rightarrow> 'a proc_st_scheme" where
  "tf_set p off v s = s\<lparr>mem := store64 (mem s) (p_trapframe (procs s ! p) + off) v\<rparr>"

section \<open>The first process\<close>

definition initcode :: "u8 list" where
  "initcode =
    [0x17, 0x05, 0x00, 0x00, 0x13, 0x05, 0x45, 0x02, 0x97, 0x05, 0x00, 0x00, 0x93, 0x85, 0x35, 0x02,
     0x93, 0x08, 0x70, 0x00, 0x73, 0x00, 0x00, 0x00, 0x93, 0x08, 0x20, 0x00, 0x73, 0x00, 0x00, 0x00,
     0xef, 0xf0, 0x9f, 0xff, 0x2f, 0x69, 0x6e, 0x69, 0x74, 0x00, 0x00, 0x24, 0x00, 0x00, 0x00, 0x00,
     0x00, 0x00, 0x00, 0x00]"

definition userinit :: "'a file_st_scheme \<Rightarrow> (unit, 'a file_st_scheme) res" where
  "userinit s =
     bind (allocproc s) (\<lambda>r s.
       case r of
         None \<Rightarrow> Panic ''null pointer''
       | Some p \<Rightarrow>
           bind (uvmfirst (p_pagetable (procs s ! p)) initcode (s\<lparr>initproc := Some p\<rparr>)) (\<lambda>_ s.
             let s = upd_proc p (\<lambda>q. q\<lparr>p_sz := PGSIZE\<rparr>) s;
                 s = tf_set p tf_epc 0 s;
                 s = tf_set p tf_sp PGSIZE s;
                 s = upd_proc p (set_name (ascii ''initcode'')) s
             in bind (namei [slash] s) (\<lambda>ip s.
                Ok () (upd_proc p (\<lambda>q. q\<lparr>p_cwd := ip, p_state := RUNNABLE\<rparr>) s))))"

section \<open>Fork\<close>

fun fork_files :: "nat \<Rightarrow> nat \<Rightarrow> nat list \<Rightarrow> 'a file_st_scheme \<Rightarrow> (unit, 'a file_st_scheme) res" where
  "fork_files p np [] s = Ok () s"
| "fork_files p np (i # is) s =
     (case p_ofile (procs s ! p) ! i of
        None \<Rightarrow> fork_files p np is s
      | Some f \<Rightarrow>
          bind (filedup f s) (\<lambda>f s.
            fork_files p np is (upd_proc np (\<lambda>q. q\<lparr>p_ofile := (p_ofile q)[i := Some f]\<rparr>) s)))"

definition fork :: "'a file_st_scheme \<Rightarrow> (int, 'a file_st_scheme) res" where
  "fork s =
     (let p = me s in
      bind (allocproc s) (\<lambda>r s.
        case r of
          None \<Rightarrow> Ok (-1) s
        | Some np \<Rightarrow>
            bind (uvmcopy (p_pagetable (procs s ! p)) (p_pagetable (procs s ! np)) (p_sz (procs s ! p)) s) (\<lambda>r s.
              if r < 0 then bind (freeproc np s) (\<lambda>_ s. Ok (-1) s)
              else
                let s = upd_proc np (\<lambda>q. q\<lparr>p_sz := p_sz (procs s ! p), p_trace_mask := p_trace_mask (procs s ! p)\<rparr>) s;
                    s = s\<lparr>mem := mwrite (mem s) (p_trapframe (procs s ! np))
                          (mbytes (mem s) (p_trapframe (procs s ! p)) trapframe_size)\<rparr>;
                    s = tf_set np (tf_a 0) 0 s
                in bind (fork_files p np [0..<NOFILE] s) (\<lambda>_ s.
                   case p_cwd (procs s ! p) of
                     None \<Rightarrow> Panic ''null pointer''
                   | Some cwd \<Rightarrow>
                       let (ip, s) = idup cwd s;
                           s = upd_proc np (\<lambda>q. q\<lparr>p_cwd := Some ip\<rparr>) s;
                           s = upd_proc np (set_name (p_name (procs s ! p))) s;
                           pid = p_pid (procs s ! np);
                           s = upd_proc np (\<lambda>q. q\<lparr>p_parent := Some p, p_state := RUNNABLE\<rparr>) s
                       in Ok (sint pid) s))))"

section \<open>Exit\<close>

fun exit_files :: "nat \<Rightarrow> nat list \<Rightarrow> 'a file_st_scheme \<Rightarrow> (unit, 'a file_st_scheme) res" where
  "exit_files p [] s = Ok () s"
| "exit_files p (fd # fds) s =
     (case p_ofile (procs s ! p) ! fd of
        None \<Rightarrow> exit_files p fds s
      | Some f \<Rightarrow>
          bind (fileclose f s) (\<lambda>_ s.
            exit_files p fds (upd_proc p (\<lambda>q. q\<lparr>p_ofile := (p_ofile q)[fd := None]\<rparr>) s)))"

text \<open>
  \<open>exit\<close> does not return to its caller: the outcome \<open>Ok\<close> is the state in which the CPU is back in the
  scheduler, which has cleared \<open>c->proc\<close> and released \<open>p->lock\<close>.
\<close>

definition exit :: "u32 \<Rightarrow> 'a file_st_scheme \<Rightarrow> (unit, 'a file_st_scheme) res" where
  "exit status s =
     (let p = me s in
      if Some p = initproc s then Panic ''init exiting''
      else bind (exit_files p [0..<NOFILE] s) (\<lambda>_ s.
           bind (begin_op s) (\<lambda>_ s.
           bind (iput_ptr (p_cwd (procs s ! p)) s) (\<lambda>_ s.
           bind (end_op s) (\<lambda>_ s.
             let s = upd_proc p (\<lambda>q. q\<lparr>p_cwd := None\<rparr>) s;
                 s = acquire_cpu s;
                 s = reparent p s;
                 s = wakeup (case p_parent (procs s ! p) of Some q \<Rightarrow> ProcChan q | None \<Rightarrow> NoChan) s
             in bind (exit_switch status s) (\<lambda>_ s. scheduler_back s))))))"

end
