(* ===== verification/Sysproc.thy ===== *)
theory Sysproc
  imports Process
begin

text \<open>
  Arguments of system calls (the first part of \<open>kernel/syscall.c\<close>) and the process system calls,
  \<open>kernel/sysproc.c\<close>. A system call returns the 64-bit value that goes to \<open>a0\<close>.
\<close>

section \<open>Arguments\<close>

definition argraw :: "nat \<Rightarrow> 'a proc_st_scheme \<Rightarrow> (u64, 'a proc_st_scheme) res" where
  "argraw n s = (if n \<le> 5 then Ok (tf_get (me s) (tf_a n) s) s else Panic ''argraw'')"

definition argint :: "nat \<Rightarrow> 'a proc_st_scheme \<Rightarrow> (u32, 'a proc_st_scheme) res" where
  "argint n s = bind (argraw n s) (\<lambda>v s. Ok (ucast v) s)"

definition argaddr :: "nat \<Rightarrow> 'a proc_st_scheme \<Rightarrow> (u64, 'a proc_st_scheme) res" where
  "argaddr n s = argraw n s"

text \<open>\<open>fetchaddr\<close> and \<open>fetchstr\<close>: \<open>None\<close> is the return value \<open>-1\<close>; a string comes without its terminator.\<close>

definition fetchaddr :: "u64 \<Rightarrow> 'a proc_st_scheme \<Rightarrow> (u64 option, 'a proc_st_scheme) res" where
  "fetchaddr addr s =
     (if addr \<ge> p_sz (mine s) \<or> addr + 8 > p_sz (mine s) then Ok None s
      else bind (copyin (p_pagetable (mine s)) addr 8 s) (\<lambda>(r, bs) s.
        Ok (if r \<noteq> 0 then None else Some (le_word bs)) s))"

definition fetchstr :: "u64 \<Rightarrow> nat \<Rightarrow> 'a proc_st_scheme \<Rightarrow> (u8 list option, 'a proc_st_scheme) res" where
  "fetchstr addr mx s =
     bind (copyinstr (p_pagetable (mine s)) addr mx s) (\<lambda>(r, bs) s.
       Ok (if r < 0 then None else Some (takeWhile (\<lambda>c. c \<noteq> 0) bs)) s)"

definition argstr :: "nat \<Rightarrow> nat \<Rightarrow> 'a proc_st_scheme \<Rightarrow> (u8 list option, 'a proc_st_scheme) res" where
  "argstr n mx s = bind (argaddr n s) (\<lambda>addr s. fetchstr addr mx s)"

section \<open>Process system calls\<close>

definition sys_exit :: "'a file_st_scheme \<Rightarrow> (u64, 'a file_st_scheme) res" where
  "sys_exit s = bind (argint 0 s) (\<lambda>n s. bind (exit n s) (\<lambda>_ s. Ok 0 s))"

definition sys_getpid :: "'a proc_st_scheme \<Rightarrow> (u64, 'a proc_st_scheme) res" where
  "sys_getpid s = Ok (scast (p_pid (mine s))) s"

definition sys_fork :: "'a file_st_scheme \<Rightarrow> (u64, 'a file_st_scheme) res" where
  "sys_fork s = bind (fork s) (\<lambda>r s. Ok (of_int r) s)"

definition sys_wait :: "'a proc_st_scheme \<Rightarrow> (u64, 'a proc_st_scheme) res" where
  "sys_wait s = bind (argaddr 0 s) (\<lambda>p s. bind (wait p s) (\<lambda>r s. Ok (of_int r) s))"

definition sys_sbrk :: "'a proc_st_scheme \<Rightarrow> (u64, 'a proc_st_scheme) res" where
  "sys_sbrk s =
     bind (argint 0 s) (\<lambda>n s.
       let addr = p_sz (mine s) in
       bind (growproc n s) (\<lambda>r s. Ok (if r < 0 then -1 else addr) s))"

text \<open>
  The loop of \<open>sys_sleep\<close>; its local variable is the tick at which it started. The comparison of the
  unsigned difference with the \<open>int\<close> argument is unsigned, as in C.
\<close>

definition sys_sleep_loop :: "u32 \<Rightarrow> u32 \<Rightarrow> 'a kern_st_scheme \<Rightarrow> ((u64, u32) outcome, 'a kern_st_scheme) res" where
  "sys_sleep_loop n ticks0 s =
     (if ticks s - ticks0 < n then
        if killed (me s) s then Ok (Return (-1)) s else suspend ticks0 (sleep TicksChan s)
      else Ok (Return 0) s)"

definition sys_sleep :: "'a kern_st_scheme \<Rightarrow> (u64, 'a kern_st_scheme) res" where
  "sys_sleep s = bind (argint 0 s) (\<lambda>n s. finish TicksChan (sys_sleep_loop n (ticks s) s))"

definition sys_pgaccess :: "'a proc_st_scheme \<Rightarrow> (u64, 'a proc_st_scheme) res" where
  "sys_pgaccess s = Ok 0 s"

definition sys_kill :: "'a proc_st_scheme \<Rightarrow> (u64, 'a proc_st_scheme) res" where
  "sys_kill s = bind (argint 0 s) (\<lambda>pid s. bind (kill pid s) (\<lambda>r s. Ok (of_int r) s))"

definition sys_uptime :: "'a kern_st_scheme \<Rightarrow> (u64, 'a kern_st_scheme) res" where
  "sys_uptime s = Ok (ucast (ticks s)) s"

definition sys_trace :: "'a proc_st_scheme \<Rightarrow> (u64, 'a proc_st_scheme) res" where
  "sys_trace s = bind (argint 0 s) (\<lambda>m s. bind (trace m s) (\<lambda>r s. Ok (of_int r) s))"

definition sysinfo_bytes :: "sysinfo_t \<Rightarrow> u8 list" where
  "sysinfo_bytes i = le_bytes 8 (freemem i) @ le_bytes 8 (nproc i)"

definition sys_sysinfo :: "'a proc_st_scheme \<Rightarrow> (u64, 'a proc_st_scheme) res" where
  "sys_sysinfo s =
     bind (argaddr 0 s) (\<lambda>p s.
     bind (sysinfo s) (\<lambda>info s.
     bind (copyout (p_pagetable (mine s)) p (sysinfo_bytes info) s) (\<lambda>r s.
       Ok (if r < 0 then -1 else 0) s)))"

end
