(* ===== verification/Exec.thy ===== *)
theory Exec
  imports Process
begin

text \<open>
  \<open>exec\<close>, \<open>kernel/exec.c\<close>: loading a program from the file system. The ELF structures of
  \<open>kernel/elf.h\<close> are bytes at their C offsets. The strings of \<open>argv\<close> are lists of characters.
\<close>

definition ELF_MAGIC :: u32 where "ELF_MAGIC = 0x464C457F"
definition ELF_PROG_LOAD :: u32 where "ELF_PROG_LOAD = 1"
definition elfhdr_size :: nat where "elfhdr_size = 64"
definition proghdr_size :: nat where "proghdr_size = 56"

record elfhdr =
  e_magic :: u32
  e_entry :: u64
  e_phoff :: u64
  e_phnum :: u16

definition elfhdr_of :: "u8 list \<Rightarrow> elfhdr" where
  "elfhdr_of d = \<lparr>e_magic = field 4 d 0, e_entry = field 8 d 24, e_phoff = field 8 d 32, e_phnum = field 2 d 56\<rparr>"

record proghdr =
  ph_type :: u32
  ph_flags :: u32
  ph_off :: u64
  ph_vaddr :: u64
  ph_filesz :: u64
  ph_memsz :: u64

definition proghdr_of :: "u8 list \<Rightarrow> proghdr" where
  "proghdr_of d = \<lparr>ph_type = field 4 d 0, ph_flags = field 4 d 4, ph_off = field 8 d 8, ph_vaddr = field 8 d 16,
     ph_filesz = field 8 d 32, ph_memsz = field 8 d 40\<rparr>"

definition flags2perm :: "u32 \<Rightarrow> u64" where
  "flags2perm flags =
     (let perm = (if flags AND 1 \<noteq> 0 then PTE_X else 0) in if flags AND 2 \<noteq> 0 then perm OR PTE_W else perm)"

text \<open>
  \<open>loadseg\<close> over the offsets of the pages of the segment. The C counter is a \<open>uint\<close>; it passes
  through exactly these values when \<open>sz\<close> is at most \<open>2^32 - PGSIZE\<close>, far above the largest file.
\<close>

fun loadseg_loop :: "u64 \<Rightarrow> u64 \<Rightarrow> nat \<Rightarrow> u32 \<Rightarrow> u32 \<Rightarrow> u32 list \<Rightarrow> 'a fs_st_scheme \<Rightarrow> (int, 'a fs_st_scheme) res" where
  "loadseg_loop pagetable va ip offset sz [] s = Ok 0 s"
| "loadseg_loop pagetable va ip offset sz (i # is) s =
     bind (walkaddr pagetable (va + ucast i) s) (\<lambda>pa s.
       if pa = 0 then Panic ''loadseg: address should exist''
       else
         let n = (if sz - i < ucast PGSIZE then sz - i else ucast PGSIZE) in
         bind (readi ip (ToKernel pa) (offset + i) n s) (\<lambda>(r, _) s.
           if r \<noteq> int (unat n) then Ok (-1) s else loadseg_loop pagetable va ip offset sz is s))"

definition loadseg :: "u64 \<Rightarrow> u64 \<Rightarrow> nat \<Rightarrow> u32 \<Rightarrow> u32 \<Rightarrow> 'a fs_st_scheme \<Rightarrow> (int, 'a fs_st_scheme) res" where
  "loadseg pagetable va ip offset sz s =
     loadseg_loop pagetable va ip offset sz
       (map (\<lambda>k. of_nat (k * unat PGSIZE)) [0..<(unat sz + unat PGSIZE - 1) div unat PGSIZE]) s"

text \<open>The loop over the program headers: whether it got through, and the size so far.\<close>

fun exec_load :: "u64 \<Rightarrow> nat \<Rightarrow> u32 list \<Rightarrow> u64 \<Rightarrow> 'a fs_st_scheme \<Rightarrow> (bool \<times> u64, 'a fs_st_scheme) res" where
  "exec_load pagetable ip [] sz s = Ok (True, sz) s"
| "exec_load pagetable ip (off # offs) sz s =
     bind (readi ip ToLocal off (of_nat proghdr_size) s) (\<lambda>(r, bs) s.
       let ph = proghdr_of bs in
       if r \<noteq> int proghdr_size then Ok (False, sz) s
       else if ph_type ph \<noteq> ELF_PROG_LOAD then exec_load pagetable ip offs sz s
       else if ph_memsz ph < ph_filesz ph then Ok (False, sz) s
       else if ph_vaddr ph + ph_memsz ph < ph_vaddr ph then Ok (False, sz) s
       else if ph_vaddr ph mod PGSIZE \<noteq> 0 then Ok (False, sz) s
       else bind (uvmalloc pagetable sz (ph_vaddr ph + ph_memsz ph) (flags2perm (ph_flags ph)) s) (\<lambda>sz1 s.
         if sz1 = 0 then Ok (False, sz) s
         else bind (loadseg pagetable (ph_vaddr ph) ip (ucast (ph_off ph)) (ucast (ph_filesz ph)) s) (\<lambda>r s.
           if r < 0 then Ok (False, sz1) s else exec_load pagetable ip offs sz1 s)))"

text \<open>The loop that pushes the argument strings: the new stack pointer and the addresses, oldest first.\<close>

fun push_args ::
    "u64 \<Rightarrow> u64 \<Rightarrow> u8 list list \<Rightarrow> u64 \<Rightarrow> u64 list \<Rightarrow> 'a kmem_st_scheme \<Rightarrow> ((u64 \<times> u64 list) option, 'a kmem_st_scheme) res" where
  "push_args pagetable stackbase [] sp ustack s = Ok (Some (sp, ustack)) s"
| "push_args pagetable stackbase (arg # args) sp ustack s =
     (if length ustack \<ge> MAXARG then Ok None s
      else
        let sp = sp - of_nat (length arg + 1); sp = sp - sp mod 16 in
        if sp < stackbase then Ok None s
        else bind (copyout pagetable sp (arg @ [0]) s) (\<lambda>r s.
          if r < 0 then Ok None s else push_args pagetable stackbase args sp (ustack @ [sp]) s))"

definition exec_bad :: "u64 \<Rightarrow> u64 \<Rightarrow> nat option \<Rightarrow> 'a fs_st_scheme \<Rightarrow> (int, 'a fs_st_scheme) res" where
  "exec_bad pagetable sz ipo s =
     bind (if pagetable \<noteq> 0 then proc_freepagetable pagetable sz s else Ok () s) (\<lambda>_ s.
     bind (case ipo of None \<Rightarrow> Ok () s | Some ip \<Rightarrow> bind (iunlockput ip s) (\<lambda>_ s. end_op s)) (\<lambda>_ s.
     Ok (-1) s))"

definition last_elem :: "u8 list \<Rightarrow> u8 list" where
  "last_elem path = rev (takeWhile (\<lambda>c. c \<noteq> slash) (rev path))"

text \<open>The second half, with the image loaded and the inode released.\<close>

definition exec_stack ::
    "u8 list \<Rightarrow> u8 list list \<Rightarrow> u64 \<Rightarrow> u64 \<Rightarrow> u64 \<Rightarrow> 'a fs_st_scheme \<Rightarrow> (int, 'a fs_st_scheme) res" where
  "exec_stack path argv pagetable sz entry s =
     (let p = me s; oldsz = p_sz (mine s); sz = PGROUNDUP sz in
      bind (uvmalloc pagetable sz (sz + 2 * PGSIZE) PTE_W s) (\<lambda>sz1 s.
        if sz1 = 0 then exec_bad pagetable sz None s
        else bind (uvmclear pagetable (sz1 - 2 * PGSIZE) s) (\<lambda>_ s.
          let stackbase = sz1 - PGSIZE in
          bind (push_args pagetable stackbase argv sz1 [] s) (\<lambda>r s.
            case r of
              None \<Rightarrow> exec_bad pagetable sz1 None s
            | Some (sp, ustack) \<Rightarrow>
                let argc = length ustack;
                    sp = sp - of_nat ((argc + 1) * 8);
                    sp = sp - sp mod 16
                in if sp < stackbase then exec_bad pagetable sz1 None s
                   else bind (copyout pagetable sp (concat (map (le_bytes 8) (ustack @ [0]))) s) (\<lambda>r s.
                     if r < 0 then exec_bad pagetable sz1 None s
                     else
                       let s = tf_set p (tf_a 1) sp s;
                           s = upd_proc p (set_name (last_elem path)) s;
                           oldpagetable = p_pagetable (procs s ! p);
                           s = upd_proc p (\<lambda>q. q\<lparr>p_pagetable := pagetable, p_sz := sz1\<rparr>) s;
                           s = tf_set p tf_epc entry s;
                           s = tf_set p tf_sp sp s
                       in bind (proc_freepagetable oldpagetable oldsz s) (\<lambda>_ s. Ok (int argc) s))))))"

definition exec :: "u8 list \<Rightarrow> u8 list list \<Rightarrow> 'a fs_st_scheme \<Rightarrow> (int, 'a fs_st_scheme) res" where
  "exec path argv s =
     (let p = me s in
      bind (begin_op s) (\<lambda>_ s.
      bind (namei path s) (\<lambda>ipo s.
        case ipo of
          None \<Rightarrow> bind (end_op s) (\<lambda>_ s. Ok (-1) s)
        | Some ip \<Rightarrow>
            bind (ilock (Some ip) s) (\<lambda>_ s.
            bind (readi ip ToLocal 0 (of_nat elfhdr_size) s) (\<lambda>(r, bs) s.
              let elf = elfhdr_of bs in
              if r \<noteq> int elfhdr_size then exec_bad 0 0 (Some ip) s
              else if e_magic elf \<noteq> ELF_MAGIC then exec_bad 0 0 (Some ip) s
              else bind (proc_pagetable p s) (\<lambda>pagetable s.
                if pagetable = 0 then exec_bad 0 0 (Some ip) s
                else bind (exec_load pagetable ip
                            (map (\<lambda>i. ucast (e_phoff elf) + of_nat (i * proghdr_size)) [0..<unat (e_phnum elf)]) 0 s)
                  (\<lambda>(ok, sz) s.
                    if \<not> ok then exec_bad pagetable sz (Some ip) s
                    else bind (iunlockput ip s) (\<lambda>_ s.
                         bind (end_op s) (\<lambda>_ s. exec_stack path argv pagetable sz (e_entry elf) s)))))))))"

end
