(* ===== verification/Sysfile.thy ===== *)
theory Sysfile
  imports Sysproc Exec
begin

text \<open>
  The file system calls, \<open>kernel/sysfile.c\<close>: descriptors, links, creation and removal of names,
  opening, directories, \<open>exec\<close> and \<open>pipe\<close>. A \<open>goto bad\<close> is a call of the function that holds the
  statements after the label.
\<close>

section \<open>Descriptors\<close>

text \<open>\<open>argfd\<close>: the descriptor and the file, or \<open>None\<close> for \<open>-1\<close>.\<close>

definition argfd :: "nat \<Rightarrow> 'a proc_st_scheme \<Rightarrow> ((nat \<times> nat) option, 'a proc_st_scheme) res" where
  "argfd n s =
     bind (argint n s) (\<lambda>fd s.
       if sint fd < 0 \<or> sint fd \<ge> int NOFILE then Ok None s
       else case p_ofile (mine s) ! unat fd of
           None \<Rightarrow> Ok None s
         | Some f \<Rightarrow> Ok (Some (unat fd, f)) s)"

definition set_ofile :: "nat \<Rightarrow> nat option \<Rightarrow> 'a proc_st_scheme \<Rightarrow> 'a proc_st_scheme" where
  "set_ofile fd fo s = upd_proc (me s) (\<lambda>q. q\<lparr>p_ofile := (p_ofile q)[fd := fo]\<rparr>) s"

definition fdalloc :: "nat \<Rightarrow> 'a proc_st_scheme \<Rightarrow> nat option \<times> 'a proc_st_scheme" where
  "fdalloc f s =
     (case find (\<lambda>fd. p_ofile (mine s) ! fd = None) [0..<NOFILE] of
        None \<Rightarrow> (None, s)
      | Some fd \<Rightarrow> (Some fd, set_ofile fd (Some f) s))"

definition sys_dup :: "'a file_st_scheme \<Rightarrow> (u64, 'a file_st_scheme) res" where
  "sys_dup s =
     bind (argfd 0 s) (\<lambda>r s.
       case r of
         None \<Rightarrow> Ok (-1) s
       | Some (_, f) \<Rightarrow>
           (case fdalloc f s of
              (None, s) \<Rightarrow> Ok (-1) s
            | (Some fd, s) \<Rightarrow> bind (filedup f s) (\<lambda>_ s. Ok (of_nat fd) s)))"

definition sys_read :: "'a file_st_scheme \<Rightarrow> (u64, 'a file_st_scheme) res" where
  "sys_read s =
     bind (argaddr 1 s) (\<lambda>p s.
     bind (argint 2 s) (\<lambda>n s.
     bind (argfd 0 s) (\<lambda>r s.
       case r of
         None \<Rightarrow> Ok (-1) s
       | Some (_, f) \<Rightarrow> bind (fileread f p (sint n) s) (\<lambda>r s. Ok (of_int r) s))))"

definition sys_write :: "'a file_st_scheme \<Rightarrow> (u64, 'a file_st_scheme) res" where
  "sys_write s =
     bind (argaddr 1 s) (\<lambda>p s.
     bind (argint 2 s) (\<lambda>n s.
     bind (argfd 0 s) (\<lambda>r s.
       case r of
         None \<Rightarrow> Ok (-1) s
       | Some (_, f) \<Rightarrow> bind (filewrite f p (sint n) s) (\<lambda>r s. Ok (of_int r) s))))"

definition sys_close :: "'a file_st_scheme \<Rightarrow> (u64, 'a file_st_scheme) res" where
  "sys_close s =
     bind (argfd 0 s) (\<lambda>r s.
       case r of
         None \<Rightarrow> Ok (-1) s
       | Some (fd, f) \<Rightarrow> bind (fileclose f (set_ofile fd None s)) (\<lambda>_ s. Ok 0 s))"

definition sys_fstat :: "'a file_st_scheme \<Rightarrow> (u64, 'a file_st_scheme) res" where
  "sys_fstat s =
     bind (argaddr 1 s) (\<lambda>st s.
     bind (argfd 0 s) (\<lambda>r s.
       case r of
         None \<Rightarrow> Ok (-1) s
       | Some (_, f) \<Rightarrow> bind (filestat f st s) (\<lambda>r s. Ok (of_int r) s)))"

section \<open>Links\<close>

text \<open>Leave the transaction with a result.\<close>

definition end_with :: "u64 \<Rightarrow> 'a log_st_scheme \<Rightarrow> (u64, 'a log_st_scheme) res" where
  "end_with v s = bind (end_op s) (\<lambda>_ s. Ok v s)"

definition link_bad :: "nat \<Rightarrow> 'a fs_st_scheme \<Rightarrow> (u64, 'a fs_st_scheme) res" where
  "link_bad ip s =
     bind (ilock (Some ip) s) (\<lambda>_ s.
     bind (iupdate ip (upd_inode ip (\<lambda>q. q\<lparr>i_nlink := i_nlink q - 1\<rparr>) s)) (\<lambda>_ s.
     bind (iunlockput ip s) (\<lambda>_ s. end_with (-1) s)))"

definition sys_link :: "'a fs_st_scheme \<Rightarrow> (u64, 'a fs_st_scheme) res" where
  "sys_link s =
     bind (argstr 0 MAXPATH s) (\<lambda>old s.
       case old of
         None \<Rightarrow> Ok (-1) s
       | Some old \<Rightarrow>
     bind (argstr 1 MAXPATH s) (\<lambda>new s.
       case new of
         None \<Rightarrow> Ok (-1) s
       | Some new \<Rightarrow>
     bind (begin_op s) (\<lambda>_ s.
     bind (namei old s) (\<lambda>ipo s.
       case ipo of
         None \<Rightarrow> end_with (-1) s
       | Some ip \<Rightarrow>
     bind (ilock (Some ip) s) (\<lambda>_ s.
       if i_type (itable s ! ip) = T_DIR then bind (iunlockput ip s) (\<lambda>_ s. end_with (-1) s)
       else
     bind (iupdate ip (upd_inode ip (\<lambda>q. q\<lparr>i_nlink := i_nlink q + 1\<rparr>) s)) (\<lambda>_ s.
     bind (iunlock (Some ip) s) (\<lambda>_ s.
     bind (nameiparent new s) (\<lambda>(dpo, name) s.
       case dpo of
         None \<Rightarrow> link_bad ip s
       | Some dp \<Rightarrow>
     bind (ilock (Some dp) s) (\<lambda>_ s.
     bind (if i_dev (itable s ! dp) \<noteq> i_dev (itable s ! ip) then Ok (-1) s
           else dirlink dp name (i_inum (itable s ! ip)) s) (\<lambda>r s.
       if r < 0 then bind (iunlockput dp s) (\<lambda>_ s. link_bad ip s)
       else
     bind (iunlockput dp s) (\<lambda>_ s.
     bind (iput ip s) (\<lambda>_ s. end_with 0 s))))))))))))"

fun isdirempty_loop :: "nat \<Rightarrow> nat list \<Rightarrow> 'a fs_st_scheme \<Rightarrow> (bool, 'a fs_st_scheme) res" where
  "isdirempty_loop dp [] s = Ok True s"
| "isdirempty_loop dp (off # offs) s =
     bind (readi dp ToLocal (of_nat off) (of_nat dirent_size) s) (\<lambda>(r, de) s.
       if r \<noteq> int dirent_size then Panic ''isdirempty: readi''
       else if (field 2 de 0 :: u16) \<noteq> 0 then Ok False s
       else isdirempty_loop dp offs s)"

definition isdirempty :: "nat \<Rightarrow> 'a fs_st_scheme \<Rightarrow> (bool, 'a fs_st_scheme) res" where
  "isdirempty dp s = isdirempty_loop dp (drop 2 (dir_offsets (i_size (itable s ! dp)))) s"

definition unlink_bad :: "nat \<Rightarrow> 'a fs_st_scheme \<Rightarrow> (u64, 'a fs_st_scheme) res" where
  "unlink_bad dp s = bind (iunlockput dp s) (\<lambda>_ s. end_with (-1) s)"

text \<open>The part of \<open>sys_unlink\<close> after both inodes are locked and the checks have passed.\<close>

definition unlink_commit :: "nat \<Rightarrow> nat \<Rightarrow> u32 \<Rightarrow> 'a fs_st_scheme \<Rightarrow> (u64, 'a fs_st_scheme) res" where
  "unlink_commit dp ip off s =
     bind (writei dp (FromLocal (replicate dirent_size 0)) off (of_nat dirent_size) s) (\<lambda>r s.
       if r \<noteq> int dirent_size then Panic ''unlink: writei''
       else
     bind (if i_type (itable s ! ip) = T_DIR
           then iupdate dp (upd_inode dp (\<lambda>q. q\<lparr>i_nlink := i_nlink q - 1\<rparr>) s) else Ok () s) (\<lambda>_ s.
     bind (iunlockput dp s) (\<lambda>_ s.
     bind (iupdate ip (upd_inode ip (\<lambda>q. q\<lparr>i_nlink := i_nlink q - 1\<rparr>) s)) (\<lambda>_ s.
     bind (iunlockput ip s) (\<lambda>_ s. end_with 0 s)))))"

definition sys_unlink :: "'a fs_st_scheme \<Rightarrow> (u64, 'a fs_st_scheme) res" where
  "sys_unlink s =
     bind (argstr 0 MAXPATH s) (\<lambda>path s.
       case path of
         None \<Rightarrow> Ok (-1) s
       | Some path \<Rightarrow>
     bind (begin_op s) (\<lambda>_ s.
     bind (nameiparent path s) (\<lambda>(dpo, name) s.
       case dpo of
         None \<Rightarrow> end_with (-1) s
       | Some dp \<Rightarrow>
     bind (ilock (Some dp) s) (\<lambda>_ s.
       if namecmp name (ascii ''.'') = 0 \<or> namecmp name (ascii ''..'') = 0 then unlink_bad dp s
       else
     bind (dirlookup dp name s) (\<lambda>r s.
       case r of
         None \<Rightarrow> unlink_bad dp s
       | Some (ip, off) \<Rightarrow>
     bind (ilock (Some ip) s) (\<lambda>_ s.
       if sint (i_nlink (itable s ! ip)) < 1 then Panic ''unlink: nlink < 1''
       else
     bind (if i_type (itable s ! ip) = T_DIR then isdirempty ip s else Ok True s) (\<lambda>empty s.
       if \<not> empty then bind (iunlockput ip s) (\<lambda>_ s. unlink_bad dp s)
       else unlink_commit dp ip off s)))))))"

section \<open>Creating and opening\<close>

definition create_fail :: "nat \<Rightarrow> nat \<Rightarrow> 'a fs_st_scheme \<Rightarrow> (nat option, 'a fs_st_scheme) res" where
  "create_fail ip dp s =
     bind (iupdate ip (upd_inode ip (\<lambda>q. q\<lparr>i_nlink := 0\<rparr>) s)) (\<lambda>_ s.
     bind (iunlockput ip s) (\<lambda>_ s.
     bind (iunlockput dp s) (\<lambda>_ s. Ok None s)))"

text \<open>The entries of a new directory: \<open>.\<close> and then \<open>..\<close>, the second only if the first went in.\<close>

definition create_dots :: "nat \<Rightarrow> nat \<Rightarrow> 'a fs_st_scheme \<Rightarrow> (bool, 'a fs_st_scheme) res" where
  "create_dots ip dp s =
     bind (dirlink ip (ascii ''.'') (i_inum (itable s ! ip)) s) (\<lambda>r s.
       if r < 0 then Ok False s
       else bind (dirlink ip (ascii ''..'') (i_inum (itable s ! dp)) s) (\<lambda>r s. Ok (\<not> r < 0) s))"

text \<open>A new inode \<open>ip\<close> of directory \<open>dp\<close>, allocated but not yet locked.\<close>

definition create_new ::
    "nat \<Rightarrow> nat \<Rightarrow> u8 list \<Rightarrow> u16 \<Rightarrow> u16 \<Rightarrow> u16 \<Rightarrow> 'a fs_st_scheme \<Rightarrow> (nat option, 'a fs_st_scheme) res" where
  "create_new ip dp name type major minor s =
     bind (ilock (Some ip) s) (\<lambda>_ s.
     bind (iupdate ip (upd_inode ip (\<lambda>q. q\<lparr>i_major := major, i_minor := minor, i_nlink := 1\<rparr>) s)) (\<lambda>_ s.
     bind (if type = T_DIR then create_dots ip dp s else Ok True s) (\<lambda>ok s.
       if \<not> ok then create_fail ip dp s
       else bind (dirlink dp name (i_inum (itable s ! ip)) s) (\<lambda>r s.
         if r < 0 then create_fail ip dp s
         else bind (if type = T_DIR then iupdate dp (upd_inode dp (\<lambda>q. q\<lparr>i_nlink := i_nlink q + 1\<rparr>) s)
                    else Ok () s) (\<lambda>_ s.
              bind (iunlockput dp s) (\<lambda>_ s. Ok (Some ip) s))))))"

definition create :: "u8 list \<Rightarrow> u16 \<Rightarrow> u16 \<Rightarrow> u16 \<Rightarrow> 'a fs_st_scheme \<Rightarrow> (nat option, 'a fs_st_scheme) res" where
  "create path type major minor s =
     bind (nameiparent path s) (\<lambda>(dpo, name) s.
       case dpo of
         None \<Rightarrow> Ok None s
       | Some dp \<Rightarrow>
     bind (ilock (Some dp) s) (\<lambda>_ s.
     bind (dirlookup dp name s) (\<lambda>r s.
       case r of
         Some (ip, _) \<Rightarrow>
           bind (iunlockput dp s) (\<lambda>_ s.
           bind (ilock (Some ip) s) (\<lambda>_ s.
             if type = T_FILE \<and> (i_type (itable s ! ip) = T_FILE \<or> i_type (itable s ! ip) = T_DEVICE)
             then Ok (Some ip) s
             else bind (iunlockput ip s) (\<lambda>_ s. Ok None s)))
       | None \<Rightarrow>
           bind (ialloc (i_dev (itable s ! dp)) type s) (\<lambda>ipo s.
             case ipo of
               None \<Rightarrow> bind (iunlockput dp s) (\<lambda>_ s. Ok None s)
             | Some ip \<Rightarrow> create_new ip dp name type major minor s))))"

definition O_RDONLY :: u32 where "O_RDONLY = 0"
definition O_WRONLY :: u32 where "O_WRONLY = 1"
definition O_RDWR :: u32 where "O_RDWR = 2"
definition O_CREATE :: u32 where "O_CREATE = 0x200"
definition O_TRUNC :: u32 where "O_TRUNC = 0x400"

text \<open>The first part of \<open>sys_open\<close>: the inode, locked, or \<open>None\<close> when there is none to open.\<close>

definition open_inode :: "u8 list \<Rightarrow> u32 \<Rightarrow> 'a fs_st_scheme \<Rightarrow> (nat option, 'a fs_st_scheme) res" where
  "open_inode path omode s =
     (if omode AND O_CREATE \<noteq> 0 then create path T_FILE 0 0 s
      else bind (namei path s) (\<lambda>ipo s.
        case ipo of
          None \<Rightarrow> Ok None s
        | Some ip \<Rightarrow>
            bind (ilock (Some ip) s) (\<lambda>_ s.
              if i_type (itable s ! ip) = T_DIR \<and> omode \<noteq> O_RDONLY
              then bind (iunlockput ip s) (\<lambda>_ s. Ok None s)
              else Ok (Some ip) s)))"

text \<open>A free file and a free descriptor for it, or neither.\<close>

definition open_file :: "'a file_st_scheme \<Rightarrow> ((nat \<times> nat) option, 'a file_st_scheme) res" where
  "open_file s =
     (case filealloc s of
        (None, s) \<Rightarrow> Ok None s
      | (Some f, s) \<Rightarrow>
          (case fdalloc f s of
             (None, s) \<Rightarrow> bind (fileclose f s) (\<lambda>_ s. Ok None s)
           | (Some fd, s) \<Rightarrow> Ok (Some (f, fd)) s))"

definition sys_open :: "'a file_st_scheme \<Rightarrow> (u64, 'a file_st_scheme) res" where
  "sys_open s =
     bind (argint 1 s) (\<lambda>omode s.
     bind (argstr 0 MAXPATH s) (\<lambda>path s.
       case path of
         None \<Rightarrow> Ok (-1) s
       | Some path \<Rightarrow>
     bind (begin_op s) (\<lambda>_ s.
     bind (open_inode path omode s) (\<lambda>ipo s.
       case ipo of
         None \<Rightarrow> end_with (-1) s
       | Some ip \<Rightarrow>
           let q = itable s ! ip in
           if i_type q = T_DEVICE \<and> (sint (i_major q) < 0 \<or> sint (i_major q) \<ge> int NDEV)
           then bind (iunlockput ip s) (\<lambda>_ s. end_with (-1) s)
           else
     bind (open_file s) (\<lambda>r s.
       case r of
         None \<Rightarrow> bind (iunlockput ip s) (\<lambda>_ s. end_with (-1) s)
       | Some (f, fd) \<Rightarrow>
           let s = (if i_type q = T_DEVICE then upd_file f (\<lambda>h. h\<lparr>f_type := FD_DEVICE, f_major := i_major q\<rparr>) s
                    else upd_file f (\<lambda>h. h\<lparr>f_type := FD_INODE, f_off := 0\<rparr>) s);
               s = upd_file f (\<lambda>h. h\<lparr>f_ip := Some ip, f_readable := (omode AND O_WRONLY = 0),
                     f_writable := (omode AND O_WRONLY \<noteq> 0 \<or> omode AND O_RDWR \<noteq> 0)\<rparr>) s
           in bind (if omode AND O_TRUNC \<noteq> 0 \<and> i_type q = T_FILE then itrunc ip s else Ok () s) (\<lambda>_ s.
              bind (iunlock (Some ip) s) (\<lambda>_ s. end_with (of_nat fd) s)))))))"

definition sys_mkdir :: "'a fs_st_scheme \<Rightarrow> (u64, 'a fs_st_scheme) res" where
  "sys_mkdir s =
     bind (begin_op s) (\<lambda>_ s.
     bind (argstr 0 MAXPATH s) (\<lambda>path s.
       case path of
         None \<Rightarrow> end_with (-1) s
       | Some path \<Rightarrow>
     bind (create path T_DIR 0 0 s) (\<lambda>ipo s.
       case ipo of
         None \<Rightarrow> end_with (-1) s
       | Some ip \<Rightarrow> bind (iunlockput ip s) (\<lambda>_ s. end_with 0 s))))"

definition sys_mknod :: "'a fs_st_scheme \<Rightarrow> (u64, 'a fs_st_scheme) res" where
  "sys_mknod s =
     bind (begin_op s) (\<lambda>_ s.
     bind (argint 1 s) (\<lambda>major s.
     bind (argint 2 s) (\<lambda>minor s.
     bind (argstr 0 MAXPATH s) (\<lambda>path s.
       case path of
         None \<Rightarrow> end_with (-1) s
       | Some path \<Rightarrow>
     bind (create path T_DEVICE (ucast major) (ucast minor) s) (\<lambda>ipo s.
       case ipo of
         None \<Rightarrow> end_with (-1) s
       | Some ip \<Rightarrow> bind (iunlockput ip s) (\<lambda>_ s. end_with 0 s))))))"

definition sys_chdir :: "'a file_st_scheme \<Rightarrow> (u64, 'a file_st_scheme) res" where
  "sys_chdir s =
     bind (begin_op s) (\<lambda>_ s.
     bind (argstr 0 MAXPATH s) (\<lambda>path s.
       case path of
         None \<Rightarrow> end_with (-1) s
       | Some path \<Rightarrow>
     bind (namei path s) (\<lambda>ipo s.
       case ipo of
         None \<Rightarrow> end_with (-1) s
       | Some ip \<Rightarrow>
     bind (ilock (Some ip) s) (\<lambda>_ s.
       if i_type (itable s ! ip) \<noteq> T_DIR then bind (iunlockput ip s) (\<lambda>_ s. end_with (-1) s)
       else
     bind (iunlock (Some ip) s) (\<lambda>_ s.
     bind (iput_ptr (p_cwd (mine s)) s) (\<lambda>_ s.
     bind (end_op s) (\<lambda>_ s.
       Ok 0 (upd_proc (me s) (\<lambda>q. q\<lparr>p_cwd := Some ip\<rparr>) s))))))))"

section \<open>Running programs and making pipes\<close>

fun kfree_all :: "u64 list \<Rightarrow> 'a kmem_st_scheme \<Rightarrow> (unit, 'a kmem_st_scheme) res" where
  "kfree_all [] s = Ok () s"
| "kfree_all (p # ps) s = bind (kfree p s) (\<lambda>_ s. kfree_all ps s)"

text \<open>
  The loop that fetches the arguments, with \<open>k\<close> entries of \<open>argv\<close> left: the pages so far and, unless it
  failed, the strings in them.
\<close>

fun exec_args ::
    "nat \<Rightarrow> u64 \<Rightarrow> u64 list \<Rightarrow> u8 list list \<Rightarrow> 'a proc_st_scheme \<Rightarrow> (u64 list \<times> u8 list list option, 'a proc_st_scheme) res" where
  "exec_args 0 uargv pages args s = Ok (pages, None) s"
| "exec_args (Suc k) uargv pages args s =
     bind (fetchaddr (uargv + 8 * of_nat (length pages)) s) (\<lambda>r s.
       case r of
         None \<Rightarrow> Ok (pages, None) s
       | Some uarg \<Rightarrow>
           if uarg = 0 then Ok (pages, Some args) s
           else bind (kalloc s) (\<lambda>page s.
             if page = 0 then Ok (pages, None) s
             else bind (fetchstr uarg (unat PGSIZE) s) (\<lambda>str s.
               case str of
                 None \<Rightarrow> Ok (pages @ [page], None) s
               | Some a \<Rightarrow>
                   exec_args k uargv (pages @ [page]) (args @ [a])
                     (s\<lparr>mem := mwrite (mem s) page (a @ [0])\<rparr>))))"

definition sys_exec :: "'a fs_st_scheme \<Rightarrow> (u64, 'a fs_st_scheme) res" where
  "sys_exec s =
     bind (argaddr 1 s) (\<lambda>uargv s.
     bind (argstr 0 MAXPATH s) (\<lambda>path s.
       case path of
         None \<Rightarrow> Ok (-1) s
       | Some path \<Rightarrow>
     bind (exec_args MAXARG uargv [] [] s) (\<lambda>(pages, args) s.
       case args of
         None \<Rightarrow> bind (kfree_all pages s) (\<lambda>_ s. Ok (-1) s)
       | Some argv \<Rightarrow>
           bind (exec path argv s) (\<lambda>ret s.
           bind (kfree_all pages s) (\<lambda>_ s. Ok (of_int ret) s)))))"

text \<open>The failure paths of \<open>sys_pipe\<close>: both files are closed.\<close>

definition pipe_bad :: "nat \<Rightarrow> nat \<Rightarrow> 'a file_st_scheme \<Rightarrow> (u64, 'a file_st_scheme) res" where
  "pipe_bad r0 w s = bind (fileclose r0 s) (\<lambda>_ s. bind (fileclose w s) (\<lambda>_ s. Ok (-1) s))"

definition sys_pipe :: "'a file_st_scheme \<Rightarrow> (u64, 'a file_st_scheme) res" where
  "sys_pipe s =
     bind (argaddr 0 s) (\<lambda>fdarray s.
     bind (pipealloc s) (\<lambda>r s.
       case r of
         None \<Rightarrow> Ok (-1) s
       | Some (r0, w) \<Rightarrow>
           (case fdalloc r0 s of
              (None, s) \<Rightarrow> pipe_bad r0 w s
            | (Some fd0, s) \<Rightarrow>
                (case fdalloc w s of
                   (None, s) \<Rightarrow> pipe_bad r0 w (set_ofile fd0 None s)
                 | (Some fd1, s) \<Rightarrow>
                     bind (copyout (p_pagetable (mine s)) fdarray (le_bytes 4 (of_nat fd0 :: u32)) s) (\<lambda>r s.
                     bind (if r < 0 then Ok r s
                           else copyout (p_pagetable (mine s)) (fdarray + 4) (le_bytes 4 (of_nat fd1 :: u32)) s) (\<lambda>r s.
                       if r < 0 then pipe_bad r0 w (set_ofile fd1 None (set_ofile fd0 None s))
                       else Ok 0 s))))))"

end
