(* ===== verification/Trap.thy ===== *)
theory Trap
  imports Sysfile
begin

text \<open>
  System call dispatch (\<open>kernel/syscall.c\<close>), traps and interrupts (\<open>kernel/trap.c\<close>, \<open>kernel/plic.c\<close>),
  the first run of a process (\<open>forkret\<close>), and the boot sequence (\<open>kernel/start.c\<close>, \<open>kernel/main.c\<close>).
  The kernel is configured with \<open>LAB_PGTBL\<close>, as \<open>conf/lab.mk\<close> says.
\<close>

section \<open>System call dispatch\<close>

definition SYS_pgaccess :: nat where "SYS_pgaccess = 30"

definition syscalls :: "nat \<Rightarrow> ('a kern_st_scheme \<Rightarrow> (u64, 'a kern_st_scheme) res) option" where
  "syscalls num =
     (if num = 1 then Some sys_fork else if num = 2 then Some sys_exit else if num = 3 then Some sys_wait
      else if num = 4 then Some sys_pipe else if num = 5 then Some sys_read else if num = 6 then Some sys_kill
      else if num = 7 then Some sys_exec else if num = 8 then Some sys_fstat else if num = 9 then Some sys_chdir
      else if num = 10 then Some sys_dup else if num = 11 then Some sys_getpid else if num = 12 then Some sys_sbrk
      else if num = 13 then Some sys_sleep else if num = 14 then Some sys_uptime else if num = 15 then Some sys_open
      else if num = 16 then Some sys_write else if num = 17 then Some sys_mknod else if num = 18 then Some sys_unlink
      else if num = 19 then Some sys_link else if num = 20 then Some sys_mkdir else if num = 21 then Some sys_close
      else if num = 22 then Some sys_trace else if num = 23 then Some sys_sysinfo
      else if num = SYS_pgaccess then Some sys_pgaccess else None)"

definition NELEM_syscalls :: int where "NELEM_syscalls = 31"

text \<open>The names for tracing, as an array; its first entry is the null pointer.\<close>

definition str_syscalls :: "string option list" where
  "str_syscalls =
     [None, Some ''fork'', Some ''exit'', Some ''wait'', Some ''pipe'', Some ''read'', Some ''kill'', Some ''exec'',
      Some ''fstat'', Some ''chdir'', Some ''dup'', Some ''getpid'', Some ''sbrk'', Some ''sleep'', Some ''uptime'',
      Some ''open'', Some ''write'', Some ''mknod'', Some ''unlink'', Some ''link'', Some ''mkdir'', Some ''close'',
      Some ''trace'', Some ''sysinfo'']"

definition tf_a7 :: u64 where "tf_a7 = 168"

text \<open>The trace line of a call; reading the array of names out of range has no defined outcome.\<close>

definition trace_call :: "nat \<Rightarrow> 'a kern_st_scheme \<Rightarrow> (unit, 'a kern_st_scheme) res" where
  "trace_call num s =
     (if push_bit num 1 AND p_trace_mask (mine s) \<noteq> 0 then
        if num < length str_syscalls then
          printf (Some (ascii ''%d: syscall %s -> %d'' @ [10]))
            [ArgInt (p_pid (mine s)), ArgStr (map_option ascii (str_syscalls ! num)),
             ArgInt (ucast (tf_get (me s) (tf_a 0) s))] s
        else Panic ''out of bounds''
      else Ok () s)"

text \<open>A call that does not return (\<open>exit\<close>) leaves the CPU without a process.\<close>

definition syscall :: "'a kern_st_scheme \<Rightarrow> (unit, 'a kern_st_scheme) res" where
  "syscall s =
     (let p = me s; num = (ucast (tf_get p tf_a7 s) :: u32) in
      case (if sint num > 0 \<and> sint num < NELEM_syscalls then syscalls (unat num) else None) of
        Some f \<Rightarrow>
          bind (f s) (\<lambda>v s.
            if myproc s = None then Ok () s
            else trace_call (unat num) (tf_set p (tf_a 0) v s))
      | None \<Rightarrow>
          bind (printf (Some (ascii ''%d %s: unknown sys call %d'' @ [10]))
                 [ArgInt (p_pid (mine s)), ArgStr (Some (takeWhile (\<lambda>c. c \<noteq> 0) (p_name (mine s)))), ArgInt num] s)
            (\<lambda>_ s. Ok () (tf_set p (tf_a 0) (-1) s)))"

section \<open>Interrupts\<close>

definition upd_hart :: "(hart \<Rightarrow> hart) \<Rightarrow> 'a kern_st_scheme \<Rightarrow> 'a kern_st_scheme" where
  "upd_hart f s = s\<lparr>hart := f (hart s)\<rparr>"

definition plic_write :: "u64 \<Rightarrow> u32 \<Rightarrow> 'a kern_st_scheme \<Rightarrow> 'a kern_st_scheme" where
  "plic_write a v = upd_hart (\<lambda>h. h\<lparr>h_plic := h_plic h @ [(a, v)]\<rparr>)"

definition plicinit :: "'a kern_st_scheme \<Rightarrow> 'a kern_st_scheme" where
  "plicinit s = plic_write (PLIC + ucast VIRTIO0_IRQ * 4) 1 (plic_write (PLIC + ucast UART0_IRQ * 4) 1 s)"

definition plicinithart :: "'a kern_st_scheme \<Rightarrow> 'a kern_st_scheme" where
  "plicinithart s =
     (let hartid = of_nat (h_id (hart s)) in
      plic_write (PLIC_SPRIORITY hartid) 0
        (plic_write (PLIC_SENABLE hartid) (push_bit (unat UART0_IRQ) 1 OR push_bit (unat VIRTIO0_IRQ) 1) s))"

definition plic_claim :: "'a kern_st_scheme \<Rightarrow> u32 \<times> 'a kern_st_scheme" where
  "plic_claim s =
     (case h_irqs (hart s) of
        [] \<Rightarrow> (0, s)
      | irq # irqs \<Rightarrow> (irq, upd_hart (\<lambda>h. h\<lparr>h_irqs := irqs\<rparr>) s))"

definition plic_complete :: "u32 \<Rightarrow> 'a kern_st_scheme \<Rightarrow> 'a kern_st_scheme" where
  "plic_complete irq s = plic_write (PLIC_SCLAIM (of_nat (h_id (hart s)))) irq s"

definition clockintr :: "'a kern_st_scheme \<Rightarrow> 'a kern_st_scheme" where
  "clockintr s = wakeup TicksChan (s\<lparr>ticks := ticks s + 1\<rparr>)"

definition devintr :: "'a kern_st_scheme \<Rightarrow> (int, 'a kern_st_scheme) res" where
  "devintr s =
     (let scause = h_scause (hart s) in
      if scause AND 0x8000000000000000 \<noteq> 0 \<and> scause AND 0xff = 9 then
        let (irq, s) = plic_claim s in
        bind (if irq = UART0_IRQ then uartintr s
              else if irq = VIRTIO0_IRQ then virtio_disk_intr s
              else if irq \<noteq> 0 then printf (Some (ascii ''unexpected interrupt irq=%d'' @ [10])) [ArgInt irq] s
              else Ok () s) (\<lambda>_ s.
        Ok 1 (if irq \<noteq> 0 then plic_complete irq s else s))
      else if scause = 0x8000000000000001 then
        let s = (if h_id (hart s) = 0 then clockintr s else s)
        in Ok 2 (upd_hart (\<lambda>h. h\<lparr>h_sip := h_sip h AND NOT 2\<rparr>) s)
      else Ok 0 s)"

section \<open>Traps\<close>

definition trapinithart :: "'a kern_st_scheme \<Rightarrow> 'a kern_st_scheme" where
  "trapinithart s = upd_hart (\<lambda>h. h\<lparr>h_stvec := sym_kernelvec s\<rparr>) s"

text \<open>\<open>usertrapret\<close> returns the page table register it passes to \<open>userret\<close> in the trampoline.\<close>

definition usertrapret :: "'a kern_st_scheme \<Rightarrow> (u64, 'a kern_st_scheme) res" where
  "usertrapret s =
     (let p = me s;
          s = s\<lparr>this_cpu := intr_off (this_cpu s)\<rparr>;
          s = upd_hart (\<lambda>h. h\<lparr>h_stvec := TRAMPOLINE + (sym_uservec s - sym_trampoline s)\<rparr>) s;
          s = tf_set p tf_kernel_satp (h_satp (hart s)) s;
          s = tf_set p tf_kernel_sp (p_kstack (procs s ! p) + PGSIZE) s;
          s = tf_set p tf_kernel_trap (sym_usertrap s) s;
          s = tf_set p tf_kernel_hartid (of_nat (h_id (hart s))) s;
          s = s\<lparr>this_cpu := (this_cpu s)\<lparr>sstatus := (sstatus (this_cpu s) AND NOT SSTATUS_SPP) OR SSTATUS_SPIE\<rparr>\<rparr>;
          s = upd_hart (\<lambda>h. h\<lparr>h_sepc := tf_get p tf_epc s\<rparr>) s
      in Ok (MAKE_SATP (p_pagetable (procs s ! p))) s)"

text \<open>
  How a trap from user space ends: the process has exited, it has given up the CPU (keeping the
  \<open>intena\<close> that \<open>sched\<close> saves, and \<open>usertrap_resume\<close> is the rest when it runs again), or it goes back to
  user space with a page table. In the first two cases the CPU is back in the scheduler.
\<close>

datatype trap_end = Exited | Yielded bool | ToUserSpace u64

definition usertrap_end :: "nat \<Rightarrow> int \<Rightarrow> 'a kern_st_scheme \<Rightarrow> (trap_end, 'a kern_st_scheme) res" where
  "usertrap_end p which_dev s =
     (if killed p s then bind (exit (-1) s) (\<lambda>_ s. Ok Exited s)
      else if which_dev = 2 then bind (yield s) (\<lambda>ie s. bind (scheduler_back s) (\<lambda>_ s. Ok (Yielded ie) s))
      else bind (usertrapret s) (\<lambda>satp s. Ok (ToUserSpace satp) s))"

definition usertrap_resume :: "bool \<Rightarrow> 'a kern_st_scheme \<Rightarrow> (trap_end, 'a kern_st_scheme) res" where
  "usertrap_resume ie s =
     bind (yield_resume ie s) (\<lambda>_ s. bind (usertrapret s) (\<lambda>satp s. Ok (ToUserSpace satp) s))"

definition usertrap :: "'a kern_st_scheme \<Rightarrow> (trap_end, 'a kern_st_scheme) res" where
  "usertrap s =
     (if sstatus (this_cpu s) AND SSTATUS_SPP \<noteq> 0 then Panic ''usertrap: not from user mode''
      else
        let s = trapinithart s; p = me s; s = tf_set p tf_epc (h_sepc (hart s)) s in
        if h_scause (hart s) = 8 then
          if killed p s then bind (exit (-1) s) (\<lambda>_ s. Ok Exited s)
          else
            let s = tf_set p tf_epc (tf_get p tf_epc s + 4) s;
                s = s\<lparr>this_cpu := intr_on (this_cpu s)\<rparr>
            in bind (syscall s) (\<lambda>_ s. if myproc s = None then Ok Exited s else usertrap_end p 0 s)
        else bind (devintr s) (\<lambda>which_dev s.
          if which_dev \<noteq> 0 then usertrap_end p which_dev s
          else
            bind (printf (Some (ascii ''usertrap(): unexpected scause %p pid=%d'' @ [10]))
                   [ArgPtr (h_scause (hart s)), ArgInt (p_pid (procs s ! p))] s) (\<lambda>_ s.
            bind (printf (Some (ascii ''            sepc=%p stval=%p'' @ [10]))
                   [ArgPtr (h_sepc (hart s)), ArgPtr (h_stval (hart s))] s) (\<lambda>_ s.
            usertrap_end p 0 (setkilled p s)))))"

text \<open>The end of \<open>kerneltrap\<close>: the registers that \<open>kernelvec\<close> returns with.\<close>

definition kerneltrap_restore :: "u64 \<Rightarrow> u64 \<Rightarrow> 'a kern_st_scheme \<Rightarrow> 'a kern_st_scheme" where
  "kerneltrap_restore sepc status s =
     upd_hart (\<lambda>h. h\<lparr>h_sepc := sepc\<rparr>) (s\<lparr>this_cpu := (this_cpu s)\<lparr>sstatus := status\<rparr>\<rparr>)"

text \<open>
  \<open>kerneltrap\<close>: \<open>Some ie\<close> if it gave up the CPU, in which case \<open>kerneltrap_resume\<close> is still to come with
  the \<open>intena\<close> that \<open>sched\<close> saved.
\<close>

definition kerneltrap :: "'a kern_st_scheme \<Rightarrow> (bool option, 'a kern_st_scheme) res" where
  "kerneltrap s =
     (let sepc = h_sepc (hart s); status = sstatus (this_cpu s); scause = h_scause (hart s) in
      if status AND SSTATUS_SPP = 0 then Panic ''kerneltrap: not from supervisor mode''
      else if intr_get (this_cpu s) then Panic ''kerneltrap: interrupts enabled''
      else bind (devintr s) (\<lambda>which_dev s.
        if which_dev = 0 then
          bind (printf (Some (ascii ''scause %p'' @ [10])) [ArgPtr scause] s) (\<lambda>_ s.
          bind (printf (Some (ascii ''sepc=%p stval=%p'' @ [10])) [ArgPtr (h_sepc (hart s)), ArgPtr (h_stval (hart s))] s) (\<lambda>_ s.
          Panic ''kerneltrap''))
        else if which_dev = 2 \<and> myproc s \<noteq> None \<and> p_state (mine s) = RUNNING
        then bind (yield s) (\<lambda>ie s. bind (scheduler_back s) (\<lambda>_ s. Ok (Some ie) s))
        else Ok None (kerneltrap_restore sepc status s)))"

definition kerneltrap_resume ::
    "bool \<Rightarrow> u64 \<Rightarrow> u64 \<Rightarrow> 'a kern_st_scheme \<Rightarrow> (unit, 'a kern_st_scheme) res" where
  "kerneltrap_resume ie sepc status s =
     bind (yield_resume ie s) (\<lambda>_ s. Ok () (kerneltrap_restore sepc status s))"

definition forkret :: "'a kern_st_scheme \<Rightarrow> (u64, 'a kern_st_scheme) res" where
  "forkret s =
     bind (release_cpu s) (\<lambda>_ s.
     bind (if forkret_first s then fsinit ROOTDEV (s\<lparr>forkret_first := False\<rparr>) else Ok () s) (\<lambda>_ s.
     usertrapret s))"

section \<open>Boot\<close>

definition MSTATUS_MPP_MASK :: u64 where "MSTATUS_MPP_MASK = push_bit 11 3"
definition MSTATUS_MPP_S :: u64 where "MSTATUS_MPP_S = push_bit 11 1"
definition MSTATUS_MIE :: u64 where "MSTATUS_MIE = push_bit 3 1"
definition SIE_SEIE :: u64 where "SIE_SEIE = push_bit 9 1"
definition SIE_STIE :: u64 where "SIE_STIE = push_bit 5 1"
definition SIE_SSIE :: u64 where "SIE_SSIE = push_bit 1 1"
definition MIE_MTIE :: u64 where "MIE_MTIE = push_bit 7 1"

text \<open>The machine-mode registers, the CLINT's timer registers and the hart's scratch area.\<close>

record mhart =
  mhartid :: u64
  mstatus :: u64
  mepc :: u64
  m_satp :: u64
  medeleg :: u64
  mideleg :: u64
  m_sie :: u64
  pmpaddr0 :: u64
  pmpcfg0 :: u64
  mscratch :: u64
  mtvec :: u64
  m_ie :: u64
  m_tp :: u64
  mtime :: u64
  mtimecmp :: u64
  timer_scratch :: "u64 list"

text \<open>\<open>scratch\<close> is the address of this hart's row of \<open>timer_scratch\<close>, \<open>timervec\<close> the assembly handler.\<close>

definition timerinit :: "u64 \<Rightarrow> u64 \<Rightarrow> mhart \<Rightarrow> mhart" where
  "timerinit scratch timervec h =
     (let interval = 1000000;
          h = h\<lparr>mtimecmp := mtime h + interval\<rparr>;
          h = h\<lparr>timer_scratch := (timer_scratch h)[3 := CLINT_MTIMECMP (mhartid h), 4 := interval]\<rparr>;
          h = h\<lparr>mscratch := scratch, mtvec := timervec\<rparr>;
          h = h\<lparr>mstatus := mstatus h OR MSTATUS_MIE\<rparr>
      in h\<lparr>m_ie := m_ie h OR MIE_MTIE\<rparr>)"

definition start :: "u64 \<Rightarrow> u64 \<Rightarrow> u64 \<Rightarrow> mhart \<Rightarrow> mhart" where
  "start main_addr scratch timervec h =
     (let x = (mstatus h AND NOT MSTATUS_MPP_MASK) OR MSTATUS_MPP_S;
          h = h\<lparr>mstatus := x, mepc := main_addr, m_satp := 0, medeleg := 0xffff, mideleg := 0xffff\<rparr>;
          h = h\<lparr>m_sie := m_sie h OR SIE_SEIE OR SIE_STIE OR SIE_SSIE\<rparr>;
          h = h\<lparr>pmpaddr0 := 0x3fffffffffffff, pmpcfg0 := 0xf\<rparr>;
          h = timerinit scratch timervec h
      in h\<lparr>m_tp := mhartid h\<rparr>)"

definition kvminit :: "'a kern_st_scheme \<Rightarrow> (unit, 'a kern_st_scheme) res" where
  "kvminit s = bind (kvmmake s) (\<lambda>pt s. Ok () (s\<lparr>kernel_pagetable := pt\<rparr>))"

definition kvminithart :: "'a kern_st_scheme \<Rightarrow> 'a kern_st_scheme" where
  "kvminithart s = upd_hart (\<lambda>h. h\<lparr>h_satp := MAKE_SATP (kernel_pagetable s)\<rparr>) s"

text \<open>\<open>main\<close> on the boot hart up to the scheduler; \<open>rd\<close> is what the disk's registers read as.\<close>

definition main_boot :: "mmio \<Rightarrow> 'a kern_st_scheme \<Rightarrow> (unit, 'a kern_st_scheme) res" where
  "main_boot rd s =
     bind (printf (Some [10]) [] (consoleinit s)) (\<lambda>_ s.
     bind (printf (Some (ascii ''xv6 kernel is booting'' @ [10])) [] s) (\<lambda>_ s.
     bind (printf (Some [10]) [] s) (\<lambda>_ s.
     bind (kinit s) (\<lambda>_ s.
     bind (kvminit s) (\<lambda>_ s.
     let s = kvminithart s; s = procinit s; s = trapinithart s; s = plicinit s; s = plicinithart s;
         s = binit s; s = iinit s
     in bind (virtio_disk_init rd s) (\<lambda>_ s. userinit s))))))"

definition main_other :: "'a kern_st_scheme \<Rightarrow> (unit, 'a kern_st_scheme) res" where
  "main_other s =
     bind (printf (Some (ascii ''hart %d starting'' @ [10])) [ArgInt (of_nat (h_id (hart s)))] s) (\<lambda>_ s.
     Ok () (plicinithart (trapinithart (kvminithart s))))"

end
