(* ===== verification/Grep.thy ===== *)
theory Grep
  imports Uart
begin

text \<open>
  The pattern matcher and the line filter of \<open>user/grep.c\<close>. A C string is the list of its characters
  without the terminator, so \<open>re[0] == '\\0'\<close> is the empty list, and \<open>re[1]\<close> of a one-character string
  is the terminator.
\<close>

section \<open>The matcher\<close>

function matchhere :: "u8 list \<Rightarrow> u8 list \<Rightarrow> bool" and matchstar :: "u8 \<Rightarrow> u8 list \<Rightarrow> u8 list \<Rightarrow> bool" where
  "matchhere re str =
     (case re of
        [] \<Rightarrow> True
      | r0 # re1 \<Rightarrow>
          if re1 \<noteq> [] \<and> hd re1 = 0x2a then matchstar r0 (tl re1) str
          else if r0 = 0x24 \<and> re1 = [] then str = []
          else if str \<noteq> [] \<and> (r0 = 0x2e \<or> r0 = hd str) then matchhere re1 (tl str)
          else False)"
| "matchstar c re str =
     (if matchhere re str then True
      else if str \<noteq> [] \<and> (hd str = c \<or> c = 0x2e) then matchstar c re (tl str)
      else False)"
  by pat_completeness auto
termination
  by (relation "measures [\<lambda>x. case x of Inl (re, str) \<Rightarrow> length re | Inr (c, re, str) \<Rightarrow> length re,
        \<lambda>x. case x of Inl (re, str) \<Rightarrow> length str | Inr (c, re, str) \<Rightarrow> length str,
        \<lambda>x. case x of Inl _ \<Rightarrow> 0 | Inr _ \<Rightarrow> 1]") (auto simp: neq_Nil_conv)

declare matchhere.simps [simp del] matchstar.simps [simp del]

fun match_any :: "u8 list \<Rightarrow> u8 list \<Rightarrow> bool" where
  "match_any re [] = matchhere re []"
| "match_any re (c # str) = (matchhere re (c # str) \<or> match_any re str)"

definition match :: "u8 list \<Rightarrow> u8 list \<Rightarrow> bool" where
  "match re str = (if re \<noteq> [] \<and> hd re = 0x5e then matchhere (tl re) str else match_any re str)"

section \<open>What a pattern means\<close>

datatype item = One u8 | Star u8 | End

fun items :: "u8 list \<Rightarrow> item list" where
  "items [] = []"
| "items [c] = (if c = 0x24 then [End] else [One c])"
| "items (c # d # re) = (if d = 0x2a then Star c # items re else One c # items (d # re))"

definition fits :: "u8 \<Rightarrow> u8 \<Rightarrow> bool" where
  "fits c x \<longleftrightarrow> c = 0x2e \<or> c = x"

text \<open>\<open>is\<close> takes \<open>str\<close> to the unmatched \<open>rest\<close>.\<close>

inductive consumes :: "item list \<Rightarrow> u8 list \<Rightarrow> u8 list \<Rightarrow> bool" where
  nil: "consumes [] str str"
| one: "fits c x \<Longrightarrow> consumes is str rest \<Longrightarrow> consumes (One c # is) (x # str) rest"
| star: "\<forall>x\<in>set run. fits c x \<Longrightarrow> consumes is str rest \<Longrightarrow> consumes (Star c # is) (run @ str) rest"
| eot: "consumes [End] [] []"

inductive_simps consumes_simps:
  "consumes [] str rest"
  "consumes (One c # is) str rest"
  "consumes [End] str rest"

inductive_cases consumes_StarE: "consumes (Star c # is) str rest"

lemma matchstar_run:
  assumes "matchhere re str" and "\<forall>x\<in>set run. fits c x"
  shows "matchstar c re (run @ str)"
  using assms
proof (induction run)
  case Nil
  then show ?case by (subst matchstar.simps) simp
next
  case (Cons x run)
  then show ?case by (subst matchstar.simps) (auto simp: fits_def)
qed

lemma matchstar_iff:
  "matchstar c re str \<longleftrightarrow> (\<exists>run rest. str = run @ rest \<and> (\<forall>x\<in>set run. fits c x) \<and> matchhere re rest)"
proof
  assume "matchstar c re str"
  then show "\<exists>run rest. str = run @ rest \<and> (\<forall>x\<in>set run. fits c x) \<and> matchhere re rest"
  proof (induction str)
    case Nil
    then show ?case by (subst (asm) matchstar.simps) (auto split: if_splits)
  next
    case (Cons x str)
    show ?case
    proof (cases "matchhere re (x # str)")
      case False
      then have "fits c x" "matchstar c re str"
        using Cons.prems by (subst (asm) matchstar.simps, auto simp: fits_def split: if_splits)+
      then obtain run rest where "str = run @ rest" "\<forall>x\<in>set run. fits c x" "matchhere re rest"
        using Cons.IH by blast
      then show ?thesis using \<open>fits c x\<close> by (intro exI [of _ "x # run"] exI [of _ rest]) simp
    qed (rule exI [of _ "[]"], simp)
  qed
qed (auto intro: matchstar_run)

lemma matchhere_iff: "matchhere re str \<longleftrightarrow> (\<exists>rest. consumes (items re) str rest)"
proof (induction re arbitrary: str rule: items.induct)
  case 1
  then show ?case by (simp add: matchhere.simps consumes_simps)
next
  case (2 c)
  then show ?case
    by (cases str) (auto simp: matchhere.simps [of "[c]"] matchhere.simps [of "[]"] consumes_simps fits_def)
next
  case (3 c d re)
  show ?case
  proof (cases "d = 0x2a")
    case True
    then have "matchhere (c # d # re) str = matchstar c re str" by (subst matchhere.simps) simp
    then show ?thesis
      using True 3(1) by (auto simp: matchstar_iff elim!: consumes_StarE intro: consumes.star)
  next
    case False
    then have "matchhere (c # d # re) str = (str \<noteq> [] \<and> fits c (hd str) \<and> matchhere (d # re) (tl str))"
      by (subst matchhere.simps) (simp add: fits_def)
    then show ?thesis using False 3(2) by (cases str) (auto simp: consumes_simps)
  qed
qed

lemma match_any_iff: "match_any re str \<longleftrightarrow> (\<exists>pre suf. str = pre @ suf \<and> matchhere re suf)"
proof (induction str)
  case (Cons c str)
  then show ?case by (auto simp: append_eq_Cons_conv Cons_eq_append_conv)
qed auto

text \<open>
  C30: The matcher implements its pattern language: \<open>match(re, str)\<close> holds exactly when some suffix of
  the str (the whole str, for a pattern that begins with \<open>^\<close>) starts with a string that the items
  of the pattern describe: a character, any character for \<open>.\<close>, a run for \<open>c*\<close>, the end of the str
  for a final \<open>$\<close>.
\<close>

theorem match_correct:
  "match re str \<longleftrightarrow>
     (if re \<noteq> [] \<and> hd re = 0x5e then \<exists>rest. consumes (items (tl re)) str rest
      else \<exists>pre suf rest. str = pre @ suf \<and> consumes (items re) suf rest)"
  by (auto simp: match_def matchhere_iff match_any_iff)

section \<open>The line filter\<close>

text \<open>\<open>strchr(p, '\\n')\<close> in the buffer: the line before the first newline, if no terminator comes first.\<close>

definition next_line :: "u8 list \<Rightarrow> (u8 list \<times> u8 list) option" where
  "next_line p =
     (let l = takeWhile (\<lambda>c. c \<noteq> 0 \<and> c \<noteq> 10) p; r = drop (length l) p in
      if r \<noteq> [] \<and> hd r = 10 then Some (l, tl r) else None)"

lemma next_line_length: "next_line p = Some (l, r) \<Longrightarrow> length r < length p"
  by (auto simp: next_line_def Let_def split: if_splits)

text \<open>The inner loop: what is written, and what stays in the buffer.\<close>

function grep_lines :: "u8 list \<Rightarrow> u8 list \<Rightarrow> u8 list \<times> u8 list" where
  "grep_lines pattern p =
     (case next_line p of
        None \<Rightarrow> ([], p)
      | Some (l, r) \<Rightarrow>
          let (out, rest) = grep_lines pattern r in ((if match pattern l then l @ [10] else []) @ out, rest))"
  by pat_completeness auto
termination
  by (relation "measure (\<lambda>(pattern, p). length p)") (auto simp: next_line_length)

declare grep_lines.simps [simp del]

definition GREP_BUF :: nat where "GREP_BUF = 1024"

text \<open>
  The outer loop over the results of \<open>read\<close>, each cut to the room in the buffer; an empty result ends
  the loop.
\<close>

fun grep :: "u8 list \<Rightarrow> u8 list \<Rightarrow> u8 list list \<Rightarrow> u8 list" where
  "grep pattern buf [] = []"
| "grep pattern buf (n # reads) =
     (let n = take (GREP_BUF - length buf - 1) n in
      if n = [] then []
      else let (out, rest) = grep_lines pattern (buf @ n) in out @ grep pattern rest reads)"

text \<open>The complete lines of some data, and what follows the last of them.\<close>

fun split_lines :: "u8 list \<Rightarrow> u8 list \<Rightarrow> u8 list list \<times> u8 list" where
  "split_lines cur [] = ([], cur)"
| "split_lines cur (c # cs) =
     (if c = 10 then let (ls, r) = split_lines [] cs in (cur # ls, r) else split_lines (cur @ [c]) cs)"

definition matching_lines :: "u8 list \<Rightarrow> u8 list \<Rightarrow> u8 list" where
  "matching_lines pattern data = concat (map (\<lambda>l. l @ [10]) (filter (match pattern) (fst (split_lines [] data))))"

lemma split_lines_append:
  "split_lines cur (xs @ ys) =
     (let (ls, r) = split_lines cur xs; (ls', r') = split_lines r ys in (ls @ ls', r'))"
  by (induction xs arbitrary: cur) (auto simp: Let_def split: prod.splits)

lemma split_lines_cur: "10 \<notin> set cur \<Longrightarrow> split_lines [] (cur @ xs) = split_lines cur xs"
proof -
  have "10 \<notin> set cur \<Longrightarrow> split_lines acc cur = ([], acc @ cur)" for acc
    by (induction cur arbitrary: acc) auto
  then show "10 \<notin> set cur \<Longrightarrow> ?thesis" by (simp add: split_lines_append)
qed

lemma snd_split_lines_Cons [simp]:
  "snd (split_lines cur (c # cs)) = snd (split_lines (if c = 10 then [] else cur @ [c]) cs)"
  by (simp add: split_beta)

lemma split_lines_rest: "10 \<notin> set cur \<Longrightarrow> 10 \<notin> set (snd (split_lines cur xs))"
proof (induction xs arbitrary: cur)
  case (Cons c xs)
  then show ?case using Cons.IH [of "[]"] Cons.IH [of "cur @ [c]"] by (simp del: split_lines.simps)
qed simp

lemma split_lines_set: "set (snd (split_lines cur xs)) \<subseteq> set cur \<union> set xs"
proof (induction xs arbitrary: cur)
  case (Cons c xs)
  then show ?case using Cons.IH [of "[]"] Cons.IH [of "cur @ [c]"] by (auto simp del: split_lines.simps)
qed simp

lemma next_line_Some:
  assumes "next_line p = Some (l, r)"
  shows "p = l @ 10 # r" "10 \<notin> set l"
proof -
  let ?P = "\<lambda>c. c \<noteq> 0 \<and> c \<noteq> 10"
  have l: "l = takeWhile ?P p" and d: "drop (length l) p \<noteq> []" "hd (drop (length l) p) = 10" "r = tl (drop (length l) p)"
    using assms by (auto simp: next_line_def Let_def split: if_splits)
  show "10 \<notin> set l" using l by (auto dest: set_takeWhileD)
  have "p = l @ drop (length l) p" using l by (metis takeWhile_eq_take append_take_drop_id)
  then show "p = l @ 10 # r" using d by (metis list.collapse)
qed

lemma next_line_None: "next_line p = None \<Longrightarrow> 0 \<notin> set p \<Longrightarrow> 10 \<notin> set p"
proof (induction p)
  case (Cons c p)
  then show ?case by (auto simp: next_line_def Let_def split: if_splits)
qed simp

lemma grep_lines_law:
  assumes "0 \<notin> set p"
  shows "grep_lines pattern p = (matching_lines pattern p, snd (split_lines [] p))"
  using assms
proof (induction pattern p rule: grep_lines.induct)
  case (1 pattern p)
  show ?case
  proof (cases "next_line p")
    case None
    then have "10 \<notin> set p" using 1(2) next_line_None by blast
    then have "split_lines [] p = ([], p)" using split_lines_cur [of p "[]"] by simp
    then show ?thesis using None by (simp add: grep_lines.simps [of _ p] matching_lines_def)
  next
    case (Some lr)
    obtain l r where lr: "lr = (l, r)" by force
    note p = next_line_Some [OF Some [unfolded lr]]
    have "split_lines [] p = (l # fst (split_lines [] r), snd (split_lines [] r))"
      using p split_lines_cur [OF p(2), of "10 # r"] by (simp add: split_beta)
    moreover have "grep_lines pattern r = (matching_lines pattern r, snd (split_lines [] r))"
      using 1(1) [OF Some lr [symmetric]] 1(2) p(1) by simp
    ultimately show ?thesis using Some lr by (simp add: grep_lines.simps [of _ p] matching_lines_def)
  qed
qed

text \<open>Reads that return data and never more than there is room for.\<close>

fun reads_fit :: "u8 list \<Rightarrow> u8 list list \<Rightarrow> bool" where
  "reads_fit buf [] = True"
| "reads_fit buf (n # reads) =
     (n \<noteq> [] \<and> length buf + length n < GREP_BUF \<and> reads_fit (snd (split_lines [] (buf @ n))) reads)"

lemma grep_law:
  assumes "reads_fit buf reads" "0 \<notin> set buf" "10 \<notin> set buf" "\<forall>n\<in>set reads. 0 \<notin> set n"
  shows "grep pattern buf reads = matching_lines pattern (buf @ concat reads)"
  using assms
proof (induction reads arbitrary: buf)
  case Nil
  then show ?case using split_lines_cur [of buf "[]"] by (auto simp: matching_lines_def)
next
  case (Cons n reads)
  let ?r = "snd (split_lines [] (buf @ n))"
  have g: "grep_lines pattern (buf @ n) = (matching_lines pattern (buf @ n), ?r)"
    using Cons.prems by (intro grep_lines_law) auto
  have r10: "10 \<notin> set ?r" by (rule split_lines_rest) simp
  have "set ?r \<subseteq> set (buf @ n)" using split_lines_set [of "[]" "buf @ n"] by simp
  then have "0 \<notin> set ?r" using Cons.prems by auto
  then have IH: "grep pattern ?r reads = matching_lines pattern (?r @ concat reads)"
    using Cons.IH [of ?r] Cons.prems r10 by auto
  have "matching_lines pattern (buf @ concat (n # reads)) =
      matching_lines pattern (buf @ n) @ matching_lines pattern (?r @ concat reads)"
    using split_lines_append [of "[]" "buf @ n" "concat reads"] split_lines_cur [OF r10, of "concat reads"]
    by (simp add: matching_lines_def split_beta)
  moreover have "take (GREP_BUF - length buf - 1) n = n" "n \<noteq> []" using Cons.prems(1) by auto
  then have "grep pattern buf (n # reads) = matching_lines pattern (buf @ n) @ grep pattern ?r reads"
    unfolding grep.simps Let_def by (simp add: g)
  ultimately show ?case using IH by simp
qed

text \<open>
  C31: \<open>grep\<close> writes exactly the matching complete lines of its input, in order, however the input is
  cut into reads, as long as the data has no NUL byte and each line fits the buffer with room for
  the next read.
\<close>

theorem grep_prints_matches:
  assumes "reads_fit [] reads" "\<forall>n\<in>set reads. 0 \<notin> set n"
  shows "grep pattern [] reads = matching_lines pattern (concat reads)"
  using grep_law [OF assms(1) _ _ assms(2)] by simp

theorem grep_prints_matches_witness:
  "grep [97] [] [[98, 97], [10, 99, 10, 97], [10]] = matching_lines [97] [98, 97, 10, 99, 10, 97, 10]"
  using grep_prints_matches [of "[[98, 97], [10, 99, 10, 97], [10]]" "[97]"] by (simp add: GREP_BUF_def)

end
