(* ===== verification/Vmlaws.thy ===== *)
theory Vmlaws
  imports Vm
begin

text \<open>
  What the page tables of \<open>kernel/vm.c\<close> promise their clients: mapping a page makes exactly that
  page translate and disturbs no other translation, and what \<open>copyout\<close> stores in user memory is
  what \<open>copyin\<close> reads back, across page boundaries, when the pages of the range are mapped to
  distinct frames that are not page-table pages.
\<close>

section \<open>Physical addresses of user bytes\<close>

definition phys :: "memory \<Rightarrow> u64 \<Rightarrow> u64 \<Rightarrow> u64" where
  "phys m pt va = uaddr m pt (PGROUNDDOWN va) + (va - PGROUNDDOWN va)"

definition vpages :: "u64 \<Rightarrow> nat \<Rightarrow> u64 set" where
  "vpages va n = (\<lambda>i. PGROUNDDOWN (va + of_nat i)) ` {..<n}"

text \<open>
  A set of virtual pages a process owns: each is mapped for the user, no two to the same frame, and
  no frame is a page-table page that translating one of them visits.
\<close>

definition owned_pages :: "memory \<Rightarrow> u64 \<Rightarrow> u64 set \<Rightarrow> bool" where
  "owned_pages m pt V \<longleftrightarrow> page_aligned pt \<and>
     (\<forall>a \<in> V. uaddr m pt a \<noteq> 0 \<and>
        (\<forall>b \<in> V. uaddr m pt a \<notin> pt_pages m pt b 2 \<and> (a \<noteq> b \<longrightarrow> uaddr m pt a \<noteq> uaddr m pt b)))"

lemma uaddr_aligned: "page_aligned (uaddr m pt va)"
  by (simp add: uaddr_def Let_def) (simp add: page_aligned_def)

lemma page_add:
  assumes "page_aligned p" and "k < 4096"
  shows "PGROUNDDOWN (p + of_nat k) = p" "unat (p + of_nat k) mod 4096 = k"
proof -
  have "unat (p + of_nat k) = unat p + k"
    using aligned_top [OF assms(1)] assms(2) by (intro unat_add_no_wrap) simp
  with assms show "PGROUNDDOWN (p + of_nat k) = p" "unat (p + of_nat k) mod 4096 = k"
    by (auto simp: word_unat_eq_iff unat_PGROUNDDOWN page_aligned_unat elim!: dvdE)
qed

lemma phys_split: "phys m pt va = uaddr m pt (PGROUNDDOWN va) + of_nat (unat va mod 4096)"
  by (metis page_offset phys_def of_nat_unat ucast_id)

lemma phys_page: "PGROUNDDOWN (phys m pt va) = uaddr m pt (PGROUNDDOWN va)"
  using page_add(1) [OF uaddr_aligned, of "unat va mod 4096"] by (simp add: phys_split)

lemma same_page:
  assumes "unat va mod 4096 + i < 4096" and "unat va + i < 2 ^ 64"
  shows "PGROUNDDOWN (va + of_nat i) = PGROUNDDOWN va"
    "phys m pt (va + of_nat i) = phys m pt va + of_nat i"
proof -
  have u: "unat (va + of_nat i) = unat va + i"
    using assms(2) by (intro unat_add_no_wrap) simp
  have "(unat va + i) div 4096 = unat va div 4096"
    using assms(1) by (subst div_add1_eq) simp
  with u show p: "PGROUNDDOWN (va + of_nat i) = PGROUNDDOWN va"
    by (simp add: word_unat_eq_iff unat_PGROUNDDOWN)
  show "phys m pt (va + of_nat i) = phys m pt va + of_nat i"
    unfolding phys_def p by simp
qed

lemma next_page:
  assumes "n = 4096 - unat va mod 4096"
  shows "PGROUNDDOWN va + PGSIZE = va + of_nat n"
proof -
  have "va + of_nat n = PGROUNDDOWN va + of_nat (unat va mod 4096) + of_nat n"
    using page_split [of va] by (rule arg_cong)
  also have "\<dots> = PGROUNDDOWN va + of_nat (unat va mod 4096 + n)"
    by (simp add: add.assoc)
  also have "unat va mod 4096 + n = 4096"
    using assms by simp
  finally show ?thesis by (simp add: PGSIZE_def)
qed

text \<open>Writing inside one frame that is no page-table page keeps the translation.\<close>

lemma walk0_mwrite:
  assumes "PGROUNDDOWN a \<notin> pt_pages m pt va l" and "unat a mod 4096 + length bs \<le> 4096" and "page_aligned pt"
  shows "walk0 (mwrite m a bs) pt va l = walk0 m pt va l \<and>
    pt_pages (mwrite m a bs) pt va l = pt_pages m pt va l \<and>
    (walk0 m pt va l \<noteq> 0 \<longrightarrow> slot (walk0 m pt va l) \<and> PGROUNDDOWN (walk0 m pt va l) \<in> pt_pages m pt va l)"
  using assms(1,3)
proof (induction l arbitrary: pt)
  case 0
  then show ?case by simp
next
  case (Suc l)
  have "load64 (mwrite m a bs) (pte_at pt (Suc l) va) = load64 m (pte_at pt (Suc l) va)"
    using Suc.prems assms(2) by (intro load64_other_page) auto
  with Suc show ?case by (auto simp: Let_def)
qed

lemma uaddr_mwrite:
  assumes "PGROUNDDOWN a \<notin> pt_pages m pt va 2" and "unat a mod 4096 + length bs \<le> 4096" and "page_aligned pt"
  shows "uaddr (mwrite m a bs) pt va = uaddr m pt va" "pt_pages (mwrite m a bs) pt va 2 = pt_pages m pt va 2"
proof -
  note w = walk0_mwrite [OF assms]
  then have "load64 (mwrite m a bs) (walk0 m pt va 2) = load64 m (walk0 m pt va 2)" if "walk0 m pt va 2 \<noteq> 0"
    using that assms(1,2) by (intro load64_other_page) auto
  with w show "uaddr (mwrite m a bs) pt va = uaddr m pt va" by (auto simp: uaddr_def Let_def)
  show "pt_pages (mwrite m a bs) pt va 2 = pt_pages m pt va 2" using w by simp
qed

lemma owned_pages_mwrite:
  assumes "owned_pages m pt V" and "va \<in> V" and "PGROUNDDOWN a = uaddr m pt va"
    and "unat a mod 4096 + length bs \<le> 4096"
  shows "owned_pages (mwrite m a bs) pt V" "\<And>b. b \<in> V \<Longrightarrow> uaddr (mwrite m a bs) pt b = uaddr m pt b"
proof -
  have u: "uaddr (mwrite m a bs) pt b = uaddr m pt b" "pt_pages (mwrite m a bs) pt b 2 = pt_pages m pt b 2"
    if "b \<in> V" for b
    using uaddr_mwrite [of a m pt b bs] assms that by (auto simp: owned_pages_def)
  then show "\<And>b. b \<in> V \<Longrightarrow> uaddr (mwrite m a bs) pt b = uaddr m pt b" by blast
  from u assms(1) show "owned_pages (mwrite m a bs) pt V" by (simp add: owned_pages_def)
qed

section \<open>Copying\<close>

lemma vpages_split:
  assumes "n \<le> k"
  shows "vpages va k = vpages va n \<union> vpages (va + of_nat n) (k - n)"
proof -
  have "(\<lambda>i. PGROUNDDOWN (va + of_nat i)) ` {n..<k} = vpages (va + of_nat n) (k - n)"
    unfolding vpages_def
  proof (intro equalityI subsetI; elim imageE)
    fix x i assume "x = PGROUNDDOWN (va + of_nat i)" "i \<in> {n..<k}"
    then show "x \<in> (\<lambda>i. PGROUNDDOWN (va + of_nat n + of_nat i)) ` {..<k - n}"
      by (intro image_eqI [of _ _ "i - n"]) (auto simp: of_nat_diff add.assoc)
  next
    fix x i assume "x = PGROUNDDOWN (va + of_nat n + of_nat i)" "i \<in> {..<k - n}"
    then show "x \<in> (\<lambda>i. PGROUNDDOWN (va + of_nat i)) ` {n..<k}"
      by (intro image_eqI [of _ _ "n + i"]) (auto simp: add.assoc)
  qed
  moreover have "{..<k} = {..<n} \<union> {n..<k}" using assms by auto
  ultimately show ?thesis by (simp add: vpages_def image_Un)
qed

lemma page_rest_eq: "page_rest va len = min (4096 - unat va mod 4096) len"
  by (simp add: page_rest_def unat_page_rest)

text \<open>One round of a copy: the bytes of the first page, and where the next page starts.\<close>

lemma copy_round:
  assumes "unat va + len < 2 ^ 64" and "n = page_rest va len"
  shows "i < n \<Longrightarrow> PGROUNDDOWN (va + of_nat i) = PGROUNDDOWN va"
    "i < n \<Longrightarrow> phys m pt (va + of_nat i) = phys m pt va + of_nat i"
    "n < len \<Longrightarrow> PGROUNDDOWN va + PGSIZE = va + of_nat n"
    "unat va mod 4096 + n \<le> 4096" "n \<le> len" "0 < len \<Longrightarrow> 0 < n"
proof -
  have n: "n \<le> 4096 - unat va mod 4096" "n \<le> len" "n < len \<longrightarrow> n = 4096 - unat va mod 4096"
    using assms(2) by (auto simp: page_rest_eq)
  have m: "unat va mod 4096 < 4096" by simp
  show "i < n \<Longrightarrow> PGROUNDDOWN (va + of_nat i) = PGROUNDDOWN va"
    "i < n \<Longrightarrow> phys m pt (va + of_nat i) = phys m pt va + of_nat i"
    using n m assms(1) by (auto intro!: same_page)
  show "n < len \<Longrightarrow> PGROUNDDOWN va + PGSIZE = va + of_nat n"
    using n by (intro next_page) simp
  show "unat va mod 4096 + n \<le> 4096" using n(1) m by linarith
  show "n \<le> len" by (rule n)
  show "0 < len \<Longrightarrow> 0 < n" using assms(2) page_rest_pos by simp
qed

lemma vpages_first:
  assumes "unat va + len < 2 ^ 64" and "n = page_rest va len" and "0 < len"
  shows "vpages va n = {PGROUNDDOWN va}"
  using copy_round(1) [OF assms(1,2)] copy_round(6) [OF assms(1,2)] assms(3) by (auto simp: vpages_def)

lemma copyin_loop_reads:
  assumes "\<forall>a \<in> vpages va len. uaddr (mem s) pt a \<noteq> 0" and "unat va + len < 2 ^ 64"
  shows "copyin_loop pt dst va len s =
    Ok (0, dst @ map (\<lambda>i. mem s (phys (mem s) pt (va + of_nat i))) [0..<len]) s"
  using assms
proof (induction len arbitrary: va dst rule: less_induct)
  case (less len)
  show ?case
  proof (cases "len = 0")
    case True
    then show ?thesis by (simp add: copyin_loop.simps)
  next
    case False
    define n where "n = page_rest va len"
    note r = copy_round [OF less.prems(2) n_def]
    let ?f = "\<lambda>va i. mem s (phys (mem s) pt (va + of_nat i))"
    have v: "vpages va len = insert (PGROUNDDOWN va) (vpages (va + of_nat n) (len - n))"
      using vpages_split [OF r(5)] vpages_first [OF less.prems(2) n_def] False by simp
    have u: "unat (va + of_nat n) = unat va + n"
      using less.prems(2) r(5) by (intro unat_add_no_wrap) simp
    have first: "mbytes (mem s) (phys (mem s) pt va) n = map (?f va) [0..<n]"
      by (simp add: mbytes_def r(2))
    have "copyin_loop pt (dst @ map (?f va) [0..<n]) (PGROUNDDOWN va + PGSIZE) (len - n) s =
        Ok (0, dst @ map (?f va) [0..<len]) s"
    proof (cases "n < len")
      case True
      have "copyin_loop pt (dst @ map (?f va) [0..<n]) (va + of_nat n) (len - n) s =
          Ok (0, (dst @ map (?f va) [0..<n]) @ map (?f (va + of_nat n)) [0..<len - n]) s"
        using less.prems v u r(5,6) False by (intro less.IH) auto
      moreover have "map (?f va) [0..<n] @ map (?f (va + of_nat n)) [0..<len - n] = map (?f va) [0..<len]"
        by (rule nth_equalityI) (use r(5) in \<open>auto simp: nth_append of_nat_diff\<close>)
      ultimately show ?thesis using r(3) True by simp
    next
      case False
      with r(5) show ?thesis by (simp add: copyin_loop.simps)
    qed
    then show ?thesis
      using less.prems(1) v False first
      by (subst copyin_loop.simps) (simp add: walkaddr_eq Let_def n_def [symmetric] phys_def [symmetric])
  qed
qed

lemma later_pages:
  assumes "unat va + len < 2 ^ 64" and "n = page_rest va len"
  shows "PGROUNDDOWN va \<notin> vpages (va + of_nat n) (len - n)"
proof
  assume "PGROUNDDOWN va \<in> vpages (va + of_nat n) (len - n)"
  then obtain j where j: "j < len - n" "PGROUNDDOWN va = PGROUNDDOWN (va + of_nat n + of_nat j)"
    by (auto simp: vpages_def)
  have "unat (va + of_nat (n + j)) = unat va + (n + j)"
    using assms(1) j(1) by (intro unat_add_no_wrap) simp
  then have "unat va div 4096 * 4096 = (unat va + (n + j)) div 4096 * 4096"
    using j(2) by (metis unat_PGROUNDDOWN add.assoc of_nat_add)
  moreover have "n + unat va mod 4096 = 4096"
    using assms(2) j(1) by (simp add: page_rest_eq)
  moreover obtain q r where "unat va div 4096 = q" "unat va mod 4096 = r" "unat va = q * 4096 + r"
    using div_mult_mod_eq by metis
  ultimately have "q * 4096 = ((q + 1) * 4096 + j) div 4096 * 4096"
    by (simp add: algebra_simps)
  then show False by simp
qed

text \<open>What one round of \<open>copyout\<close> does to memory.\<close>

lemma copyout_round:
  fixes s :: "'a kmem_st_scheme"
  assumes "owned_pages (mem s) pt V" and "vpages va (length bs) \<subseteq> V" and "unat va + length bs < 2 ^ 64"
    and "bs \<noteq> []" and n: "n = page_rest va (length bs)"
  shows "\<exists>m. copyout pt va bs s = copyout pt (PGROUNDDOWN va + PGSIZE) (drop n bs) (s\<lparr>mem := m\<rparr>) \<and>
    owned_pages m pt V \<and> (\<forall>a \<in> V. uaddr m pt a = uaddr (mem s) pt a) \<and>
    (\<forall>i < n. m (phys (mem s) pt (va + of_nat i)) = bs ! i) \<and>
    (\<forall>x. PGROUNDDOWN x \<noteq> uaddr (mem s) pt (PGROUNDDOWN va) \<longrightarrow> m x = mem s x)"
proof -
  let ?m0 = "mem s" and ?p = "phys (mem s) pt va"
  define m where "m = mwrite ?m0 ?p (take n bs)"
  note r = copy_round [OF assms(3) n]
  have inV: "PGROUNDDOWN va \<in> V"
    using assms(2,4) vpages_split [OF r(5)] vpages_first [OF assms(3) n] by auto
  have "unat ?p mod 4096 = unat va mod 4096"
    using page_add(2) [OF uaddr_aligned, of "unat va mod 4096"] by (simp add: phys_split)
  then have room: "unat ?p mod 4096 + length (take n bs) \<le> 4096"
    using r(4,5) by simp
  note o = owned_pages_mwrite [OF assms(1) inV phys_page room, folded m_def]
  have first: "m (phys ?m0 pt (va + of_nat i)) = bs ! i" if "i < n" for i
    using that r(2,5) mwrite_at [of i "take n bs" ?m0 ?p] assms(3) by (simp add: m_def)
  have outside: "m x = ?m0 x" if x: "PGROUNDDOWN x \<noteq> uaddr ?m0 pt (PGROUNDDOWN va)" for x
  proof (rule ccontr)
    assume "m x \<noteq> ?m0 x"
    then have lt: "unat (x - ?p) < n"
      using r(5) by (auto simp: m_def mwrite_def split: if_splits)
    then have "phys ?m0 pt (va + of_nat (unat (x - ?p))) = x"
      using r(2) [of "unat (x - ?p)" ?m0 pt] by simp
    then have "PGROUNDDOWN x = uaddr ?m0 pt (PGROUNDDOWN va)"
      using phys_page [of ?m0 pt "va + of_nat (unat (x - ?p))"] r(1) [OF lt] by metis
    with x show False ..
  qed
  have "uaddr ?m0 pt (PGROUNDDOWN va) \<noteq> 0" using assms(1) inV by (simp add: owned_pages_def)
  then have "copyout pt va bs s = copyout pt (PGROUNDDOWN va + PGSIZE) (drop n bs) (s\<lparr>mem := m\<rparr>)"
    using assms(4) by (subst copyout.simps) (simp add: walkaddr_eq Let_def n [symmetric] m_def phys_def)
  with o first outside show ?thesis by blast
qed

lemma copyout_writes:
  fixes s :: "'a kmem_st_scheme"
  assumes "owned_pages (mem s) pt V" and "vpages va (length bs) \<subseteq> V" and "unat va + length bs < 2 ^ 64"
  shows "\<exists>m. copyout pt va bs s = Ok 0 (s\<lparr>mem := m\<rparr>) \<and> (\<forall>a \<in> V. uaddr m pt a = uaddr (mem s) pt a) \<and>
    (\<forall>i < length bs. m (phys (mem s) pt (va + of_nat i)) = bs ! i) \<and>
    (\<forall>x. PGROUNDDOWN x \<notin> uaddr (mem s) pt ` vpages va (length bs) \<longrightarrow> m x = mem s x)"
  using assms
proof (induction bs arbitrary: va s rule: length_induct)
  case (1 bs)
  show ?case
  proof (cases "bs = []")
    case True
    then show ?thesis using "1.prems"(1) by (intro exI [of _ "mem s"]) (simp add: copyout.simps)
  next
    case False
    let ?len = "length bs" and ?m0 = "mem s"
    define n where "n = page_rest va ?len"
    define w where "w = va + of_nat n"
    note r = copy_round [OF "1.prems"(3) n_def]
    have v: "vpages va ?len = insert (PGROUNDDOWN va) (vpages w (?len - n))"
      using vpages_split [OF r(5)] vpages_first [OF "1.prems"(3) n_def] False by (simp add: w_def)
    have later: "PGROUNDDOWN va \<notin> vpages w (?len - n)"
      unfolding w_def by (rule later_pages [OF "1.prems"(3) n_def])
    have u: "unat w = unat va + n"
      using "1.prems"(3) r(5) unfolding w_def by (intro unat_add_no_wrap) simp
    obtain m where m: "copyout pt va bs s = copyout pt (PGROUNDDOWN va + PGSIZE) (drop n bs) (s\<lparr>mem := m\<rparr>)"
        "owned_pages m pt V" "\<And>a. a \<in> V \<Longrightarrow> uaddr m pt a = uaddr ?m0 pt a"
        "\<And>i. i < n \<Longrightarrow> m (phys ?m0 pt (va + of_nat i)) = bs ! i"
        "\<And>x. PGROUNDDOWN x \<noteq> uaddr ?m0 pt (PGROUNDDOWN va) \<Longrightarrow> m x = ?m0 x"
      using copyout_round [OF "1.prems" False n_def] by blast
    have "\<exists>m'. copyout pt w (drop n bs) (s\<lparr>mem := m\<rparr>) = Ok 0 (s\<lparr>mem := m, mem := m'\<rparr>) \<and>
      (\<forall>a \<in> V. uaddr m' pt a = uaddr m pt a) \<and>
      (\<forall>i < length (drop n bs). m' (phys m pt (w + of_nat i)) = drop n bs ! i) \<and>
      (\<forall>x. PGROUNDDOWN x \<notin> uaddr m pt ` vpages w (length (drop n bs)) \<longrightarrow> m' x = m x)"
      using "1.IH" [rule_format, of "drop n bs" "s\<lparr>mem := m\<rparr>" w] m(2) "1.prems"(2,3) v u r(5,6) False
      by simp
    moreover have "copyout pt (PGROUNDDOWN va + PGSIZE) (drop n bs) t = copyout pt w (drop n bs) t" for t :: "'a kmem_st_scheme"
      using r(3) by (cases "n < ?len") (simp_all add: w_def copyout.simps [of _ _ "[]"])
    ultimately obtain m' where m': "copyout pt va bs s = Ok 0 (s\<lparr>mem := m'\<rparr>)"
      "\<And>a. a \<in> V \<Longrightarrow> uaddr m' pt a = uaddr m pt a"
      "\<And>i. i < ?len - n \<Longrightarrow> m' (phys m pt (w + of_nat i)) = bs ! (n + i)"
      "\<And>x. PGROUNDDOWN x \<notin> uaddr m pt ` vpages w (?len - n) \<Longrightarrow> m' x = m x"
      using m(1) r(5) by auto
    have sub: "vpages w (?len - n) \<subseteq> V" "PGROUNDDOWN va \<in> V" using "1.prems"(2) v by auto
    have img: "uaddr m pt ` vpages w (?len - n) = uaddr ?m0 pt ` vpages w (?len - n)"
      using sub m(3) by (intro image_cong) auto
    have "m' (phys ?m0 pt (va + of_nat i)) = bs ! i" if i: "i < ?len" for i
    proof (cases "i < n")
      case True
      have "uaddr ?m0 pt (PGROUNDDOWN va) \<notin> uaddr ?m0 pt ` vpages w (?len - n)"
        using sub later "1.prems"(1) unfolding owned_pages_def by (metis (no_types, lifting) imageE subsetD)
      then have "m' (phys ?m0 pt (va + of_nat i)) = m (phys ?m0 pt (va + of_nat i))"
        using r(1) [OF True] by (intro m'(4)) (simp add: img phys_page)
      with m(4) True show ?thesis by simp
    next
      case False
      have e: "w + of_nat (i - n) = va + of_nat i" using False by (simp add: w_def of_nat_diff)
      have "PGROUNDDOWN (va + of_nat i) \<in> V" using "1.prems"(2) i by (auto simp: vpages_def)
      then show ?thesis using m'(3) [of "i - n", unfolded e] m(3) i False by (simp add: phys_def)
    qed
    moreover have "m' x = ?m0 x" if "PGROUNDDOWN x \<notin> uaddr ?m0 pt ` vpages va ?len" for x
      using that m'(4) [of x] m(5) [of x] v img by auto
    ultimately show ?thesis using m'(1,2) m(3) by (intro exI [of _ m']) simp
  qed
qed

text \<open>
  C5: User memory keeps what the kernel copies to it. When the pages of a range of user addresses
  are mapped to distinct frames none of which is a page-table page of the range, \<open>copyout\<close> of any
  bytes to the range returns 0, \<open>copyin\<close> of the same range then returns 0 and exactly those bytes,
  however many pages the range crosses, and no memory outside the frames of the range has changed.
\<close>

theorem copyout_copyin_roundtrip:
  assumes "owned_pages (mem s) pt (vpages va (length bs))" and "unat va + length bs < 2 ^ 64"
  shows "\<exists>t. copyout pt va bs s = Ok 0 t \<and> copyin pt va (length bs) t = Ok (0, bs) t \<and>
    (\<forall>x. PGROUNDDOWN x \<notin> uaddr (mem s) pt ` vpages va (length bs) \<longrightarrow> mem t x = mem s x)"
proof -
  let ?V = "vpages va (length bs)"
  obtain m where m: "copyout pt va bs s = Ok 0 (s\<lparr>mem := m\<rparr>)" "\<And>a. a \<in> ?V \<Longrightarrow> uaddr m pt a = uaddr (mem s) pt a"
      "\<And>i. i < length bs \<Longrightarrow> m (phys (mem s) pt (va + of_nat i)) = bs ! i"
      "\<And>x. PGROUNDDOWN x \<notin> uaddr (mem s) pt ` ?V \<Longrightarrow> m x = mem s x"
    using copyout_writes [OF assms(1) subset_refl assms(2)] by blast
  have "phys m pt (va + of_nat i) = phys (mem s) pt (va + of_nat i)" if "i < length bs" for i
    using m(2) that by (simp add: phys_def vpages_def)
  then have "map (\<lambda>i. m (phys m pt (va + of_nat i))) [0..<length bs] = bs"
    using m(3) by (intro nth_equalityI) simp_all
  moreover have "\<forall>a \<in> ?V. uaddr m pt a \<noteq> 0" using assms(1) m(2) by (simp add: owned_pages_def)
  ultimately have "copyin pt va (length bs) (s\<lparr>mem := m\<rparr>) = Ok (0, bs) (s\<lparr>mem := m\<rparr>)"
    using copyin_loop_reads [of va "length bs" "s\<lparr>mem := m\<rparr>" pt "[]"] assms(2) by (simp add: copyin_def)
  with m(1,4) show ?thesis by auto
qed

section \<open>Mapping a page\<close>

text \<open>No translation of the address is in force: a level is missing or the leaf entry is not valid.\<close>

definition unmapped :: "memory \<Rightarrow> u64 \<Rightarrow> u64 \<Rightarrow> nat \<Rightarrow> bool" where
  "unmapped m pt va l \<longleftrightarrow> walk0 m pt va l = 0 \<or> load64 m (walk0 m pt va l) AND PTE_V = 0"

lemma pte_at_nonzero: "page_aligned pt \<Longrightarrow> pt \<noteq> 0 \<Longrightarrow> pte_at pt l va \<noteq> 0"
  by (metis page_pte_at PGROUNDDOWN_id page_aligned_def mod_0)

text \<open>With a free page per missing level, the walk that allocates finds a slot.\<close>

lemma walk_loop_total:
  assumes "kmem_inv s ps" and "page_aligned pt" and "pt_pages (mem s) pt va l \<inter> set ps = {}"
    and "0 \<notin> pt_pages (mem s) pt va l" and "l \<le> length ps" and "unmapped (mem s) pt va l"
  shows "\<exists>e t. walk_loop pt va True l s = Ok e t \<and> e \<noteq> 0 \<and> load64 (mem t) e AND PTE_V = 0"
  using assms
proof (induction l arbitrary: pt s ps)
  case 0
  then show ?case by (simp add: unmapped_def pte_at_nonzero)
next
  case (Suc l)
  let ?e = "pte_at pt (Suc l) va"
  show ?case
  proof (cases "load64 (mem s) ?e AND PTE_V \<noteq> 0")
    case True
    then show ?thesis
      using Suc.prems Suc.IH [OF Suc.prems(1) PTE2PA_aligned, of "load64 (mem s) ?e"]
      by (auto simp: Let_def unmapped_def)
  next
    case False
    then have bad: "load64 (mem s) ?e AND PTE_V = 0" by simp
    obtain pg qs where ps: "ps = pg # qs" using Suc.prems(5) by (cases ps) auto
    obtain s1 where k: "kalloc s = Ok pg s1"
      using kalloc_step Suc.prems(1) unfolding ps by blast
    have ptn: "pt \<notin> set (pg # qs)" using Suc.prems(3) ps by auto
    note f = new_table_facts [OF Suc.prems(1) [unfolded ps] k Suc.prems(2) ptn bad]
    have pg: "page_aligned pg" "pg \<noteq> 0" "pg \<notin> set qs"
      using Suc.prems(1) ps by (auto simp: kmem_inv_def valid_page_def KERNBASE_def)
    have "unmapped (mem (new_table pg ?e s1)) pg va l"
      using f(5) pg(1) by (cases l) (simp_all add: unmapped_def)
    then have "\<exists>e t. walk_loop pg va True l (new_table pg ?e s1) = Ok e t \<and> e \<noteq> 0 \<and> load64 (mem t) e AND PTE_V = 0"
      using f(1,4) pg Suc.prems(5) ps by (intro Suc.IH [of _ qs]) auto
    then show ?thesis
      using k pg(2) bad by (simp add: Let_def new_table_def)
  qed
qed

lemma mapped_page_lt: "PGROUNDDOWN vb < MAXVA \<Longrightarrow> vb < MAXVA"
  by (auto simp: word_less_nat_alt unat_PGROUNDDOWN MAXVA_def)

text \<open>
  C11: Mapping a page. With two free pages for missing levels of the table, \<open>mappages\<close> of one user
  page at an address that has no mapping returns 0; every address of that page then translates to the
  frame, every address that was mapped before keeps its translation, and the free list stays well
  formed and gains no page.
\<close>

theorem mappages_maps_page:
  assumes "kmem_inv s ps" and "2 \<le> length ps" and "page_aligned pt"
    and "pt_pages (mem s) pt va 2 \<inter> insert 0 (set ps) = {}"
    and "page_aligned va" and "va < MAXVA" and "unmapped (mem s) pt va 2"
    and "pte_addr pa" and "unat perm < 2 ^ 10" and "perm AND PTE_U \<noteq> 0"
  shows "\<exists>t qs. mappages pt va PGSIZE pa perm s = Ok 0 t \<and> kmem_inv t qs \<and> set qs \<subseteq> set ps \<and>
    (\<forall>vb. PGROUNDDOWN vb = va \<longrightarrow> walkaddr pt vb t = Ok pa t) \<and>
    (\<forall>vb fr. walkaddr pt vb s = Ok fr s \<and> fr \<noteq> 0 \<and> pt_pages (mem s) pt vb 2 \<inter> set ps = {} \<longrightarrow>
       walkaddr pt vb t = Ok fr t)"
proof -
  have pp: "pt_pages (mem s) pt va 2 \<inter> set ps = {}" "0 \<notin> pt_pages (mem s) pt va 2" using assms(4) by auto
  obtain e u where w: "walk pt va True s = Ok e u" "e \<noteq> 0" "load64 (mem u) e AND PTE_V = 0"
    using walk_loop_total [OF assms(1,3) pp assms(2,7)] assms(6) by (auto simp: walk_def not_le [symmetric])
  obtain t where ok: "mappages pt va PGSIZE pa perm s = Ok 0 t"
    using w by (simp add: mappages_page [OF assms(5)])
  obtain qs where qs: "kmem_inv t qs" "set qs \<subseteq> set ps" "keeps_valid ps (mem s) (mem t)"
    using mappages_effect [OF assms(1,3) pp(1) assms(5) ok] by blast
  have "walkaddr pt vb t = Ok pa t" if "PGROUNDDOWN vb = va" for vb
    using mappages_translates [OF assms(1,3) pp(1) assms(5,8-10) ok that] mapped_page_lt assms(6) that by blast
  moreover have "walkaddr pt vb t = Ok fr t"
    if "walkaddr pt vb s = Ok fr s" "fr \<noteq> 0" "pt_pages (mem s) pt vb 2 \<inter> set ps = {}" for vb fr
    using that uaddr_keeps [OF qs(3) assms(3), of vb] by (simp add: walkaddr_eq)
  ultimately show ?thesis using ok qs by blast
qed

section \<open>A concrete address space\<close>

text \<open>A page table with the user pages 0x1000 and 0x2000 mapped, and two free pages.\<close>

definition table_mem :: memory where
  "table_mem =
     store64 (store64 (store64 (store64 (store64 (\<lambda>_. 0)
       0x80100000 (0x20040401))
       0x80101000 (0x20040801))
       0x80102008 (0x20040C15))
       0x80102010 (0x20041015))
       0x80105000 0x80106000"

definition table_machine :: kmem_st where
  "table_machine = \<lparr>mem = table_mem, freelist = 0x80105000, sym_end = 0x80022000, sym_etext = 0x80008000,
     sym_trampoline = 0x80007000\<rparr>"

lemma table_mem_at:
  "load64 table_mem 0x80100000 = 0x20040401"
  "load64 table_mem 0x80101000 = 0x20040801"
  "load64 table_mem 0x80102008 = 0x20040C15"
  "load64 table_mem 0x80102010 = 0x20041015"
  "load64 table_mem 0x80102018 = 0"
  "load64 table_mem 0x80105000 = 0x80106000"
  "load64 table_mem 0x80106000 = 0"
  by (simp_all add: table_mem_def load64_other_slot slot_def load64_zero)

lemma table_PTE2PA:
  "PTE2PA 0x20040401 = 0x80101000" "PTE2PA 0x20040801 = 0x80102000"
  "PTE2PA 0x20040C15 = 0x80103000" "PTE2PA 0x20041015 = 0x80104000"
  by (simp_all add: PTE2PA_def)

lemma table_flags:
  "0x20040401 AND PTE_V \<noteq> 0" "0x20040801 AND PTE_V \<noteq> 0"
  "0x20040C15 AND PTE_V \<noteq> 0" "0x20041015 AND PTE_V \<noteq> 0"
  "0x20040C15 AND PTE_U \<noteq> 0" "0x20041015 AND PTE_U \<noteq> 0"
  by (simp_all add: PTE_V_def PTE_U_def)

lemma table_pte_at:
  assumes "va \<in> {0x1000, 0x2000, 0x3000}"
  shows "pte_at 0x80100000 (Suc (Suc 0)) va = 0x80100000" "pte_at 0x80101000 (Suc 0) va = 0x80101000"
    "pte_at 0x80102000 0 va = 0x80102000 + va div 0x200"
  using assms by (elim insertE emptyE; simp add: pte_at_def PX_def PXMASK_def PXSHIFT_def PGSHIFT_def)+

lemma table_walk:
  assumes "va \<in> {0x1000, 0x2000, 0x3000}"
  shows "walk0 table_mem 0x80100000 va 2 = 0x80102000 + va div 0x200"
    "pt_pages table_mem 0x80100000 va 2 = {0x80100000, 0x80101000, 0x80102000}"
  by (simp_all add: numeral_2_eq_2 Let_def table_pte_at [OF assms] table_mem_at table_PTE2PA table_flags)

lemma table_uaddr:
  "uaddr table_mem 0x80100000 0x1000 = 0x80103000" "uaddr table_mem 0x80100000 0x2000 = 0x80104000"
  by (simp_all add: uaddr_def table_walk Let_def table_mem_at table_PTE2PA table_flags MAXVA_def)

lemma table_vpages: "vpages 0x1ffe 3 = {0x1000, 0x2000}"
  by (simp add: vpages_def lessThan_Suc eval_nat_numeral PGROUNDDOWN_def PGSIZE_def insert_commute)

theorem copyout_copyin_roundtrip_witness:
  "\<exists>t. copyout 0x80100000 0x1ffe [1, 2, 3] table_machine = Ok 0 t \<and>
     copyin 0x80100000 0x1ffe 3 t = Ok (0, [1, 2, 3]) t"
proof -
  have "owned_pages table_mem 0x80100000 {0x1000, 0x2000}"
    by (simp add: owned_pages_def table_uaddr table_walk page_aligned_def PGSIZE_def)
  then have o: "owned_pages (mem table_machine) 0x80100000 (vpages 0x1ffe (length [1, 2, 3 :: u8]))"
    using table_vpages by (simp add: table_machine_def numeral_3_eq_3)
  have "unat (0x1ffe :: u64) + length [1, 2, 3 :: u8] < 2 ^ 64" by simp
  from copyout_copyin_roundtrip [OF o this] show ?thesis by (auto simp: numeral_3_eq_3)
qed

lemma table_machine_inv: "kmem_inv table_machine [0x80105000, 0x80106000]"
  by (simp add: kmem_inv_def table_machine_def table_mem_at valid_page_def page_aligned_def PGSIZE_def
      KERNBASE_def PHYSTOP_def)

theorem mappages_maps_page_witness:
  "\<exists>t. mappages 0x80100000 0x3000 PGSIZE 0x80107000 (PTE_U OR PTE_R) table_machine = Ok 0 t \<and>
     walkaddr 0x80100000 0x3abc t = Ok 0x80107000 t \<and> walkaddr 0x80100000 0x1000 t = Ok 0x80103000 t"
proof -
  have l: "2 \<le> length [0x80105000, 0x80106000 :: u64]" by simp
  have al: "page_aligned 0x80100000" "page_aligned 0x3000" "pte_addr 0x80107000"
    by (simp_all add: page_aligned_def PGSIZE_def pte_addr_def)
  have disj: "pt_pages (mem table_machine) 0x80100000 va 2 \<inter> insert 0 (set [0x80105000, 0x80106000]) = {}"
    if "va \<in> {0x1000, 0x2000, 0x3000}" for va
    using table_walk(2) [OF that] by (simp add: table_machine_def)
  have un: "unmapped (mem table_machine) 0x80100000 0x3000 2"
    by (simp add: unmapped_def table_machine_def table_walk table_mem_at)
  have perm: "unat (PTE_U OR PTE_R) < 2 ^ 10" "(PTE_U OR PTE_R) AND PTE_U \<noteq> 0"
    by (simp_all add: PTE_U_def PTE_R_def)
  have lt: "0x3000 < MAXVA" by (simp add: MAXVA_def)
  have p: "PGROUNDDOWN 0x3abc = 0x3000" by (simp add: PGROUNDDOWN_def PGSIZE_def)
  have w: "walkaddr 0x80100000 0x1000 table_machine = Ok 0x80103000 table_machine"
    using table_uaddr(1) by (simp add: walkaddr_eq table_machine_def)
  show ?thesis
    using mappages_maps_page [OF table_machine_inv l al(1) disj al(2) lt un al(3) perm] p w disj [of "0x1000"] by auto
qed

end
