(* ===== verification/Proclaws.thy ===== *)
theory Proclaws
  imports Proc
begin

text \<open>
  What the operations of \<open>kernel/proc.c\<close> do to the process table. Memory management leaves the table
  alone (\<open>mem_only\<close>); from that, \<open>allocproc\<close> takes one free slot or none, \<open>freeproc\<close> clears one, and
  \<open>wait\<close>, \<open>wakeup\<close> and \<open>kill\<close> never start or stop a process.
\<close>

section \<open>Memory management keeps the process table\<close>

definition mem_only :: "'a kmem_st_scheme \<Rightarrow> 'a kmem_st_scheme \<Rightarrow> bool" where
  "mem_only s t \<longleftrightarrow> sym_end t = sym_end s \<and> sym_etext t = sym_etext s \<and>
     sym_trampoline t = sym_trampoline s \<and> kmem_st.more t = kmem_st.more s"

named_theorems mem_ops

lemma mem_only_refl [simp]: "mem_only s s"
  by (simp add: mem_only_def)

lemma mem_only_upd [simp]:
  "mem_only s (t\<lparr>mem := m\<rparr>) \<longleftrightarrow> mem_only s t" "mem_only s (t\<lparr>freelist := f\<rparr>) \<longleftrightarrow> mem_only s t"
  "mem_only (s\<lparr>mem := m\<rparr>) t \<longleftrightarrow> mem_only s t" "mem_only (s\<lparr>freelist := f\<rparr>) t \<longleftrightarrow> mem_only s t"
  by (simp_all add: mem_only_def)

lemma mem_only_trans [trans]: "mem_only s t \<Longrightarrow> mem_only t u \<Longrightarrow> mem_only s u"
  by (simp add: mem_only_def)

lemma mem_only_procs:
  fixes s t :: "'a proc_st_scheme"
  assumes "mem_only s t"
  shows "procs t = procs s" "this_cpu t = this_cpu s" "nextpid t = nextpid s" "initproc t = initproc s"
  using assms by (cases s; cases t; simp add: mem_only_def)+

lemma kalloc_mem [mem_ops]: "kalloc s = Ok x t \<Longrightarrow> mem_only s t"
  by (auto simp: kalloc_def Let_def)

lemma kfree_mem [mem_ops]: "kfree pa s = Ok x t \<Longrightarrow> mem_only s t"
  by (auto simp: kfree_def Let_def split: if_splits)

lemma walk_loop_mem: "walk_loop pt va al l s = Ok x t \<Longrightarrow> mem_only s t"
proof (induction l arbitrary: pt s)
  case (Suc l)
  then show ?case
    by (fastforce simp: Let_def bind_simps split: if_splits dest: kalloc_mem intro: mem_only_trans)
qed simp

lemma walk_mem [mem_ops]: "walk pt va al s = Ok x t \<Longrightarrow> mem_only s t"
  by (auto simp: walk_def split: if_splits dest: walk_loop_mem)

lemma mappages_loop_mem: "mappages_loop pt a lst pa perm s = Ok x t \<Longrightarrow> mem_only s t"
proof (induction pt a lst pa perm s rule: mappages_loop.induct)
  case (1 pt a lst pa perm s)
  obtain pte u where w: "walk pt a True s = Ok pte u"
    using 1(2) by (subst (asm) mappages_loop.simps) (auto simp: bind_simps)
  have "mem_only u t"
    using 1(2) 1(1) [OF w _ _ refl]
    by (subst (asm) mappages_loop.simps [of pt a lst pa perm s]) (auto simp: w Let_def split: if_splits)
  with walk_mem [OF w] show ?case by (rule mem_only_trans)
qed

lemma mappages_mem [mem_ops]: "mappages pt va sz pa perm s = Ok x t \<Longrightarrow> mem_only s t"
  by (auto simp: mappages_def split: if_splits dest: mappages_loop_mem)

lemma uvmunmap_loop_mem: "uvmunmap_loop pt a lst fr s = Ok x t \<Longrightarrow> mem_only s t"
proof (induction pt a lst fr s rule: uvmunmap_loop.induct)
  case (1 pt a lst fr s)
  show ?case
  proof (cases "a < lst")
    case False
    then show ?thesis using 1(2) by (simp add: uvmunmap_loop.simps)
  next
    case True
    then obtain pte u where w: "walk pt a False s = Ok pte u" and
      r: "pte \<noteq> 0" "\<not> load64 (mem u) pte AND PTE_V = 0" "PTE_FLAGS (load64 (mem u) pte) \<noteq> PTE_V"
        "bind (if fr then kfree (PTE2PA (load64 (mem u) pte)) u else Ok () u) (\<lambda>_ s.
          uvmunmap_loop pt (a + PGSIZE) lst fr (s\<lparr>mem := store64 (mem s) pte 0\<rparr>)) = Ok x t"
      using 1(2) by (subst (asm) uvmunmap_loop.simps) (auto simp: bind_simps Let_def split: if_splits)
    then obtain v where v: "(if fr then kfree (PTE2PA (load64 (mem u) pte)) u else Ok () u) = Ok () v"
      "uvmunmap_loop pt (a + PGSIZE) lst fr (v\<lparr>mem := store64 (mem v) pte 0\<rparr>) = Ok x t"
      by (auto simp: bind_simps)
    have "mem_only u v" using v(1) by (auto split: if_splits dest: kfree_mem)
    moreover have "mem_only v t" using 1(1) [OF True w r(1) refl r(2,3) v] by simp
    ultimately show ?thesis using walk_mem [OF w] by (blast intro: mem_only_trans)
  qed
qed

lemma uvmunmap_mem [mem_ops]: "uvmunmap pt va n fr s = Ok x t \<Longrightarrow> mem_only s t"
  by (auto simp: uvmunmap_def split: if_splits dest: uvmunmap_loop_mem)

lemma freewalk_fuel_mem:
  "freewalk_fuel n pt s = Ok x t \<Longrightarrow> mem_only s t"
  "freewalk_loop n pt k s = Ok y u \<Longrightarrow> mem_only s u"
proof (induction n pt s and n pt k s arbitrary: x t and y u rule: freewalk_fuel_freewalk_loop.induct)
  case (2 n pt s)
  then show ?case by (fastforce simp: bind_simps dest: kfree_mem intro: mem_only_trans)
next
  case (4 n pt k s)
  then show ?case by (fastforce simp: Let_def bind_simps split: if_splits intro: mem_only_trans)
qed simp_all

lemma uvmfree_mem [mem_ops]: "uvmfree pt sz s = Ok x t \<Longrightarrow> mem_only s t"
  by (auto simp: uvmfree_def freewalk_def bind_simps split: if_splits
      dest!: freewalk_fuel_mem uvmunmap_mem intro: mem_only_trans)

lemma uvmcreate_mem [mem_ops]: "uvmcreate s = Ok x t \<Longrightarrow> mem_only s t"
  by (auto simp: uvmcreate_def bind_simps split: if_splits dest: kalloc_mem)

lemma copyout_mem [mem_ops]: "copyout pt va bs s = Ok x t \<Longrightarrow> mem_only s t"
proof (induction pt va bs s rule: copyout.induct)
  case (1 pt va bs s)
  from 1(2) show ?case
    by (subst (asm) copyout.simps)
      (auto simp: Let_def bind_simps walkaddr_eq split: if_splits dest: 1(1) [OF _ refl walkaddr_eq])
qed

section \<open>Operations on the table\<close>

text \<open>
  How one process slot may change while a CPU runs an operation: the slots whose \<open>RUNNING\<close> mark
  differs from before are the ones the operation itself starts or stops.
\<close>

definition same_running :: "proc list \<Rightarrow> proc list \<Rightarrow> bool" where
  "same_running ps qs \<longleftrightarrow> length qs = length ps \<and>
     (\<forall>i < length ps. p_state (qs ! i) = RUNNING \<longleftrightarrow> p_state (ps ! i) = RUNNING)"

lemma same_running_refl [simp]: "same_running ps ps"
  by (simp add: same_running_def)

lemma same_running_upd:
  "p_state q = RUNNING \<longleftrightarrow> p_state (ps ! i) = RUNNING \<Longrightarrow> same_running ps (ps[i := q])"
  by (cases "i < length ps") (auto simp: same_running_def nth_list_update)

lemma upd_proc_running:
  "(p_state (f (procs s ! i)) = RUNNING \<longleftrightarrow> p_state (procs s ! i) = RUNNING) \<Longrightarrow>
   same_running (procs s) (procs (upd_proc i f s))"
  by (simp add: upd_proc_def same_running_upd)

lemma upd_proc_simps [simp]:
  "this_cpu (upd_proc i f s) = this_cpu s" "length (procs (upd_proc i f s)) = length (procs s)"
  "nextpid (upd_proc i f s) = nextpid s" "initproc (upd_proc i f s) = initproc s"
  by (simp_all add: upd_proc_def)

lemma upd_proc_at: "i < length (procs s) \<Longrightarrow> procs (upd_proc i f s) ! i = f (procs s ! i)"
  by (simp add: upd_proc_def)

lemma upd_proc_other: "j \<noteq> i \<Longrightarrow> procs (upd_proc i f s) ! j = procs s ! j"
  by (simp add: upd_proc_def)

lemma proc_pagetable_mem: "proc_pagetable p s = Ok x t \<Longrightarrow> mem_only s t"
  by (auto simp: proc_pagetable_def bind_simps mem_only_def split: if_splits dest!: mem_ops)

lemma proc_freepagetable_mem: "proc_freepagetable pt sz s = Ok x t \<Longrightarrow> mem_only s t"
  by (auto simp: proc_freepagetable_def bind_simps mem_only_def dest!: mem_ops)

lemma freeproc_effect:
  fixes s t :: "'a proc_st_scheme"
  assumes "freeproc p s = Ok x t"
  shows "this_cpu t = this_cpu s" "nextpid t = nextpid s" "length (procs t) = length (procs s)"
    "\<And>j. j \<noteq> p \<Longrightarrow> procs t ! j = procs s ! j"
    "p < length (procs s) \<Longrightarrow> p_state (procs t ! p) = UNUSED \<and> p_pid (procs t ! p) = 0 \<and>
       \<not> p_killed (procs t ! p) \<and> p_parent (procs t ! p) = None"
proof -
  let ?free = "\<lambda>q. q\<lparr>p_pagetable := 0, p_sz := 0, p_pid := 0, p_parent := None,
          p_name := (p_name q)[0 := 0], p_chan := NoChan, p_killed := False, p_xstate := 0, p_state := UNUSED\<rparr>"
  obtain u y where u': "(if p_trapframe (procs s ! p) \<noteq> 0 then kfree (p_trapframe (procs s ! p)) s else Ok () s) = Ok y u"
    and r: "(let s = upd_proc p (\<lambda>q. q\<lparr>p_trapframe := 0\<rparr>) u in
       bind (if p_pagetable (procs s ! p) \<noteq> 0 then proc_freepagetable (p_pagetable (procs s ! p)) (p_sz (procs s ! p)) s
           else Ok () s) (\<lambda>_ s. Ok () (upd_proc p ?free s))) = Ok x t"
    using assms unfolding freeproc_def bind_simps by blast
  have u: "mem_only s u" using u' by (auto split: if_splits dest: kfree_mem)
  obtain v where v: "mem_only (upd_proc p (\<lambda>q. q\<lparr>p_trapframe := 0\<rparr>) u) v" and t: "t = upd_proc p ?free v"
    using r unfolding Let_def bind_simps by (fastforce split: if_splits dest: proc_freepagetable_mem)
  note m = mem_only_procs [OF u] mem_only_procs [OF v]
  show "this_cpu t = this_cpu s" "nextpid t = nextpid s" "length (procs t) = length (procs s)"
    by (simp_all add: t m)
  show "\<And>j. j \<noteq> p \<Longrightarrow> procs t ! j = procs s ! j"
    by (simp add: t m upd_proc_other)
  show "p < length (procs s) \<Longrightarrow> p_state (procs t ! p) = UNUSED \<and> p_pid (procs t ! p) = 0 \<and>
       \<not> p_killed (procs t ! p) \<and> p_parent (procs t ! p) = None"
    by (simp add: t m upd_proc_at)
qed

lemma freeproc_running:
  fixes s t :: "'a proc_st_scheme"
  assumes "freeproc p s = Ok x t" and "p_state (procs s ! p) \<noteq> RUNNING"
  shows "same_running (procs s) (procs t)"
proof -
  note f = freeproc_effect [OF assms(1)]
  have "p_state (procs t ! i) = RUNNING \<longleftrightarrow> p_state (procs s ! i) = RUNNING" if "i < length (procs s)" for i
    using f(4) [of i] f(5) that assms(2) by (cases "i = p") auto
  with f(3) show ?thesis by (simp add: same_running_def)
qed

lemma find_unused_Some:
  "find_unused ps k = Some i \<Longrightarrow> k \<le> i \<and> i - k < length ps \<and> p_state (ps ! (i - k)) = UNUSED \<and>
     (\<forall>j < i - k. p_state (ps ! j) \<noteq> UNUSED)"
proof (induction ps arbitrary: k)
  case (Cons p ps)
  show ?case
  proof (cases "p_state p = UNUSED")
    case False
    with Cons have "Suc k \<le> i \<and> i - Suc k < length ps \<and> p_state (ps ! (i - Suc k)) = UNUSED \<and>
       (\<forall>j < i - Suc k. p_state (ps ! j) \<noteq> UNUSED)" by simp
    moreover from this have "i - k = Suc (i - Suc k)" by (metis Suc_diff_le diff_Suc_Suc)
    ultimately show ?thesis using False by (auto simp: less_Suc_eq_0_disj)
  qed (use Cons in simp)
qed simp

lemma find_unused_first:
  assumes "find_unused (procs s) 0 = Some i"
  shows "i < length (procs s)" "p_state (procs s ! i) = UNUSED" "\<And>j. j < i \<Longrightarrow> p_state (procs s ! j) \<noteq> UNUSED"
  using find_unused_Some [OF assms] by auto

text \<open>
  What \<open>allocproc\<close> does to the table: it fails with no slot taken, or it takes the first unused slot
  with the next pid, in state \<open>USED\<close>; the other slots are untouched. \<open>allocproc_at\<close> is the part under the
  lock of the slot.
\<close>

definition same_others :: "nat \<Rightarrow> 'a proc_st_scheme \<Rightarrow> 'a proc_st_scheme \<Rightarrow> bool" where
  "same_others p s t \<longleftrightarrow> this_cpu t = this_cpu s \<and> length (procs t) = length (procs s) \<and>
     (\<forall>j. j \<noteq> p \<longrightarrow> procs t ! j = procs s ! j)"

definition claimed :: "nat \<Rightarrow> 'a proc_st_scheme \<Rightarrow> 'a proc_st_scheme \<Rightarrow> bool" where
  "claimed p s t \<longleftrightarrow> same_others p s t \<and> nextpid t = nextpid s + 1 \<and> p_state (procs t ! p) = USED \<and>
     p_pid (procs t ! p) = nextpid s \<and> p_killed (procs t ! p) = p_killed (procs s ! p)"

lemma claimed_upd:
  assumes "claimed p s t" and "p < length (procs s)"
    and "\<And>q. p_state (f q) = p_state q \<and> p_pid (f q) = p_pid q \<and> p_killed (f q) = p_killed q"
  shows "claimed p s (upd_proc p f t)"
  using assms by (simp add: claimed_def same_others_def upd_proc_def)

lemma claimed_mem: "claimed p s t \<Longrightarrow> mem_only t u \<Longrightarrow> claimed p s u"
  by (simp add: claimed_def same_others_def mem_only_procs)

lemma claimed_freeproc:
  assumes "claimed p s u" and "freeproc p u = Ok x t" and "p < length (procs s)"
  shows "same_others p s t \<and> p_state (procs t ! p) = UNUSED"
  using freeproc_effect [OF assms(2)] assms(1,3) by (simp add: claimed_def same_others_def)

lemma allocproc_at_effect:
  assumes "allocproc_at p s = Ok r t" and "p < length (procs s)"
  shows "r = None \<and> same_others p s t \<and> p_state (procs t ! p) = UNUSED \<or> r = Some p \<and> claimed p s t"
proof -
  note p = assms(2)
  define s1 where "s1 = upd_proc p (\<lambda>q. q\<lparr>p_pid := nextpid s, p_state := USED\<rparr>) (s\<lparr>nextpid := nextpid s + 1\<rparr>)"
  have s1: "claimed p s s1" using p by (simp add: s1_def claimed_def same_others_def upd_proc_def)
  note unfold = assms(1) [unfolded allocproc_at_def allocpid_def Let_def prod.case, folded s1_def]
  obtain tf s2 where k: "kalloc s1 = Ok tf s2" using unfold by (auto simp: bind_simps)
  define s3 where "s3 = upd_proc p (\<lambda>q. q\<lparr>p_trapframe := tf\<rparr>) s2"
  have s3: "claimed p s s3"
    unfolding s3_def using claimed_mem [OF s1 kalloc_mem [OF k]] p by (rule claimed_upd) simp
  show ?thesis
  proof (cases "tf = 0")
    case True
    then have "freeproc p s3 = Ok () t \<and> r = None" using unfold k by (auto simp: bind_simps s3_def)
    then show ?thesis using claimed_freeproc [OF s3 _ p] by auto
  next
    case False
    note unfold = unfold [unfolded k bind.simps, folded s3_def]
    obtain pt s4 where q: "proc_pagetable p s3 = Ok pt s4" using unfold False by (auto simp: bind_simps)
    define s5 where "s5 = upd_proc p (\<lambda>q. q\<lparr>p_pagetable := pt\<rparr>) s4"
    have s5: "claimed p s s5"
      unfolding s5_def using claimed_mem [OF s3 proc_pagetable_mem [OF q]] p by (rule claimed_upd) simp
    note unfold = unfold [unfolded q bind.simps, folded s5_def]
    show ?thesis
    proof (cases "pt = 0")
      case True
      then have "freeproc p s5 = Ok () t \<and> r = None" using unfold \<open>tf \<noteq> 0\<close> by (auto simp: bind_simps)
      then show ?thesis using claimed_freeproc [OF s5 _ p] by auto
    next
      case False
      then have t: "r = Some p" "t = upd_proc p (\<lambda>q. q\<lparr>p_context :=
          \<lparr>ctx_ra = sym_forkret s5, ctx_sp = p_kstack q + PGSIZE, ctx_s = replicate 12 0\<rparr>\<rparr>) s5"
        using unfold \<open>tf \<noteq> 0\<close> by (auto simp: Let_def)
      have "claimed p s t" unfolding t(2) using s5 p by (rule claimed_upd) simp
      with t(1) show ?thesis by simp
    qed
  qed
qed

lemma allocproc_effect:
  assumes "allocproc s = Ok r t"
  shows "case r of
       None \<Rightarrow> t = s \<or> (\<exists>p < length (procs s). p_state (procs s ! p) = UNUSED \<and>
         same_others p s t \<and> p_state (procs t ! p) = UNUSED)
     | Some p \<Rightarrow> find_unused (procs s) 0 = Some p \<and> claimed p s t"
proof (cases "find_unused (procs s) 0")
  case None
  then show ?thesis using assms by (simp add: allocproc_def)
next
  case (Some p)
  then show ?thesis
    using assms allocproc_at_effect [of p s r t] find_unused_first(1,2) [OF Some] by (auto simp: allocproc_def)
qed

lemma same_others_running:
  assumes "same_others p s t" and "p_state (procs s ! p) \<noteq> RUNNING" and "p_state (procs t ! p) \<noteq> RUNNING"
  shows "same_running (procs s) (procs t)"
proof -
  have "p_state (procs t ! i) = RUNNING \<longleftrightarrow> p_state (procs s ! i) = RUNNING" for i
    using assms by (cases "i = p") (auto simp: same_others_def)
  with assms(1) show ?thesis by (simp add: same_others_def same_running_def)
qed

end
