(* ===== verification/Procpt.thy ===== *)
theory Procpt
  imports Vmlaws Proclaws
begin

text \<open>
  A new address space: what \<open>proc_pagetable\<close> of \<open>kernel/proc.c\<close> builds out of three free pages. The
  trampoline and the trap frame of the process are mapped at their fixed addresses, for the kernel
  only, and nothing else is.
\<close>

section \<open>The addresses of the trampoline and the trap frame\<close>

lemma top_PX:
  "PX 2 TRAPFRAME = PX 2 TRAMPOLINE" "PX 1 TRAPFRAME = PX 1 TRAMPOLINE" "PX 0 TRAPFRAME \<noteq> PX 0 TRAMPOLINE"
  by (simp_all add: PX_def PXSHIFT_def PGSHIFT_def PXMASK_def TRAPFRAME_def TRAMPOLINE_def MAXVA_def PGSIZE_def)

lemma top_pages:
  "page_aligned TRAMPOLINE" "page_aligned TRAPFRAME" "TRAMPOLINE < MAXVA" "TRAPFRAME < MAXVA"
  by (simp_all add: page_aligned_def TRAPFRAME_def TRAMPOLINE_def MAXVA_def PGSIZE_def)

lemma pte_at_PX: "page_aligned pt \<Longrightarrow> pte_at pt l va = pte_at pt l vb \<longleftrightarrow> PX l va = PX l vb"
  using unat_pte_at [of pt l va] unat_pte_at [of pt l vb] by (auto simp: pte_at_def word_unat_eq_iff)

section \<open>Three tables\<close>

text \<open>The levels of a table whose root \<open>r\<close> leads through \<open>a\<close> and \<open>b\<close> to the slots of the top pages.\<close>

definition top_tables :: "memory \<Rightarrow> u64 \<Rightarrow> u64 \<Rightarrow> u64 \<Rightarrow> bool" where
  "top_tables m r a b \<longleftrightarrow> page_aligned r \<and> page_aligned a \<and> page_aligned b \<and>
     r \<noteq> 0 \<and> b \<noteq> 0 \<and> r \<noteq> a \<and> r \<noteq> b \<and> a \<noteq> b \<and> pte_addr a \<and> pte_addr b \<and>
     (\<forall>x. slot x \<longrightarrow> PGROUNDDOWN x = r \<longrightarrow> load64 m x = (if x = pte_at r 2 TRAMPOLINE then PA2PTE a OR PTE_V else 0)) \<and>
     (\<forall>x. slot x \<longrightarrow> PGROUNDDOWN x = a \<longrightarrow> load64 m x = (if x = pte_at a 1 TRAMPOLINE then PA2PTE b OR PTE_V else 0))"

lemma entry_PA: "pte_addr p \<Longrightarrow> PTE2PA (PA2PTE p OR PTE_V) = p"
  by (intro PTE2PA_PA2PTE) (simp_all add: PTE_V_def)

lemma top_tables_walk:
  assumes "top_tables m r a b"
  shows "walk0 m r va 2 = (if PX 2 va = PX 2 TRAMPOLINE \<and> PX 1 va = PX 1 TRAMPOLINE then pte_at b 0 va else 0)"
  using assms
  by (simp add: top_tables_def numeral_2_eq_2 Let_def pte_at_PX entry_PA)

lemma top_tables_store:
  assumes "top_tables m r a b" and "PGROUNDDOWN x = b" and "slot x"
  shows "top_tables (store64 m x v) r a b"
proof -
  have "load64 (store64 m x v) y = load64 m y" if "slot y" "PGROUNDDOWN y \<noteq> b" for y
    using that assms(2,3) by (intro load64_other_slot) auto
  with assms(1) show ?thesis by (simp add: top_tables_def)
qed

lemma new_top_tables:
  assumes "kmem_inv s (a # b # ps)" and "page_aligned r" and "r \<noteq> 0" and "r \<notin> set (a # b # ps)"
    and "\<And>x. slot x \<Longrightarrow> PGROUNDDOWN x = r \<Longrightarrow> load64 (mem s) x = 0"
  shows "\<exists>t. walk_loop r TRAMPOLINE True 2 s = Ok (pte_at b 0 TRAMPOLINE) t \<and> kmem_inv t ps \<and>
    top_tables (mem t) r a b \<and> (\<forall>x. slot x \<longrightarrow> PGROUNDDOWN x = b \<longrightarrow> load64 (mem t) x = 0)"
proof -
  let ?e2 = "pte_at r (Suc (Suc 0)) TRAMPOLINE" and ?e1 = "pte_at a (Suc 0) TRAMPOLINE"
  have pg: "page_aligned a" "page_aligned b" "a \<noteq> 0" "b \<noteq> 0" "a \<noteq> b" "a \<notin> set (b # ps)" "valid_page s a" "valid_page s b"
    using assms(1) by (auto simp: kmem_inv_def valid_page_def KERNBASE_def)
  obtain s1 where k1: "kalloc s = Ok a s1" using kalloc_step assms(1) by blast
  have z2: "load64 (mem s) ?e2 AND PTE_V = 0" using assms(2,5) by simp
  define s2 where "s2 = new_table a ?e2 s1"
  note f2 = new_table_facts [OF assms(1) k1 assms(2,4) z2, folded s2_def]
  obtain s3 where k3: "kalloc s2 = Ok b s3" using kalloc_step f2(1) by blast
  have z1: "load64 (mem s2) ?e1 AND PTE_V = 0" using f2(5) pg(1) by simp
  define s4 where "s4 = new_table b ?e1 s3"
  note f4 = new_table_facts [OF f2(1) k3 pg(1,6) z1, folded s4_def]
  have ne: "a \<noteq> r" "b \<noteq> r" using assms(4) by auto
  have root: "load64 (mem s4) x = (if x = ?e2 then PA2PTE a OR PTE_V else 0)"
    if x: "slot x" "PGROUNDDOWN x = r" for x
  proof -
    have "x \<noteq> ?e1" using x(2) ne pg(1) page_pte_at by metis
    then have "load64 (mem s4) x = load64 (mem s2) x" using f4(6) [OF x(1)] x(2) ne by auto
    then show ?thesis using f2(3) f2(6) [OF x(1)] x ne assms(5) [OF x] by auto
  qed
  have mid: "load64 (mem s4) x = (if x = ?e1 then PA2PTE b OR PTE_V else 0)"
    if x: "slot x" "PGROUNDDOWN x = a" for x
    using f4(3) f4(6) [OF x(1)] f2(5) [OF x] x pg by auto
  have "top_tables (mem s4) r a b"
    using root mid pg assms(2,3) ne valid_page_pte_addr
    by (auto simp: top_tables_def numeral_2_eq_2)
  moreover have "walk_loop r TRAMPOLINE True 2 s = Ok (pte_at b 0 TRAMPOLINE) s4"
    using k1 k3 z2 z1 pg(3,4) by (simp add: numeral_2_eq_2 Let_def s2_def s4_def new_table_def)
  ultimately show ?thesis using f4(1,5) by blast
qed

section \<open>The page table of a new process\<close>

definition leaf_entry :: "memory \<Rightarrow> u64 \<Rightarrow> u64 \<Rightarrow> u64" where
  "leaf_entry m pt va = (let e = walk0 m pt va 2 in if e = 0 then 0 else load64 m e)"

lemma walk_loop_found: "walk0 (mem s) pt va l \<noteq> 0 \<Longrightarrow> walk_loop pt va al l s = Ok (walk0 (mem s) pt va l) s"
  by (induction l arbitrary: pt) (auto simp: Let_def split: if_splits)

lemma mappages_found:
  assumes "page_aligned va" and "va < MAXVA" and "walk_loop pt va True 2 s = Ok e t" and "e \<noteq> 0"
    and "load64 (mem t) e = 0"
  shows "mappages pt va PGSIZE pa perm s = Ok 0 (t\<lparr>mem := store64 (mem t) e (PA2PTE pa OR perm OR PTE_V)\<rparr>)"
  using assms by (simp add: mappages_page walk_def not_le)

lemma uvmcreate_zero:
  assumes "kmem_inv s (r # ps)"
  shows "\<exists>t. uvmcreate s = Ok r t \<and> kmem_inv t ps \<and> mem_only s t \<and> (\<forall>x. slot x \<longrightarrow> PGROUNDDOWN x = r \<longrightarrow> load64 (mem t) x = 0)"
proof -
  have r: "page_aligned r" "r \<noteq> 0" "r \<notin> set ps"
    using assms by (auto simp: kmem_inv_def valid_page_def KERNBASE_def)
  obtain u where u: "kalloc s = Ok r u" "kmem_inv u ps" using kalloc_step [OF assms] by blast
  let ?t = "u\<lparr>mem := mwrite (mem u) r (replicate 4096 0)\<rparr>"
  have "uvmcreate s = Ok r ?t" using u(1) r(2) by (simp add: uvmcreate_def memset_page)
  moreover have "kmem_inv ?t ps"
    using u(2) r by (intro kmem_inv_mwrite) (simp_all add: PGROUNDDOWN_id page_aligned_unat)
  moreover have "load64 (mem ?t) x = 0" if "slot x" "PGROUNDDOWN x = r" for x
    using that r(1) by (simp add: load64_zeroed)
  moreover have "mem_only s ?t" using kalloc_mem [OF u(1)] by simp
  ultimately show ?thesis by blast
qed

lemma proc_pagetable_builds:
  fixes s :: "'a proc_st_scheme"
  assumes "kmem_inv s (r # a # b # ps)"
  shows "\<exists>t. proc_pagetable p s = Ok r t \<and> kmem_inv t ps \<and> top_tables (mem t) r a b \<and>
    (\<forall>x. slot x \<longrightarrow> PGROUNDDOWN x = b \<longrightarrow> load64 (mem t) x =
      (if x = pte_at b 0 TRAMPOLINE then PA2PTE (sym_trampoline s) OR (PTE_R OR PTE_X) OR PTE_V
       else if x = pte_at b 0 TRAPFRAME then PA2PTE (p_trapframe (procs s ! p)) OR (PTE_R OR PTE_W) OR PTE_V else 0))"
proof -
  let ?T = "pte_at b 0 TRAMPOLINE" and ?F = "pte_at b 0 TRAPFRAME"
  have r: "page_aligned r" "r \<noteq> 0" "r \<notin> set (a # b # ps)" "page_aligned b" "b \<notin> set ps" "b \<noteq> 0"
    using assms by (auto simp: kmem_inv_def valid_page_def KERNBASE_def)
  obtain s1 where s1: "uvmcreate s = Ok r s1" "kmem_inv s1 (a # b # ps)" "mem_only s s1"
      "\<And>x. slot x \<Longrightarrow> PGROUNDDOWN x = r \<Longrightarrow> load64 (mem s1) x = 0"
    using uvmcreate_zero [OF assms] by blast
  obtain t1 where t1: "walk_loop r TRAMPOLINE True 2 s1 = Ok ?T t1" "kmem_inv t1 ps" "top_tables (mem t1) r a b"
      "\<And>x. slot x \<Longrightarrow> PGROUNDDOWN x = b \<Longrightarrow> load64 (mem t1) x = 0"
    using new_top_tables [OF s1(2) r(1-3) s1(4)] by blast
  define u1 where "u1 = t1\<lparr>mem := store64 (mem t1) ?T (PA2PTE (sym_trampoline s1) OR (PTE_R OR PTE_X) OR PTE_V)\<rparr>"
  have ne: "?F \<noteq> ?T" using r(4) top_PX(3) by (simp add: pte_at_PX)
  have m1: "mappages r TRAMPOLINE PGSIZE (sym_trampoline s1) (PTE_R OR PTE_X) s1 = Ok 0 u1"
    unfolding u1_def using top_pages(1,3) t1(1,4) r(4,6) by (intro mappages_found) (simp_all add: pte_at_nonzero)
  have tt: "top_tables (mem u1) r a b"
    unfolding u1_def using top_tables_store [OF t1(3)] r(4) by simp
  have w: "walk0 (mem u1) r TRAPFRAME 2 = ?F" using top_tables_walk [OF tt] top_PX by simp
  have l: "load64 (mem u1) ?F = 0" using t1(4) r(4) ne by (simp add: u1_def load64_other_slot)
  define u2 where "u2 = u1\<lparr>mem := store64 (mem u1) ?F (PA2PTE (p_trapframe (procs u1 ! p)) OR (PTE_R OR PTE_W) OR PTE_V)\<rparr>"
  have m2: "mappages r TRAPFRAME PGSIZE (p_trapframe (procs u1 ! p)) (PTE_R OR PTE_W) u1 = Ok 0 u2"
    unfolding u2_def using top_pages(2,4) walk_loop_found [of u1 r TRAPFRAME 2 True] w l r(4,6)
    by (intro mappages_found) (simp_all add: pte_at_nonzero)
  have "mem_only s u1" using mem_only_trans [OF s1(3) mappages_mem [OF m1]] .
  then have eqs: "procs u1 = procs s" "sym_trampoline s1 = sym_trampoline s"
    using mem_only_procs(1) s1(3) by (auto simp: mem_only_def)
  have "kmem_inv u1 ps" unfolding u1_def using t1(2) r(4,5) by (intro kmem_inv_store64) simp_all
  then have "kmem_inv u2 ps" unfolding u2_def using r(4,5) by (intro kmem_inv_store64) simp_all
  moreover have "proc_pagetable p s = Ok r u2"
    using s1(1) m1 m2 r(2) by (simp add: proc_pagetable_def)
  moreover have "top_tables (mem u2) r a b" unfolding u2_def using top_tables_store [OF tt] r(4) by simp
  moreover have "load64 (mem u2) x = (if x = ?T then PA2PTE (sym_trampoline s) OR (PTE_R OR PTE_X) OR PTE_V
       else if x = ?F then PA2PTE (p_trapframe (procs s ! p)) OR (PTE_R OR PTE_W) OR PTE_V else 0)"
    if "slot x" "PGROUNDDOWN x = b" for x
    using that t1(4) [OF that] ne r(4) eqs by (auto simp: u2_def u1_def load64_other_slot)
  ultimately show ?thesis by blast
qed

lemma kernel_entry_bits:
  assumes "perm \<in> {PTE_R OR PTE_X, PTE_R OR PTE_W}"
  shows "(PA2PTE pa OR perm OR PTE_V) AND PTE_U = 0"
proof (rule bit_word_eqI)
  fix n assume "n < LENGTH(64)"
  show "bit ((PA2PTE pa OR perm OR PTE_V) AND PTE_U) n = bit (0 :: u64) n"
    using assms
    by (auto simp: bit_and_iff bit_or_iff bit_PTE_U PA2PTE_def bit_push_bit_iff PTE_R_def PTE_X_def PTE_W_def PTE_V_def bit_1_iff)
qed

text \<open>
  C12: A new address space exposes nothing. With three free pages, \<open>proc_pagetable\<close> returns a page table
  in which the trampoline page is mapped to the trampoline code, readable and executable, and the trap
  frame page to the trap frame of the process, readable and writable; no other address has an entry, and
  user code can reach no address at all.
\<close>

theorem proc_pagetable_isolates:
  fixes s :: "'a proc_st_scheme"
  assumes "kmem_inv s (r # a # b # ps)"
  shows "\<exists>t. proc_pagetable p s = Ok r t \<and> kmem_inv t ps \<and>
    leaf_entry (mem t) r TRAMPOLINE = (PA2PTE (sym_trampoline s) OR (PTE_R OR PTE_X) OR PTE_V) \<and>
    leaf_entry (mem t) r TRAPFRAME = (PA2PTE (p_trapframe (procs s ! p)) OR (PTE_R OR PTE_W) OR PTE_V) \<and>
    (\<forall>va < MAXVA. PGROUNDDOWN va \<notin> {TRAMPOLINE, TRAPFRAME} \<longrightarrow> leaf_entry (mem t) r va = 0) \<and>
    (\<forall>va. walkaddr r va t = Ok 0 t)"
proof -
  let ?T = "pte_at b 0 TRAMPOLINE" and ?F = "pte_at b 0 TRAPFRAME"
  obtain t where t: "proc_pagetable p s = Ok r t" "kmem_inv t ps" "top_tables (mem t) r a b"
    "\<And>x. slot x \<Longrightarrow> PGROUNDDOWN x = b \<Longrightarrow> load64 (mem t) x =
      (if x = ?T then PA2PTE (sym_trampoline s) OR (PTE_R OR PTE_X) OR PTE_V
       else if x = ?F then PA2PTE (p_trapframe (procs s ! p)) OR (PTE_R OR PTE_W) OR PTE_V else 0)"
    using proc_pagetable_builds [OF assms, of p] by blast
  have b: "page_aligned b" "b \<noteq> 0" using t(3) by (auto simp: top_tables_def)
  note w = top_tables_walk [OF t(3)]
  have leaf: "leaf_entry (mem t) r va =
      (if PX 2 va = PX 2 TRAMPOLINE \<and> PX 1 va = PX 1 TRAMPOLINE then load64 (mem t) (pte_at b 0 va) else 0)" for va
    using w pte_at_nonzero [OF b] by (simp add: leaf_entry_def)
  have ne: "?F \<noteq> ?T" using b(1) top_PX(3) by (simp add: pte_at_PX)
  have other: "leaf_entry (mem t) r va = 0" if va: "va < MAXVA" "PGROUNDDOWN va \<notin> {TRAMPOLINE, TRAPFRAME}" for va
  proof (cases "PX 2 va = PX 2 TRAMPOLINE \<and> PX 1 va = PX 1 TRAMPOLINE")
    case True
    have "PX 0 va \<noteq> PX 0 TRAMPOLINE"
      using True PX_inject [OF va(1) top_pages(3)] va(2) PGROUNDDOWN_id [OF top_pages(1)] by auto
    moreover have "PX 0 va \<noteq> PX 0 TRAPFRAME"
      using True PX_inject [OF va(1) top_pages(4)] va(2) PGROUNDDOWN_id [OF top_pages(2)] top_PX by auto
    ultimately show ?thesis using t(4) [of "pte_at b 0 va"] b(1) leaf [of va] by (simp add: pte_at_PX)
  qed (auto simp: leaf)
  have none: "uaddr (mem t) r va = 0" for va
    using w [of va] t(4) [of "pte_at b 0 va"] b(1) kernel_entry_bits by (auto simp: uaddr_def Let_def)
  have "leaf_entry (mem t) r TRAMPOLINE = (PA2PTE (sym_trampoline s) OR (PTE_R OR PTE_X) OR PTE_V)"
    "leaf_entry (mem t) r TRAPFRAME = (PA2PTE (p_trapframe (procs s ! p)) OR (PTE_R OR PTE_W) OR PTE_V)"
    using leaf t(4) b(1) ne top_PX by simp_all
  with t(1,2) other none show ?thesis by (auto simp: walkaddr_eq)
qed

text \<open>With a free slot and four free pages, \<open>allocproc\<close> takes the slot.\<close>

lemma allocproc_succeeds:
  fixes s :: "'a proc_st_scheme"
  assumes "kmem_inv s (tf # r # a # b # ps)" and "find_unused (procs s) 0 = Some p"
  shows "\<exists>t. allocproc s = Ok (Some p) t \<and> claimed p s t"
proof -
  let ?s = "upd_proc p (\<lambda>q. q\<lparr>p_pid := nextpid s, p_state := USED\<rparr>) (s\<lparr>nextpid := nextpid s + 1\<rparr>)"
  have "kmem_inv ?s (tf # r # a # b # ps)"
    using assms(1) by (simp add: kmem_inv_def upd_proc_def valid_page_def)
  then obtain s2 where k: "kalloc ?s = Ok tf s2" "kmem_inv s2 (r # a # b # ps)"
    using kalloc_step by blast
  let ?s3 = "upd_proc p (\<lambda>q. q\<lparr>p_trapframe := tf\<rparr>) s2"
  have "kmem_inv ?s3 (r # a # b # ps)" using k(2) by (simp add: kmem_inv_def upd_proc_def valid_page_def)
  then obtain s4 where q: "proc_pagetable p ?s3 = Ok r s4" using proc_pagetable_builds by blast
  have "tf \<noteq> 0" "r \<noteq> 0" using assms(1) by (auto simp: kmem_inv_def valid_page_def KERNBASE_def)
  then obtain t where "allocproc s = Ok (Some p) t"
    using assms(2) k(1) q by (simp add: allocproc_def allocproc_at_def allocpid_def Let_def)
  with allocproc_effect [OF this] show ?thesis by simp
qed

section \<open>A machine with free pages\<close>

definition pool_mem :: memory where
  "pool_mem = store64 (store64 (store64 (store64 (\<lambda>_. 0) 0x80100000 0x80101000) 0x80101000 0x80102000)
     0x80102000 0x80103000) 0x80103000 0x80104000"

definition proc0 :: proc where
  "proc0 = \<lparr>p_state = RUNNABLE, p_chan = NoChan, p_killed = False, p_xstate = 0, p_pid = 1, p_parent = None,
     p_kstack = 0, p_sz = 4096, p_pagetable = 0, p_trapframe = 0x80105000,
     p_context = \<lparr>ctx_ra = 0, ctx_sp = 0, ctx_s = []\<rparr>, p_ofile = [], p_cwd = None, p_name = [0], p_trace_mask = 0\<rparr>"

definition cpu0 :: cpu where
  "cpu0 = \<lparr>c_proc = None, noff = 0, intena = False, sstatus = 0\<rparr>"

definition proc_machine :: proc_st where
  "proc_machine = \<lparr>mem = pool_mem, freelist = 0x80100000, sym_end = 0x80022000, sym_etext = 0x80008000,
     sym_trampoline = 0x80007000, procs = [proc0, proc0\<lparr>p_state := UNUSED, p_pid := 0\<rparr>], nextpid = 2,
     initproc = Some 0, this_cpu = cpu0, sym_forkret = 0\<rparr>"

lemma pool_mem_at:
  "load64 pool_mem 0x80100000 = 0x80101000" "load64 pool_mem 0x80101000 = 0x80102000"
  "load64 pool_mem 0x80102000 = 0x80103000" "load64 pool_mem 0x80103000 = 0x80104000"
  "load64 pool_mem 0x80104000 = 0"
  by (simp_all add: pool_mem_def load64_other_slot slot_def load64_zero)

lemma proc_machine_inv:
  "kmem_inv proc_machine [0x80100000, 0x80101000, 0x80102000, 0x80103000, 0x80104000]"
  by (simp add: kmem_inv_def proc_machine_def pool_mem_at valid_page_def page_aligned_def PGSIZE_def
      KERNBASE_def PHYSTOP_def)

lemma proc_machine_table:
  "find_unused (procs proc_machine) 0 = Some 1" "p_pid (procs proc_machine ! 1) = 0" "nextpid proc_machine = 2"
  "p_pid (procs proc_machine ! 0) = 1" "p_state (procs proc_machine ! 0) = RUNNABLE" "length (procs proc_machine) = 2"
  "p_state (procs proc_machine ! 1) = UNUSED" "p_trapframe (procs proc_machine ! 0) = 0x80105000"
  by (simp_all add: proc_machine_def proc0_def)

theorem proc_pagetable_isolates_witness:
  "\<exists>t. proc_pagetable 0 proc_machine = Ok 0x80100000 t \<and>
     leaf_entry (mem t) 0x80100000 TRAPFRAME = (PA2PTE 0x80105000 OR (PTE_R OR PTE_W) OR PTE_V) \<and>
     leaf_entry (mem t) 0x80100000 0x1000 = 0 \<and> walkaddr 0x80100000 TRAPFRAME t = Ok 0 t"
proof -
  have "0x1000 < MAXVA" "PGROUNDDOWN 0x1000 \<notin> {TRAMPOLINE, TRAPFRAME}"
    by (simp_all add: MAXVA_def PGROUNDDOWN_def PGSIZE_def TRAMPOLINE_def TRAPFRAME_def)
  then show ?thesis
    using proc_pagetable_isolates [OF proc_machine_inv, of 0] proc_machine_table(8) by auto
qed

end
