(* ===== verification/Smp.thy ===== *)
theory Smp
  imports Vmlaws Procpt
begin

text \<open>
  The process table under several CPUs. One machine with any number of CPUs interleaves the code of
  \<open>kernel/proc.c\<close> that changes a process's state: the scheduler's loop, the switches of \<open>yield\<close>, \<open>sleep\<close> and
  \<open>exit\<close> on both sides of \<open>swtch\<close>, the return of a process from the switch, and every region that kernel
  code runs under the lock of one slot. Who holds which \<open>p->lock\<close> is part of the machine, and so is each
  CPU's interrupt nesting. Its invariant gives that a process runs on one CPU at a time, and that the
  nesting is balanced across every switch.
\<close>

section \<open>Loops over the table, slot by slot\<close>

text \<open>
  \<open>wakeup\<close> and \<open>kill\<close> lock one slot at a time. Run without interference they are the loops over their
  slots; under interference each slot is a step of its own in the machine below.
\<close>

lemma wakeup_slot_eq:
  assumes "i < length (procs s)"
  shows "wakeup_slot ch i s = s\<lparr>procs := (procs s)[i :=
    (if myproc s \<noteq> Some i \<and> p_state (procs s ! i) = SLEEPING \<and> p_chan (procs s ! i) = ch
     then (procs s ! i)\<lparr>p_state := RUNNABLE\<rparr> else procs s ! i)]\<rparr>"
  using assms by (simp add: wakeup_slot_def upd_proc_def)

lemma wakeup_slots_upto:
  "n \<le> length (procs s) \<Longrightarrow> fold (wakeup_slot ch) [0..<n] s = s\<lparr>procs := map (\<lambda>i. let p = procs s ! i in
     if i < n \<and> myproc s \<noteq> Some i \<and> p_state p = SLEEPING \<and> p_chan p = ch
     then p\<lparr>p_state := RUNNABLE\<rparr> else p) [0..<length (procs s)]\<rparr>"
proof (induction n)
  case 0
  then show ?case by (simp add: map_nth Let_def)
next
  case (Suc n)
  then show ?case
    by (auto simp: wakeup_slot_eq myproc_def Let_def nth_list_update less_Suc_eq intro!: arg_cong [where f = "\<lambda>x. procs_update (\<lambda>_. x) s"]
        nth_equalityI)
qed

lemma wakeup_slots: "wakeup ch s = fold (wakeup_slot ch) [0..<length (procs s)] s"
  by (auto simp: wakeup_slots_upto wakeup_def Let_def intro!: arg_cong [where f = "\<lambda>x. procs_update (\<lambda>_. x) s"])

fun kill_slots :: "u32 \<Rightarrow> nat list \<Rightarrow> 'a proc_st_scheme \<Rightarrow> (int, 'a proc_st_scheme) res" where
  "kill_slots pid [] s = Ok (-1) s"
| "kill_slots pid (i # is) s =
     (case kill_slot pid i s of (True, t) \<Rightarrow> Ok 0 t | (False, t) \<Rightarrow> kill_slots pid is t)"

lemma kill_slots_from:
  "n \<le> length (procs s) \<Longrightarrow> kill_slots pid [n..<length (procs s)] s =
     (let (ps, r) = kill_loop pid (drop n (procs s)) in Ok r (s\<lparr>procs := take n (procs s) @ ps\<rparr>))"
proof (induction n rule: inc_induct)
  case base
  then show ?case by simp
next
  case (step n)
  let ?ps = "procs s"
  have d: "drop n ?ps = ?ps ! n # drop (Suc n) ?ps" using step by (simp add: Cons_nth_drop_Suc)
  have u: "[n..<length ?ps] = n # [Suc n..<length ?ps]" using step by (simp add: upt_conv_Cons)
  have t: "take (Suc n) ?ps = take n ?ps @ [?ps ! n]" using step by (simp add: take_Suc_conv_app_nth)
  show ?case
  proof (cases "p_pid (?ps ! n) = pid")
    case True
    then show ?thesis using step by (simp add: u d kill_slot_def upd_proc_def upd_conv_take_nth_drop)
  next
    case False
    then show ?thesis using step by (auto simp: u d t kill_slot_def Let_def split: prod.splits)
  qed
qed

lemma kill_slots: "kill pid s = kill_slots pid [0..<length (procs s)] s"
  by (simp add: kill_slots_from kill_def)

section \<open>Many CPUs\<close>

text \<open>
  Where a CPU is. In the scheduler's loop, or in an interrupt handler that interrupted it; just switched
  into process \<open>p\<close>, in \<open>sched\<close> or at the start of \<open>forkret\<close>, with \<open>p->lock\<close> still held by the
  scheduler's acquire; running \<open>p\<close>; or back in the scheduler just after \<open>swtch\<close>, with \<open>p->lock\<close> held by
  the process's acquire.
\<close>

datatype place = Scheduling | Handling | Entered nat | Executing nat | Left nat

text \<open>Where a process that is switched out continues, with the \<open>intena\<close> that \<open>sched\<close> keeps on its stack.\<close>

datatype suspension = In_yield bool | In_sleep bool | In_forkret

fun resume :: "suspension \<Rightarrow> 'a proc_st_scheme \<Rightarrow> (unit, 'a proc_st_scheme) res" where
  "resume (In_yield ie) s = yield_resume ie s"
| "resume (In_sleep ie) s = sleep_resume ie s"
| "resume In_forkret s = release_cpu s"

text \<open>
  The machine: the shared state, in which \<open>this_cpu\<close> stands for the CPU whose turn it is; the
  \<open>struct cpu\<close> and the place of every hart; which CPU holds each \<open>p->lock\<close>; how many other spin locks a
  CPU holds; where each process is suspended; and the slot that a process in \<open>fork\<close> has claimed.
\<close>

record smp =
  shared :: proc_st
  cpus :: "nat \<Rightarrow> cpu"
  pos :: "nat \<Rightarrow> place"
  plock :: "nat \<Rightarrow> nat option"
  held :: "nat \<Rightarrow> nat"
  susp :: "nat \<Rightarrow> suspension"
  child :: "nat \<Rightarrow> nat option"

definition load_cpu :: "nat \<Rightarrow> smp \<Rightarrow> proc_st" where
  "load_cpu c m = (shared m)\<lparr>this_cpu := cpus m c\<rparr>"

definition store_cpu :: "nat \<Rightarrow> proc_st \<Rightarrow> smp \<Rightarrow> smp" where
  "store_cpu c t m = m\<lparr>shared := t, cpus := (cpus m)(c := this_cpu t)\<rparr>"

text \<open>Code that may take locks: a process's, or an interrupt handler's.\<close>

definition in_kernel :: "smp \<Rightarrow> nat \<Rightarrow> bool" where
  "in_kernel m c \<longleftrightarrow> (case pos m c of Handling \<Rightarrow> True | Executing _ \<Rightarrow> True | _ \<Rightarrow> False)"

abbreviation nslots :: "smp \<Rightarrow> nat" where
  "nslots m \<equiv> length (procs (shared m))"

abbreviation slot_state :: "smp \<Rightarrow> nat \<Rightarrow> procstate" where
  "slot_state m i \<equiv> p_state (procs (shared m) ! i)"

text \<open>
  The steps. The scheduler's loop takes a slot's lock and passes the slot over or switches into it; a
  process returns from the switch and releases its lock; it takes its lock and switches away in
  \<open>yield\<close>, \<open>sleep\<close> (which swaps the lock \<open>lk\<close> for \<open>p->lock\<close>) or \<open>exit\<close> (which releases \<open>wait_lock\<close>);
  the scheduler releases the lock. Kernel code takes and releases the locks of slots and other spin locks
  one at a time, and holding a slot's lock runs the body of \<open>wakeup\<close>'s, \<open>kill\<close>'s or \<open>wait\<close>'s loop for that
  slot, \<open>setkilled\<close>, the claim of \<open>allocproc\<close>, or what \<open>fork\<close> does with the slot it claimed. Between any
  two steps every other CPU may run.
\<close>

inductive smp_step :: "smp \<Rightarrow> smp \<Rightarrow> bool" where
  round: "pos m c = Scheduling \<Longrightarrow> smp_step m (store_cpu c (scheduler_round (load_cpu c m)) m)"
| pick: "pos m c = Scheduling \<Longrightarrow> i < nslots m \<Longrightarrow> plock m i = None \<Longrightarrow>
    scheduler_pick i (load_cpu c m) = Ok True t \<Longrightarrow>
    smp_step m ((store_cpu c t m)\<lparr>plock := (plock m)(i := Some c), pos := (pos m)(c := Entered i)\<rparr>)"
| pass: "pos m c = Scheduling \<Longrightarrow> i < nslots m \<Longrightarrow> plock m i = None \<Longrightarrow>
    scheduler_pick i (load_cpu c m) = Ok False t \<Longrightarrow> smp_step m (store_cpu c t m)"
| leaves: "pos m c = Left p \<Longrightarrow> scheduler_back (load_cpu c m) = Ok () t \<Longrightarrow>
    smp_step m ((store_cpu c t m)\<lparr>plock := (plock m)(p := None), pos := (pos m)(c := Scheduling)\<rparr>)"
| enter: "pos m c = Entered p \<Longrightarrow> resume (susp m p) (load_cpu c m) = Ok () t \<Longrightarrow>
    smp_step m ((store_cpu c t m)\<lparr>plock := (plock m)(p := None), pos := (pos m)(c := Executing p)\<rparr>)"
| yields: "pos m c = Executing p \<Longrightarrow> plock m p = None \<Longrightarrow> yield (load_cpu c m) = Ok ie t \<Longrightarrow>
    smp_step m ((store_cpu c t m)\<lparr>plock := (plock m)(p := Some c), pos := (pos m)(c := Left p),
      susp := (susp m)(p := In_yield ie)\<rparr>)"
| sleeps: "pos m c = Executing p \<Longrightarrow> plock m p = None \<Longrightarrow> 0 < held m c \<Longrightarrow>
    sleep_switch ch (load_cpu c m) = Ok ie t \<Longrightarrow>
    smp_step m ((store_cpu c t m)\<lparr>plock := (plock m)(p := Some c), pos := (pos m)(c := Left p),
      susp := (susp m)(p := In_sleep ie), held := (held m)(c := held m c - 1)\<rparr>)"
| exits: "pos m c = Executing p \<Longrightarrow> plock m p = None \<Longrightarrow> 0 < held m c \<Longrightarrow>
    exit_switch status (load_cpu c m) = Ok ie t \<Longrightarrow>
    smp_step m ((store_cpu c t m)\<lparr>plock := (plock m)(p := Some c), pos := (pos m)(c := Left p),
      held := (held m)(c := held m c - 1)\<rparr>)"
| locks: "in_kernel m c \<Longrightarrow> j < nslots m \<Longrightarrow> plock m j = None \<Longrightarrow>
    smp_step m ((store_cpu c (acquire_cpu (load_cpu c m)) m)\<lparr>plock := (plock m)(j := Some c)\<rparr>)"
| unlocks: "in_kernel m c \<Longrightarrow> plock m j = Some c \<Longrightarrow> release_cpu (load_cpu c m) = Ok () t \<Longrightarrow>
    smp_step m ((store_cpu c t m)\<lparr>plock := (plock m)(j := None)\<rparr>)"
| locks_other: "in_kernel m c \<Longrightarrow>
    smp_step m ((store_cpu c (acquire_cpu (load_cpu c m)) m)\<lparr>held := (held m)(c := held m c + 1)\<rparr>)"
| unlocks_other: "in_kernel m c \<Longrightarrow> 0 < held m c \<Longrightarrow> release_cpu (load_cpu c m) = Ok () t \<Longrightarrow>
    smp_step m ((store_cpu c t m)\<lparr>held := (held m)(c := held m c - 1)\<rparr>)"
| wakes: "in_kernel m c \<Longrightarrow> plock m j = Some c \<Longrightarrow>
    smp_step m (store_cpu c (wakeup_slot ch j (load_cpu c m)) m)"
| kills: "in_kernel m c \<Longrightarrow> plock m j = Some c \<Longrightarrow>
    smp_step m (store_cpu c (snd (kill_slot pid j (load_cpu c m))) m)"
| marks: "in_kernel m c \<Longrightarrow> plock m j = Some c \<Longrightarrow>
    smp_step m (store_cpu c (setkilled j (load_cpu c m)) m)"
| claims: "pos m c = Executing p \<Longrightarrow> plock m j = Some c \<Longrightarrow> slot_state m j = UNUSED \<Longrightarrow>
    allocproc_at j (load_cpu c m) = Ok r t \<Longrightarrow>
    smp_step m ((store_cpu c t m)\<lparr>child := (child m)(p := r), susp := (susp m)(j := In_forkret)\<rparr>)"
| unclaims: "pos m c = Executing p \<Longrightarrow> child m p = Some j \<Longrightarrow> plock m j = Some c \<Longrightarrow>
    freeproc j (load_cpu c m) = Ok () t \<Longrightarrow> smp_step m ((store_cpu c t m)\<lparr>child := (child m)(p := None)\<rparr>)"
| starts: "pos m c = Executing p \<Longrightarrow> child m p = Some j \<Longrightarrow> plock m j = Some c \<Longrightarrow>
    smp_step m ((store_cpu c (upd_proc j (\<lambda>q. q\<lparr>p_state := RUNNABLE\<rparr>) (load_cpu c m)) m)
      \<lparr>child := (child m)(p := None)\<rparr>)"
| reaps: "pos m c = Executing p \<Longrightarrow> plock m j = Some c \<Longrightarrow>
    wait_loop p addr [j] False (load_cpu c m) = Ok r t \<Longrightarrow> smp_step m (store_cpu c t m)"
| interrupted: "pos m c = Scheduling \<Longrightarrow> intr_get (cpus m c) \<Longrightarrow>
    smp_step m (m\<lparr>cpus := (cpus m)(c := intr_off (cpus m c)), pos := (pos m)(c := Handling)\<rparr>)"
| handled: "pos m c = Handling \<Longrightarrow> noff (cpus m c) = 0 \<Longrightarrow>
    smp_step m (m\<lparr>cpus := (cpus m)(c := intr_on (cpus m c)), pos := (pos m)(c := Scheduling)\<rparr>)"
| toggles: "pos m c = Executing p \<Longrightarrow> noff (cpus m c) = 0 \<Longrightarrow>
    smp_step m (m\<lparr>cpus := (cpus m)(c := (cpus m c)\<lparr>sstatus := v\<rparr>)\<rparr>)"

inductive smp_reachable :: "smp \<Rightarrow> bool" where
  boot: "(\<And>p. p \<in> set (procs (shared m)) \<Longrightarrow> p_state p \<in> {UNUSED, RUNNABLE}) \<Longrightarrow>
    (\<And>c. c_proc (cpus m c) = None \<and> noff (cpus m c) = 0 \<and> pos m c = Scheduling \<and> held m c = 0) \<Longrightarrow>
    (\<And>i. plock m i = None \<and> susp m i = In_forkret \<and> child m i = None) \<Longrightarrow> smp_reachable m"
| step: "smp_reachable m \<Longrightarrow> smp_step m n \<Longrightarrow> smp_reachable n"

lemma store_cpu_simps [simp]:
  "shared (store_cpu c t m) = t" "cpus (store_cpu c t m) = (cpus m)(c := this_cpu t)"
  "pos (store_cpu c t m) = pos m" "plock (store_cpu c t m) = plock m" "held (store_cpu c t m) = held m"
  "susp (store_cpu c t m) = susp m" "child (store_cpu c t m) = child m"
  by (simp_all add: store_cpu_def)

lemma load_cpu_simps [simp]: "procs (load_cpu c m) = procs (shared m)" "this_cpu (load_cpu c m) = cpus m c"
  by (simp_all add: load_cpu_def)

subsection \<open>Locks held\<close>

definition nlocks :: "(nat \<Rightarrow> nat option) \<Rightarrow> nat \<Rightarrow> nat" where
  "nlocks f c = card {j. f j = Some c}"

lemma nlocks_acquire:
  assumes "finite {j. f j = Some c}" and "f i = None"
  shows "nlocks (f(i := Some c)) c = Suc (nlocks f c)"
proof -
  have "{j. (f(i := Some c)) j = Some c} = insert i {j. f j = Some c}" by auto
  with assms show ?thesis by (simp add: nlocks_def)
qed

lemma nlocks_release:
  assumes "finite {j. f j = Some c}" and "f i = Some c"
  shows "nlocks f c = Suc (nlocks (f(i := None)) c)"
proof -
  have "{j. (f(i := None)) j = Some c} = {j. f j = Some c} - {i}" by auto
  then show ?thesis using card.remove [OF assms(1), of i] assms(2) by (simp add: nlocks_def)
qed

lemma nlocks_cong: "(\<And>j. f j = Some c \<longleftrightarrow> g j = Some c) \<Longrightarrow> nlocks f c = nlocks g c"
  by (simp add: nlocks_def)

lemma pop_off_Ok:
  assumes "pop_off c = Ok u d"
  shows "\<not> intr_get c \<and> 0 < noff c \<and> noff d = noff c - 1 \<and> c_proc d = c_proc c \<and> (0 < noff d \<longrightarrow> \<not> intr_get d)"
proof -
  have "intr_get (c\<lparr>noff := n\<rparr>) = intr_get c" for n by (simp add: intr_get_def)
  with assms show ?thesis by (auto simp: pop_off_def Let_def intr_on_def split: if_splits)
qed

lemma release_cpu_Ok:
  assumes "release_cpu s = Ok u t"
  shows "procs t = procs s" "\<not> intr_get (this_cpu s) \<and> 0 < noff (this_cpu s)"
    "noff (this_cpu t) = noff (this_cpu s) - 1" "c_proc (this_cpu t) = c_proc (this_cpu s)"
    "0 < noff (this_cpu t) \<longrightarrow> \<not> intr_get (this_cpu t)"
proof -
  obtain u d where d: "pop_off (this_cpu s) = Ok u d" "t = s\<lparr>this_cpu := d\<rparr>"
    using assms by (auto simp: release_cpu_def split: res.splits)
  note f = pop_off_Ok [OF d(1)]
  show "procs t = procs s" using d(2) by simp
  show "\<not> intr_get (this_cpu s) \<and> 0 < noff (this_cpu s)" using f by simp
  show "noff (this_cpu t) = noff (this_cpu s) - 1" "c_proc (this_cpu t) = c_proc (this_cpu s)"
    "0 < noff (this_cpu t) \<longrightarrow> \<not> intr_get (this_cpu t)"
    using f d(2) by simp_all
qed

lemma release_cpu_returns:
  "\<not> intr_get (this_cpu s) \<Longrightarrow> 0 < noff (this_cpu s) \<Longrightarrow> \<exists>t. release_cpu s = Ok () t"
  by (simp add: release_cpu_def pop_off_def Let_def)

lemma acquire_cpu_simps [simp]:
  "procs (acquire_cpu s) = procs s" "noff (this_cpu (acquire_cpu s)) = noff (this_cpu s) + 1"
  "\<not> intr_get (this_cpu (acquire_cpu s))" "c_proc (this_cpu (acquire_cpu s)) = c_proc (this_cpu s)"
  by (simp_all add: acquire_cpu_def)

subsection \<open>The invariant\<close>

text \<open>
  A CPU's nesting depth is the number of locks it holds, and its interrupts are off while it holds one.
  The scheduler's loop holds none between two slots; on either side of a switch exactly the lock of the
  process is held; and the process of a CPU is \<open>RUNNING\<close> from the switch into it to its own change of
  state.
\<close>

definition cpu_ok :: "smp \<Rightarrow> nat \<Rightarrow> bool" where
  "cpu_ok m c \<longleftrightarrow>
     noff (cpus m c) = int (held m c + nlocks (plock m) c) \<and> (0 < noff (cpus m c) \<longrightarrow> \<not> intr_get (cpus m c)) \<and>
     (case pos m c of
        Scheduling \<Rightarrow> c_proc (cpus m c) = None \<and> noff (cpus m c) = 0
      | Handling \<Rightarrow> c_proc (cpus m c) = None
      | Entered p \<Rightarrow> c_proc (cpus m c) = Some p \<and> p < nslots m \<and> slot_state m p = RUNNING \<and>
          plock m p = Some c \<and> noff (cpus m c) = 1
      | Executing p \<Rightarrow> c_proc (cpus m c) = Some p \<and> p < nslots m \<and> slot_state m p = RUNNING
      | Left p \<Rightarrow> c_proc (cpus m c) = Some p \<and> p < nslots m \<and> slot_state m p \<noteq> RUNNING \<and>
          plock m p = Some c \<and> noff (cpus m c) = 1)"

definition smp_inv :: "smp \<Rightarrow> bool" where
  "smp_inv m \<longleftrightarrow> (\<forall>c. cpu_ok m c) \<and>
     (\<forall>c d i. c_proc (cpus m c) = Some i \<longrightarrow> c_proc (cpus m d) = Some i \<longrightarrow> c = d) \<and>
     (\<forall>i < nslots m. slot_state m i = RUNNING \<longrightarrow> (\<exists>c. c_proc (cpus m c) = Some i)) \<and>
     (\<forall>j c. plock m j = Some c \<longrightarrow> j < nslots m) \<and>
     (\<forall>p j. child m p = Some j \<longrightarrow> j < nslots m \<and> slot_state m j = USED) \<and>
     (\<forall>p q j. child m p = Some j \<longrightarrow> child m q = Some j \<longrightarrow> p = q)"

lemma smp_invD:
  assumes "smp_inv m"
  shows "cpu_ok m c"
    "c_proc (cpus m c) = Some i \<Longrightarrow> c_proc (cpus m d) = Some i \<Longrightarrow> c = d"
    "i < nslots m \<Longrightarrow> slot_state m i = RUNNING \<Longrightarrow> \<exists>c. c_proc (cpus m c) = Some i"
    "plock m j = Some c \<Longrightarrow> j < nslots m"
    "child m p = Some j \<Longrightarrow> j < nslots m \<and> slot_state m j = USED"
    "child m p = Some j \<Longrightarrow> child m q = Some j \<Longrightarrow> p = q"
    "finite {j. plock m j = Some c}"
proof -
  show "finite {j. plock m j = Some c}"
    by (rule finite_subset [of _ "{..<nslots m}"]) (use assms in \<open>auto simp: smp_inv_def\<close>)
qed (use assms in \<open>simp_all add: smp_inv_def\<close>)

text \<open>
  One step of CPU \<open>c\<close>: nothing of another CPU changes, and the \<open>RUNNING\<close> marks change only for the process
  that \<open>c\<close> starts or stops.
\<close>

lemma smp_inv_step:
  assumes inv: "smp_inv m"
    and cpu: "\<And>d. d \<noteq> c \<Longrightarrow> cpus n d = cpus m d \<and> pos n d = pos m d \<and> held n d = held m d"
    and lcks: "\<And>j d. d \<noteq> c \<Longrightarrow> plock n j = Some d \<longleftrightarrow> plock m j = Some d"
    and mine: "\<And>j. plock n j = Some c \<Longrightarrow> j < nslots m" and len: "nslots n = nslots m"
    and run: "\<And>i d. d \<noteq> c \<Longrightarrow> c_proc (cpus m d) = Some i \<Longrightarrow> slot_state n i = RUNNING \<longleftrightarrow> slot_state m i = RUNNING"
    and ok: "cpu_ok n c"
    and new: "\<And>i d. c_proc (cpus n c) = Some i \<Longrightarrow> d \<noteq> c \<Longrightarrow> c_proc (cpus m d) \<noteq> Some i"
    and old: "\<And>i. i < nslots m \<Longrightarrow> slot_state n i = RUNNING \<Longrightarrow>
      c_proc (cpus n c) = Some i \<or> slot_state m i = RUNNING \<and> c_proc (cpus m c) \<noteq> Some i"
    and kids: "\<And>p j. child n p = Some j \<Longrightarrow> j < nslots m \<and> slot_state n j = USED"
      "\<And>p q j. child n p = Some j \<Longrightarrow> child n q = Some j \<Longrightarrow> p = q"
  shows "smp_inv n"
  unfolding smp_inv_def
proof (intro conjI allI impI)
  fix d show "cpu_ok n d"
  proof (cases "d = c")
    case False
    have "nlocks (plock n) d = nlocks (plock m) d" by (rule nlocks_cong) (rule lcks [OF False])
    then show ?thesis using smp_invD(1) [OF inv, of d] cpu [OF False] lcks [OF False] run [OF False] len
      by (cases "pos m d") (auto simp: cpu_ok_def)
  qed (simp add: ok)
next
  fix d e i assume "c_proc (cpus n d) = Some i" "c_proc (cpus n e) = Some i"
  then show "d = e" using new cpu smp_invD(2) [OF inv, of d i e] by (cases "d = c"; cases "e = c") metis+
next
  fix i assume i: "i < nslots n" "slot_state n i = RUNNING"
  show "\<exists>d. c_proc (cpus n d) = Some i"
  proof (cases "c_proc (cpus n c) = Some i")
    case False
    then have "slot_state m i = RUNNING" "c_proc (cpus m c) \<noteq> Some i" using old i len by auto
    then obtain d where "c_proc (cpus m d) = Some i" "d \<noteq> c" using smp_invD(3) [OF inv] i(1) len by metis
    then show ?thesis using cpu by metis
  qed blast
next
  fix j d assume "plock n j = Some d"
  then show "j < nslots n" using mine lcks smp_invD(4) [OF inv] len by (cases "d = c") auto
qed (use kids len in auto)

text \<open>A change of the table that starts and stops nothing and leaves claimed slots claimed.\<close>

definition quiet :: "proc list \<Rightarrow> proc list \<Rightarrow> bool" where
  "quiet ps qs \<longleftrightarrow> same_running ps qs \<and> (\<forall>j < length ps. p_state (ps ! j) = USED \<longrightarrow> p_state (qs ! j) = USED)"

lemma quiet_refl [simp]: "quiet ps ps"
  by (simp add: quiet_def)

lemma smp_inv_quiet:
  assumes inv: "smp_inv m"
    and cpu: "\<And>d. d \<noteq> c \<Longrightarrow> cpus n d = cpus m d \<and> pos n d = pos m d \<and> held n d = held m d"
    and lcks: "\<And>j d. d \<noteq> c \<Longrightarrow> plock n j = Some d \<longleftrightarrow> plock m j = Some d"
    and mine: "\<And>j. plock n j = Some c \<Longrightarrow> j < nslots m"
    and q: "quiet (procs (shared m)) (procs (shared n))" and ok: "cpu_ok n c"
    and same: "c_proc (cpus n c) = c_proc (cpus m c)" and kids: "child n = child m"
  shows "smp_inv n"
proof (rule smp_inv_step [OF inv cpu lcks mine])
  have r: "i < nslots m \<Longrightarrow> slot_state n i = RUNNING \<longleftrightarrow> slot_state m i = RUNNING" for i
    using q by (simp add: quiet_def same_running_def)
  have b: "c_proc (cpus m d) = Some i \<Longrightarrow> i < nslots m" for d i
    using smp_invD(1) [OF inv, of d] by (auto simp: cpu_ok_def split: place.splits)
  show "nslots n = nslots m" using q by (simp add: quiet_def same_running_def)
  show "slot_state n i = RUNNING \<longleftrightarrow> slot_state m i = RUNNING" if "c_proc (cpus m d) = Some i" for i d
    using r b that by blast
  show "c_proc (cpus m d) \<noteq> Some i" if "c_proc (cpus n c) = Some i" "d \<noteq> c" for i d
    using smp_invD(2) [OF inv] same that by metis
  show "c_proc (cpus n c) = Some i \<or> slot_state m i = RUNNING \<and> c_proc (cpus m c) \<noteq> Some i"
    if "i < nslots m" "slot_state n i = RUNNING" for i
    using r that same by auto
  show "j < nslots m \<and> slot_state n j = USED" if "child n p = Some j" for p j
    using smp_invD(5) [OF inv] that kids q by (auto simp: quiet_def)
  show "p = q" if "child n p = Some j" "child n q = Some j" for p q j
    using smp_invD(6) [OF inv] that kids by metis
qed (use ok in simp_all)

subsection \<open>Switches\<close>

lemma sched_Ok:
  "sched True s = Ok ie t \<Longrightarrow> t = s \<and> noff (this_cpu s) = 1 \<and> p_state (mine s) \<noteq> RUNNING \<and> \<not> intr_get (this_cpu s)"
  by (auto simp: sched_def split: if_splits)

lemmas my_slot = me_def mine_def myproc_def

text \<open>What the three ways to give up the CPU leave behind; \<open>k\<close> is the change of the nesting depth.\<close>

definition gave_up :: "nat \<Rightarrow> int \<Rightarrow> 'a proc_st_scheme \<Rightarrow> 'a proc_st_scheme \<Rightarrow> bool" where
  "gave_up p k s t \<longleftrightarrow> length (procs t) = length (procs s) \<and> (\<forall>j. j \<noteq> p \<longrightarrow> procs t ! j = procs s ! j) \<and>
     p_state (procs t ! p) \<noteq> RUNNING \<and> c_proc (this_cpu t) = c_proc (this_cpu s) \<and> noff (this_cpu t) = 1 \<and>
     noff (this_cpu s) = 1 - k \<and> \<not> intr_get (this_cpu t)"

lemma yield_gives_up:
  assumes "yield s = Ok ie t" and "c_proc (this_cpu s) = Some p"
  shows "gave_up p 1 s t \<and> (p < length (procs s) \<longrightarrow> p_state (procs t ! p) = RUNNABLE)"
  using sched_Ok [OF assms(1) [unfolded yield_def]] assms(2)
  by (auto simp: gave_up_def my_slot upd_proc_def)

lemma sleep_gives_up:
  assumes "sleep_switch ch s = Ok ie t" and "c_proc (this_cpu s) = Some p"
  shows "gave_up p 0 s t"
proof -
  obtain u where u: "release_cpu (acquire_cpu s) = Ok () u"
    and t: "sched True (upd_proc (me u) (\<lambda>q. q\<lparr>p_chan := ch, p_state := SLEEPING\<rparr>) u) = Ok ie t"
    using assms(1) by (auto simp: sleep_switch_def sleep_def bind_simps)
  note f = release_cpu_Ok [OF u]
  show ?thesis using sched_Ok [OF t] f assms(2) by (auto simp: gave_up_def my_slot upd_proc_def)
qed

lemma exit_gives_up:
  assumes "exit_switch status s = Ok ie t" and "c_proc (this_cpu s) = Some p"
  shows "gave_up p 0 s t"
proof -
  obtain u where u: "release_cpu (upd_proc (me s) (\<lambda>q. q\<lparr>p_xstate := status, p_state := ZOMBIE\<rparr>)
      (acquire_cpu s)) = Ok () u" and t: "sched True u = Ok ie t"
    using assms(1) by (auto simp: exit_switch_def bind_simps)
  note f = release_cpu_Ok [OF u]
  show ?thesis using sched_Ok [OF t] f assms(2) by (auto simp: gave_up_def my_slot upd_proc_def)
qed

lemma smp_inv_stop:
  assumes inv: "smp_inv m" and p: "pos m c = Executing p" "plock m p = None"
    and g: "gave_up p k (load_cpu c m) t" and h: "int h = int (held m c) + k - 1"
    and n: "shared n = t" "cpus n = (cpus m)(c := this_cpu t)" "plock n = (plock m)(p := Some c)"
      "pos n = (pos m)(c := Left p)" "held n = (held m)(c := h)" "child n = child m"
  shows "smp_inv n"
proof (rule smp_inv_step [OF inv])
  note c = smp_invD(1) [OF inv, of c, unfolded cpu_ok_def p, simplified]
  have st: "slot_state m p = RUNNING" "p < nslots m" "c_proc (cpus m c) = Some p" using c by auto
  have same: "slot_state n j = slot_state m j" if "j \<noteq> p" for j using g that n(1) by (simp add: gave_up_def)
  show "cpus n d = cpus m d \<and> pos n d = pos m d \<and> held n d = held m d" if "d \<noteq> c" for d using that n by simp
  show "plock n j = Some d \<longleftrightarrow> plock m j = Some d" if "d \<noteq> c" for j d using that n(3) p(2) by auto
  show "j < nslots m" if "plock n j = Some c" for j
    using that n(3) st(2) smp_invD(4) [OF inv] by (auto split: if_splits)
  show "nslots n = nslots m" using g n(1) by (simp add: gave_up_def)
  show "slot_state n i = RUNNING \<longleftrightarrow> slot_state m i = RUNNING" if "d \<noteq> c" "c_proc (cpus m d) = Some i" for i d
    using same smp_invD(2) [OF inv _ st(3), of d] that by (cases "i = p") auto
  show "cpu_ok n c"
    using c g h n nlocks_acquire [OF smp_invD(7) [OF inv] p(2), of c] by (auto simp: cpu_ok_def gave_up_def)
  show "c_proc (cpus m d) \<noteq> Some i" if "c_proc (cpus n c) = Some i" "d \<noteq> c" for i d
    using that n(2) g st(3) smp_invD(2) [OF inv] by (auto simp: gave_up_def)
  show "c_proc (cpus n c) = Some i \<or> slot_state m i = RUNNING \<and> c_proc (cpus m c) \<noteq> Some i"
    if "i < nslots m" "slot_state n i = RUNNING" for i
    using that g n(1) same st(3) by (cases "i = p") (auto simp: gave_up_def)
  show "j < nslots m \<and> slot_state n j = USED" if "child n q = Some j" for q j
    using smp_invD(5) [OF inv, of q j] that n(6) same [of j] st(1) by (cases "j = p") auto
  show "q = r" if "child n q = Some j" "child n r = Some j" for q r j
    using smp_invD(6) [OF inv] that n(6) by metis
qed

lemma smp_inv_pick:
  assumes inv: "smp_inv m" and i: "pos m c = Scheduling" "i < nslots m" "plock m i = None"
    and t: "scheduler_pick i (load_cpu c m) = Ok True t"
  shows "smp_inv ((store_cpu c t m)\<lparr>plock := (plock m)(i := Some c), pos := (pos m)(c := Entered i)\<rparr>)"
    (is "smp_inv ?n")
proof (rule smp_inv_step [OF inv, of c])
  note c = smp_invD(1) [OF inv, of c, unfolded cpu_ok_def i(1), simplified]
  have r: "slot_state m i = RUNNABLE"
    and t: "t = (upd_proc i (\<lambda>q. q\<lparr>p_state := RUNNING\<rparr>) (acquire_cpu (load_cpu c m)))
        \<lparr>this_cpu := (this_cpu (acquire_cpu (load_cpu c m)))\<lparr>c_proc := Some i\<rparr>\<rparr>"
    using t by (auto simp: scheduler_pick_def Let_def bind_simps upd_proc_def split: if_splits)
  have same: "slot_state ?n j = (if j = i then RUNNING else slot_state m j)" for j
    using i(2) by (simp add: t upd_proc_def nth_list_update)
  have fresh: "c_proc (cpus m d) \<noteq> Some i" for d
    using smp_invD(1) [OF inv, of d] r i(3) by (auto simp: cpu_ok_def split: place.splits)
  have "\<not> intr_get ((push_off (cpus m c))\<lparr>c_proc := Some i\<rparr>)" using push_off_facts(1) by (simp add: intr_get_def)
  then show "cpu_ok ?n c"
    using c i same nlocks_acquire [OF smp_invD(7) [OF inv] i(3), of c]
    by (simp add: cpu_ok_def t acquire_cpu_def upd_proc_def)
  show "nslots ?n = nslots m" by (simp add: t upd_proc_def)
  show "c_proc (cpus ?n c) = Some j \<or> slot_state m j = RUNNING \<and> c_proc (cpus m c) \<noteq> Some j"
    if "j < nslots m" "slot_state ?n j = RUNNING" for j
    using that same c by (cases "j = i") (auto simp: t)
  show "c_proc (cpus m d) \<noteq> Some j" if "c_proc (cpus ?n c) = Some j" for j d
    using that fresh by (auto simp: t)
  show "slot_state ?n j = RUNNING \<longleftrightarrow> slot_state m j = RUNNING" if "d \<noteq> c" "c_proc (cpus m d) = Some j" for j d
    using that same fresh by auto
  show "j < nslots m \<and> slot_state ?n j = USED" if "child ?n q = Some j" for q j
    using smp_invD(5) [OF inv, of q j] that same r by auto
  show "q = s" if "child ?n q = Some j" "child ?n s = Some j" for q s j
    using smp_invD(6) [OF inv] that by auto
  show "j < nslots m" if "plock ?n j = Some c" for j
    using that i(2) smp_invD(4) [OF inv] by (auto split: if_splits)
qed (use i(3) in auto)

lemma scheduler_pick_passes:
  assumes "scheduler_pick i s = Ok False t" and "noff (this_cpu s) = 0"
  shows "procs t = procs s \<and> c_proc (this_cpu t) = c_proc (this_cpu s) \<and> noff (this_cpu t) = 0"
proof -
  have "release_cpu (acquire_cpu s) = Ok () t"
    using assms(1) by (auto simp: scheduler_pick_def Let_def bind_simps split: if_splits)
  from release_cpu_Ok [OF this] show ?thesis using assms(2) by simp
qed

lemma smp_inv_leave:
  assumes inv: "smp_inv m" and p: "pos m c = Left p" and t: "scheduler_back (load_cpu c m) = Ok () t"
  shows "smp_inv ((store_cpu c t m)\<lparr>plock := (plock m)(p := None), pos := (pos m)(c := Scheduling)\<rparr>)"
    (is "smp_inv ?n")
proof (rule smp_inv_step [OF inv, of c])
  note c = smp_invD(1) [OF inv, of c, unfolded cpu_ok_def p, simplified]
  note f = release_cpu_Ok [OF t [unfolded scheduler_back_def], simplified]
  show "cpu_ok ?n c"
    using c f nlocks_release [OF smp_invD(7) [OF inv], of p c] by (simp add: cpu_ok_def)
  show "j < nslots m" if "plock ?n j = Some c" for j
    using that smp_invD(4) [OF inv] by (auto split: if_splits)
  show "c_proc (cpus ?n c) = Some i \<or> slot_state m i = RUNNING \<and> c_proc (cpus m c) \<noteq> Some i"
    if "i < nslots m" "slot_state ?n i = RUNNING" for i
    using that c f by auto
  show "j < nslots m \<and> slot_state ?n j = USED" if "child ?n q = Some j" for q j
    using smp_invD(5) [OF inv, of q j] that f by auto
  show "q = s" if "child ?n q = Some j" "child ?n s = Some j" for q s j
    using smp_invD(6) [OF inv] that by auto
  show "plock ?n j = Some d \<longleftrightarrow> plock m j = Some d" if "d \<noteq> c" for j d using that c by auto
qed (use release_cpu_Ok [OF t [unfolded scheduler_back_def]] in auto)

lemma quiet_upd:
  assumes "p_state (f (procs s ! i)) = RUNNING \<longleftrightarrow> p_state (procs s ! i) = RUNNING"
    and "p_state (procs s ! i) = USED \<Longrightarrow> p_state (f (procs s ! i)) = USED"
  shows "quiet (procs s) (procs (upd_proc i f s))"
  using assms by (cases "i < length (procs s)") (auto simp: quiet_def same_running_def upd_proc_def nth_list_update)

lemma resume_Ok:
  assumes "resume w s = Ok u t"
  shows "quiet (procs s) (procs t)" "noff (this_cpu t) = noff (this_cpu s) - 1"
    "c_proc (this_cpu t) = c_proc (this_cpu s)" "0 < noff (this_cpu t) \<longrightarrow> \<not> intr_get (this_cpu t)"
proof -
  obtain x where x: "release_cpu x = Ok u t" "noff (this_cpu x) = noff (this_cpu s)"
      "c_proc (this_cpu x) = c_proc (this_cpu s)" "quiet (procs s) (procs x)"
  proof (cases w)
    case (In_sleep ie)
    let ?x = "upd_proc (me (sched_resume ie s)) (\<lambda>q. q\<lparr>p_chan := NoChan\<rparr>) (sched_resume ie s)"
    have "quiet (procs (sched_resume ie s)) (procs ?x)" by (rule quiet_upd) simp_all
    then show thesis using that [of ?x] assms In_sleep by (simp add: sleep_resume_def sched_resume_def me_def myproc_def)
  qed (use that assms in \<open>auto simp: yield_resume_def sched_resume_def\<close>)
  note f = release_cpu_Ok [OF x(1)]
  show "quiet (procs s) (procs t)" "noff (this_cpu t) = noff (this_cpu s) - 1"
    "c_proc (this_cpu t) = c_proc (this_cpu s)" "0 < noff (this_cpu t) \<longrightarrow> \<not> intr_get (this_cpu t)"
    using f x by simp_all
qed

lemma smp_inv_enter:
  assumes inv: "smp_inv m" and p: "pos m c = Entered p" and t: "resume (susp m p) (load_cpu c m) = Ok () t"
  shows "smp_inv ((store_cpu c t m)\<lparr>plock := (plock m)(p := None), pos := (pos m)(c := Executing p)\<rparr>)"
    (is "smp_inv ?n")
proof (rule smp_inv_quiet [OF inv, of c])
  note c = smp_invD(1) [OF inv, of c, unfolded cpu_ok_def p, simplified]
  note f = resume_Ok [OF t, simplified]
  show "cpu_ok ?n c"
    using c f nlocks_release [OF smp_invD(7) [OF inv], of p c]
    by (simp add: cpu_ok_def quiet_def same_running_def)
  show "j < nslots m" if "plock ?n j = Some c" for j
    using that smp_invD(4) [OF inv] by (auto split: if_splits)
  show "plock ?n j = Some d \<longleftrightarrow> plock m j = Some d" if "d \<noteq> c" for j d using that c by auto
qed (use resume_Ok [OF t] in auto)

subsection \<open>Steps under a lock\<close>

text \<open>A step of kernel code on CPU \<open>c\<close> that keeps what the CPU runs, with its new lock count accounted for.\<close>

lemma smp_inv_kernel:
  assumes inv: "smp_inv m" and k: "in_kernel m c"
    and q: "quiet (procs (shared m)) (procs t)" "c_proc (this_cpu t) = c_proc (cpus m c)"
    and l: "\<And>j d. d \<noteq> c \<Longrightarrow> f j = Some d \<longleftrightarrow> plock m j = Some d" "\<And>j. f j = Some c \<Longrightarrow> j < nslots m"
    and h: "noff (this_cpu t) = int (h + nlocks f c)" "0 < noff (this_cpu t) \<longrightarrow> \<not> intr_get (this_cpu t)"
  shows "smp_inv (m\<lparr>shared := t, cpus := (cpus m)(c := this_cpu t), plock := f, held := (held m)(c := h), susp := w\<rparr>)"
    (is "smp_inv ?n")
proof (rule smp_inv_quiet [OF inv, of c])
  show "cpu_ok ?n c"
    using smp_invD(1) [OF inv, of c] k q h
    by (auto simp: cpu_ok_def in_kernel_def quiet_def same_running_def split: place.splits)
qed (use q l in auto)

text \<open>The body of a loop over the table, which keeps the CPU and every lock.\<close>

lemma smp_inv_body:
  assumes "smp_inv m" and "in_kernel m c" and "quiet (procs (shared m)) (procs t)" and "this_cpu t = cpus m c"
  shows "smp_inv (store_cpu c t m)"
proof -
  have eq: "m\<lparr>shared := t, cpus := (cpus m)(c := this_cpu t), plock := plock m, held := (held m)(c := held m c),
      susp := susp m\<rparr> = store_cpu c t m" by (simp add: store_cpu_def)
  show ?thesis
    using smp_inv_kernel [OF assms(1-3), of "plock m" "held m c" "susp m"] assms(4) smp_invD(1,4) [OF assms(1)]
    unfolding eq by (simp add: cpu_ok_def)
qed

lemma slot_bodies_quiet:
  "quiet (procs s) (procs (wakeup_slot ch i s)) \<and> this_cpu (wakeup_slot ch i s) = this_cpu s"
  "quiet (procs s) (procs (snd (kill_slot pid i s))) \<and> this_cpu (snd (kill_slot pid i s)) = this_cpu s"
  "quiet (procs s) (procs (setkilled i s)) \<and> this_cpu (setkilled i s) = this_cpu s"
  by (auto simp: wakeup_slot_def kill_slot_def setkilled_def split: if_splits intro!: quiet_upd)

lemma quiet_freeproc:
  assumes "freeproc p s = Ok x t" and "p_state (procs s ! p) \<noteq> RUNNING" and "p_state (procs s ! p) \<noteq> USED"
  shows "quiet (procs s) (procs t)"
proof -
  note e = freeproc_effect [OF assms(1)]
  have "p_state (procs t ! j) = USED" if "j < length (procs s)" "p_state (procs s ! j) = USED" for j
    using that e(4) [of j] assms(3) by (cases "j = p") auto
  then show ?thesis using freeproc_running [OF assms(1,2)] by (simp add: quiet_def)
qed

lemma wait_slot_quiet:
  assumes "wait_loop p addr [j] False s = Ok r t"
  shows "quiet (procs s) (procs t) \<and> this_cpu t = this_cpu s"
proof (cases "p_parent (procs s ! j) = Some p \<and> p_state (procs s ! j) = ZOMBIE")
  case True
  then obtain u where u: "mem_only s u" "t = u \<or> (\<exists>x. freeproc j u = Ok x t)"
    using assms by (auto simp: Let_def bind_simps split: if_splits dest!: copyout_mem intro: that that [OF mem_only_refl])
  have "quiet (procs u) (procs t) \<and> this_cpu t = this_cpu u"
    using u(2) True mem_only_procs [OF u(1)] by (auto dest: quiet_freeproc freeproc_effect(1))
  then show ?thesis using mem_only_procs [OF u(1)] by simp
qed (use assms in \<open>auto split: if_splits\<close>)

text \<open>Steps that claim a slot, give it up or start the process in it.\<close>

lemma smp_inv_kids:
  assumes inv: "smp_inv m" and k: "pos m c = Executing p"
    and t: "same_running (procs (shared m)) (procs t)" "this_cpu t = cpus m c"
      "\<And>i. i \<noteq> j \<Longrightarrow> procs t ! i = procs (shared m) ! i"
    and j: "\<And>q. q \<noteq> p \<Longrightarrow> child m q \<noteq> Some j" "r = None \<or> r = Some j \<and> j < nslots m \<and> p_state (procs t ! j) = USED"
  shows "smp_inv ((store_cpu c t m)\<lparr>child := (child m)(p := r), susp := w\<rparr>)" (is "smp_inv ?n")
proof (rule smp_inv_step [OF inv, of c])
  have r: "i < nslots m \<Longrightarrow> slot_state ?n i = RUNNING \<longleftrightarrow> slot_state m i = RUNNING" for i
    using t(1) by (simp add: same_running_def)
  have b: "c_proc (cpus m d) = Some i \<Longrightarrow> i < nslots m" for d i
    using smp_invD(1) [OF inv, of d] by (auto simp: cpu_ok_def split: place.splits)
  show "nslots ?n = nslots m" using t(1) by (simp add: same_running_def)
  show "cpu_ok ?n c" using smp_invD(1) [OF inv, of c] k t(1,2) by (simp add: cpu_ok_def same_running_def)
  show "slot_state ?n i = RUNNING \<longleftrightarrow> slot_state m i = RUNNING" if "c_proc (cpus m d) = Some i" for i d
    using r b that by blast
  show "c_proc (cpus m d) \<noteq> Some i" if "c_proc (cpus ?n c) = Some i" "d \<noteq> c" for i d
    using smp_invD(2) [OF inv, of c i d] t(2) that by auto
  show "c_proc (cpus ?n c) = Some i \<or> slot_state m i = RUNNING \<and> c_proc (cpus m c) \<noteq> Some i"
    if "i < nslots m" "slot_state ?n i = RUNNING" for i
    using r that t(2) by auto
  show "i < nslots m \<and> slot_state ?n i = USED" if "child ?n q = Some i" for q i
  proof (cases "q = p")
    case True
    then show ?thesis using that j(2) by auto
  next
    case False
    then show ?thesis using that j(1) [of q] t(3) [of i] smp_invD(5) [OF inv, of q i] by auto
  qed
  show "q = s" if "child ?n q = Some i" "child ?n s = Some i" for q s i
    using that j smp_invD(6) [OF inv, of q i s] by (auto split: if_splits)
qed (use smp_invD(4) [OF inv] in auto)

lemma claim_slot:
  assumes "allocproc_at j s = Ok r t" and "j < length (procs s)" and "p_state (procs s ! j) = UNUSED"
  shows "same_running (procs s) (procs t)" "this_cpu t = this_cpu s" "\<And>i. i \<noteq> j \<Longrightarrow> procs t ! i = procs s ! i"
    "r = None \<or> r = Some j \<and> j < length (procs s) \<and> p_state (procs t ! j) = USED"
proof -
  have e: "r = None \<and> same_others j s t \<and> p_state (procs t ! j) = UNUSED \<or> r = Some j \<and> claimed j s t"
    by (rule allocproc_at_effect [OF assms(1,2)])
  then have o: "same_others j s t" "p_state (procs t ! j) \<noteq> RUNNING" by (auto simp: claimed_def)
  show "same_running (procs s) (procs t)" using same_others_running [OF o(1) _ o(2)] assms(3) by simp
  show "this_cpu t = this_cpu s" "\<And>i. i \<noteq> j \<Longrightarrow> procs t ! i = procs s ! i"
    using o(1) by (auto simp: same_others_def)
  show "r = None \<or> r = Some j \<and> j < length (procs s) \<and> p_state (procs t ! j) = USED"
    using e assms(2) by (auto simp: claimed_def)
qed

lemma smp_inv_acquire:
  assumes inv: "smp_inv m" and k: "in_kernel m c"
  shows "j < nslots m \<Longrightarrow> plock m j = None \<Longrightarrow>
      smp_inv ((store_cpu c (acquire_cpu (load_cpu c m)) m)\<lparr>plock := (plock m)(j := Some c)\<rparr>)"
    "smp_inv ((store_cpu c (acquire_cpu (load_cpu c m)) m)\<lparr>held := (held m)(c := held m c + 1)\<rparr>)"
proof -
  let ?t = "acquire_cpu (load_cpu c m)"
  have n: "noff (cpus m c) = int (held m c + nlocks (plock m) c)"
    using smp_invD(1) [OF inv, of c] by (simp add: cpu_ok_def)
  show "smp_inv ((store_cpu c ?t m)\<lparr>plock := (plock m)(j := Some c)\<rparr>)" if j: "j < nslots m" "plock m j = None"
  proof -
    have "smp_inv (m\<lparr>shared := ?t, cpus := (cpus m)(c := this_cpu ?t), plock := (plock m)(j := Some c),
        held := (held m)(c := held m c), susp := susp m\<rparr>)"
      by (rule smp_inv_kernel [OF inv k])
        (use j n nlocks_acquire [OF smp_invD(7) [OF inv] j(2), of c] smp_invD(4) [OF inv] in
          \<open>auto split: if_splits\<close>)
    then show ?thesis by (simp add: store_cpu_def)
  qed
  have "smp_inv (m\<lparr>shared := ?t, cpus := (cpus m)(c := this_cpu ?t), plock := plock m,
      held := (held m)(c := held m c + 1), susp := susp m\<rparr>)"
    by (rule smp_inv_kernel [OF inv k]) (use n smp_invD(4) [OF inv] in auto)
  then show "smp_inv ((store_cpu c ?t m)\<lparr>held := (held m)(c := held m c + 1)\<rparr>)" by (simp add: store_cpu_def)
qed

lemma smp_inv_release:
  assumes inv: "smp_inv m" and k: "in_kernel m c" and t: "release_cpu (load_cpu c m) = Ok () t"
  shows "plock m j = Some c \<Longrightarrow> smp_inv ((store_cpu c t m)\<lparr>plock := (plock m)(j := None)\<rparr>)"
    "0 < held m c \<Longrightarrow> smp_inv ((store_cpu c t m)\<lparr>held := (held m)(c := held m c - 1)\<rparr>)"
proof -
  note f = release_cpu_Ok [OF t, simplified]
  have n: "noff (cpus m c) = int (held m c + nlocks (plock m) c)"
    using smp_invD(1) [OF inv, of c] by (simp add: cpu_ok_def)
  show "smp_inv ((store_cpu c t m)\<lparr>plock := (plock m)(j := None)\<rparr>)" if j: "plock m j = Some c"
  proof -
    have "smp_inv (m\<lparr>shared := t, cpus := (cpus m)(c := this_cpu t), plock := (plock m)(j := None),
        held := (held m)(c := held m c), susp := susp m\<rparr>)"
      by (rule smp_inv_kernel [OF inv k])
        (use j n f nlocks_release [OF smp_invD(7) [OF inv] j] smp_invD(4) [OF inv] in
          \<open>auto split: if_splits\<close>)
    then show ?thesis by (simp add: store_cpu_def)
  qed
  show "smp_inv ((store_cpu c t m)\<lparr>held := (held m)(c := held m c - 1)\<rparr>)" if h: "0 < held m c"
  proof -
    have "smp_inv (m\<lparr>shared := t, cpus := (cpus m)(c := this_cpu t), plock := plock m,
        held := (held m)(c := held m c - 1), susp := susp m\<rparr>)"
      by (rule smp_inv_kernel [OF inv k]) (use h n f smp_invD(4) [OF inv] in auto)
    then show ?thesis by (simp add: store_cpu_def)
  qed
qed

text \<open>A step that changes no more than a CPU's interrupt bit and whether it handles an interrupt.\<close>

lemma smp_inv_intr:
  assumes inv: "smp_inv m" and z: "noff (cpus m c) = 0" and x: "c_proc x = c_proc (cpus m c)" "noff x = noff (cpus m c)"
    and l: "l = pos m c \<or> c_proc (cpus m c) = None \<and> l \<in> {Scheduling, Handling}"
  shows "smp_inv (m\<lparr>cpus := (cpus m)(c := x), pos := (pos m)(c := l)\<rparr>)" (is "smp_inv ?n")
proof (rule smp_inv_quiet [OF inv, of c])
  show "cpu_ok ?n c" using smp_invD(1) [OF inv, of c] x z l by (auto simp: cpu_ok_def split: place.splits)
qed (use x smp_invD(4) [OF inv] in auto)

lemma scheduler_inv:
  assumes "smp_inv m" and "pos m c = Scheduling" and "procs t = procs (shared m)"
    and "c_proc (this_cpu t) = c_proc (cpus m c)" and "noff (this_cpu t) = 0"
  shows "smp_inv (store_cpu c t m)"
proof (rule smp_inv_quiet [OF assms(1), of c])
  show "cpu_ok (store_cpu c t m) c" using smp_invD(1) [OF assms(1), of c] assms by (auto simp: cpu_ok_def)
qed (use assms smp_invD(4) [OF assms(1)] in auto)

lemma in_kernel_Executing: "pos m c = Executing p \<Longrightarrow> in_kernel m c"
  by (simp add: in_kernel_def)

lemma smp_step_inv: "smp_step m n \<Longrightarrow> smp_inv m \<Longrightarrow> smp_inv n"
proof (induction rule: smp_step.induct)
  case (round m c)
  then show ?case using smp_invD(1) [of m c]
    by (intro scheduler_inv) (simp_all add: scheduler_round_def intr_on_def cpu_ok_def)
next
  case (pick m c i t)
  then show ?case by (intro smp_inv_pick)
next
  case (pass m c i t)
  then have "noff (cpus m c) = 0" using smp_invD(1) [of m c] by (simp add: cpu_ok_def)
  then show ?case using pass scheduler_pick_passes [of i "load_cpu c m" t] by (intro scheduler_inv) simp_all
next
  case (leaves m c p t)
  then show ?case by (intro smp_inv_leave)
next
  case (enter m c p t)
  then show ?case by (intro smp_inv_enter)
next
  case (yields m c p ie t)
  then have "c_proc (cpus m c) = Some p" using smp_invD(1) [of m c] by (simp add: cpu_ok_def)
  then have "gave_up p 1 (load_cpu c m) t" using yield_gives_up [of "load_cpu c m"] yields by simp
  then show ?case by (rule smp_inv_stop [OF yields(4,1,2), where h = "held m c"]) simp_all
next
  case (sleeps m c p ch ie t)
  then have "c_proc (cpus m c) = Some p" using smp_invD(1) [of m c] by (simp add: cpu_ok_def)
  then have "gave_up p 0 (load_cpu c m) t" using sleep_gives_up [of ch "load_cpu c m"] sleeps by simp
  then show ?case by (rule smp_inv_stop [OF sleeps(5,1,2), where h = "held m c - 1"]) (use sleeps(3) in simp_all)
next
  case (exits m c p status ie t)
  then have "c_proc (cpus m c) = Some p" using smp_invD(1) [of m c] by (simp add: cpu_ok_def)
  then have "gave_up p 0 (load_cpu c m) t" using exit_gives_up [of status "load_cpu c m"] exits by simp
  then show ?case by (rule smp_inv_stop [OF exits(5,1,2), where h = "held m c - 1"]) (use exits(3) in simp_all)
next
  case (locks m c j)
  then show ?case by (intro smp_inv_acquire(1))
next
  case (unlocks m c j t)
  then show ?case by (intro smp_inv_release(1))
next
  case (locks_other m c)
  then show ?case by (intro smp_inv_acquire(2))
next
  case (unlocks_other m c t)
  then show ?case by (intro smp_inv_release(2))
next
  case (wakes m c j ch)
  then show ?case using slot_bodies_quiet(1) [of "load_cpu c m" ch j] by (intro smp_inv_body) simp_all
next
  case (kills m c j pid)
  then show ?case using slot_bodies_quiet(2) [of "load_cpu c m" pid j] by (intro smp_inv_body) simp_all
next
  case (marks m c j)
  then show ?case using slot_bodies_quiet(3) [of "load_cpu c m" j] by (intro smp_inv_body) simp_all
next
  case (claims m c p j r t)
  have j: "j < nslots m" by (rule smp_invD(4) [OF claims(5,2)])
  note cl = claim_slot [OF claims(4), simplified, OF j claims(3)]
  have "child m q \<noteq> Some j" for q using smp_invD(5) [OF claims(5), of q j] claims(3) by auto
  then show ?case using cl j by (intro smp_inv_kids [OF claims(5,1)]) auto
next
  case (unclaims m c p j t)
  note e = freeproc_effect [OF unclaims(4)] and u = smp_invD(5) [OF unclaims(5,2)]
  have "smp_inv ((store_cpu c t m)\<lparr>child := (child m)(p := None), susp := susp m\<rparr>)"
    using smp_invD(6) [OF unclaims(5,2)] e freeproc_running [OF unclaims(4)] u
    by (intro smp_inv_kids [OF unclaims(5,1), where j = j]) auto
  then show ?case by (simp add: store_cpu_def)
next
  case (starts m c p j)
  note u = smp_invD(5) [OF starts(4,2)]
  let ?t = "upd_proc j (\<lambda>q. q\<lparr>p_state := RUNNABLE\<rparr>) (load_cpu c m)"
  have "smp_inv ((store_cpu c ?t m)\<lparr>child := (child m)(p := None), susp := susp m\<rparr>)"
    using smp_invD(6) [OF starts(4,2)] u upd_proc_running [of "\<lambda>q. q\<lparr>p_state := RUNNABLE\<rparr>" "load_cpu c m" j]
    by (intro smp_inv_kids [OF starts(4,1), where j = j]) (auto simp: upd_proc_other)
  then show ?case by (simp add: store_cpu_def)
next
  case (reaps m c p j addr r t)
  then show ?case using wait_slot_quiet [OF reaps(3)] in_kernel_Executing by (intro smp_inv_body) simp_all
next
  case (interrupted m c)
  then have "c_proc (cpus m c) = None \<and> noff (cpus m c) = 0" using smp_invD(1) [of m c] by (simp add: cpu_ok_def)
  then show ?case using interrupted by (intro smp_inv_intr) (simp_all add: intr_off_def)
next
  case (handled m c)
  then have "c_proc (cpus m c) = None" using smp_invD(1) [of m c] by (simp add: cpu_ok_def)
  then show ?case using handled by (intro smp_inv_intr) (simp_all add: intr_on_def)
next
  case (toggles m c p v)
  then have "smp_inv (m\<lparr>cpus := (cpus m)(c := (cpus m c)\<lparr>sstatus := v\<rparr>), pos := (pos m)(c := pos m c)\<rparr>)"
    by (intro smp_inv_intr) simp_all
  then show ?case by (simp add: store_cpu_def)
qed

lemma smp_reachable_inv: "smp_reachable m \<Longrightarrow> smp_inv m"
proof (induction rule: smp_reachable.induct)
  case (boot m)
  have "slot_state m i \<noteq> RUNNING" if "i < nslots m" for i using boot(1) [OF nth_mem [OF that]] by auto
  then show ?case using boot(2,3) by (auto simp: smp_inv_def cpu_ok_def nlocks_def)
qed (rule smp_step_inv)

subsection \<open>Progress\<close>

text \<open>On either side of a switch nothing panics: the process can always go on, and so can the scheduler.\<close>

lemma switch_returns:
  assumes "smp_inv m"
  shows "pos m c = Left p \<Longrightarrow> \<exists>t. scheduler_back (load_cpu c m) = Ok () t"
    "pos m c = Entered p \<Longrightarrow> \<exists>t. resume (susp m p) (load_cpu c m) = Ok () t"
proof -
  note c = smp_invD(1) [OF assms, of c, unfolded cpu_ok_def]
  show "\<exists>t. scheduler_back (load_cpu c m) = Ok () t" if "pos m c = Left p"
    unfolding scheduler_back_def using c that by (intro release_cpu_returns) (simp_all add: intr_get_def)
  show "\<exists>t. resume (susp m p) (load_cpu c m) = Ok () t" if "pos m c = Entered p"
    using c that by (cases "susp m p")
      (auto simp: yield_resume_def sleep_resume_def sched_resume_def intr_get_def intro!: release_cpu_returns)
qed

lemma yield_returns:
  assumes "c_proc (this_cpu s) = Some p" and "p < length (procs s)" and "noff (this_cpu s) = 0"
  shows "\<exists>ie t. yield s = Ok ie t"
  using assms by (simp add: yield_def sched_def my_slot upd_proc_def)

lemma yields_to_scheduler:
  assumes inv: "smp_inv m" and c: "pos m c = Executing p" "plock m p = None" "noff (cpus m c) = 0"
  shows "\<exists>n. smp_step\<^sup>*\<^sup>* m n \<and> pos n c = Scheduling \<and> noff (cpus n c) = 0 \<and> plock n p = None \<and>
    slot_state n p = RUNNABLE \<and> p < nslots n"
proof -
  have p: "c_proc (cpus m c) = Some p" "p < nslots m" using smp_invD(1) [OF inv, of c] c(1) by (simp_all add: cpu_ok_def)
  obtain ie t where t: "yield (load_cpu c m) = Ok ie t" using yield_returns [of "load_cpu c m" p] p c(3) by auto
  define k where "k = (store_cpu c t m)\<lparr>plock := (plock m)(p := Some c), pos := (pos m)(c := Left p),
    susp := (susp m)(p := In_yield ie)\<rparr>"
  have mk: "smp_step m k" unfolding k_def by (rule smp_step.yields [OF c(1,2) t])
  have ik: "smp_inv k" by (rule smp_step_inv [OF mk inv])
  obtain u where u: "scheduler_back (load_cpu c k) = Ok () u" using switch_returns(1) [OF ik, of c p] by (auto simp: k_def)
  define n where "n = (store_cpu c u k)\<lparr>plock := (plock k)(p := None), pos := (pos k)(c := Scheduling)\<rparr>"
  have kn: "smp_step k n" unfolding n_def by (rule smp_step.leaves [OF _ u]) (simp add: k_def)
  have "noff (cpus n c) = 0" using smp_invD(1) [OF smp_step_inv [OF kn ik], of c] by (simp add: cpu_ok_def n_def)
  moreover have "slot_state n p = RUNNABLE" "p < nslots n"
    using release_cpu_Ok(1) [OF u [unfolded scheduler_back_def]] yield_gives_up [OF t] p
    by (simp_all add: n_def k_def gave_up_def)
  moreover have "smp_step\<^sup>*\<^sup>* m n" using mk kn by (meson converse_rtranclp_into_rtranclp r_into_rtranclp)
  ultimately show ?thesis by (intro exI [of _ n]) (simp add: n_def)
qed

lemma scheduler_runs:
  assumes inv: "smp_inv m" and i: "pos m c = Scheduling" "i < nslots m" "plock m i = None" "slot_state m i = RUNNABLE"
  shows "\<exists>n. smp_step\<^sup>*\<^sup>* m n \<and> pos n c = Executing i \<and> noff (cpus n c) = 0 \<and> plock n i = None \<and>
    slot_state n i = RUNNING \<and> i < nslots n"
proof -
  obtain t where t: "scheduler_pick i (load_cpu c m) = Ok True t" using i(4) by (simp add: scheduler_pick_def Let_def)
  define k where "k = (store_cpu c t m)\<lparr>plock := (plock m)(i := Some c), pos := (pos m)(c := Entered i)\<rparr>"
  have mk: "smp_step m k" unfolding k_def by (rule smp_step.pick [OF i(1-3) t])
  have ik: "smp_inv k" by (rule smp_step_inv [OF mk inv])
  obtain u where u: "resume (susp k i) (load_cpu c k) = Ok () u" using switch_returns(2) [OF ik, of c i] by (auto simp: k_def)
  define n where "n = (store_cpu c u k)\<lparr>plock := (plock k)(i := None), pos := (pos k)(c := Executing i)\<rparr>"
  have kn: "smp_step k n" unfolding n_def by (rule smp_step.enter [OF _ u]) (simp add: k_def)
  have ck: "noff (cpus k c) = 1" using smp_invD(1) [OF ik, of c] by (simp add: cpu_ok_def k_def)
  have "slot_state n i = RUNNING" "i < nslots n"
    using smp_invD(1) [OF smp_step_inv [OF kn ik], of c] by (simp_all add: cpu_ok_def n_def)
  moreover have "noff (cpus n c) = 0" using resume_Ok(2) [OF u] ck by (simp add: n_def)
  moreover have "smp_step\<^sup>*\<^sup>* m n" using mk kn by (meson converse_rtranclp_into_rtranclp r_into_rtranclp)
  ultimately show ?thesis by (intro exI [of _ n]) (simp add: n_def)
qed

text \<open>
  C6: A process runs on one CPU at a time. In every interleaving of scheduler rounds, \<open>yield\<close>, \<open>sleep\<close>,
  \<open>exit\<close>, \<open>fork\<close>, interrupts, and the passes of \<open>wakeup\<close>, \<open>kill\<close> and \<open>wait\<close> over the table slot by slot, by
  any number of CPUs, at most one CPU has a process as its current process. One CPU does while the process
  is \<open>RUNNING\<close>, and whenever the process's lock is free a CPU has it exactly when it is \<open>RUNNING\<close>. The
  lock nesting stays balanced across the switches, so that this goes on: a CPU in the scheduler can run a
  \<open>RUNNABLE\<close> process whose lock is free, and a process that runs with no lock held can yield its CPU back
  to the scheduler, which then holds no lock.
\<close>

theorem running_on_one_cpu:
  assumes "smp_reachable m" and "i < nslots m"
  shows "(\<forall>c d. c_proc (cpus m c) = Some i \<and> c_proc (cpus m d) = Some i \<longrightarrow> c = d) \<and>
    (slot_state m i = RUNNING \<longrightarrow> (\<exists>!c. c_proc (cpus m c) = Some i)) \<and>
    (plock m i = None \<longrightarrow> (slot_state m i = RUNNING \<longleftrightarrow> (\<exists>!c. c_proc (cpus m c) = Some i))) \<and>
    (\<forall>c. pos m c = Scheduling \<and> plock m i = None \<and> slot_state m i = RUNNABLE \<longrightarrow>
      (\<exists>n. smp_step\<^sup>*\<^sup>* m n \<and> pos n c = Executing i \<and> noff (cpus n c) = 0 \<and> plock n i = None \<and>
        slot_state n i = RUNNING)) \<and>
    (\<forall>c. pos m c = Executing i \<and> plock m i = None \<and> noff (cpus m c) = 0 \<longrightarrow>
      (\<exists>n. smp_step\<^sup>*\<^sup>* m n \<and> pos n c = Scheduling \<and> noff (cpus n c) = 0 \<and> plock n i = None \<and>
        slot_state n i = RUNNABLE))"
proof -
  note inv = smp_reachable_inv [OF assms(1)]
  have r: "slot_state m i = RUNNING" if "plock m i = None" "c_proc (cpus m c) = Some i" for c
    using smp_invD(1) [OF inv, of c] that by (auto simp: cpu_ok_def split: place.splits)
  have u: "c = d" if "c_proc (cpus m c) = Some i" "c_proc (cpus m d) = Some i" for c d
    by (rule smp_invD(2) [OF inv that])
  have e: "\<exists>!c. c_proc (cpus m c) = Some i" if "slot_state m i = RUNNING"
    using smp_invD(3) [OF inv assms(2) that] u by blast
  show ?thesis
  proof (intro conjI allI impI, goal_cases)
    case 3
    then show ?case using r e by blast
  next
    case (4 c)
    then show ?case using scheduler_runs [OF inv _ assms(2)] by blast
  next
    case (5 c)
    then show ?case using yields_to_scheduler [OF inv, of c i] by blast
  qed (use u e in blast)+
qed

definition smp0 :: smp where
  "smp0 = \<lparr>shared = proc_machine, cpus = (\<lambda>_. cpu0), pos = (\<lambda>_. Scheduling), plock = (\<lambda>_. None),
     held = (\<lambda>_. 0), susp = (\<lambda>_. In_forkret), child = (\<lambda>_. None)\<rparr>"

lemma smp_steps_reachable: "smp_step\<^sup>*\<^sup>* m n \<Longrightarrow> smp_reachable m \<Longrightarrow> smp_reachable n"
  by (induction rule: rtranclp_induct) (auto intro: smp_reachable.step)

text \<open>A CPU runs a process, which yields, and runs it again: it is the only one that has it.\<close>

theorem running_on_one_cpu_witness:
  "\<exists>k l m. smp_reachable k \<and> pos k 3 = Executing 0 \<and> smp_step\<^sup>*\<^sup>* k l \<and> pos l 3 = Scheduling \<and>
     slot_state l 0 = RUNNABLE \<and> smp_step\<^sup>*\<^sup>* l m \<and> pos m 3 = Executing 0 \<and> (\<exists>!c. c_proc (cpus m c) = Some 0) \<and>
     (\<exists>n. smp_step\<^sup>*\<^sup>* m n \<and> pos n 3 = Scheduling \<and> noff (cpus n 3) = 0)"
proof -
  note inv = smp_reachable_inv
  have b: "smp_reachable smp0"
    by (rule smp_reachable.boot) (auto simp: smp0_def proc_machine_def proc0_def cpu0_def)
  have s0: "pos smp0 3 = Scheduling" "0 < nslots smp0" "plock smp0 0 = None" "slot_state smp0 0 = RUNNABLE"
    by (simp_all add: smp0_def proc_machine_def proc0_def)
  obtain k where k: "smp_step\<^sup>*\<^sup>* smp0 k" "pos k 3 = Executing 0" "noff (cpus k 3) = 0" "plock k 0 = None"
    using scheduler_runs [OF inv [OF b] s0] by blast
  have rk: "smp_reachable k" by (rule smp_steps_reachable [OF k(1) b])
  obtain l where l: "smp_step\<^sup>*\<^sup>* k l" "pos l 3 = Scheduling" "0 < nslots l" "plock l 0 = None" "slot_state l 0 = RUNNABLE"
    using yields_to_scheduler [OF inv [OF rk] k(2,4,3)] by blast
  have rl: "smp_reachable l" by (rule smp_steps_reachable [OF l(1) rk])
  obtain m where m: "smp_step\<^sup>*\<^sup>* l m" "pos m 3 = Executing 0" "noff (cpus m 3) = 0" "plock m 0 = None"
      "slot_state m 0 = RUNNING" "0 < nslots m"
    using scheduler_runs [OF inv [OF rl] l(2-5)] by blast
  have rm: "smp_reachable m" by (rule smp_steps_reachable [OF m(1) rl])
  note f = running_on_one_cpu [OF rm m(6)]
  have "\<exists>!c. c_proc (cpus m c) = Some 0" using f m(5) by blast
  moreover have "\<exists>n. smp_step\<^sup>*\<^sup>* m n \<and> pos n 3 = Scheduling \<and> noff (cpus n 3) = 0" using f m(2-4) by blast
  ultimately show ?thesis using rk k(2) l(1,2,5) m(1,2) by blast
qed

end
