(* ===== verification/Sched.thy ===== *)
theory Sched
  imports Smp
begin

text \<open>
  Properties of the process table: pids stay unique, \<open>kill(0)\<close> hits free slots, and the hand-over between
  \<open>sleep\<close> and \<open>wakeup\<close> loses no wakeup: that is a step relation at the grain of the locks they take.
\<close>

section \<open>Pids\<close>

text \<open>The live processes have distinct pids, all handed out before the next one.\<close>

definition pids_ok :: "'a proc_st_scheme \<Rightarrow> bool" where
  "pids_ok s \<longleftrightarrow>
     (\<forall>i < length (procs s). p_state (procs s ! i) \<noteq> UNUSED \<longrightarrow>
        0 < p_pid (procs s ! i) \<and> p_pid (procs s ! i) < nextpid s) \<and>
     (\<forall>i < length (procs s). \<forall>j < length (procs s). i \<noteq> j \<longrightarrow> p_state (procs s ! i) \<noteq> UNUSED \<longrightarrow>
        p_state (procs s ! j) \<noteq> UNUSED \<longrightarrow> p_pid (procs s ! i) \<noteq> p_pid (procs s ! j)) \<and> 0 < nextpid s"

lemma word_le_Suc: "(a :: u32) \<le> b \<Longrightarrow> b + 1 \<noteq> 0 \<Longrightarrow> a < b + 1"
  using unatSuc [of b] by (simp add: word_less_nat_alt word_le_nat_alt add.commute)

lemma pids_ok_claim:
  assumes "pids_ok s" and "claimed p s t" and "nextpid s + 1 \<noteq> 0"
  shows "pids_ok t"
proof -
  let ?n = "nextpid s"
  have up: "a < ?n + 1" if "a < ?n \<or> a = ?n" for a
    using that word_le_Suc [OF _ assms(3), of a] by auto
  have live: "p_pid (procs t ! i) = (if i = p then ?n else p_pid (procs s ! i)) \<and>
      (i \<noteq> p \<longrightarrow> p_state (procs t ! i) = p_state (procs s ! i))" for i
    using assms(2) by (auto simp: claimed_def same_others_def)
  have l: "length (procs t) = length (procs s)" "nextpid t = ?n + 1"
    using assms(2) by (auto simp: claimed_def same_others_def)
  have old: "p_pid (procs s ! i) < ?n" "0 < p_pid (procs s ! i)"
    if "i < length (procs s)" "p_state (procs s ! i) \<noteq> UNUSED" for i
    using assms(1) that by (auto simp: pids_ok_def)
  have pos: "0 < ?n" using assms(1) by (simp add: pids_ok_def)
  show ?thesis unfolding pids_ok_def l
  proof (intro conjI allI impI)
    fix i assume "i < length (procs s)" "p_state (procs t ! i) \<noteq> UNUSED"
    then show "0 < p_pid (procs t ! i)" "p_pid (procs t ! i) < ?n + 1"
      using live [of i] old [of i] up pos by (auto split: if_splits)
  next
    fix i j assume "i < length (procs s)" "j < length (procs s)" "i \<noteq> j"
      "p_state (procs t ! i) \<noteq> UNUSED" "p_state (procs t ! j) \<noteq> UNUSED"
    then show "p_pid (procs t ! i) \<noteq> p_pid (procs t ! j)"
      using live [of i] live [of j] old(1) [of i] old(1) [of j] assms(1)
      by (cases "i = p"; cases "j = p") (auto simp: pids_ok_def)
  qed (use up pos less_trans in blast)
qed

text \<open>
  C36: Pids are unique. While the pid counter has not wrapped around, a slot that \<open>allocproc\<close> takes was
  free and gets a pid that no live process has; the pids of the live processes stay distinct.
\<close>

theorem allocproc_unique_pid:
  assumes "pids_ok s" and "allocproc s = Ok (Some p) t" and "nextpid s + 1 \<noteq> 0"
  shows "pids_ok t \<and> p < length (procs s) \<and> p_state (procs s ! p) = UNUSED \<and> p_state (procs t ! p) = USED \<and>
    (\<forall>j < length (procs t). j \<noteq> p \<and> p_state (procs t ! j) \<noteq> UNUSED \<longrightarrow>
       p_pid (procs t ! j) \<noteq> p_pid (procs t ! p) \<and> procs t ! j = procs s ! j)"
proof -
  have c: "find_unused (procs s) 0 = Some p" "claimed p s t"
    using allocproc_effect [OF assms(2)] by auto
  note p = find_unused_first(1,2) [OF c(1)]
  have ok: "pids_ok t" by (rule pids_ok_claim [OF assms(1) c(2) assms(3)])
  have "p_state (procs t ! p) = USED" "length (procs t) = length (procs s)"
    "\<And>j. j \<noteq> p \<Longrightarrow> procs t ! j = procs s ! j"
    using c(2) by (auto simp: claimed_def same_others_def)
  moreover from this have "p_pid (procs t ! j) \<noteq> p_pid (procs t ! p)"
    if "j < length (procs t)" "j \<noteq> p" "p_state (procs t ! j) \<noteq> UNUSED" for j
    using ok that p(1) unfolding pids_ok_def by (metis procstate.distinct(1))
  ultimately show ?thesis using ok p by auto
qed

theorem allocproc_unique_pid_witness:
  "\<exists>t. allocproc proc_machine = Ok (Some 1) t \<and> pids_ok t \<and> p_pid (procs t ! 0) \<noteq> p_pid (procs t ! 1)"
proof -
  obtain t where t: "allocproc proc_machine = Ok (Some 1) t" "claimed 1 proc_machine t"
    using allocproc_succeeds [OF proc_machine_inv proc_machine_table(1)] by blast
  have ok: "pids_ok proc_machine" "nextpid proc_machine + 1 \<noteq> 0"
    using proc_machine_table by (auto simp: pids_ok_def less_2_cases_iff)
  have l: "length (procs t) = 2" "procs t ! 0 = procs proc_machine ! 0"
    using t(2) proc_machine_table(6) by (auto simp: claimed_def same_others_def)
  have u: "pids_ok t \<and> (\<forall>j < length (procs t). j \<noteq> 1 \<and> p_state (procs t ! j) \<noteq> UNUSED \<longrightarrow>
       p_pid (procs t ! j) \<noteq> p_pid (procs t ! 1) \<and> procs t ! j = procs proc_machine ! j)"
    using allocproc_unique_pid [OF ok(1) t(1) ok(2)] by (elim conjE) (intro conjI)
  have "p_state (procs t ! 0) \<noteq> UNUSED" using l(2) proc_machine_table(5) by simp
  with u l(1) have "p_pid (procs t ! 0) \<noteq> p_pid (procs t ! 1)" by (metis zero_neq_one zero_less_numeral)
  with u t(1) show ?thesis by blast
qed

section \<open>Killing pid 0\<close>

lemma kill_loop_first:
  assumes "i < length ps" and "p_pid (ps ! i) = pid" and "\<And>j. j < i \<Longrightarrow> p_pid (ps ! j) \<noteq> pid"
  shows "kill_loop pid ps = (ps[i := (ps ! i)\<lparr>p_killed := True,
    p_state := (if p_state (ps ! i) = SLEEPING then RUNNABLE else p_state (ps ! i))\<rparr>], 0)"
  using assms
proof (induction ps arbitrary: i)
  case (Cons p ps)
  show ?case
  proof (cases i)
    case (Suc k)
    have "p_pid p \<noteq> pid" using Cons.prems(3) [of 0] Suc by simp
    moreover have "kill_loop pid ps = (ps[k := (ps ! k)\<lparr>p_killed := True,
        p_state := (if p_state (ps ! k) = SLEEPING then RUNNABLE else p_state (ps ! k))\<rparr>], 0)"
      using Cons.prems Suc by (intro Cons.IH) (use Cons.prems(3) [of "Suc _"] in auto)
    ultimately show ?thesis using Suc by simp
  qed (use Cons.prems in simp)
qed simp

lemma find_unused_cong: "map p_state ps = map p_state qs \<Longrightarrow> find_unused ps k = find_unused qs k"
proof (induction ps arbitrary: qs k)
  case (Cons p ps)
  then show ?case by (cases qs) auto
qed simp

text \<open>
  C37: \<open>kill(0)\<close> succeeds on a free slot. A slot that is not in use has pid 0, and \<open>kill\<close> does not look
  at the state of the slot it finds: it returns 0 and leaves the free slot marked killed. \<open>allocproc\<close>
  does not clear the mark: as long as four pages are free, the next call takes that slot, and the new
  process is born killed.
\<close>

theorem kill_zero_marks_free_slot:
  assumes "find_unused (procs s) 0 = Some i" and "p_pid (procs s ! i) = 0"
    and "\<forall>j < i. p_pid (procs s ! j) \<noteq> 0"
  shows "\<exists>t. kill 0 s = Ok 0 t \<and> p_state (procs t ! i) = UNUSED \<and> p_killed (procs t ! i) \<and>
    (\<forall>tf r a b ps. kmem_inv s (tf # r # a # b # ps) \<longrightarrow>
       (\<exists>u. allocproc t = Ok (Some i) u \<and> p_state (procs u ! i) = USED \<and> p_killed (procs u ! i)))"
proof -
  note f = find_unused_first(1,2) [OF assms(1)]
  let ?ps = "(procs s)[i := (procs s ! i)\<lparr>p_killed := True, p_state := UNUSED\<rparr>]"
  let ?t = "s\<lparr>procs := ?ps\<rparr>"
  have k: "kill 0 s = Ok 0 ?t"
    using kill_loop_first [of i "procs s" 0] f assms(2,3) by (simp add: kill_def)
  have "map p_state ?ps = map p_state (procs s)"
    using f by (simp add: map_update) (metis list_update_id nth_map)
  then have "find_unused ?ps 0 = Some i" using find_unused_cong assms(1) by metis
  then have "\<exists>u. allocproc ?t = Ok (Some i) u \<and> p_state (procs u ! i) = USED \<and> p_killed (procs u ! i)"
    if m: "kmem_inv s (tf # r # a # b # ps)" for tf r a b ps
    using allocproc_succeeds [of ?t tf r a b ps i] m f(1)
    by (auto simp: claimed_def kmem_inv_def valid_page_def)
  with k f show ?thesis by (intro exI [of _ ?t]) simp
qed

theorem kill_zero_marks_free_slot_witness:
  "\<exists>t u. kill 0 proc_machine = Ok 0 t \<and> allocproc t = Ok (Some 1) u \<and> p_killed (procs u ! 1)"
proof -
  have "\<forall>j < 1. p_pid (procs proc_machine ! j) \<noteq> 0" using proc_machine_table(4) by simp
  then obtain t where "kill 0 proc_machine = Ok 0 t" and next_alloc: "\<forall>tf r a b ps.
      kmem_inv proc_machine (tf # r # a # b # ps) \<longrightarrow>
        (\<exists>u. allocproc t = Ok (Some 1) u \<and> p_state (procs u ! 1) = USED \<and> p_killed (procs u ! 1))"
    using kill_zero_marks_free_slot [OF proc_machine_table(1,2)] by auto
  moreover from next_alloc [rule_format, OF proc_machine_inv] obtain u where
    "allocproc t = Ok (Some 1) u" "p_killed (procs u ! 1)" by auto
  ultimately show ?thesis by blast
qed

section \<open>No lost wakeup\<close>

text \<open>
  One process that waits for a condition under a lock \<open>lk\<close>,
  \<open>acquire(lk); while(!cond) sleep(chan, lk); cond = 0; release(lk)\<close>, and any number of CPUs that set it,
  \<open>acquire(lk); cond = 1; wakeup(chan); release(lk)\<close>. The steps are the statements of \<open>sleep\<close> and
  \<open>wakeup\<close> between which a lock changes hands; the locks are atomic, as \<open>Spinlock\<close> shows them to be.
\<close>

datatype agent = Sleeper | Waker nat

datatype sleeper_pc =
    S_out | S_checking | S_both_locks | S_only_plock | S_marked | S_switched | S_resumed | S_wants_lk | S_done

datatype waker_pc = W_out | W_locked | W_set | W_at_proc | W_done

record handover =
  ho_lk :: "agent option"
  ho_plock :: "agent option"
  ho_state :: procstate
  ho_chan :: chan
  ho_cond :: bool
  ho_sleeper :: sleeper_pc
  ho_wakers :: "nat \<Rightarrow> waker_pc"

inductive handover_step :: "chan \<Rightarrow> handover \<Rightarrow> handover \<Rightarrow> bool" for ch where
  s_acquire: "ho_sleeper h = S_out \<Longrightarrow> ho_lk h = None \<Longrightarrow>
    handover_step ch h (h\<lparr>ho_lk := Some Sleeper, ho_sleeper := S_checking\<rparr>)"
| s_found: "ho_sleeper h = S_checking \<Longrightarrow> ho_cond h \<Longrightarrow>
    handover_step ch h (h\<lparr>ho_cond := False, ho_sleeper := S_done\<rparr>)"
| s_release: "ho_sleeper h = S_done \<Longrightarrow>
    handover_step ch h (h\<lparr>ho_lk := None, ho_sleeper := S_out\<rparr>)"
| s_acquire_plock: "ho_sleeper h = S_checking \<Longrightarrow> \<not> ho_cond h \<Longrightarrow> ho_plock h = None \<Longrightarrow>
    handover_step ch h (h\<lparr>ho_plock := Some Sleeper, ho_sleeper := S_both_locks\<rparr>)"
| s_release_lk: "ho_sleeper h = S_both_locks \<Longrightarrow>
    handover_step ch h (h\<lparr>ho_lk := None, ho_sleeper := S_only_plock\<rparr>)"
| s_mark: "ho_sleeper h = S_only_plock \<Longrightarrow>
    handover_step ch h (h\<lparr>ho_chan := ch, ho_state := SLEEPING, ho_sleeper := S_marked\<rparr>)"
| s_switch: "ho_sleeper h = S_marked \<Longrightarrow>
    handover_step ch h (h\<lparr>ho_plock := None, ho_sleeper := S_switched\<rparr>)"
| s_picked: "ho_sleeper h = S_switched \<Longrightarrow> ho_state h = RUNNABLE \<Longrightarrow> ho_plock h = None \<Longrightarrow>
    handover_step ch h (h\<lparr>ho_plock := Some Sleeper, ho_state := RUNNING, ho_sleeper := S_resumed\<rparr>)"
| s_tidy: "ho_sleeper h = S_resumed \<Longrightarrow>
    handover_step ch h (h\<lparr>ho_plock := None, ho_chan := NoChan, ho_sleeper := S_wants_lk\<rparr>)"
| s_reacquire: "ho_sleeper h = S_wants_lk \<Longrightarrow> ho_lk h = None \<Longrightarrow>
    handover_step ch h (h\<lparr>ho_lk := Some Sleeper, ho_sleeper := S_checking\<rparr>)"
| w_acquire: "ho_wakers h c = W_out \<Longrightarrow> ho_lk h = None \<Longrightarrow>
    handover_step ch h (h\<lparr>ho_lk := Some (Waker c), ho_wakers := (ho_wakers h)(c := W_locked)\<rparr>)"
| w_set: "ho_wakers h c = W_locked \<Longrightarrow>
    handover_step ch h (h\<lparr>ho_cond := True, ho_wakers := (ho_wakers h)(c := W_set)\<rparr>)"
| w_acquire_plock: "ho_wakers h c = W_set \<Longrightarrow> ho_plock h = None \<Longrightarrow>
    handover_step ch h (h\<lparr>ho_plock := Some (Waker c), ho_wakers := (ho_wakers h)(c := W_at_proc)\<rparr>)"
| w_wake: "ho_wakers h c = W_at_proc \<Longrightarrow>
    handover_step ch h (h\<lparr>ho_state := (if ho_state h = SLEEPING \<and> ho_chan h = ch then RUNNABLE else ho_state h),
      ho_plock := None, ho_wakers := (ho_wakers h)(c := W_done)\<rparr>)"
| w_release: "ho_wakers h c = W_done \<Longrightarrow>
    handover_step ch h (h\<lparr>ho_lk := None, ho_wakers := (ho_wakers h)(c := W_out)\<rparr>)"

inductive handover_reachable :: "chan \<Rightarrow> handover \<Rightarrow> bool" for ch where
  start: "handover_reachable ch \<lparr>ho_lk = None, ho_plock = None, ho_state = RUNNING, ho_chan = NoChan, ho_cond = b,
    ho_sleeper = S_out, ho_wakers = (\<lambda>_. W_out)\<rparr>"
| step: "handover_reachable ch h \<Longrightarrow> handover_step ch h k \<Longrightarrow> handover_reachable ch k"

text \<open>
  The process of the handover as a slot of the process table: \<open>wakeup\<close> does to the slot what the step
  \<open>w_wake\<close> does to the handover.
\<close>

definition models_sleeper :: "'a proc_st_scheme \<Rightarrow> nat \<Rightarrow> handover \<Rightarrow> bool" where
  "models_sleeper s i h \<longleftrightarrow> i < length (procs s) \<and> myproc s \<noteq> Some i \<and>
     p_state (procs s ! i) = ho_state h \<and> p_chan (procs s ! i) = ho_chan h"

lemma wakeup_at_proc:
  assumes "models_sleeper s i h"
  shows "p_state (procs (wakeup ch s) ! i) =
    (if ho_state h = SLEEPING \<and> ho_chan h = ch then RUNNABLE else ho_state h)"
  using assms by (simp add: models_sleeper_def wakeup_def Let_def)

text \<open>Who holds which lock, and where the sleeper is when it is marked.\<close>

definition handover_inv :: "chan \<Rightarrow> handover \<Rightarrow> bool" where
  "handover_inv ch h \<longleftrightarrow>
     (ho_lk h = Some Sleeper \<longleftrightarrow> ho_sleeper h \<in> {S_checking, S_both_locks, S_done}) \<and>
     (\<forall>c. ho_lk h = Some (Waker c) \<longleftrightarrow> ho_wakers h c \<noteq> W_out) \<and>
     (ho_plock h = Some Sleeper \<longleftrightarrow> ho_sleeper h \<in> {S_both_locks, S_only_plock, S_marked, S_resumed}) \<and>
     (\<forall>c. ho_plock h = Some (Waker c) \<longleftrightarrow> ho_wakers h c = W_at_proc) \<and>
     (ho_state h = SLEEPING \<longrightarrow> ho_sleeper h \<in> {S_marked, S_switched} \<and> ho_chan h = ch) \<and>
     (ho_sleeper h = S_marked \<longrightarrow> ho_state h = SLEEPING) \<and>
     (ho_sleeper h = S_switched \<longrightarrow> ho_state h \<in> {SLEEPING, RUNNABLE}) \<and>
     (ho_sleeper h = S_both_locks \<longrightarrow> \<not> ho_cond h) \<and>
     (ho_cond h \<and> (ho_sleeper h = S_only_plock \<or> ho_state h = SLEEPING) \<longrightarrow>
        (\<exists>c. ho_wakers h c \<in> {W_set, W_at_proc}))"

lemma handover_invD:
  assumes "handover_inv ch h"
  shows "ho_lk h = Some Sleeper \<longleftrightarrow> ho_sleeper h \<in> {S_checking, S_both_locks, S_done}"
    "ho_lk h = Some (Waker c) \<longleftrightarrow> ho_wakers h c \<noteq> W_out"
    "ho_plock h = Some (Waker c) \<longleftrightarrow> ho_wakers h c = W_at_proc"
    "ho_state h = SLEEPING \<Longrightarrow> ho_sleeper h \<in> {S_marked, S_switched} \<and> ho_chan h = ch"
    "ho_cond h \<Longrightarrow> ho_sleeper h = S_only_plock \<or> ho_state h = SLEEPING \<Longrightarrow> \<exists>c. ho_wakers h c \<in> {W_set, W_at_proc}"
  using assms unfolding handover_inv_def by blast+

lemma handover_step_inv: "handover_step ch h k \<Longrightarrow> handover_inv ch h \<Longrightarrow> handover_inv ch k"
proof (induction rule: handover_step.induct)
  case (s_acquire h)
  then show ?case unfolding handover_inv_def by auto
next
  case (s_found h)
  then show ?case unfolding handover_inv_def by auto
next
  case (s_release h)
  then show ?case unfolding handover_inv_def by auto
next
  case (s_acquire_plock h)
  then show ?case unfolding handover_inv_def by auto
next
  case (s_release_lk h)
  then show ?case unfolding handover_inv_def by auto
next
  case (s_mark h)
  then show ?case unfolding handover_inv_def by auto
next
  case (s_switch h)
  then show ?case unfolding handover_inv_def by auto
next
  case (s_picked h)
  then show ?case unfolding handover_inv_def by auto
next
  case (s_tidy h)
  then show ?case unfolding handover_inv_def by auto
next
  case (s_reacquire h)
  then show ?case unfolding handover_inv_def by auto
next
  case (w_acquire h c)
  then show ?case unfolding handover_inv_def by auto
next
  case (w_set h c)
  then have lk: "ho_lk h = Some (Waker c)" by (simp add: handover_inv_def)
  then have "ho_sleeper h \<noteq> S_both_locks" "ho_plock h \<noteq> Some (Waker c)" using w_set by (auto simp: handover_inv_def)
  with w_set lk show ?case unfolding handover_inv_def by (intro conjI allI impI) (auto split: if_splits)
next
  case (w_acquire_plock h c)
  then have "ho_lk h = Some (Waker c)" by (simp add: handover_inv_def)
  with w_acquire_plock show ?case unfolding handover_inv_def by (intro conjI allI impI) (auto)
next
  case (w_wake h c)
  then have "ho_lk h = Some (Waker c)" "ho_plock h = Some (Waker c)" by (simp_all add: handover_inv_def)
  with w_wake show ?case unfolding handover_inv_def by (intro conjI allI impI) (auto)
next
  case (w_release h c)
  note D = handover_invD [OF w_release(2)]
  have lk: "ho_lk h = Some (Waker c)" using D(2) w_release(1) by simp
  have others: "ho_wakers h d = W_out" if "d \<noteq> c" for d
    using D(2) [of d] lk that by auto
  have idle: "\<not> (\<exists>d. ho_wakers h d \<in> {W_set, W_at_proc})"
  proof
    assume "\<exists>d. ho_wakers h d \<in> {W_set, W_at_proc}"
    then obtain d where "ho_wakers h d \<in> {W_set, W_at_proc}" ..
    with others [of d] w_release(1) show False by (cases "d = c") auto
  qed
  then have none: "\<not> (ho_cond h \<and> (ho_sleeper h = S_only_plock \<or> ho_state h = SLEEPING))"
    using D(5) by blast
  have "ho_sleeper h \<notin> {S_checking, S_both_locks, S_done}" using D(1) lk by simp
  moreover have "ho_plock h \<noteq> Some (Waker d)" for d using D(3) idle by simp
  ultimately show ?case using w_release none others by (simp add: handover_inv_def)
qed

lemma handover_reachable_inv: "handover_reachable ch h \<Longrightarrow> handover_inv ch h"
proof (induction rule: handover_reachable.induct)
  case (start b)
  then show ?case by (simp add: handover_inv_def)
qed (rule handover_step_inv)

text \<open>A run in which a CPU sets the condition while the process is asleep.\<close>

lemma handover_asleep: "\<exists>h. handover_reachable TicksChan h \<and> ho_cond h \<and> ho_state h = SLEEPING"
proof -
  let ?r = "handover_reachable TicksChan"
  define h0 where "h0 = \<lparr>ho_lk = None, ho_plock = None, ho_state = RUNNING, ho_chan = NoChan, ho_cond = False,
    ho_sleeper = S_out, ho_wakers = (\<lambda>_. W_out)\<rparr>"
  define h1 where "h1 = h0\<lparr>ho_lk := Some Sleeper, ho_sleeper := S_checking\<rparr>"
  define h2 where "h2 = h1\<lparr>ho_plock := Some Sleeper, ho_sleeper := S_both_locks\<rparr>"
  define h3 where "h3 = h2\<lparr>ho_lk := None, ho_sleeper := S_only_plock\<rparr>"
  define h4 where "h4 = h3\<lparr>ho_chan := TicksChan, ho_state := SLEEPING, ho_sleeper := S_marked\<rparr>"
  define h5 where "h5 = h4\<lparr>ho_lk := Some (Waker 0), ho_wakers := (ho_wakers h4)(0 := W_locked)\<rparr>"
  define h6 where "h6 = h5\<lparr>ho_cond := True, ho_wakers := (ho_wakers h5)(0 := W_set)\<rparr>"
  note hs = h0_def h1_def h2_def h3_def h4_def h5_def h6_def
  note go = handover_reachable.step
  have "?r h0" unfolding h0_def by (rule handover_reachable.start)
  then have "?r h1" unfolding h1_def by (rule go [OF _ handover_step.s_acquire]) (simp_all add: hs)
  then have "?r h2" unfolding h2_def by (rule go [OF _ handover_step.s_acquire_plock]) (simp_all add: hs)
  then have "?r h3" unfolding h3_def by (rule go [OF _ handover_step.s_release_lk]) (simp_all add: hs)
  then have "?r h4" unfolding h4_def by (rule go [OF _ handover_step.s_mark]) (simp_all add: hs)
  then have "?r h5" unfolding h5_def by (rule go [OF _ handover_step.w_acquire]) (simp_all add: hs)
  then have r: "?r h6" unfolding h6_def by (rule go [OF _ handover_step.w_set]) (simp_all add: hs)
  have "ho_cond h6" "ho_state h6 = SLEEPING" by (simp_all add: hs)
  with r show ?thesis by blast
qed

text \<open>
  C7: No wakeup is lost. In every interleaving of a process that sleeps until a condition holds with any
  number of CPUs that set it and call \<open>wakeup\<close>, whenever the condition holds while the process is
  asleep, some CPU has set the condition and has yet to look at the process; and when such a CPU has
  looked, the process is asleep no longer. The step of that CPU is the code's: \<open>wakeup\<close>, called on a
  process table that holds this process in slot \<open>i\<close>, makes it \<open>RUNNABLE\<close>.
\<close>

theorem no_lost_wakeup:
  assumes "handover_reachable ch h" and "ho_cond h" and "ho_state h = SLEEPING"
  shows "(\<exists>c. ho_wakers h c \<in> {W_set, W_at_proc}) \<and>
    (\<forall>c k. handover_step ch h k \<longrightarrow> ho_wakers h c = W_at_proc \<longrightarrow> ho_wakers k c = W_done \<longrightarrow> ho_state k = RUNNABLE) \<and>
    (\<forall>s i. models_sleeper s i h \<longrightarrow> p_state (procs (wakeup ch s) ! i) = RUNNABLE)"
proof -
  note inv = handover_reachable_inv [OF assms(1)]
  have "ho_state k = RUNNABLE"
    if "handover_step ch h k" "ho_wakers h c = W_at_proc" "ho_wakers k c = W_done" for c k
    using that handover_invD(4) [OF inv assms(3)] assms(3)
    by (cases rule: handover_step.cases) (auto split: if_splits)
  moreover have "p_state (procs (wakeup ch s) ! i) = RUNNABLE" if "models_sleeper s i h" for s :: "'a proc_st_scheme" and i
    using wakeup_at_proc [OF that] handover_invD(4) [OF inv assms(3)] assms(3) by simp
  ultimately show ?thesis using handover_invD(5) [OF inv assms(2)] assms(3) by blast
qed

theorem no_lost_wakeup_witness:
  "\<exists>h. handover_reachable TicksChan h \<and> ho_cond h \<and> ho_state h = SLEEPING \<and> (\<exists>c. ho_wakers h c \<in> {W_set, W_at_proc})"
  using handover_asleep no_lost_wakeup by blast

text \<open>
  C32: A sleeper whose condition holds can always be woken. From every reachable state in which the
  condition holds and the process is asleep, some further steps make it runnable: the locks cannot keep
  the CPU that has set the condition from reaching it.
\<close>

theorem sleeper_gets_woken:
  assumes "handover_reachable ch h" and "ho_cond h" and "ho_state h = SLEEPING"
  shows "\<exists>k. (handover_step ch)\<^sup>*\<^sup>* h k \<and> ho_state k = RUNNABLE"
proof -
  note inv = handover_reachable_inv [OF assms(1)]
  note D = handover_invD [OF inv]
  have sl: "ho_sleeper h \<in> {S_marked, S_switched}" "ho_chan h = ch" using D(4) assms(3) by auto
  obtain c where c: "ho_wakers h c \<in> {W_set, W_at_proc}" using D(5) assms by blast
  have wake: "\<exists>k. (handover_step ch)\<^sup>*\<^sup>* g k \<and> ho_state k = RUNNABLE"
    if "ho_wakers g c = W_at_proc" "ho_state g = SLEEPING" "ho_chan g = ch" for g
  proof -
    let ?k = "g\<lparr>ho_state := RUNNABLE, ho_plock := None, ho_wakers := (ho_wakers g)(c := W_done)\<rparr>"
    have "handover_step ch g ?k" using handover_step.w_wake [OF that(1), of ch] that(2,3) by simp
    then show ?thesis by (intro exI [of _ ?k]) auto
  qed
  have lock: "\<exists>k. (handover_step ch)\<^sup>*\<^sup>* g k \<and> ho_state k = RUNNABLE"
    if g: "ho_wakers g c = W_set" "ho_plock g = None" "ho_state g = SLEEPING" "ho_chan g = ch" for g
  proof -
    let ?g = "g\<lparr>ho_plock := Some (Waker c), ho_wakers := (ho_wakers g)(c := W_at_proc)\<rparr>"
    obtain k where "(handover_step ch)\<^sup>*\<^sup>* ?g k" "ho_state k = RUNNABLE" using wake [of ?g] g(3,4) by auto
    then show ?thesis using handover_step.w_acquire_plock [OF g(1,2), of ch] by (meson converse_rtranclp_into_rtranclp)
  qed
  show ?thesis
  proof (cases "ho_wakers h c = W_at_proc")
    case True
    then show ?thesis using wake assms(3) sl(2) by blast
  next
    case False
    then have w: "ho_wakers h c = W_set" using c by simp
    then have lk: "ho_lk h = Some (Waker c)" using D(2) by simp
    have noother: "ho_plock h \<noteq> Some (Waker d)" for d
      using D(2) [of d] D(3) [of d] lk w by (cases "d = c") auto
    show ?thesis
    proof (cases "ho_sleeper h = S_marked")
      case True
      let ?g = "h\<lparr>ho_plock := None, ho_sleeper := S_switched\<rparr>"
      obtain k where "(handover_step ch)\<^sup>*\<^sup>* ?g k" "ho_state k = RUNNABLE"
        using lock [of ?g] w assms(3) sl(2) by auto
      then show ?thesis using handover_step.s_switch [OF True, of ch] by (meson converse_rtranclp_into_rtranclp)
    next
      case False
      then have "ho_sleeper h = S_switched" using sl(1) by simp
      then have "ho_plock h \<noteq> Some Sleeper" using inv by (simp add: handover_inv_def)
      then have "ho_plock h = None" using noother by (metis agent.exhaust option.exhaust)
      then show ?thesis using lock w assms(3) sl(2) by blast
    qed
  qed
qed

theorem sleeper_gets_woken_witness:
  "\<exists>h k. handover_reachable TicksChan h \<and> ho_state h = SLEEPING \<and> (handover_step TicksChan)\<^sup>*\<^sup>* h k \<and>
     ho_state k = RUNNABLE"
  using handover_asleep sleeper_gets_woken by blast

end
