(* ===== verification/Traplaws.thy ===== *)
theory Traplaws
  imports Trap
begin

text \<open>
  What the trap path promises: \<open>usertrapret\<close> sets the hart up to return to the saved user program
  counter in user mode and leaves the saved user registers alone; an unknown system call number makes the
  call return \<open>-1\<close>; and tracing \<open>pgaccess\<close> reads past the end of the table of names.
\<close>

section \<open>The trap frame as registers\<close>

definition reg :: "nat \<Rightarrow> u64" where
  "reg k = 8 * of_nat k"

lemma reg_slot:
  assumes "page_aligned b" and "k < 512"
  shows "unat (b + reg k) = unat b + 8 * k" "slot (b + reg k)"
proof -
  have e: "reg k = of_nat (8 * k)" by (simp add: reg_def)
  show u: "unat (b + reg k) = unat b + 8 * k"
    unfolding e using aligned_top [OF assms(1)] assms(2) by (intro unat_add_no_wrap) simp
  show "slot (b + reg k)"
    using assms(1) by (auto simp: slot_def u page_aligned_unat elim!: dvdE)
qed

lemma tf_get_set:
  assumes "page_aligned (p_trapframe (procs s ! p))" and "k < 512" and "j < 512"
  shows "tf_get p (reg k) (tf_set p (reg j) v s) = (if k = j then v else tf_get p (reg k) s)"
proof -
  let ?b = "p_trapframe (procs s ! p)"
  have "?b + reg j \<noteq> ?b + reg k" if "k \<noteq> j"
    using reg_slot(1) [OF assms(1,2)] reg_slot(1) [OF assms(1,3)] that by (auto simp: word_unat_eq_iff)
  then show ?thesis
    using reg_slot(2) [OF assms(1)] assms(2,3) by (auto simp: tf_get_def tf_set_def load64_other_slot)
qed

lemma tf_regs:
  "tf_kernel_satp = reg 0" "tf_kernel_sp = reg 1" "tf_kernel_trap = reg 2" "tf_epc = reg 3"
  "tf_kernel_hartid = reg 4" "tf_a 0 = reg 14" "tf_a7 = reg 21"
  by (simp_all add: reg_def tf_offsets tf_a7_def)

lemma tf_set_sel [simp]:
  "procs (tf_set p off v s) = procs s" "this_cpu (tf_set p off v s) = this_cpu s"
  by (simp_all add: tf_set_def)

lemma tf_set_hart [simp]:
  fixes s :: "'a kern_st_scheme"
  shows "hart (tf_set p off v s) = hart s" "sym_usertrap (tf_set p off v s) = sym_usertrap s"
    "sym_uservec (tf_set p off v s) = sym_uservec s" "sym_trampoline (tf_set p off v s) = sym_trampoline s"
  by (simp_all add: tf_set_def)

lemma tf_get_frame [simp]:
  fixes s :: "'a kern_st_scheme"
  shows "tf_get p off (s\<lparr>this_cpu := c\<rparr>) = tf_get p off s" "tf_get p off (upd_hart f s) = tf_get p off s"
  by (simp_all add: tf_get_def upd_hart_def)

lemma upd_hart_sel [simp]:
  fixes s :: "'a kern_st_scheme"
  shows "hart (upd_hart f s) = f (hart s)" "procs (upd_hart f s) = procs s" "this_cpu (upd_hart f s) = this_cpu s"
    "sym_usertrap (upd_hart f s) = sym_usertrap s" "sym_uservec (upd_hart f s) = sym_uservec s"
    "sym_trampoline (upd_hart f s) = sym_trampoline s"
  by (simp_all add: upd_hart_def)

section \<open>Returning to user space\<close>

lemma user_status:
  "\<not> bit ((st AND NOT SSTATUS_SPP) OR SSTATUS_SPIE :: u64) 8"
  "bit ((st AND NOT SSTATUS_SPP) OR SSTATUS_SPIE :: u64) 5"
  by (simp_all add: SSTATUS_SPP_def SSTATUS_SPIE_def bit_or_iff bit_and_iff bit_not_iff bit_push_bit_iff bit_1_iff)

text \<open>
  C33: The way back to user space. For a process whose trap frame is a page, \<open>usertrapret\<close> returns the
  register value for the page table of the process; the hart will resume at the saved user program counter,
  in user mode, with interrupts off until then and on afterwards, and will enter the trampoline on the next
  trap; the trap frame holds the kernel's page table, stack, handler and hart number, and no saved user
  register has changed.
\<close>

theorem usertrapret_resumes_user:
  fixes s :: "'a kern_st_scheme"
  assumes "myproc s = Some p" and "page_aligned (p_trapframe (procs s ! p))"
  shows "\<exists>t. usertrapret s = Ok (MAKE_SATP (p_pagetable (procs s ! p))) t \<and>
    h_sepc (hart t) = tf_get p tf_epc s \<and> h_stvec (hart t) = TRAMPOLINE + (sym_uservec s - sym_trampoline s) \<and>
    \<not> bit (sstatus (this_cpu t)) 8 \<and> bit (sstatus (this_cpu t)) 5 \<and> \<not> intr_get (this_cpu t) \<and>
    tf_get p tf_kernel_satp t = h_satp (hart s) \<and> tf_get p tf_kernel_sp t = p_kstack (procs s ! p) + PGSIZE \<and>
    tf_get p tf_kernel_trap t = sym_usertrap s \<and> tf_get p tf_kernel_hartid t = of_nat (h_id (hart s)) \<and>
    (\<forall>k. k = 3 \<or> 5 \<le> k \<and> k < 36 \<longrightarrow> tf_get p (reg k) t = tf_get p (reg k) s)"
proof -
  let ?c = "intr_off (this_cpu s)"
  have "\<not> intr_get (?c\<lparr>sstatus := (sstatus ?c AND NOT SSTATUS_SPP) OR SSTATUS_SPIE\<rparr>)"
    by (simp add: intr_get_bit intr_off_def SSTATUS_SPP_def SSTATUS_SPIE_def bit_or_iff bit_and_iff bit_not_iff
        bit_push_bit_iff bit_1_iff bit_SIE)
  then show ?thesis
    unfolding usertrapret_def Let_def using assms
    by (auto simp: me_def tf_regs tf_get_set user_status)
qed

section \<open>Messages\<close>

text \<open>A format whose conversions are \<open>%d\<close>, \<open>%p\<close> and \<open>%s\<close>, each with an argument of its type.\<close>

fun fmt_ok :: "u8 list \<Rightarrow> arg list \<Rightarrow> bool" where
  "fmt_ok [] args \<longleftrightarrow> True"
| "fmt_ok [c] args \<longleftrightarrow> True"
| "fmt_ok (c # c2 # fmt) args \<longleftrightarrow>
     (if c \<noteq> 0x25 then fmt_ok (c2 # fmt) args
      else if c2 = 0x64 then (case args of ArgInt x # args \<Rightarrow> fmt_ok fmt args | _ \<Rightarrow> False)
      else if c2 = 0x73 then (case args of ArgStr x # args \<Rightarrow> fmt_ok fmt args | _ \<Rightarrow> False)
      else c2 \<noteq> 0x78 \<and> c2 \<noteq> 0x70 \<and> fmt_ok fmt args)"

lemma prints_printf_loop: "fmt_ok fmt args \<Longrightarrow> prints (printf_loop fmt args :: 'a uart_st_scheme \<Rightarrow> _)"
proof (induction fmt args rule: fmt_ok.induct)
  case (1 args)
  have "printf_loop [] args = (Ok () :: 'a uart_st_scheme \<Rightarrow> _)" by (simp add: fun_eq_iff)
  then show ?case by (simp add: prints_Ok)
next
  case (2 c args)
  have "printf_loop [c] args = (if c \<noteq> 0x25 then consputc (ucast c) else Ok () :: 'a uart_st_scheme \<Rightarrow> _)"
    by (simp add: fun_eq_iff)
  then show ?case by (simp add: prints_Ok prints_consputc)
next
  case (3 c c2 fmt args)
  let ?m = "printf_loop (c # c2 # fmt) args :: 'a uart_st_scheme \<Rightarrow> _"
  consider (plain) "c \<noteq> 0x25" | (dec) "c = 0x25" "c2 = 0x64" | (str) "c = 0x25" "c2 = 0x73"
    | (other) "c = 0x25" "c2 \<noteq> 0x64" "c2 \<noteq> 0x73" by blast
  then show ?case
  proof cases
    case plain
    then have "?m = (\<lambda>s. bind (consputc (ucast c) s) (\<lambda>_ s. printf_loop (c2 # fmt) args s))" by (simp add: fun_eq_iff)
    then show ?thesis using prints_bind [OF prints_consputc 3(1)] plain 3(5) by simp
  next
    case dec
    then obtain x as where a: "args = ArgInt x # as" "fmt_ok fmt as"
      using 3(5) by (auto split: list.splits arg.splits)
    then have "?m = (\<lambda>s. bind (printint x 10 True s) (\<lambda>_ s. printf_loop fmt as s))" using dec by (simp add: fun_eq_iff)
    then show ?thesis using prints_bind [OF prints_printint 3(2)] dec a by simp
  next
    case str
    then obtain x as where a: "args = ArgStr x # as" "fmt_ok fmt as"
      using 3(5) by (auto split: list.splits arg.splits)
    then have "?m = (\<lambda>s. bind (putchars (case x of None \<Rightarrow> ascii ''(null)'' | Some cs \<Rightarrow> cs) s) (\<lambda>_ s. printf_loop fmt as s))"
      using str by (simp add: fun_eq_iff)
    then show ?thesis using prints_bind [OF prints_putchars 3(3)] str a by simp
  next
    case other
    then have "?m = (if c2 = 0x25 then (\<lambda>s. bind (consputc 0x25 s) (\<lambda>_ s. printf_loop fmt args s))
      else (\<lambda>s. bind (consputc 0x25 s) (\<lambda>_ s. bind (consputc (ucast c2) s) (\<lambda>_ s. printf_loop fmt args s))))"
      using 3(5) by (auto simp: fun_eq_iff)
    moreover have "prints (printf_loop fmt args :: 'a uart_st_scheme \<Rightarrow> _)" using 3(4,5) other by simp
    ultimately show ?thesis by (simp add: prints_bind prints_consputc)
  qed
qed

lemma printf_live:
  assumes "fmt_ok fmt args" and "uart_live s"
  shows "\<exists>t. printf (Some fmt) args s = Ok () t \<and> tty_frame s t"
  using printsD(2) [OF prints_printf_loop [OF assms(1)] assms(2)] by (auto simp: printf_def)

lemma tty_frame_kern:
  fixes s t :: "'a kern_st_scheme"
  assumes "tty_frame s t"
  shows "tf_get p off t = tf_get p off s" "procs t = procs s" "this_cpu t = this_cpu s"
  using assms by (auto simp: tty_frame_def tf_get_def)

section \<open>System call numbers\<close>

lemma unat_pos_sint: "0 < sint (num :: u32) \<Longrightarrow> unat num = nat (sint num)"
  using sint_abs [of num] by (metis abs_of_pos nat_int order.asym)

lemma unknown_syscall:
  assumes "sint (num :: u32) < 1 \<or> 23 < sint num \<and> sint num \<noteq> 30"
  shows "\<not> (0 < sint num \<and> sint num < NELEM_syscalls) \<or> syscalls (unat num) = None"
  using assms unat_pos_sint [of num] by (auto simp: syscalls_def SYS_pgaccess_def NELEM_syscalls_def)

lemma unknown_fmt:
  "fmt_ok (ascii ''%d %s: unknown sys call %d'' @ [10]) [ArgInt a, ArgStr b, ArgInt c]"
  by (simp add: ascii_def)

text \<open>
  An unknown system call. When the process's register \<open>a7\<close> holds a number that is no system call,
  \<open>syscall\<close> prints a message and returns; the process will see \<open>-1\<close> in \<open>a0\<close>, none of its other saved
  registers has changed, and neither has the process table.
\<close>

lemma syscall_unknown_returns_error:
  fixes s :: "'a kern_st_scheme"
  assumes "myproc s = Some p" and "page_aligned (p_trapframe (procs s ! p))" and "uart_live s"
    and "(ucast (tf_get p tf_a7 s) :: u32) = num" and "sint num < 1 \<or> 23 < sint num \<and> sint num \<noteq> 30"
  shows "\<exists>t. syscall s = Ok () t \<and> tf_get p (tf_a 0) t = -1 \<and> procs t = procs s \<and>
    (\<forall>k < 36. k \<noteq> 14 \<longrightarrow> tf_get p (reg k) t = tf_get p (reg k) s)"
proof -
  obtain u where u: "printf (Some (ascii ''%d %s: unknown sys call %d'' @ [10]))
      [ArgInt (p_pid (mine s)), ArgStr (Some (takeWhile (\<lambda>c. c \<noteq> 0) (p_name (mine s)))), ArgInt num] s = Ok () u"
      "tty_frame s u"
    using printf_live [OF unknown_fmt assms(3)] by blast
  note f = tty_frame_kern [OF u(2)]
  have "syscall s = Ok () (tf_set p (tf_a 0) (-1) u)"
    using assms(1,4) u(1) unknown_syscall [OF assms(5), where ?'a = 'a]
    by (auto simp: syscall_def me_def)
  then show ?thesis
    using f assms(2) by (auto simp: tf_regs tf_get_set)
qed

text \<open>
  C38: The table of system call names is one entry short for \<open>LAB_PGTBL\<close>. The name of every system call
  is looked up inside the table, except that of \<open>pgaccess\<close>, number 30: when a process that traces it calls
  \<open>pgaccess\<close>, \<open>syscall\<close> reads past the end of the table.
\<close>

theorem trace_names_bounds:
  fixes s :: "'a kern_st_scheme"
  assumes "syscalls num = Some (f :: 'a kern_st_scheme \<Rightarrow> _)"
  shows "(num < length str_syscalls \<longleftrightarrow> num \<noteq> SYS_pgaccess) \<and>
    (myproc s = Some p \<and> (ucast (tf_get p tf_a7 s) :: u32) = of_nat SYS_pgaccess \<and>
     bit (p_trace_mask (procs s ! p)) SYS_pgaccess \<longrightarrow> syscall s = Panic ''out of bounds'')"
proof
  show "num < length str_syscalls \<longleftrightarrow> num \<noteq> SYS_pgaccess"
    using assms by (auto simp: syscalls_def str_syscalls_def SYS_pgaccess_def split: if_splits)
  show "myproc s = Some p \<and> (ucast (tf_get p tf_a7 s) :: u32) = of_nat SYS_pgaccess \<and>
     bit (p_trace_mask (procs s ! p)) SYS_pgaccess \<longrightarrow> syscall s = Panic ''out of bounds''"
  proof
    assume a: "myproc s = Some p \<and> (ucast (tf_get p tf_a7 s) :: u32) = of_nat SYS_pgaccess \<and>
     bit (p_trace_mask (procs s ! p)) SYS_pgaccess"
    let ?m = "p_trace_mask (procs s ! p)"
    have "bit (push_bit SYS_pgaccess 1 AND ?m) SYS_pgaccess"
      using a by (simp add: bit_and_iff bit_push_bit_iff SYS_pgaccess_def)
    then have "push_bit SYS_pgaccess 1 AND ?m \<noteq> 0" by (metis bit_0_eq bot_apply bot_bool_def)
    moreover have "me (tf_set p off v s) = p" "mine (tf_set p off v s) = procs s ! p" for off v
      using a by (simp_all add: me_def mine_def myproc_def)
    ultimately show "syscall s = Panic ''out of bounds''"
      using a by (simp add: syscall_def me_def Let_def NELEM_syscalls_def syscalls_def SYS_pgaccess_def
          sys_pgaccess_def trace_call_def str_syscalls_def myproc_def)
  qed
qed

section \<open>A machine in the kernel\<close>

definition user_proc :: "u32 \<Rightarrow> proc" where
  "user_proc msk = \<lparr>p_state = RUNNING, p_chan = NoChan, p_killed = False, p_xstate = 0, p_pid = 3, p_parent = None,
     p_kstack = 0x3fffffd000, p_sz = 4096, p_pagetable = 0x80100000, p_trapframe = 0x80200000,
     p_context = \<lparr>ctx_ra = 0, ctx_sp = 0, ctx_s = []\<rparr>, p_ofile = [], p_cwd = None, p_name = [97, 0], p_trace_mask = msk\<rparr>"

definition hart0 :: hart where
  "hart0 = \<lparr>h_id = 0, h_sepc = 0x1000, h_scause = 8, h_stval = 0, h_stvec = 0, h_satp = 0x8000000000080100,
     h_sip = 0, h_irqs = [], h_plic = []\<rparr>"

text \<open>A process runs in the kernel after a system call; \<open>num\<close> is in its register \<open>a7\<close>.\<close>

definition kern_machine :: "u32 \<Rightarrow> u64 \<Rightarrow> kern_st" where
  "kern_machine msk num =
     (file_st.extend (file_machine [])
       (kern_st.fields 0 False hart0 0x80090000 0x80005000 0x80007000 0x8000709a 0x80002000))
     \<lparr>procs := [user_proc msk],
      this_cpu := \<lparr>c_proc = Some 0, noff = 0, intena = True, sstatus = 0x22\<rparr>,
      mem := store64 (\<lambda>_. 0) (0x80200000 + tf_a7) num\<rparr>"

lemma kern_machine_facts:
  "myproc (kern_machine msk num) = Some 0" "procs (kern_machine msk num) ! 0 = user_proc msk"
  "uart_live (kern_machine msk num)" "tf_get 0 tf_a7 (kern_machine msk num) = num"
  "page_aligned (p_trapframe (procs (kern_machine msk num) ! 0))"
  by (auto simp: kern_machine_def myproc_def user_proc_def tf_get_def page_aligned_def PGSIZE_def file_st.defs kern_st.defs
      file_machine_def pipe_machine_def console_machine_def uart_machine_def uart_st.defs fs_st.defs console_st.defs
      pipe_st.defs uart_live_def uart0_def)

theorem usertrapret_resumes_user_witness:
  "\<exists>t. usertrapret (kern_machine 0 5) = Ok (MAKE_SATP 0x80100000) t \<and> tf_get 0 (reg 21) t = 5 \<and>
     \<not> intr_get (this_cpu t)"
proof -
  obtain t where t: "usertrapret (kern_machine 0 5) = Ok (MAKE_SATP (p_pagetable (procs (kern_machine 0 5) ! 0))) t"
    and r: "\<And>k. k = 3 \<or> 5 \<le> k \<and> k < 36 \<Longrightarrow> tf_get 0 (reg k) t = tf_get 0 (reg k) (kern_machine 0 5)"
    and i: "\<not> intr_get (this_cpu t)"
    using usertrapret_resumes_user [OF kern_machine_facts(1,5), of 0 5] by blast
  have "tf_get 0 (reg 21) t = 5" using r [of 21] kern_machine_facts(4) [of 0 5] by (simp add: tf_regs)
  with t i kern_machine_facts(2) [of 0 5] show ?thesis by (simp add: user_proc_def)
qed

theorem trace_names_bounds_witness:
  "syscall (kern_machine 0x40000000 30) = Panic ''out of bounds''"
proof -
  have "syscalls 30 = Some (sys_pgaccess :: kern_st \<Rightarrow> _)" by (simp add: syscalls_def SYS_pgaccess_def)
  note b = trace_names_bounds [OF this, of "kern_machine 0x40000000 30" 0]
  have "bit (0x40000000 :: u32) 30" by simp
  then show ?thesis using b kern_machine_facts [of "0x40000000" 30] by (simp add: user_proc_def SYS_pgaccess_def)
qed

end
