(* ===== verification/Fslaws.thy ===== *)
theory Fslaws
  imports Fs
begin

text \<open>
  Laws of the file system's block operations inside a transaction. \<open>tx_room k s L\<close> says that a
  transaction with logged blocks \<open>L\<close> is open and can still change \<open>k\<close> blocks; each change is one
  \<open>logged_update\<close>, whose effect on the contents of the disk, as the file system sees it (\<open>view\<close>), is a
  function on one block.
\<close>

section \<open>Room in a transaction\<close>

definition tx_room :: "nat \<Rightarrow> 'a log_st_scheme \<Rightarrow> u32 list \<Rightarrow> bool" where
  "tx_room k s L \<longleftrightarrow> tx s L \<and> lk s = (\<lambda>_. False) \<and> card {b. 0 < rc s b} + k \<le> NBUF \<and>
     log_size s \<le> int LOGSIZE \<and> int (length L) + int k \<le> log_size s - 1 \<and> (\<forall>b. rc s b + 3 + k < 2 ^ 32)"

definition home_block :: "'a log_st_scheme \<Rightarrow> u32 \<Rightarrow> bool" where
  "home_block s bn \<longleftrightarrow> bn < 0x80000000 \<and> bn \<notin> log_area s"

lemma home_block_only: "log_only s t \<Longrightarrow> home_block t = home_block s"
  by (auto simp: log_only_def home_block_def log_area_def fun_eq_iff)

lemma fs_log_only: "log_only s t \<Longrightarrow> sb t = sb s \<and> itable t = itable s"
  by (auto simp: log_only_def)

lemma room_update:
  assumes r: "tx_room (Suc k) s L" and h: "home_block s bn"
  shows "\<exists>t L'. logged_update bn f s = Ok () t \<and> tx_room k t L' \<and> view t = (view s)(bn := f (view s bn)) \<and>
     disk t = disk s \<and> disk_writes t = disk_writes s \<and> log_only s t"
proof -
  let ?L = "if bn \<in> set L then L else L @ [bn]"
  have tx: "tx s L" and l: "lk s = (\<lambda>_. False)" and c: "card {b. 0 < rc s b} + Suc k \<le> NBUF"
    and n: "log_size s \<le> int LOGSIZE" "int (length L) + int (Suc k) \<le> log_size s - 1" "\<And>b. rc s b + 3 + Suc k < 2 ^ 32"
    using r by (simp_all add: tx_room_def)
  obtain t where t: "logged_update bn f s = Ok () t" "tx t ?L"
      "rc t = (if bn \<in> set L then rc s else (rc s)(bn := Suc (rc s bn)))" "lk t = lk s"
      "view t = (view s)(bn := f (view s bn))" "disk t = disk s" "disk_writes t = disk_writes s"
      "log_size t = log_size s" "log_only s t"
    using logged_update_law [OF tx, of bn f] l c n(1,2) n(3) [of bn] h by (auto simp: home_block_def)
  have "card {b. 0 < rc t b} \<le> Suc (card {b. 0 < rc s b})"
  proof -
    have "{b. 0 < rc t b} \<subseteq> insert bn {b. 0 < rc s b}" by (auto simp: t(3) split: if_splits)
    then have "card {b. 0 < rc t b} \<le> card (insert bn {b. 0 < rc s b})" by (intro card_mono) simp_all
    then show ?thesis by (simp add: card_insert_if split: if_splits)
  qed
  moreover have "rc t b + 3 + k < 2 ^ 32" for b using n(3) [of b] by (auto simp: t(3))
  moreover have "length ?L \<le> Suc (length L)" by simp
  ultimately have "tx_room k t ?L"
    using t(2,4,8) l c n(1,2) unfolding tx_room_def by auto
  then show ?thesis using t by blast
qed

text \<open>Reading a block and releasing it again changes nothing that matters.\<close>

lemma room_read:
  assumes r: "tx_room (Suc k) s L" and h: "home_block s bn"
  shows "\<exists>b s1 t. bread ROOTDEV bn s = Ok b s1 \<and> b_data (bcache s1 ! b) = view s bn \<and> log_only s s1 \<and>
     brelse b s1 = Ok () t \<and> tx_room (Suc k) t L \<and> view t = view s \<and> disk t = disk s \<and>
     disk_writes t = disk_writes s \<and> log_only s t"
proof -
  have wf: "log_wf s L" and tx: "tx s L" and l: "lk s = (\<lambda>_. False)" and c: "card {b. 0 < rc s b} < NBUF"
    and inv: "bio_inv s" and n: "rc s bn + 3 + Suc k < 2 ^ 32"
    using r by (auto simp: tx_room_def tx_def log_wf_def)
  obtain b s1 where 1: "bread ROOTDEV bn s = Ok b s1" "bio_inv s1" "bio_frame s s1" "buf_of s1 = (buf_of s)(bn := Some b)"
      "rc s1 = (rc s)(bn := Suc (rc s bn))" "lk s1 = (lk s)(bn := True)" "view s1 = view s" "disk s1 = disk s"
      "disk_writes s1 = disk_writes s"
    using bc.get_ok [OF inv, of bn] h l c n by (auto simp: home_block_def)
  have bo: "buf_of s1 bn = Some b" by (simp add: 1)
  have d: "b_data (bcache s1 ! b) = view s bn" using bc.dat_own [OF bo] by (simp add: 1)
  have clean: "1 < rc s1 bn \<or> view s1 bn = disk s1 bn"
    using bc.unref_clean [of s bn] by (cases "rc s bn") (simp_all add: 1)
  obtain t where t: "brelse b s1 = Ok () t" "bio_inv t" "bio_frame s1 t" "rc t = (rc s1)(bn := rc s1 bn - 1)"
      "lk t = (lk s1)(bn := False)" "view t = view s1" "disk t = disk s1" "disk_writes t = disk_writes s1"
    using bc.rel_ok [OF 1(2) bo _ clean] by (auto simp: 1)
  have rc: "rc t = rc s" and lk: "lk t = lk s" using t(4,5) 1(5,6) l by auto
  note f = log_frame [OF 1(3)] log_frame [OF t(3)]
  have "log_area t = log_area s" by (simp add: log_area_def f)
  then have "tx_room (Suc k) t L"
    using r t(2) rc lk f by (simp add: tx_room_def tx_def log_wf_def)
  moreover have "log_only s t" using log_only_trans [OF log_only_bio [OF 1(3)] log_only_bio [OF t(3)]] .
  ultimately show ?thesis using 1 d t log_only_bio [OF 1(3)] by auto
qed

section \<open>Allocating and freeing blocks\<close>

lemma map_bit_set:
  assumes "length d = BSIZE" "i < BPB" "j < BPB"
  shows "map_bit (set_map_bit v d i) j = (if j = i then v else map_bit d j)"
proof (cases "j div 8 = i div 8")
  case True
  have "i div 8 < length d" using assms by (simp add: BPB_def less_mult_imp_div_less)
  then show ?thesis using True
    by (auto simp: map_bit_def set_map_bit_def bit_simps) (metis div_mult_mod_eq)+
next
  case False
  then show ?thesis by (auto simp: map_bit_def set_map_bit_def)
qed

lemma set_map_bit_undo:
  assumes "length d = BSIZE" "i < BPB" "\<not> map_bit d i"
  shows "set_map_bit False (set_map_bit True d i) i = d"
proof -
  have "i div 8 < length d" using assms by (simp add: BPB_def less_mult_imp_div_less)
  moreover have "(d ! (i div 8) OR push_bit (i mod 8) 1) AND NOT (push_bit (i mod 8) 1) = d ! (i div 8)"
    using assms(3) by (intro bit_word_eqI) (auto simp: map_bit_def bit_simps)
  ultimately show ?thesis by (simp add: set_map_bit_def)
qed

text \<open>
  A file system whose free map lies outside the log, and whose size leaves room for the \<open>int\<close> that counts
  \<open>balloc\<close>'s loop. The map may take several blocks.
\<close>

definition map_blocks :: "'a fs_st_scheme \<Rightarrow> nat" where
  "map_blocks s = (unat (sb_size (sb s)) + BPB - 1) div BPB"

definition fs_ok :: "'a fs_st_scheme \<Rightarrow> bool" where
  "fs_ok s \<longleftrightarrow> unat (sb_size (sb s)) + BPB \<le> 2 ^ 31 \<and>
     (\<forall>k < map_blocks s. home_block s (BBLOCK (k * BPB) (sb s)) \<and> length (view s (BBLOCK (k * BPB) (sb s))) = BSIZE)"

definition block_map :: "'a fs_st_scheme \<Rightarrow> nat \<Rightarrow> bool" where
  "block_map s j = map_bit (view s (BBLOCK j (sb s))) (j mod BPB)"

text \<open>A free block is neither in the log nor one of the blocks of the map.\<close>

definition free_home :: "'a fs_st_scheme \<Rightarrow> bool" where
  "free_home s \<longleftrightarrow> (\<forall>b < unat (sb_size (sb s)). \<not> block_map s b \<longrightarrow>
     home_block s (of_nat b) \<and> (\<forall>k < map_blocks s. of_nat b \<noteq> BBLOCK (k * BPB) (sb s)))"

lemma BPB_pos [simp]: "0 < BPB" "BPB \<noteq> 0"
  by (simp_all add: BPB_def BSIZE_def)

lemma map_block_of: "b < unat (sb_size (sb s)) \<Longrightarrow> b div BPB < map_blocks s"
proof -
  assume "b < unat (sb_size (sb s))"
  then have "b + BPB \<le> unat (sb_size (sb s)) + BPB - 1" by simp
  then have "(b + BPB) div BPB \<le> map_blocks s" unfolding map_blocks_def by (rule div_le_mono)
  then show ?thesis by (simp add: div_add_self2)
qed

lemma map_blocks_bound:
  "unat (sb_size (sb s)) \<le> map_blocks s * BPB" "j < map_blocks s \<Longrightarrow> j * BPB < unat (sb_size (sb s))"
proof -
  let ?n = "unat (sb_size (sb s))" and ?m = "unat (sb_size (sb s)) + BPB - 1"
  have d: "?m = map_blocks s * BPB + ?m mod BPB" by (simp add: map_blocks_def div_mult_mod_eq)
  moreover have "?m mod BPB < BPB" by simp
  moreover have "0 < BPB" by simp
  ultimately show "?n \<le> map_blocks s * BPB" by linarith
  assume "j < map_blocks s"
  then have "Suc j * BPB \<le> map_blocks s * BPB" by (intro mult_le_mono1) simp
  then have "j * BPB + BPB \<le> ?m" using d by simp
  then show "j * BPB < ?n" using BPB_pos(1) by linarith
qed

lemma BBLOCK_base: "BBLOCK (b div BPB * BPB) blk = BBLOCK b blk"
  by (simp add: BBLOCK_def)

lemma BBLOCK_inj:
  assumes "fs_ok s" and "j div BPB < map_blocks s" and "i div BPB < map_blocks s"
  shows "BBLOCK i (sb s) = BBLOCK j (sb s) \<longleftrightarrow> i div BPB = j div BPB"
proof -
  have "map_blocks s \<le> unat (sb_size (sb s)) + BPB - 1" unfolding map_blocks_def by simp
  moreover have "unat (sb_size (sb s)) + BPB \<le> 2 ^ 31" using assms(1) by (simp add: fs_ok_def)
  ultimately have m: "map_blocks s < 2 ^ 32" by simp
  then have "unat (of_nat (i div BPB) :: u32) = i div BPB" "unat (of_nat (j div BPB) :: u32) = j div BPB"
    using assms(2,3) by (auto intro!: unat_of_nat_eq)
  then show ?thesis unfolding BBLOCK_def add_right_cancel by metis
qed

lemma map_frame:
  assumes "log_only s t" and "view t = view s"
  shows "fs_ok t = fs_ok s" "free_home t = free_home s" "block_map t = block_map s" "sb t = sb s" "map_blocks t = map_blocks s"
  using assms(2) home_block_only [OF assms(1)] fs_log_only [OF assms(1)]
  by (auto simp: fs_ok_def free_home_def block_map_def map_blocks_def fun_eq_iff)

lemma find_shift: "find P [a..<a + n] = map_option ((+) a) (find (\<lambda>i. P (a + i)) [0..<n])"
proof -
  have "find P (map f xs) = map_option f (find (\<lambda>i. P (f i)) xs)" for f and xs :: "nat list"
    by (induction xs) simp_all
  moreover have "[a..<a + n] = map ((+) a) [0..<n]" by (rule nth_equalityI) simp_all
  ultimately show ?thesis by simp
qed

lemma find_append: "find P (xs @ ys) = (case find P xs of Some x \<Rightarrow> Some x | None \<Rightarrow> find P ys)"
  by (induction xs) simp_all

text \<open>What taking block \<open>b\<close> does to the contents of the disk.\<close>

definition taken :: "nat \<Rightarrow> 'a fs_st_scheme \<Rightarrow> u32 \<Rightarrow> u8 list" where
  "taken b s = (view s)(BBLOCK b (sb s) := set_map_bit True (view s (BBLOCK b (sb s))) (b mod BPB),
     of_nat b := replicate BSIZE 0)"

lemma take_block:
  assumes r: "tx_room (Suc (Suc k)) s L" and ok: "fs_ok s" and home: "free_home s"
    and b: "b < unat (sb_size (sb s))" "\<not> block_map s b"
  shows "\<exists>t L'. bind (logged_update (BBLOCK b (sb s)) (\<lambda>d. set_map_bit True d (b mod BPB)) s)
      (\<lambda>_ s. bind (bzero ROOTDEV (of_nat b) s) (\<lambda>_ s. Ok (of_nat b) s)) = Ok (of_nat b :: u32) t \<and>
    tx_room k t L' \<and> log_only s t \<and> disk_writes t = disk_writes s \<and> view t = taken b s"
proof -
  let ?bm = "BBLOCK b (sb s)"
  have hb: "home_block s ?bm" using ok map_block_of [OF b(1)] BBLOCK_base [of b] unfolding fs_ok_def by metis
  obtain u L1 where u: "logged_update ?bm (\<lambda>d. set_map_bit True d (b mod BPB)) s = Ok () u" "tx_room (Suc k) u L1"
      "view u = (view s)(?bm := set_map_bit True (view s ?bm) (b mod BPB))" "log_only s u" "disk_writes u = disk_writes s"
    using room_update [OF r hb] by blast
  have "home_block u (of_nat b)" using home b home_block_only [OF u(4)] by (simp add: free_home_def)
  then obtain v L2 where v: "logged_update (of_nat b) (\<lambda>_. replicate BSIZE 0) u = Ok () v" "tx_room k v L2"
      "view v = (view u)(of_nat b := replicate BSIZE 0)" "log_only u v" "disk_writes v = disk_writes u"
    using room_update [OF u(2)] by blast
  have "bzero ROOTDEV (of_nat b) u = logged_update (of_nat b) (\<lambda>_. replicate BSIZE 0) u"
    by (simp add: bzero_def logged_update_def)
  then show ?thesis using u v log_only_trans [OF u(4) v(4)] by (auto simp: taken_def)
qed

lemma balloc_loop_law:
  assumes "j \<le> N" and "map_blocks s = N" and "tx_room (Suc (Suc k)) s L" and "fs_ok s" and "free_home s"
  shows "case find (\<lambda>b. \<not> block_map s b) [j * BPB..<unat (sb_size (sb s))] of
      Some b \<Rightarrow> \<exists>t L'. balloc_loop ROOTDEV (map (\<lambda>k. k * BPB) [j..<N]) s = Ok (of_nat b) t \<and>
        tx_room k t L' \<and> log_only s t \<and> disk_writes t = disk_writes s \<and> view t = taken b s
    | None \<Rightarrow> \<exists>t. balloc_loop ROOTDEV (map (\<lambda>k. k * BPB) [j..<N]) s = Ok 0 t \<and>
        tx_room (Suc (Suc k)) t L \<and> log_only s t \<and> disk_writes t = disk_writes s \<and> view t = view s"
  using assms
proof (induction j arbitrary: s rule: inc_induct)
  case base
  have "[N * BPB..<unat (sb_size (sb s))] = []" using map_blocks_bound(1) [of s] base(1) by simp
  then show ?case using base(2) log_only_bio [OF bio_frame_refl, of s] by (auto simp del: upt_eq_Nil_conv)
next
  case (step j)
  let ?n = "unat (sb_size (sb s))" and ?b = "j * BPB" and ?bm = "BBLOCK (j * BPB) (sb s)"
  let ?w = "min BPB (?n - ?b)"
  let ?free = "\<lambda>b. \<not> block_map s b"
  note r = step(5) and ok = step(6) and home = step(7)
  have hb: "home_block s ?bm" using ok step(2,4) by (simp add: fs_ok_def)
  have bn: "?b < ?n" using map_blocks_bound(2) [of j s] step(2,4) by simp
  obtain b s1 t where b: "bread ROOTDEV ?bm s = Ok b s1" "b_data (bcache s1 ! b) = view s ?bm" "log_only s s1"
      "brelse b s1 = Ok () t" "tx_room (Suc (Suc k)) t L" "view t = view s" "log_only s t" "disk_writes t = disk_writes s"
    using room_read [OF r hb] by blast
  have s1: "sb s1 = sb s" using fs_log_only [OF b(3)] by simp
  have bits: "map_bit (view s ?bm) bi = block_map s (?b + bi)" if "bi < ?w" for bi
    using that by (simp add: block_map_def BBLOCK_def)
  have fnd: "find (\<lambda>bi. \<not> map_bit (view s ?bm) bi) [0..<?w] = find (\<lambda>bi. ?free (?b + bi)) [0..<?w]"
    using bits by (intro find_cong) auto
  have split: "[?b..<?n] = [?b..<?b + ?w] @ [Suc j * BPB..<?n]"
  proof (cases "Suc j * BPB \<le> ?n")
    case True
    then obtain d where "?n = Suc j * BPB + d" using le_Suc_ex by blast
    then show ?thesis using upt_add_eq_append [of ?b "Suc j * BPB" d] by (simp add: min_def add.commute add.assoc)
  next
    case False
    then show ?thesis using bn by (simp add: min_def)
  qed
  have u: "[j..<N] = j # [Suc j..<N]" using step(2) by (simp add: upt_conv_Cons)
  show ?case
  proof (cases "find (\<lambda>bi. ?free (?b + bi)) [0..<?w]")
    case None
    note fr = map_frame [OF b(7,6)]
    have "balloc_loop ROOTDEV (map (\<lambda>k. k * BPB) [j..<N]) s =
        balloc_loop ROOTDEV (map (\<lambda>k. k * BPB) [Suc j..<N]) t"
      using b(1,2,4) None fnd s1 by (simp add: u)
    moreover have "find ?free [?b..<?n] = find ?free [Suc j * BPB..<?n]"
      using None by (simp add: split find_append find_shift del: mult_Suc)
    ultimately show ?thesis
      using step(3) [of t] step(4) b fr ok home fs_log_only [OF b(7)] log_only_trans [OF b(7)]
      by (auto simp: taken_def split: option.splits)
  next
    case (Some bi)
    then have bi: "bi < ?w" "?free (?b + bi)" by (auto simp: find_Some_iff)
    have B: "BBLOCK (?b + bi) (sb s) = ?bm" "(?b + bi) mod BPB = bi" using bi(1) by (simp_all add: BBLOCK_def)
    have "balloc_loop ROOTDEV (map (\<lambda>k. k * BPB) [j..<N]) s =
      bind (logged_update (BBLOCK (?b + bi) (sb s)) (\<lambda>d. set_map_bit True d ((?b + bi) mod BPB)) s)
      (\<lambda>_ s. bind (bzero ROOTDEV (of_nat (?b + bi)) s) (\<lambda>_ s. Ok (of_nat (?b + bi)) s))"
      unfolding B using b(1,2) Some fnd s1 by (simp add: u logged_update_def bind_assoc)
    moreover have "find ?free [?b..<?n] = Some (?b + bi)" using Some by (simp add: split find_append find_shift del: mult_Suc)
    moreover have "?b + bi < ?n" using bi(1) by linarith
    ultimately show ?thesis using take_block [OF r ok home _ bi(2)] by auto
  qed
qed

lemma balloc_law:
  assumes "tx_room (Suc (Suc k)) s L" and "fs_ok s" and "free_home s"
  shows "case find (\<lambda>b. \<not> block_map s b) [0..<unat (sb_size (sb s))] of
      Some b \<Rightarrow> \<exists>t L'. balloc ROOTDEV s = Ok (of_nat b) t \<and> tx_room k t L' \<and> log_only s t \<and>
        disk_writes t = disk_writes s \<and> view t = taken b s
    | None \<Rightarrow> \<exists>t. balloc ROOTDEV s = Ok 0 t \<and> tx_room (Suc (Suc k)) t L \<and> log_only s t \<and>
        disk_writes t = disk_writes s \<and> view t = view s"
proof -
  have eq: "balloc ROOTDEV s = balloc_loop ROOTDEV (map (\<lambda>k. k * BPB) [0..<map_blocks s]) s"
    by (simp add: balloc_def map_blocks_def)
  show ?thesis unfolding eq using balloc_loop_law [of 0 "map_blocks s" s k L] assms by simp
qed

lemma length_set_map_bit [simp]: "length (set_map_bit v d i) = length d"
  by (simp add: set_map_bit_def)

text \<open>The map after taking a block: its bit is set and no other changes.\<close>

lemma map_block_view:
  assumes "fs_ok s" and "j div BPB < map_blocks s"
  shows "home_block s (BBLOCK j (sb s)) \<and> length (view s (BBLOCK j (sb s))) = BSIZE"
  using assms BBLOCK_base [of j "sb s"] unfolding fs_ok_def by metis

lemma taken_map:
  assumes ok: "fs_ok s" and home: "free_home s" and b: "b < unat (sb_size (sb s))" "\<not> block_map s b"
    and t: "log_only s t" "view t = taken b s"
  shows "j div BPB < map_blocks s \<Longrightarrow> block_map t j = (j = b \<or> block_map s j)" "fs_ok t"
    "view t (BBLOCK b (sb s)) = set_map_bit True (view s (BBLOCK b (sb s))) (b mod BPB)"
proof -
  note f = fs_log_only [OF t(1)]
  note bb = map_block_of [OF b(1)]
  have ne: "BBLOCK j (sb s) \<noteq> of_nat b" if "j div BPB < map_blocks s" for j
    using home b that BBLOCK_base [of j "sb s"] unfolding free_home_def by metis
  have v: "view t (BBLOCK j (sb s)) = (if j div BPB = b div BPB
      then set_map_bit True (view s (BBLOCK b (sb s))) (b mod BPB) else view s (BBLOCK j (sb s)))"
    if "j div BPB < map_blocks s" for j
    using ne [OF that] BBLOCK_inj [OF ok bb that] by (simp add: t(2) taken_def)
  show "view t (BBLOCK b (sb s)) = set_map_bit True (view s (BBLOCK b (sb s))) (b mod BPB)" using v [OF bb] by simp
  show "block_map t j = (j = b \<or> block_map s j)" if j: "j div BPB < map_blocks s"
  proof (cases "j div BPB = b div BPB")
    case True
    have "j = b \<longleftrightarrow> j mod BPB = b mod BPB" using True by (metis div_mult_mod_eq)
    moreover have "BBLOCK j (sb s) = BBLOCK b (sb s)" using True by (simp add: BBLOCK_def)
    ultimately show ?thesis
      using v [OF j] True map_block_view [OF ok bb] f by (simp add: block_map_def map_bit_set)
  next
    case False
    then show ?thesis using v [OF j] f by (auto simp: block_map_def)
  qed
  have "length (view t (BBLOCK (k * BPB) (sb s))) = BSIZE" if "k < map_blocks s" for k
    using v [of "k * BPB"] that map_block_view [OF ok, of "k * BPB"] map_block_view [OF ok bb] by simp
  then show "fs_ok t" using ok f home_block_only [OF t(1)] by (simp add: fs_ok_def map_blocks_def)
qed

lemma bfree_law:
  assumes r: "tx_room (Suc k) s L" and ok: "fs_ok s" and b: "unat b < unat (sb_size (sb s))"
  shows "if block_map s (unat b)
    then \<exists>t L'. bfree ROOTDEV b s = Ok () t \<and> tx_room k t L' \<and> log_only s t \<and> disk_writes t = disk_writes s \<and>
      view t = (view s)(BBLOCK (unat b) (sb s) := set_map_bit False (view s (BBLOCK (unat b) (sb s))) (unat b mod BPB))
    else bfree ROOTDEV b s = Panic ''freeing free block''"
proof -
  let ?bm = "BBLOCK (unat b) (sb s)"
  have hb: "home_block s ?bm" using map_block_view [OF ok map_block_of [OF b]] by simp
  obtain c s1 where c: "bread ROOTDEV ?bm s = Ok c s1" "b_data (bcache s1 ! c) = view s ?bm"
    using room_read [OF r hb] by blast
  have step: "bfree ROOTDEV b s =
      (if block_map s (unat b) then logged_update ?bm (\<lambda>d. set_map_bit False d (unat b mod BPB)) s
       else Panic ''freeing free block'')"
    using c by (simp add: bfree_def block_map_def logged_update_def Let_def)
  show ?thesis using room_update [OF r hb, of "\<lambda>d. set_map_bit False d (unat b mod BPB)"] step by auto
qed

lemma unat_block: "b < unat (sb_size (sb s)) \<Longrightarrow> unat (of_nat b :: u32) = b"
proof -
  assume "b < unat (sb_size (sb s))"
  moreover have "unat (sb_size (sb s)) < 2 ^ 32" using unsigned_less [of "sb_size (sb s)"] by simp
  ultimately show ?thesis by (intro unat_of_nat_eq) simp
qed

section \<open>Properties\<close>

text \<open>
  C13: \<open>balloc\<close> takes the first free block, or reports that there is none. Inside a transaction that can
  still log two blocks, on a file system whose free blocks lie neither in the log nor in the free map
  (which may span several blocks): if some block below the size of the file system is free, \<open>balloc\<close>
  returns the lowest such block; its bit in the free map is now set and no other bit of the map changes, the
  block reads as zeros and no other block changes. If every block is in use it returns 0 and no block
  changes. Nothing is written to the disk before the commit.
\<close>

theorem balloc_takes_free_block:
  fixes s :: "'a fs_st_scheme"
  assumes r: "tx_room (Suc (Suc k)) s L" and ok: "fs_ok s" and home: "free_home s"
  shows "if \<exists>b < unat (sb_size (sb s)). \<not> block_map s b
    then \<exists>b t. balloc ROOTDEV s = Ok (of_nat b) t \<and> b < unat (sb_size (sb s)) \<and> \<not> block_map s b \<and>
      (\<forall>j < b. block_map s j) \<and> (\<forall>j < map_blocks s * BPB. block_map t j = (j = b \<or> block_map s j)) \<and>
      view t (of_nat b) = replicate BSIZE 0 \<and>
      (\<forall>bn. bn \<noteq> of_nat b \<and> bn \<noteq> BBLOCK b (sb s) \<longrightarrow> view t bn = view s bn) \<and> disk_writes t = disk_writes s
    else \<exists>t. balloc ROOTDEV s = Ok 0 t \<and> view t = view s \<and> disk_writes t = disk_writes s"
proof (cases "find (\<lambda>b. \<not> block_map s b) [0..<unat (sb_size (sb s))]")
  case None
  then have "\<forall>b < unat (sb_size (sb s)). block_map s b" by (auto simp: find_None_iff)
  then show ?thesis using balloc_law [OF r ok home, unfolded None] by auto
next
  case (Some b)
  then have bi: "b < unat (sb_size (sb s))" "\<not> block_map s b" "\<forall>j < b. block_map s j"
    by (auto simp: find_Some_iff)
  obtain t where t: "balloc ROOTDEV s = Ok (of_nat b) t" "log_only s t" "disk_writes t = disk_writes s"
      "view t = taken b s"
    using balloc_law [OF r ok home] Some by auto
  have "block_map t j = (j = b \<or> block_map s j)" if "j < map_blocks s * BPB" for j
    using taken_map(1) [OF ok home bi(1,2) t(2,4)] that by (simp add: less_mult_imp_div_less)
  then show ?thesis using t bi by (auto simp: taken_def intro!: exI [of _ b] exI [of _ t])
qed

text \<open>
  Freeing undoes allocating, and only what is allocated can be freed: after \<open>balloc\<close> returned a
  block, \<open>bfree\<close> of it brings the free map back byte for byte, and a second \<open>bfree\<close> of the same block
  panics.
\<close>

lemma balloc_bfree_roundtrip:
  fixes s :: "'a fs_st_scheme"
  assumes r: "tx_room 4 s L" and ok: "fs_ok s" and home: "free_home s" and free: "c < unat (sb_size (sb s))" "\<not> block_map s c"
  shows "\<exists>b t u. balloc ROOTDEV s = Ok (of_nat b) t \<and> bfree ROOTDEV (of_nat b) t = Ok () u \<and>
     view u (BBLOCK b (sb s)) = view s (BBLOCK b (sb s)) \<and>
     bfree ROOTDEV (of_nat b) u = Panic ''freeing free block''"
proof -
  obtain b where b: "find (\<lambda>b. \<not> block_map s b) [0..<unat (sb_size (sb s))] = Some b"
    using free by (cases "find (\<lambda>b. \<not> block_map s b) [0..<unat (sb_size (sb s))]") (auto simp: find_None_iff)
  then have bi: "b < unat (sb_size (sb s))" "\<not> block_map s b" by (auto simp: find_Some_iff)
  let ?bm = "BBLOCK b (sb s)"
  have "tx_room (Suc (Suc 2)) s L" using r by (simp add: numeral_eq_Suc)
  from balloc_law [OF this ok home] obtain t L1 where t: "balloc ROOTDEV s = Ok (of_nat b) t" "tx_room 2 t L1" "log_only s t"
      "view t = taken b s"
    using b by auto
  note ub = unat_block [OF bi(1)] and m = taken_map [OF ok home bi t(3,4)] and f = fs_log_only [OF t(3)]
  have len: "length (view s ?bm) = BSIZE" using map_block_view [OF ok map_block_of [OF bi(1)]] by simp
  have "block_map t b" using m(1) [OF map_block_of [OF bi(1)]] by simp
  moreover have "tx_room (Suc 1) t L1" using t(2) by (simp add: numeral_eq_Suc)
  ultimately obtain u L2 where u: "bfree ROOTDEV (of_nat b) t = Ok () u" "tx_room (Suc 0) u L2" "log_only t u"
      "view u = (view t)(?bm := set_map_bit False (view t ?bm) (b mod BPB))"
    using bfree_law [of 1 t L1 "of_nat b"] m(2) ub f bi(1) by auto
  have undone: "view u ?bm = view s ?bm"
    using u(4) m(3) set_map_bit_undo [OF len _ bi(2) [unfolded block_map_def]] by simp
  have "length (view u (BBLOCK (k * BPB) (sb u))) = BSIZE" if "k < map_blocks u" for k
    using u(4) undone len map_block_view [OF m(2), of "k * BPB"] that fs_log_only [OF u(3)] f
    by (auto simp: map_blocks_def)
  then have oku: "fs_ok u"
    using m(2) fs_log_only [OF u(3)] home_block_only [OF u(3)] by (simp add: fs_ok_def map_blocks_def)
  have "\<not> block_map u b" using bi(2) undone f fs_log_only [OF u(3)] by (simp add: block_map_def)
  then have "bfree ROOTDEV (of_nat b) u = Panic ''freeing free block''"
    using bfree_law [OF u(2) oku, of "of_nat b"] ub bi(1) f fs_log_only [OF u(3)] by auto
  then show ?thesis using t u undone by blast
qed

text \<open>A disk of 200 blocks with the free map in block 45; only the blocks 48 to 55 are free.\<close>

definition fs_disk :: "u32 \<Rightarrow> u8 list" where
  "fs_disk bn = (if bn = 45 then (replicate BSIZE (-1))[6 := 0] else replicate BSIZE 0)"

definition fs_super :: superblock where
  "fs_super = \<lparr>sb_magic = FSMAGIC, sb_size = 200, sb_nblocks = 154, sb_ninodes = 200, sb_nlog = 30, sb_logstart = 2,
     sb_inodestart = 32, sb_bmapstart = 45\<rparr>"

abbreviation "fs0 \<equiv> fs_machine fs_disk fs_super []"

lemma fs_machine_sel:
  "bcache (fs_machine d blk its) = bcache (log_machine d)" "vdisk (fs_machine d blk its) = vdisk (log_machine d)"
  "procs (fs_machine d blk its) = procs (log_machine d)" "this_cpu (fs_machine d blk its) = this_cpu (log_machine d)"
  "disk (fs_machine d blk its) = disk (log_machine d)" "disk_writes (fs_machine d blk its) = disk_writes (log_machine d)"
  "log_start (fs_machine d blk its) = log_start (log_machine d)" "log_size (fs_machine d blk its) = log_size (log_machine d)"
  "log_outstanding (fs_machine d blk its) = log_outstanding (log_machine d)" "log_dev (fs_machine d blk its) = log_dev (log_machine d)"
  "lh_n (fs_machine d blk its) = lh_n (log_machine d)" "lh_block (fs_machine d blk its) = lh_block (log_machine d)"
  "sb (fs_machine d blk its) = blk" "itable (fs_machine d blk its) = its"
  by (simp_all add: fs_machine_def log_st.defs fs_st.defs)

lemma fs_machine_bio:
  "bio_inv (fs_machine d blk its) = bio_inv (log_machine d)" "rc (fs_machine d blk its) = rc (log_machine d)"
  "lk (fs_machine d blk its) = lk (log_machine d)" "view (fs_machine d blk its) = view (log_machine d)"
proof -
  have bo: "buf_of (fs_machine d blk its) = buf_of (log_machine d)" by (rule ext) (simp add: buf_of_def fs_machine_sel)
  have me: "me (fs_machine d blk its) = me (log_machine d)" by (simp add: me_def myproc_def fs_machine_sel)
  have pid: "mypid (fs_machine d blk its) = mypid (log_machine d)" by (simp add: mypid_def mine_def me fs_machine_sel)
  show "bio_inv (fs_machine d blk its) = bio_inv (log_machine d)"
    by (simp add: bio_inv_def buf_ok_def fs_machine_sel me pid)
  show "rc (fs_machine d blk its) = rc (log_machine d)" "lk (fs_machine d blk its) = lk (log_machine d)"
    "view (fs_machine d blk its) = view (log_machine d)"
    by (rule ext, simp add: rc_def lk_def view_def bo fs_machine_sel split: option.split)+
qed

lemma fs_machine_room: "k \<le> 20 \<Longrightarrow> tx_room k (fs_machine d blk its) []"
  using log_machine_tx(1) [of d]
  by (simp add: tx_room_def tx_def log_wf_def log_area_def fs_machine_sel fs_machine_bio log_machine_facts
      NBUF_def LOGSIZE_def MAXOPBLOCKS_def)

lemma fs_machine_map:
  "map_blocks (fs_machine d fs_super its) = 1" "j < BPB \<Longrightarrow> BBLOCK j fs_super = 45"
  by (simp_all add: map_blocks_def fs_machine_sel fs_super_def BBLOCK_def BPB_def BSIZE_def)

lemma fs_machine_ok: "length (d 45) = BSIZE \<Longrightarrow> fs_ok (fs_machine d fs_super its)"
  by (simp add: fs_ok_def fs_machine_map fs_machine_sel fs_machine_bio log_machine_facts home_block_def
      log_area_def LOGSIZE_def MAXOPBLOCKS_def) (simp add: fs_super_def BPB_def BSIZE_def)

lemma fs0_map: "j < BPB \<Longrightarrow> block_map fs0 j \<longleftrightarrow> j div 8 \<noteq> 6"
proof -
  assume j: "j < BPB"
  then have "j div 8 < BSIZE" by (simp add: BPB_def less_mult_imp_div_less)
  moreover have "view fs0 45 = (replicate BSIZE (-1))[6 := 0]"
    by (simp add: fs_machine_bio log_machine_facts fs_disk_def)
  ultimately show ?thesis using j
    by (cases "j div 8 = 6") (simp_all add: block_map_def fs_machine_sel fs_machine_map map_bit_def)
qed

lemma fs0_free_home: "free_home fs0"
  unfolding free_home_def
proof (intro allI impI)
  fix b assume b: "b < unat (sb_size (sb fs0))" "\<not> block_map fs0 b"
  then have "b div 8 = 6" using fs0_map [of b] by (simp add: fs_machine_sel fs_super_def BPB_def BSIZE_def)
  then have r: "48 \<le> b" "b \<le> 55" by linarith+
  then have u: "unat (of_nat b :: u32) = b" by (simp add: unat_of_nat)
  then show "home_block fs0 (of_nat b) \<and> (\<forall>k < map_blocks fs0. of_nat b \<noteq> BBLOCK (k * BPB) (sb fs0))"
    using r by (auto simp: home_block_def log_area_def fs_machine_sel fs_machine_map log_machine_facts word_less_nat_alt
        LOGSIZE_def MAXOPBLOCKS_def dest: arg_cong [of _ _ unat])
qed

text \<open>The same disk with every block in use.\<close>

definition full_disk :: "u32 \<Rightarrow> u8 list" where
  "full_disk bn = replicate BSIZE (-1)"

abbreviation "fs_full \<equiv> fs_machine full_disk fs_super []"

lemma fs_full_map: "j < BPB \<Longrightarrow> block_map fs_full j"
proof -
  assume j: "j < BPB"
  then have "j div 8 < BSIZE" by (simp add: BPB_def less_mult_imp_div_less)
  with j show ?thesis
    by (simp add: block_map_def fs_machine_sel fs_machine_map fs_machine_bio log_machine_facts map_bit_def full_disk_def)
qed

theorem balloc_takes_free_block_witness:
  "(\<exists>t. balloc ROOTDEV fs0 = Ok 48 t \<and> view t 48 = replicate BSIZE 0 \<and> block_map t 48) \<and>
   (\<exists>t. balloc ROOTDEV fs_full = Ok 0 t \<and> view t = view fs_full)"
proof
  have sz: "unat (sb_size (sb fs0)) = 200" "200 \<le> BPB" by (simp_all add: fs_machine_sel fs_super_def BPB_def BSIZE_def)
  have "\<exists>b < unat (sb_size (sb fs0)). \<not> block_map fs0 b" using fs0_map [of 48] sz by (intro exI [of _ 48]) simp
  then obtain b t where b: "balloc ROOTDEV fs0 = Ok (of_nat b) t" "b < 200" "\<not> block_map fs0 b" "\<forall>j < b. block_map fs0 j"
      "\<forall>j < map_blocks fs0 * BPB. block_map t j = (j = b \<or> block_map fs0 j)" "view t (of_nat b) = replicate BSIZE 0"
    using balloc_takes_free_block [OF fs_machine_room [of "Suc (Suc 0)"] fs_machine_ok fs0_free_home] sz(1)
    by (auto simp: fs_disk_def)
  have "b div 8 = 6" using fs0_map [of b] b(2,3) sz by simp
  moreover have "\<not> 48 < b" using b(4) fs0_map [of 48] sz by auto
  ultimately have "b = 48" by linarith
  then show "\<exists>t. balloc ROOTDEV fs0 = Ok 48 t \<and> view t 48 = replicate BSIZE 0 \<and> block_map t 48"
    using b sz(2) by (auto simp: fs_machine_map)
next
  have f: "\<not> (\<exists>b < unat (sb_size (sb fs_full)). \<not> block_map fs_full b)"
    using fs_full_map by (auto simp: fs_machine_sel fs_super_def BPB_def BSIZE_def)
  have "free_home fs_full" using f by (auto simp: free_home_def)
  then show "\<exists>t. balloc ROOTDEV fs_full = Ok 0 t \<and> view t = view fs_full"
    using balloc_takes_free_block [OF fs_machine_room [of "Suc (Suc 0)"] fs_machine_ok, of full_disk "[]"] f
    by (auto simp: full_disk_def)
qed

end
