(* ===== verification/Filelaws.thy ===== *)
theory Filelaws
  imports Fslaws
begin

text \<open>
  The contents of a file. \<open>file_byte s ip i\<close> is byte \<open>i\<close> of the file behind the table entry \<open>ip\<close>, read
  through the block addresses of the inode and its indirect block out of the current contents of the
  blocks. For a file whose blocks are allocated, \<open>readi\<close> returns a range of these bytes and \<open>writei\<close>
  replaces one.
\<close>

section \<open>Blocks and bytes of a file\<close>

definition indirect_block :: "'a fs_st_scheme \<Rightarrow> nat \<Rightarrow> u32" where
  "indirect_block s ip = i_addrs (itable s ! ip) ! NDIRECT"

definition file_block :: "'a fs_st_scheme \<Rightarrow> nat \<Rightarrow> nat \<Rightarrow> u32" where
  "file_block s ip bn =
     (if bn < NDIRECT then i_addrs (itable s ! ip) ! bn
      else field 4 (view s (indirect_block s ip)) (4 * (bn - NDIRECT)))"

definition file_byte :: "'a fs_st_scheme \<Rightarrow> nat \<Rightarrow> nat \<Rightarrow> u8" where
  "file_byte s ip i = view s (file_block s ip (i div BSIZE)) ! (i mod BSIZE)"

definition inode_block :: "'a fs_st_scheme \<Rightarrow> nat \<Rightarrow> u32" where
  "inode_block s ip = IBLOCK (unat (i_inum (itable s ! ip))) (sb s)"

text \<open>
  The first \<open>N\<close> blocks of the file are allocated, are distinct, and are neither the indirect block nor
  the block the inode is stored in.
\<close>

definition file_wf :: "'a fs_st_scheme \<Rightarrow> nat \<Rightarrow> nat \<Rightarrow> bool" where
  "file_wf s ip N \<longleftrightarrow> i_dev (itable s ! ip) = ROOTDEV \<and> N \<le> MAXFILE \<and>
     (\<forall>bn < N. file_block s ip bn \<noteq> 0 \<and> home_block s (file_block s ip bn) \<and>
        length (view s (file_block s ip bn)) = BSIZE \<and> file_block s ip bn \<noteq> inode_block s ip) \<and>
     inj_on (file_block s ip) {..<N} \<and> home_block s (inode_block s ip) \<and>
     (NDIRECT < N \<longrightarrow> indirect_block s ip \<noteq> 0 \<and> home_block s (indirect_block s ip) \<and>
        indirect_block s ip \<noteq> inode_block s ip \<and> indirect_block s ip \<notin> file_block s ip ` {..<N})"

lemma file_wfD:
  assumes "file_wf s ip N" and "bn < N"
  shows "file_block s ip bn \<noteq> 0" "home_block s (file_block s ip bn)" "length (view s (file_block s ip bn)) = BSIZE"
    "file_block s ip bn \<noteq> inode_block s ip" "bn < MAXFILE"
  using assms by (auto simp: file_wf_def)

lemma log_only_refl [simp]: "log_only s s"
  unfolding log_only_def
  by (rule exI [of _ "bcache s"], rule exI [of _ "vdisk s"], rule exI [of _ "disk s"], rule exI [of _ "disk_writes s"],
      rule exI [of _ "procs s"], rule exI [of _ "lh_n s"], rule exI [of _ "lh_block s"]) simp

text \<open>Two states with the same inode table, the same layout and the same contents of blocks.\<close>

lemma file_block_frame:
  assumes "log_only s t" and "\<not> bn < NDIRECT \<longrightarrow> view t (indirect_block s ip) = view s (indirect_block s ip)"
  shows "file_block t ip bn = file_block s ip bn" "indirect_block t ip = indirect_block s ip" "inode_block t ip = inode_block s ip"
  using assms fs_log_only [OF assms(1)] by (simp_all add: file_block_def indirect_block_def inode_block_def)

section \<open>Finding a block\<close>

lemma bmap_finds:
  assumes wf: "file_wf s ip N" and bn: "bn < N" and r: "tx_room (Suc k) s L"
  shows "\<exists>t. bmap ip bn s = Ok (file_block s ip bn) t \<and> tx_room (Suc k) t L \<and> view t = view s \<and>
    disk_writes t = disk_writes s \<and> log_only s t"
proof (cases "bn < NDIRECT")
  case True
  then have "bmap ip bn s = Ok (file_block s ip bn) s"
    using file_wfD(1) [OF wf bn] by (simp add: bmap_def file_block_def)
  then show ?thesis using r log_only_refl by blast
next
  case False
  let ?ind = "indirect_block s ip"
  have i: "?ind \<noteq> 0" "home_block s ?ind" "i_dev (itable s ! ip) = ROOTDEV" "bn - NDIRECT < NINDIRECT"
    using wf bn False by (auto simp: file_wf_def MAXFILE_def)
  obtain b s1 t where b: "bread ROOTDEV ?ind s = Ok b s1" "b_data (bcache s1 ! b) = view s ?ind"
      "brelse b s1 = Ok () t" "tx_room (Suc k) t L" "view t = view s" "disk_writes t = disk_writes s" "log_only s t"
    using room_read [OF r i(2)] by blast
  have "bmap ip bn s = Ok (file_block s ip bn) t"
    using False i b file_wfD(1) [OF wf bn]
    by (simp add: bmap_def Let_def indirect_block_def [symmetric] file_block_def)
  then show ?thesis using b by blast
qed

section \<open>Reading\<close>

lemma file_frame:
  assumes "log_only s t" and "view t = view s"
  shows "file_block t = file_block s" "file_byte t = file_byte s" "file_wf t = file_wf s" "inode_block t = inode_block s"
proof -
  show fb: "file_block t = file_block s" and ib: "inode_block t = inode_block s"
    using file_block_frame [OF assms(1)] assms(2) by (intro ext; simp)+
  then show "file_byte t = file_byte s" by (intro ext) (simp add: file_byte_def assms(2))
  show "file_wf t = file_wf s"
    using home_block_only [OF assms(1)] fs_log_only [OF assms(1)]
    by (intro ext) (simp add: file_wf_def fb ib assms(2) indirect_block_def)
qed

lemma div_mod_within:
  assumes "a mod n + i < (n :: nat)"
  shows "(a + i) div n = a div n" "(a + i) mod n = a mod n + i"
proof -
  show "(a + i) div n = a div n" using assms by (subst div_add1_eq) simp
  show "(a + i) mod n = a mod n + i" using assms by (metis mod_add_left_eq mod_less)
qed

text \<open>The bytes of one block from an offset on are bytes of the file.\<close>

lemma block_bytes:
  assumes "file_wf s ip N" and "off div BSIZE < N" and "m \<le> BSIZE - off mod BSIZE"
  shows "take m (drop (off mod BSIZE) (view s (file_block s ip (off div BSIZE)))) = map (file_byte s ip) [off..<off + m]"
proof (rule nth_equalityI)
  have len: "length (view s (file_block s ip (off div BSIZE))) = BSIZE" by (rule file_wfD(3) [OF assms(1,2)])
  have lt: "off mod BSIZE < BSIZE" by (simp add: BSIZE_def)
  show "length (take m (drop (off mod BSIZE) (view s (file_block s ip (off div BSIZE))))) = length (map (file_byte s ip) [off..<off + m])"
    using len assms(3) by simp
  fix i assume "i < length (take m (drop (off mod BSIZE) (view s (file_block s ip (off div BSIZE)))))"
  then have i: "i < m" "off mod BSIZE + i < BSIZE" using len assms(3) lt by auto
  note div_mod_within [OF i(2)]
  then show "take m (drop (off mod BSIZE) (view s (file_block s ip (off div BSIZE)))) ! i = map (file_byte s ip) [off..<off + m] ! i"
    using i len lt by (simp add: file_byte_def)
qed

lemma readi_loop_reads:
  assumes "file_wf s ip N" and "tx_room (Suc k) s L" and "off + (n - tot) \<le> N * BSIZE" and "tot \<le> n"
  shows "\<exists>t. readi_loop ip ToLocal off n tot acc s = Ok (int n, acc @ map (file_byte s ip) [off..<off + (n - tot)]) t \<and>
    tx_room (Suc k) t L \<and> view t = view s \<and> disk_writes t = disk_writes s \<and> log_only s t"
  using assms
proof (induction "n - tot" arbitrary: off tot acc s rule: less_induct)
  case less
  show ?case
  proof (cases "tot < n")
    case False
    then show ?thesis using less.prems by (subst readi_loop.simps) simp
  next
    case True
    define m where "m = min (n - tot) (BSIZE - off mod BSIZE)"
    have bn: "off div BSIZE < N"
      using less.prems(3) True by (intro less_mult_imp_div_less) simp
    obtain s1 where 1: "bmap ip (off div BSIZE) s = Ok (file_block s ip (off div BSIZE)) s1" "tx_room (Suc k) s1 L"
        "view s1 = view s" "disk_writes s1 = disk_writes s" "log_only s s1"
      using bmap_finds [OF less.prems(1) bn less.prems(2)] by blast
    note f1 = file_frame [OF 1(5,3)]
    have h: "home_block s1 (file_block s ip (off div BSIZE))"
      using file_wfD(2) [OF less.prems(1) bn] home_block_only [OF 1(5)] by simp
    obtain b s2 t where 2: "bread ROOTDEV (file_block s ip (off div BSIZE)) s1 = Ok b s2"
        "b_data (bcache s2 ! b) = view s1 (file_block s ip (off div BSIZE))" "brelse b s2 = Ok () t" "tx_room (Suc k) t L"
        "view t = view s1" "disk_writes t = disk_writes s1" "log_only s1 t"
      using room_read [OF 1(2) h] by blast
    have lo: "log_only s t" using log_only_trans [OF 1(5) 2(7)] .
    have vw: "view t = view s" using 1 2 by simp
    note ft = file_frame [OF lo vw]
    have dev: "i_dev (itable s1 ! ip) = ROOTDEV"
      using less.prems(1) fs_log_only [OF 1(5)] by (simp add: file_wf_def)
    have bs: "take m (drop (off mod BSIZE) (b_data (bcache s2 ! b))) = map (file_byte s ip) [off..<off + m]"
      using block_bytes [OF less.prems(1) bn, of m] 2(2) 1(3) by (simp add: m_def)
    have step: "readi_loop ip ToLocal off n tot acc s =
        readi_loop ip ToLocal (off + m) n (tot + m) (acc @ map (file_byte s ip) [off..<off + m]) t"
      using True 1(1) 2(1,3) dev file_wfD(1) [OF less.prems(1) bn]
      by (subst readi_loop.simps) (simp add: Let_def m_def [symmetric] bs copy_to_dest_def)
    have mm: "0 < m" "tot + m \<le> n" using True by (auto simp: m_def BSIZE_def)
    have "\<exists>u. readi_loop ip ToLocal (off + m) n (tot + m) (acc @ map (file_byte s ip) [off..<off + m]) t =
        Ok (int n, (acc @ map (file_byte s ip) [off..<off + m]) @ map (file_byte t ip) [off + m..<off + m + (n - (tot + m))]) u \<and>
        tx_room (Suc k) u L \<and> view u = view t \<and> disk_writes u = disk_writes t \<and> log_only t u"
      using less.prems mm 2(4) ft(3) True by (intro less.hyps) auto
    moreover have "map (file_byte s ip) [off..<off + m] @ map (file_byte t ip) [off + m..<off + m + (n - (tot + m))]
        = map (file_byte s ip) [off..<off + (n - tot)]"
    proof -
      have "off + (n - tot) = off + m + (n - (tot + m))" using mm by simp
      moreover have "[off..<off + m + (n - (tot + m))] = [off..<off + m] @ [off + m..<off + m + (n - (tot + m))]"
        by (rule upt_add_eq_append) simp
      ultimately show ?thesis unfolding ft(2) by (metis map_append)
    qed
    ultimately show ?thesis using step vw 1(4) 2(6) log_only_trans [OF lo] by auto
  qed
qed

section \<open>Writing\<close>

lemma tx_room_mono:
  assumes "tx_room k s L" and "j \<le> k"
  shows "tx_room j s L"
proof -
  have "rc s b + 3 + j < 2 ^ 32" for b
    using assms unfolding tx_room_def by (meson add_left_mono le_less_trans)
  with assms show ?thesis unfolding tx_room_def by auto
qed

text \<open>What writing the bytes \<open>ch\<close> at an offset makes of a block.\<close>

definition splice :: "nat \<Rightarrow> u8 list \<Rightarrow> u8 list \<Rightarrow> u8 list" where
  "splice o0 ch d = take o0 d @ ch @ drop (o0 + length ch) d"

lemma splice_props:
  assumes "o0 + length ch \<le> length d"
  shows "length (splice o0 ch d) = length d"
    "j < length d \<Longrightarrow> splice o0 ch d ! j = (if o0 \<le> j \<and> j < o0 + length ch then ch ! (j - o0) else d ! j)"
  using assms by (auto simp: splice_def nth_append)

lemma file_update:
  assumes wf: "file_wf s ip N" and bn: "off div BSIZE < N" and lo: "log_only s t"
    and v: "view t = (view s)(file_block s ip (off div BSIZE) := splice (off mod BSIZE) ch (view s (file_block s ip (off div BSIZE))))"
    and room: "off mod BSIZE + length ch \<le> BSIZE"
  shows "\<And>j. j < N \<Longrightarrow> file_block t ip j = file_block s ip j" "file_wf t ip N"
    "\<And>i. i < N * BSIZE \<Longrightarrow> file_byte t ip i = (if off \<le> i \<and> i < off + length ch then ch ! (i - off) else file_byte s ip i)"
proof -
  let ?b = "file_block s ip (off div BSIZE)"
  have len: "length (view s ?b) = BSIZE" by (rule file_wfD(3) [OF wf bn])
  have ind: "view t (indirect_block s ip) = view s (indirect_block s ip)" if "NDIRECT < N"
    using wf bn that by (auto simp: v file_wf_def)
  show fb: "\<And>j. j < N \<Longrightarrow> file_block t ip j = file_block s ip j"
    using file_block_frame(1) [OF lo] ind by auto
  have lens: "length (view t (file_block s ip j)) = BSIZE" if "j < N" for j
    using file_wfD(3) [OF wf that] splice_props(1) [of "off mod BSIZE" ch "view s ?b"] room len by (simp add: v)
  have "inj_on (file_block t ip) {..<N}" "file_block t ip ` {..<N} = file_block s ip ` {..<N}"
    using wf fb by (auto simp: file_wf_def inj_on_def image_iff)
  then show "file_wf t ip N"
    using wf fb lens home_block_only [OF lo] fs_log_only [OF lo]
    by (simp add: file_wf_def indirect_block_def inode_block_def)
  show "file_byte t ip i = (if off \<le> i \<and> i < off + length ch then ch ! (i - off) else file_byte s ip i)"
    if i: "i < N * BSIZE" for i
  proof -
    have iN: "i div BSIZE < N" using i by (rule less_mult_imp_div_less)
    show ?thesis
    proof (cases "i div BSIZE = off div BSIZE")
      case True
      have s: "off \<le> i \<and> i < off + length ch \<longleftrightarrow> off mod BSIZE \<le> i mod BSIZE \<and> i mod BSIZE < off mod BSIZE + length ch"
        "i mod BSIZE - off mod BSIZE = i - off"
      proof -
        obtain q a b where "i = q * BSIZE + a" "off = q * BSIZE + b" "i mod BSIZE = a" "off mod BSIZE = b"
          using True div_mult_mod_eq by metis
        then show "off \<le> i \<and> i < off + length ch \<longleftrightarrow> off mod BSIZE \<le> i mod BSIZE \<and> i mod BSIZE < off mod BSIZE + length ch"
          "i mod BSIZE - off mod BSIZE = i - off" by auto
      qed
      have "i mod BSIZE < length (view s ?b)" using len by (simp add: BSIZE_def)
      then show ?thesis
        using True fb [OF iN] splice_props(2) [of "off mod BSIZE" ch "view s ?b" "i mod BSIZE"] room len s
        by (simp add: file_byte_def v)
    next
      case False
      have "file_block s ip (i div BSIZE) \<noteq> ?b"
        using wf iN bn False by (auto simp: file_wf_def inj_on_def)
      moreover have "\<not> (off \<le> i \<and> i < off + length ch)"
      proof
        assume a: "off \<le> i \<and> i < off + length ch"
        then have "off mod BSIZE + (i - off) < BSIZE" using room by linarith
        from div_mod_within(1) [OF this] a False show False by simp
      qed
      ultimately show ?thesis using fb [OF iN] by (auto simp: file_byte_def v)
    qed
  qed
qed

lemma writei_loop_step:
  assumes wf: "file_wf s ip N" and bn: "off div BSIZE < N" and r: "tx_room (Suc k) s L" and tot: "tot < n" "n \<le> length bs"
    and m: "m = min (n - tot) (BSIZE - off mod BSIZE)"
  shows "\<exists>t L'. writei_loop ip (FromLocal bs) off n tot s = writei_loop ip (FromLocal bs) (off + m) n (tot + m) t \<and>
    tx_room k t L' \<and> log_only s t \<and> disk_writes t = disk_writes s \<and>
    view t = (view s)(file_block s ip (off div BSIZE) :=
      splice (off mod BSIZE) (take m (drop tot bs)) (view s (file_block s ip (off div BSIZE))))"
proof -
  let ?b = "file_block s ip (off div BSIZE)" and ?ch = "take m (drop tot bs)"
  obtain s1 where 1: "bmap ip (off div BSIZE) s = Ok ?b s1" "tx_room (Suc k) s1 L"
      "view s1 = view s" "disk_writes s1 = disk_writes s" "log_only s s1"
    using bmap_finds [OF wf bn r] by blast
  have h: "home_block s1 ?b"
    using file_wfD(2) [OF wf bn] home_block_only [OF 1(5)] by simp
  obtain t L' where t: "logged_update ?b (splice (off mod BSIZE) ?ch) s1 = Ok () t" "tx_room k t L'"
      "view t = (view s1)(?b := splice (off mod BSIZE) ?ch (view s1 ?b))" "disk_writes t = disk_writes s1" "log_only s1 t"
    using room_update [OF 1(2) h] by blast
  have dev: "i_dev (itable s1 ! ip) = ROOTDEV"
    using wf fs_log_only [OF 1(5)] by (simp add: file_wf_def)
  have "writei_loop ip (FromLocal bs) off n tot s =
      bind (logged_update ?b (splice (off mod BSIZE) ?ch) s1) (\<lambda>_ s. writei_loop ip (FromLocal bs) (off + m) n (tot + m) s)"
    using tot(1) 1(1) dev file_wfD(1) [OF wf bn]
    by (subst writei_loop.simps)
      (simp add: Let_def m [symmetric] copy_from_orig_def logged_update_def bind_assoc splice_def)
  then show ?thesis using t 1(3,4) log_only_trans [OF 1(5) t(5)] by auto
qed

lemma writei_loop_writes:
  assumes "file_wf s ip N" and "tx_room (c + Suc k) s L" and "tot < n \<longrightarrow> off mod BSIZE + (n - tot) \<le> c * BSIZE"
    and "off + (n - tot) \<le> N * BSIZE" and "tot \<le> n" and "n \<le> length bs"
  shows "\<exists>t L'. writei_loop ip (FromLocal bs) off n tot s = Ok (n, off + (n - tot)) t \<and>
    tx_room (Suc k) t L' \<and> log_only s t \<and> disk_writes t = disk_writes s \<and> file_wf t ip N \<and>
    (\<forall>i < N * BSIZE. file_byte t ip i = (if off \<le> i \<and> i < off + (n - tot) then bs ! (tot + (i - off)) else file_byte s ip i)) \<and>
    (\<forall>j < N. file_block t ip j = file_block s ip j)"
  using assms
proof (induction c arbitrary: off tot s L)
  case 0
  then have "n = tot" by simp
  then show ?case using 0 by (subst writei_loop.simps) auto
next
  case (Suc c)
  show ?case
  proof (cases "tot < n")
    case False
    then have "n = tot" using Suc.prems(5) by simp
    then show ?thesis
      using Suc.prems(1) tx_room_mono [OF Suc.prems(2), of "Suc k"] by (subst writei_loop.simps) auto
  next
    case True
    define m where "m = min (n - tot) (BSIZE - off mod BSIZE)"
    let ?ch = "take m (drop tot bs)"
    have lt: "off mod BSIZE < BSIZE" by (simp add: BSIZE_def)
    have bn: "off div BSIZE < N" using Suc.prems(4) True by (intro less_mult_imp_div_less) simp
    have mm: "0 < m" "tot + m \<le> n" "off mod BSIZE + m \<le> BSIZE" "length ?ch = m"
      using True lt Suc.prems(6) by (auto simp: m_def)
    obtain t L1 where t: "writei_loop ip (FromLocal bs) off n tot s = writei_loop ip (FromLocal bs) (off + m) n (tot + m) t"
        "tx_room (c + Suc k) t L1" "log_only s t" "disk_writes t = disk_writes s"
        "view t = (view s)(file_block s ip (off div BSIZE) := splice (off mod BSIZE) ?ch (view s (file_block s ip (off div BSIZE))))"
      using writei_loop_step [OF Suc.prems(1) bn _ True Suc.prems(6) m_def, of "c + Suc k" L] Suc.prems(2) by auto
    have room: "off mod BSIZE + length ?ch \<le> BSIZE" using mm by simp
    note u = file_update [OF Suc.prems(1) bn t(3,5) room]
    have next_room: "tot + m < n \<longrightarrow> (off + m) mod BSIZE + (n - (tot + m)) \<le> c * BSIZE"
    proof
      assume that: "tot + m < n"
      have "off mod BSIZE + m = BSIZE" using that lt by (auto simp: m_def)
      moreover from this have "(off + m) mod BSIZE = 0" by (metis mod_add_left_eq mod_self)
      ultimately show "(off + m) mod BSIZE + (n - (tot + m)) \<le> c * BSIZE" using Suc.prems(3) True by simp
    qed
    have fits: "off + m + (n - (tot + m)) \<le> N * BSIZE" using Suc.prems(4) mm by simp
    obtain v L2 where v: "writei_loop ip (FromLocal bs) (off + m) n (tot + m) t = Ok (n, off + m + (n - (tot + m))) v"
        "tx_room (Suc k) v L2" "log_only t v" "disk_writes v = disk_writes t" "file_wf v ip N"
        "\<And>i. i < N * BSIZE \<Longrightarrow> file_byte v ip i = (if off + m \<le> i \<and> i < off + m + (n - (tot + m)) then bs ! (tot + m + (i - (off + m))) else file_byte t ip i)"
        "\<And>j. j < N \<Longrightarrow> file_block v ip j = file_block t ip j"
      using Suc.IH [OF u(2) t(2) next_room fits mm(2) Suc.prems(6)] by blast
    have e: "off + m + (n - (tot + m)) = off + (n - tot)" using mm by simp
    have "file_byte v ip i = (if off \<le> i \<and> i < off + (n - tot) then bs ! (tot + (i - off)) else file_byte s ip i)"
      if i: "i < N * BSIZE" for i
    proof -
      have "?ch ! (i - off) = bs ! (tot + (i - off))" if "off \<le> i" "i < off + m"
        using that mm Suc.prems(6) by (simp add: add.commute)
      then show ?thesis using v(6) [OF i] u(3) [OF i] e mm by (auto simp: not_less)
    qed
    then show ?thesis
      using t(1,4) v(1,2,4,5,7) u(1) e log_only_trans [OF t(3) v(3)] by auto
  qed
qed

section \<open>The inode on disk\<close>

lemma upd_inode_sel [simp]:
  "sb (upd_inode ip f s) = sb s" "disk_writes (upd_inode ip f s) = disk_writes s"
  "home_block (upd_inode ip f s) = home_block s" "length (itable (upd_inode ip f s)) = length (itable s)"
  by (simp_all add: upd_inode_def home_block_def log_area_def fun_eq_iff)

lemma upd_inode_view:
  fixes s :: "'a fs_st_scheme"
  shows "view (upd_inode ip f s) = view s" "tx_room k (upd_inode ip f s) L = tx_room k s L"
proof -
  let ?t = "upd_inode ip f s"
  have c: "view ?t = view s" "rc ?t = rc s" "lk ?t = lk s" "bio_inv ?t = bio_inv s"
    using bio_cong [of ?t s] by (simp_all add: upd_inode_def)
  then show "view ?t = view s" by simp
  show "tx_room k ?t L = tx_room k s L"
    using c by (simp add: tx_room_def tx_def log_wf_def log_area_def upd_inode_def)
qed

lemma iupdate_law:
  assumes "tx_room (Suc k) s L" and "home_block s (inode_block s ip)" and "i_dev (itable s ! ip) = ROOTDEV"
  shows "\<exists>t L'. iupdate ip s = Ok () t \<and> tx_room k t L' \<and> log_only s t \<and> disk_writes t = disk_writes s \<and>
    view t = (view s)(inode_block s ip :=
      put_dinode (itable s ! ip) (view s (inode_block s ip)) (dinode_off (unat (i_inum (itable s ! ip)))))"
proof -
  let ?f = "\<lambda>d. put_dinode (itable s ! ip) d (dinode_off (unat (i_inum (itable s ! ip))))"
  have "iupdate ip s = logged_update (inode_block s ip) ?f s"
    using assms(3) by (simp add: iupdate_def inode_block_def logged_update_def Let_def)
  then show ?thesis using room_update [OF assms(1,2), of ?f] by auto
qed

text \<open>Changing a block that is none of the file's leaves the file alone.\<close>

lemma file_other:
  assumes wf: "file_wf s ip N" and lo: "log_only s t"
    and v: "\<forall>b. b \<noteq> inode_block s ip \<longrightarrow> view t b = view s b"
  shows "file_wf t ip N" "\<And>i. i < N * BSIZE \<Longrightarrow> file_byte t ip i = file_byte s ip i"
proof -
  have fb: "file_block t ip j = file_block s ip j" "view t (file_block s ip j) = view s (file_block s ip j)" if "j < N" for j
    using file_block_frame(1) [OF lo, of j ip] v wf that file_wfD(4) [OF wf that] by (auto simp: file_wf_def)
  have "inj_on (file_block t ip) {..<N}" "file_block t ip ` {..<N} = file_block s ip ` {..<N}"
    using wf fb(1) by (auto simp: file_wf_def inj_on_def image_iff)
  then show "file_wf t ip N"
    using wf fb home_block_only [OF lo] fs_log_only [OF lo]
    by (simp add: file_wf_def indirect_block_def inode_block_def)
  show "file_byte t ip i = file_byte s ip i" if "i < N * BSIZE" for i
    using fb [OF less_mult_imp_div_less [OF that]] by (simp add: file_byte_def)
qed

text \<open>A new size changes neither the blocks nor the bytes of a file.\<close>

lemma file_resize:
  fixes s :: "'a fs_st_scheme" and ip :: nat and z :: u32
  defines "t \<equiv> upd_inode ip (\<lambda>q. q\<lparr>i_size := z\<rparr>) s"
  assumes "ip < length (itable s)"
  shows "file_byte t ip = file_byte s ip" "file_wf t ip N = file_wf s ip N" "inode_block t ip = inode_block s ip"
proof -
  have v: "view t = view s" unfolding t_def by (rule upd_inode_view)
  have fb: "file_block t ip = file_block s ip" and ib: "indirect_block t ip = indirect_block s ip"
    using assms(2) v by (auto simp: fun_eq_iff file_block_def indirect_block_def t_def upd_inode_def)
  then show "file_byte t ip = file_byte s ip" by (simp add: fun_eq_iff file_byte_def v)
  show nb: "inode_block t ip = inode_block s ip" using assms(2) by (simp add: inode_block_def t_def upd_inode_def)
  show "file_wf t ip N = file_wf s ip N"
    using assms(2) fb ib nb v by (simp add: file_wf_def) (simp add: t_def upd_inode_def home_block_def log_area_def)
qed

section \<open>Properties\<close>

text \<open>The sums of offset and length that \<open>readi\<close> and \<open>writei\<close> form do not wrap for a file of legal length.\<close>

lemma file_sum:
  fixes off :: u32 and bs :: "u8 list"
  assumes "unat off + length bs \<le> N * BSIZE" and "N \<le> MAXFILE"
  shows "unat (of_nat (length bs) :: u32) = length bs" "unat (off + of_nat (length bs)) = unat off + length bs"
    "\<not> off + of_nat (length bs) < off" "unat off + length bs \<le> MAXFILE * BSIZE" "unat off + length bs < 2 ^ 32"
proof -
  have "N * BSIZE \<le> MAXFILE * BSIZE" using assms(2) by (rule mult_le_mono1)
  with assms(1) show le: "unat off + length bs \<le> MAXFILE * BSIZE" by (rule le_trans)
  then show lt: "unat off + length bs < 2 ^ 32"
    by (simp add: MAXFILE_def NDIRECT_def NINDIRECT_def BSIZE_def)
  then show "unat (of_nat (length bs) :: u32) = length bs" by (simp add: unat_of_nat)
  show s: "unat (off + of_nat (length bs)) = unat off + length bs"
    using lt by (simp add: unat_word_ariths(1) unat_of_nat)
  show "\<not> off + of_nat (length bs) < off" by (simp add: word_less_nat_alt s)
qed

lemma writei_writes:
  fixes s :: "'a fs_st_scheme"
  assumes wf: "file_wf s ip N" and ip: "ip < length (itable s)" and r: "tx_room (c + Suc (Suc k)) s L"
    and off: "off \<le> i_size (itable s ! ip)" and fits: "unat off + length bs \<le> N * BSIZE"
    and blocks: "unat off mod BSIZE + length bs \<le> c * BSIZE"
  shows "\<exists>t L'. writei ip (FromLocal bs) off (of_nat (length bs)) s = Ok (int (length bs)) t \<and>
    tx_room (Suc k) t L' \<and> disk_writes t = disk_writes s \<and> file_wf t ip N \<and> length (itable t) = length (itable s) \<and>
    unat (i_size (itable t ! ip)) = max (unat (i_size (itable s ! ip))) (unat off + length bs) \<and>
    (\<forall>i < N * BSIZE. file_byte t ip i =
       (if unat off \<le> i \<and> i < unat off + length bs then bs ! (i - unat off) else file_byte s ip i))"
proof -
  let ?n = "length bs" and ?sz = "unat (i_size (itable s ! ip))"
  have "N \<le> MAXFILE" using wf by (simp add: file_wf_def)
  note fs = file_sum [OF fits this]
  obtain s1 L1 where 1: "writei_loop ip (FromLocal bs) (unat off) ?n 0 s = Ok (?n, unat off + ?n) s1"
      "tx_room (Suc (Suc k)) s1 L1" "log_only s s1" "disk_writes s1 = disk_writes s" "file_wf s1 ip N"
      "\<And>i. i < N * BSIZE \<Longrightarrow> file_byte s1 ip i =
         (if unat off \<le> i \<and> i < unat off + ?n then bs ! (i - unat off) else file_byte s ip i)"
    using writei_loop_writes [OF wf r, where off = "unat off" and n = ?n and tot = 0 and bs = bs] blocks fits by auto
  note it1 = fs_log_only [OF 1(3)]
  define s2 where "s2 = (if unat off + ?n > ?sz then upd_inode ip (\<lambda>q. q\<lparr>i_size := of_nat (unat off + ?n)\<rparr>) s1 else s1)"
  have sz: "unat (i_size (itable s2 ! ip)) = max ?sz (unat off + ?n)"
    using ip it1 fs(2) by (auto simp: s2_def upd_inode_def)
  have 2: "file_byte s2 ip = file_byte s1 ip" "file_wf s2 ip N" "tx_room (Suc (Suc k)) s2 L1"
    "disk_writes s2 = disk_writes s" "length (itable s2) = length (itable s)"
    using file_resize [of ip s1 "of_nat (unat off + ?n)"] upd_inode_view(2) [of "Suc (Suc k)" ip _ s1] ip it1 1
    by (auto simp: s2_def)
  obtain t L2 where 3: "iupdate ip s2 = Ok () t" "tx_room (Suc k) t L2" "log_only s2 t" "disk_writes t = disk_writes s2"
      "\<forall>b. b \<noteq> inode_block s2 ip \<longrightarrow> view t b = view s2 b"
    using iupdate_law [OF 2(3), of ip] 2(2) by (auto simp: file_wf_def)
  note ft = file_other [OF 2(2) 3(3,5)]
  have "writei ip (FromLocal bs) off (of_nat ?n) s = Ok (int ?n) t"
    using off fs 1(1) 3(1) it1 by (simp add: writei_def not_less s2_def Let_def)
  moreover have "file_byte t ip i = (if unat off \<le> i \<and> i < unat off + ?n then bs ! (i - unat off) else file_byte s ip i)"
    if "i < N * BSIZE" for i
    using ft(2) [OF that] 2(1) 1(6) [OF that] by simp
  ultimately show ?thesis using 3(2,4) 2(4,5) ft(1) sz fs_log_only [OF 3(3)] by auto
qed

text \<open>
  C4: A file keeps what is written to it. Inside a transaction with room for the blocks touched, for a
  file whose first \<open>N\<close> blocks are allocated and an offset not past its end, \<open>writei\<close> of any bytes that fit
  those blocks returns their number; \<open>readi\<close> of the same range then returns exactly these bytes, the other
  bytes of the file are as before, its size is the larger of the old size and the end of the write, and
  nothing has reached the disk yet.
\<close>

theorem writei_readi_roundtrip:
  fixes s :: "'a fs_st_scheme"
  assumes "file_wf s ip N" and "ip < length (itable s)" and "tx_room (c + 2) s L"
    and "off \<le> i_size (itable s ! ip)" and "unat off + length bs \<le> N * BSIZE"
    and "unat off mod BSIZE + length bs \<le> c * BSIZE"
  shows "\<exists>t u. writei ip (FromLocal bs) off (of_nat (length bs)) s = Ok (int (length bs)) t \<and>
    readi ip ToLocal off (of_nat (length bs)) t = Ok (int (length bs), bs) u \<and> disk_writes u = disk_writes s \<and>
    unat (i_size (itable t ! ip)) = max (unat (i_size (itable s ! ip))) (unat off + length bs) \<and>
    (\<forall>i < N * BSIZE. i < unat off \<or> unat off + length bs \<le> i \<longrightarrow> file_byte t ip i = file_byte s ip i)"
proof -
  let ?n = "length bs"
  have r: "tx_room (c + Suc (Suc 0)) s L" using assms(3) by (simp add: numeral_2_eq_2)
  have "N \<le> MAXFILE" using assms(1) by (simp add: file_wf_def)
  note fs = file_sum [OF assms(5) this]
  obtain t L' where t: "writei ip (FromLocal bs) off (of_nat ?n) s = Ok (int ?n) t" "tx_room (Suc 0) t L'"
      "disk_writes t = disk_writes s" "file_wf t ip N"
      "unat (i_size (itable t ! ip)) = max (unat (i_size (itable s ! ip))) (unat off + ?n)"
      "\<And>i. i < N * BSIZE \<Longrightarrow> file_byte t ip i =
         (if unat off \<le> i \<and> i < unat off + ?n then bs ! (i - unat off) else file_byte s ip i)"
    using writei_writes [OF assms(1,2) r assms(4-6)] by blast
  obtain u where u: "readi_loop ip ToLocal (unat off) ?n 0 [] t = Ok (int ?n, map (file_byte t ip) [unat off..<unat off + ?n]) u"
      "disk_writes u = disk_writes t"
    using readi_loop_reads [OF t(4,2), of "unat off" ?n 0 "[]"] assms(5) by auto
  have "map (file_byte t ip) [unat off..<unat off + ?n] = bs"
    using t(6) assms(5) by (intro nth_equalityI) simp_all
  moreover have "\<not> i_size (itable t ! ip) < off" "\<not> i_size (itable t ! ip) < off + of_nat ?n"
    using t(5) fs(2) by (simp_all add: word_less_nat_alt)
  ultimately have "readi ip ToLocal off (of_nat ?n) t = Ok (int ?n, bs) u"
    using fs(1,3) u(1) by (simp add: readi_def Let_def)
  moreover have "file_byte t ip i = file_byte s ip i" if "i < N * BSIZE" "i < unat off \<or> unat off + ?n \<le> i" for i
    using t(6) [OF that(1)] that(2) by auto
  ultimately show ?thesis using t(1,3,5) u(2) by (intro exI [of _ t] exI [of _ u]) simp
qed

text \<open>A file of two blocks, 60 and 61, and 1100 bytes, whose inode is number 7.\<close>

definition file0 :: inode where
  "file0 = \<lparr>i_dev = ROOTDEV, i_inum = 7, i_ref = 1, i_lock = initsleeplock ''inode'', i_valid = True, i_type = T_FILE,
     i_major = 0, i_minor = 0, i_nlink = 1, i_size = 1100, i_addrs = [60, 61, 0, 0, 0, 0, 0, 0, 0, 0, 0, 0, 0]\<rparr>"

abbreviation "fs1 \<equiv> fs_machine fs_disk fs_super [file0]"

lemma fs1_file: "file_wf fs1 0 2"
proof -
  have fb: "file_block fs1 0 0 = 60" "file_block fs1 0 1 = 61" "inode_block fs1 0 = 32"
    by (simp_all add: file_block_def inode_block_def fs_machine_sel file0_def NDIRECT_def IBLOCK_def fs_super_def IPB_def
        BSIZE_def dinode_size_def)
  have home: "home_block fs1 60" "home_block fs1 61" "home_block fs1 32"
    by (simp_all add: home_block_def log_area_def fs_machine_sel log_machine_facts LOGSIZE_def MAXOPBLOCKS_def)
  have len: "length (view fs1 b) = BSIZE" for b
    by (simp add: fs_machine_bio log_machine_facts fs_disk_def)
  have "bn = 0 \<or> bn = 1" if "bn < 2" for bn :: nat using that by auto
  then show ?thesis
    using fb home len
    by (auto simp: file_wf_def inj_on_def less_2_cases_iff MAXFILE_def NDIRECT_def NINDIRECT_def fs_machine_sel file0_def)
qed

theorem writei_readi_roundtrip_witness:
  "\<exists>t u. writei 0 (FromLocal [1, 2, 3]) 1023 3 fs1 = Ok 3 t \<and> readi 0 ToLocal 1023 3 t = Ok (3, [1, 2, 3]) u \<and>
     disk_writes u = [] \<and> unat (i_size (itable t ! 0)) = 1100"
proof -
  have r: "tx_room (2 + 2) fs1 []" by (rule fs_machine_room) simp
  have "0 < length (itable fs1)" "(1023 :: u32) \<le> i_size (itable fs1 ! 0)" "unat (i_size (itable fs1 ! 0)) = 1100"
    by (simp_all add: fs_machine_sel file0_def)
  moreover have "disk_writes fs1 = []" by (simp add: fs_machine_sel log_machine_facts)
  ultimately show ?thesis
    using writei_readi_roundtrip [OF fs1_file _ r, of 1023 "[1, 2, 3]"] by (auto simp: BSIZE_def)
qed

end
