(* ===== verification/Inodelaws.thy ===== *)
theory Inodelaws
  imports Fslaws Filelaws
begin

text \<open>
  Inodes and names: an inode that \<open>iupdate\<close> has stored is what \<open>ilock\<close> loads again, the table of
  inodes has one entry per inode however often \<open>iget\<close> is called, and \<open>skipelem\<close> takes a path apart at
  its slashes.
\<close>

section \<open>The layout of an inode on disk\<close>

lemma words_fold:
  fixes f :: "nat \<Rightarrow> u32" and b :: nat
  defines "e m d \<equiv> fold (\<lambda>i d. put_field 4 d (b + 4 * i) (f i)) [0..<m] d"
  assumes "b + 4 * m \<le> length d"
  shows "length (e m d) = length d \<and>
    (\<forall>off k. off + k \<le> b \<or> b + 4 * m \<le> off \<longrightarrow> field k (e m d) off = (field k d off :: 'a::len word)) \<and>
    (\<forall>j < m. field 4 (e m d) (b + 4 * j) = f j)"
  using assms(2)
proof (induction m)
  case 0
  then show ?case by (simp add: e_def)
next
  case (Suc m)
  have IH: "length (e m d) = length d"
      "\<And>off k. off + k \<le> b \<or> b + 4 * m \<le> off \<Longrightarrow> field k (e m d) off = (field k d off :: 'a word)"
      "\<And>j. j < m \<Longrightarrow> field 4 (e m d) (b + 4 * j) = f j"
    using Suc by auto
  have s: "e (Suc m) d = put_field 4 (e m d) (b + 4 * m) (f m)" by (simp add: e_def)
  have room: "b + 4 * m + 4 \<le> length (e m d)" using IH(1) Suc.prems by simp
  have "field 4 (e (Suc m) d) (b + 4 * j) = f j" if "j < Suc m" for j
    using room IH(3) that by (cases "j = m") (auto simp: s field_put_other)
  moreover have "field k (e (Suc m) d) off = (field k d off :: 'a word)" if "off + k \<le> b \<or> b + 4 * Suc m \<le> off" for off k
    using that room IH(2) [of off k] by (auto simp: s field_put_other)
  ultimately show ?case using room IH(1) by (simp add: s)
qed

text \<open>What an inode has on disk.\<close>

definition same_dinode :: "inode \<Rightarrow> inode \<Rightarrow> bool" where
  "same_dinode q r \<longleftrightarrow> i_type q = i_type r \<and> i_major q = i_major r \<and> i_minor q = i_minor r \<and>
     i_nlink q = i_nlink r \<and> i_size q = i_size r \<and> i_addrs q = i_addrs r"

definition dinode_head :: "inode \<Rightarrow> u8 list \<Rightarrow> nat \<Rightarrow> u8 list" where
  "dinode_head q d off = put_field 4 (put_field 2 (put_field 2 (put_field 2 (put_field 2 d off (i_type q))
     (off + 2) (i_major q)) (off + 4) (i_minor q)) (off + 6) (i_nlink q)) (off + 8) (i_size q)"

lemma dinode_head_fields:
  assumes "off + dinode_size \<le> length d"
  shows "length (dinode_head q d off) = length d"
    "field 2 (dinode_head q d off) off = i_type q" "field 2 (dinode_head q d off) (off + 2) = i_major q"
    "field 2 (dinode_head q d off) (off + 4) = i_minor q" "field 2 (dinode_head q d off) (off + 6) = i_nlink q"
    "field 4 (dinode_head q d off) (off + 8) = i_size q"
    "\<And>o' k. o' + k \<le> off \<or> off + 12 \<le> o' \<Longrightarrow> field k (dinode_head q d off) o' = (field k d o' :: 'a::len word)"
  using assms by (auto simp: dinode_head_def dinode_size_def field_put_other)

lemma put_dinode_split:
  assumes "off + dinode_size \<le> length d"
  shows "length (put_dinode q d off) = length d"
    "\<And>j. j < NDIRECT + 1 \<Longrightarrow> field 4 (put_dinode q d off) (off + 12 + 4 * j) = i_addrs q ! j"
    "\<And>o' k. o' + k \<le> off + 12 \<or> off + dinode_size \<le> o' \<Longrightarrow>
       field k (put_dinode q d off) o' = (field k (dinode_head q d off) o' :: 'a::len word)"
proof -
  have p: "put_dinode q d off =
      fold (\<lambda>k d. put_field 4 d (off + 12 + 4 * k) (i_addrs q ! k)) [0..<NDIRECT + 1] (dinode_head q d off)"
    by (simp add: put_dinode_def Let_def dinode_head_def)
  have room: "off + 12 + 4 * (NDIRECT + 1) \<le> length (dinode_head q d off)"
    using assms dinode_head_fields(1) [OF assms] by (simp add: dinode_size_def NDIRECT_def)
  note w = words_fold [where 'a = 32, OF room, of "\<lambda>k. i_addrs q ! k", folded p]
  show "length (put_dinode q d off) = length d" using w dinode_head_fields(1) [OF assms] by metis
  show "field 4 (put_dinode q d off) (off + 12 + 4 * j) = i_addrs q ! j" if "j < NDIRECT + 1" for j
    using w that by blast
  show "field k (put_dinode q d off) o' = (field k (dinode_head q d off) o' :: 'a word)"
    if "o' + k \<le> off + 12 \<or> off + dinode_size \<le> o'" for o' k
    using words_fold [where 'a = 'a, OF room, of "\<lambda>k. i_addrs q ! k", folded p] that
    by (auto simp: dinode_size_def NDIRECT_def)
qed

lemma put_dinode_fields:
  assumes "off + dinode_size \<le> length d" and "length (i_addrs q) = NDIRECT + 1"
  shows "same_dinode (get_dinode (put_dinode q d off) off r) q"
    "\<And>o' k. o' + k \<le> off \<or> off + dinode_size \<le> o' \<Longrightarrow> field k (put_dinode q d off) o' = (field k d o' :: 'a::len word)"
proof -
  note h = dinode_head_fields [OF assms(1)]
  note s = put_dinode_split [OF assms(1)]
  have "map (\<lambda>k. field 4 (put_dinode q d off) (off + 12 + 4 * k)) [0..<NDIRECT + 1] = i_addrs q"
    using s(2) assms(2) by (intro nth_equalityI) (simp_all del: upt_Suc)
  moreover have "field 2 (put_dinode q d off) off = i_type q" "field 2 (put_dinode q d off) (off + 2) = i_major q"
    "field 2 (put_dinode q d off) (off + 4) = i_minor q" "field 2 (put_dinode q d off) (off + 6) = i_nlink q"
    "field 4 (put_dinode q d off) (off + 8) = i_size q"
    using h(2-6) by (simp_all add: s(3))
  ultimately show "same_dinode (get_dinode (put_dinode q d off) off r) q"
    by (simp add: same_dinode_def get_dinode_def)
  show "field k (put_dinode q d off) o' = (field k d o' :: 'a word)" if o: "o' + k \<le> off \<or> off + dinode_size \<le> o'" for o' k
    by (rule trans [OF s(3) h(7)]) (use o in \<open>auto simp: dinode_size_def\<close>)
qed

section \<open>Storing and loading an inode\<close>

lemma dinode_apart:
  "k mod IPB \<noteq> j mod IPB \<Longrightarrow> dinode_off k + dinode_size \<le> dinode_off j \<or> dinode_off j + dinode_size \<le> dinode_off k"
  by (auto simp: dinode_off_def IPB_def BSIZE_def dinode_size_def)

lemma dinode_room: "dinode_off k + dinode_size \<le> BSIZE"
  by (simp add: dinode_off_def IPB_def BSIZE_def dinode_size_def)

lemma put_dinode_other:
  assumes "length d = BSIZE" and "length (i_addrs q) = NDIRECT + 1" and "k mod IPB \<noteq> j mod IPB"
  shows "get_dinode (put_dinode q d (dinode_off j)) (dinode_off k) r = get_dinode d (dinode_off k) r"
proof -
  have off: "dinode_off j + dinode_size \<le> length d" using dinode_room assms(1) by simp
  note f = put_dinode_fields(2) [OF off assms(2)]
  have "map (\<lambda>i. field 4 (put_dinode q d (dinode_off j)) (dinode_off k + 12 + 4 * i)) [0..<NDIRECT + 1] =
      (map (\<lambda>i. field 4 d (dinode_off k + 12 + 4 * i)) [0..<NDIRECT + 1] :: u32 list)"
    by (rule map_cong [OF refl f]) (use dinode_apart [OF assms(3)] in \<open>auto simp: dinode_size_def NDIRECT_def\<close>)
  then show ?thesis
    using dinode_apart [OF assms(3)]
    by (auto simp: get_dinode_def f dinode_size_def)
qed

lemma itable_commutes:
  fixes s :: "'a fs_st_scheme"
  shows "wakeup ch (s\<lparr>itable := x\<rparr>) = (wakeup ch s)\<lparr>itable := x\<rparr>"
    "upd_buf b g (s\<lparr>itable := x\<rparr>) = (upd_buf b g s)\<lparr>itable := x\<rparr>"
    "mypid (s\<lparr>itable := x\<rparr>) = mypid s"
    "b_unlink b (s\<lparr>itable := x\<rparr>) = (b_unlink b s)\<lparr>itable := x\<rparr>"
    "b_push_front b (s\<lparr>itable := x\<rparr>) = (b_push_front b s)\<lparr>itable := x\<rparr>"
proof -
  show w: "wakeup ch (s\<lparr>itable := x\<rparr>) = (wakeup ch s)\<lparr>itable := x\<rparr>" for ch
    by (simp add: wakeup_def myproc_def)
  show u: "upd_buf b g (s\<lparr>itable := x\<rparr>) = (upd_buf b g s)\<lparr>itable := x\<rparr>" for b g and s :: "'a fs_st_scheme"
    by (simp add: upd_buf_def)
  show "mypid (s\<lparr>itable := x\<rparr>) = mypid s" by (simp add: mypid_def mine_def me_def myproc_def)
  have c: "bcache (s\<lparr>itable := x\<rparr>) = bcache s" for s :: "'a fs_st_scheme" by simp
  show "b_unlink b (s\<lparr>itable := x\<rparr>) = (b_unlink b s)\<lparr>itable := x\<rparr>"
    by (simp only: b_unlink_def Let_def u c)
  show "b_push_front b (s\<lparr>itable := x\<rparr>) = (b_push_front b s)\<lparr>itable := x\<rparr>"
    by (simp only: b_push_front_def Let_def u c)
qed

lemma brelse_upd_inode:
  fixes s :: "'a fs_st_scheme"
  assumes "brelse b s = Ok () t"
  shows "brelse b (s\<lparr>itable := x\<rparr>) = Ok () (t\<lparr>itable := x\<rparr>)"
proof -
  define v where "v = (\<lambda>s :: 'a fs_st_scheme. upd_buf b (\<lambda>q. q\<lparr>b_refcnt := b_refcnt q - 1\<rparr>)
    (wakeup (BufLockChan b) (upd_buf b (\<lambda>q. q\<lparr>b_lock := releasesleep (b_lock q)\<rparr>) s)))"
  have e: "brelse b s = (if \<not> holdingsleep (mypid s) (b_lock (bcache s ! b)) then Panic ''brelse''
      else if b_refcnt (bcache (v s) ! b) = 0 then Ok () (b_push_front b (b_unlink b (v s))) else Ok () (v s))" for s
    by (simp only: brelse_def Let_def v_def)
  have c: "bcache (s\<lparr>itable := x\<rparr>) = bcache s" for s :: "'a fs_st_scheme" by simp
  have vi: "v (s\<lparr>itable := x\<rparr>) = (v s)\<lparr>itable := x\<rparr>" by (simp only: v_def itable_commutes)
  show ?thesis using assms unfolding e vi itable_commutes c by (auto split: if_splits simp: c itable_commutes)
qed

lemma i_acquire_free:
  assumes "\<not> sl_locked (i_lock (itable s ! ip))"
  shows "i_acquire ip s =
    Ok () (upd_inode ip (\<lambda>q. q\<lparr>i_lock := (i_lock q)\<lparr>sl_locked := True, sl_pid := mypid s\<rparr>\<rparr>) s)"
  using assms by (simp add: i_acquire_def acquiresleep_def upd_inode_def)

lemma mypid_only:
  assumes "log_only s t" and "me s < length (procs s)"
  shows "mypid t = mypid s" and "me t = me s" and "length (procs t) = length (procs s)"
  using assms woken_pid woken_length
  by (auto simp: log_only_def mypid_def mine_def me_def myproc_def split: option.splits)

lemma ilock_loads:
  fixes s :: "'a fs_st_scheme"
  assumes r: "tx_room (Suc k) s L" and home: "home_block s (inode_block s ip)" and ip: "ip < length (itable s)"
    and q: "i_dev (itable s ! ip) = ROOTDEV" "i_ref (itable s ! ip) \<ge> 1" "\<not> sl_locked (i_lock (itable s ! ip))"
      "\<not> i_valid (itable s ! ip)"
    and ty: "i_type (get_dinode (view s (inode_block s ip)) (dinode_off (unat (i_inum (itable s ! ip)))) (itable s ! ip)) \<noteq> 0"
  shows "\<exists>u. ilock (Some ip) s = Ok () u \<and> i_valid (itable u ! ip) \<and> sl_locked (i_lock (itable u ! ip)) \<and>
    same_dinode (itable u ! ip)
      (get_dinode (view s (inode_block s ip)) (dinode_off (unat (i_inum (itable s ! ip)))) (itable s ! ip)) \<and>
    i_dev (itable u ! ip) = ROOTDEV \<and> i_inum (itable u ! ip) = i_inum (itable s ! ip) \<and>
    i_ref (itable u ! ip) = i_ref (itable s ! ip) \<and> sl_pid (i_lock (itable u ! ip)) = mypid s \<and> mypid u = mypid s \<and>
    (\<forall>j. j \<noteq> ip \<longrightarrow> itable u ! j = itable s ! j) \<and> length (itable u) = length (itable s) \<and>
    tx_room (Suc k) u L \<and> view u = view s \<and> sb u = sb s \<and> home_block u = home_block s"
proof -
  let ?s0 = "upd_inode ip (\<lambda>q. q\<lparr>i_lock := (i_lock q)\<lparr>sl_locked := True, sl_pid := mypid s\<rparr>\<rparr>) s"
  let ?q = "itable ?s0 ! ip"
  let ?b = "inode_block s ip"
  let ?d = "\<lambda>q. get_dinode (view s ?b) (dinode_off (unat (i_inum (itable s ! ip)))) q"
  have s0: "tx_room (Suc k) ?s0 L" "home_block ?s0 ?b" "view ?s0 = view s" "sb ?s0 = sb s"
    "?q = (itable s ! ip)\<lparr>i_lock := (i_lock (itable s ! ip))\<lparr>sl_locked := True, sl_pid := mypid s\<rparr>\<rparr>"
    using r home ip by (simp_all add: upd_inode_view) (simp add: upd_inode_def)
  obtain bp s1 t where 1: "bread ROOTDEV ?b ?s0 = Ok bp s1" "b_data (bcache s1 ! bp) = view s ?b" "log_only ?s0 s1"
      "brelse bp s1 = Ok () t" "log_only ?s0 t" "tx_room (Suc k) t L" "view t = view s"
    using room_read [OF s0(1,2)] by (simp only: s0(3)) blast
  have it: "itable s1 = itable ?s0" "sb s1 = sb s" using fs_log_only [OF 1(3)] by (simp_all add: s0)
  let ?u = "upd_inode ip (\<lambda>q. q\<lparr>i_valid := True\<rparr>) (t\<lparr>itable := (itable ?s0)[ip := ?d ?q]\<rparr>)"
  have u: "itable ?u ! ip = (?d ?q)\<lparr>i_valid := True\<rparr>" using ip it by (simp add: upd_inode_def)
  have d: "i_type (?d ?q) = i_type (?d (itable s ! ip))" by (simp add: get_dinode_def)
  have rel: "brelse bp (upd_inode ip (\<lambda>_. ?d ?q) s1) = Ok () (t\<lparr>itable := (itable ?s0)[ip := ?d ?q]\<rparr>)"
    using brelse_upd_inode [OF 1(4)] by (simp add: upd_inode_def it)
  have n: "i_inum ?q = i_inum (itable s ! ip)" "i_dev ?q = ROOTDEV" "\<not> i_valid ?q" using q(1,4) by (simp_all add: s0(5))
  have "ilock (Some ip) s =
      (let q = ?q in
            if \<not> i_valid q then
              bind (bread (i_dev q) (IBLOCK (unat (i_inum q)) (sb ?s0)) ?s0) (\<lambda>bp s.
              let q = get_dinode (b_data (bcache s ! bp)) (dinode_off (unat (i_inum q))) q in
              bind (brelse bp (upd_inode ip (\<lambda>_. q) s)) (\<lambda>_ s.
              let s = upd_inode ip (\<lambda>q. q\<lparr>i_valid := True\<rparr>) s in
              if i_type (itable s ! ip) = 0 then Panic ''ilock: no type'' else Ok () s))
            else Ok () ?s0)"
    using q(2) by (simp only: ilock_def option.case i_acquire_free [OF q(3)] bind.simps) simp
  also have "\<dots> = bind (brelse bp (upd_inode ip (\<lambda>_. ?d ?q) s1)) (\<lambda>_ s.
              let s = upd_inode ip (\<lambda>q. q\<lparr>i_valid := True\<rparr>) s in
              if i_type (itable s ! ip) = 0 then Panic ''ilock: no type'' else Ok () s)"
    using n 1(1,2) s0(4) by (simp only: Let_def inode_block_def [symmetric] bind.simps if_True not_False_eq_True)
  also have "\<dots> = Ok () ?u" using ty d by (simp only: rel bind.simps Let_def u) simp
  finally have "ilock (Some ip) s = Ok () ?u" .
  moreover have "same_dinode (itable ?u ! ip) (?d (itable s ! ip))" "sl_locked (i_lock (itable ?u ! ip))"
    unfolding u unfolding s0(5) by (simp_all add: same_dinode_def get_dinode_def)
  moreover have "i_dev (itable ?u ! ip) = ROOTDEV" "i_inum (itable ?u ! ip) = i_inum (itable s ! ip)"
      "i_ref (itable ?u ! ip) = i_ref (itable s ! ip)" "sl_pid (i_lock (itable ?u ! ip)) = mypid s"
    unfolding u unfolding s0(5) using q(1) by (simp_all add: get_dinode_def)
  moreover have "\<forall>j. j \<noteq> ip \<longrightarrow> itable ?u ! j = itable s ! j" "length (itable ?u) = length (itable s)" by (simp_all add: upd_inode_def)
  moreover have "mypid ?u = mypid s"
  proof -
    have "bio_inv ?s0" using s0(1) by (simp add: tx_room_def tx_def log_wf_def)
    then have "mypid t = mypid ?s0" using mypid_only [OF 1(5)] by (simp add: bio_inv_def)
    then show ?thesis by (simp add: mypid_def mine_def me_def myproc_def upd_inode_def)
  qed
  moreover have "tx_room (Suc k) ?u L" "view ?u = view s" "sb ?u = sb s" "home_block ?u = home_block s"
  proof -
    have w: "?u = upd_inode ip (\<lambda>q. q\<lparr>i_valid := True\<rparr>) (upd_inode ip (\<lambda>_. ?d ?q) t)"
      using fs_log_only [OF 1(5)] by (simp add: upd_inode_def)
    have "home_block t = home_block s"
      using home_block_only [OF 1(5)] by (auto simp: upd_inode_view)
    then show "tx_room (Suc k) ?u L" "view ?u = view s" "sb ?u = sb s" "home_block ?u = home_block s"
      unfolding w using 1(6,7) fs_log_only [OF 1(5)] s0(4) by (simp_all add: upd_inode_view fun_eq_iff)
  qed
  ultimately show ?thesis using u by auto
qed

text \<open>
  C15: An inode survives its stay on the disk. After \<open>iupdate\<close> has stored the inode of a table entry inside
  a transaction, any free, invalid entry for the same inode number that \<open>ilock\<close> locks is loaded with the
  same type, device numbers, link count, size and block addresses, and is marked valid. The other inodes
  in the same block of the disk are unchanged.
\<close>

theorem iupdate_ilock_roundtrip:
  fixes s :: "'a fs_st_scheme"
  assumes "tx_room 2 s L" and "home_block s (inode_block s ip)" and "ip < length (itable s)"
    and "i_dev (itable s ! ip) = ROOTDEV" and "i_type (itable s ! ip) \<noteq> 0" and "length (i_addrs (itable s ! ip)) = NDIRECT + 1"
    and "length (view s (inode_block s ip)) = BSIZE" and "jp < length (itable s)" and "i_dev r = ROOTDEV"
    and "i_inum r = i_inum (itable s ! ip)" and "i_ref r \<ge> 1" and "\<not> sl_locked (i_lock r)" and "\<not> i_valid r"
  shows "\<exists>t u. iupdate ip s = Ok () t \<and> ilock (Some jp) (upd_inode jp (\<lambda>_. r) t) = Ok () u \<and>
    same_dinode (itable u ! jp) (itable s ! ip) \<and> i_valid (itable u ! jp) \<and> sl_locked (i_lock (itable u ! jp)) \<and>
    (\<forall>k q. k mod IPB \<noteq> unat (i_inum r) mod IPB \<longrightarrow>
       get_dinode (view t (inode_block s ip)) (dinode_off k) q = get_dinode (view s (inode_block s ip)) (dinode_off k) q)"
proof -
  let ?q = "itable s ! ip"
  let ?b = "inode_block s ip"
  let ?o = "dinode_off (unat (i_inum ?q))"
  have room: "tx_room (Suc (Suc 0)) s L" using assms(1) by (simp add: numeral_2_eq_2)
  obtain t L' where t: "iupdate ip s = Ok () t" "tx_room (Suc 0) t L'" "log_only s t"
      "view t = (view s)(?b := put_dinode ?q (view s ?b) ?o)"
    using iupdate_law [OF room assms(2,4)] by blast
  note f = fs_log_only [OF t(3)] home_block_only [OF t(3)]
  let ?t = "upd_inode jp (\<lambda>_. r) t"
  have r: "itable ?t ! jp = r" using assms(8) f by (simp add: upd_inode_def)
  have b: "inode_block ?t jp = ?b" using r assms(10) f by (simp add: inode_block_def)
  have off: "?o + dinode_size \<le> length (view s ?b)" using dinode_room assms(7) by simp
  have same: "same_dinode (get_dinode (view ?t ?b) ?o r) ?q"
    using put_dinode_fields(1) [OF off assms(6)] by (simp add: upd_inode_view t(4))
  have "tx_room (Suc 0) ?t L'" "home_block ?t (inode_block ?t jp)" "jp < length (itable ?t)"
    using t(2) assms(2,8) f by (simp_all add: upd_inode_view b)
  moreover have "i_type (get_dinode (view ?t ?b) ?o r) \<noteq> 0" using same assms(5) by (simp add: same_dinode_def)
  ultimately obtain u where u: "ilock (Some jp) ?t = Ok () u" "i_valid (itable u ! jp)" "sl_locked (i_lock (itable u ! jp))"
      "same_dinode (itable u ! jp) (get_dinode (view ?t ?b) ?o r)"
    using ilock_loads [of 0 ?t L' jp] assms(9-13) unfolding r b by auto
  have "same_dinode (itable u ! jp) ?q" using u(4) same by (simp add: same_dinode_def)
  moreover have "get_dinode (view t ?b) (dinode_off k) q = get_dinode (view s ?b) (dinode_off k) q"
    if "k mod IPB \<noteq> unat (i_inum r) mod IPB" for k q
    using put_dinode_other [OF assms(7,6)] that assms(10) by (simp add: t(4))
  ultimately show ?thesis using t(1) u(1-3) by blast
qed

theorem iupdate_ilock_roundtrip_witness:
  "\<exists>t u. iupdate 0 fs1 = Ok () t \<and>
    ilock (Some 0) (upd_inode 0 (\<lambda>_. file0\<lparr>i_valid := False, i_size := 0, i_addrs := []\<rparr>) t) = Ok () u \<and>
    i_size (itable u ! 0) = 1100 \<and> i_valid (itable u ! 0)"
proof -
  let ?r = "file0\<lparr>i_valid := False, i_size := 0, i_addrs := []\<rparr>"
  have e: "itable fs1 ! 0 = file0" "0 < length (itable fs1)" by (simp_all add: fs_machine_sel)
  have "inode_block fs1 0 = 32"
    by (simp add: inode_block_def fs_machine_sel file0_def IBLOCK_def fs_super_def IPB_def BSIZE_def dinode_size_def)
  moreover have "home_block fs1 32"
    by (simp add: home_block_def log_area_def fs_machine_sel log_machine_facts LOGSIZE_def MAXOPBLOCKS_def)
  moreover have "length (view fs1 b) = BSIZE" for b by (simp add: fs_machine_bio log_machine_facts fs_disk_def)
  moreover have "tx_room 2 fs1 []" by (rule fs_machine_room) simp
  ultimately obtain t u where "iupdate 0 fs1 = Ok () t" "ilock (Some 0) (upd_inode 0 (\<lambda>_. ?r) t) = Ok () u"
      "same_dinode (itable u ! 0) (itable fs1 ! 0)" "i_valid (itable u ! 0)"
    using iupdate_ilock_roundtrip [of fs1 "[]" 0 0 ?r] unfolding e
    by (auto simp: file0_def initsleeplock_def T_FILE_def NDIRECT_def fs_machine_sel)
  then show ?thesis unfolding e by (auto simp: same_dinode_def file0_def)
qed

section \<open>The table of inodes\<close>

text \<open>No two entries in use are for the same inode, and no reference count is negative.\<close>

definition itable_ok :: "'a fs_st_scheme \<Rightarrow> bool" where
  "itable_ok s \<longleftrightarrow> (\<forall>i < length (itable s). 0 \<le> i_ref (itable s ! i)) \<and>
     (\<forall>i < length (itable s). \<forall>j < length (itable s).
        0 < i_ref (itable s ! i) \<and> 0 < i_ref (itable s ! j) \<and> i_dev (itable s ! i) = i_dev (itable s ! j) \<and>
        i_inum (itable s ! i) = i_inum (itable s ! j) \<longrightarrow> i = j)"

definition entry_for :: "u32 \<Rightarrow> u32 \<Rightarrow> inode \<Rightarrow> bool" where
  "entry_for dev inum q \<longleftrightarrow> 0 < i_ref q \<and> i_dev q = dev \<and> i_inum q = inum"

lemma find_upt:
  "find P [0..<n] = Some i \<Longrightarrow> i < n \<and> P i" "find P [0..<n] = None \<Longrightarrow> j < n \<Longrightarrow> \<not> P j"
  by (auto simp: find_Some_iff find_None_iff)

lemma itable_ok_entry:
  fixes s :: "'a fs_st_scheme"
  assumes "itable_ok s" and "0 < i_ref (f (itable s ! i))"
    and "\<forall>j < length (itable s). j \<noteq> i \<longrightarrow> \<not> entry_for (i_dev (f (itable s ! i))) (i_inum (f (itable s ! i))) (itable s ! j)"
  shows "itable_ok (upd_inode i f s)"
  unfolding itable_ok_def
proof (intro conjI allI impI)
  let ?t = "itable (upd_inode i f s)"
  have e: "?t ! j = (if j = i then f (itable s ! i) else itable s ! j)" if "j < length ?t" for j
    using that by (simp add: upd_inode_def nth_list_update)
  show "0 \<le> i_ref (?t ! j)" if "j < length ?t" for j
    using e [OF that] that assms(1,2) by (simp add: itable_ok_def)
  show "j = k" if "j < length ?t" "k < length ?t" "0 < i_ref (?t ! j) \<and> 0 < i_ref (?t ! k) \<and>
      i_dev (?t ! j) = i_dev (?t ! k) \<and> i_inum (?t ! j) = i_inum (?t ! k)" for j k
  proof (cases "j = i \<or> k = i")
    case True
    then show ?thesis using that(3) assms(3) that(1,2) unfolding e [OF that(1)] e [OF that(2)]
      by (auto simp: entry_for_def split: if_splits)
  next
    case False
    then show ?thesis using that(3) assms(1) that(1,2) unfolding e [OF that(1)] e [OF that(2)]
      by (simp add: itable_ok_def)
  qed
qed

text \<open>
  C17: An inode in use has one entry in the table. From a table in which that holds, \<open>iget\<close> returns an entry
  for the device and number it was asked for, with one more reference than that inode had before; it is
  the entry that was in use for the inode, if there was one, and otherwise a free one, marked not loaded.
  No other entry changes, and still no two entries in use are for one inode.
\<close>

theorem iget_one_entry:
  fixes s :: "'a fs_st_scheme"
  assumes "itable_ok s" and "iget dev inum s = Ok ip t"
  shows "itable_ok t \<and> ip < length (itable s) \<and> entry_for dev inum (itable t ! ip) \<and>
    (\<forall>j < length (itable s). j \<noteq> ip \<longrightarrow> itable t ! j = itable s ! j) \<and>
    (if \<exists>j < length (itable s). entry_for dev inum (itable s ! j)
     then entry_for dev inum (itable s ! ip) \<and> itable t ! ip = (itable s ! ip)\<lparr>i_ref := i_ref (itable s ! ip) + 1\<rparr>
     else i_ref (itable s ! ip) = 0 \<and> i_ref (itable t ! ip) = 1 \<and> \<not> i_valid (itable t ! ip))"
proof (cases "find (\<lambda>i. entry_for dev inum (itable s ! i)) [0..<length (itable s)]")
  case None
  let ?f = "\<lambda>q. q\<lparr>i_dev := dev, i_inum := inum, i_ref := 1, i_valid := False\<rparr>"
  obtain i where i: "find (\<lambda>i. i_ref (itable s ! i) = 0) [0..<length (itable s)] = Some i" "ip = i" "t = upd_inode i ?f s"
    using assms(2) None by (auto simp: iget_def entry_for_def split: option.splits)
  note n = find_upt(2) [OF None]
  note i' = find_upt(1) [OF i(1)]
  have "itable_ok t" unfolding i(3) using n by (intro itable_ok_entry [OF assms(1)]) simp_all
  moreover have "itable t ! i = ?f (itable s ! i)" "\<forall>j < length (itable s). j \<noteq> i \<longrightarrow> itable t ! j = itable s ! j"
    using i' by (simp_all add: i(3) upd_inode_def)
  ultimately show ?thesis using n i' by (simp add: i(2) entry_for_def)
next
  case (Some i)
  let ?f = "\<lambda>q. q\<lparr>i_ref := i_ref q + 1\<rparr>"
  have i: "ip = i" "t = upd_inode i ?f s" using assms(2) Some by (auto simp: iget_def entry_for_def)
  note i' = find_upt(1) [OF Some]
  have "\<forall>j < length (itable s). j \<noteq> i \<longrightarrow> \<not> entry_for dev inum (itable s ! j)"
    using i' assms(1) unfolding itable_ok_def entry_for_def by metis
  then have "itable_ok t" unfolding i(2) using i' by (intro itable_ok_entry [OF assms(1)]) (simp_all add: entry_for_def)
  moreover have "itable t ! i = ?f (itable s ! i)" "\<forall>j < length (itable s). j \<noteq> i \<longrightarrow> itable t ! j = itable s ! j"
    using i' by (simp_all add: i(2) upd_inode_def)
  moreover have "\<exists>j < length (itable s). entry_for dev inum (itable s ! j)" using i' by blast
  ultimately show ?thesis using i' by (simp add: i(1) entry_for_def)
qed

theorem iget_one_entry_witness:
  "\<exists>t. iget ROOTDEV 7 fs1 = Ok 0 t \<and> i_ref (itable t ! 0) = 2 \<and> itable_ok t"
proof -
  have ok: "itable_ok fs1" by (simp add: itable_ok_def fs_machine_sel file0_def)
  have "iget ROOTDEV 7 fs1 = Ok 0 (upd_inode 0 (\<lambda>q. q\<lparr>i_ref := i_ref q + 1\<rparr>) fs1)"
    by (simp add: iget_def fs_machine_sel file0_def)
  with iget_one_entry [OF ok this] show ?thesis by (auto simp: upd_inode_def fs_machine_sel file0_def)
qed

section \<open>Paths\<close>

text \<open>The reference: the path cut at every slash, without the empty pieces, each piece cut to \<open>DIRSIZ\<close> characters.\<close>

fun split_slash :: "u8 list \<Rightarrow> u8 list list" where
  "split_slash [] = [[]]"
| "split_slash (c # cs) =
     (if c = slash then [] # split_slash cs else (c # hd (split_slash cs)) # tl (split_slash cs))"

definition path_names :: "u8 list \<Rightarrow> u8 list list" where
  "path_names path = map (take DIRSIZ) (filter (\<lambda>e. e \<noteq> []) (split_slash path))"

text \<open>The reference of the lookup: one directory per name.\<close>

fun walk_names ::
    "bool \<Rightarrow> nat \<Rightarrow> u8 list list \<Rightarrow> u8 list \<Rightarrow> 'a fs_st_scheme \<Rightarrow> (nat option \<times> u8 list, 'a fs_st_scheme) res" where
  "walk_names parent ip [] name s =
     (if parent then bind (iput ip s) (\<lambda>_ s. Ok (None, name) s) else Ok (Some ip, name) s)"
| "walk_names parent ip (n # ns) name s =
     bind (ilock (Some ip) s) (\<lambda>_ s.
       if i_type (itable s ! ip) \<noteq> T_DIR then bind (iunlockput ip s) (\<lambda>_ s. Ok (None, n) s)
       else if parent \<and> ns = [] then bind (iunlock (Some ip) s) (\<lambda>_ s. Ok (Some ip, n) s)
       else bind (dirlookup ip n s) (\<lambda>r s.
         case r of
           None \<Rightarrow> bind (iunlockput ip s) (\<lambda>_ s. Ok (None, n) s)
         | Some (next, off) \<Rightarrow> bind (iunlockput ip s) (\<lambda>_ s. walk_names parent next ns n s)))"

lemma split_slash_elem:
  "split_slash p = takeWhile (\<lambda>c. c \<noteq> slash) p #
     (case dropWhile (\<lambda>c. c \<noteq> slash) p of [] \<Rightarrow> [] | c # r \<Rightarrow> split_slash r)"
  by (induction p) auto

lemma path_names_slashes: "path_names (dropWhile (\<lambda>c. c = slash) p) = path_names p"
  by (induction p) (auto simp: path_names_def)

lemma path_names_cons:
  assumes "p \<noteq> []" "hd p \<noteq> slash"
  shows "path_names p = take DIRSIZ (takeWhile (\<lambda>c. c \<noteq> slash) p) # path_names (dropWhile (\<lambda>c. c \<noteq> slash) p)"
proof -
  have "takeWhile (\<lambda>c. c \<noteq> slash) p \<noteq> []" using assms by (cases p) auto
  moreover have "filter (\<lambda>e. e \<noteq> []) (case dropWhile (\<lambda>c. c \<noteq> slash) p of [] \<Rightarrow> [] | c # r \<Rightarrow> split_slash r) =
      filter (\<lambda>e. e \<noteq> []) (split_slash (dropWhile (\<lambda>c. c \<noteq> slash) p))"
  proof (cases "dropWhile (\<lambda>c. c \<noteq> slash) p")
    case Nil
    show ?thesis by (simp only: Nil) simp
  next
    case (Cons c r)
    then have "c = slash" using hd_dropWhile [of "\<lambda>c. c \<noteq> slash" p] by (metis list.distinct(1) list.sel(1))
    then show ?thesis by (simp only: Cons) simp
  qed
  ultimately show ?thesis by (subst path_names_def, subst split_slash_elem) (simp add: path_names_def)
qed

lemma skipelem_names:
  "skipelem p = None \<Longrightarrow> path_names p = []"
  "skipelem p = Some (n, r) \<Longrightarrow> path_names p = n # path_names r \<and> (r = [] \<longleftrightarrow> path_names r = [])"
proof -
  let ?p = "dropWhile (\<lambda>c. c = slash) p"
  show "path_names p = []" if "skipelem p = None"
  proof -
    have "?p = []" using that by (simp add: skipelem_def Let_def split: if_splits)
    then show ?thesis using path_names_slashes [of p] by (simp only:) (simp add: path_names_def)
  qed
  assume "skipelem p = Some (n, r)"
  then have p: "?p \<noteq> []" "n = take DIRSIZ (takeWhile (\<lambda>c. c \<noteq> slash) ?p)"
      "r = dropWhile (\<lambda>c. c = slash) (dropWhile (\<lambda>c. c \<noteq> slash) ?p)"
    by (auto simp: skipelem_def Let_def split: if_splits)
  have "path_names ?p = n # path_names r"
    using path_names_cons [OF p(1)] hd_dropWhile [OF p(1)] by (simp add: p(2,3) path_names_slashes)
  moreover have "path_names r \<noteq> []" if "r \<noteq> []"
    using path_names_cons [OF that] hd_dropWhile [of "\<lambda>c. c = slash"] that p(3) by auto
  ultimately show "path_names p = n # path_names r \<and> (r = [] \<longleftrightarrow> path_names r = [])"
    by (auto simp: path_names_slashes) (simp add: path_names_def)
qed

lemma namex_loop_walks:
  fixes s :: "'a fs_st_scheme"
  shows "namex_loop parent ip path name s = walk_names parent ip (path_names path) name s"
proof (induction path arbitrary: ip name s rule: length_induct)
  case (1 path)
  show ?case
  proof (cases "skipelem path")
    case None
    then show ?thesis using skipelem_names(1) [OF None] by (subst namex_loop.simps) simp
  next
    case (Some a)
    obtain n r where a: "a = (n, r)" by (cases a)
    have IH: "namex_loop parent ip' r n = (walk_names parent ip' (path_names r) n :: 'a fs_st_scheme \<Rightarrow> _)" for ip'
      using 1 skipelem_shorter [of path n r] Some a by auto
    have "path_names path = n # path_names r" "r = [] \<longleftrightarrow> path_names r = []"
      using skipelem_names(2) [of path n r] Some a by auto
    then show ?thesis using Some a by (subst namex_loop.simps) (simp add: IH cong: if_cong option.case_cong prod.case_cong)
  qed
qed

text \<open>
  C16: A path means the list of its names. \<open>namex\<close>, which peels one element after the other off the string
  with \<open>skipelem\<close>, does what a walk over the list of names does, one directory per name, where the names are
  the non-empty pieces between the slashes, cut to \<open>DIRSIZ\<close> characters: repeated, leading and trailing
  slashes make no difference except that a leading one starts the walk at the root.
\<close>

theorem namex_walks_names:
  "namex path parent s =
     bind (if path \<noteq> [] \<and> hd path = slash then iget ROOTDEV ROOTINO s
           else case p_cwd (mine s) of
             Some ip \<Rightarrow> Ok (fst (idup ip s)) (snd (idup ip s))
           | None \<Rightarrow> Panic ''null pointer'')
       (\<lambda>ip s. walk_names parent ip (path_names path) [] s)"
proof -
  have "str_at path = slash \<longleftrightarrow> path \<noteq> [] \<and> hd path = slash"
    by (cases path) (simp_all add: slash_def)
  then show ?thesis
    by (auto simp: namex_def namex_loop_walks split: option.split prod.split)
qed

end
