(* ===== verification/Ulib.thy ===== *)
theory Ulib
  imports Grep Cstring
begin

text \<open>
  The library that user programs are linked with: the string routines of \<open>user/ulib.c\<close>, the formatted
  output of \<open>user/printf.c\<close>, and what a process does to the world: \<open>uprog\<close> is a process as a tree of
  system calls, each continued by its result. The routines work on the byte-addressed memory of the
  process; characters are unsigned, as they are for this compiler. A scan for a terminator returns
  nothing where it would not end.
\<close>

section \<open>String routines\<close>

partial_function (option) strcpy :: "memory \<Rightarrow> u64 \<Rightarrow> u64 \<Rightarrow> memory option" where
  "strcpy m s t = (if m t \<noteq> 0 then strcpy (m(s := m t)) (s + 1) (t + 1) else Some (m(s := 0)))"

partial_function (option) strcmp :: "memory \<Rightarrow> u64 \<Rightarrow> u64 \<Rightarrow> int option" where
  "strcmp m p q =
     (if m p \<noteq> 0 \<and> m p = m q then strcmp m (p + 1) (q + 1) else Some (uint (m p) - uint (m q)))"

partial_function (option) strlen_u :: "memory \<Rightarrow> u64 \<Rightarrow> nat \<Rightarrow> nat option" where
  "strlen_u m s n = (if m (s + of_nat n) \<noteq> 0 then strlen_u m s (Suc n) else Some n)"

definition memset_u :: "memory \<Rightarrow> u64 \<Rightarrow> u32 \<Rightarrow> u32 \<Rightarrow> memory" where
  "memset_u m dst c n = memset_loop m dst (ucast c) 0 n"

text \<open>\<open>strchr\<close>: the address of the first \<open>c\<close>, or 0.\<close>

partial_function (option) strchr :: "memory \<Rightarrow> u64 \<Rightarrow> u8 \<Rightarrow> u64 option" where
  "strchr m s c = (if m s \<noteq> 0 then if m s = c then Some s else strchr m (s + 1) c else Some 0)"

text \<open>
  \<open>gets\<close>: the results of \<open>read(0, &c, 1)\<close> are the characters of the input, and no character where the
  list has ended.
\<close>

fun gets_loop :: "memory \<Rightarrow> u64 \<Rightarrow> int \<Rightarrow> int \<Rightarrow> u8 list \<Rightarrow> memory \<times> int \<times> u8 list" where
  "gets_loop m buf mx i [] = (m, i, [])"
| "gets_loop m buf mx i (c # inp) =
     (if i + 1 < mx then
        let m = m(buf + of_int i := c) in
        if c = 10 \<or> c = 13 then (m, i + 1, inp) else gets_loop m buf mx (i + 1) inp
      else (m, i, c # inp))"

definition gets :: "memory \<Rightarrow> u64 \<Rightarrow> int \<Rightarrow> u8 list \<Rightarrow> memory \<times> u8 list" where
  "gets m buf mx inp = (case gets_loop m buf mx 0 inp of (m, i, inp) \<Rightarrow> (m(buf + of_int i := 0), inp))"

partial_function (option) atoi_loop :: "memory \<Rightarrow> u64 \<Rightarrow> u32 \<Rightarrow> u32 option" where
  "atoi_loop m s n =
     (if 0x30 \<le> m s \<and> m s \<le> 0x39 then atoi_loop m (s + 1) (n * 10 + ucast (m s) - 0x30) else Some n)"

definition atoi :: "memory \<Rightarrow> u64 \<Rightarrow> u32 option" where
  "atoi m s = atoi_loop m s 0"

text \<open>\<open>memmove\<close>: forwards when the source is above the destination, and backwards otherwise.\<close>

definition memmove_u :: "memory \<Rightarrow> u64 \<Rightarrow> u64 \<Rightarrow> int \<Rightarrow> memory" where
  "memmove_u m dst src n =
     (if src > dst then memmove_fwd m dst src (nat n)
      else memmove_bwd m (dst + of_int n) (src + of_int n) (nat n))"

definition memcmp_u :: "memory \<Rightarrow> u64 \<Rightarrow> u64 \<Rightarrow> u32 \<Rightarrow> int" where
  "memcmp_u m s1 s2 n = memcmp_loop m s1 s2 (unat n)"

section \<open>Formatted output\<close>

definition digits_u :: "u8 list" where
  "digits_u = ascii ''0123456789ABCDEF''"

text \<open>
  The conversion loop, lowest digit first, with \<open>room\<close> characters left of \<open>char buf[16]\<close>; \<open>None\<close> would
  be a write past the end.
\<close>

fun digits_loop :: "nat \<Rightarrow> u32 \<Rightarrow> u32 \<Rightarrow> u8 list option" where
  "digits_loop 0 base x = None"
| "digits_loop (Suc room) base x =
     (if x div base \<noteq> 0
      then map_option (Cons (digits_u ! unat (x mod base))) (digits_loop room base (x div base))
      else Some [digits_u ! unat (x mod base)])"

text \<open>What \<open>printint\<close> writes, in the order of the calls of \<open>putc\<close>.\<close>

definition printint_u :: "u32 \<Rightarrow> u32 \<Rightarrow> bool \<Rightarrow> u8 list option" where
  "printint_u xx base sg =
     (let neg = (sg \<and> sint xx < 0); x = (if neg then - xx else xx) in
      case digits_loop 16 base x of
        None \<Rightarrow> None
      | Some ds \<Rightarrow>
          if neg then if length ds < 16 then Some (0x2d # rev ds) else None else Some (rev ds))"

fun printptr_u :: "nat \<Rightarrow> u64 \<Rightarrow> u8 list" where
  "printptr_u 0 x = []"
| "printptr_u (Suc k) x = digits_u ! unat (drop_bit 60 x) # printptr_u k (push_bit 4 x)"

datatype uarg = UInt u32 | ULong u64 | UStr "u8 list option"

text \<open>
  \<open>vprintf\<close>: the characters written; \<open>pct\<close> says that \<open>state\<close> is \<open>'%'\<close>. \<open>None\<close> stands for an argument that
  is missing or of another type.
\<close>

fun vprintf :: "bool \<Rightarrow> u8 list \<Rightarrow> uarg list \<Rightarrow> u8 list option" where
  "vprintf pct [] ap = Some []"
| "vprintf pct (c # fmt) ap =
     (if \<not> pct then
        if c = 0x25 then vprintf True fmt ap else map_option (Cons c) (vprintf False fmt ap)
      else if c = 0x64 then
        (case ap of UInt x # ap \<Rightarrow>
           (case printint_u x 10 True of None \<Rightarrow> None | Some bs \<Rightarrow> map_option (append bs) (vprintf False fmt ap))
         | _ \<Rightarrow> None)
      else if c = 0x6c then
        (case ap of ULong x # ap \<Rightarrow>
           (case printint_u (ucast x) 10 False of None \<Rightarrow> None
            | Some bs \<Rightarrow> map_option (append bs) (vprintf False fmt ap))
         | _ \<Rightarrow> None)
      else if c = 0x78 then
        (case ap of UInt x # ap \<Rightarrow>
           (case printint_u x 16 False of None \<Rightarrow> None | Some bs \<Rightarrow> map_option (append bs) (vprintf False fmt ap))
         | _ \<Rightarrow> None)
      else if c = 0x70 then
        (case ap of ULong x # ap \<Rightarrow> map_option (append ([0x30, 0x78] @ printptr_u 16 x)) (vprintf False fmt ap)
         | _ \<Rightarrow> None)
      else if c = 0x73 then
        (case ap of UStr str # ap \<Rightarrow>
           map_option (append (case str of None \<Rightarrow> ascii ''(null)'' | Some cs \<Rightarrow> cs)) (vprintf False fmt ap)
         | _ \<Rightarrow> None)
      else if c = 0x63 then
        (case ap of UInt x # ap \<Rightarrow> map_option (Cons (ucast x)) (vprintf False fmt ap) | _ \<Rightarrow> None)
      else if c = 0x25 then map_option (Cons c) (vprintf False fmt ap)
      else map_option (append [0x25, c]) (vprintf False fmt ap))"

section \<open>Processes as trees of system calls\<close>

text \<open>
  \<open>Halt n\<close> is \<open>exit(n)\<close>. The other calls go on with their result; \<open>pipe\<close> returns two descriptors besides,
  \<open>read\<close> the bytes it has read.
\<close>

datatype ucall =
    UExec "u8 list list" | UClose int | UOpen "u8 list" u32 | UFork | UWait | UDup int | UChdir "u8 list"
  | UWrite int "u8 list" | UGetpid | UKill int | ULink "u8 list" "u8 list" | UMkdir "u8 list" | UUnlink "u8 list" | USleep int
  | UTrace int

datatype uprog = Halt int | Call ucall "int \<Rightarrow> uprog" | CallPipe "int \<Rightarrow> int \<Rightarrow> int \<Rightarrow> uprog"
  | CallRead int nat "int \<Rightarrow> u8 list \<Rightarrow> uprog"

text \<open>\<open>putc\<close> for every character, and \<open>fprintf(fd, fmt, ...)\<close>.\<close>

definition uputs :: "int \<Rightarrow> u8 list \<Rightarrow> uprog \<Rightarrow> uprog" where
  "uputs fd cs k = foldr (\<lambda>c k. Call (UWrite fd [c]) (\<lambda>_. k)) cs k"

definition fprintf :: "int \<Rightarrow> u8 list \<Rightarrow> uarg list \<Rightarrow> uprog \<Rightarrow> uprog" where
  "fprintf fd fmt ap k = uputs fd (case vprintf False fmt ap of None \<Rightarrow> [] | Some cs \<Rightarrow> cs) k"

section \<open>What the string routines return\<close>

text \<open>The C string at an address.\<close>

fun string_at :: "memory \<Rightarrow> u64 \<Rightarrow> u8 list \<Rightarrow> bool" where
  "string_at m a [] \<longleftrightarrow> m a = 0"
| "string_at m a (b # bs) \<longleftrightarrow> b \<noteq> 0 \<and> m a = b \<and> string_at m (a + 1) bs"

lemma strlen_u_law: "string_at m (s + of_nat n) bs \<Longrightarrow> strlen_u m s n = Some (n + length bs)"
proof (induction bs arbitrary: n)
  case Nil
  then show ?case by (subst strlen_u.simps) simp
next
  case (Cons b bs)
  then have "strlen_u m s (Suc n) = Some (Suc n + length bs)" by (intro Cons.IH) (simp add: algebra_simps)
  then show ?case using Cons.prems by (subst strlen_u.simps) simp
qed

lemma strcmp_law:
  "string_at m p bs \<Longrightarrow> string_at m q cs \<Longrightarrow> \<exists>r. strcmp m p q = Some r \<and> (r = 0 \<longleftrightarrow> bs = cs)"
proof (induction bs arbitrary: p q cs)
  case Nil
  then show ?case by (cases cs; subst strcmp.simps) (auto simp: uint_0_iff)
next
  case (Cons b bs)
  then show ?case
    by (cases cs; subst strcmp.simps) (auto simp: uint_0_iff uint_eq_uint_iff)
qed

lemma strchr_law:
  assumes "string_at m s bs" and "c \<noteq> 0"
  shows "strchr m s c = Some (if c \<in> set bs then s + of_nat (length (takeWhile (\<lambda>b. b \<noteq> c) bs)) else 0)"
  using assms(1)
proof (induction bs arbitrary: s)
  case Nil
  then show ?case by (subst strchr.simps) simp
next
  case (Cons b bs)
  then show ?case by (subst strchr.simps) (auto simp: algebra_simps)
qed

lemma string_at_upd: "string_at m a bs \<Longrightarrow> \<forall>i \<le> length bs. a + of_nat i \<noteq> x \<Longrightarrow> string_at (m(x := v)) a bs"
proof (induction bs arbitrary: a)
  case (Cons b bs)
  have "a \<noteq> x" using Cons.prems(2) [rule_format, of 0] by simp
  moreover have "\<forall>i \<le> length bs. a + 1 + of_nat i \<noteq> x"
    using Cons.prems(2) [rule_format, of "Suc _"] by (auto simp: algebra_simps)
  ultimately show ?case using Cons by auto
qed auto

lemma strcpy_law:
  assumes "string_at m t bs" and "apart s (Suc (length bs)) t (Suc (length bs))" and "length bs < 2 ^ 63"
  shows "strcpy m s t = Some (mwrite m s (bs @ [0]))"
  using assms
proof (induction bs arbitrary: m s t)
  case Nil
  then show ?case by (subst strcpy.simps) (simp add: mwrite_single)
next
  case (Cons b bs)
  have ne: "s + of_nat 0 \<noteq> t + of_nat (Suc i)" if "i \<le> length bs" for i
    using Cons.prems(2) that unfolding apart_def by (metis le_imp_less_Suc length_Cons zero_less_Suc Suc_less_eq)
  have "string_at (m(s := b)) (t + 1) bs"
    using Cons.prems(1) ne by (intro string_at_upd) (auto simp: algebra_simps)
  moreover have "apart (s + 1) (Suc (length bs)) (t + 1) (Suc (length bs))" "length bs < 2 ^ 63"
    using Cons.prems(2,3) apart_Suc [of s "Suc (length bs)" t "Suc (length bs)"] by simp_all
  ultimately have "strcpy (m(s := b)) (s + 1) (t + 1) = Some (mwrite (m(s := b)) (s + 1) (bs @ [0]))"
    by (rule Cons.IH)
  then show ?case using Cons.prems by (subst strcpy.simps) (simp add: mwrite_Cons)
qed

lemma memmove_u_law:
  assumes "0 \<le> n" and "unat src + nat n \<le> 2 ^ 64" and "unat dst + nat n \<le> 2 ^ 64"
  shows "memmove_u m dst src n = mwrite m dst (mbytes m src (nat n))"
proof (cases "src > dst")
  case True
  then show ?thesis using assms by (simp add: memmove_u_def memmove_fwd_eq word_less_nat_alt)
next
  case False
  have n: "of_int n = (of_nat (nat n) :: u64)" using assms(1) by simp
  show ?thesis
  proof (cases "src = dst")
    case True
    have "memmove_bwd m a a k = m" for a k by (induction k arbitrary: a) simp_all
    moreover have "mwrite m dst (mbytes m dst (nat n)) = m" by (rule ext) (simp add: mwrite_def mbytes_def)
    ultimately show ?thesis by (simp add: memmove_u_def True)
  next
    case ne: False
    then have "unat src < unat dst" using False by (simp add: word_less_nat_alt [symmetric])
    then show ?thesis using False memmove_bwd_eq [of src dst "nat n" m] assms(3) by (simp add: memmove_u_def n)
  qed
qed

section \<open>Numbers\<close>

lemma atoi_loop_law:
  assumes "string_at m s ds" and "\<forall>d\<in>set ds. 0x30 \<le> d \<and> d \<le> 0x39" and "n = of_nat k"
  shows "atoi_loop m s n = Some (of_nat (foldl (\<lambda>v c. 10 * v + digit_value c) k ds))"
  using assms
proof (induction ds arbitrary: s n k)
  case Nil
  then show ?case by (subst atoi_loop.simps) simp
next
  case (Cons d ds)
  have d: "unat d < 58" "48 \<le> unat d" using Cons.prems(2) by (simp_all add: word_le_nat_alt)
  have "(ucast d :: u32) - 0x30 = of_nat (digit_value d)"
    using d by (simp add: digit_value_def of_nat_diff)
  then have "n * 10 + ucast d - 0x30 = (of_nat (10 * k + digit_value d) :: u32)"
    using Cons.prems(3) by (simp add: algebra_simps)
  then have "atoi_loop m (s + 1) (n * 10 + ucast d - 0x30) =
      Some (of_nat (foldl (\<lambda>v c. 10 * v + digit_value c) (10 * k + digit_value d) ds))"
    using Cons.prems by (intro Cons.IH) auto
  then show ?case using Cons.prems by (subst atoi_loop.simps) simp
qed

lemma all_digits_u: "\<forall>d\<in>set [0..<10]. digit_value (digits_u ! d) = d \<and> 0x30 \<le> digits_u ! d \<and> digits_u ! d \<le> 0x39"
  unfolding digits_u_def ascii_def by (simp add: upt_rec digit_value_def)

lemma digits_loop_law:
  assumes "unat x < 10 ^ k" "k \<le> room" "0 < k"
  shows "\<exists>ds. digits_loop room 10 x = Some ds \<and> number_value 10 (rev ds) = unat x \<and> length ds \<le> k \<and>
    (\<forall>d\<in>set ds. 0x30 \<le> d \<and> d \<le> 0x39)"
  using assms
proof (induction room arbitrary: x k)
  case (Suc room)
  have q: "unat (x div 10) = unat x div 10" "unat (x mod 10) = unat x mod 10"
    by (simp_all add: unat_div_distrib unat_mod_distrib)
  note d = all_digits_u [rule_format, of "unat x mod 10"]
  show ?case
  proof (cases "x div 10 = 0")
    case True
    then have "unat x div 10 = 0" using q by (metis unat_0)
    then have "unat x mod 10 = unat x" by (simp add: div_eq_0_iff)
    then show ?thesis using True d q Suc.prems by (auto simp: number_value_def)
  next
    case False
    then have "unat x div 10 \<noteq> 0" using q by (metis unat_eq_zero)
    then have "k \<noteq> 1" using Suc.prems by (auto simp: div_eq_0_iff)
    then obtain k' where k: "k = Suc k'" "0 < k'" using Suc.prems by (cases k) auto
    have "unat (x div 10) < 10 ^ k'" using Suc.prems k q by (simp add: less_mult_imp_div_less mult.commute)
    then obtain ds where "digits_loop room 10 (x div 10) = Some ds" "number_value 10 (rev ds) = unat (x div 10)"
        "length ds \<le> k'" "\<forall>d\<in>set ds. 0x30 \<le> d \<and> d \<le> 0x39"
      using Suc.IH [of "x div 10" k'] Suc.prems k by auto
    then show ?thesis using False d q k by (auto simp: number_value_snoc)
  qed
qed simp

text \<open>
  C39: \<open>atoi\<close> reads what \<open>printf\<close> prints. For every non-negative \<open>int\<close>, \<open>printf("%d", x)\<close> writes a string of
  digits that fits the 16 characters of its buffer, and \<open>atoi\<close> of that string is \<open>x\<close> again.
\<close>

theorem printf_atoi_roundtrip:
  assumes "0 \<le> sint x"
  shows "\<exists>ds. vprintf False (ascii ''%d'') [UInt x] = Some ds \<and> length ds \<le> 10 \<and>
    (\<forall>m s. string_at m s ds \<longrightarrow> atoi m s = Some x)"
proof -
  have "unat x < 10 ^ 10" using unsigned_less [of x, where 'a = nat] by simp
  then obtain ds where ds: "digits_loop 16 10 x = Some ds" "number_value 10 (rev ds) = unat x" "length ds \<le> 10"
      "\<forall>d\<in>set ds. 0x30 \<le> d \<and> d \<le> 0x39"
    using digits_loop_law [of x 10 16] by auto
  have "vprintf False (ascii ''%d'') [UInt x] = Some (rev ds)"
    using assms ds(1) by (simp add: ascii_def printint_u_def Let_def)
  moreover have "atoi m s = Some x" if "string_at m s (rev ds)" for m s
    using atoi_loop_law [OF that, of 0 0] ds(2,4) by (simp add: atoi_def number_value_def)
  ultimately show ?thesis using ds(3) by (intro exI [of _ "rev ds"]) simp
qed

theorem printf_atoi_roundtrip_witness:
  "\<exists>ds. vprintf False (ascii ''%d'') [UInt 1203] = Some ds \<and> (\<forall>m s. string_at m s ds \<longrightarrow> atoi m s = Some 1203)"
  using printf_atoi_roundtrip [of 1203] by auto

end
