(* ===== verification/Sh.thy ===== *)
theory Sh
  imports Sysfile Ulib
begin

text \<open>
  The shell, \<open>user/sh.c\<close>. The line to parse is the list of its characters up to the terminator, \<open>*s\<close> at
  its end is 0, and the pointers of the parser are indices into it; a counted string is a pair of them. The
  loops have termination proofs. The four mutually recursive functions of the parser count their calls
  down from \<open>4 * strlen(s) + 4\<close>, which is shown to be enough for every line. \<open>malloc\<close> is taken to succeed:
  the code does not check its result.
\<close>

section \<open>Tokens\<close>

definition char_at :: "u8 list \<Rightarrow> nat \<Rightarrow> u8" where
  "char_at buf i = (if i < length buf then buf ! i else 0)"

definition whitespace :: "u8 list" where
  "whitespace = [0x20, 0x09, 0x0d, 0x0a, 0x0b]"

definition symbols :: "u8 list" where
  "symbols = [0x3c, 0x7c, 0x3e, 0x26, 0x3b, 0x28, 0x29]"

function skip_space :: "u8 list \<Rightarrow> nat \<Rightarrow> nat" where
  "skip_space buf s = (if s < length buf \<and> char_at buf s \<in> set whitespace then skip_space buf (Suc s) else s)"
  by pat_completeness auto
termination
  by (relation "measure (\<lambda>(buf, s). length buf - s)") auto

function skip_word :: "u8 list \<Rightarrow> nat \<Rightarrow> nat" where
  "skip_word buf s =
     (if s < length buf \<and> char_at buf s \<notin> set whitespace \<and> char_at buf s \<notin> set symbols
      then skip_word buf (Suc s) else s)"
  by pat_completeness auto
termination
  by (relation "measure (\<lambda>(buf, s). length buf - s)") auto

declare skip_space.simps [simp del] skip_word.simps [simp del]

text \<open>\<open>gettoken\<close> returns the kind of the token, its two ends, and the position after the space that follows it.\<close>

definition gettoken :: "u8 list \<Rightarrow> nat \<Rightarrow> u8 \<times> nat \<times> nat \<times> nat" where
  "gettoken buf s =
     (let s = skip_space buf s;
          q = s;
          c = char_at buf s;
          (ret, s) =
            (if c = 0 then (0, s)
             else if c \<in> {0x7c, 0x28, 0x29, 0x3b, 0x26, 0x3c} then (c, Suc s)
             else if c = 0x3e then
               if char_at buf (Suc s) = 0x3e then (0x2b, Suc (Suc s)) else (c, Suc s)
             else (0x61, skip_word buf s))
      in (ret, q, s, skip_space buf s))"

definition peek :: "u8 list \<Rightarrow> nat \<Rightarrow> u8 list \<Rightarrow> nat \<times> bool" where
  "peek buf s toks =
     (let s = skip_space buf s in (s, char_at buf s \<noteq> 0 \<and> char_at buf s \<in> set toks))"

section \<open>Commands\<close>

text \<open>The five structures; a string of a command is a \<open>'w\<close>.\<close>

datatype 'w cmd =
    EXEC "'w list"
  | REDIR "'w cmd" 'w u32 int
  | PIPE "'w cmd" "'w cmd"
  | LIST "'w cmd" "'w cmd"
  | BACK "'w cmd"

type_synonym tok = "nat \<times> nat"

text \<open>The functions that make a command.\<close>

abbreviation execcmd :: "tok cmd" where "execcmd \<equiv> EXEC []"
abbreviation redircmd :: "tok cmd \<Rightarrow> nat \<Rightarrow> nat \<Rightarrow> u32 \<Rightarrow> int \<Rightarrow> tok cmd" where
  "redircmd subcmd file efile mode fd \<equiv> REDIR subcmd (file, efile) mode fd"
abbreviation pipecmd :: "tok cmd \<Rightarrow> tok cmd \<Rightarrow> tok cmd" where "pipecmd left right \<equiv> PIPE left right"
abbreviation listcmd :: "tok cmd \<Rightarrow> tok cmd \<Rightarrow> tok cmd" where "listcmd left right \<equiv> LIST left right"
abbreviation backcmd :: "tok cmd \<Rightarrow> tok cmd" where "backcmd subcmd \<equiv> BACK subcmd"

definition MAXARGS :: nat where "MAXARGS = 10"

text \<open>
  The outcome of a function of the parser: a value and the position after it, a call of \<open>panic\<close> with a
  message, or the call of \<open>panic\<close> after the message about leftover characters.
\<close>

datatype 'a parse = Parsed 'a nat | Syntax string | Leftovers "u8 list" | OutOfCalls

fun pbind :: "'a parse \<Rightarrow> ('a \<Rightarrow> nat \<Rightarrow> 'b parse) \<Rightarrow> 'b parse" where
  "pbind (Parsed x s) k = k x s"
| "pbind (Syntax e) k = Syntax e"
| "pbind (Leftovers cs) k = Leftovers cs"
| "pbind OutOfCalls k = OutOfCalls"

section \<open>The parser\<close>

lemma skip_space_bounds: "s \<le> skip_space buf s" "s \<le> length buf \<Longrightarrow> skip_space buf s \<le> length buf"
proof -
  show "s \<le> skip_space buf s" by (induction buf s rule: skip_space.induct) (subst skip_space.simps, auto)
  show "skip_space buf s \<le> length buf" if "s \<le> length buf"
    using that by (induction buf s rule: skip_space.induct) (subst skip_space.simps, auto)
qed

lemma skip_word_bounds: "s \<le> skip_word buf s" "s \<le> length buf \<Longrightarrow> skip_word buf s \<le> length buf"
proof -
  show "s \<le> skip_word buf s" by (induction buf s rule: skip_word.induct) (subst skip_word.simps, auto)
  show "skip_word buf s \<le> length buf" if "s \<le> length buf"
    using that by (induction buf s rule: skip_word.induct) (subst skip_word.simps, auto)
qed

lemma not_special [simp]: "0 \<notin> set whitespace" "0 \<notin> set symbols"
  by (simp_all add: whitespace_def symbols_def)

lemma skip_space_stop: "char_at buf (skip_space buf s) \<notin> set whitespace"
proof (induction buf s rule: skip_space.induct)
  case (1 buf s)
  then show ?case by (subst skip_space.simps) (auto simp: char_at_def)
qed

lemma skip_word_chars:
  "s \<le> i \<Longrightarrow> i < skip_word buf s \<Longrightarrow> char_at buf i \<notin> set whitespace \<and> char_at buf i \<notin> set symbols \<and> i < length buf"
proof (induction buf s rule: skip_word.induct)
  case (1 buf s)
  then show ?case by (subst (asm) (2) skip_word.simps) (cases "s = i", auto split: if_splits)
qed

lemma skip_word_stop:
  "skip_word buf s < length buf \<Longrightarrow>
   char_at buf (skip_word buf s) \<in> set whitespace \<or> char_at buf (skip_word buf s) \<in> set symbols"
proof (induction buf s rule: skip_word.induct)
  case (1 buf s)
  then show ?case by (subst (asm) (2) skip_word.simps, subst (1 2) skip_word.simps) (auto split: if_splits)
qed

text \<open>A counted string: it is not empty, has no special character, and ends where one follows or at the end.\<close>

definition word_tok :: "u8 list \<Rightarrow> tok \<Rightarrow> bool" where
  "word_tok buf = (\<lambda>(q, e). q < e \<and> e \<le> length buf \<and>
     (\<forall>i. q \<le> i \<and> i < e \<longrightarrow> buf ! i \<notin> set whitespace \<and> buf ! i \<notin> set symbols) \<and>
     (e < length buf \<longrightarrow> buf ! e \<in> set whitespace \<or> buf ! e \<in> set symbols))"

lemma char_in: "i < length buf \<Longrightarrow> char_at buf i = buf ! i"
  by (simp add: char_at_def)

lemma char_nonzero: "char_at buf i \<noteq> 0 \<Longrightarrow> i < length buf"
  by (simp add: char_at_def split: if_splits)

lemma gettoken_word:
  assumes "gettoken buf s = (0x61, q, e, t)"
  shows "word_tok buf (q, e)"
proof -
  let ?s = "skip_space buf s"
  have q: "q = ?s" and e: "e = skip_word buf ?s" and c: "char_at buf ?s \<notin> set symbols" "char_at buf ?s \<noteq> 0"
    using assms by (auto simp: gettoken_def Let_def symbols_def split: if_splits)
  have s: "?s < length buf" using c(2) by (rule char_nonzero)
  have "?s < skip_word buf ?s"
    using s c(1) skip_space_stop [of buf s] skip_word_bounds(1) [of "Suc ?s" buf] by (subst skip_word.simps) simp
  moreover have "skip_word buf ?s \<le> length buf" using s skip_word_bounds(2) by simp
  moreover note skip_word_chars [of ?s _ buf] skip_word_stop [of buf ?s]
  ultimately show ?thesis unfolding word_tok_def q e by (auto simp: char_in)
qed

lemma gettoken_forward:
  assumes "gettoken buf s = (tok, q, e, t)" and "s \<le> length buf"
  shows "s \<le> q" "q \<le> e" "e \<le> t" "t \<le> length buf" "tok \<noteq> 0 \<Longrightarrow> s < t"
proof -
  let ?s = "skip_space buf s"
  have s: "s \<le> ?s" "?s \<le> length buf" using assms(2) skip_space_bounds by auto
  have q: "q = ?s" and t: "t = skip_space buf e" using assms(1) by (auto simp: gettoken_def Let_def split: if_splits)
  have "?s \<le> e \<and> e \<le> length buf \<and> (tok \<noteq> 0 \<longrightarrow> ?s < e)"
  proof (cases "tok = 0x61")
    case True
    then show ?thesis using gettoken_word [of buf s q e t] assms(1) q by (simp add: word_tok_def)
  next
    case False
    then show ?thesis
      using assms(1) s char_nonzero [of buf ?s] char_nonzero [of buf "Suc ?s"]
      by (auto simp: gettoken_def Let_def split: if_splits)
  qed
  then show "s \<le> q" "q \<le> e" "e \<le> t" "t \<le> length buf" "tok \<noteq> 0 \<Longrightarrow> s < t"
    using s skip_space_bounds [of e buf] by (auto simp: q t)
qed

lemma skip_space_idem [simp]: "skip_space buf (skip_space buf s) = skip_space buf s"
  using skip_space_stop [of buf s] by (subst skip_space.simps) simp

lemma peek_forward:
  assumes "peek buf s toks = (t, b)"
  shows "s \<le> t" "s \<le> length buf \<Longrightarrow> t \<le> length buf" "b \<Longrightarrow> t < length buf" "b \<Longrightarrow> fst (gettoken buf t) \<noteq> 0"
  using assms skip_space_bounds [of s buf] char_nonzero [of buf t]
  by (auto simp: peek_def gettoken_def Let_def)

lemma one_token:
  assumes "peek buf s toks = (s1, True)" "gettoken buf s1 = (tok, q, e, s2)"
  shows "s < length buf" "s < s2" "s2 \<le> length buf"
  using peek_forward [OF assms(1)] gettoken_forward [OF assms(2)] assms(2) by auto

lemma two_tokens:
  assumes "peek buf s toks = (s1, True)" "gettoken buf s1 = (tok, q, e, s2)" "gettoken buf s2 = (tok', q', e', s3)"
  shows "s < length buf" "s < s3" "s3 \<le> length buf"
  using one_token [OF assms(1,2)] gettoken_forward [OF assms(3)] by auto

lemma one_token_less:
  "(s1, True) = peek buf s toks \<Longrightarrow> (tok, q, e, s2) = gettoken buf s1 \<Longrightarrow> length buf - s2 < length buf - s"
  using one_token [OF sym sym] by (meson diff_less_mono2)

lemma two_tokens_less:
  "(s1, True) = peek buf s toks \<Longrightarrow> (tok, q, e, s2) = gettoken buf s1 \<Longrightarrow> (tok', q', e', s3) = gettoken buf s2 \<Longrightarrow>
   length buf - s3 < length buf - s"
  using two_tokens [OF sym sym sym] by (meson diff_less_mono2)

text \<open>
  The parser, a function after the other as in the source. A redirection wraps the command, so the
  command that \<open>parseexec\<close> still adds arguments to is the one at the bottom of \<open>ret\<close>.
\<close>

function parseredirs :: "u8 list \<Rightarrow> tok cmd \<Rightarrow> nat \<Rightarrow> tok cmd parse" where
  "parseredirs buf cmd s =
     (case peek buf s [0x3c, 0x3e] of (s, b) \<Rightarrow>
        if b then
          case gettoken buf s of (tok, _, _, s) \<Rightarrow>
          case gettoken buf s of (tok2, q, eq, s) \<Rightarrow>
            if tok2 \<noteq> 0x61 then Syntax ''missing file for redirection''
            else parseredirs buf
              (if tok = 0x3c then redircmd cmd q eq O_RDONLY 0
               else if tok = 0x3e then redircmd cmd q eq (O_WRONLY OR O_CREATE OR O_TRUNC) 1
               else if tok = 0x2b then redircmd cmd q eq (O_WRONLY OR O_CREATE) 1
               else cmd) s
        else Parsed cmd s)"
  by pat_completeness auto
termination
  by (relation "measure (\<lambda>(buf, cmd, s). length buf - s)") (auto intro: two_tokens_less)

declare parseredirs.simps [simp del]

fun add_arg :: "tok \<Rightarrow> tok cmd \<Rightarrow> tok cmd" where
  "add_arg a (EXEC as) = EXEC (as @ [a])"
| "add_arg a (REDIR c f m fd) = REDIR (add_arg a c) f m fd"
| "add_arg a c = c"

function parseargs :: "u8 list \<Rightarrow> tok cmd \<Rightarrow> nat \<Rightarrow> nat \<Rightarrow> tok cmd parse" where
  "parseargs buf ret argc s =
     (case peek buf s [0x7c, 0x29, 0x26, 0x3b] of (s, b) \<Rightarrow>
        if b then Parsed ret s
        else case gettoken buf s of (tok, q, eq, s) \<Rightarrow>
          if tok = 0 then Parsed ret s
          else if tok \<noteq> 0x61 then Syntax ''syntax''
          else
            let ret = add_arg (q, eq) ret; argc = argc + 1 in
            if argc \<ge> MAXARGS then Syntax ''too many args''
            else pbind (parseredirs buf ret s) (\<lambda>ret s. parseargs buf ret argc s))"
  by pat_completeness auto
termination
  by (relation "measure (\<lambda>(buf, ret, argc, s). MAXARGS - argc)") auto

declare parseargs.simps [simp del]

text \<open>The loop of \<open>parseline\<close> over the \<open>&\<close> that follow a pipeline.\<close>

function parseback :: "u8 list \<Rightarrow> tok cmd \<Rightarrow> nat \<Rightarrow> tok cmd \<times> nat" where
  "parseback buf cmd s =
     (case peek buf s [0x26] of (s, b) \<Rightarrow>
        if b then case gettoken buf s of (_, _, _, s) \<Rightarrow> parseback buf (backcmd cmd) s
        else (cmd, s))"
  by pat_completeness auto
termination
  by (relation "measure (\<lambda>(buf, cmd, s). length buf - s)") (auto intro: one_token_less)

declare parseback.simps [simp del]

fun parseline :: "nat \<Rightarrow> u8 list \<Rightarrow> nat \<Rightarrow> tok cmd parse"
  and parsepipe :: "nat \<Rightarrow> u8 list \<Rightarrow> nat \<Rightarrow> tok cmd parse"
  and parseexec :: "nat \<Rightarrow> u8 list \<Rightarrow> nat \<Rightarrow> tok cmd parse"
  and parseblock :: "nat \<Rightarrow> u8 list \<Rightarrow> nat \<Rightarrow> tok cmd parse" where
  "parseline 0 buf s = OutOfCalls"
| "parseline (Suc n) buf s =
     pbind (parsepipe n buf s) (\<lambda>cmd s.
       case parseback buf cmd s of (cmd, s) \<Rightarrow>
       case peek buf s [0x3b] of (s, b) \<Rightarrow>
         if b then case gettoken buf s of (_, _, _, s) \<Rightarrow>
           pbind (parseline n buf s) (\<lambda>rest s. Parsed (listcmd cmd rest) s)
         else Parsed cmd s)"
| "parsepipe 0 buf s = OutOfCalls"
| "parsepipe (Suc n) buf s =
     pbind (parseexec n buf s) (\<lambda>cmd s.
       case peek buf s [0x7c] of (s, b) \<Rightarrow>
         if b then case gettoken buf s of (_, _, _, s) \<Rightarrow>
           pbind (parsepipe n buf s) (\<lambda>rest s. Parsed (pipecmd cmd rest) s)
         else Parsed cmd s)"
| "parseexec 0 buf s = OutOfCalls"
| "parseexec (Suc n) buf s =
     (case peek buf s [0x28] of (s, b) \<Rightarrow>
        if b then parseblock n buf s
        else pbind (parseredirs buf execcmd s) (\<lambda>ret s. parseargs buf ret 0 s))"
| "parseblock 0 buf s = OutOfCalls"
| "parseblock (Suc n) buf s =
     (case peek buf s [0x28] of (s, b) \<Rightarrow>
        if \<not> b then Syntax ''parseblock''
        else case gettoken buf s of (_, _, _, s) \<Rightarrow>
          pbind (parseline n buf s) (\<lambda>cmd s.
            case peek buf s [0x29] of (s, b) \<Rightarrow>
              if \<not> b then Syntax ''syntax - missing )''
              else case gettoken buf s of (_, _, _, s) \<Rightarrow> parseredirs buf cmd s))"

text \<open>\<open>nulterminate\<close> writes a terminator at the end of every string of the command.\<close>

fun nulterminate :: "tok cmd \<Rightarrow> u8 list \<Rightarrow> u8 list" where
  "nulterminate (EXEC as) buf = fold (\<lambda>(q, e) buf. buf[e := 0]) as buf"
| "nulterminate (REDIR c f m fd) buf = (nulterminate c buf)[snd f := 0]"
| "nulterminate (PIPE l r) buf = nulterminate r (nulterminate l buf)"
| "nulterminate (LIST l r) buf = nulterminate r (nulterminate l buf)"
| "nulterminate (BACK c) buf = nulterminate c buf"

text \<open>\<open>parsecmd\<close>: the command and the line as \<open>nulterminate\<close> leaves it.\<close>

definition parsecmd :: "u8 list \<Rightarrow> (tok cmd \<times> u8 list) parse" where
  "parsecmd buf =
     pbind (parseline (4 * length buf + 4) buf 0) (\<lambda>cmd s.
       case peek buf s [] of (s, b) \<Rightarrow>
         if s \<noteq> length buf then Leftovers (drop s buf)
         else Parsed (cmd, nulterminate cmd buf) s)"

section \<open>Running a command\<close>

text \<open>The C string at position \<open>q\<close> of the line.\<close>

definition line_str :: "u8 list \<Rightarrow> nat \<Rightarrow> u8 list" where
  "line_str buf q = takeWhile (\<lambda>c. c \<noteq> 0) (drop q buf)"

definition panic_sh :: "u8 list \<Rightarrow> uprog" where
  "panic_sh msg = fprintf 2 (ascii ''%s'' @ [10]) [UStr (Some msg)] (Halt 1)"

definition fork1 :: "(int \<Rightarrow> uprog) \<Rightarrow> uprog" where
  "fork1 k = Call UFork (\<lambda>pid. if pid = -1 then panic_sh (ascii ''fork'') else k pid)"

fun runcmd :: "u8 list \<Rightarrow> tok cmd \<Rightarrow> uprog" where
  "runcmd buf (EXEC as) =
     (case as of
        [] \<Rightarrow> Halt 1
      | a # _ \<Rightarrow> Call (UExec (map (\<lambda>a. line_str buf (fst a)) as)) (\<lambda>_.
          fprintf 2 (ascii ''exec %s failed'' @ [10]) [UStr (Some (line_str buf (fst a)))] (Halt 0)))"
| "runcmd buf (REDIR c f m fd) =
     Call (UClose fd) (\<lambda>_.
     Call (UOpen (line_str buf (fst f)) m) (\<lambda>r.
       if r < 0 then fprintf 2 (ascii ''open %s failed'' @ [10]) [UStr (Some (line_str buf (fst f)))] (Halt 1)
       else runcmd buf c))"
| "runcmd buf (LIST l r) =
     fork1 (\<lambda>pid. if pid = 0 then runcmd buf l else Call UWait (\<lambda>_. runcmd buf r))"
| "runcmd buf (PIPE l r) =
     CallPipe (\<lambda>ret p0 p1.
       if ret < 0 then panic_sh (ascii ''pipe'')
       else fork1 (\<lambda>pid.
         if pid = 0 then
           Call (UClose 1) (\<lambda>_. Call (UDup p1) (\<lambda>_. Call (UClose p0) (\<lambda>_. Call (UClose p1) (\<lambda>_. runcmd buf l))))
         else fork1 (\<lambda>pid.
           if pid = 0 then
             Call (UClose 0) (\<lambda>_. Call (UDup p0) (\<lambda>_. Call (UClose p0) (\<lambda>_. Call (UClose p1) (\<lambda>_. runcmd buf r))))
           else Call (UClose p0) (\<lambda>_. Call (UClose p1) (\<lambda>_. Call UWait (\<lambda>_. Call UWait (\<lambda>_. Halt 0)))))))"
| "runcmd buf (BACK c) = fork1 (\<lambda>pid. if pid = 0 then runcmd buf c else Halt 0)"

text \<open>The child that \<open>main\<close> forks for a line: \<open>runcmd(parsecmd(buf))\<close>.\<close>

definition run_line :: "u8 list \<Rightarrow> uprog" where
  "run_line buf =
     (case parsecmd buf of
        Parsed (cmd, buf) _ \<Rightarrow> runcmd buf cmd
      | Syntax e \<Rightarrow> panic_sh (ascii e)
      | Leftovers cs \<Rightarrow> fprintf 2 (ascii ''leftovers: %s'' @ [10]) [UStr (Some cs)] (panic_sh (ascii ''syntax''))
      | OutOfCalls \<Rightarrow> Halt 1)"

section \<open>The main loop\<close>

text \<open>
  \<open>getcmd\<close>: \<open>gets\<close> into the cleared buffer of 100 characters; the line is the string in it, and an empty
  one is taken for the end of the input.
\<close>

fun gets_line :: "nat \<Rightarrow> u8 list \<Rightarrow> u8 list \<times> u8 list" where
  "gets_line 0 inp = ([], inp)"
| "gets_line (Suc n) [] = ([], [])"
| "gets_line (Suc n) (c # inp) =
     (if c = 10 \<or> c = 13 then ([c], inp) else case gets_line n inp of (l, rest) \<Rightarrow> (c # l, rest))"

definition getcmd :: "u8 list \<Rightarrow> (u8 list \<times> u8 list) option" where
  "getcmd inp =
     (case gets_line 99 inp of (l, rest) \<Rightarrow>
        let s = takeWhile (\<lambda>c. c \<noteq> 0) l in if s = [] then None else Some (s, rest))"

text \<open>What \<open>main\<close> does with the lines: \<open>chdir\<close> itself, or a child that runs the line and is waited for.\<close>

datatype sh_action = Cd "u8 list" | Run "u8 list"

lemma gets_line_length: "gets_line n inp = (l, rest) \<Longrightarrow> length inp = length l + length rest"
  by (induction n inp arbitrary: l rest rule: gets_line.induct) (auto split: if_splits prod.splits)

lemma getcmd_length: "getcmd inp = Some (s, rest) \<Longrightarrow> length rest < length inp"
  using gets_line_length [of 99 inp] by (cases "fst (gets_line 99 inp)") (auto simp: getcmd_def Let_def split: prod.splits if_splits)

function sh_main :: "u8 list \<Rightarrow> sh_action list" where
  "sh_main inp =
     (case getcmd inp of
        None \<Rightarrow> []
      | Some (s, rest) \<Rightarrow>
          if take 3 s = ascii ''cd '' then Cd (drop 3 (butlast s)) # sh_main rest
          else Run s # sh_main rest)"
  by pat_completeness auto
termination
  by (relation "measure length") (auto dest: getcmd_length)

declare sh_main.simps [simp del]

text \<open>The first loop of \<open>main\<close>, over the results of \<open>open("console", O_RDWR)\<close>: the descriptor it closes.\<close>

fun open_console :: "int list \<Rightarrow> int option" where
  "open_console [] = None"
| "open_console (fd # rs) = (if fd \<ge> 0 then if fd \<ge> 3 then Some fd else open_console rs else None)"

end
