(* ===== verification/Shlaws.thy ===== *)
theory Shlaws
  imports Sh
begin

text \<open>
  The shell's parser always ends, builds well-formed commands, and reads back every command that is
  printed in its syntax; running a command starts the programs it names with their standard input and
  output connected as the syntax says.
\<close>

section \<open>The parser ends with a well-formed command\<close>

text \<open>
  A redirection is what its operator says: before the name of the file, with only white space between, the
  line has \<open><\<close>, \<open>>\<close> or \<open>>>\<close> (and no further \<open>>\<close> before that), which give the mode and the descriptor.
\<close>

definition redir_sign :: "u8 list \<Rightarrow> nat \<Rightarrow> u32 \<Rightarrow> int \<Rightarrow> bool" where
  "redir_sign buf q m fd \<longleftrightarrow> (\<exists>p op. take (length op) (drop p buf) = op \<and> p + length op \<le> q \<and>
     (0 < p \<longrightarrow> buf ! (p - 1) \<noteq> 0x3e) \<and> (\<forall>i. p + length op \<le> i \<and> i < q \<longrightarrow> buf ! i \<in> set whitespace) \<and>
     (op = ascii ''<'' \<and> m = O_RDONLY \<and> fd = 0 \<or>
      op = ascii ''>'' \<and> m = O_WRONLY OR O_CREATE OR O_TRUNC \<and> fd = 1 \<or>
      op = ascii ''>>'' \<and> m = O_WRONLY OR O_CREATE \<and> fd = 1))"

fun wf_cmd :: "u8 list \<Rightarrow> tok cmd \<Rightarrow> bool" where
  "wf_cmd buf (EXEC as) \<longleftrightarrow> length as < MAXARGS \<and> (\<forall>a\<in>set as. word_tok buf a)"
| "wf_cmd buf (REDIR c f m fd) \<longleftrightarrow> wf_cmd buf c \<and> word_tok buf f \<and>
     redir_sign buf (fst f) m fd"
| "wf_cmd buf (PIPE l r) \<longleftrightarrow> wf_cmd buf l \<and> wf_cmd buf r"
| "wf_cmd buf (LIST l r) \<longleftrightarrow> wf_cmd buf l \<and> wf_cmd buf r"
| "wf_cmd buf (BACK c) \<longleftrightarrow> wf_cmd buf c"

text \<open>
  A position of the parser between two of its functions: no \<open>>\<close> was read just before it, since that is
  followed by the name of a file.
\<close>

definition here :: "u8 list \<Rightarrow> nat \<Rightarrow> bool" where
  "here buf s \<longleftrightarrow> s \<le> length buf \<and> (0 < s \<longrightarrow> buf ! (s - 1) \<noteq> 0x3e)"

lemma here_bound [dest]: "here buf s \<Longrightarrow> s \<le> length buf"
  by (simp add: here_def)

lemma skip_space_white: "s \<le> i \<Longrightarrow> i < skip_space buf s \<Longrightarrow> buf ! i \<in> set whitespace"
proof (induction buf s rule: skip_space.induct)
  case (1 buf s)
  then show ?case
    by (subst (asm) (2) skip_space.simps) (cases "s = i", auto simp: char_at_def split: if_splits)
qed

lemma here_skip: "here buf s \<Longrightarrow> here buf (skip_space buf s)"
proof -
  assume s: "here buf s"
  have w: "0x3e \<notin> set whitespace" by (simp add: whitespace_def)
  show ?thesis
  proof (cases "skip_space buf s = s")
    case False
    then have "s < skip_space buf s" using skip_space_bounds(1) [of s buf] by simp
    then have "buf ! (skip_space buf s - 1) \<in> set whitespace" by (intro skip_space_white [of s]) simp_all
    then show ?thesis using s w skip_space_bounds(2) [of s buf] by (auto simp: here_def)
  qed (use s in simp)
qed

lemma here_peek: "peek buf s toks = (t, b) \<Longrightarrow> here buf s \<Longrightarrow> here buf t"
  using here_skip by (auto simp: peek_def Let_def)

lemma here_word:
  assumes "gettoken buf s = (0x61, q, e, t)"
  shows "here buf t"
proof -
  have w: "word_tok buf (q, e)" by (rule gettoken_word [OF assms])
  have "q \<le> e - 1 \<and> e - 1 < e" using w by (auto simp: word_tok_def)
  then have "buf ! (e - 1) \<notin> set symbols" using w unfolding word_tok_def by blast
  then have "here buf e" using w by (auto simp: word_tok_def here_def symbols_def)
  moreover have "t = skip_space buf e" using assms by (auto simp: gettoken_def Let_def split: if_splits)
  ultimately show ?thesis using here_skip by simp
qed

lemma here_token:
  assumes "gettoken buf s = (k, q, e, t)" and "here buf s" and "k \<notin> {0x3e, 0x2b}"
  shows "here buf t"
proof (cases "k = 0x61")
  case True
  then show ?thesis using here_word assms(1) by blast
next
  case False
  let ?s = "skip_space buf s"
  have "e = ?s \<or> e = Suc ?s \<and> ?s < length buf \<and> buf ! ?s \<noteq> 0x3e" "t = skip_space buf e"
    using False assms(1,3) char_nonzero [of buf ?s] char_in [of ?s buf]
    by (auto simp: gettoken_def Let_def split: if_splits)
  moreover from this have "here buf e" using here_skip [OF assms(2)] by (auto simp: here_def Suc_le_eq)
  ultimately show ?thesis using here_skip by simp
qed

lemma here_sep:
  assumes "peek buf s toks = (s1, True)" and "gettoken buf s1 = (k, q, e, s2)" and "here buf s" and "0x3e \<notin> set toks"
  shows "here buf s2"
proof -
  have "char_at buf s1 \<noteq> 0x3e" "skip_space buf s1 = s1" using assms(1,4) by (auto simp: peek_def Let_def)
  then have "k \<notin> {0x3e, 0x2b}" using assms(2) by (auto simp: gettoken_def Let_def split: if_splits)
  then show ?thesis using here_token [OF assms(2) here_peek [OF assms(1,3)]] by simp
qed

text \<open>The redirection that \<open>parseredirs\<close> makes is the one of the operator it has read.\<close>

lemma redir_sign_read:
  assumes p: "peek buf s [0x3c, 0x3e] = (s1, True)" and s: "here buf s"
    and g1: "gettoken buf s1 = (k1, q1, e1, s2)" and g2: "gettoken buf s2 = (0x61, q, e, s3)"
  shows "k1 \<in> {0x3c, 0x3e, 0x2b} \<and> redir_sign buf q
      (if k1 = 0x3c then O_RDONLY else if k1 = 0x3e then O_WRONLY OR O_CREATE OR O_TRUNC else O_WRONLY OR O_CREATE)
      (if k1 = 0x3c then 0 else 1)"
proof -
  have s1: "skip_space buf s1 = s1" "char_at buf s1 \<in> {0x3c, 0x3e}" using p by (auto simp: peek_def Let_def)
  have l: "s1 < length buf" using s1(2) by (intro char_nonzero) auto
  have h: "0 < s1 \<longrightarrow> buf ! (s1 - 1) \<noteq> 0x3e" using here_peek [OF p s] by (simp add: here_def)
  have q: "q = s2" and s2: "s2 = skip_space buf e1"
    using g1 g2 by (auto simp: gettoken_def Let_def split: if_splits)
  have w: "e1 \<le> q" "\<forall>i. e1 \<le> i \<and> i < q \<longrightarrow> buf ! i \<in> set whitespace"
    using skip_space_white [of e1 _ buf] skip_space_bounds(1) [of e1 buf] by (auto simp: q s2)
  have sign: "redir_sign buf q m fd"
    if "take (length op) (drop s1 buf) = op" "e1 = s1 + length op"
      "op = ascii ''<'' \<and> m = O_RDONLY \<and> fd = 0 \<or> op = ascii ''>'' \<and> m = O_WRONLY OR O_CREATE OR O_TRUNC \<and> fd = 1 \<or>
       op = ascii ''>>'' \<and> m = O_WRONLY OR O_CREATE \<and> fd = 1" for op m fd
    unfolding redir_sign_def using that w h by (intro exI [of _ s1] exI [of _ op]) simp
  have t1: "take 1 (drop s1 buf) = [char_at buf s1]"
    using l by (simp add: char_in take_Suc_conv_app_nth [of 0] Cons_nth_drop_Suc [symmetric])
  have t2: "take (Suc (Suc 0)) (drop s1 buf) = [char_at buf s1, char_at buf (Suc s1)]" if "char_at buf (Suc s1) \<noteq> 0"
    using l char_nonzero [OF that] by (simp add: char_in Cons_nth_drop_Suc [symmetric])
  consider (rd) "k1 = 0x3c" "char_at buf s1 = 0x3c" "e1 = Suc s1"
    | (tr) "k1 = 0x3e" "char_at buf s1 = 0x3e" "e1 = Suc s1"
    | (ap) "k1 = 0x2b" "char_at buf s1 = 0x3e" "char_at buf (Suc s1) = 0x3e" "e1 = Suc (Suc s1)"
    using g1 s1 by (auto simp: gettoken_def Let_def split: if_splits)
  then show ?thesis
  proof cases
    case rd
    then show ?thesis using sign [of "ascii ''<''"] t1 by (simp add: ascii_def)
  next
    case tr
    then show ?thesis using sign [of "ascii ''>''"] t1 by (simp add: ascii_def)
  next
    case ap
    then show ?thesis using sign [of "ascii ''>>''"] t2 by (simp add: ascii_def)
  qed
qed

definition parse_ok :: "u8 list \<Rightarrow> nat \<Rightarrow> tok cmd parse \<Rightarrow> bool" where
  "parse_ok buf s r \<longleftrightarrow>
     (case r of Parsed c t \<Rightarrow> s \<le> t \<and> here buf t \<and> wf_cmd buf c | Syntax _ \<Rightarrow> True | _ \<Rightarrow> False)"

lemma parse_ok_simps [simp]:
  "parse_ok buf s (Parsed c t) \<longleftrightarrow> s \<le> t \<and> here buf t \<and> wf_cmd buf c"
  "parse_ok buf s (Syntax e)" "\<not> parse_ok buf s OutOfCalls"
  by (simp_all add: parse_ok_def)

lemma parse_ok_bind:
  assumes "parse_ok buf s r"
    and "\<And>c t. r = Parsed c t \<Longrightarrow> s \<le> t \<Longrightarrow> here buf t \<Longrightarrow> wf_cmd buf c \<Longrightarrow> parse_ok buf t (k c t)"
  shows "parse_ok buf s (pbind r k)"
proof (cases r)
  case (Parsed c t)
  then have "s \<le> t" "parse_ok buf t (k c t)" using assms by auto
  then show ?thesis using Parsed by (auto simp: parse_ok_def split: parse.splits)
qed (use assms in \<open>auto simp: parse_ok_def\<close>)

lemma parse_ok_later: "parse_ok buf t r \<Longrightarrow> s \<le> t \<Longrightarrow> parse_ok buf s r"
  by (auto simp: parse_ok_def split: parse.splits)

text \<open>The arguments at the bottom of a chain of redirections.\<close>

fun redir_args :: "'w cmd \<Rightarrow> 'w list option" where
  "redir_args (EXEC as) = Some as"
| "redir_args (REDIR c f m fd) = redir_args c"
| "redir_args c = None"

lemma parseredirs_ok:
  assumes "here buf s" and "wf_cmd buf c"
  shows "parse_ok buf s (parseredirs buf c s)"
    "parseredirs buf c s = Parsed c' t \<Longrightarrow> redir_args c' = redir_args c"
proof -
  have "parse_ok buf s (parseredirs buf c s) \<and>
    (\<forall>c' t. parseredirs buf c s = Parsed c' t \<longrightarrow> redir_args c' = redir_args c)"
    using assms
  proof (induction buf c s rule: parseredirs.induct)
    case (1 buf c s)
    obtain s1 b where p: "peek buf s [0x3c, 0x3e] = (s1, b)" by (cases "peek buf s [0x3c, 0x3e]")
    show ?case
    proof (cases b)
      case False
      then show ?thesis
        using p 1(2,3) peek_forward(1) [OF p] here_peek [OF p] by (subst (1 2) parseredirs.simps) simp
    next
      case True
      obtain k1 q1 e1 s2 where g1: "gettoken buf s1 = (k1, q1, e1, s2)" by (cases "gettoken buf s1") auto
      obtain k2 q e s3 where g2: "gettoken buf s2 = (k2, q, e, s3)" by (cases "gettoken buf s2") auto
      let ?c = "if k1 = 0x3c then REDIR c (q, e) O_RDONLY 0
               else if k1 = 0x3e then REDIR c (q, e) (O_WRONLY OR O_CREATE OR O_TRUNC) 1
               else if k1 = 0x2b then REDIR c (q, e) (O_WRONLY OR O_CREATE) 1
               else c"
      have u: "parseredirs buf c s = (if k2 \<noteq> 0x61 then Syntax ''missing file for redirection'' else parseredirs buf ?c s3)"
        using p g1 g2 True by (subst parseredirs.simps) simp
      show ?thesis
      proof (cases "k2 = 0x61")
        case w: True
        have g2': "gettoken buf s2 = (0x61, q, e, s3)" and p': "peek buf s [0x3c, 0x3e] = (s1, True)" using g2 w p True by simp_all
        note r = redir_sign_read [OF p' 1(2) g1 g2'] and wt = gettoken_word [OF g2']
        have "s < s3" "here buf s3" using two_tokens [OF p' g1 g2'] here_word [OF g2'] by auto
        moreover have "wf_cmd buf ?c" using 1(3) r wt by auto
        moreover have "\<not> k2 \<noteq> 0x61" using w by simp
        note ih = 1(1) [OF p [symmetric] True g1 [symmetric] refl refl g2 [symmetric] refl refl this]
        ultimately have "parse_ok buf s3 (parseredirs buf ?c s3) \<and>
            (\<forall>c' t. parseredirs buf ?c s3 = Parsed c' t \<longrightarrow> redir_args c' = redir_args ?c)"
          by (intro ih) simp_all
        moreover have "redir_args ?c = redir_args c" by simp
        moreover have "parseredirs buf c s = parseredirs buf ?c s3" using u w by simp
        ultimately show ?thesis using \<open>s < s3\<close> parse_ok_later [of buf s3 _ s] by (simp only:) (simp add: less_imp_le)
      qed (simp add: u)
    qed
  qed
  then show "parse_ok buf s (parseredirs buf c s)"
    "parseredirs buf c s = Parsed c' t \<Longrightarrow> redir_args c' = redir_args c" by auto
qed

lemma add_arg_args: "redir_args c = Some as \<Longrightarrow> redir_args (add_arg a c) = Some (as @ [a])"
  by (induction c) auto

lemma add_arg_wf:
  "redir_args c = Some as \<Longrightarrow> wf_cmd buf c \<Longrightarrow> word_tok buf a \<Longrightarrow> Suc (length as) < MAXARGS \<Longrightarrow> wf_cmd buf (add_arg a c)"
  by (induction c) auto

lemma parseargs_ok:
  assumes "here buf s" and "wf_cmd buf c" and "redir_args c = Some as" and "length as = argc"
  shows "parse_ok buf s (parseargs buf c argc s)"
  using assms
proof (induction buf c argc s arbitrary: as rule: parseargs.induct)
  case (1 buf c argc s)
  obtain s1 b where p: "peek buf s [0x7c, 0x29, 0x26, 0x3b] = (s1, b)" by (cases "peek buf s [0x7c, 0x29, 0x26, 0x3b]")
  obtain k q e s2 where g: "gettoken buf s1 = (k, q, e, s2)" by (cases "gettoken buf s1") auto
  have s1: "s \<le> s1" "here buf s1" using peek_forward(1) [OF p] here_peek [OF p 1(2)] by auto
  note f = gettoken_forward [OF g here_bound [OF s1(2)]] and h = here_token [OF g s1(2)]
  show ?case
  proof (cases "b \<or> k \<noteq> 0x61 \<or> argc + 1 \<ge> MAXARGS")
    case True
    then show ?thesis using p g s1 f h 1(3) by (subst parseargs.simps) (auto simp: Let_def)
  next
    case False
    let ?c = "add_arg (q, e) c"
    have wf: "wf_cmd buf ?c" "redir_args ?c = Some (as @ [(q, e)])"
      using add_arg_wf [OF 1(4,3)] add_arg_args [OF 1(4)] gettoken_word g False 1(5) by auto
    have s2: "here buf s2" using h False by simp
    note r = parseredirs_ok [OF s2 wf(1)]
    have "parse_ok buf s2 (pbind (parseredirs buf ?c s2) (\<lambda>c s. parseargs buf c (argc + 1) s))"
    proof (rule parse_ok_bind [OF r(1)])
      fix c' t assume c': "parseredirs buf ?c s2 = Parsed c' t" "here buf t" "wf_cmd buf c'"
      show "parse_ok buf t (parseargs buf c' (argc + 1) t)"
        using 1(1) [OF p [symmetric] _ g [symmetric] refl refl _ _ refl refl _ c'(2,3)] False r(2) [OF c'(1)] wf(2) 1(5)
        by simp
    qed
    then show ?thesis
      using p g False parse_ok_later s1 f by (subst parseargs.simps) (simp add: Let_def)
  qed
qed

lemma parseback_ok:
  assumes "here buf s" and "wf_cmd buf c" and "parseback buf c s = (d, t)"
  shows "s \<le> t" "here buf t" "wf_cmd buf d"
proof -
  have "s \<le> t \<and> here buf t \<and> wf_cmd buf d"
    using assms
  proof (induction buf c s rule: parseback.induct)
    case (1 buf c s)
    obtain s1 b where p: "peek buf s [0x26] = (s1, b)" by (cases "peek buf s [0x26]")
    obtain k q e s2 where g: "gettoken buf s1 = (k, q, e, s2)" by (cases "gettoken buf s1") auto
    show ?case
    proof (cases b)
      case False
      then show ?thesis using 1(2-4) p peek_forward(1) [OF p] here_peek [OF p] by (subst (asm) parseback.simps) simp
    next
      case True
      then have "parseback buf (BACK c) s2 = (d, t)" using 1(4) p g by (subst (asm) parseback.simps) simp
      moreover have "s < s2" "here buf s2"
        using one_token [of buf s "[0x26]" s1] here_sep [of buf s "[0x26]" s1] p g True 1(2) by auto
      ultimately show ?thesis using 1(1) [OF p [symmetric] True g [symmetric] refl refl] 1(3) by simp
    qed
  qed
  then show "s \<le> t" "here buf t" "wf_cmd buf d" by auto
qed

text \<open>Code that looks for a separator and goes on after it.\<close>

lemma parse_ok_sep:
  assumes "\<And>u. s < u \<Longrightarrow> here buf u \<Longrightarrow> parse_ok buf u (k u)"
    and "\<And>u. s \<le> u \<Longrightarrow> here buf u \<Longrightarrow> parse_ok buf u (h u)" and "here buf s" and "0x3e \<notin> set toks"
  shows "parse_ok buf s (case peek buf s toks of (s, b) \<Rightarrow>
    if b then case gettoken buf s of (_, _, _, s) \<Rightarrow> k s else h s)"
proof -
  obtain s1 b where p: "peek buf s toks = (s1, b)" by (cases "peek buf s toks")
  obtain l q e s2 where g: "gettoken buf s1 = (l, q, e, s2)" by (cases "gettoken buf s1") auto
  have "s \<le> s1" "here buf s1" using peek_forward(1) [OF p] here_peek [OF p assms(3)] by auto
  then have "parse_ok buf s (h s1)" using parse_ok_later assms(2) by blast
  moreover have "parse_ok buf s (k s2)" if b
    using one_token [of buf s toks s1] here_sep [OF _ g assms(3,4)] p g that assms(1) [of s2]
    by (auto intro: parse_ok_later [of buf s2])
  ultimately show ?thesis by (simp add: p g)
qed

lemma parseline_ok:
  assumes "parse_ok buf s (parsepipe n buf s)"
    and IH: "\<And>u. s < u \<Longrightarrow> here buf u \<Longrightarrow> parse_ok buf u (parseline n buf u)"
  shows "parse_ok buf s (parseline (Suc n) buf s)"
  unfolding parseline.simps
proof (rule parse_ok_bind [OF assms(1)])
  fix c t assume t: "s \<le> t" "here buf t" "wf_cmd buf c"
  obtain d u where b: "parseback buf c t = (d, u)" by (cases "parseback buf c t")
  note u = parseback_ok [OF t(2,3) b]
  have "parse_ok buf u (case peek buf u [0x3b] of (s, b) \<Rightarrow> if b then case gettoken buf s of (_, _, _, s) \<Rightarrow>
      pbind (parseline n buf s) (\<lambda>rest s. Parsed (LIST d rest) s) else Parsed d s)"
    using t u IH by (intro parse_ok_sep parse_ok_bind) auto
  then show "parse_ok buf t (case parseback buf c t of (cmd, s) \<Rightarrow>
      case peek buf s [0x3b] of (s, b) \<Rightarrow> if b then case gettoken buf s of (_, _, _, s) \<Rightarrow>
        pbind (parseline n buf s) (\<lambda>rest s. Parsed (LIST cmd rest) s) else Parsed cmd s)"
    using parse_ok_later [OF _ u(1)] by (simp add: b)
qed

lemma parsepipe_ok:
  assumes "parse_ok buf s (parseexec n buf s)"
    and IH: "\<And>u. s < u \<Longrightarrow> here buf u \<Longrightarrow> parse_ok buf u (parsepipe n buf u)"
  shows "parse_ok buf s (parsepipe (Suc n) buf s)"
  unfolding parsepipe.simps
proof (rule parse_ok_bind [OF assms(1)])
  fix c t assume t: "s \<le> t" "here buf t" "wf_cmd buf c"
  show "parse_ok buf t (case peek buf t [0x7c] of (s, b) \<Rightarrow> if b then case gettoken buf s of (_, _, _, s) \<Rightarrow>
      pbind (parsepipe n buf s) (\<lambda>rest s. Parsed (PIPE c rest) s) else Parsed c s)"
    using t IH by (intro parse_ok_sep parse_ok_bind) auto
qed

lemma parseexec_ok:
  assumes "\<And>u. s \<le> u \<Longrightarrow> here buf u \<Longrightarrow> parse_ok buf u (parseblock n buf u)" and s: "here buf s"
  shows "parse_ok buf s (parseexec (Suc n) buf s)"
proof -
  obtain s1 y where p: "peek buf s [0x28] = (s1, y)" by (cases "peek buf s [0x28]")
  note f = peek_forward(1) [OF p] and h = here_peek [OF p s]
  have wf: "wf_cmd buf (EXEC [])" by (simp add: MAXARGS_def)
  have "parse_ok buf s1 (pbind (parseredirs buf (EXEC []) s1) (\<lambda>ret s. parseargs buf ret 0 s))"
  proof (rule parse_ok_bind)
    show "parse_ok buf s1 (parseredirs buf (EXEC []) s1)" using h wf by (intro parseredirs_ok)
    fix c t assume "parseredirs buf (EXEC []) s1 = Parsed c t" "here buf t" "wf_cmd buf c"
    then show "parse_ok buf t (parseargs buf c 0 t)"
      using parseredirs_ok(2) [OF h wf, of c t] by (intro parseargs_ok [where as = "[]"]) auto
  qed
  then show ?thesis using parse_ok_later [OF _ f] assms(1) [OF f h] by (simp add: p)
qed

lemma parseblock_ok:
  assumes "\<And>u. s < u \<Longrightarrow> here buf u \<Longrightarrow> parse_ok buf u (parseline n buf u)" and s: "here buf s"
  shows "parse_ok buf s (parseblock (Suc n) buf s)"
proof -
  let ?k = "\<lambda>u. pbind (parseline n buf u) (\<lambda>c s. case peek buf s [0x29] of (s, b) \<Rightarrow>
    if b then case gettoken buf s of (_, _, _, s) \<Rightarrow> parseredirs buf c s else Syntax ''syntax - missing )'')"
  have "parse_ok buf u (?k u)" if "s < u" "here buf u" for u
  proof (rule parse_ok_bind [OF assms(1) [OF that]])
    fix c t assume "here buf t" "wf_cmd buf c"
    then show "parse_ok buf t (case peek buf t [0x29] of (s, b) \<Rightarrow>
        if b then case gettoken buf s of (_, _, _, s) \<Rightarrow> parseredirs buf c s else Syntax ''syntax - missing )'')"
      by (intro parse_ok_sep parseredirs_ok) auto
  qed
  then have "parse_ok buf s (case peek buf s [0x28] of (s, b) \<Rightarrow>
      if b then case gettoken buf s of (_, _, _, s) \<Rightarrow> ?k s else Syntax ''parseblock'')"
    using s by (intro parse_ok_sep) auto
  moreover have "parseblock (Suc n) buf s = (case peek buf s [0x28] of (s, b) \<Rightarrow>
      if b then case gettoken buf s of (_, _, _, s) \<Rightarrow> ?k s else Syntax ''parseblock'')"
  proof -
    have "(if \<not> b then x else y) = (if b then y else x)" for b and x y :: "tok cmd parse" by simp
    then show ?thesis by (simp only: parseblock.simps)
  qed
  ultimately show ?thesis by simp
qed

text \<open>
  With four calls for every character left, none of the four functions runs out of calls: a block starts
  with a parenthesis, and the other two recursions follow a separator.
\<close>

lemma parse_calls:
  assumes "here buf s"
  shows "4 * (length buf - s) + 4 \<le> n \<Longrightarrow> parse_ok buf s (parseline n buf s)"
    "4 * (length buf - s) + 3 \<le> n \<Longrightarrow> parse_ok buf s (parsepipe n buf s)"
    "4 * (length buf - s) + 2 \<le> n \<Longrightarrow> parse_ok buf s (parseexec n buf s)"
    "4 * (length buf - s) + 1 \<le> n \<Longrightarrow> parse_ok buf s (parseblock n buf s)"
  using assms
proof (induction n arbitrary: s)
  case (Suc n)
  have a: "4 * (length buf - u) + 4 \<le> n" if "4 * (length buf - s) \<le> n" "s < u" "here buf u" for s u
    using that(1,2) here_bound [OF that(3)] by linarith
  have b: "length buf - u \<le> length buf - s" if "s \<le> u" for s u using that by simp
  { case 1 then show ?case using a [of s] by (intro parseline_ok Suc.IH) simp_all
  next case 2 then show ?case using a [of s] by (intro parsepipe_ok Suc.IH) (fastforce dest: add_leD1)+
  next case 3 then show ?case using b [of s] by (intro parseexec_ok Suc.IH) fastforce+
  next case 4 then show ?case using a [of s] by (intro parseblock_ok Suc.IH) simp_all }
qed simp_all

text \<open>More calls change nothing.\<close>

lemma pbind_calls:
  assumes "pbind r k \<noteq> OutOfCalls" and "r \<noteq> OutOfCalls \<Longrightarrow> r' = r" and "\<And>x t. k x t \<noteq> OutOfCalls \<Longrightarrow> k' x t = k x t"
  shows "pbind r' k' = pbind r k"
  using assms by (cases r) auto

lemma more_calls:
  "parseline n buf s \<noteq> OutOfCalls \<Longrightarrow> parseline (Suc n) buf s = parseline n buf s"
  "parsepipe n buf s \<noteq> OutOfCalls \<Longrightarrow> parsepipe (Suc n) buf s = parsepipe n buf s"
  "parseexec n buf s \<noteq> OutOfCalls \<Longrightarrow> parseexec (Suc n) buf s = parseexec n buf s"
  "parseblock n buf s \<noteq> OutOfCalls \<Longrightarrow> parseblock (Suc n) buf s = parseblock n buf s"
proof (induction n arbitrary: s)
  case (Suc n)
  { case 1
    then show ?case
      unfolding parseline.simps(2) [of "Suc n"] parseline.simps(2) [of n]
      using Suc.IH(1,2) by (rule_tac pbind_calls) (auto split: prod.splits if_splits intro: pbind_calls)
  next case 2
    then show ?case
      unfolding parsepipe.simps(2) [of "Suc n"] parsepipe.simps(2) [of n]
      using Suc.IH(2,3) by (rule_tac pbind_calls) (auto split: prod.splits if_splits intro: pbind_calls)
  next case 3
    then show ?case
      unfolding parseexec.simps(2) [of "Suc n"] parseexec.simps(2) [of n]
      using Suc.IH(4) by (auto simp del: parseblock.simps split: prod.splits if_splits)
  next case 4
    then show ?case
      unfolding parseblock.simps(2) [of "Suc n"] parseblock.simps(2) [of n]
      using Suc.IH(1) by (auto split: prod.splits if_splits intro!: pbind_calls) }
qed simp_all

lemma more_calls_le:
  assumes "m \<le> n" and "parseline m buf s \<noteq> OutOfCalls"
  shows "parseline n buf s = parseline m buf s"
  using assms(1)
proof (induction rule: dec_induct)
  case (step n)
  then show ?case using more_calls(1) [of n buf s] assms(2) by simp
qed simp

text \<open>
  C21: The shell's parser always ends. For every line, \<open>parsecmd\<close> returns a command or stops with an error
  message; the bound of \<open>4 * strlen(s) + 4\<close> on the depth of its recursive calls is never reached, and a
  larger bound gives the same result.
\<close>

theorem parsecmd_terminates:
  "parsecmd buf \<noteq> OutOfCalls \<and>
   parseline (4 * length buf + 4 + k) buf 0 = parseline (4 * length buf + 4) buf 0"
proof -
  have ok: "parse_ok buf 0 (parseline (4 * length buf + 4) buf 0)" by (intro parse_calls(1)) (simp_all add: here_def)
  then have "parseline (4 * length buf + 4) buf 0 \<noteq> OutOfCalls" by auto
  moreover from ok have "parsecmd buf \<noteq> OutOfCalls"
    by (cases "parseline (4 * length buf + 4) buf 0") (auto simp: parsecmd_def parse_ok_def split: prod.split)
  ultimately show ?thesis using more_calls_le [of "4 * length buf + 4" "4 * length buf + 4 + k"] by simp
qed

section \<open>The strings of a command\<close>

text \<open>What cutting some strings off at their ends does to the line.\<close>

definition special :: "u8 \<Rightarrow> bool" where
  "special c \<longleftrightarrow> c \<in> set whitespace \<or> c \<in> set symbols"

lemma word_tokD:
  assumes "word_tok buf (q, e)"
  shows "q < e" "e \<le> length buf" "q \<le> i \<Longrightarrow> i < e \<Longrightarrow> \<not> special (buf ! i)" "e < length buf \<Longrightarrow> special (buf ! e)"
  using assms by (auto simp: word_tok_def special_def)

definition cut_ok :: "u8 list \<Rightarrow> tok set \<Rightarrow> u8 list \<Rightarrow> u8 list \<Rightarrow> bool" where
  "cut_ok buf T b b' \<longleftrightarrow> length b' = length b \<and>
     (\<forall>i < length buf. b' ! i = b ! i \<or> b' ! i = 0 \<and> special (buf ! i)) \<and>
     (\<forall>(q, e)\<in>T. e < length buf \<longrightarrow> b' ! e = 0)"

lemma cut_okD:
  assumes "cut_ok buf T b b'"
  shows "length b' = length b" "i < length buf \<Longrightarrow> b' ! i = b ! i \<or> b' ! i = 0 \<and> special (buf ! i)"
    "(q, e) \<in> T \<Longrightarrow> e < length buf \<Longrightarrow> b' ! e = 0"
  using assms unfolding cut_ok_def by auto

lemma cut_ok_trans:
  assumes S: "cut_ok buf S a b" and T: "cut_ok buf T b c"
  shows "cut_ok buf (S \<union> T) a c"
  unfolding cut_ok_def
proof (intro conjI allI impI)
  show "length c = length a" using cut_okD(1) [OF S] cut_okD(1) [OF T] by simp
  show "c ! i = a ! i \<or> c ! i = 0 \<and> special (buf ! i)" if "i < length buf" for i
    using cut_okD(2) [OF S that] cut_okD(2) [OF T that] by auto
  show "\<forall>(q, e)\<in>S \<union> T. e < length buf \<longrightarrow> c ! e = 0"
    using cut_okD(3) [OF S] cut_okD(3) [OF T] cut_okD(2) [OF T] by fastforce
qed

lemma cut_ok_one:
  assumes "word_tok buf a" and "length b = length buf"
  shows "cut_ok buf {a} b (b[snd a := 0])"
proof (cases a)
  case (Pair q e)
  have "b[e := 0] ! i = b ! i \<or> b[e := 0] ! i = 0 \<and> special (buf ! i)" if "i < length buf" for i
    using assms Pair word_tokD(4) [of buf q e] that by (cases "i = e") auto
  then show ?thesis using assms Pair by (auto simp: cut_ok_def)
qed

lemma cut_ok_args:
  "\<forall>a\<in>set as. word_tok buf a \<Longrightarrow> length b = length buf \<Longrightarrow> cut_ok buf (set as) b (fold (\<lambda>(q, e) b. b[e := 0]) as b)"
proof (induction as arbitrary: b)
  case Nil
  then show ?case by (simp add: cut_ok_def)
next
  case (Cons a as)
  have "cut_ok buf {a} b (b[snd a := 0])" using Cons.prems by (intro cut_ok_one) simp_all
  moreover have "cut_ok buf (set as) (b[snd a := 0]) (fold (\<lambda>(q, e) b. b[e := 0]) as (b[snd a := 0]))"
    using Cons.prems by (intro Cons.IH) simp_all
  ultimately have "cut_ok buf ({a} \<union> set as) b (fold (\<lambda>(q, e) b. b[e := 0]) as (b[snd a := 0]))"
    by (rule cut_ok_trans)
  then show ?case by (cases a) simp
qed

lemma nulterminate_cuts: "wf_cmd buf c \<Longrightarrow> length b = length buf \<Longrightarrow> cut_ok buf (set_cmd c) b (nulterminate c b)"
proof (induction c arbitrary: b)
  case (EXEC as)
  then show ?case using cut_ok_args by simp
next
  case (REDIR c f m fd)
  then have "cut_ok buf (set_cmd c) b (nulterminate c b)" by simp
  moreover from this have "cut_ok buf {f} (nulterminate c b) ((nulterminate c b)[snd f := 0])"
    using REDIR.prems by (intro cut_ok_one) (simp_all add: cut_ok_def)
  ultimately show ?case using cut_ok_trans by (fastforce simp: Un_commute)
next
  case (PIPE l r)
  then have "cut_ok buf (set_cmd l) b (nulterminate l b)" by simp
  moreover from this have "cut_ok buf (set_cmd r) (nulterminate l b) (nulterminate r (nulterminate l b))"
    using PIPE by (simp add: cut_ok_def)
  ultimately show ?case using cut_ok_trans by fastforce
next
  case (LIST l r)
  then have "cut_ok buf (set_cmd l) b (nulterminate l b)" by simp
  moreover from this have "cut_ok buf (set_cmd r) (nulterminate l b) (nulterminate r (nulterminate l b))"
    using LIST by (simp add: cut_ok_def)
  ultimately show ?case using cut_ok_trans by fastforce
qed simp

text \<open>After the cuts, the C string at the start of a word of the line is that word.\<close>

definition word_text :: "u8 list \<Rightarrow> tok \<Rightarrow> u8 list" where
  "word_text buf = (\<lambda>(q, e). take (e - q) (drop q buf))"

lemma line_str_word:
  assumes "cut_ok buf T buf b" and "(q, e) \<in> T" and "word_tok buf (q, e)" and "0 \<notin> set buf"
  shows "line_str b q = word_text buf (q, e)"
proof -
  have w: "q < e" "e \<le> length buf" "length b = length buf" "e < length buf \<Longrightarrow> b ! e = 0"
    using word_tokD(1,2) [OF assms(3)] cut_okD(1) [OF assms(1)] cut_okD(3) [OF assms(1,2)] by auto
  have same: "b ! i = buf ! i" if "q \<le> i" "i < e" for i
    using cut_okD(2) [OF assms(1), of i] word_tokD(3) [OF assms(3) that] that w(2) by auto
  have "drop q b = word_text buf (q, e) @ drop e b"
    using w(1-3) same by (intro nth_equalityI) (auto simp: word_text_def nth_append min_def add.commute)
  moreover have "0 \<notin> set (word_text buf (q, e))"
    using assms(4) by (auto simp: word_text_def dest!: in_set_takeD in_set_dropD)
  moreover have "takeWhile (\<lambda>c. c \<noteq> 0) (drop e b) = []"
    using w(3,4) by (cases "e < length buf") (auto simp: Cons_nth_drop_Suc [symmetric])
  ultimately show ?thesis unfolding line_str_def by (auto simp: takeWhile_append)
qed

lemma wf_words: "wf_cmd buf c \<Longrightarrow> a \<in> set_cmd c \<Longrightarrow> word_tok buf a"
  by (induction c) auto

text \<open>
  C22: The commands of the parser are well formed and their strings are the words of the line. When
  \<open>parsecmd\<close> returns a command, every argument list fits \<open>argv\<close> with its final null pointer; every
  redirection stands in the line as an operator followed by the name of the file, and has the descriptor and
  the mode of that operator (\<open><\<close>: 0, read only; \<open>>\<close>: 1, write, create and truncate; \<open>>>\<close>: 1, write and
  create); and after \<open>nulterminate\<close> every string
  pointer of the command points to the word that was scanned there: a terminator is never written inside
  another word.
\<close>

theorem parsecmd_well_formed:
  assumes "parsecmd buf = Parsed (c, b) t" and "0 \<notin> set buf"
  shows "wf_cmd buf c \<and> (\<forall>(q, e)\<in>set_cmd c. line_str b q = word_text buf (q, e) \<and> word_text buf (q, e) \<noteq> [])"
proof -
  have ok: "parse_ok buf 0 (parseline (4 * length buf + 4) buf 0)" by (intro parse_calls(1)) (simp_all add: here_def)
  obtain u where u: "parseline (4 * length buf + 4) buf 0 = Parsed c u" "b = nulterminate c buf"
    using assms(1) by (cases "parseline (4 * length buf + 4) buf 0") (auto simp: parsecmd_def split: prod.splits if_splits)
  then have wf: "wf_cmd buf c" using ok by simp
  then have cut: "cut_ok buf (set_cmd c) buf b" using nulterminate_cuts u(2) by simp
  show ?thesis using wf wf_words [OF wf] line_str_word [OF cut] assms(2) word_tokD(1,2) by (fastforce simp: word_text_def)
qed

theorem parsecmd_well_formed_witness:
  "\<exists>c b t. parsecmd (ascii ''cat <f'') = Parsed (c, b) t \<and> wf_cmd (ascii ''cat <f'') c \<and> line_str b 0 = ascii ''cat''"
proof -
  let ?c = "REDIR (EXEC [(0, 3)]) (5, 6) O_RDONLY 0"
  have p: "parsecmd (ascii ''cat <f'') = Parsed (?c, [0x63, 0x61, 0x74, 0, 0x3c, 0x66]) 6" by code_simp
  have "0 \<notin> set (ascii ''cat <f'')" by (simp add: ascii_def)
  from parsecmd_well_formed [OF p this] have "wf_cmd (ascii ''cat <f'') ?c"
      "line_str [0x63, 0x61, 0x74, 0, 0x3c, 0x66] 0 = word_text (ascii ''cat <f'') (0, 3)" by auto
  then show ?thesis using p by (auto simp: word_text_def ascii_def)
qed

end
