(* ===== verification/Shprint.thy ===== *)
theory Shprint
  imports Shlaws
begin

text \<open>
  Printing a command in the syntax of the shell and reading it back. The proofs look at what is left of
  the line at a position, without leading white space: the scanner depends on nothing else.
\<close>

section \<open>The scanner on what is left\<close>

abbreviation strip :: "u8 list \<Rightarrow> u8 list" where
  "strip \<equiv> dropWhile (\<lambda>c. c \<in> set whitespace)"

definition rest_at :: "u8 list \<Rightarrow> nat \<Rightarrow> u8 list" where
  "rest_at buf s = strip (drop s buf)"

lemma strip_strip [simp]: "strip (strip x) = strip x"
  by (induction x) auto

lemma strip_cons [simp]: "special c \<Longrightarrow> c \<in> set symbols \<Longrightarrow> strip (c # x) = c # x"
  by (auto simp: whitespace_def symbols_def)

lemma char_at_drop: "char_at buf s = (case drop s buf of [] \<Rightarrow> 0 | c # _ \<Rightarrow> c)"
  by (auto simp: char_at_def Cons_nth_drop_Suc [symmetric])

lemma skip_space_drop: "s \<le> length buf \<Longrightarrow> drop (skip_space buf s) buf = rest_at buf s"
proof (induction buf s rule: skip_space.induct)
  case (1 buf s)
  show ?case
  proof (cases "s < length buf")
    case True
    then have d: "drop s buf = buf ! s # drop (Suc s) buf" by (simp add: Cons_nth_drop_Suc)
    show ?thesis using 1 True by (subst skip_space.simps) (auto simp: rest_at_def d char_at_def)
  qed (use 1 in \<open>subst skip_space.simps, simp add: rest_at_def\<close>)
qed

lemma skip_word_drop:
  "s \<le> length buf \<Longrightarrow> drop (skip_word buf s) buf = dropWhile (\<lambda>c. \<not> special c) (drop s buf) \<and>
   skip_word buf s = s + length (takeWhile (\<lambda>c. \<not> special c) (drop s buf))"
proof (induction buf s rule: skip_word.induct)
  case (1 buf s)
  show ?case
  proof (cases "s < length buf")
    case True
    then have d: "drop s buf = buf ! s # drop (Suc s) buf" by (simp add: Cons_nth_drop_Suc)
    show ?thesis using 1 True by (subst (1 2) skip_word.simps) (auto simp: d char_at_def special_def)
  qed (use 1 in \<open>subst (1 2) skip_word.simps, simp\<close>)
qed

lemma rest_at_skip: "s \<le> length buf \<Longrightarrow> rest_at buf (skip_space buf s) = rest_at buf s"
  using skip_space_drop [of s buf] by (simp add: rest_at_def)

definition first_in :: "u8 list \<Rightarrow> u8 list \<Rightarrow> bool" where
  "first_in toks x \<longleftrightarrow> (case x of [] \<Rightarrow> False | c # _ \<Rightarrow> c \<in> set toks)"

lemma first_in_simps [simp]: "\<not> first_in toks []" "first_in toks (c # x) \<longleftrightarrow> c \<in> set toks"
  by (simp_all add: first_in_def)

lemma peek_rest:
  assumes "s \<le> length buf" and "0 \<notin> set toks"
  shows "peek buf s toks = (skip_space buf s, first_in toks (rest_at buf s))"
  using skip_space_drop [OF assms(1)] assms(2)
  by (auto simp: peek_def Let_def char_at_drop first_in_def split: list.splits)


lemma drop_ConsD: "drop k buf = c # x \<Longrightarrow> k < length buf \<and> char_at buf k = c \<and> drop (Suc k) buf = x"
  by (cases "k < length buf") (auto simp: char_at_def Cons_nth_drop_Suc [symmetric])

lemma gettoken_symbol:
  assumes s: "s \<le> length buf" and r: "rest_at buf s = c # x" and c: "c \<in> {0x7c, 0x28, 0x29, 0x3b, 0x26, 0x3c}"
  shows "\<exists>q e t. gettoken buf s = (c, q, e, t) \<and> t \<le> length buf \<and> rest_at buf t = strip x"
proof -
  let ?k = "skip_space buf s"
  have k: "?k < length buf" "char_at buf ?k = c" "drop (Suc ?k) buf = x"
    using drop_ConsD skip_space_drop [OF s] r by auto
  have "gettoken buf s = (c, ?k, Suc ?k, skip_space buf (Suc ?k))" using k c by (auto simp: gettoken_def Let_def)
  moreover have "rest_at buf (skip_space buf (Suc ?k)) = strip x" using rest_at_skip k by (simp add: rest_at_def)
  moreover have "skip_space buf (Suc ?k) \<le> length buf" using skip_space_bounds(2) k(1) by simp
  ultimately show ?thesis by blast
qed

lemma gettoken_gt:
  assumes s: "s \<le> length buf" and r: "rest_at buf s = 0x3e # x"
  shows "\<exists>q e t. gettoken buf s = (if first_in [0x3e] x then 0x2b else 0x3e, q, e, t) \<and> t \<le> length buf \<and>
    rest_at buf t = strip (if first_in [0x3e] x then tl x else x)"
proof -
  let ?k = "skip_space buf s"
  have k: "?k < length buf" "char_at buf ?k = 0x3e" "drop (Suc ?k) buf = x"
    using drop_ConsD skip_space_drop [OF s] r by auto
  have f: "char_at buf (Suc ?k) = 0x3e \<longleftrightarrow> first_in [0x3e] x"
    using k(3) by (auto simp: char_at_drop first_in_def split: list.split)
  let ?e = "if first_in [0x3e] x then Suc (Suc ?k) else Suc ?k"
  have "gettoken buf s = (if first_in [0x3e] x then 0x2b else 0x3e, ?k, ?e, skip_space buf ?e)"
    using k f by (auto simp: gettoken_def Let_def)
  moreover have e: "?e \<le> length buf" using k(1) f char_nonzero [of buf "Suc ?k"] by auto
  moreover have "drop ?e buf = (if first_in [0x3e] x then tl x else x)"
    using k(3) by (auto simp: drop_Suc [of "Suc ?k"] tl_drop [symmetric])
  ultimately show ?thesis using rest_at_skip [OF e] skip_space_bounds(2) [OF e] by (auto simp: rest_at_def)
qed

text \<open>A word that can be printed.\<close>

definition text_word :: "u8 list \<Rightarrow> bool" where
  "text_word w \<longleftrightarrow> w \<noteq> [] \<and> (\<forall>c\<in>set w. c \<noteq> 0 \<and> \<not> special c)"

definition delimited :: "u8 list \<Rightarrow> bool" where
  "delimited x \<longleftrightarrow> x = [] \<or> special (hd x)"

lemma word_prefix:
  assumes "text_word w" and "delimited x"
  shows "takeWhile (\<lambda>c. \<not> special c) (w @ x) = w" "dropWhile (\<lambda>c. \<not> special c) (w @ x) = x"
    "strip (w @ x) = w @ x"
  using assms by (cases x; cases w; auto simp: text_word_def delimited_def special_def)+

lemma gettoken_text:
  assumes s: "s \<le> length buf" and r: "rest_at buf s = w @ x" and w: "text_word w" "delimited x"
  shows "\<exists>q e t. gettoken buf s = (0x61, q, e, t) \<and> word_text buf (q, e) = w \<and> t \<le> length buf \<and> rest_at buf t = strip x"
proof -
  let ?k = "skip_space buf s"
  let ?e = "skip_word buf ?k"
  have k: "?k \<le> length buf" "drop ?k buf = w @ x" using skip_space_bounds(2) [OF s] skip_space_drop [OF s] r by auto
  have e: "?e \<le> length buf" using skip_word_bounds(2) [OF k(1)] .
  have e': "drop ?e buf = x" "?e = ?k + length w" using skip_word_drop [OF k(1)] word_prefix [OF w] k(2) by auto
  obtain c w' where cw: "w = c # w'" using w(1) by (cases w) (auto simp: text_word_def)
  have "char_at buf ?k = c" using k(2) cw by (simp add: char_at_drop)
  moreover have "c \<noteq> 0" "c \<notin> set symbols" using w(1) cw by (auto simp: text_word_def special_def)
  ultimately have "gettoken buf s = (0x61, ?k, ?e, skip_space buf ?e)" by (auto simp: gettoken_def Let_def symbols_def)
  moreover have "word_text buf (?k, ?e) = w" using k(2) by (simp add: word_text_def e'(2))
  ultimately show ?thesis
    using rest_at_skip [OF e] skip_space_bounds(2) [OF e] e' by (auto simp: rest_at_def)
qed

section \<open>Printing\<close>

definition redir_op :: "u32 \<Rightarrow> int \<Rightarrow> u8 list" where
  "redir_op m fd = (if fd = 0 then [0x3c] else if m AND O_TRUNC \<noteq> 0 then [0x3e] else [0x3e, 0x3e])"

definition paren :: "bool \<Rightarrow> u8 list \<Rightarrow> u8 list" where
  "paren b x = (if b then 0x28 # x @ [0x29] else x)"

text \<open>
  The text of a command in a place where \<open>parseexec\<close> (0), \<open>parsepipe\<close> (1), \<open>parsepipe\<close> and the loop over
  \<open>&\<close> (2) or \<open>parseline\<close> (3) reads it; a command that the place does not admit is put in parentheses.
\<close>

fun print_cmd :: "nat \<Rightarrow> u8 list cmd \<Rightarrow> u8 list" where
  "print_cmd lvl (EXEC ws) = concat (map (Cons 0x20) ws)"
| "print_cmd lvl (REDIR c f m fd) = print_cmd 0 c @ 0x20 # redir_op m fd @ f"
| "print_cmd lvl (PIPE l r) = paren (lvl < 1) (print_cmd 0 l @ 0x7c # print_cmd 1 r)"
| "print_cmd lvl (BACK c) = paren (lvl < 2) (print_cmd 2 c @ [0x26])"
| "print_cmd lvl (LIST l r) = paren (lvl < 3) (print_cmd 2 l @ 0x3b # print_cmd 3 r)"

fun text_cmd :: "u8 list cmd \<Rightarrow> bool" where
  "text_cmd (EXEC ws) \<longleftrightarrow> length ws < MAXARGS \<and> (\<forall>w\<in>set ws. text_word w)"
| "text_cmd (REDIR c f m fd) \<longleftrightarrow> text_cmd c \<and> text_word f \<and>
     (m, fd) \<in> {(O_RDONLY, 0), (O_WRONLY OR O_CREATE OR O_TRUNC, 1), (O_WRONLY OR O_CREATE, 1)}"
| "text_cmd (PIPE l r) \<longleftrightarrow> text_cmd l \<and> text_cmd r"
| "text_cmd (LIST l r) \<longleftrightarrow> text_cmd l \<and> text_cmd r"
| "text_cmd (BACK c) \<longleftrightarrow> text_cmd c"

text \<open>A run of a parser that has read the command \<open>t\<close> and has \<open>x\<close> left.\<close>

definition reads :: "u8 list \<Rightarrow> tok cmd parse \<Rightarrow> u8 list cmd \<Rightarrow> u8 list \<Rightarrow> bool" where
  "reads buf r t x \<longleftrightarrow> (\<exists>c s. r = Parsed c s \<and> map_cmd (word_text buf) c = t \<and> s \<le> length buf \<and> rest_at buf s = strip x)"

lemma readsI: "map_cmd (word_text buf) c = t \<Longrightarrow> s \<le> length buf \<Longrightarrow> rest_at buf s = strip x \<Longrightarrow> reads buf (Parsed c s) t x"
  by (auto simp: reads_def)

lemma reads_bind:
  assumes "reads buf r t x"
    and "\<And>c s. map_cmd (word_text buf) c = t \<Longrightarrow> s \<le> length buf \<Longrightarrow> rest_at buf s = strip x \<Longrightarrow> reads buf (k c s) t' x'"
  shows "reads buf (pbind r k) t' x'"
  using assms by (auto simp: reads_def)

section \<open>Reading redirections and arguments\<close>

type_synonym redir = "u8 list \<times> u32 \<times> int"

definition redirs_text :: "redir list \<Rightarrow> u8 list" where
  "redirs_text rs = concat (map (\<lambda>(f, m, fd). 0x20 # redir_op m fd @ f) rs)"

definition add_redirs :: "redir list \<Rightarrow> u8 list cmd \<Rightarrow> u8 list cmd" where
  "add_redirs rs c = fold (\<lambda>(f, m, fd) c. REDIR c f m fd) rs c"

definition redir_modes :: "(u32 \<times> int) set" where
  "redir_modes = {(O_RDONLY, 0), (O_WRONLY OR O_CREATE OR O_TRUNC, 1), (O_WRONLY OR O_CREATE, 1)}"

lemma special_chars [simp]:
  "special 0x20" "special 0x3c" "special 0x3e" "special 0x7c" "special 0x26" "special 0x3b" "special 0x28" "special 0x29"
  by (simp_all add: special_def whitespace_def symbols_def)

lemma space_chars [simp]:
  "0x20 \<in> set whitespace" "0x3c \<notin> set whitespace" "0x3e \<notin> set whitespace" "0x7c \<notin> set whitespace"
  "0x26 \<notin> set whitespace" "0x3b \<notin> set whitespace" "0x28 \<notin> set whitespace" "0x29 \<notin> set whitespace"
  by (simp_all add: whitespace_def)

lemma delimited_simps [simp]: "delimited []" "delimited (c # x) \<longleftrightarrow> special c"
  by (simp_all add: delimited_def)

lemma redirs_delimited: "delimited x \<Longrightarrow> delimited (redirs_text rs @ x)"
  by (cases rs) (auto simp: redirs_text_def)

lemma text_word_first: "text_word w \<Longrightarrow> \<forall>c\<in>set toks. special c \<Longrightarrow> \<not> first_in toks (w @ x)"
  by (cases w) (auto simp: text_word_def)

text \<open>One operator with its file, as the loop of \<open>parseredirs\<close> reads it.\<close>

lemma parseredirs_one:
  assumes s: "s \<le> length buf" and r: "rest_at buf s = redir_op m fd @ f @ x" and f: "text_word f" "delimited x"
    and m: "(m, fd) \<in> redir_modes"
  shows "\<exists>q e t. parseredirs buf c s = parseredirs buf (REDIR c (q, e) m fd) t \<and> word_text buf (q, e) = f \<and>
    t \<le> length buf \<and> rest_at buf t = strip x"
proof -
  let ?s = "skip_space buf s"
  have s1: "?s \<le> length buf" "rest_at buf ?s = redir_op m fd @ f @ x"
    using skip_space_bounds(2) [OF s] rest_at_skip [OF s] r by auto
  have pk: "peek buf s [0x3c, 0x3e] = (?s, True)"
    using peek_rest [OF s, of "[0x3c, 0x3e]"] r by (auto simp: redir_op_def)
  define k where "k = (if fd = 0 then 0x3c else if m AND O_TRUNC \<noteq> 0 then 0x3e else (0x2b :: u8))"
  have nf: "\<not> first_in [0x3e] (f @ x)" using text_word_first f(1) by simp
  obtain q1 e1 s2 where g1: "gettoken buf ?s = (k, q1, e1, s2)" "s2 \<le> length buf" "rest_at buf s2 = strip (f @ x)"
    using gettoken_symbol [OF s1(1), of "0x3c" "f @ x"] gettoken_gt [OF s1(1), of "f @ x"] gettoken_gt [OF s1(1), of "0x3e # f @ x"]
      s1(2) nf by (auto simp: redir_op_def k_def split: if_splits)
  obtain q e s3 where g2: "gettoken buf s2 = (0x61, q, e, s3)" "word_text buf (q, e) = f" "s3 \<le> length buf" "rest_at buf s3 = strip x"
    using gettoken_text [OF g1(2) _ f] g1(3) word_prefix(3) [OF f] by auto
  have "(if k = 0x3c then REDIR c (q, e) O_RDONLY 0
      else if k = 0x3e then REDIR c (q, e) (O_WRONLY OR O_CREATE OR O_TRUNC) 1
      else if k = 0x2b then REDIR c (q, e) (O_WRONLY OR O_CREATE) 1 else c) = REDIR c (q, e) m fd"
    using m by (auto simp: k_def redir_modes_def O_RDONLY_def O_WRONLY_def O_CREATE_def O_TRUNC_def)
  then have "parseredirs buf c s = parseredirs buf (REDIR c (q, e) m fd) s3"
    by (subst parseredirs.simps) (simp add: pk g1 g2)
  then show ?thesis using g2 by blast
qed

lemma parseredirs_reads:
  assumes "s \<le> length buf" and "rest_at buf s = strip (redirs_text rs @ x)"
    and "\<forall>(f, m, fd)\<in>set rs. text_word f \<and> (m, fd) \<in> redir_modes" and "delimited x" and "\<not> first_in [0x3c, 0x3e] (strip x)"
  shows "reads buf (parseredirs buf c s) (add_redirs rs (map_cmd (word_text buf) c)) x"
  using assms(1-3)
proof (induction rs arbitrary: c s)
  case Nil
  then have "peek buf s [0x3c, 0x3e] = (skip_space buf s, False)"
    using peek_rest [of s buf "[0x3c, 0x3e]"] assms(5) by (simp add: redirs_text_def)
  then have "parseredirs buf c s = Parsed c (skip_space buf s)" by (subst parseredirs.simps) simp
  then show ?case
    using Nil rest_at_skip [of s buf] skip_space_bounds(2) [of s buf] by (auto simp: add_redirs_def redirs_text_def intro: readsI)
next
  case (Cons r rs)
  obtain f m fd where r: "r = (f, m, fd)" by (cases r)
  let ?x = "redirs_text rs @ x"
  have "rest_at buf s = strip (redir_op m fd @ f @ ?x)" using Cons.prems(2) by (simp add: r redirs_text_def)
  then have "rest_at buf s = redir_op m fd @ f @ ?x" by (simp add: redir_op_def split: if_splits)
  then obtain q e t where t: "parseredirs buf c s = parseredirs buf (REDIR c (q, e) m fd) t" "word_text buf (q, e) = f"
      "t \<le> length buf" "rest_at buf t = strip ?x"
    using parseredirs_one [of s buf m fd f ?x c] Cons.prems(1,3) redirs_delimited assms(4) r by auto
  have "reads buf (parseredirs buf (REDIR c (q, e) m fd) t) (add_redirs rs (map_cmd (word_text buf) (REDIR c (q, e) m fd))) x"
    using t Cons.prems(3) by (intro Cons.IH) auto
  then show ?case using t by (simp add: add_redirs_def r)
qed

text \<open>What may follow a simple command or a block.\<close>

definition exec_end :: "u8 list \<Rightarrow> bool" where
  "exec_end x \<longleftrightarrow> delimited x \<and> (strip x = [] \<or> first_in [0x7c, 0x29, 0x26, 0x3b] (strip x))"

lemma exec_endD: "exec_end x \<Longrightarrow> delimited x" "exec_end x \<Longrightarrow> \<not> first_in [0x3c, 0x3e] (strip x)"
  "exec_end x \<Longrightarrow> \<not> first_in [0x28] (strip x)"
  by (auto simp: exec_end_def first_in_def simp del: dropWhile_eq_Nil_conv split: list.splits)

lemma parseargs_end:
  assumes "s \<le> length buf" and "rest_at buf s = strip x" and "exec_end x"
  shows "reads buf (parseargs buf c argc s) (map_cmd (word_text buf) c) x"
proof -
  let ?s = "skip_space buf s"
  have s: "?s \<le> length buf" "rest_at buf ?s = strip x"
    using skip_space_bounds(2) [OF assms(1)] rest_at_skip [OF assms(1)] assms(2) by auto
  have pk: "peek buf s [0x7c, 0x29, 0x26, 0x3b] = (?s, first_in [0x7c, 0x29, 0x26, 0x3b] (strip x))"
    using peek_rest [OF assms(1), of "[0x7c, 0x29, 0x26, 0x3b]"] assms(2) by simp
  show ?thesis
  proof (cases "first_in [0x7c, 0x29, 0x26, 0x3b] (strip x)")
    case True
    then have "parseargs buf c argc s = Parsed c ?s" by (subst parseargs.simps) (simp add: pk)
    then show ?thesis using s by (auto intro: readsI)
  next
    case False
    then have e: "strip x = []" using assms(3) by (auto simp: exec_end_def)
    then have "drop ?s buf = []" using skip_space_drop [OF assms(1)] assms(2) by simp
    then have "gettoken buf ?s = (0, ?s, ?s, ?s)" by (simp add: gettoken_def Let_def char_at_drop)
    then have "parseargs buf c argc s = Parsed c ?s" using False by (subst parseargs.simps) (simp add: pk)
    then show ?thesis using s by (auto intro: readsI)
  qed
qed

lemma parseargs_word:
  assumes "s \<le> length buf" and "rest_at buf s = w @ x" and "text_word w" and "delimited x" and "Suc argc < MAXARGS"
  shows "\<exists>q e t. parseargs buf c argc s = pbind (parseredirs buf (add_arg (q, e) c) t) (\<lambda>c s. parseargs buf c (Suc argc) s) \<and>
    word_text buf (q, e) = w \<and> t \<le> length buf \<and> rest_at buf t = strip x"
proof -
  let ?s = "skip_space buf s"
  have s: "?s \<le> length buf" "rest_at buf ?s = w @ x"
    using skip_space_bounds(2) [OF assms(1)] rest_at_skip [OF assms(1)] assms(2) by auto
  have "\<not> first_in [0x7c, 0x29, 0x26, 0x3b] (w @ x)"
    using assms(3) by (cases w) (auto simp: text_word_def)
  then have pk: "peek buf s [0x7c, 0x29, 0x26, 0x3b] = (?s, False)"
    using peek_rest [OF assms(1), of "[0x7c, 0x29, 0x26, 0x3b]"] assms(2) by simp
  obtain q e t where g: "gettoken buf ?s = (0x61, q, e, t)" "word_text buf (q, e) = w" "t \<le> length buf" "rest_at buf t = strip x"
    using gettoken_text [OF s assms(3,4)] by blast
  have "parseargs buf c argc s = pbind (parseredirs buf (add_arg (q, e) c) t) (\<lambda>c s. parseargs buf c (Suc argc) s)"
    using assms(5) by (subst parseargs.simps) (simp add: pk g Let_def)
  then show ?thesis using g by blast
qed

definition words_text :: "u8 list list \<Rightarrow> u8 list" where
  "words_text ws = concat (map (Cons 0x20) ws)"

lemma words_delimited: "delimited x \<Longrightarrow> delimited (words_text ws @ x)"
  by (cases ws) (auto simp: words_text_def)

lemma words_first:
  assumes "ws \<noteq> []" and "\<forall>w\<in>set ws. text_word w" and "\<forall>c\<in>set toks. special c" and "delimited x"
  shows "\<not> first_in toks (strip (words_text ws @ x))"
proof (cases ws)
  case (Cons w us)
  then have "strip (words_text ws @ x) = w @ words_text us @ x"
    using assms word_prefix(3) [of w "words_text us @ x"] words_delimited [of x us] by (simp add: words_text_def)
  then show ?thesis using text_word_first [OF _ assms(3)] assms(2) Cons by simp
qed (use assms in simp)

lemma map_cmd_EXEC: "map_cmd g c = EXEC us \<Longrightarrow> \<exists>as. c = EXEC as \<and> map g as = us"
  by (cases c) auto

lemma parseargs_reads:
  assumes "s \<le> length buf" and "rest_at buf s = strip (words_text ws @ redirs_text rs @ x)" and "ws \<noteq> [] \<or> rs = []"
    and "\<forall>w\<in>set ws. text_word w" and rs: "\<forall>(f, m, fd)\<in>set rs. text_word f \<and> (m, fd) \<in> redir_modes" and x: "exec_end x"
    and "map_cmd (word_text buf) c = EXEC us" and "length us + length ws < MAXARGS"
  shows "reads buf (parseargs buf c (length us) s) (add_redirs rs (EXEC (us @ ws))) x"
  using assms(1-4,7,8)
proof (induction ws arbitrary: c s us)
  case Nil
  then show ?case using parseargs_end [of s buf x c "length us"] x by (simp add: words_text_def redirs_text_def add_redirs_def)
next
  case (Cons w ws)
  let ?x = "words_text ws @ redirs_text rs @ x"
  have dx: "delimited ?x" using words_delimited redirs_delimited exec_endD(1) [OF x] by blast
  have "rest_at buf s = w @ ?x" using Cons.prems(2,4) word_prefix(3) [OF _ dx, of w] by (simp add: words_text_def)
  then obtain q e t where t: "parseargs buf c (length us) s =
        pbind (parseredirs buf (add_arg (q, e) c) t) (\<lambda>c s. parseargs buf c (Suc (length us)) s)"
      "word_text buf (q, e) = w" "t \<le> length buf" "rest_at buf t = strip ?x"
    using parseargs_word [of s buf w ?x "length us" c] Cons.prems dx by auto
  have c: "map_cmd (word_text buf) (add_arg (q, e) c) = EXEC (us @ [w])"
    using map_cmd_EXEC [OF Cons.prems(5)] t(2) by auto
  show ?case
  proof (cases "ws = []")
    case True
    have "reads buf (parseredirs buf (add_arg (q, e) c) t) (add_redirs rs (EXEC (us @ [w]))) x"
      using parseredirs_reads [OF t(3) _ rs, of x "add_arg (q, e) c"] t(4) True exec_endD [OF x] c by (simp add: words_text_def)
    then show ?thesis
      unfolding t(1) True
    proof (rule reads_bind)
      fix d u assume "map_cmd (word_text buf) d = add_redirs rs (EXEC (us @ [w]))" "u \<le> length buf" "rest_at buf u = strip x"
      then show "reads buf (parseargs buf d (Suc (length us)) u) (add_redirs rs (EXEC (us @ [w]))) x"
        using parseargs_end [OF _ _ x, of u buf d "Suc (length us)"] by simp
    qed
  next
    case False
    have "\<not> first_in [0x3c, 0x3e] (strip ?x)"
      using words_first [OF False, of "[0x3c, 0x3e]" "redirs_text rs @ x"]
        Cons.prems(4) redirs_delimited exec_endD(1) [OF x] by simp
    then have "reads buf (parseredirs buf (add_arg (q, e) c) t) (EXEC (us @ [w])) ?x"
      using parseredirs_reads [OF t(3), of "[]" ?x "add_arg (q, e) c"] t(4) dx c by (simp add: redirs_text_def add_redirs_def)
    then show ?thesis
      unfolding t(1)
    proof (rule reads_bind)
      fix d u assume d: "map_cmd (word_text buf) d = EXEC (us @ [w])" "u \<le> length buf" "rest_at buf u = strip ?x"
      have "reads buf (parseargs buf d (length (us @ [w])) u) (add_redirs rs (EXEC ((us @ [w]) @ ws))) x"
        using Cons.prems False d by (intro Cons.IH) auto
      then show "reads buf (parseargs buf d (Suc (length us)) u) (add_redirs rs (EXEC (us @ w # ws))) x" by simp
    qed
  qed
qed

section \<open>Reading commands\<close>

text \<open>A command is a chain of redirections around a simple command or around something in parentheses.\<close>

fun base :: "'w cmd \<Rightarrow> 'w cmd" where
  "base (REDIR c f m fd) = base c"
| "base c = c"

fun redirs :: "'w cmd \<Rightarrow> ('w \<times> u32 \<times> int) list" where
  "redirs (REDIR c f m fd) = redirs c @ [(f, m, fd)]"
| "redirs c = []"

lemma add_redirs_base: "add_redirs (redirs c) (base c) = c"
  by (induction c) (simp_all add: add_redirs_def)

lemma print_redirs: "print_cmd 0 c = print_cmd 0 (base c) @ redirs_text (redirs c)"
  by (induction c) (simp_all add: redirs_text_def)

lemma text_redirs: "text_cmd c \<Longrightarrow> text_cmd (base c) \<and> (\<forall>(f, m, fd)\<in>set (redirs c). text_word f \<and> (m, fd) \<in> redir_modes)"
  by (induction c) (auto simp: redir_modes_def)

lemma size_base: "size (base c) \<le> size c"
  by (induction c) auto

definition pipe_end :: "u8 list \<Rightarrow> bool" where
  "pipe_end x \<longleftrightarrow> delimited x \<and> (strip x = [] \<or> first_in [0x29, 0x26, 0x3b] (strip x))"

definition line_end :: "u8 list \<Rightarrow> bool" where
  "line_end x \<longleftrightarrow> delimited x \<and> (strip x = [] \<or> first_in [0x29] (strip x))"

lemma ends [simp]:
  "exec_end (0x7c # x)" "exec_end (0x29 # x)" "pipe_end (0x29 # x)" "pipe_end (0x26 # x)" "pipe_end (0x3b # x)"
  "line_end (0x29 # x)" "line_end []"
  by (simp_all add: exec_end_def pipe_end_def line_end_def)

lemma pipe_endD: "pipe_end x \<Longrightarrow> exec_end x" "pipe_end x \<Longrightarrow> \<not> first_in [0x7c] (strip x)"
  by (auto simp: exec_end_def pipe_end_def first_in_def simp del: dropWhile_eq_Nil_conv split: list.splits)

lemma line_endD: "line_end x \<Longrightarrow> pipe_end x" "line_end x \<Longrightarrow> \<not> first_in [0x26] (strip x)"
  "line_end x \<Longrightarrow> \<not> first_in [0x3b] (strip x)"
  by (auto simp: line_end_def pipe_end_def first_in_def simp del: dropWhile_eq_Nil_conv split: list.splits)

text \<open>With calls enough, a parser reads \<open>t\<close> wherever its text at that level is followed by a proper end.\<close>

definition level_reads ::
    "u8 list \<Rightarrow> (nat \<Rightarrow> u8 list \<Rightarrow> nat \<Rightarrow> tok cmd parse) \<Rightarrow> nat \<Rightarrow> (u8 list \<Rightarrow> bool) \<Rightarrow> u8 list cmd \<Rightarrow> bool" where
  "level_reads buf P lvl fin t \<longleftrightarrow>
     (\<forall>s x. s \<le> length buf \<longrightarrow> rest_at buf s = strip (print_cmd lvl t @ x) \<longrightarrow> fin x \<longrightarrow>
        (\<exists>N. \<forall>n \<ge> N. reads buf (P n buf s) t x))"

lemma level_readsD:
  assumes "level_reads buf P lvl fin t" and "s \<le> length buf" and "rest_at buf s = strip (print_cmd lvl t @ x)" and "fin x"
  obtains N where "\<And>n. N \<le> n \<Longrightarrow> reads buf (P n buf s) t x"
  using assms unfolding level_reads_def by blast

text \<open>One bound on the calls for all positions.\<close>

lemma level_reads_uniform:
  assumes "level_reads buf P lvl fin t" and "fin x"
  obtains N where "\<And>n u. N \<le> n \<Longrightarrow> u \<le> length buf \<Longrightarrow> rest_at buf u = strip (print_cmd lvl t @ x) \<Longrightarrow> reads buf (P n buf u) t x"
proof -
  have "\<forall>u. \<exists>N. u \<le> length buf \<and> rest_at buf u = strip (print_cmd lvl t @ x) \<longrightarrow> (\<forall>n \<ge> N. reads buf (P n buf u) t x)"
    using assms unfolding level_reads_def by blast
  from choice [OF this] obtain M where M: "\<And>u. u \<le> length buf \<Longrightarrow> rest_at buf u = strip (print_cmd lvl t @ x) \<Longrightarrow>
      (\<forall>n \<ge> M u. reads buf (P n buf u) t x)" by blast
  have "M u \<le> Max (M ` {..length buf})" if "u \<le> length buf" for u using that by simp
  then show ?thesis using M that [of "Max (M ` {..length buf})"] by (meson le_trans)
qed

text \<open>A level whose function calls that of the level below first.\<close>

lemma enough_calls:
  assumes "\<And>n. N \<le> n \<Longrightarrow> reads buf (P (Suc n) buf s) t x"
  shows "\<exists>N. \<forall>n \<ge> N. reads buf (P n buf s) t x"
proof (intro exI [of _ "Suc N"] allI impI)
  fix n assume "Suc N \<le> n"
  then obtain k where "n = Suc k" "N \<le> k" by (cases n) auto
  then show "reads buf (P n buf s) t x" using assms by simp
qed

lemma redirs_first: "exec_end x \<Longrightarrow> \<not> first_in [0x28] (strip (redirs_text rs @ x))"
  using exec_endD(3) by (cases rs) (auto simp: redirs_text_def redir_op_def split: if_splits)

lemma simple_first:
  assumes "\<forall>w\<in>set ws. text_word w" and "exec_end x"
  shows "\<not> first_in [0x28] (strip (words_text ws @ redirs_text rs @ x))"
proof (cases "ws = []")
  case True
  then show ?thesis using redirs_first [OF assms(2)] by (simp add: words_text_def)
next
  case False
  then show ?thesis
    using words_first [OF False assms(1), of "[0x28]" "redirs_text rs @ x"] redirs_delimited exec_endD(1) [OF assms(2)] by simp
qed

lemma simple_body:
  assumes s: "s \<le> length buf" and r: "rest_at buf s = strip (words_text ws @ redirs_text rs @ x)" and x: "exec_end x"
    and ws: "length ws < MAXARGS" "\<forall>w\<in>set ws. text_word w"
    and rs: "\<forall>(f, m, fd)\<in>set rs. text_word f \<and> (m, fd) \<in> redir_modes"
  shows "reads buf (pbind (parseredirs buf (EXEC []) s) (\<lambda>ret s. parseargs buf ret 0 s)) (add_redirs rs (EXEC ws)) x"
proof (cases "ws = []")
  case True
  then have "reads buf (parseredirs buf (EXEC []) s) (add_redirs rs (EXEC [])) x"
    using parseredirs_reads [OF s _ rs, of x "EXEC []"] r exec_endD [OF x] by (simp add: words_text_def)
  then show ?thesis
    unfolding True
  proof (rule reads_bind)
    fix d u assume "map_cmd (word_text buf) d = add_redirs rs (EXEC [])" "u \<le> length buf" "rest_at buf u = strip x"
    then show "reads buf (parseargs buf d 0 u) (add_redirs rs (EXEC [])) x"
      using parseargs_end [OF _ _ x, of u buf d 0] by simp
  qed
next
  case False
  let ?x = "words_text ws @ redirs_text rs @ x"
  have d: "delimited (redirs_text rs @ x)" "delimited ?x"
    using words_delimited redirs_delimited exec_endD(1) [OF x] by blast+
  have "\<not> first_in [0x3c, 0x3e] (strip ?x)" using words_first [OF False ws(2), of "[0x3c, 0x3e]"] d(1) by simp
  then have "reads buf (parseredirs buf (EXEC []) s) (EXEC []) ?x"
    using parseredirs_reads [OF s, of "[]" ?x "EXEC []"] r d(2) by (simp add: redirs_text_def add_redirs_def)
  then show ?thesis
  proof (rule reads_bind)
    fix c u assume "map_cmd (word_text buf) c = EXEC []" "u \<le> length buf" "rest_at buf u = strip ?x"
    then show "reads buf (parseargs buf c 0 u) (add_redirs rs (EXEC ws)) x"
      using parseargs_reads [OF _ _ _ ws(2) rs x, of u buf c "[]"] False ws(1) by simp
  qed
qed

lemma simple_reads:
  assumes "text_cmd t" and "base t = EXEC ws"
  shows "level_reads buf parseexec 0 exec_end t"
  unfolding level_reads_def
proof (intro allI impI)
  fix s x assume s: "s \<le> length buf" and r: "rest_at buf s = strip (print_cmd 0 t @ x)" and x: "exec_end x"
  let ?s = "skip_space buf s"
  have t: "t = add_redirs (redirs t) (EXEC ws)" using add_redirs_base [of t] assms(2) by simp
  have ok: "length ws < MAXARGS" "\<forall>w\<in>set ws. text_word w"
      "\<forall>(f, m, fd)\<in>set (redirs t). text_word f \<and> (m, fd) \<in> redir_modes"
    using text_redirs [OF assms(1)] assms(2) by auto
  have r': "rest_at buf s = strip (words_text ws @ redirs_text (redirs t) @ x)"
    using r print_redirs [of t] assms(2) by (simp add: words_text_def)
  have pk: "peek buf s [0x28] = (?s, False)"
    using peek_rest [OF s, of "[0x28]"] r' simple_first [OF ok(2) x, of "redirs t"] by simp
  have "reads buf (pbind (parseredirs buf (EXEC []) ?s) (\<lambda>ret s. parseargs buf ret 0 s)) t x"
    using simple_body [OF _ _ x ok, of ?s buf] skip_space_bounds(2) [OF s] rest_at_skip [OF s] r' t by simp
  then show "\<exists>N. \<forall>n \<ge> N. reads buf (parseexec n buf s) t x"
    using pk by (intro enough_calls [of 0]) simp
qed

text \<open>A command in parentheses, with redirections.\<close>

lemma block_reads:
  assumes line: "level_reads buf parseline 3 line_end b" and rs: "\<forall>(f, m, fd)\<in>set rs. text_word f \<and> (m, fd) \<in> redir_modes"
    and s: "s \<le> length buf" and r: "rest_at buf s = 0x28 # print_cmd 3 b @ 0x29 # redirs_text rs @ x" and x: "exec_end x"
  shows "\<exists>N. \<forall>n \<ge> N. reads buf (parseexec n buf s) (add_redirs rs b) x"
proof -
  let ?y = "redirs_text rs @ x"
  let ?s = "skip_space buf s"
  have s1: "?s \<le> length buf" "rest_at buf ?s = 0x28 # print_cmd 3 b @ 0x29 # ?y"
    using skip_space_bounds(2) [OF s] rest_at_skip [OF s] r by auto
  have pk: "peek buf s [0x28] = (?s, True)" "peek buf ?s [0x28] = (?s, True)"
    using peek_rest [OF s, of "[0x28]"] peek_rest [OF s1(1), of "[0x28]"] r s1 by auto
  obtain q e t where g: "gettoken buf ?s = (0x28, q, e, t)" "t \<le> length buf" "rest_at buf t = strip (print_cmd 3 b @ 0x29 # ?y)"
    using gettoken_symbol [OF s1] by auto
  obtain N where N: "\<And>n. N \<le> n \<Longrightarrow> reads buf (parseline n buf t) b (0x29 # ?y)"
    using level_readsD [OF line g(2,3)] by auto
  have "reads buf (parseblock (Suc n) buf ?s) (add_redirs rs b) x" if "N \<le> n" for n
  proof -
    have "reads buf (pbind (parseline n buf t) (\<lambda>cmd s. case peek buf s [0x29] of (s, b) \<Rightarrow>
        if \<not> b then Syntax ''syntax - missing )''
        else case gettoken buf s of (_, _, _, s) \<Rightarrow> parseredirs buf cmd s)) (add_redirs rs b) x"
      using N [OF that]
    proof (rule reads_bind)
      fix c u assume u: "map_cmd (word_text buf) c = b" "u \<le> length buf" "rest_at buf u = strip (0x29 # ?y)"
      have u1: "skip_space buf u \<le> length buf" "rest_at buf (skip_space buf u) = 0x29 # ?y"
        using skip_space_bounds(2) [OF u(2)] rest_at_skip [OF u(2)] u(3) by auto
      obtain q e v where v: "gettoken buf (skip_space buf u) = (0x29, q, e, v)" "v \<le> length buf" "rest_at buf v = strip ?y"
        using gettoken_symbol [OF u1] by auto
      have "peek buf u [0x29] = (skip_space buf u, True)" using peek_rest [OF u(2), of "[0x29]"] u(3) by simp
      moreover have "reads buf (parseredirs buf c v) (add_redirs rs b) x"
        using parseredirs_reads [OF v(2,3) rs, of c] exec_endD [OF x] u(1) by simp
      ultimately show "reads buf (case peek buf u [0x29] of (s, b) \<Rightarrow> if \<not> b then Syntax ''syntax - missing )''
          else case gettoken buf s of (_, _, _, s) \<Rightarrow> parseredirs buf c s) (add_redirs rs b) x"
        by (simp add: v(1))
    qed
    then show ?thesis by (simp add: pk(2) g(1))
  qed
  then have "reads buf (parseexec (Suc n) buf s) (add_redirs rs b) x" if "Suc N \<le> n" for n
    using that pk(1) by (cases n) auto
  then show ?thesis by (rule enough_calls)
qed

lemma no_separator:
  assumes "s \<le> length buf" and "rest_at buf s = strip x" and "\<not> first_in toks (strip x)" and "0 \<notin> set toks"
  shows "peek buf s toks = (skip_space buf s, False)" "skip_space buf s \<le> length buf" "rest_at buf (skip_space buf s) = strip x"
  using peek_rest [OF assms(1,4)] skip_space_bounds(2) [OF assms(1)] rest_at_skip [OF assms(1)] assms(2,3) by auto

lemma separator:
  assumes "s \<le> length buf" and "rest_at buf s = strip (c # x)" and "c \<in> {0x7c, 0x28, 0x29, 0x3b, 0x26}"
  shows "\<exists>q e t. peek buf s [c] = (skip_space buf s, True) \<and> gettoken buf (skip_space buf s) = (c, q, e, t) \<and>
    t \<le> length buf \<and> rest_at buf t = strip x"
proof -
  have r: "rest_at buf s = c # x" using assms(2,3) by auto
  have s: "skip_space buf s \<le> length buf" "rest_at buf (skip_space buf s) = c # x"
    using skip_space_bounds(2) [OF assms(1)] rest_at_skip [OF assms(1)] r by auto
  then show ?thesis using gettoken_symbol [OF s] peek_rest [OF assms(1), of "[c]"] r assms(3) by auto
qed

lemma lift_pipe:
  assumes "level_reads buf parseexec 0 exec_end t" and "print_cmd 1 t = print_cmd 0 t"
  shows "level_reads buf parsepipe 1 pipe_end t"
  unfolding level_reads_def
proof (intro allI impI)
  fix s x assume s: "s \<le> length buf" and r: "rest_at buf s = strip (print_cmd 1 t @ x)" and x: "pipe_end x"
  obtain N where N: "\<And>n. N \<le> n \<Longrightarrow> reads buf (parseexec n buf s) t x"
    using level_readsD [OF assms(1) s _ pipe_endD(1) [OF x]] r assms(2) by auto
  have "reads buf (parsepipe (Suc n) buf s) t x" if "N \<le> n" for n
    unfolding parsepipe.simps using N [OF that]
  proof (rule reads_bind)
    fix c u assume u: "map_cmd (word_text buf) c = t" "u \<le> length buf" "rest_at buf u = strip x"
    note p = no_separator [OF u(2,3) pipe_endD(2) [OF x]]
    show "reads buf (case peek buf u [0x7c] of (s, b) \<Rightarrow> if b then case gettoken buf s of (_, _, _, s) \<Rightarrow>
        pbind (parsepipe n buf s) (\<lambda>rest s. Parsed (PIPE c rest) s) else Parsed c s) t x"
      using p u(1) by (auto intro: readsI)
  qed
  then show "\<exists>N. \<forall>n \<ge> N. reads buf (parsepipe n buf s) t x" by (rule enough_calls)
qed

lemma pipe_reads:
  assumes l: "level_reads buf parseexec 0 exec_end l" and r: "level_reads buf parsepipe 1 pipe_end r"
  shows "level_reads buf parsepipe 1 pipe_end (PIPE l r)"
  unfolding level_reads_def
proof (intro allI impI)
  fix s x assume s: "s \<le> length buf" and tx: "rest_at buf s = strip (print_cmd 1 (PIPE l r) @ x)" and x: "pipe_end x"
  let ?y = "print_cmd 1 r @ x"
  obtain N where N: "\<And>n. N \<le> n \<Longrightarrow> reads buf (parseexec n buf s) l (0x7c # ?y)"
    using level_readsD [OF l s, of "0x7c # ?y"] tx by (auto simp: paren_def)
  obtain M where M: "\<And>n u. M \<le> n \<Longrightarrow> u \<le> length buf \<Longrightarrow> rest_at buf u = strip ?y \<Longrightarrow> reads buf (parsepipe n buf u) r x"
    using level_reads_uniform [OF r x] by blast
  let ?N = "max N M"
  have "reads buf (parsepipe (Suc n) buf s) (PIPE l r) x" if n: "?N \<le> n" for n
    unfolding parsepipe.simps
  proof (rule reads_bind [OF N])
    show "N \<le> n" using n by simp
    fix c u assume u: "map_cmd (word_text buf) c = l" "u \<le> length buf" "rest_at buf u = strip (0x7c # ?y)"
    obtain q e t where t: "peek buf u [0x7c] = (skip_space buf u, True)" "gettoken buf (skip_space buf u) = (0x7c, q, e, t)"
        "t \<le> length buf" "rest_at buf t = strip ?y"
      using separator [OF u(2,3)] by auto
    have "reads buf (pbind (parsepipe n buf t) (\<lambda>rest s. Parsed (PIPE c rest) s)) (PIPE l r) x"
      using M [of n t] n t(3,4) u(1) by (intro reads_bind [of buf "parsepipe n buf t" r x] readsI) auto
    then show "reads buf (case peek buf u [0x7c] of (s, b) \<Rightarrow> if b then case gettoken buf s of (_, _, _, s) \<Rightarrow>
        pbind (parsepipe n buf s) (\<lambda>rest s. Parsed (PIPE c rest) s) else Parsed c s) (PIPE l r) x"
      by (simp add: t(1,2))
  qed
  then show "\<exists>N. \<forall>n \<ge> N. reads buf (parsepipe n buf s) (PIPE l r) x" by (rule enough_calls)
qed

lemma parseback_reads:
  assumes "s \<le> length buf" and "rest_at buf s = strip (replicate k 0x26 @ x)" and "\<not> first_in [0x26] (strip x)"
  shows "\<exists>d u. parseback buf c s = (d, u) \<and> map_cmd (word_text buf) d = (BACK ^^ k) (map_cmd (word_text buf) c) \<and>
    u \<le> length buf \<and> rest_at buf u = strip x"
  using assms(1,2)
proof (induction k arbitrary: c s)
  case 0
  then show ?case using no_separator [of s buf x "[0x26]"] assms(3) by (subst parseback.simps) simp
next
  case (Suc k)
  obtain q e t where t: "peek buf s [0x26] = (skip_space buf s, True)" "gettoken buf (skip_space buf s) = (0x26, q, e, t)"
      "t \<le> length buf" "rest_at buf t = strip (replicate k 0x26 @ x)"
    using separator [of s buf "0x26" "replicate k 0x26 @ x"] Suc.prems by auto
  have "parseback buf c s = parseback buf (BACK c) t" by (subst parseback.simps) (simp add: t)
  moreover obtain d u where "parseback buf (BACK c) t = (d, u)"
      "map_cmd (word_text buf) d = (BACK ^^ k) (map_cmd (word_text buf) (BACK c))" "u \<le> length buf" "rest_at buf u = strip x"
    using Suc.IH [OF t(3,4)] by blast
  ultimately show ?case by (simp add: funpow_swap1)
qed

text \<open>A pipeline with its \<open>&\<close>, alone on a line and as the head of a list.\<close>

lemma last_reads:
  assumes b: "level_reads buf parsepipe 1 pipe_end b" and p: "print_cmd 3 t = print_cmd 1 b @ replicate k 0x26"
    and t: "t = (BACK ^^ k) b"
  shows "level_reads buf parseline 3 line_end t"
  unfolding level_reads_def
proof (intro allI impI)
  fix s x assume s: "s \<le> length buf" and r: "rest_at buf s = strip (print_cmd 3 t @ x)" and x: "line_end x"
  have "pipe_end (replicate k 0x26 @ x)" using line_endD(1) [OF x] by (cases k) simp_all
  then obtain N where N: "\<And>n. N \<le> n \<Longrightarrow> reads buf (parsepipe n buf s) b (replicate k 0x26 @ x)"
    using level_readsD [OF b s, of "replicate k 0x26 @ x"] r p by auto
  have "reads buf (parseline (Suc n) buf s) t x" if "N \<le> n" for n
    unfolding parseline.simps using N [OF that]
  proof (rule reads_bind)
    fix c u assume u: "map_cmd (word_text buf) c = b" "u \<le> length buf" "rest_at buf u = strip (replicate k 0x26 @ x)"
    obtain d v where d: "parseback buf c u = (d, v)" "map_cmd (word_text buf) d = t" "v \<le> length buf" "rest_at buf v = strip x"
      using parseback_reads [OF u(2,3) line_endD(2) [OF x], of c] u(1) t by auto
    note e = no_separator [OF d(3,4) line_endD(3) [OF x]]
    show "reads buf (case parseback buf c u of (cmd, s) \<Rightarrow> case peek buf s [0x3b] of (s, b) \<Rightarrow>
        if b then case gettoken buf s of (_, _, _, s) \<Rightarrow>
          pbind (parseline n buf s) (\<lambda>rest s. Parsed (LIST cmd rest) s) else Parsed cmd s) t x"
      using d e by (auto intro: readsI)
  qed
  then show "\<exists>N. \<forall>n \<ge> N. reads buf (parseline n buf s) t x" by (rule enough_calls)
qed

lemma list_reads:
  assumes b: "level_reads buf parsepipe 1 pipe_end b" and p: "print_cmd 2 l = print_cmd 1 b @ replicate k 0x26"
    and l: "l = (BACK ^^ k) b" and r: "level_reads buf parseline 3 line_end r"
  shows "level_reads buf parseline 3 line_end (LIST l r)"
  unfolding level_reads_def
proof (intro allI impI)
  fix s x assume s: "s \<le> length buf" and tx: "rest_at buf s = strip (print_cmd 3 (LIST l r) @ x)" and x: "line_end x"
  let ?y = "print_cmd 3 r @ x"
  have "pipe_end (replicate k 0x26 @ 0x3b # ?y)" by (cases k) simp_all
  then obtain N where N: "\<And>n. N \<le> n \<Longrightarrow> reads buf (parsepipe n buf s) b (replicate k 0x26 @ 0x3b # ?y)"
    using level_readsD [OF b s, of "replicate k 0x26 @ 0x3b # ?y"] tx p by (auto simp: paren_def)
  obtain M where M: "\<And>n u. M \<le> n \<Longrightarrow> u \<le> length buf \<Longrightarrow> rest_at buf u = strip ?y \<Longrightarrow> reads buf (parseline n buf u) r x"
    using level_reads_uniform [OF r x] by blast
  have "reads buf (parseline (Suc n) buf s) (LIST l r) x" if n: "max N M \<le> n" for n
    unfolding parseline.simps
  proof (rule reads_bind [OF N])
    show "N \<le> n" using n by simp
    fix c u assume u: "map_cmd (word_text buf) c = b" "u \<le> length buf" "rest_at buf u = strip (replicate k 0x26 @ 0x3b # ?y)"
    obtain d v where d: "parseback buf c u = (d, v)" "map_cmd (word_text buf) d = l" "v \<le> length buf"
        "rest_at buf v = strip (0x3b # ?y)"
      using parseback_reads [OF u(2,3), of c] u(1) l by auto
    obtain q e w where w: "peek buf v [0x3b] = (skip_space buf v, True)" "gettoken buf (skip_space buf v) = (0x3b, q, e, w)"
        "w \<le> length buf" "rest_at buf w = strip ?y"
      using separator [OF d(3,4)] by auto
    have "reads buf (pbind (parseline n buf w) (\<lambda>rest s. Parsed (LIST d rest) s)) (LIST l r) x"
      using M [of n w] n w(3,4) d(2) by (intro reads_bind [of buf "parseline n buf w" r x] readsI) auto
    then show "reads buf (case parseback buf c u of (cmd, s) \<Rightarrow> case peek buf s [0x3b] of (s, b) \<Rightarrow>
        if b then case gettoken buf s of (_, _, _, s) \<Rightarrow>
          pbind (parseline n buf s) (\<lambda>rest s. Parsed (LIST cmd rest) s) else Parsed cmd s) (LIST l r) x"
      by (simp add: d(1) w(1,2))
  qed
  then show "\<exists>N. \<forall>n \<ge> N. reads buf (parseline n buf s) (LIST l r) x" by (rule enough_calls)
qed

section \<open>Every command is read back\<close>

fun backs :: "'w cmd \<Rightarrow> nat" where
  "backs (BACK c) = Suc (backs c)"
| "backs c = 0"

fun front :: "'w cmd \<Rightarrow> 'w cmd" where
  "front (BACK c) = front c"
| "front c = c"

lemma front_backs: "(BACK ^^ backs t) (front t) = t"
  by (induction t) auto

lemma front_text: "text_cmd t \<Longrightarrow> text_cmd (front t)" "size (front t) \<le> size t"
  by (induction t) auto

lemma print_front: "print_cmd 2 t = print_cmd 1 (front t) @ replicate (backs t) 0x26"
proof (induction t)
  case (BACK c)
  then show ?case by (simp add: paren_def replicate_append_same)
qed (simp_all add: paren_def)

fun compound :: "'w cmd \<Rightarrow> bool" where
  "compound (EXEC as) = False"
| "compound (REDIR c f m fd) = False"
| "compound c = True"

lemma compound_print: "compound t \<Longrightarrow> print_cmd 0 t = 0x28 # print_cmd 3 t @ [0x29]"
  by (cases t) (simp_all add: paren_def)

lemma base_cases: "(\<exists>ws. base t = EXEC ws) \<or> compound (base t)"
  by (induction t) auto

lemma compound_reads:
  assumes "text_cmd t" and "compound (base t)" and "level_reads buf parseline 3 line_end (base t)"
  shows "level_reads buf parseexec 0 exec_end t"
  unfolding level_reads_def
proof (intro allI impI)
  fix s x assume s: "s \<le> length buf" and r: "rest_at buf s = strip (print_cmd 0 t @ x)" and x: "exec_end x"
  have "rest_at buf s = 0x28 # print_cmd 3 (base t) @ 0x29 # redirs_text (redirs t) @ x"
    using r print_redirs [of t] compound_print [OF assms(2)] by simp
  then show "\<exists>N. \<forall>n \<ge> N. reads buf (parseexec n buf s) t x"
    using block_reads [OF assms(3) _ s _ x, of "redirs t"] text_redirs [OF assms(1)] add_redirs_base [of t] by simp
qed

lemma all_levels:
  "text_cmd t \<Longrightarrow> level_reads buf parseexec 0 exec_end t \<and> level_reads buf parsepipe 1 pipe_end t \<and>
     level_reads buf parseline 3 line_end t"
proof (induction t rule: measure_induct_rule [of size])
  case (less t)
  show ?case
  proof (cases t)
    case (EXEC ws)
    have "level_reads buf parseexec 0 exec_end t" using simple_reads less.prems EXEC by simp
    moreover from this have "level_reads buf parsepipe 1 pipe_end t" using EXEC by (intro lift_pipe) simp_all
    moreover from this have "level_reads buf parseline 3 line_end t" using EXEC by (intro last_reads [where k = 0]) simp_all
    ultimately show ?thesis by simp
  next
    case (REDIR c f m fd)
    have "level_reads buf parseline 3 line_end (base t)" if "compound (base t)"
      using less.IH [of "base t"] size_base [of c] text_redirs [OF less.prems] REDIR by simp
    then have "level_reads buf parseexec 0 exec_end t"
      using base_cases [of t] simple_reads compound_reads less.prems by blast
    moreover from this have "level_reads buf parsepipe 1 pipe_end t" using REDIR by (intro lift_pipe) simp_all
    moreover from this have "level_reads buf parseline 3 line_end t" using REDIR by (intro last_reads [where k = 0]) simp_all
    ultimately show ?thesis by simp
  next
    case (PIPE l r)
    have "level_reads buf parseexec 0 exec_end l" "level_reads buf parsepipe 1 pipe_end r" using less PIPE by simp_all
    then have p: "level_reads buf parsepipe 1 pipe_end t" unfolding PIPE by (rule pipe_reads)
    then have l: "level_reads buf parseline 3 line_end t" using PIPE by (intro last_reads [where k = 0]) (simp_all add: paren_def)
    then have "level_reads buf parseexec 0 exec_end t" using PIPE less.prems by (intro compound_reads) simp_all
    with p l show ?thesis by simp
  next
    case (LIST l r)
    have "level_reads buf parsepipe 1 pipe_end (front l)" "level_reads buf parseline 3 line_end r"
      using less LIST front_text [of l] by simp_all
    then have l: "level_reads buf parseline 3 line_end t"
      unfolding LIST by (intro list_reads [OF _ print_front front_backs [symmetric]])
    then have e: "level_reads buf parseexec 0 exec_end t" using LIST less.prems by (intro compound_reads) simp_all
    then have "level_reads buf parsepipe 1 pipe_end t" using LIST by (intro lift_pipe) (simp_all add: paren_def)
    with e l show ?thesis by simp
  next
    case (BACK c)
    have "level_reads buf parsepipe 1 pipe_end (front t)"
      using less.IH [of "front t"] less.prems BACK front_text [of c] by simp
    moreover have "print_cmd 3 t = print_cmd 1 (front t) @ replicate (backs t) 0x26"
      using print_front [of t] BACK by (simp add: paren_def)
    ultimately have l: "level_reads buf parseline 3 line_end t" by (rule last_reads) (simp add: front_backs)
    then have e: "level_reads buf parseexec 0 exec_end t" using BACK less.prems by (intro compound_reads) simp_all
    then have "level_reads buf parsepipe 1 pipe_end t" using BACK by (intro lift_pipe) (simp_all add: paren_def)
    with e l show ?thesis by simp
  qed
qed

lemma print_nonzero: "text_cmd t \<Longrightarrow> 0 \<notin> set (print_cmd lvl t)"
proof (induction t arbitrary: lvl)
  case (REDIR c f m fd)
  then show ?case by (auto simp: redir_op_def text_word_def)
qed (auto simp: paren_def text_word_def)

lemma parsecmd_printed:
  assumes "text_cmd t"
  shows "\<exists>c b s. parsecmd (print_cmd 3 t) = Parsed (c, b) s \<and> wf_cmd (print_cmd 3 t) c \<and>
    map_cmd (\<lambda>(q, e). line_str b q) c = t"
proof -
  let ?buf = "print_cmd 3 t"
  let ?n = "4 * length ?buf + 4"
  have r: "rest_at ?buf 0 = strip (print_cmd 3 t @ [])" by (simp add: rest_at_def)
  obtain N where N: "\<And>n. N \<le> n \<Longrightarrow> reads ?buf (parseline n ?buf 0) t []"
    using level_readsD [of ?buf parseline 3 line_end t 0 "[]"] all_levels [OF assms] r by auto
  have ok: "parse_ok ?buf 0 (parseline ?n ?buf 0)" by (intro parse_calls(1)) (simp_all add: here_def)
  then have "parseline (max N ?n) ?buf 0 = parseline ?n ?buf 0" by (intro more_calls_le) auto
  then obtain c s where c: "parseline ?n ?buf 0 = Parsed c s" "map_cmd (word_text ?buf) c = t" "s \<le> length ?buf" "rest_at ?buf s = []"
    using N [of "max N ?n"] by (auto simp: reads_def)
  have "drop (skip_space ?buf s) ?buf = []" using skip_space_drop [OF c(3)] c(4) by simp
  then have "skip_space ?buf s = length ?buf" using skip_space_bounds(2) [OF c(3)] by simp
  then have p: "parsecmd ?buf = Parsed (c, nulterminate c ?buf) (length ?buf)"
    using c(1) by (simp add: parsecmd_def peek_def Let_def)
  have wf: "wf_cmd ?buf c" using ok c(1) by simp
  have "line_str (nulterminate c ?buf) q = word_text ?buf (q, e)" if "(q, e) \<in> set_cmd c" for q e
    using line_str_word [OF nulterminate_cuts [OF wf refl] that] wf_words [OF wf that] print_nonzero [OF assms] by blast
  then have "map_cmd (\<lambda>(q, e). line_str (nulterminate c ?buf) q) c = map_cmd (word_text ?buf) c"
    by (intro cmd.map_cong refl) auto
  then show ?thesis using p wf c(2) by auto
qed


text \<open>
  C20: The shell reads back what is printed in its syntax. For every command built from simple commands of
  at most nine words, redirections, pipes, lists and background jobs, nested in any way, \<open>parsecmd\<close> of its
  text, with parentheses where the grammar needs them, returns that command: the strings its pointers
  point to in the line after \<open>nulterminate\<close> are the words of the command.
\<close>

theorem parse_print_roundtrip:
  assumes "text_cmd t"
  shows "\<exists>c b s. parsecmd (print_cmd 3 t) = Parsed (c, b) s \<and> map_cmd (\<lambda>(q, e). line_str b q) c = t"
  using parsecmd_printed [OF assms] by blast

theorem parse_print_roundtrip_witness:
  "\<exists>c b s. parsecmd (ascii ''( a; b&) >c| d'') = Parsed (c, b) s \<and>
     map_cmd (\<lambda>(q, e). line_str b q) c =
       PIPE (REDIR (LIST (EXEC [ascii ''a'']) (BACK (EXEC [ascii ''b'']))) (ascii ''c'') (O_WRONLY OR O_CREATE OR O_TRUNC) 1)
         (EXEC [ascii ''d''])"
proof -
  let ?t = "PIPE (REDIR (LIST (EXEC [ascii ''a'']) (BACK (EXEC [ascii ''b'']))) (ascii ''c'') (O_WRONLY OR O_CREATE OR O_TRUNC) 1)
         (EXEC [ascii ''d''])"
  have "text_cmd ?t" by (simp add: text_word_def ascii_def special_def whitespace_def symbols_def MAXARGS_def)
  moreover have "print_cmd 3 ?t = ascii ''( a; b&) >c| d''"
    by (simp add: ascii_def paren_def redir_op_def O_WRONLY_def O_CREATE_def O_TRUNC_def)
  ultimately show ?thesis using parse_print_roundtrip [of ?t] by simp
qed

end
