(* ===== verification/Shrun.thy ===== *)
theory Shrun
  imports Shprint
begin

text \<open>
  Running a command: which programs a line starts, and what their standard input and output are. The
  system calls are answered as the kernel answers them when nothing fails: \<open>open\<close>, \<open>dup\<close> and \<open>pipe\<close> take
  the lowest free descriptors (as \<open>fdalloc\<close> does), \<open>fork\<close> copies the descriptors, \<open>exec\<close> keeps them.
\<close>

section \<open>Descriptors\<close>

datatype endpoint = Tty | OpenFile "u8 list" u32 | PipeR nat | PipeW nat

type_synonym fd_table = "nat \<Rightarrow> endpoint option"

definition free_fd :: "fd_table \<Rightarrow> nat option" where
  "free_fd t = find (\<lambda>fd. t fd = None) [0..<NOFILE]"

text \<open>
  All the programs that a process and its children start, with their descriptors; pipes are numbered in
  the order in which they are made. A child is followed before its parent goes on.
\<close>

primrec launches :: "int \<Rightarrow> uprog \<Rightarrow> fd_table \<Rightarrow> nat \<Rightarrow> (u8 list list \<times> fd_table) list \<times> nat" where
  "launches pid (Halt n) = (\<lambda>t p. ([], p))"
| "launches pid (Call c k) = (\<lambda>t p.
     case c of
       UExec argv \<Rightarrow> ([(argv, t)], p)
     | UClose fd \<Rightarrow> launches pid (k 0) (t(nat fd := None)) p
     | UOpen f m \<Rightarrow>
         (case free_fd t of
            None \<Rightarrow> launches pid (k (-1)) t p
          | Some fd \<Rightarrow> launches pid (k (int fd)) (t(fd := Some (OpenFile f m))) p)
     | UFork \<Rightarrow>
         (case launches pid (k 0) t p of (xs, p) \<Rightarrow>
          case launches pid (k pid) t p of (ys, p) \<Rightarrow> (xs @ ys, p))
     | UWait \<Rightarrow> launches pid (k pid) t p
     | UDup fd \<Rightarrow>
         (case free_fd t of
            None \<Rightarrow> launches pid (k (-1)) t p
          | Some n \<Rightarrow> launches pid (k (int n)) (t(n := t (nat fd))) p)
     | UChdir d \<Rightarrow> launches pid (k 0) t p
     | UWrite fd cs \<Rightarrow> launches pid (k (int (length cs))) t p
     | UGetpid \<Rightarrow> launches pid (k pid) t p
     | _ \<Rightarrow> launches pid (k 0) t p)"
| "launches pid (CallPipe k) = (\<lambda>t p.
     case free_fd t of
       None \<Rightarrow> launches pid (k (-1) 0 0) t p
     | Some r \<Rightarrow>
         (case free_fd (t(r := Some (PipeR p))) of
            None \<Rightarrow> launches pid (k (-1) 0 0) t p
          | Some w \<Rightarrow> launches pid (k 0 (int r) (int w)) (t(r := Some (PipeR p), w := Some (PipeW p))) (Suc p)))"
| "launches pid (CallRead fd n k) = (\<lambda>t p. launches pid (k 0 []) t p)"

section \<open>What a command means\<close>

text \<open>
  The programs of a command with their standard input and output. Where a simple command has several
  redirections of one descriptor, the first one is the one that counts, since it is opened last.
\<close>

fun jobs :: "'w cmd \<Rightarrow> ('w \<Rightarrow> u8 list) \<Rightarrow> endpoint \<Rightarrow> endpoint \<Rightarrow> nat \<Rightarrow> (u8 list list \<times> endpoint \<times> endpoint) list \<times> nat" where
  "jobs (EXEC ws) g i out p = (if ws = [] then [] else [(map g ws, i, out)], p)"
| "jobs (REDIR c f m fd) g i out p =
     (if fd = 0 then jobs c g (OpenFile (g f) m) out p else jobs c g i (OpenFile (g f) m) p)"
| "jobs (PIPE l r) g i out p =
     (case jobs l g i (PipeW p) (Suc p) of (xs, q) \<Rightarrow>
      case jobs r g (PipeR p) out q of (ys, q) \<Rightarrow> (xs @ ys, q))"
| "jobs (LIST l r) g i out p =
     (case jobs l g i out p of (xs, q) \<Rightarrow>
      case jobs r g i out q of (ys, q) \<Rightarrow> (xs @ ys, q))"
| "jobs (BACK c) g i out p = jobs c g i out p"

text \<open>Standard input, output and error, and nothing else.\<close>

definition std :: "endpoint \<Rightarrow> endpoint \<Rightarrow> fd_table" where
  "std i out = (\<lambda>_. None)(0 := Some i, 1 := Some out, 2 := Some Tty)"

definition started :: "(u8 list list \<times> endpoint \<times> endpoint) list \<times> nat \<Rightarrow> (u8 list list \<times> fd_table) list \<times> nat" where
  "started = (\<lambda>(js, p). (map (\<lambda>(argv, i, out). (argv, std i out)) js, p))"

lemma free_fd_std [simp]:
  "free_fd (std i out) = Some 3" "free_fd ((std i out)(3 := Some e)) = Some 4"
  "free_fd ((std i out)(0 := None)) = Some 0" "free_fd ((std i out)(Suc 0 := None)) = Some 1"
  "free_fd ((std i out)(3 := Some e, 4 := Some e', 0 := None)) = Some 0"
  "free_fd ((std i out)(3 := Some e, 4 := Some e', Suc 0 := None)) = Some 1"
  by (simp_all add: free_fd_def std_def NOFILE_def upt_rec)

lemma std_upd [simp]:
  "(std i out)(0 := Some e) = std e out" "(std i out)(Suc 0 := Some e) = std i e"
  "(std i out)(3 := None, 4 := None) = std i out"
  by (rule ext, simp add: std_def)+

lemma launches_fork1 [simp]:
  "0 < pid \<Longrightarrow> launches pid (fork1 k) t p =
    (case launches pid (k 0) t p of (xs, p) \<Rightarrow> case launches pid (k pid) t p of (ys, p) \<Rightarrow> (xs @ ys, p))"
  by (simp add: fork1_def)

fun std_redirs :: "'w cmd \<Rightarrow> bool" where
  "std_redirs (EXEC as) \<longleftrightarrow> True"
| "std_redirs (REDIR c f m fd) \<longleftrightarrow> std_redirs c \<and> fd \<in> {0, 1}"
| "std_redirs (PIPE l r) \<longleftrightarrow> std_redirs l \<and> std_redirs r"
| "std_redirs (LIST l r) \<longleftrightarrow> std_redirs l \<and> std_redirs r"
| "std_redirs (BACK c) \<longleftrightarrow> std_redirs c"

lemma started_append:
  "started (case a of (xs, q) \<Rightarrow> case f q of (ys, q) \<Rightarrow> (xs @ ys, q)) =
   (case started a of (xs, q) \<Rightarrow> case started (f q) of (ys, q) \<Rightarrow> (xs @ ys, q))"
  by (simp add: started_def split: prod.split)

lemma runcmd_launches:
  assumes "0 < pid" and "std_redirs c"
  shows "launches pid (runcmd buf c) (std i out) p = started (jobs c (\<lambda>a. line_str buf (fst a)) i out p)"
  using assms(2)
proof (induction c arbitrary: i out p)
  case (EXEC as)
  then show ?case by (cases as) (simp_all add: started_def)
next
  case (REDIR c f m fd)
  then show ?case by auto
next
  case (PIPE l r)
  then show ?case using assms(1) by (simp add: started_append)
next
  case (LIST l r)
  then show ?case using assms(1) by (simp add: started_append)
next
  case (BACK c)
  then show ?case using assms(1) by (simp split: prod.split)
qed

lemma jobs_map: "jobs (map_cmd h c) g i out p = jobs c (g \<circ> h) i out p"
  by (induction c arbitrary: i out p) (auto simp: comp_def)

lemma wf_std_redirs: "wf_cmd buf c \<Longrightarrow> std_redirs c"
  by (induction c) (auto simp: redir_sign_def)



end
