(* ===== verification/Utils.thy ===== *)
theory Utils
  imports Ulib "HOL-Library.Signed_Division"
begin

text \<open>
  Small user programs: \<open>wc\<close>, \<open>cat\<close>, \<open>echo\<close>, \<open>ls\<close>, and the programs of the first lab, \<open>primes\<close> and
  \<open>find\<close>. What \<open>read\<close> returns is a list of chunks, and the result that ended the loop; the contents of a
  pipe are the list of what is written to it before its last writer closes it.
\<close>

section \<open>wc\<close>

definition wc_space :: "u8 list" where
  "wc_space = [0x20, 0x0d, 0x09, 0x0a, 0x0b]"

text \<open>One character: lines, words, characters and \<open>inword\<close>.\<close>

fun wc_char :: "u8 \<Rightarrow> u32 \<times> u32 \<times> u32 \<times> bool \<Rightarrow> u32 \<times> u32 \<times> u32 \<times> bool" where
  "wc_char b (l, w, c, inword) =
     (let c = c + 1; l = (if b = 10 then l + 1 else l) in
      if b \<in> set wc_space then (l, w, c, False)
      else if \<not> inword then (l, w + 1, c, True)
      else (l, w, c, inword))"

text \<open>The two loops, and what is printed: the error message, or the counts.\<close>

definition wc_count :: "u8 list list \<Rightarrow> u32 \<times> u32 \<times> u32 \<times> bool" where
  "wc_count chunks = fold (\<lambda>buf st. fold wc_char buf st) chunks (0, 0, 0, False)"

definition wc :: "u8 list list \<Rightarrow> int \<Rightarrow> u8 list \<Rightarrow> u8 list option" where
  "wc chunks n name =
     (if n < 0 then vprintf False (ascii ''wc: read error'' @ [10]) []
      else case wc_count chunks of (l, w, c, _) \<Rightarrow>
        vprintf False (ascii ''%d %d %d %s'' @ [10]) [UInt l, UInt w, UInt c, UStr (Some name)])"

text \<open>The words of a text: the runs of characters between white space.\<close>

fun words_of :: "u8 list \<Rightarrow> bool \<Rightarrow> nat" where
  "words_of [] inword = 0"
| "words_of (b # bs) inword =
     (if b \<in> set wc_space then words_of bs False else (if inword then 0 else 1) + words_of bs True)"

lemma wc_chars:
  "fold wc_char bs (l, w, c, i) =
     (l + of_nat (count_list bs 10), w + of_nat (words_of bs i), c + of_nat (length bs), if bs = [] then i else last bs \<notin> set wc_space)"
proof (induction bs arbitrary: l w c i)
  case (Cons b bs)
  then show ?case by (cases "bs = []") (auto simp: Let_def algebra_simps wc_space_def)
qed simp

lemma wc_counts:
  "wc_count chunks = (of_nat (count_list (concat chunks) 10), of_nat (words_of (concat chunks) False),
     of_nat (length (concat chunks)), concat chunks \<noteq> [] \<and> last (concat chunks) \<notin> set wc_space)"
proof -
  have "fold (\<lambda>buf st. fold wc_char buf st) chunks st = fold wc_char (concat chunks) st" for st
    by (induction chunks arbitrary: st) auto
  then show ?thesis by (simp add: wc_count_def wc_chars)
qed

section \<open>cat and echo\<close>

text \<open>Each chunk with the result of writing it; the bytes handed to \<open>write\<close>, and the message of a failure.\<close>

fun cat :: "(u8 list \<times> int) list \<Rightarrow> int \<Rightarrow> u8 list list \<times> string option" where
  "cat [] n = ([], if n < 0 then Some ''cat: read error'' else None)"
| "cat ((buf, r) # chunks) n =
     (if r \<noteq> int (length buf) then ([buf], Some ''cat: write error'')
      else case cat chunks n of (out, e) \<Rightarrow> (buf # out, e))"

lemma cat_copies: "\<forall>(buf, r)\<in>set chunks. r = int (length buf) \<Longrightarrow> cat chunks 0 = (map fst chunks, None)"
  by (induction chunks) auto

fun echo :: "u8 list list \<Rightarrow> u8 list" where
  "echo [] = []"
| "echo [a] = a @ [10]"
| "echo (a # b # args) = a @ 0x20 # echo (b # args)"

section \<open>primes\<close>

text \<open>
  A stage of the pipeline: the first number of its pipe is printed, and the ones it does not divide go to
  the next stage. A stage whose pipe is empty returns. A stage writes all the numbers before another
  process reads the pipe, so that a pipe without room for them blocks the stage for ever, which is \<open>None\<close>;
  \<open>fork\<close> and \<open>pipe\<close> are taken to succeed.
\<close>

definition pipe_ints :: nat where
  "pipe_ints = 512 div 4"

definition prime_line :: "int \<Rightarrow> u8 list option" where
  "prime_line cur = vprintf False (ascii ''prime %d'' @ [10]) [UInt (of_int cur)]"

function readleft :: "int list \<Rightarrow> u8 list option list option" where
  "readleft [] = Some []"
| "readleft (cur # rest) =
     (let out = filter (\<lambda>tmp. tmp smod cur \<noteq> 0) rest in
      if length out > pipe_ints then None else map_option (Cons (prime_line cur)) (readleft out))"
  by pat_completeness auto
termination
  by (relation "measure length") (auto simp: le_imp_less_Suc)

definition primes_upto :: "int \<Rightarrow> u8 list option list option" where
  "primes_upto n = (if length [2..n] > pipe_ints then None else readleft [2..n])"

definition primes_main :: "u8 list option list option" where
  "primes_main = primes_upto 35"

definition prime_number :: "int \<Rightarrow> bool" where
  "prime_number n \<longleftrightarrow> 2 \<le> n \<and> (\<forall>d. 2 \<le> d \<and> d < n \<longrightarrow> \<not> d dvd n)"

text \<open>The pipe of a stage: the numbers up to \<open>n\<close>, from \<open>m\<close> on, that no number below \<open>m\<close> divides.\<close>

definition sieved :: "int \<Rightarrow> int \<Rightarrow> int list" where
  "sieved m n = filter (\<lambda>k. \<forall>d. 2 \<le> d \<and> d < m \<longrightarrow> \<not> d dvd k) [m..n]"

lemma below_Suc: "(\<forall>d. 2 \<le> d \<and> d < m + 1 \<longrightarrow> P d) \<longleftrightarrow> (\<forall>d. 2 \<le> d \<and> d < m \<longrightarrow> P d) \<and> (2 \<le> m \<longrightarrow> P m)" for m :: int
  by (auto simp: zless_add1_eq le_less)

lemma smod_positive: "0 \<le> a \<Longrightarrow> 0 < b \<Longrightarrow> a smod b = a mod b" for a b :: int
  by (cases "a = 0") (simp_all add: signed_modulo_int_def)

lemma sieved_prime:
  assumes "prime_number m" and "m \<le> n"
  shows "\<exists>rest. sieved m n = m # rest \<and> filter (\<lambda>k. k smod m \<noteq> 0) rest = sieved (m + 1) n"
proof -
  have "[m..n] = m # [m + 1..n]" using assms(2) by (simp add: upto_rec1)
  moreover have "2 \<le> m" "\<forall>d. 2 \<le> d \<and> d < m \<longrightarrow> \<not> d dvd m" using assms(1) by (auto simp: prime_number_def)
  ultimately show ?thesis
    unfolding sieved_def below_Suc by (auto simp: smod_positive mod_eq_0_iff_dvd intro: filter_cong)
qed

lemma sieved_composite:
  assumes "\<not> prime_number m" and "2 \<le> m"
  shows "sieved m n = sieved (m + 1) n"
proof -
  obtain d where d: "2 \<le> d" "d < m" "d dvd m" using assms by (auto simp: prime_number_def)
  have "(\<forall>d. 2 \<le> d \<and> d < m \<longrightarrow> \<not> d dvd k) \<Longrightarrow> \<not> m dvd k" for k using d dvd_trans by blast
  then have "sieved (m + 1) n = filter (\<lambda>k. \<forall>d. 2 \<le> d \<and> d < m \<longrightarrow> \<not> d dvd k) [m + 1..n]"
    unfolding sieved_def below_Suc by (intro filter_cong) auto
  then show ?thesis using d by (cases "m \<le> n") (auto simp: sieved_def upto_rec1 [of m n])
qed

lemma sieved_short: "length (sieved m n) \<le> nat (n + 1 - m)"
  unfolding sieved_def by (rule order_trans [OF length_filter_le]) simp

lemma readleft_sieved:
  "2 \<le> m \<Longrightarrow> n \<le> m + 127 \<Longrightarrow> readleft (sieved m n) = Some (map prime_line (filter prime_number [m..n]))"
proof (induction "nat (n + 1 - m)" arbitrary: m)
  case 0
  then show ?case by (simp add: sieved_def)
next
  case (Suc x)
  then have IH: "readleft (sieved (m + 1) n) = Some (map prime_line (filter prime_number [m + 1..n]))" and le: "m \<le> n"
    by auto
  show ?case
  proof (cases "prime_number m")
    case True
    have "\<not> length (sieved (m + 1) n) > pipe_ints"
      using sieved_short [of "m + 1" n] Suc.prems by (simp add: pipe_ints_def)
    then show ?thesis using True sieved_prime [OF True le] IH le by (auto simp: upto_rec1 [of m n])
  next
    case False
    then show ?thesis using sieved_composite [OF False Suc.prems(1)] IH le by (simp add: upto_rec1 [of m n])
  qed
qed

text \<open>
  C25: The pipeline of \<open>primes\<close> is the sieve of Eratosthenes. \<open>main\<close> prints a line for every prime from 2 to
  35, in order, and nothing else; with another bound \<open>n\<close> in its loop it would do the same up to 129, the last
  number that fits the first pipe, and block in \<open>write\<close> beyond that.
\<close>

theorem primes_prints_primes:
  "primes_main = Some (map prime_line (filter prime_number [2..35])) \<and>
   primes_upto n = (if n \<le> 129 then Some (map prime_line (filter prime_number [2..n])) else None)"
proof -
  have "sieved 2 n = [2..n]" for n unfolding sieved_def by (rule filter_True) auto
  then have "primes_upto n = (if n \<le> 129 then Some (map prime_line (filter prime_number [2..n])) else None)" for n
    using readleft_sieved [of 2 n] by (auto simp: primes_upto_def pipe_ints_def)
  then show ?thesis by (simp add: primes_main_def)
qed

section \<open>Names in paths\<close>

text \<open>The part of a path after its last slash, which \<open>find\<close> and \<open>ls\<close> look for from the end.\<close>

definition base_name :: "u8 list \<Rightarrow> u8 list" where
  "base_name path = rev (takeWhile (\<lambda>c. c \<noteq> 0x2f) (rev path))"

definition fmtname :: "u8 list \<Rightarrow> u8 list" where
  "fmtname path =
     (let p = base_name path in if length p \<ge> 14 then p else p @ replicate (14 - length p) 0x20)"

text \<open>The name of a directory entry after it has been copied to \<open>p\<close> and terminated.\<close>

definition de_name :: "u8 list \<Rightarrow> u8 list" where
  "de_name name = takeWhile (\<lambda>c. c \<noteq> 0) (take 14 name)"

section \<open>find and ls\<close>

text \<open>
  What \<open>open\<close>, \<open>fstat\<close> and \<open>read\<close> show of a file: a file, a device, a directory with its entries (the inode
  number, the name field, and the file it names), or an error. A file comes with the inode number and the
  size that \<open>fstat\<close> reports.
\<close>

datatype fnode =
    FFile u32 u64 | FDev u32 u64 | FDir u32 u64 "(u16 \<times> u8 list \<times> fnode) list" | FErr

fun is_file :: "fnode \<Rightarrow> bool" where
  "is_file (FFile ino sz) \<longleftrightarrow> True"
| "is_file f \<longleftrightarrow> False"

definition path_room :: "u8 list \<Rightarrow> bool" where
  "path_room path \<longleftrightarrow> length path + 1 + 14 + 1 \<le> 512"

text \<open>\<open>ls\<close>: the lines on the standard output, without the newline; \<open>st_line\<close> is the output of a \<open>printf\<close>.\<close>

fun st_line :: "u8 list \<Rightarrow> bool \<Rightarrow> fnode \<Rightarrow> u8 list option" where
  "st_line path single (FFile ino sz) =
     vprintf False (ascii ''%s %d %d '' @ ascii (if single then ''%l'' else ''%d''))
       [UStr (Some (fmtname path)), UInt 2, UInt ino, if single then ULong sz else UInt (ucast sz)]"
| "st_line path single (FDev ino sz) =
     vprintf False (ascii ''%s %d %d '' @ ascii (if single then ''%l'' else ''%d''))
       [UStr (Some (fmtname path)), UInt 3, UInt ino, if single then ULong sz else UInt (ucast sz)]"
| "st_line path single (FDir ino sz es) =
     vprintf False (ascii ''%s %d %d %d'') [UStr (Some (fmtname path)), UInt 1, UInt ino, UInt (ucast sz)]"
| "st_line path single FErr = vprintf False (ascii ''ls: cannot stat %s'') [UStr (Some path)]"

fun ls :: "u8 list \<Rightarrow> fnode \<Rightarrow> u8 list option list" where
  "ls path FErr = []"
| "ls path (FDir ino sz es) =
     (if \<not> path_room path then [Some (ascii ''ls: path too long'')]
      else concat (map (\<lambda>(inum, name, child).
        if inum = 0 then [] else [st_line (path @ 0x2f # de_name name) False child]) es))"
| "ls path f = [st_line path True f]"

text \<open>\<open>find\<close>: the lines on the standard output, without the newline.\<close>

fun find_u :: "u8 list \<Rightarrow> u8 list \<Rightarrow> fnode \<Rightarrow> u8 list list" where
  "find_u target path FErr = []"
| "find_u target path (FDev ino sz) = []"
| "find_u target path (FFile ino sz) = (if base_name path = target then [path] else [])"
| "find_u target path (FDir ino sz es) =
     (if \<not> path_room path then [ascii ''find: path too long'']
      else concat (map (\<lambda>(inum, name, child).
        let p = de_name name; buf = path @ 0x2f # p in
        if inum = 0 \<or> p = [0x2e] \<or> p = [0x2e, 0x2e] then []
        else if child = FErr then [ascii ''find: cannot stat '' @ buf]
        else (if p = target then [buf] else []) @ find_u target buf child) es))"

text \<open>The entries below a directory that have the name, with what they are, in the order of the traversal.\<close>

fun hits :: "u8 list \<Rightarrow> u8 list \<Rightarrow> fnode \<Rightarrow> (u8 list \<times> fnode) list" where
  "hits target path (FDir ino sz es) =
     concat (map (\<lambda>(inum, name, child).
       let p = de_name name; buf = path @ 0x2f # p in
       if inum = 0 \<or> p = [0x2e] \<or> p = [0x2e, 0x2e] then []
       else (if p = target then [(buf, child)] else []) @ hits target buf child) es)"
| "hits target path f = []"

text \<open>A tree whose names have no slash, whose files can all be opened, and whose paths fit the buffer.\<close>

fun tree_ok :: "u8 list \<Rightarrow> fnode \<Rightarrow> bool" where
  "tree_ok path (FDir ino sz es) \<longleftrightarrow> path_room path \<and>
     (\<forall>(inum, name, child)\<in>set es. 0x2f \<notin> set (de_name name) \<and>
        (inum = 0 \<or> de_name name = [0x2e] \<or> de_name name = [0x2e, 0x2e] \<or>
         child \<noteq> FErr \<and> tree_ok (path @ 0x2f # de_name name) child))"
| "tree_ok path f \<longleftrightarrow> True"

lemma base_name_last: "0x2f \<notin> set name \<Longrightarrow> base_name (path @ 0x2f # name) = name"
proof -
  assume "0x2f \<notin> set name"
  then have "takeWhile (\<lambda>c. c \<noteq> 0x2f) (rev name @ 0x2f # rev path) = rev name" by (subst takeWhile_append2) auto
  then show ?thesis by (simp add: base_name_def)
qed

lemma fmtname_width:
  "0x2f \<notin> set (de_name name) \<Longrightarrow> fmtname (path @ 0x2f # de_name name) = de_name name @ replicate (14 - length (de_name name)) 0x20"
  using length_takeWhile_le [of "\<lambda>c. c \<noteq> 0" "take 14 name"] by (simp add: fmtname_def Let_def base_name_last)

definition find_lines :: "u8 list \<times> fnode \<Rightarrow> u8 list list" where
  "find_lines = (\<lambda>(path, f). if is_file f then [path, path] else [path])"

lemma concat_map_concat: "concat (map f (concat (map g xs))) = concat (map (\<lambda>x. concat (map f (g x))) xs)"
  by (induction xs) auto

lemma find_hits:
  assumes "tree_ok path f"
  shows "find_u target path f =
    (if is_file f then if base_name path = target then [path] else [] else concat (map find_lines (hits target path f)))"
  using assms
proof (induction target path f rule: find_u.induct)
  case (4 target path ino sz es)
  have room: "path_room path" using 4(2) by simp
  have "(let p = de_name name; buf = path @ 0x2f # p in
        if inum = 0 \<or> p = [0x2e] \<or> p = [0x2e, 0x2e] then []
        else if child = FErr then [ascii ''find: cannot stat '' @ buf]
        else (if p = target then [buf] else []) @ find_u target buf child) =
      concat (map find_lines (let p = de_name name; buf = path @ 0x2f # p in
         if inum = 0 \<or> p = [0x2e] \<or> p = [0x2e, 0x2e] then []
         else (if p = target then [(buf, child)] else []) @ hits target buf child))"
    if e: "(inum, name, child) \<in> set es" for inum name child
  proof (cases "inum = 0 \<or> de_name name = [0x2e] \<or> de_name name = [0x2e, 0x2e]")
    case True
    then show ?thesis by auto
  next
    case False
    then have ok: "child \<noteq> FErr" "tree_ok (path @ 0x2f # de_name name) child" "0x2f \<notin> set (de_name name)"
      using 4(2) e by auto
    show ?thesis
      using False ok 4(1) [OF _ e refl refl refl refl] room base_name_last [OF ok(3)]
      by (cases child) (auto simp: Let_def find_lines_def)
  qed
  then have "map (\<lambda>(inum, name, child).
        let p = de_name name; buf = path @ 0x2f # p in
        if inum = 0 \<or> p = [0x2e] \<or> p = [0x2e, 0x2e] then []
        else if child = FErr then [ascii ''find: cannot stat '' @ buf]
        else (if p = target then [buf] else []) @ find_u target buf child) es =
      map (\<lambda>e. concat (map find_lines (case e of (inum, name, child) \<Rightarrow> let p = de_name name; buf = path @ 0x2f # p in
         if inum = 0 \<or> p = [0x2e] \<or> p = [0x2e, 0x2e] then []
         else (if p = target then [(buf, child)] else []) @ hits target buf child))) es"
    by (intro map_cong refl) (simp only: split_paired_all prod.case)
  then show ?case
    using room by (simp only: find_u.simps hits.simps concat_map_concat is_file.simps if_False not_True_eq_False)
qed auto

text \<open>
  C40: \<open>find\<close> prints every entry with the name, and a regular file twice. Below a directory whose files can
  be opened and whose paths fit the buffer, the lines that \<open>find\<close> prints are the paths of the entries named
  \<open>target\<close>, in the order of the traversal: a directory or a device once, and a regular file two times,
  because the loop over the directory prints it and the recursive call for the file prints it again.
\<close>

theorem find_prints_files_twice:
  assumes "tree_ok path (FDir ino sz es)"
  shows "find_u target path (FDir ino sz es) = concat (map find_lines (hits target path (FDir ino sz es)))"
  using find_hits [OF assms, of target] by simp

theorem find_prints_files_twice_witness:
  "find_u (ascii ''b'') (ascii ''.'')
     (FDir 1 64 [(2, ascii ''b'', FFile 2 5), (3, ascii ''d'', FDir 3 32 [(4, ascii ''b'', FDir 4 0 [])])]) =
     [ascii ''./b'', ascii ''./b'', ascii ''./d/b'']"
proof -
  let ?es = "[(2, ascii ''b'', FFile 2 5), (3, ascii ''d'', FDir 3 32 [(4, ascii ''b'', FDir 4 0 [])])]"
  have "tree_ok (ascii ''.'') (FDir 1 64 ?es)" by (simp add: ascii_def path_room_def de_name_def)
  from find_prints_files_twice [OF this, of "ascii ''b''"] show ?thesis
    by (simp add: ascii_def find_lines_def Let_def de_name_def del: find_u.simps)
qed

end
