(* ===== verification/Progs.thy ===== *)
theory Progs
  imports Shrun Utils
begin

text \<open>
  Small user programs, as trees of system calls: \<open>pingpong\<close>, \<open>sleep\<close>, \<open>kill\<close>, \<open>ln\<close>, \<open>mkdir\<close>, \<open>rm\<close>,
  \<open>trace\<close> and \<open>zombie\<close>, and the main functions of the text programs. The processes of a program run side
  by side: \<open>proc_step\<close> is one system call of one of them, answered as the kernel answers it when nothing fails, on
  shared pipes and a terminal. \<open>pingpong\<close> is shown to do the same under every schedule.
\<close>

section \<open>The programs\<close>

text \<open>A number on the command line.\<close>

definition arg_int :: "u8 list \<Rightarrow> int" where
  "arg_int cs = (case atoi (\<lambda>a. if unat a < length cs then cs ! unat a else 0) 0 of None \<Rightarrow> 0 | Some n \<Rightarrow> sint n)"

definition pingpong_child :: "int \<Rightarrow> int \<Rightarrow> int \<Rightarrow> int \<Rightarrow> uprog" where
  "pingpong_child p10 p11 p20 p21 =
     Call (UClose p21) (\<lambda>_. Call (UClose p10) (\<lambda>_.
     CallRead p20 1 (\<lambda>_ _.
     Call UGetpid (\<lambda>pid.
     fprintf 1 (ascii ''%d: received ping'' @ [10]) [UInt (of_int pid)] (
     Call (UWrite p11 (ascii ''o'')) (\<lambda>_.
     Call (UClose p20) (\<lambda>_. Call (UClose p11) (\<lambda>_. Halt 0))))))))"

definition pingpong_parent :: "int \<Rightarrow> int \<Rightarrow> int \<Rightarrow> int \<Rightarrow> uprog" where
  "pingpong_parent p10 p11 p20 p21 =
     Call (UClose p11) (\<lambda>_. Call (UClose p20) (\<lambda>_.
     Call (UWrite p21 (ascii ''i'')) (\<lambda>_.
     CallRead p10 1 (\<lambda>_ _.
     Call UGetpid (\<lambda>pid.
     fprintf 1 (ascii ''%d: received pong'' @ [10]) [UInt (of_int pid)] (
     Call (UClose p10) (\<lambda>_. Call (UClose p21) (\<lambda>_. Halt 0))))))))"

definition pingpong :: uprog where
  "pingpong =
     CallPipe (\<lambda>_ p10 p11. CallPipe (\<lambda>_ p20 p21. Call UFork (\<lambda>pid.
       if pid = 0 then pingpong_child p10 p11 p20 p21 else pingpong_parent p10 p11 p20 p21)))"

text \<open>The message of \<open>sleep\<close> has 32 characters; the program writes 33, the terminator included.\<close>

definition sleep_main :: "u8 list list \<Rightarrow> uprog" where
  "sleep_main argv =
     (if length argv \<noteq> 2 then Call (UWrite 1 (ascii ''sleep error: argument is needed'' @ [10, 0])) (\<lambda>_. Halt 0)
      else Call (USleep (arg_int (argv ! 1))) (\<lambda>_. Halt 0))"

primrec kill_loop_u :: "u8 list list \<Rightarrow> uprog" where
  "kill_loop_u [] = Halt 0"
| "kill_loop_u (a # as) = Call (UKill (arg_int a)) (\<lambda>_. kill_loop_u as)"

definition kill_main :: "u8 list list \<Rightarrow> uprog" where
  "kill_main argv =
     (if length argv < 2 then fprintf 2 (ascii ''usage: kill pid...'' @ [10]) [] (Halt 1) else kill_loop_u (tl argv))"

definition ln_main :: "u8 list list \<Rightarrow> uprog" where
  "ln_main argv =
     (if length argv \<noteq> 3 then fprintf 2 (ascii ''Usage: ln old new'' @ [10]) [] (Halt 1)
      else Call (ULink (argv ! 1) (argv ! 2)) (\<lambda>r.
        if r < 0 then fprintf 2 (ascii ''link %s %s: failed'' @ [10]) [UStr (Some (argv ! 1)), UStr (Some (argv ! 2))] (Halt 0)
        else Halt 0))"

primrec mkdir_loop :: "u8 list list \<Rightarrow> uprog" where
  "mkdir_loop [] = Halt 0"
| "mkdir_loop (a # as) = Call (UMkdir a) (\<lambda>r.
     if r < 0 then fprintf 2 (ascii ''mkdir: %s failed to create'' @ [10]) [UStr (Some a)] (Halt 0) else mkdir_loop as)"

definition mkdir_main :: "u8 list list \<Rightarrow> uprog" where
  "mkdir_main argv =
     (if length argv < 2 then fprintf 2 (ascii ''Usage: mkdir files...'' @ [10]) [] (Halt 1) else mkdir_loop (tl argv))"

primrec rm_loop :: "u8 list list \<Rightarrow> uprog" where
  "rm_loop [] = Halt 0"
| "rm_loop (a # as) = Call (UUnlink a) (\<lambda>r.
     if r < 0 then fprintf 2 (ascii ''rm: %s failed to delete'' @ [10]) [UStr (Some a)] (Halt 0) else rm_loop as)"

definition rm_main :: "u8 list list \<Rightarrow> uprog" where
  "rm_main argv =
     (if length argv < 2 then fprintf 2 (ascii ''Usage: rm files...'' @ [10]) [] (Halt 1) else rm_loop (tl argv))"

text \<open>
  \<open>nargv\<close> is on the stack and is not initialised behind the arguments that are copied: the list handed to
  \<open>exec\<close> goes on with the words \<open>junk\<close> that lie there, up to the first null pointer.
\<close>

definition trace_main :: "u8 list list \<Rightarrow> u8 list list \<Rightarrow> uprog" where
  "trace_main junk argv =
     (if length argv < 3 \<or> \<not> (0x30 \<le> str_at (argv ! 1) \<and> str_at (argv ! 1) \<le> 0x39)
      then fprintf 2 (ascii ''Usage: %s mask command'' @ [10]) [UStr (Some (argv ! 0))] (Halt 1)
      else Call (UTrace (arg_int (argv ! 1))) (\<lambda>r.
        if r < 0 then fprintf 2 (ascii ''%s: trace failed'' @ [10]) [UStr (Some (argv ! 0))] (Halt 1)
        else Call (UExec (take (MAXARG - 2) (drop 2 argv) @ junk)) (\<lambda>_. Halt 0)))"

definition zombie_main :: uprog where
  "zombie_main = Call UFork (\<lambda>pid. if pid > 0 then Call (USleep 5) (\<lambda>_. Halt 0) else Halt 0)"

section \<open>The main functions of the text programs\<close>

text \<open>
  A file on the command line is its name and what the function of the program sees of it, or nothing where it
  cannot be opened. The result is the output, the message of an error, and the exit status.
\<close>

fun cat_files :: "(u8 list \<times> ((u8 list \<times> int) list \<times> int) option) list \<Rightarrow> u8 list list \<times> u8 list option \<times> int" where
  "cat_files [] = ([], None, 0)"
| "cat_files ((name, None) # files) = ([], vprintf False (ascii ''cat: cannot open %s'' @ [10]) [UStr (Some name)], 1)"
| "cat_files ((name, Some (chunks, n)) # files) =
     (case cat chunks n of
        (out, Some e) \<Rightarrow> (out, Some (ascii e @ [10]), 1)
      | (out, None) \<Rightarrow> (case cat_files files of (out', e, st) \<Rightarrow> (out @ out', e, st)))"

definition cat_main :: "(u8 list \<times> int) list \<times> int \<Rightarrow> (u8 list \<times> ((u8 list \<times> int) list \<times> int) option) list \<Rightarrow>
    u8 list list \<times> u8 list option \<times> int" where
  "cat_main stdin files = (if files = [] then cat_files [([], Some stdin)] else cat_files files)"

lemma cat_main_copies:
  assumes "files \<noteq> []"
    and "\<forall>(name, f)\<in>set files. \<exists>chunks. f = Some (chunks, 0) \<and> (\<forall>(buf, r)\<in>set chunks. r = int (length buf))"
  shows "cat_main stdin files = (concat (map (\<lambda>(name, f). map fst (fst (the f))) files), None, 0)"
proof -
  have "cat_files files = (concat (map (\<lambda>(name, f). map fst (fst (the f))) files), None, 0)"
    using assms(2)
  proof (induction files)
    case (Cons x files)
    obtain name chunks where x: "x = (name, Some (chunks, 0))" "\<forall>(buf, r)\<in>set chunks. r = int (length buf)"
      using Cons.prems by (cases x) auto
    have "cat chunks 0 = (map fst chunks, None)" using cat_copies [OF x(2)] .
    then show ?case using Cons x(1) by simp
  qed simp
  then show ?thesis using assms(1) by (simp add: cat_main_def)
qed

fun wc_files :: "(u8 list \<times> (u8 list list \<times> int) option) list \<Rightarrow> u8 list option list \<times> int" where
  "wc_files [] = ([], 0)"
| "wc_files ((name, None) # files) = ([vprintf False (ascii ''wc: cannot open %s'' @ [10]) [UStr (Some name)]], 1)"
| "wc_files ((name, Some (chunks, n)) # files) =
     (if n < 0 then ([wc chunks n name], 1)
      else case wc_files files of (out, st) \<Rightarrow> (wc chunks n name # out, st))"

definition wc_main :: "u8 list list \<times> int \<Rightarrow> (u8 list \<times> (u8 list list \<times> int) option) list \<Rightarrow> u8 list option list \<times> int" where
  "wc_main stdin files = (if files = [] then wc_files [([], Some stdin)] else wc_files files)"

fun grep_files :: "u8 list \<Rightarrow> (u8 list \<times> u8 list list option) list \<Rightarrow> u8 list \<times> int" where
  "grep_files pattern [] = ([], 0)"
| "grep_files pattern ((name, None) # files) =
     (case vprintf False (ascii ''grep: cannot open %s'' @ [10]) [UStr (Some name)] of None \<Rightarrow> [] | Some cs \<Rightarrow> cs, 1)"
| "grep_files pattern ((name, Some data) # files) =
     (case grep_files pattern files of (out, st) \<Rightarrow> (grep pattern [] data @ out, st))"

text \<open>\<open>grep_main\<close> gets the arguments: the pattern, if there is one, and the files. The usage message goes to descriptor 2.\<close>

definition grep_main :: "u8 list list \<Rightarrow> u8 list option \<Rightarrow> (u8 list \<times> u8 list list option) list \<Rightarrow> u8 list \<times> u8 list \<times> int" where
  "grep_main stdin arg files =
     (case arg of
        None \<Rightarrow> ([], ascii ''usage: grep pattern [file ...]'' @ [10], 1)
      | Some pattern \<Rightarrow>
          (case if files = [] then (grep pattern [] stdin, 0) else grep_files pattern files of (out, st) \<Rightarrow> (out, [], st)))"

definition ls_main :: "(u8 list \<Rightarrow> fnode) \<Rightarrow> u8 list list \<Rightarrow> u8 list option list" where
  "ls_main node args = (if args = [] then ls (ascii ''.'') (node (ascii ''.'')) else concat (map (\<lambda>a. ls a (node a)) args))"

definition find_main :: "(u8 list \<Rightarrow> fnode) \<Rightarrow> u8 list list \<Rightarrow> u8 list list \<times> u8 list" where
  "find_main node args =
     (if length args \<noteq> 2 then ([], ascii ''find: arguments needed'' @ [10])
      else (find_u (args ! 1) (args ! 0) (node (args ! 0)), []))"

section \<open>Processes side by side\<close>

record world =
  w_procs :: "(int \<times> uprog \<times> fd_table) list"
  w_pipes :: "u8 list list"
  w_out :: "u8 list"

definition set_proc :: "nat \<Rightarrow> int \<times> uprog \<times> fd_table \<Rightarrow> world \<Rightarrow> world" where
  "set_proc i x w = w\<lparr>w_procs := (w_procs w)[i := x]\<rparr>"

text \<open>Some process has this end of a pipe open.\<close>

definition has_end :: "endpoint \<Rightarrow> world \<Rightarrow> bool" where
  "has_end e w \<longleftrightarrow> (\<exists>(pid, g, t)\<in>set (w_procs w). \<exists>fd. t fd = Some e)"

text \<open>
  One system call of process \<open>i\<close>. A write to a pipe waits for room, a read from an empty pipe waits for data as long as
  there is a writer; \<open>exit\<close> closes all descriptors.
\<close>

inductive proc_step :: "nat \<Rightarrow> world \<Rightarrow> world \<Rightarrow> bool" where
  ws_fork: "i < length (w_procs w) \<Longrightarrow> w_procs w ! i = (pid, Call UFork k, t) \<Longrightarrow> 0 < c \<Longrightarrow> c \<notin> fst ` set (w_procs w) \<Longrightarrow>
    proc_step i w (w\<lparr>w_procs := (w_procs w)[i := (pid, k c, t)] @ [(c, k 0, t)]\<rparr>)"
| ws_pipe: "i < length (w_procs w) \<Longrightarrow> w_procs w ! i = (pid, CallPipe k, t) \<Longrightarrow> p = length (w_pipes w) \<Longrightarrow>
    free_fd t = Some r \<Longrightarrow> free_fd (t(r := Some (PipeR p))) = Some f \<Longrightarrow>
    proc_step i w ((set_proc i (pid, k 0 (int r) (int f), t(r := Some (PipeR p), f := Some (PipeW p))) w)\<lparr>w_pipes := w_pipes w @ [[]]\<rparr>)"
| ws_close: "i < length (w_procs w) \<Longrightarrow> w_procs w ! i = (pid, Call (UClose fd) k, t) \<Longrightarrow>
    proc_step i w (set_proc i (pid, k 0, t(nat fd := None)) w)"
| ws_getpid: "i < length (w_procs w) \<Longrightarrow> w_procs w ! i = (pid, Call UGetpid k, t) \<Longrightarrow>
    proc_step i w (set_proc i (pid, k pid, t) w)"
| ws_write_tty: "i < length (w_procs w) \<Longrightarrow> w_procs w ! i = (pid, Call (UWrite fd bs) k, t) \<Longrightarrow> t (nat fd) = Some Tty \<Longrightarrow>
    proc_step i w ((set_proc i (pid, k (int (length bs)), t) w)\<lparr>w_out := w_out w @ bs\<rparr>)"
| ws_write: "i < length (w_procs w) \<Longrightarrow> w_procs w ! i = (pid, Call (UWrite fd bs) k, t) \<Longrightarrow> t (nat fd) = Some (PipeW p) \<Longrightarrow>
    has_end (PipeR p) w \<Longrightarrow> length (w_pipes w ! p) + length bs \<le> PIPESIZE \<Longrightarrow>
    proc_step i w ((set_proc i (pid, k (int (length bs)), t) w)\<lparr>w_pipes := (w_pipes w)[p := w_pipes w ! p @ bs]\<rparr>)"
| ws_write_broken: "i < length (w_procs w) \<Longrightarrow> w_procs w ! i = (pid, Call (UWrite fd bs) k, t) \<Longrightarrow> t (nat fd) = Some (PipeW p) \<Longrightarrow>
    \<not> has_end (PipeR p) w \<Longrightarrow> proc_step i w (set_proc i (pid, k (-1), t) w)"
| ws_read: "i < length (w_procs w) \<Longrightarrow> w_procs w ! i = (pid, CallRead fd n k, t) \<Longrightarrow> t (nat fd) = Some (PipeR p) \<Longrightarrow>
    w_pipes w ! p \<noteq> [] \<Longrightarrow>
    proc_step i w ((set_proc i (pid, k (int (length (take n (w_pipes w ! p)))) (take n (w_pipes w ! p)), t) w)
      \<lparr>w_pipes := (w_pipes w)[p := drop n (w_pipes w ! p)]\<rparr>)"
| ws_read_eof: "i < length (w_procs w) \<Longrightarrow> w_procs w ! i = (pid, CallRead fd n k, t) \<Longrightarrow> t (nat fd) = Some (PipeR p) \<Longrightarrow>
    w_pipes w ! p = [] \<Longrightarrow> \<not> has_end (PipeW p) w \<Longrightarrow> proc_step i w (set_proc i (pid, k 0 [], t) w)"
| ws_exit: "i < length (w_procs w) \<Longrightarrow> w_procs w ! i = (pid, Halt n, t) \<Longrightarrow> t \<noteq> (\<lambda>_. None) \<Longrightarrow>
    proc_step i w (set_proc i (pid, Halt n, \<lambda>_. None) w)"

inductive_cases proc_stepE [consumes 1, case_names ws_fork ws_pipe ws_close ws_getpid ws_write_tty ws_write ws_write_broken ws_read ws_read_eof ws_exit]: "proc_step i w w'"

definition world_step :: "world \<Rightarrow> world \<Rightarrow> bool" where
  "world_step w w' \<longleftrightarrow> (\<exists>i. proc_step i w w')"

section \<open>Straight-line processes\<close>

text \<open>The calls of a process that does not branch, one after the other.\<close>

datatype act = ACl nat | AWr nat "u8 list" | ARd nat | AId

fun does :: "int \<Rightarrow> act list \<Rightarrow> uprog \<Rightarrow> bool" where
  "does pid [] g \<longleftrightarrow> g = Halt 0"
| "does pid (ACl fd # as) g \<longleftrightarrow> (\<exists>k. g = Call (UClose (int fd)) k \<and> does pid as (k 0))"
| "does pid (AWr fd bs # as) g \<longleftrightarrow> (\<exists>k. g = Call (UWrite (int fd) bs) k \<and> does pid as (k (int (length bs))))"
| "does pid (ARd fd # as) g \<longleftrightarrow> (\<exists>k. g = CallRead (int fd) 1 k \<and> (\<forall>r bs. does pid as (k r bs)))"
| "does pid (AId # as) g \<longleftrightarrow> (\<exists>k. g = Call UGetpid k \<and> does pid as (k pid))"

definition closed_by :: "act list \<Rightarrow> fd_table \<Rightarrow> fd_table" where
  "closed_by as t = (\<lambda>fd. if ACl fd \<in> set as then None else t fd)"

lemma closed_by_simps [simp]:
  "closed_by [] t = t" "closed_by (as @ [ACl fd]) t = (closed_by as t)(fd := None)"
  "closed_by (as @ [AWr fd bs]) t = closed_by as t" "closed_by (as @ [ARd fd]) t = closed_by as t"
  "closed_by (as @ [AId]) t = closed_by as t"
  by (auto simp: closed_by_def)

lemma does_puts: "does pid as g \<Longrightarrow> does pid (map (\<lambda>c. AWr 1 [c]) cs @ as) (uputs 1 cs g)"
  by (induction cs) (auto simp: uputs_def)

text \<open>A process that has done the first \<open>a\<close> of its calls; one that has done them all and has exited is at \<open>length as + 1\<close>.\<close>

definition proc_at :: "int \<Rightarrow> act list \<Rightarrow> fd_table \<Rightarrow> nat \<Rightarrow> int \<times> uprog \<times> fd_table \<Rightarrow> bool" where
  "proc_at pid as t a x \<longleftrightarrow> (\<exists>g. x = (pid, g, if a \<le> length as then closed_by (take a as) t else (\<lambda>_. None)) \<and>
     a \<le> Suc (length as) \<and> does pid (drop a as) g)"

lemma proc_at_cases:
  assumes "proc_at pid as t a (q, g, tb)"
  obtains (close) fd k where "q = pid" "a < length as" "as ! a = ACl fd" "tb = closed_by (take a as) t" "g = Call (UClose (int fd)) k"
      "proc_at pid as t (Suc a) (pid, k 0, tb(fd := None))"
  | (send) fd bs k where "q = pid" "a < length as" "as ! a = AWr fd bs" "tb = closed_by (take a as) t" "g = Call (UWrite (int fd) bs) k"
      "proc_at pid as t (Suc a) (pid, k (int (length bs)), tb)"
  | (recv) fd k where "q = pid" "a < length as" "as ! a = ARd fd" "tb = closed_by (take a as) t" "g = CallRead (int fd) 1 k"
      "\<And>r bs. proc_at pid as t (Suc a) (pid, k r bs, tb)"
  | (ident) k where "q = pid" "a < length as" "as ! a = AId" "tb = closed_by (take a as) t" "g = Call UGetpid k"
      "proc_at pid as t (Suc a) (pid, k pid, tb)"
  | (halt) "q = pid" "a = length as" "g = Halt 0" "tb = closed_by as t" "proc_at pid as t (Suc a) (pid, Halt 0, \<lambda>_. None)"
  | (gone) "q = pid" "a = Suc (length as)" "g = Halt 0" "tb = (\<lambda>_. None)"
proof -
  have d: "q = pid" "a \<le> Suc (length as)" "does pid (drop a as) g" "tb = (if a \<le> length as then closed_by (take a as) t else (\<lambda>_. None))"
    using assms by (auto simp: proc_at_def)
  consider "a < length as" | "a = length as" | "a = Suc (length as)" using d(2) by linarith
  then show thesis
  proof cases
    case 1
    have e: "drop a as = as ! a # drop (Suc a) as" "take (Suc a) as = take a as @ [as ! a]"
      using 1 by (simp_all add: Cons_nth_drop_Suc take_Suc_conv_app_nth)
    have tb: "tb = closed_by (take a as) t" using d(4) 1 by simp
    have nx: "proc_at pid as t (Suc a) (pid, g', closed_by (take a as @ [as ! a]) t)" if "does pid (drop (Suc a) as) g'" for g'
      using 1 that e(2) by (simp add: proc_at_def Suc_le_eq)
    note do = d(3) [unfolded e(1)]
    show thesis
    proof (cases "as ! a")
      case (ACl fd)
      then obtain k where "g = Call (UClose (int fd)) k" "does pid (drop (Suc a) as) (k 0)" using do by auto
      then show thesis using that(1) [OF d(1) 1 ACl tb] nx ACl by (simp add: tb)
    next
      case (AWr fd bs)
      then obtain k where "g = Call (UWrite (int fd) bs) k" "does pid (drop (Suc a) as) (k (int (length bs)))" using do by auto
      then show thesis using that(2) [OF d(1) 1 AWr tb] nx AWr by (simp add: tb)
    next
      case (ARd fd)
      then obtain k where "g = CallRead (int fd) 1 k" "\<And>r bs. does pid (drop (Suc a) as) (k r bs)" using do by auto
      then show thesis using that(3) [OF d(1) 1 ARd tb] nx ARd by (simp add: tb)
    next
      case AId
      then obtain k where "g = Call UGetpid k" "does pid (drop (Suc a) as) (k pid)" using do by auto
      then show thesis using that(4) [OF d(1) 1 AId tb] nx AId by (simp add: tb)
    qed
  next
    case 2
    then show thesis using d that(5) by (simp add: proc_at_def)
  next
    case 3
    then show thesis using d that(6) by simp
  qed
qed

text \<open>What a step of a straight-line process does to the world.\<close>

lemma line_step:
  assumes st: "proc_step i w w'" and x: "proc_at pid as t a (w_procs w ! i)"
  obtains (quiet) x' where "a < length as" "as ! a = AId \<or> (\<exists>fd. as ! a = ACl fd)" "proc_at pid as t (Suc a) x'" "w' = set_proc i x' w"
  | (tty) fd bs x' where "a < length as" "as ! a = AWr fd bs" "closed_by (take a as) t fd = Some Tty" "proc_at pid as t (Suc a) x'"
      "w' = (set_proc i x' w)\<lparr>w_out := w_out w @ bs\<rparr>"
  | (send) fd bs p x' where "a < length as" "as ! a = AWr fd bs" "closed_by (take a as) t fd = Some (PipeW p)" "proc_at pid as t (Suc a) x'"
      "w' = (set_proc i x' w)\<lparr>w_pipes := (w_pipes w)[p := w_pipes w ! p @ bs]\<rparr>"
  | (broken) fd bs p where "a < length as" "as ! a = AWr fd bs" "closed_by (take a as) t fd = Some (PipeW p)" "\<not> has_end (PipeR p) w"
  | (recv) fd p x' where "a < length as" "as ! a = ARd fd" "closed_by (take a as) t fd = Some (PipeR p)" "w_pipes w ! p \<noteq> []"
      "proc_at pid as t (Suc a) x'" "w' = (set_proc i x' w)\<lparr>w_pipes := (w_pipes w)[p := tl (w_pipes w ! p)]\<rparr>"
  | (eof) fd p where "a < length as" "as ! a = ARd fd" "closed_by (take a as) t fd = Some (PipeR p)" "w_pipes w ! p = []" "\<not> has_end (PipeW p) w"
  | (exits) x' where "a = length as" "proc_at pid as t (Suc a) x'" "w' = set_proc i x' w"
  using st
proof (cases rule: proc_stepE)
  case (ws_fork q k tb c)
  show thesis using x [unfolded ws_fork(3)] by (cases rule: proc_at_cases) simp_all
next
  case (ws_pipe q k tb r f)
  show thesis using x [unfolded ws_pipe(3)] by (cases rule: proc_at_cases) simp_all
next
  case (ws_close q fd k tb)
  show thesis using x [unfolded ws_close(3)] by (cases rule: proc_at_cases) (use ws_close quiet in auto)
next
  case (ws_getpid q k tb)
  show thesis using x [unfolded ws_getpid(3)] by (cases rule: proc_at_cases) (use ws_getpid quiet in auto)
next
  case (ws_write_tty q fd bs k tb)
  show thesis using x [unfolded ws_write_tty(3)] by (cases rule: proc_at_cases) (use ws_write_tty tty in auto)
next
  case (ws_write q fd bs k tb p)
  show thesis using x [unfolded ws_write(3)] by (cases rule: proc_at_cases) (use ws_write send in auto)
next
  case (ws_write_broken q fd bs k tb p)
  show thesis using x [unfolded ws_write_broken(3)] by (cases rule: proc_at_cases) (use ws_write_broken broken in auto)
next
  case (ws_read q fd n k tb p)
  obtain fd' where f: "fd = int fd'" "n = 1" "q = pid" "a < length as" "as ! a = ARd fd'" "tb = closed_by (take a as) t"
      "\<And>r bs. proc_at pid as t (Suc a) (pid, k r bs, tb)"
    using x [unfolded ws_read(3)] by (cases rule: proc_at_cases) auto
  have "closed_by (take a as) t fd' = Some (PipeR p)" using ws_read(4) f(1,6) by simp
  then show thesis
    by (rule recv [OF f(4,5) _ ws_read(5) f(7)]) (simp add: ws_read(1) f(2,3) drop_Suc)
next
  case (ws_read_eof q fd n k tb p)
  show thesis using x [unfolded ws_read_eof(3)] by (cases rule: proc_at_cases) (use ws_read_eof eof in auto)
next
  case (ws_exit q n tb)
  show thesis using x [unfolded ws_exit(3)] by (cases rule: proc_at_cases) (use ws_exit exits in auto)
qed

text \<open>A straight-line process that does not wait for a pipe can go on.\<close>

lemma line_progress:
  assumes i: "i < length (w_procs w)" and x: "proc_at pid as t a (w_procs w ! i)" and a: "a \<le> length as"
    and send: "\<And>fd bs. a < length as \<Longrightarrow> as ! a = AWr fd bs \<Longrightarrow> closed_by (take a as) t fd = Some Tty \<or>
      (\<exists>p. closed_by (take a as) t fd = Some (PipeW p) \<and> length (w_pipes w ! p) + length bs \<le> PIPESIZE)"
    and recv: "\<And>fd. a < length as \<Longrightarrow> as ! a = ARd fd \<Longrightarrow> \<exists>p. closed_by (take a as) t fd = Some (PipeR p) \<and> w_pipes w ! p \<noteq> []"
    and tab: "closed_by as t \<noteq> (\<lambda>_. None)"
  shows "\<exists>w'. world_step w w'"
proof -
  obtain q g tb where p: "w_procs w ! i = (q, g, tb)" by (cases "w_procs w ! i")
  show ?thesis
    using x [unfolded p]
  proof (cases rule: proc_at_cases)
    case (close fd k)
    then show ?thesis using ws_close [OF i p [unfolded close(5)]] by (auto simp: world_step_def)
  next
    case (send fd bs k)
    consider "tb fd = Some Tty" | q where "tb fd = Some (PipeW q)" "length (w_pipes w ! q) + length bs \<le> PIPESIZE"
      using assms(4) [OF send(2,3)] send(4) by auto
    then show ?thesis
    proof cases
      case 1
      then show ?thesis using ws_write_tty [OF i p [unfolded send(5)]] by (auto simp: world_step_def)
    next
      case 2
      then show ?thesis
        using ws_write [OF i p [unfolded send(5)], of q] ws_write_broken [OF i p [unfolded send(5)], of q]
        by (cases "has_end (PipeR q) w") (auto simp: world_step_def)
    qed
  next
    case (recv fd k)
    then obtain q where "tb fd = Some (PipeR q)" "w_pipes w ! q \<noteq> []" using assms(5) by auto
    then show ?thesis using ws_read [OF i p [unfolded recv(5)]] by (auto simp: world_step_def)
  next
    case (ident k)
    then show ?thesis using ws_getpid [OF i p [unfolded ident(5)]] by (auto simp: world_step_def)
  next
    case halt
    then show ?thesis using ws_exit [OF i p [unfolded halt(3)]] tab by (auto simp: world_step_def)
  next
    case gone
    then show ?thesis using a by simp
  qed
qed

section \<open>pingpong\<close>

definition ping_msg :: "int \<Rightarrow> u8 list" where
  "ping_msg pid = (case vprintf False (ascii ''%d: received ping'' @ [10]) [UInt (of_int pid)] of None \<Rightarrow> [] | Some cs \<Rightarrow> cs)"

definition pong_msg :: "int \<Rightarrow> u8 list" where
  "pong_msg pid = (case vprintf False (ascii ''%d: received pong'' @ [10]) [UInt (of_int pid)] of None \<Rightarrow> [] | Some cs \<Rightarrow> cs)"

definition parent_acts :: "u8 list \<Rightarrow> act list" where
  "parent_acts m = [ACl 4, ACl 5, AWr 6 (ascii ''i''), ARd 3, AId] @ map (\<lambda>c. AWr 1 [c]) m @ [ACl 3, ACl 6]"

definition child_acts :: "u8 list \<Rightarrow> act list" where
  "child_acts m = [ACl 6, ACl 3, ARd 5, AId] @ map (\<lambda>c. AWr 1 [c]) m @ [AWr 4 (ascii ''o''), ACl 5, ACl 4]"

lemma pingpong_does:
  "does pid (parent_acts (pong_msg pid)) (pingpong_parent 3 4 5 6)"
  "does pid (child_acts (ping_msg pid)) (pingpong_child 3 4 5 6)"
  by (auto simp: parent_acts_def child_acts_def pingpong_parent_def pingpong_child_def fprintf_def ping_msg_def pong_msg_def
      intro!: does_puts [unfolded One_nat_def])

lemma parent_acts_nth:
  "length (parent_acts m) = length m + 7"
  "a < length m + 7 \<Longrightarrow> parent_acts m ! a =
     (if a = 0 then ACl 4 else if a = 1 then ACl 5 else if a = 2 then AWr 6 (ascii ''i'') else if a = 3 then ARd 3 else if a = 4 then AId
      else if a < length m + 5 then AWr 1 [m ! (a - 5)] else if a = length m + 5 then ACl 3 else ACl 6)"
  by (auto simp: parent_acts_def nth_append nth_Cons' numeral_eq_Suc)

lemma child_acts_nth:
  "length (child_acts m) = length m + 7"
  "b < length m + 7 \<Longrightarrow> child_acts m ! b =
     (if b = 0 then ACl 6 else if b = 1 then ACl 3 else if b = 2 then ARd 5 else if b = 3 then AId
      else if b < length m + 4 then AWr 1 [m ! (b - 4)] else if b = length m + 4 then AWr 4 (ascii ''o'')
      else if b = length m + 5 then ACl 5 else ACl 4)"
  by (auto simp: child_acts_def nth_append nth_Cons' numeral_eq_Suc)

text \<open>The descriptors after the two calls of \<open>pipe\<close>.\<close>

definition tty_tab :: fd_table where
  "tty_tab = (\<lambda>fd. if fd < 3 then Some Tty else None)"

definition pp_tab :: fd_table where
  "pp_tab = tty_tab(3 := Some (PipeR 0), 4 := Some (PipeW 0), 5 := Some (PipeR 1), 6 := Some (PipeW 1))"

lemma closed_nth: "closed_by (take a as) t fd = (if \<exists>j < a. j < length as \<and> as ! j = ACl fd then None else t fd)"
  by (auto simp: closed_by_def in_set_conv_nth)

lemma parent_tab:
  "closed_by (take a (parent_acts m)) pp_tab 1 = Some Tty"
  "a \<le> length m + 5 \<Longrightarrow> closed_by (take a (parent_acts m)) pp_tab 3 = Some (PipeR 0)"
  "a \<le> length m + 6 \<Longrightarrow> closed_by (take a (parent_acts m)) pp_tab 6 = Some (PipeW 1)"
  by (auto simp: closed_nth parent_acts_nth pp_tab_def tty_tab_def split: if_splits)

lemma child_tab:
  "closed_by (take b (child_acts m)) pp_tab 1 = Some Tty"
  "b \<le> length m + 5 \<Longrightarrow> closed_by (take b (child_acts m)) pp_tab 5 = Some (PipeR 1)"
  "b \<le> length m + 6 \<Longrightarrow> closed_by (take b (child_acts m)) pp_tab 4 = Some (PipeW 0)"
  by (auto simp: closed_nth child_acts_nth pp_tab_def tty_tab_def split: if_splits)

text \<open>
  The parent has done \<open>a\<close> of its calls and the child \<open>b\<close>. The child has read the ping only when the parent has written it,
  the parent has read the pong only when the child has written it, and by then the child has printed its line.
\<close>

definition pp_state :: "int \<Rightarrow> int \<Rightarrow> nat \<Rightarrow> nat \<Rightarrow> world \<Rightarrow> bool" where
  "pp_state pid c a b w \<longleftrightarrow>
     (\<exists>x y. w_procs w = [x, y] \<and> proc_at pid (parent_acts (pong_msg pid)) pp_tab a x \<and> proc_at c (child_acts (ping_msg c)) pp_tab b y) \<and>
     w_pipes w = [if length (ping_msg c) + 5 \<le> b \<and> a < 4 then ascii ''o'' else [], if 3 \<le> a \<and> b < 3 then ascii ''i'' else []] \<and>
     w_out w = take (b - 4) (ping_msg c) @ take (a - 5) (pong_msg pid) \<and> (3 \<le> b \<longrightarrow> 3 \<le> a) \<and> (4 \<le> a \<longrightarrow> length (ping_msg c) + 5 \<le> b)"

lemma end_at:
  assumes "proc_at pid as t a x" and "x \<in> set (w_procs w)" and "a \<le> length as" and "closed_by (take a as) t fd = Some e"
  shows "has_end e w"
  using assms by (force simp: proc_at_def has_end_def)

lemma parent_step:
  assumes s: "pp_state pid c a b w" and st: "proc_step 0 w w'"
  shows "pp_state pid c (Suc a) b w'"
proof -
  let ?m = "pong_msg pid" and ?n = "length (ping_msg c)"
  obtain x y where p: "w_procs w = [x, y]" "proc_at pid (parent_acts ?m) pp_tab a x" "proc_at c (child_acts (ping_msg c)) pp_tab b y"
    and pipes: "w_pipes w = [if ?n + 5 \<le> b \<and> a < 4 then ascii ''o'' else [], if 3 \<le> a \<and> b < 3 then ascii ''i'' else []]"
    and out: "w_out w = take (b - 4) (ping_msg c) @ take (a - 5) ?m" and ord: "3 \<le> b \<longrightarrow> 3 \<le> a" "4 \<le> a \<longrightarrow> ?n + 5 \<le> b"
    using s unfolding pp_state_def by blast
  have x: "proc_at pid (parent_acts ?m) pp_tab a (w_procs w ! 0)" using p by simp
  have ends: "b \<le> ?n + 5 \<Longrightarrow> has_end (PipeR 1) w" "b \<le> ?n + 6 \<Longrightarrow> has_end (PipeW 0) w"
    using end_at [OF p(3)] p(1) child_tab(2,3) [of b "ping_msg c"] by (simp_all add: child_acts_nth)
  note nth = parent_acts_nth(1) [of ?m] parent_acts_nth(2) [of a ?m]
  note tab = parent_tab [of a ?m]
  show ?thesis
    using st x
  proof (cases rule: line_step)
    case (quiet x')
    then have "a \<noteq> 2" "a \<noteq> 3" "a < 5 \<or> length ?m \<le> a - 5" using nth by (auto split: if_splits)
    then show ?thesis using quiet(3,4) p pipes out ord by (auto simp: pp_state_def set_proc_def)
  next
    case (tty fd bs x')
    then have "5 \<le> a" "a < length ?m + 5" "bs = [?m ! (a - 5)]" using nth tab(3) by (auto split: if_splits)
    moreover from this have "take (a - 4) ?m = take (a - 5) ?m @ [?m ! (a - 5)]"
      using take_Suc_conv_app_nth [of "a - 5" ?m] by (simp add: Suc_diff_Suc numeral_eq_Suc)
    ultimately show ?thesis using tty(4,5) p pipes out ord by (auto simp: pp_state_def set_proc_def)
  next
    case (send fd bs q x')
    then have "a = 2" "q = 1" "bs = ascii ''i''" using nth tab by (auto split: if_splits)
    then show ?thesis using send(4,5) p pipes out ord by (auto simp: pp_state_def set_proc_def)
  next
    case (broken fd bs q)
    then have "a = 2" "q = 1" using nth tab by (auto split: if_splits)
    then show ?thesis using broken(4) ends(1) ord by auto
  next
    case (recv fd q x')
    then have "a = 3" "q = 0" using nth tab by (auto split: if_splits)
    then show ?thesis using recv(4-6) p pipes out ord by (auto simp: pp_state_def set_proc_def ascii_def split: if_splits)
  next
    case (eof fd q)
    then have "a = 3" "q = 0" using nth tab by (auto split: if_splits)
    then show ?thesis using eof(4,5) ends(2) pipes by (auto simp: ascii_def split: if_splits)
  next
    case (exits x')
    then have "a = length ?m + 7" using nth by simp
    then show ?thesis using exits(2,3) p pipes out ord by (auto simp: pp_state_def set_proc_def)
  qed
qed

lemma child_step:
  assumes s: "pp_state pid c a b w" and st: "proc_step 1 w w'"
  shows "pp_state pid c a (Suc b) w'"
proof -
  let ?m = "ping_msg c" and ?k = "length (pong_msg pid)"
  obtain x y where p: "w_procs w = [x, y]" "proc_at pid (parent_acts (pong_msg pid)) pp_tab a x" "proc_at c (child_acts ?m) pp_tab b y"
    and pipes: "w_pipes w = [if length ?m + 5 \<le> b \<and> a < 4 then ascii ''o'' else [], if 3 \<le> a \<and> b < 3 then ascii ''i'' else []]"
    and out: "w_out w = take (b - 4) ?m @ take (a - 5) (pong_msg pid)" and ord: "3 \<le> b \<longrightarrow> 3 \<le> a" "4 \<le> a \<longrightarrow> length ?m + 5 \<le> b"
    using s unfolding pp_state_def by blast
  have y: "proc_at c (child_acts ?m) pp_tab b (w_procs w ! 1)" using p by simp
  have ends: "a \<le> ?k + 5 \<Longrightarrow> has_end (PipeR 0) w" "a \<le> ?k + 6 \<Longrightarrow> has_end (PipeW 1) w"
    using end_at [OF p(2)] p(1) parent_tab(2,3) [of a "pong_msg pid"] by (simp_all add: parent_acts_nth)
  note nth = child_acts_nth(1) [of ?m] child_acts_nth(2) [of b ?m]
  note tab = child_tab [of b ?m]
  show ?thesis
    using st y
  proof (cases rule: line_step)
    case (quiet y')
    then have "b \<noteq> 2" "b \<noteq> length ?m + 4" "b < 4 \<or> length ?m \<le> b - 4" using nth by (auto split: if_splits)
    then show ?thesis using quiet(3,4) p pipes out ord by (auto simp: pp_state_def set_proc_def)
  next
    case (tty fd bs y')
    then have "4 \<le> b" "b < length ?m + 4" "bs = [?m ! (b - 4)]" using nth tab(3) by (auto split: if_splits)
    moreover from this have "a < 4" "take (b - 3) ?m = take (b - 4) ?m @ [?m ! (b - 4)]"
      using ord(2) take_Suc_conv_app_nth [of "b - 4" ?m] by (auto simp: Suc_diff_Suc numeral_eq_Suc)
    ultimately show ?thesis using tty(4,5) p pipes out ord by (auto simp: pp_state_def set_proc_def)
  next
    case (send fd bs q y')
    then have "b = length ?m + 4" "q = 0" "bs = ascii ''o''" using nth tab by (auto split: if_splits)
    then show ?thesis using send(4,5) p pipes out ord by (auto simp: pp_state_def set_proc_def)
  next
    case (broken fd bs q)
    then have "b = length ?m + 4" "q = 0" using nth tab by (auto split: if_splits)
    then show ?thesis using broken(4) ends(1) ord by auto
  next
    case (recv fd q y')
    then have "b = 2" "q = 1" using nth tab by (auto split: if_splits)
    then show ?thesis using recv(4-6) p pipes out ord by (auto simp: pp_state_def set_proc_def ascii_def split: if_splits)
  next
    case (eof fd q)
    then have "b = 2" "q = 1" using nth tab by (auto split: if_splits)
    then show ?thesis using eof(4,5) ends(2) pipes by (auto simp: ascii_def split: if_splits)
  next
    case (exits y')
    then have "b = length ?m + 7" using nth by simp
    then show ?thesis using exits(2,3) p pipes out ord by (auto simp: pp_state_def set_proc_def)
  qed
qed

lemma pp_bounds: "pp_state pid c a b w \<Longrightarrow> a \<le> length (pong_msg pid) + 8 \<and> b \<le> length (ping_msg c) + 8"
  by (auto simp: pp_state_def proc_at_def parent_acts_nth child_acts_nth)

lemma pp_progress:
  assumes s: "pp_state pid c a b w" and n: "a \<le> length (pong_msg pid) + 7 \<or> b \<le> length (ping_msg c) + 7"
  shows "\<exists>w'. world_step w w'"
proof -
  let ?m = "pong_msg pid" and ?n = "ping_msg c"
  obtain x y where p: "w_procs w = [x, y]" "proc_at pid (parent_acts ?m) pp_tab a x" "proc_at c (child_acts ?n) pp_tab b y"
    and pipes: "w_pipes w = [if length ?n + 5 \<le> b \<and> a < 4 then ascii ''o'' else [], if 3 \<le> a \<and> b < 3 then ascii ''i'' else []]"
    and ord: "3 \<le> b \<longrightarrow> 3 \<le> a" "4 \<le> a \<longrightarrow> length ?n + 5 \<le> b"
    using s unfolding pp_state_def by blast
  show ?thesis
  proof (cases "b \<le> length ?n + 7 \<and> (b = 2 \<longrightarrow> 3 \<le> a)")
    case True
    note nth = child_acts_nth(1) [of ?n] child_acts_nth(2) [of b ?n]
    show ?thesis
    proof (rule line_progress [of 1])
      show "1 < length (w_procs w)" "proc_at c (child_acts ?n) pp_tab b (w_procs w ! 1)" "b \<le> length (child_acts ?n)"
        using p True nth by simp_all
      show "closed_by (child_acts ?n) pp_tab \<noteq> (\<lambda>_. None)"
        using child_tab(1) [of "length (child_acts ?n)" ?n] by (metis option.distinct(1) take_all_iff le_refl)
      show "closed_by (take b (child_acts ?n)) pp_tab fd = Some Tty \<or> (\<exists>q. closed_by (take b (child_acts ?n)) pp_tab fd = Some (PipeW q) \<and>
          length (w_pipes w ! q) + length bs \<le> PIPESIZE)" if "b < length (child_acts ?n)" "child_acts ?n ! b = AWr fd bs" for fd bs
        using that nth child_tab(1,3) [of b ?n] pipes by (auto simp: PIPESIZE_def ascii_def split: if_splits)
      show "\<exists>q. closed_by (take b (child_acts ?n)) pp_tab fd = Some (PipeR q) \<and> w_pipes w ! q \<noteq> []"
          if "b < length (child_acts ?n)" "child_acts ?n ! b = ARd fd" for fd
        using that nth child_tab(2) [of b ?n] pipes True by (auto simp: ascii_def split: if_splits)
    qed
  next
    case False
    then have a: "a \<le> length ?m + 7" "a = 3 \<longrightarrow> length ?n + 5 \<le> b" "a = 2 \<longrightarrow> b < 3"
      using n ord pp_bounds [OF s] by auto
    note nth = parent_acts_nth(1) [of ?m] parent_acts_nth(2) [of a ?m]
    show ?thesis
    proof (rule line_progress [of 0])
      show "0 < length (w_procs w)" "proc_at pid (parent_acts ?m) pp_tab a (w_procs w ! 0)" "a \<le> length (parent_acts ?m)"
        using p a nth by simp_all
      show "closed_by (parent_acts ?m) pp_tab \<noteq> (\<lambda>_. None)"
        using parent_tab(1) [of "length (parent_acts ?m)" ?m] by (metis option.distinct(1) take_all_iff le_refl)
      show "closed_by (take a (parent_acts ?m)) pp_tab fd = Some Tty \<or> (\<exists>q. closed_by (take a (parent_acts ?m)) pp_tab fd = Some (PipeW q) \<and>
          length (w_pipes w ! q) + length bs \<le> PIPESIZE)" if "a < length (parent_acts ?m)" "parent_acts ?m ! a = AWr fd bs" for fd bs
        using that nth parent_tab(1,3) [of a ?m] pipes by (auto simp: PIPESIZE_def ascii_def split: if_splits)
      show "\<exists>q. closed_by (take a (parent_acts ?m)) pp_tab fd = Some (PipeR q) \<and> w_pipes w ! q \<noteq> []"
          if "a < length (parent_acts ?m)" "parent_acts ?m ! a = ARd fd" for fd
        using that nth parent_tab(2) [of a ?m] pipes a by (auto simp: ascii_def split: if_splits)
    qed
  qed
qed

section \<open>Every run of pingpong\<close>

definition pp_start :: "int \<Rightarrow> world" where
  "pp_start pid = \<lparr>w_procs = [(pid, pingpong, tty_tab)], w_pipes = [], w_out = []\<rparr>"

definition pp_fork :: "int \<Rightarrow> int \<Rightarrow> uprog" where
  "pp_fork p20 p21 = Call UFork (\<lambda>r. if r = 0 then pingpong_child 3 4 p20 p21 else pingpong_parent 3 4 p20 p21)"

text \<open>The states after \<open>n\<close> steps.\<close>

fun pp_at :: "int \<Rightarrow> nat \<Rightarrow> world \<Rightarrow> bool" where
  "pp_at pid 0 w \<longleftrightarrow> w = pp_start pid"
| "pp_at pid (Suc 0) w \<longleftrightarrow> w = \<lparr>w_procs = [(pid, CallPipe (\<lambda>_. pp_fork), tty_tab(3 := Some (PipeR 0), 4 := Some (PipeW 0)))],
     w_pipes = [[]], w_out = []\<rparr>"
| "pp_at pid (Suc (Suc 0)) w \<longleftrightarrow> w = \<lparr>w_procs = [(pid, pp_fork 5 6, pp_tab)], w_pipes = [[], []], w_out = []\<rparr>"
| "pp_at pid (Suc (Suc (Suc n))) w \<longleftrightarrow> (\<exists>c a b. n = a + b \<and> pp_state pid c a b w)"

lemma free_fds: "free_fd tty_tab = Some 3" "free_fd (tty_tab(3 := Some e)) = Some 4"
  "free_fd (tty_tab(3 := Some e, 4 := Some f)) = Some 5" "free_fd (tty_tab(3 := Some e, 4 := Some f, 5 := Some h)) = Some 6"
  by (simp_all add: free_fd_def NOFILE_def tty_tab_def upt_rec)

lemma pp_state_step:
  assumes "pp_state pid c a b w" and "world_step w w'"
  shows "\<exists>a' b'. a' + b' = Suc (a + b) \<and> pp_state pid c a' b' w'"
proof -
  obtain i where i: "proc_step i w w'" using assms(2) by (auto simp: world_step_def)
  then have "i < length (w_procs w)" by (cases rule: proc_stepE) auto
  then have "i = 0 \<or> i = 1" using assms(1) by (auto simp: pp_state_def)
  then show ?thesis using parent_step [OF assms(1)] child_step [OF assms(1)] i by (metis add_Suc add_Suc_right)
qed

lemma pp_forked:
  assumes "c \<noteq> 0"
  shows "pp_state pid c 0 0 \<lparr>w_procs = [(pid, pingpong_parent 3 4 5 6, pp_tab), (c, pingpong_child 3 4 5 6, pp_tab)],
    w_pipes = [[], []], w_out = []\<rparr>"
  using pingpong_does by (auto simp: pp_state_def proc_at_def)

lemma single_step:
  assumes "world_step \<lparr>w_procs = [x], w_pipes = ps, w_out = out\<rparr> w'"
  shows "proc_step 0 \<lparr>w_procs = [x], w_pipes = ps, w_out = out\<rparr> w'"
proof -
  obtain i where i: "proc_step i \<lparr>w_procs = [x], w_pipes = ps, w_out = out\<rparr> w'" using assms by (auto simp: world_step_def)
  then have "i = 0" by (cases rule: proc_stepE) auto
  then show ?thesis using i by simp
qed

lemma pp_at_step: "pp_at pid n w \<Longrightarrow> world_step w w' \<Longrightarrow> pp_at pid (Suc n) w'"
proof (induction pid n w rule: pp_at.induct)
  case (1 pid w)
  then have "proc_step 0 (pp_start pid) w'" using single_step by (simp add: pp_start_def)
  then show ?case
    by (cases rule: proc_stepE) (auto simp: pp_start_def pingpong_def set_proc_def free_fds pp_fork_def [abs_def])
next
  case (2 pid w)
  let ?w = "\<lparr>w_procs = [(pid, CallPipe (\<lambda>_. pp_fork), tty_tab(3 := Some (PipeR 0), 4 := Some (PipeW 0)))], w_pipes = [[]], w_out = []\<rparr>"
  have "proc_step 0 ?w w'" using 2 single_step by simp
  then show ?case by (cases rule: proc_stepE) (auto simp: set_proc_def free_fds pp_tab_def)
next
  case (3 pid w)
  let ?w = "\<lparr>w_procs = [(pid, pp_fork 5 6, pp_tab)], w_pipes = [[], []], w_out = []\<rparr>"
  have "proc_step 0 ?w w'" using 3 single_step by simp
  then show ?case by (cases rule: proc_stepE) (auto simp: pp_fork_def intro!: exI pp_forked)
next
  case (4 pid n w)
  then obtain c a b where "n = a + b" "pp_state pid c a b w" by auto
  then show ?case using pp_state_step [OF _ 4(2)] by (metis pp_at.simps(4))
qed

lemma pp_reach: "world_step\<^sup>*\<^sup>* (pp_start pid) w \<Longrightarrow> \<exists>n. pp_at pid n w"
proof (induction rule: rtranclp_induct)
  case base
  then show ?case by (intro exI [of _ 0]) simp
next
  case (step w w')
  then show ?case using pp_at_step by blast
qed

lemma pp_early:
  assumes "pp_at pid n w" and "n < 3"
  shows "\<exists>w'. world_step w w'"
proof -
  consider "n = 0" | "n = 1" | "n = 2" using assms(2) by linarith
  then show ?thesis
  proof cases
    case 1
    then have "proc_step 0 w (set_proc 0 (pid, CallPipe (\<lambda>_. pp_fork), tty_tab(3 := Some (PipeR 0), 4 := Some (PipeW 0))) w\<lparr>w_pipes := [[]]\<rparr>)"
      using ws_pipe [of 0 w pid _ tty_tab 0 3 4] assms(1) by (simp add: pp_start_def pingpong_def free_fds pp_fork_def [abs_def])
    then show ?thesis by (auto simp: world_step_def)
  next
    case 2
    then have "proc_step 0 w (set_proc 0 (pid, pp_fork 5 6, pp_tab) w\<lparr>w_pipes := [[], []]\<rparr>)"
      using ws_pipe [of 0 w pid "\<lambda>_. pp_fork" "tty_tab(3 := Some (PipeR 0), 4 := Some (PipeW 0))" 1 5 6] assms(1)
      by (simp add: free_fds pp_tab_def)
    then show ?thesis by (auto simp: world_step_def)
  next
    case 3
    have "0 < 1 + \<bar>pid\<bar>" "1 + \<bar>pid\<bar> \<noteq> pid" by linarith+
    then show ?thesis
      using 3 assms(1) ws_fork [of 0 w pid _ pp_tab "1 + \<bar>pid\<bar>"] by (auto simp: world_step_def numeral_2_eq_2 pp_fork_def)
  qed
qed

lemma pp_final:
  assumes s: "pp_state pid c a b w" and st: "\<nexists>w'. world_step w w'"
  shows "w_out w = ping_msg c @ pong_msg pid" "w_pipes w = [[], []]" "w_procs w = [(pid, Halt 0, \<lambda>_. None), (c, Halt 0, \<lambda>_. None)]"
proof -
  have "\<not> (a \<le> length (pong_msg pid) + 7 \<or> b \<le> length (ping_msg c) + 7)" using pp_progress [OF s] st by blast
  then have e: "a = length (pong_msg pid) + 8" "b = length (ping_msg c) + 8" using pp_bounds [OF s] by linarith+
  show "w_out w = ping_msg c @ pong_msg pid" "w_pipes w = [[], []]" using s e by (auto simp: pp_state_def)
  show "w_procs w = [(pid, Halt 0, \<lambda>_. None), (c, Halt 0, \<lambda>_. None)]"
    using s e by (auto simp: pp_state_def proc_at_def parent_acts_nth child_acts_nth)
qed

lemma pp_no_infinite_run:
  assumes "f 0 = pp_start pid" and "\<And>n. world_step (f n) (f (Suc n))"
  shows False
proof -
  have "pp_at pid n (f n)" for n by (induction n) (use assms pp_at_step in auto)
  from this [of 3] obtain c a b where s: "a + b = 0" "pp_state pid c a b (f 3)" by (auto simp: numeral_3_eq_3)
  have "\<exists>a b. a + b = n \<and> pp_state pid c a b (f (n + 3))" for n
  proof (induction n)
    case 0
    show ?case using s by auto
  next
    case (Suc n)
    then obtain a b where "a + b = n" "pp_state pid c a b (f (n + 3))" by blast
    then show ?case using pp_state_step [OF _ assms(2), of pid c a b "n + 3"] by auto
  qed
  from this [of "length (pong_msg pid) + length (ping_msg c) + 17"] show False using pp_bounds by fastforce
qed

lemma run_ends:
  assumes "\<nexists>f. f 0 = s \<and> (\<forall>n. R (f n) (f (Suc n)))"
  shows "\<exists>w. R\<^sup>*\<^sup>* s w \<and> (\<nexists>w'. R w w')"
proof (rule ccontr)
  assume "\<not> ?thesis"
  then have st: "R w (SOME y. R w y)" if "R\<^sup>*\<^sup>* s w" for w using that by (metis someI)
  define f where "f n = ((\<lambda>x. SOME y. R x y) ^^ n) s" for n
  have r: "R\<^sup>*\<^sup>* s (f n)" for n
    by (induction n) (use st in \<open>auto simp: f_def intro: rtranclp.rtrancl_into_rtrancl\<close>)
  have "f 0 = s \<and> (\<forall>n. R (f n) (f (Suc n)))" using st [OF r] by (simp add: f_def)
  then show False using assms by blast
qed

text \<open>
  C26: \<open>pingpong\<close> works under every schedule. Its two processes, which make their system calls in any order
  that the pipes allow, never wait for each other for ever and never run for ever; and whenever nothing is left
  to do, the terminal shows that the child has received the ping and, after that, that the parent has received
  the pong, both pipes are empty and both processes have exited with all their descriptors closed.
\<close>

theorem pingpong_prints:
  "(world_step\<^sup>*\<^sup>* (pp_start pid) w \<and> (\<nexists>w'. world_step w w') \<longrightarrow>
     (\<exists>c. w_out w = ping_msg c @ pong_msg pid \<and> w_pipes w = [[], []] \<and>
        w_procs w = [(pid, Halt 0, \<lambda>_. None), (c, Halt 0, \<lambda>_. None)])) \<and>
   (\<nexists>f. f 0 = pp_start pid \<and> (\<forall>n. world_step (f n) (f (Suc n))))"
proof (intro conjI impI)
  assume r: "world_step\<^sup>*\<^sup>* (pp_start pid) w \<and> (\<nexists>w'. world_step w w')"
  then obtain n where n: "pp_at pid n w" using pp_reach by blast
  then have "\<not> n < 3" using pp_early r by blast
  then obtain k where "n = Suc (Suc (Suc k))" using less_eqE [of 3 n] by (auto simp: numeral_3_eq_3)
  then obtain c a b where "pp_state pid c a b w" using n by auto
  then show "\<exists>c. w_out w = ping_msg c @ pong_msg pid \<and> w_pipes w = [[], []] \<and>
      w_procs w = [(pid, Halt 0, \<lambda>_. None), (c, Halt 0, \<lambda>_. None)]"
    using pp_final r by blast
qed (use pp_no_infinite_run in blast)

theorem pingpong_prints_witness:
  "\<exists>w c. world_step\<^sup>*\<^sup>* (pp_start 3) w \<and> w_out w = ping_msg c @ ascii ''3: received pong'' @ [10]"
proof -
  have "\<nexists>f. f 0 = pp_start 3 \<and> (\<forall>n. world_step (f n) (f (Suc n)))" using pingpong_prints [of 3] by blast
  from run_ends [OF this] obtain w where w: "world_step\<^sup>*\<^sup>* (pp_start 3) w" "\<nexists>w'. world_step w w'" by auto
  then obtain c where c: "w_out w = ping_msg c @ pong_msg 3" using conjunct1 [OF pingpong_prints [of 3 w]] by auto
  have "pong_msg 3 = ascii ''3: received pong'' @ [10]" by code_simp
  then show ?thesis using w(1) c by metis
qed

end
