(* ===== verification/Umalloc.thy ===== *)
theory Umalloc
  imports Prelude
begin

text \<open>
  The memory allocator of user programs, \<open>user/umalloc.c\<close>: a circular list of free blocks in the order of
  their addresses, with a first-fit search and with neighbouring blocks merged. A block is a header of 16
  bytes and what follows it; sizes are counted in headers. Addresses are natural numbers below the end of
  user memory; the fields \<open>ptr\<close> and \<open>size\<close> of the headers are two maps from addresses. Whether the kernel
  grants an \<open>sbrk\<close> is a parameter.
\<close>

section \<open>The allocator\<close>

record uheap =
  hptr :: "nat \<Rightarrow> nat"
  hsize :: "nat \<Rightarrow> nat"
  freep :: nat
  base :: nat
  brk :: nat

text \<open>The loop of \<open>free\<close>, which looks for the free block before \<open>bp\<close>.\<close>

partial_function (option) free_find :: "uheap \<Rightarrow> nat \<Rightarrow> nat \<Rightarrow> nat option" where
  "free_find h bp p =
     (if p < bp \<and> bp < hptr h p then Some p
      else if hptr h p \<le> p \<and> (p < bp \<or> bp < hptr h p) then Some p
      else free_find h bp (hptr h p))"

text \<open>The two conditionals after it: \<open>bp\<close> is joined to the block after it, and to the block before it.\<close>

definition join_next :: "uheap \<Rightarrow> nat \<Rightarrow> nat \<Rightarrow> uheap" where
  "join_next h bp p =
     (if bp + 16 * hsize h bp = hptr h p
      then h\<lparr>hsize := (hsize h)(bp := (hsize h bp + hsize h (hptr h p)) mod 2 ^ 32),
             hptr := (hptr h)(bp := hptr h (hptr h p))\<rparr>
      else h\<lparr>hptr := (hptr h)(bp := hptr h p)\<rparr>)"

definition join_prev :: "uheap \<Rightarrow> nat \<Rightarrow> nat \<Rightarrow> uheap" where
  "join_prev h bp p =
     (if p + 16 * hsize h p = bp
      then h\<lparr>hsize := (hsize h)(p := (hsize h p + hsize h bp) mod 2 ^ 32), hptr := (hptr h)(p := hptr h bp)\<rparr>
      else h\<lparr>hptr := (hptr h)(p := bp)\<rparr>)"

definition free_link :: "uheap \<Rightarrow> nat \<Rightarrow> nat \<Rightarrow> uheap" where
  "free_link h bp p = (join_prev (join_next h bp p) bp p)\<lparr>freep := p\<rparr>"

definition ufree :: "uheap \<Rightarrow> nat \<Rightarrow> uheap option" where
  "ufree h ap = (let bp = ap - 16 in map_option (free_link h bp) (free_find h bp (freep h)))"

text \<open>
  \<open>sbrk(n)\<close>, with the argument converted to \<open>int\<close>: the old break, or nothing for \<open>-1\<close>. A negative \<open>n\<close>
  gives memory back.
\<close>

type_synonym grant = "nat \<Rightarrow> int \<Rightarrow> bool"

definition sbrk :: "grant \<Rightarrow> uheap \<Rightarrow> int \<Rightarrow> (nat \<times> uheap) option" where
  "sbrk grants h n = (if grants (brk h) n then Some (brk h, h\<lparr>brk := nat (int (brk h) + n)\<rparr>) else None)"

definition to_int32 :: "nat \<Rightarrow> int" where
  "to_int32 n = (let k = int (n mod 2 ^ 32) in if k < 2 ^ 31 then k else k - 2 ^ 32)"

text \<open>\<open>morecore\<close>: the outer option is a call of \<open>free\<close> that does not return, the inner one the null pointer.\<close>

definition morecore :: "grant \<Rightarrow> uheap \<Rightarrow> nat \<Rightarrow> (uheap \<times> nat option) option" where
  "morecore grants h nu =
     (let nu = (if nu < 4096 then 4096 else nu) in
      case sbrk grants h (to_int32 (nu * 16)) of
        None \<Rightarrow> Some (h, None)
      | Some (hp, h) \<Rightarrow>
          (case ufree (h\<lparr>hsize := (hsize h)(hp := nu)\<rparr>) (hp + 16) of
             None \<Rightarrow> None
           | Some h \<Rightarrow> Some (h, Some (freep h))))"

text \<open>The block \<open>p\<close> has been found: it is unlinked, or its tail is cut off.\<close>

definition malloc_take :: "uheap \<Rightarrow> nat \<Rightarrow> nat \<Rightarrow> nat \<Rightarrow> uheap \<times> nat" where
  "malloc_take h nunits prevp p =
     (if hsize h p = nunits then (h\<lparr>hptr := (hptr h)(prevp := hptr h p), freep := prevp\<rparr>, p + 16)
      else let rest = hsize h p - nunits; q = p + 16 * rest in
        (h\<lparr>hsize := (hsize h)(p := rest, q := nunits), freep := prevp\<rparr>, q + 16))"

partial_function (option) malloc_loop ::
  "grant \<Rightarrow> uheap \<Rightarrow> nat \<Rightarrow> nat \<Rightarrow> nat \<Rightarrow> (uheap \<times> nat) option" where
  "malloc_loop grants h nunits prevp p =
     (if nunits \<le> hsize h p then Some (malloc_take h nunits prevp p)
      else if p = freep h then
        (case morecore grants h nunits of
           None \<Rightarrow> None
         | Some (h, None) \<Rightarrow> Some (h, 0)
         | Some (h, Some p) \<Rightarrow> malloc_loop grants h nunits p (hptr h p))
      else malloc_loop grants h nunits p (hptr h p))"

definition units_for :: "nat \<Rightarrow> nat" where
  "units_for nbytes = (nbytes + 16 - 1) div 16 + 1"

text \<open>The test of \<open>freep\<close> at the start of \<open>malloc\<close> builds the empty list.\<close>

definition malloc_init :: "uheap \<Rightarrow> uheap" where
  "malloc_init h = (if freep h = 0
     then h\<lparr>freep := base h, hptr := (hptr h)(base h := base h), hsize := (hsize h)(base h := 0)\<rparr> else h)"

definition malloc :: "grant \<Rightarrow> uheap \<Rightarrow> nat \<Rightarrow> (uheap \<times> nat) option" where
  "malloc grants h nbytes =
     (let nunits = units_for nbytes; h = malloc_init h in
      malloc_loop grants h nunits (freep h) (hptr h (freep h)))"

section \<open>The free list\<close>

text \<open>The headers of a list, each pointing to the next one and the last one to \<open>e\<close>.\<close>

fun chain :: "uheap \<Rightarrow> nat list \<Rightarrow> nat \<Rightarrow> bool" where
  "chain h [] e \<longleftrightarrow> True"
| "chain h (a # as) e \<longleftrightarrow> hptr h a = hd (as @ [e]) \<and> chain h as e"

text \<open>Blocks in the order of their addresses, none empty and none touching the one before it.\<close>

fun laid :: "uheap \<Rightarrow> nat \<Rightarrow> nat list \<Rightarrow> nat \<Rightarrow> bool" where
  "laid h lo [] hi \<longleftrightarrow> lo \<le> hi"
| "laid h lo (a # as) hi \<longleftrightarrow> lo < a \<and> 0 < hsize h a \<and> laid h (a + 16 * hsize h a) as hi"

definition stop :: "uheap \<Rightarrow> nat \<Rightarrow> nat list \<Rightarrow> nat" where
  "stop h lo as = (if as = [] then lo else last as + 16 * hsize h (last as))"

definition blk :: "nat \<Rightarrow> nat \<Rightarrow> nat set" where
  "blk a n = {a..<a + 16 * n}"

definition free_bytes :: "uheap \<Rightarrow> nat list \<Rightarrow> nat set" where
  "free_bytes h as = (\<Union>a\<in>set as. blk a (hsize h a))"

definition free_list :: "uheap \<Rightarrow> nat list \<Rightarrow> bool" where
  "free_list h as \<longleftrightarrow> chain h (base h # as) (base h) \<and> laid h (base h) as (brk h) \<and> hsize h (base h) = 0 \<and>
     freep h \<in> set (base h # as) \<and> brk h \<le> 2 ^ 36 \<and> 0 < base h \<and> base h + 16 \<le> brk h"

lemma chain_append: "chain h (xs @ ys) e \<longleftrightarrow> chain h xs (hd (ys @ [e])) \<and> chain h ys e"
proof (induction xs)
  case (Cons x xs)
  then show ?case by (cases xs) auto
qed simp

lemma laid_append:
  "laid h lo (xs @ ys) hi \<longleftrightarrow> laid h lo xs (stop h lo xs) \<and> laid h (stop h lo xs) ys hi"
proof (induction xs arbitrary: lo)
  case (Cons x xs)
  then show ?case by (auto simp: stop_def)
qed (simp add: stop_def)

lemma chain_cong: "(\<And>a. a \<in> set as \<Longrightarrow> hptr h a = hptr h' a) \<Longrightarrow> chain h as e = chain h' as e"
  by (induction as) auto

lemma laid_cong: "(\<And>a. a \<in> set as \<Longrightarrow> hsize h a = hsize h' a) \<Longrightarrow> laid h lo as hi = laid h' lo as hi"
  by (induction as arbitrary: lo) auto

lemma laid_bounds: "laid h lo as hi \<Longrightarrow> a \<in> set as \<Longrightarrow> lo < a \<and> 0 < hsize h a \<and> a + 16 * hsize h a \<le> hi"
proof (induction as arbitrary: lo)
  case (Cons b as)
  have le: "laid h k as hi \<Longrightarrow> k \<le> hi" for k by (induction as arbitrary: k) force+
  show ?case
  proof (cases "a = b")
    case True
    then show ?thesis using Cons.prems le by auto
  next
    case False
    then show ?thesis using Cons by force
  qed
qed simp

lemma laid_le: "laid h lo as hi \<Longrightarrow> lo \<le> hi"
  by (induction as arbitrary: lo) force+

lemma laid_sorted: "laid h lo as hi \<Longrightarrow> sorted_wrt (<) (lo # as)"
proof (induction as arbitrary: lo)
  case (Cons b as)
  then have "sorted_wrt (<) ((b + 16 * hsize h b) # as)" by auto
  then show ?case using Cons.prems by auto
qed simp

lemma laid_mono: "laid h lo as hi \<Longrightarrow> hi \<le> hi' \<Longrightarrow> lo' \<le> lo \<Longrightarrow> laid h lo' as hi'"
  by (induction as arbitrary: lo lo') auto

section \<open>Finding the place of a block\<close>

lemma find_before:
  assumes "chain h (a # zs) e" and "sorted_wrt (<) (a # zs)" and "\<forall>z\<in>set (a # zs). z < bp"
    and "bp < e \<or> e \<le> last (a # zs)"
  shows "free_find h bp a = Some (last (a # zs))"
  using assms
proof (induction zs arbitrary: a)
  case Nil
  then show ?case by (subst free_find.simps) auto
next
  case (Cons b zs)
  then have "free_find h bp b = Some (last (b # zs))" by (intro Cons.IH) auto
  then show ?case using Cons.prems by (subst free_find.simps) auto
qed

lemma find_after:
  assumes "chain h (a # zs) e" and "sorted_wrt (<) (a # zs)" and "\<forall>z\<in>set (a # zs). bp < z" and "e < bp"
  shows "free_find h bp a = free_find h bp e"
  using assms
proof (induction zs arbitrary: a)
  case Nil
  then show ?case by (subst free_find.simps) auto
next
  case (Cons b zs)
  then have "free_find h bp b = free_find h bp e" by (intro Cons.IH) auto
  then show ?case using Cons.prems by (subst free_find.simps) auto
qed

lemma find_place:
  assumes fl: "free_list h (xs @ ys)" and xs: "\<forall>x\<in>set xs. x < bp" and ys: "\<forall>y\<in>set ys. bp < y" and "base h < bp"
  shows "free_find h bp (freep h) = Some (last (base h # xs))"
proof -
  let ?b = "base h"
  have ch: "chain h (?b # xs) (hd (ys @ [?b]))" "chain h ys ?b"
    using fl chain_append [of h "?b # xs" ys ?b] by (auto simp: free_list_def)
  have so: "sorted_wrt (<) (?b # xs @ ys)" using fl laid_sorted by (auto simp: free_list_def)
  have early: "free_find h bp p = Some (last (?b # xs))" if m: "p \<in> set (?b # xs)" for p
  proof -
    obtain us vs where s: "?b # xs = us @ p # vs" using split_list [OF m] by blast
    have "chain h (us @ p # vs) (hd (ys @ [?b]))" "sorted_wrt (<) (us @ p # vs)" "\<forall>z\<in>set (us @ p # vs). z < bp"
      using ch(1) so xs \<open>base h < bp\<close> sorted_wrt_append [of "(<)" "?b # xs" ys] unfolding s [symmetric] by auto
    moreover have "?b \<le> last (p # vs)"
    proof -
      have "last (p # vs) = last (?b # xs)" by (simp add: s)
      also have "?b \<le> \<dots>" using so by (auto simp: less_imp_le)
      finally show ?thesis .
    qed
    moreover have "bp < hd (ys @ [?b]) \<or> hd (ys @ [?b]) = ?b" using ys by (cases ys) auto
    ultimately have "free_find h bp p = Some (last (p # vs))"
      by (intro find_before [where e = "hd (ys @ [?b])"]) (auto simp: chain_append sorted_wrt_append)
    then show ?thesis by (simp add: s)
  qed
  have "freep h \<in> set (?b # xs) \<or> freep h \<in> set ys" using fl by (auto simp: free_list_def)
  then show ?thesis
  proof
    assume "freep h \<in> set ys"
    then obtain us vs where s: "ys = us @ freep h # vs" by (meson split_list)
    have "free_find h bp (freep h) = free_find h bp ?b"
      using ch(2) so ys \<open>base h < bp\<close> unfolding s
      by (intro find_after [where zs = vs]) (auto simp: chain_append sorted_wrt_append)
    then show ?thesis using early [of ?b] by simp
  qed (use early in auto)
qed

section \<open>Linking a block\<close>

lemma join_mod:
  fixes n m :: nat
  shows "a + 16 * (n + m) \<le> 2 ^ 36 \<Longrightarrow> 0 < a \<Longrightarrow> (n + m) mod 2 ^ 32 = n + m"
  by (rule mod_less) simp

lemma chain_upd [simp]:
  "chain (h\<lparr>hsize := f\<rparr>) as e = chain h as e"
  "a \<notin> set as \<Longrightarrow> chain (h\<lparr>hptr := (hptr h)(a := v)\<rparr>) as e = chain h as e"
  "a \<notin> set as \<Longrightarrow> chain (h\<lparr>hsize := f, hptr := (hptr h)(a := v)\<rparr>) as e = chain h as e"
  by (auto intro!: chain_cong)

lemma laid_upd [simp]:
  "laid (h\<lparr>hptr := g\<rparr>) lo as hi = laid h lo as hi"
  "a \<notin> set as \<Longrightarrow> laid (h\<lparr>hsize := (hsize h)(a := v)\<rparr>) lo as hi = laid h lo as hi"
  "a \<notin> set as \<Longrightarrow> laid (h\<lparr>hsize := (hsize h)(a := v), hptr := g\<rparr>) lo as hi = laid h lo as hi"
  by (auto intro!: laid_cong)

lemma free_bytes_upd [simp]:
  "free_bytes (h\<lparr>hptr := g\<rparr>) as = free_bytes h as"
  "a \<notin> set as \<Longrightarrow> free_bytes (h\<lparr>hsize := (hsize h)(a := v)\<rparr>) as = free_bytes h as"
  "a \<notin> set as \<Longrightarrow> free_bytes (h\<lparr>hsize := (hsize h)(a := v), hptr := g\<rparr>) as = free_bytes h as"
  by (auto simp: free_bytes_def split: if_splits)

lemma blk_join: "a + 16 * n = b \<Longrightarrow> blk a (n + m) = blk a n \<union> blk b m"
  by (auto simp: blk_def)

lemma free_bytes_simps [simp]:
  "free_bytes h [] = {}" "free_bytes h (a # as) = blk a (hsize h a) \<union> free_bytes h as"
  "free_bytes h (xs @ ys) = free_bytes h xs \<union> free_bytes h ys"
  by (auto simp: free_bytes_def)

lemma join_next_law:
  assumes ys: "chain h ys e" "laid h lo ys hi" "bp + 16 * hsize h bp \<le> hd (ys @ [hi])" "lo \<le> bp"
    and p: "hptr h p = hd (ys @ [e])" and bp: "e < bp" "0 < hsize h bp" and hi: "hi \<le> 2 ^ 36"
  defines "h1 \<equiv> join_next h bp p"
  shows "\<exists>zs. set zs \<subseteq> set ys \<and> chain h1 (bp # zs) e \<and> laid h1 (bp + 16 * hsize h1 bp) zs hi \<and> 0 < hsize h1 bp \<and>
    free_bytes h1 (bp # zs) = blk bp (hsize h bp) \<union> free_bytes h ys \<and>
    (\<forall>a. a \<noteq> bp \<longrightarrow> hptr h1 a = hptr h a \<and> hsize h1 a = hsize h a) \<and> base h1 = base h \<and> brk h1 = brk h"
proof (cases ys)
  case Nil
  then show ?thesis using assms by (intro exI [of _ "[]"]) (auto simp: join_next_def)
next
  case (Cons n zs)
  have le: "n + 16 * hsize h n \<le> hi" and n: "bp + 16 * hsize h bp \<le> n" "hptr h p = n" "hptr h n = hd (zs @ [e])"
    using ys(1,2,3) p laid_bounds [OF ys(2), of n] by (auto simp: Cons)
  have out: "bp \<notin> set ys" using laid_sorted [OF ys(2)] n bp(2) by (auto simp: Cons)
  show ?thesis
  proof (cases "bp + 16 * hsize h bp = n")
    case True
    then have m: "(hsize h bp + hsize h n) mod 2 ^ 32 = hsize h bp + hsize h n"
      using le hi bp(1) by (intro join_mod [of bp]) auto
    have "h1 = h\<lparr>hsize := (hsize h)(bp := hsize h bp + hsize h n), hptr := (hptr h)(bp := hd (zs @ [e]))\<rparr>"
      using True n m by (simp add: h1_def join_next_def)
    moreover have "bp \<notin> set zs" "bp \<noteq> n" using out by (auto simp: Cons)
    ultimately show ?thesis
      using True blk_join [OF True, of "hsize h n"] bp(2) ys(1,2)
      by (intro exI [of _ zs]) (auto simp: Cons algebra_simps)
  next
    case False
    then have "h1 = h\<lparr>hptr := (hptr h)(bp := n)\<rparr>" using n by (simp add: h1_def join_next_def)
    then show ?thesis using False n bp(2) out ys(1,2) by (intro exI [of _ ys]) (auto simp: Cons)
  qed
qed

lemma join_prev_law:
  assumes xs: "chain h (e # xs) d" "laid h e xs (stop h e xs)" "stop h e xs \<le> bp" "hsize h e = 0"
    and zs: "chain h (bp # zs) e" "laid h (bp + 16 * hsize h bp) zs hi" "0 < hsize h bp" and hi: "hi \<le> 2 ^ 36" and e: "e < bp"
  defines "p \<equiv> last (e # xs)"
  defines "h2 \<equiv> join_prev h bp p"
  shows "\<exists>as. set as \<subseteq> set (xs @ bp # zs) \<and> chain h2 (e # as) e \<and> laid h2 e as hi \<and> hsize h2 e = 0 \<and> p \<in> set (e # as) \<and>
    free_bytes h2 as = free_bytes h xs \<union> free_bytes h (bp # zs) \<and>
    (\<forall>a. a \<notin> set (xs @ [bp]) \<longrightarrow> hsize h2 a = hsize h a) \<and> base h2 = base h \<and> brk h2 = brk h"
proof -
  have le: "bp + 16 * hsize h bp \<le> hi" using laid_le [OF zs(2)] .
  have p: "p \<noteq> bp" "p + 16 * hsize h p \<le> bp" "xs = [] \<longleftrightarrow> p = e"
  proof -
    have "xs \<noteq> [] \<Longrightarrow> e < last xs \<and> 0 < hsize h (last xs)" using laid_bounds [OF xs(2), of "last xs"] by auto
    then show "p \<noteq> bp" "p + 16 * hsize h p \<le> bp" "xs = [] \<longleftrightarrow> p = e" using xs(3,4) e by (auto simp: p_def stop_def)
  qed
  have z: "\<forall>z\<in>set zs. bp < z" using laid_sorted [OF zs(2)] by auto
  have ws: "\<exists>ws. e # xs = ws @ [p]" unfolding p_def by (metis append_butlast_last_id list.distinct(1))
  then obtain ws where ws: "e # xs = ws @ [p]" by blast
  have so: "sorted_wrt (<) (e # xs)" using laid_sorted [OF xs(2)] .
  then have wlt: "\<forall>w\<in>set ws. w < p" unfolding ws by (simp add: sorted_wrt_append)
  have pb: "p < bp" using p by auto
  have d: "chain h ws p" using xs(1) unfolding ws chain_append by simp
  show ?thesis
  proof (cases "p + 16 * hsize h p = bp")
    case True
    then have "p \<noteq> e" using xs(4) e by auto
    then obtain vs where vs: "xs = vs @ [p]" "ws = e # vs" using p(3) ws by (cases ws) auto
    have m: "(hsize h p + hsize h bp) mod 2 ^ 32 = hsize h p + hsize h bp"
      using le hi True laid_bounds [OF xs(2), of p] vs by (intro join_mod [of p]) auto
    have h2: "h2 = h\<lparr>hsize := (hsize h)(p := hsize h p + hsize h bp), hptr := (hptr h)(p := hd (zs @ [e]))\<rparr>"
      using True m zs(1) by (simp add: h2_def join_prev_def)
    have out: "p \<notin> set vs" "p \<notin> set zs" "p \<noteq> e" using wlt z pb vs by auto
    have st: "stop h2 e vs = stop h e vs" using out by (auto simp: stop_def h2)
    have pv: "stop h e vs < p" "0 < hsize h p" "laid h e vs (stop h e vs)" using xs(2) unfolding vs laid_append by auto
    have "chain h2 ((e # vs) @ p # zs) e"
      unfolding chain_append using d zs(1) out by (simp add: h2 vs)
    moreover have "laid h2 e (vs @ p # zs) hi"
    proof -
      have eq: "bp + 16 * hsize h bp = p + (16 * hsize h p + 16 * hsize h bp)" using True by simp
      show ?thesis unfolding laid_append st using pv zs(2) [unfolded eq] out by (simp add: h2)
    qed
    moreover have "free_bytes h2 (vs @ p # zs) = free_bytes h xs \<union> free_bytes h (bp # zs)"
      using out blk_join [OF True, of "hsize h bp"] by (auto simp: h2 vs)
    ultimately show ?thesis
      using xs(4) out by (intro exI [of _ "vs @ p # zs"]) (simp add: vs, auto simp: h2)
  next
    case False
    then have h2: "h2 = h\<lparr>hptr := (hptr h)(p := bp)\<rparr>" by (simp add: h2_def join_prev_def)
    have cong: "laid h2 l as u = laid h l as u" "stop h2 l as = stop h l as" "free_bytes h2 as = free_bytes h as" for l as u
      by (simp_all add: h2 stop_def)
    have "p \<notin> set ws" "p \<notin> set (bp # zs)" using wlt z pb by auto
    then have "chain h2 ws p" "chain h2 (bp # zs) e" "hptr h2 p = bp"
      using d zs(1) chain_cong [of ws h h2 p] chain_cong [of "bp # zs" h h2 e] by (auto simp: h2)
    then have "chain h2 (ws @ [p] @ bp # zs) e" unfolding chain_append by simp
    moreover have "e # xs @ bp # zs = ws @ [p] @ bp # zs" using arg_cong [OF ws, of "\<lambda>l. l @ bp # zs"] by simp
    ultimately have "chain h2 (e # xs @ bp # zs) e" by (simp only:)
    moreover have "stop h e xs < bp" using False xs(3,4) e by (cases "xs = []") (simp_all add: stop_def p_def)
    then have "laid h2 e (xs @ bp # zs) hi" using xs(2) zs unfolding cong laid_append by simp
    moreover have "p \<in> set (e # xs @ bp # zs)" using p_def last_in_set [of "e # xs"] by auto
    ultimately show ?thesis
      using xs(4) by (intro exI [of _ "xs @ bp # zs"]) (simp add: cong del: chain.simps laid.simps, simp add: h2)
  qed
qed

section \<open>free\<close>

text \<open>A block that lies in the heap, outside the free ones, has a place between two of them.\<close>

lemma place_exists:
  assumes "laid h lo as hi" and "lo \<le> bp" and "0 < n" and "bp + 16 * n \<le> hi" and "blk bp n \<inter> free_bytes h as = {}"
  shows "\<exists>xs ys. as = xs @ ys \<and> stop h lo xs \<le> bp \<and> bp + 16 * n \<le> hd (ys @ [hi])"
  using assms
proof (induction as arbitrary: lo)
  case Nil
  then show ?case by (intro exI [of _ "[]"]) (simp add: stop_def)
next
  case (Cons a as)
  have dis: "blk bp n \<inter> blk a (hsize h a) = {}" "blk bp n \<inter> free_bytes h as = {}" using Cons.prems(5) by auto
  show ?case
  proof (cases "bp < a")
    case True
    have "a \<in> blk a (hsize h a)" using Cons.prems(1) by (simp add: blk_def)
    then have "a \<notin> blk bp n" using dis(1) by auto
    then have "bp + 16 * n \<le> a" using True by (simp add: blk_def)
    then show ?thesis using Cons.prems(2) by (intro exI [of _ "[]"] exI [of _ "a # as"]) (simp add: stop_def)
  next
    case False
    have "bp \<in> blk bp n" using Cons.prems(3) by (simp add: blk_def)
    then have "bp \<notin> blk a (hsize h a)" using dis(1) by auto
    then have "a + 16 * hsize h a \<le> bp" using False by (auto simp: blk_def)
    then obtain xs ys where "as = xs @ ys" "stop h (a + 16 * hsize h a) xs \<le> bp" "bp + 16 * n \<le> hd (ys @ [hi])"
      using Cons.IH [of "a + 16 * hsize h a"] Cons.prems dis(2) by auto
    then show ?thesis by (intro exI [of _ "a # xs"] exI [of _ ys]) (auto simp: stop_def)
  qed
qed

text \<open>What an operation does to the allocator: the heap has grown to \<open>hi\<close>, and the free bytes are \<open>F\<close>.\<close>

definition frees :: "uheap \<Rightarrow> uheap \<Rightarrow> nat list \<Rightarrow> nat set \<Rightarrow> nat \<Rightarrow> bool" where
  "frees h h' as F hi \<longleftrightarrow> free_list h' as \<and> free_bytes h' as = F \<and> base h' = base h \<and> brk h' = hi"

lemma ufree_law:
  assumes fl: "free_list h as" and bp: "base h < bp" "0 < hsize h bp" "bp + 16 * hsize h bp \<le> brk h"
    and dis: "blk bp (hsize h bp) \<inter> free_bytes h as = {}"
  shows "\<exists>h' as'. ufree h (bp + 16) = Some h' \<and> frees h h' as' (free_bytes h as \<union> blk bp (hsize h bp)) (brk h) \<and>
    (\<forall>a. a \<notin> set as \<and> a \<noteq> bp \<longrightarrow> hsize h' a = hsize h a)"
proof -
  let ?b = "base h"
  obtain xs ys where s: "as = xs @ ys" "stop h ?b xs \<le> bp" "bp + 16 * hsize h bp \<le> hd (ys @ [brk h])"
    using place_exists [of h ?b as "brk h" bp "hsize h bp"] fl bp dis by (auto simp: free_list_def)
  let ?p = "last (?b # xs)"
  have la: "laid h ?b xs (stop h ?b xs)" "laid h (stop h ?b xs) ys (brk h)"
    and ch: "chain h (?b # xs) (hd (ys @ [?b]))" "chain h ys ?b"
    using fl chain_append [of h "?b # xs" ys ?b] by (auto simp: free_list_def s(1) laid_append)
  have x: "\<forall>x\<in>set xs. x < bp" using laid_bounds [OF la(1)] s(2) by force
  have y: "\<forall>y\<in>set ys. bp < y" using laid_sorted [OF la(2)] s(3) bp(2) by (cases ys) auto
  have found: "free_find h bp (freep h) = Some ?p" using fl x y bp(1) unfolding s(1) by (rule find_place)
  let ?h1 = "join_next h bp ?p"
  have ptr: "hptr h ?p = hd (ys @ [?b])"
  proof -
    obtain ws where "?b # xs = ws @ [?p]" by (metis append_butlast_last_id list.distinct(1))
    then show ?thesis using ch(1) chain_append [of h ws "[?p]" "hd (ys @ [?b])"] by simp
  qed
  obtain zs where z: "set zs \<subseteq> set ys" "chain ?h1 (bp # zs) ?b" "laid ?h1 (bp + 16 * hsize ?h1 bp) zs (brk h)"
      "0 < hsize ?h1 bp" "free_bytes ?h1 (bp # zs) = blk bp (hsize h bp) \<union> free_bytes h ys"
      "\<forall>a. a \<noteq> bp \<longrightarrow> hptr ?h1 a = hptr h a \<and> hsize ?h1 a = hsize h a" "base ?h1 = ?b" "brk ?h1 = brk h"
    using join_next_law [OF ch(2) la(2) s(3,2) ptr bp(1,2)] fl by (auto simp: free_list_def)
  have old: "\<forall>a\<in>set (?b # xs). hptr ?h1 a = hptr h a \<and> hsize ?h1 a = hsize h a" using z(6) x bp(1) by auto
  have st: "stop ?h1 ?b xs = stop h ?b xs" "laid ?h1 ?b xs (stop h ?b xs)" "chain ?h1 (?b # xs) (hd (ys @ [?b]))"
      "free_bytes ?h1 xs = free_bytes h xs" "hsize ?h1 ?b = 0"
  proof -
    show "stop ?h1 ?b xs = stop h ?b xs" using old unfolding stop_def by (metis last_in_set list.set_intros(2))
    show "laid ?h1 ?b xs (stop h ?b xs)" using la(1) laid_cong [of xs ?h1 h] old by simp
    show "chain ?h1 (?b # xs) (hd (ys @ [?b]))" using ch(1) chain_cong [of "?b # xs" ?h1 h] old by blast
    show "free_bytes ?h1 xs = free_bytes h xs" unfolding free_bytes_def using old by (intro SUP_cong) auto
    show "hsize ?h1 ?b = 0" using old fl by (simp add: free_list_def)
  qed
  let ?h2 = "join_prev ?h1 bp ?p"
  obtain as' where a: "set as' \<subseteq> set (xs @ bp # zs)" "chain ?h2 (?b # as') ?b" "laid ?h2 ?b as' (brk h)" "hsize ?h2 ?b = 0"
      "?p \<in> set (?b # as')" "free_bytes ?h2 as' = free_bytes ?h1 xs \<union> free_bytes ?h1 (bp # zs)"
      "\<forall>a. a \<notin> set (xs @ [bp]) \<longrightarrow> hsize ?h2 a = hsize ?h1 a" "base ?h2 = ?b" "brk ?h2 = brk h"
    using join_prev_law [of ?h1 ?b xs "hd (ys @ [?b])" bp zs "brk h"] st z s(2) bp(1) fl by (auto simp: free_list_def)
  have same: "chain (?h2\<lparr>freep := q\<rparr>) as e = chain ?h2 as e" "laid (?h2\<lparr>freep := q\<rparr>) l as u = laid ?h2 l as u"
      "free_bytes (?h2\<lparr>freep := q\<rparr>) as = free_bytes ?h2 as" for q as e l u
    by (auto intro!: chain_cong laid_cong simp: free_bytes_def)
  have "frees h (free_link h bp ?p) as' (free_bytes h as \<union> blk bp (hsize h bp)) (brk h)"
    using a z(5) st(4) fl unfolding frees_def free_list_def free_link_def same by (auto simp: s(1))
  moreover have "\<forall>a. a \<notin> set as \<and> a \<noteq> bp \<longrightarrow> hsize (free_link h bp ?p) a = hsize h a"
    using a(7) z(6) by (auto simp: free_link_def s(1))
  ultimately show ?thesis using found by (auto simp: ufree_def)
qed

section \<open>malloc\<close>

lemma free_list_distinct: "free_list h as \<Longrightarrow> distinct (base h # as)"
  using laid_sorted [of h "base h" as "brk h"] by (auto simp: free_list_def strict_sorted_iff)

lemma chain_pred:
  assumes "chain h (xs @ z # ys) e" and "distinct (xs @ z # ys)" and "q \<in> set (xs @ z # ys)" and "hptr h q = z" and "z \<noteq> e"
  shows "\<exists>ws. xs = ws @ [q]"
proof -
  obtain us vs where s: "xs @ z # ys = us @ q # vs" using split_list [OF assms(3)] by blast
  have "hd (vs @ [e]) = z" using assms(1,4) unfolding s chain_append by simp
  then obtain vs' where v: "vs = z # vs'" using assms(5) by (cases vs) auto
  have "z \<notin> set (us @ [q])" using assms(2) unfolding s v by auto
  moreover have "(us @ [q]) @ z # vs' = xs @ z # ys" using s v by simp
  moreover have "z \<notin> set vs'" using assms(2) unfolding s v by auto
  ultimately have "us @ [q] = xs" using append_Cons_eq_iff [of z "us @ [q]" vs' xs ys] by simp
  then show ?thesis by blast
qed

text \<open>The block is taken out of the list, or cut.\<close>

definition takes :: "uheap \<Rightarrow> uheap \<Rightarrow> nat set \<Rightarrow> nat \<Rightarrow> nat \<Rightarrow> nat list \<Rightarrow> bool" where
  "takes h h' F n r as \<longleftrightarrow> (\<exists>as' bp. r = bp + 16 \<and> base h < bp \<and> free_list h' as' \<and> hsize h' bp = n \<and>
     free_bytes h' as' \<union> blk bp n = F \<and> free_bytes h' as' \<inter> blk bp n = {} \<and> base h' = base h \<and> brk h' = brk h \<and>
     (\<forall>a. a \<notin> set as \<and> a \<noteq> bp \<longrightarrow> hsize h' a = hsize h a))"

lemma laid_disjoint: "laid h lo (a # as) hi \<Longrightarrow> blk a (hsize h a) \<inter> free_bytes h as = {}"
  using laid_bounds [of h "a + 16 * hsize h a" as hi] by (force simp: free_bytes_def blk_def)

lemma laid_before: "laid h lo as hi \<Longrightarrow> free_bytes h as \<subseteq> {lo..<hi}"
  using laid_bounds [of h lo as hi] by (force simp: free_bytes_def blk_def)

lemma take_all:
  assumes fl: "free_list h (xs @ z # ys)" and q: "base h # xs = ws @ [q]"
  shows "takes h (h\<lparr>hptr := (hptr h)(q := hptr h z), freep := q\<rparr>) (free_bytes h (xs @ z # ys)) (hsize h z) (z + 16) (xs @ z # ys)"
proof -
  let ?b = "base h" and ?h' = "h\<lparr>hptr := (hptr h)(q := hptr h z), freep := q\<rparr>"
  have la: "laid h ?b xs (stop h ?b xs)" "laid h (stop h ?b xs) (z # ys) (brk h)" using fl by (auto simp: free_list_def laid_append)
  have eq: "?b # xs @ z # ys = ws @ [q] @ z # ys" using arg_cong [OF q, of "\<lambda>l. l @ z # ys"] by simp
  have ch: "chain h (ws @ [q] @ z # ys) ?b" using fl unfolding free_list_def eq by simp
  have d: "distinct (ws @ [q] @ z # ys)" using free_list_distinct [OF fl] unfolding eq .
  have same: "laid ?h' l as u = laid h l as u" "free_bytes ?h' as = free_bytes h as" for l as u
    by (auto intro!: laid_cong simp: free_bytes_def)
  have "chain ?h' (ws @ [q] @ ys) ?b"
  proof -
    have "chain ?h' ws q = chain h ws q" "chain ?h' ys ?b = chain h ys ?b" using d by (auto intro!: chain_cong)
    then show ?thesis using ch unfolding chain_append by simp
  qed
  moreover have "?b # xs @ ys = ws @ [q] @ ys" using arg_cong [OF q, of "\<lambda>l. l @ ys"] by simp
  ultimately have "chain ?h' (?b # xs @ ys) ?b" by (simp only:)
  moreover have "laid h ?b (xs @ ys) (brk h)"
    using la laid_mono [of h "z + 16 * hsize h z" ys "brk h" "brk h" "stop h ?b xs"] by (simp add: laid_append)
  moreover have "q \<in> set (?b # xs @ ys)" using q by (metis Un_iff append_Cons in_set_conv_decomp set_append)
  ultimately have "free_list ?h' (xs @ ys)" using fl unfolding free_list_def same by simp
  moreover have "free_bytes h xs \<inter> blk z (hsize h z) = {}" "blk z (hsize h z) \<inter> free_bytes h ys = {}" "?b < z"
    using laid_before [OF la(1)] la(2) laid_disjoint [OF la(2)] laid_le [OF la(1)] by (auto simp: blk_def)
  ultimately show ?thesis
    unfolding takes_def by (intro exI [of _ "xs @ ys"] exI [of _ z]) (auto simp: same)
qed

lemma take_tail:
  assumes fl: "free_list h (xs @ z # ys)" and n: "0 < n" "n < hsize h z" and q: "q \<in> set (base h # xs @ z # ys)"
  defines "k \<equiv> hsize h z - n"
  shows "takes h (h\<lparr>hsize := (hsize h)(z := k, z + 16 * k := n), freep := q\<rparr>) (free_bytes h (xs @ z # ys)) n (z + 16 * k + 16)
    (xs @ z # ys)"
proof -
  let ?b = "base h" and ?p = "z + 16 * k" and ?h' = "h\<lparr>hsize := (hsize h)(z := k, z + 16 * k := n), freep := q\<rparr>"
  have la: "laid h ?b xs (stop h ?b xs)" "stop h ?b xs < z" "laid h (z + 16 * hsize h z) ys (brk h)"
    using fl by (auto simp: free_list_def laid_append)
  have k: "0 < k" "?p + 16 * n = z + 16 * hsize h z" using n by (auto simp: k_def algebra_simps)
  have x: "\<forall>x\<in>set (?b # xs). x < z" using laid_bounds [OF la(1)] la(2) laid_le [OF la(1)] by force
  have y: "\<forall>y\<in>set ys. ?p < y" using laid_sorted [OF la(3)] k n(1) by auto
  have out: "z \<notin> set xs" "?p \<notin> set xs" "z \<notin> set ys" "?p \<notin> set ys" "?p \<noteq> ?b" "z \<noteq> ?b" "?p \<noteq> z" using x y k by fastforce+
  have "xs \<noteq> [] \<Longrightarrow> last xs \<noteq> z \<and> last xs \<noteq> ?p" using out(1,2) last_in_set by metis
  then have st: "stop ?h' ?b xs = stop h ?b xs" by (simp add: stop_def)
  have "laid ?h' ?b xs (stop h ?b xs)" "laid ?h' ?p ys (brk h)"
  proof -
    have "laid ?h' lo l hi = laid h lo l hi" if "z \<notin> set l" "?p \<notin> set l" for lo l hi
      using that by (intro laid_cong) auto
    then show "laid ?h' ?b xs (stop h ?b xs)" "laid ?h' ?p ys (brk h)"
      using la(1,3) out laid_mono [OF la(3), of "brk h" ?p] k by auto
  qed
  then have "laid ?h' ?b (xs @ z # ys) (brk h)" using la(2) out k unfolding laid_append st by simp
  moreover have "chain ?h' (?b # xs @ z # ys) ?b" using fl chain_cong [of "?b # xs @ z # ys" ?h' h ?b] by (simp add: free_list_def)
  ultimately have "free_list ?h' (xs @ z # ys)" using fl q out unfolding free_list_def by simp
  moreover have fb: "free_bytes ?h' xs = free_bytes h xs" "free_bytes ?h' ys = free_bytes h ys"
    using out unfolding free_bytes_def by (auto split: if_splits)
  moreover have "blk z (hsize h z) = blk z k \<union> blk ?p n" using blk_join [of z k ?p n] n by (simp add: k_def)
  moreover have "blk z k \<inter> blk ?p n = {}" "free_bytes h xs \<inter> blk ?p n = {}" "blk ?p n \<inter> free_bytes h ys = {}"
    using laid_before [OF la(1)] laid_before [OF la(3)] la(2) k by (auto simp: blk_def)
  ultimately show ?thesis
    using out x unfolding takes_def by (intro exI [of _ "xs @ z # ys"] exI [of _ ?p]) (auto simp: k_def)
qed

lemma take_law:
  assumes fl: "free_list h as" and q: "q \<in> set (base h # as)" and n: "0 < n" "n \<le> hsize h (hptr h q)"
  shows "takes h (fst (malloc_take h n q (hptr h q))) (free_bytes h as) n (snd (malloc_take h n q (hptr h q))) as"
proof -
  let ?z = "hptr h q" and ?b = "base h"
  obtain us vs where s: "?b # as = us @ q # vs" using split_list [OF q] by blast
  have "?z = hd (vs @ [?b])" using fl chain_append [of h us "q # vs" ?b] unfolding free_list_def s by simp
  then have "?z \<in> set (?b # vs)" by (cases vs) auto
  moreover have "set vs \<subseteq> set (?b # as)" unfolding s by auto
  ultimately have "?z \<in> set (?b # as)" by auto
  moreover have zb: "?z \<noteq> ?b" using n fl by (auto simp: free_list_def)
  ultimately obtain xs ys where as: "as = xs @ ?z # ys" using split_list by fastforce
  obtain ws where ws: "?b # xs = ws @ [q]"
    using chain_pred [of h "?b # xs" ?z ys ?b q] fl free_list_distinct [OF fl] q zb as by (auto simp: free_list_def)
  show ?thesis
  proof (cases "hsize h ?z = n")
    case True
    then show ?thesis using take_all [OF _ ws, of ?z ys] fl as by (simp add: malloc_take_def)
  next
    case False
    then show ?thesis
      using take_tail [of h xs ?z ys n q] fl n q as by (simp add: malloc_take_def Let_def)
  qed
qed

section \<open>The search\<close>

lemma malloc_scan:
  assumes "chain h (q # zs) (freep h)" and "freep h \<notin> set zs"
  shows "(\<exists>q'\<in>set (q # zs). n \<le> hsize h (hptr h q') \<and>
      malloc_loop g h n q (hptr h q) = Some (malloc_take h n q' (hptr h q'))) \<or>
    (\<forall>z\<in>set (zs @ [freep h]). hsize h z < n) \<and>
      malloc_loop g h n q (hptr h q) =
        (case morecore g h n of None \<Rightarrow> None | Some (h, None) \<Rightarrow> Some (h, 0)
         | Some (h, Some p) \<Rightarrow> malloc_loop g h n p (hptr h p))"
  using assms
proof (induction zs arbitrary: q)
  case Nil
  then show ?case by (subst (1 2) malloc_loop.simps) auto
next
  case (Cons z zs)
  have z: "hptr h q = z" "z \<noteq> freep h" using Cons.prems by auto
  show ?case
  proof (cases "n \<le> hsize h z")
    case True
    then show ?thesis using z by (subst (1) malloc_loop.simps) auto
  next
    case False
    then have eq: "malloc_loop g h n q (hptr h q) = malloc_loop g h n z (hptr h z)"
      using z by (subst malloc_loop.simps) simp
    show ?thesis using Cons.IH [of z] Cons.prems False unfolding eq by fastforce
  qed
qed

lemma free_list_ring:
  assumes fl: "free_list h as"
  shows "\<exists>zs. chain h (freep h # zs) (freep h) \<and> freep h \<notin> set zs \<and> set (zs @ [freep h]) = set (base h # as)"
proof -
  let ?b = "base h" and ?f = "freep h"
  have "?f \<in> set (?b # as)" using fl by (simp add: free_list_def)
  then obtain us vs where s: "?b # as = us @ ?f # vs" using split_list by fast
  have ch: "chain h us ?f" "chain h (?f # vs) ?b" using fl unfolding free_list_def s chain_append by auto
  have "hd (us @ [?f]) = ?b" using s by (cases us) auto
  then have "chain h ((?f # vs) @ us) ?f" unfolding chain_append using ch by simp
  moreover have "distinct (us @ ?f # vs)" using free_list_distinct [OF fl] unfolding s .
  moreover have "set ((vs @ us) @ [?f]) = set (?b # as)" unfolding s by auto
  ultimately show ?thesis by (intro exI [of _ "vs @ us"]) auto
qed

lemma malloc_search:
  assumes fl: "free_list h as" and n: "0 < n"
  shows "(\<exists>h' r. malloc_loop g h n (freep h) (hptr h (freep h)) = Some (h', r) \<and> takes h h' (free_bytes h as) n r as) \<or>
    (\<forall>z\<in>set as. hsize h z < n) \<and>
      malloc_loop g h n (freep h) (hptr h (freep h)) =
        (case morecore g h n of None \<Rightarrow> None | Some (h, None) \<Rightarrow> Some (h, 0)
         | Some (h, Some p) \<Rightarrow> malloc_loop g h n p (hptr h p))"
proof -
  obtain zs where zs: "chain h (freep h # zs) (freep h)" "freep h \<notin> set zs" "set (zs @ [freep h]) = set (base h # as)"
    using free_list_ring [OF fl] by blast
  have all: "set (freep h # zs) = set (base h # as)" using zs(3) by auto
  from malloc_scan [OF zs(1,2), of n g] show ?thesis
  proof (elim disjE bexE conjE)
    fix q
    assume q: "q \<in> set (freep h # zs)" "n \<le> hsize h (hptr h q)"
      "malloc_loop g h n (freep h) (hptr h (freep h)) = Some (malloc_take h n q (hptr h q))"
    have "takes h (fst (malloc_take h n q (hptr h q))) (free_bytes h as) n (snd (malloc_take h n q (hptr h q))) as"
      using q(1) unfolding all by (rule take_law [OF fl _ n q(2)])
    then show ?thesis
      unfolding q(3)
      by (intro disjI1 exI [of _ "fst (malloc_take h n q (hptr h q))"] exI [of _ "snd (malloc_take h n q (hptr h q))"]) simp
  next
    assume "\<forall>z\<in>set (zs @ [freep h]). hsize h z < n"
    then have "\<forall>z\<in>set as. hsize h z < n" unfolding zs(3) by simp
    moreover assume "malloc_loop g h n (freep h) (hptr h (freep h)) =
        (case morecore g h n of None \<Rightarrow> None | Some (h, None) \<Rightarrow> Some (h, 0)
         | Some (h, Some p) \<Rightarrow> malloc_loop g h n p (hptr h p))"
    ultimately show ?thesis by blast
  qed
qed

text \<open>A run of free bytes lies in one block, because blocks that touch have been joined.\<close>

lemma run_in_block:
  assumes "laid h lo as hi" and "blk a n \<subseteq> free_bytes h as" and "0 < n"
  shows "\<exists>b\<in>set as. b \<le> a \<and> a + 16 * n \<le> b + 16 * hsize h b"
  using assms
proof (induction as arbitrary: lo)
  case Nil
  then show ?case by (auto simp: blk_def)
next
  case (Cons b as)
  let ?e = "b + 16 * hsize h b"
  have la: "laid h ?e as hi" using Cons.prems(1) by simp
  have late: "c \<in> free_bytes h as \<Longrightarrow> ?e < c" for c using laid_bounds [OF la] by (force simp: free_bytes_def blk_def)
  show ?case
  proof (cases "a < ?e")
    case True
    have "a \<in> blk a n" using Cons.prems(3) by (simp add: blk_def)
    then have "a \<in> blk b (hsize h b)" using Cons.prems(2) late [of a] True by auto
    moreover have "?e \<notin> blk a n" using Cons.prems(2) late [of ?e] by (auto simp: blk_def)
    ultimately show ?thesis using True by (auto simp: blk_def)
  next
    case False
    then have "blk a n \<subseteq> free_bytes h as" using Cons.prems(2) by (auto simp: blk_def)
    then show ?thesis using Cons.IH [OF la _ Cons.prems(3)] by auto
  qed
qed

text \<open>\<open>morecore\<close> adds the new bytes to the free list.\<close>

lemma to_int32_small: "n < 2 ^ 31 \<Longrightarrow> to_int32 n = int n"
  by (simp add: to_int32_def)

lemma morecore_law:
  assumes fl: "free_list h as" and n: "16 * n < 2 ^ 31" and g: "\<forall>b k. g b k \<longrightarrow> int b + k \<le> 2 ^ 36"
  defines "nu \<equiv> if n < 4096 then 4096 else n"
  shows "if g (brk h) (int (16 * nu))
    then \<exists>h' as'. morecore g h n = Some (h', Some (freep h')) \<and>
      frees h h' as' (free_bytes h as \<union> blk (brk h) nu) (brk h + 16 * nu) \<and>
      (\<forall>a. a \<notin> set as \<and> a \<noteq> brk h \<longrightarrow> hsize h' a = hsize h a)
    else morecore g h n = Some (h, None)"
proof -
  have nu: "16 * nu < 2 ^ 31" "0 < nu" using n by (auto simp: nu_def)
  have c: "to_int32 (nu * 16) = int (16 * nu)" using to_int32_small [of "16 * nu"] nu by (simp add: mult.commute)
  show ?thesis
  proof (cases "g (brk h) (int (16 * nu))")
    case True
    let ?h = "h\<lparr>brk := brk h + 16 * nu, hsize := (hsize h)(brk h := nu)\<rparr>"
    have lt: "\<forall>a\<in>set (base h # as). a < brk h" using fl laid_bounds [of h "base h" as "brk h"] by (force simp: free_list_def)
    then have out: "brk h \<notin> set as" "base h \<noteq> brk h" by auto
    have same: "chain ?h l e = chain h l e" "brk h \<notin> set l \<Longrightarrow> laid ?h lo l hi = laid h lo l hi"
        "free_bytes ?h as = free_bytes h as" for l e lo hi
      using out by (auto intro!: chain_cong laid_cong simp: free_bytes_def split: if_splits)
    have "brk h + 16 * nu \<le> 2 ^ 36" using g True by force
    then have fl': "free_list ?h as"
      using fl out laid_mono [of h "base h" as "brk h" "brk h + 16 * nu" "base h"] unfolding free_list_def same(1)
      by (simp add: same)
    have "blk (brk h) nu \<inter> free_bytes h as = {}"
      using fl laid_before [of h "base h" as "brk h"] by (auto simp: free_list_def blk_def)
    then obtain h' as' where "ufree ?h (brk h + 16) = Some h'"
        "frees ?h h' as' (free_bytes h as \<union> blk (brk h) nu) (brk h + 16 * nu)"
        "\<forall>a. a \<notin> set as \<and> a \<noteq> brk h \<longrightarrow> hsize h' a = hsize h a"
      using ufree_law [OF fl', of "brk h"] lt nu by (auto simp: same)
    moreover have "nat (int (brk h) + int (16 * nu)) = brk h + 16 * nu" by simp
    ultimately show ?thesis
      using True by (auto simp: morecore_def sbrk_def Let_def c nu_def [symmetric] frees_def simp del: of_nat_mult)
  next
    case False
    then show ?thesis by (simp add: morecore_def sbrk_def Let_def c nu_def [symmetric])
  qed
qed

lemma takes_new: "takes h h' F n r as \<Longrightarrow> \<exists>bp. r = bp + 16 \<and> blk bp n \<subseteq> F"
  by (auto simp: takes_def)

lemma malloc_loop_law:
  assumes fl: "free_list h as" and n: "0 < n" "16 * n < 2 ^ 31" and g: "\<forall>b k. g b k \<longrightarrow> int b + k \<le> 2 ^ 36"
  shows "malloc_loop g h n (freep h) (hptr h (freep h)) = Some (h, 0) \<or>
    (\<exists>h1 as1 h' r. malloc_loop g h n (freep h) (hptr h (freep h)) = Some (h', r) \<and>
      free_list h1 as1 \<and> base h1 = base h \<and> brk h \<le> brk h1 \<and> free_bytes h1 as1 = free_bytes h as \<union> {brk h..<brk h1} \<and>
      takes h1 h' (free_bytes h1 as1) n r as1 \<and> (\<forall>a. a \<notin> set as \<and> a \<noteq> brk h \<longrightarrow> hsize h1 a = hsize h a))"
proof -
  from malloc_search [OF fl n(1), of g] show ?thesis
  proof (elim disjE exE conjE)
    fix h' r
    assume "malloc_loop g h n (freep h) (hptr h (freep h)) = Some (h', r)" "takes h h' (free_bytes h as) n r as"
    then show ?thesis using fl by (intro disjI2 exI [of _ h] exI [of _ as] exI [of _ h'] exI [of _ r]) auto
  next
    assume more: "malloc_loop g h n (freep h) (hptr h (freep h)) =
        (case morecore g h n of None \<Rightarrow> None | Some (h, None) \<Rightarrow> Some (h, 0)
         | Some (h, Some p) \<Rightarrow> malloc_loop g h n p (hptr h p))"
    define nu where "nu = (if n < 4096 then 4096 else n)"
    have mc: "if g (brk h) (int (16 * nu)) then \<exists>h' as'. morecore g h n = Some (h', Some (freep h')) \<and>
        frees h h' as' (free_bytes h as \<union> blk (brk h) nu) (brk h + 16 * nu) \<and>
        (\<forall>a. a \<notin> set as \<and> a \<noteq> brk h \<longrightarrow> hsize h' a = hsize h a)
      else morecore g h n = Some (h, None)"
      unfolding nu_def by (rule morecore_law [OF fl n(2) g])
    show ?thesis
    proof (cases "g (brk h) (int (16 * nu))")
      case False
      then show ?thesis using mc more by simp
    next
      case True
      then obtain h1 as1 where h1: "morecore g h n = Some (h1, Some (freep h1))"
          "frees h h1 as1 (free_bytes h as \<union> blk (brk h) nu) (brk h + 16 * nu)"
          "\<forall>a. a \<notin> set as \<and> a \<noteq> brk h \<longrightarrow> hsize h1 a = hsize h a"
        using mc by auto
      then have f1: "free_list h1 as1" "free_bytes h1 as1 = free_bytes h as \<union> {brk h..<brk h1}" "base h1 = base h"
          "brk h1 = brk h + 16 * nu" by (auto simp: frees_def blk_def)
      obtain b where "b \<in> set as1" "b \<le> brk h" "brk h + 16 * nu \<le> b + 16 * hsize h1 b"
      proof -
        have "0 < nu" "blk (brk h) nu \<subseteq> free_bytes h1 as1" using n(1) f1 by (auto simp: nu_def blk_def)
        then show ?thesis using run_in_block [of h1 "base h1" as1 "brk h1" "brk h" nu] f1(1) that by (auto simp: free_list_def)
      qed
      then have "\<not> (\<forall>z\<in>set as1. hsize h1 z < n)" by (auto simp: nu_def split: if_splits intro!: bexI [of _ b])
      then obtain h' r where "malloc_loop g h1 n (freep h1) (hptr h1 (freep h1)) = Some (h', r)"
          "takes h1 h' (free_bytes h1 as1) n r as1"
        using malloc_search [OF f1(1) n(1), of g] by auto
      then show ?thesis using f1 h1 more
        by (intro disjI2 exI [of _ h1] exI [of _ as1] exI [of _ h'] exI [of _ r]) auto
    qed
  qed
qed

section \<open>Sequences of calls\<close>

text \<open>
  A program that calls \<open>malloc\<close> and frees what it has been given, each block once, and writes into the
  blocks only; it asks for at most \<open>2^31 - 32\<close> bytes at a time. \<open>live\<close> is the list of the pointers it holds, with the numbers of bytes it asked for.
\<close>

inductive heap_run :: "grant \<Rightarrow> nat \<Rightarrow> uheap \<Rightarrow> (nat \<times> nat) list \<Rightarrow> bool" for g start where
  heap_start: "freep h = 0 \<Longrightarrow> 0 < base h \<Longrightarrow> base h + 16 \<le> start \<Longrightarrow> brk h = start \<Longrightarrow> start \<le> 2 ^ 36 \<Longrightarrow> heap_run g start h []"
| heap_malloc: "heap_run g start h live \<Longrightarrow> nbytes + 32 \<le> 2 ^ 31 \<Longrightarrow> malloc g h nbytes = Some (h', r) \<Longrightarrow>
    heap_run g start h' (if r = 0 then live else (r, nbytes) # live)"
| heap_free: "heap_run g start h (xs @ (r, nbytes) # ys) \<Longrightarrow> ufree h r = Some h' \<Longrightarrow> heap_run g start h' (xs @ ys)"

text \<open>The blocks of the live pointers and the free ones partition the heap.\<close>

definition live_blk :: "nat \<times> nat \<Rightarrow> nat set" where
  "live_blk = (\<lambda>(r, nbytes). blk (r - 16) (units_for nbytes))"

definition heap_parts :: "nat \<Rightarrow> uheap \<Rightarrow> (nat \<times> nat) list \<Rightarrow> nat list \<Rightarrow> bool" where
  "heap_parts start h live as \<longleftrightarrow> free_list h as \<and> base h + 16 \<le> start \<and> start \<le> brk h \<and>
     free_bytes h as \<union> (\<Union>b\<in>set live. live_blk b) = {start..<brk h} \<and>
     free_bytes h as \<inter> (\<Union>b\<in>set live. live_blk b) = {} \<and>
     sorted_wrt (\<lambda>b c. live_blk b \<inter> live_blk c = {}) live \<and>
     (\<forall>(r, nbytes)\<in>set live. 16 \<le> r \<and> hsize h (r - 16) = units_for nbytes)"

definition heap_inv :: "nat \<Rightarrow> uheap \<Rightarrow> (nat \<times> nat) list \<Rightarrow> bool" where
  "heap_inv start h live \<longleftrightarrow>
     freep h = 0 \<and> live = [] \<and> 0 < base h \<and> base h + 16 \<le> start \<and> brk h = start \<and> start \<le> 2 ^ 36 \<or>
     freep h \<noteq> 0 \<and> (\<exists>as. heap_parts start h live as)"

lemma units_pos [simp]: "0 < units_for n"
  by (simp add: units_for_def)

lemma units_room: "n + 16 \<le> 16 * units_for n"
  by (simp add: units_for_def)

lemma units_small: "n + 32 \<le> 2 ^ 31 \<Longrightarrow> 16 * units_for n < 2 ^ 31"
  by (simp add: units_for_def)

lemma malloc_init_parts:
  assumes "heap_inv start h live"
  shows "\<exists>as. heap_parts start (malloc_init h) live as"
  using assms unfolding heap_inv_def
proof
  assume "freep h = 0 \<and> live = [] \<and> 0 < base h \<and> base h + 16 \<le> start \<and> brk h = start \<and> start \<le> 2 ^ 36"
  then show ?thesis by (intro exI [of _ "[]"]) (auto simp: heap_parts_def free_list_def malloc_init_def)
qed (auto simp: malloc_init_def)

lemma parts_freep: "heap_parts start h live as \<Longrightarrow> freep h \<noteq> 0"
  using laid_bounds [of h "base h" as "brk h"] by (force simp: heap_parts_def free_list_def)

lemma live_header:
  assumes "heap_parts start h live as" and "(r, n) \<in> set live"
  shows "r - 16 \<in> live_blk (r, n)" "r - 16 \<notin> set as" "start \<le> r - 16" "r - 16 < brk h"
proof -
  show in': "r - 16 \<in> live_blk (r, n)" by (simp add: live_blk_def blk_def)
  then show "start \<le> r - 16" "r - 16 < brk h" using assms by (auto simp: heap_parts_def)
  show "r - 16 \<notin> set as"
  proof
    assume a: "r - 16 \<in> set as"
    then have "0 < hsize h (r - 16)" using assms(1) laid_bounds [of h "base h" as "brk h"] by (auto simp: heap_parts_def free_list_def)
    then have "r - 16 \<in> free_bytes h as" using a by (auto simp: free_bytes_def blk_def)
    then show False using in' assms by (auto simp: heap_parts_def)
  qed
qed

lemma free_header: "free_list h as \<Longrightarrow> a \<in> set as \<Longrightarrow> a \<in> free_bytes h as"
  using laid_bounds [of h "base h" as "brk h"] by (force simp: free_list_def free_bytes_def blk_def)

lemma malloc_step:
  assumes inv: "heap_inv start h live" and n: "nbytes + 32 \<le> 2 ^ 31" and g: "\<forall>b k. g b k \<longrightarrow> int b + k \<le> 2 ^ 36"
  shows "\<exists>h' r. malloc g h nbytes = Some (h', r) \<and> heap_inv start h' (if r = 0 then live else (r, nbytes) # live)"
proof -
  let ?h = "malloc_init h" and ?n = "units_for nbytes" and ?L = "\<Union>b\<in>set live. live_blk b"
  obtain as where p: "heap_parts start ?h live as" using malloc_init_parts [OF inv] by blast
  then have fl: "free_list ?h as" by (simp add: heap_parts_def)
  have eq: "malloc g h nbytes = malloc_loop g ?h ?n (freep ?h) (hptr ?h (freep ?h))" by (simp add: malloc_def Let_def)
  from malloc_loop_law [OF fl units_pos units_small [OF n] g] show ?thesis
  proof (elim disjE exE conjE)
    assume "malloc_loop g ?h ?n (freep ?h) (hptr ?h (freep ?h)) = Some (?h, 0)"
    then show ?thesis using p parts_freep [OF p] by (auto simp: eq heap_inv_def)
  next
    fix h1 as1 h' r
    assume m: "malloc_loop g ?h ?n (freep ?h) (hptr ?h (freep ?h)) = Some (h', r)"
      and f1: "free_list h1 as1" "base h1 = base ?h" "brk ?h \<le> brk h1"
        "free_bytes h1 as1 = free_bytes ?h as \<union> {brk ?h..<brk h1}"
      and t: "takes h1 h' (free_bytes h1 as1) ?n r as1"
      and old: "\<forall>a. a \<notin> set as \<and> a \<noteq> brk ?h \<longrightarrow> hsize h1 a = hsize ?h a"
    obtain as' bp where t: "r = bp + 16" "free_list h' as'" "hsize h' bp = ?n" "free_bytes h' as' \<union> blk bp ?n = free_bytes h1 as1"
        "free_bytes h' as' \<inter> blk bp ?n = {}" "base h' = base h1" "brk h' = brk h1"
        "\<forall>a. a \<notin> set as1 \<and> a \<noteq> bp \<longrightarrow> hsize h' a = hsize h1 a"
      using t unfolding takes_def by blast
    have L: "?L \<subseteq> {start..<brk ?h}" "free_bytes ?h as \<inter> ?L = {}" using p by (auto simp: heap_parts_def)
    then have dis: "free_bytes h1 as1 \<inter> ?L = {}" unfolding f1(4) by auto
    have hdr: "hsize h' (q - 16) = units_for k" if "(q, k) \<in> set live" for q k
    proof -
      note q = live_header [OF p that]
      have "q - 16 \<in> ?L" using q(1) that by blast
      then have "q - 16 \<notin> set as1" "q - 16 \<notin> blk bp ?n" using dis t(4) free_header [OF f1(1)] by auto
      then have "hsize h' (q - 16) = hsize ?h (q - 16)" using t(8) old q by (auto simp: blk_def)
      then show ?thesis using p that by (auto simp: heap_parts_def)
    qed
    have "blk bp ?n \<inter> live_blk b = {}" if "b \<in> set live" for b using dis t(4) that by blast
    then have "sorted_wrt (\<lambda>b c. live_blk b \<inter> live_blk c = {}) ((r, nbytes) # live)"
      using p t(1) by (auto simp: heap_parts_def live_blk_def)
    moreover have "free_bytes h' as' \<union> (\<Union>b\<in>set ((r, nbytes) # live). live_blk b) = {start..<brk h'}"
    proof -
      have part: "free_bytes ?h as \<union> ?L = {start..<brk ?h}" "start \<le> brk ?h" using p by (auto simp: heap_parts_def)
      have "free_bytes h' as' \<union> (\<Union>b\<in>set ((r, nbytes) # live). live_blk b) = (free_bytes h' as' \<union> blk bp ?n) \<union> ?L"
        using t(1) by (auto simp: live_blk_def)
      also have "\<dots> = (free_bytes ?h as \<union> ?L) \<union> {brk ?h..<brk h1}" unfolding t(4) f1(4) by auto
      also have "\<dots> = {start..<brk h'}" unfolding part(1) t(7) using part(2) f1(3) by auto
      finally show ?thesis .
    qed
    moreover have "free_bytes h' as' \<inter> (\<Union>b\<in>set ((r, nbytes) # live). live_blk b) = {}"
      using dis t(1,4,5) by (auto simp: live_blk_def)
    moreover have "base h' + 16 \<le> start" "start \<le> brk h'" using p f1 t by (auto simp: heap_parts_def)
    ultimately have "heap_parts start h' ((r, nbytes) # live) as'"
      unfolding heap_parts_def using t hdr p by (auto simp: heap_parts_def)
    then show ?thesis using m eq t(1) parts_freep by (auto simp: heap_inv_def)
  qed
qed

lemma free_step:
  assumes inv: "heap_inv start h (xs @ (r, nbytes) # ys)"
  shows "\<exists>h'. ufree h r = Some h' \<and> heap_inv start h' (xs @ ys) \<and> base h' = base h \<and> brk h' = brk h"
proof -
  let ?live = "xs @ (r, nbytes) # ys" and ?bp = "r - 16" and ?L = "\<Union>b\<in>set (xs @ ys). live_blk b"
  obtain as where p: "heap_parts start h ?live as" using inv by (auto simp: heap_inv_def)
  have r: "16 \<le> r" "hsize h ?bp = units_for nbytes" and fl: "free_list h as" using p by (auto simp: heap_parts_def)
  have b: "blk ?bp (hsize h ?bp) = live_blk (r, nbytes)" using r by (simp add: live_blk_def)
  have in': "live_blk (r, nbytes) \<subseteq> {start..<brk h}" "live_blk (r, nbytes) \<inter> free_bytes h as = {}"
    using p by (auto simp: heap_parts_def)
  have le: "?bp + 16 * hsize h ?bp \<le> brk h"
  proof -
    have "?bp + 16 * hsize h ?bp - 1 \<in> live_blk (r, nbytes)" 
      unfolding b [symmetric] using r(2) units_pos [of nbytes] by (simp add: blk_def del: units_pos)
    then have "?bp + 16 * hsize h ?bp - 1 < brk h" using in'(1) by (meson atLeastLessThan_iff subsetD)
    then show ?thesis by linarith
  qed
  have lo: "base h < ?bp" using live_header(3) [OF p, of r nbytes] p by (auto simp: heap_parts_def)
  obtain h' as' where u: "ufree h (?bp + 16) = Some h'" "frees h h' as' (free_bytes h as \<union> blk ?bp (hsize h ?bp)) (brk h)"
      "\<forall>a. a \<notin> set as \<and> a \<noteq> ?bp \<longrightarrow> hsize h' a = hsize h a"
    using ufree_law [OF fl lo _ le] in'(2) r(2) unfolding b by auto
  have dis: "sorted_wrt (\<lambda>b c. live_blk b \<inter> live_blk c = {}) (xs @ ys)" "?L \<inter> live_blk (r, nbytes) = {}"
    using p by (auto simp: heap_parts_def sorted_wrt_append)
  have hdr: "hsize h' (q - 16) = units_for k" "16 \<le> q" if "(q, k) \<in> set (xs @ ys)" for q k
  proof -
    have q: "(q, k) \<in> set ?live" using that by auto
    have "q - 16 \<noteq> ?bp"
    proof
      assume "q - 16 = ?bp"
      then have "?bp \<in> ?L \<inter> live_blk (r, nbytes)"
        using live_header(1) [OF p q] live_header(1) [OF p, of r nbytes] that by auto
      then show False using dis(2) by blast
    qed
    then show "hsize h' (q - 16) = units_for k" "16 \<le> q" using u(3) live_header(2) [OF p q] p q by (auto simp: heap_parts_def)
  qed
  have f: "free_list h' as'" "free_bytes h' as' = free_bytes h as \<union> live_blk (r, nbytes)" "base h' = base h" "brk h' = brk h"
    using u(2) b by (auto simp: frees_def)
  have parts: "free_bytes h' as' \<union> ?L = {start..<brk h'}" "free_bytes h' as' \<inter> ?L = {}"
    using p dis(2) unfolding f(2,4) by (auto simp: heap_parts_def)
  have "heap_parts start h' (xs @ ys) as'"
  proof -
    have "\<forall>(q, k)\<in>set (xs @ ys). 16 \<le> q \<and> hsize h' (q - 16) = units_for k" using hdr by blast
    moreover have "base h + 16 \<le> start" "start \<le> brk h" using p by (auto simp: heap_parts_def)
    ultimately show ?thesis unfolding heap_parts_def using f dis(1) parts by simp
  qed
  then show ?thesis using u(1) r(1) parts_freep f(3,4) by (auto simp: heap_inv_def)
qed

lemma heap_run_inv:
  assumes "heap_run g start h live" and "\<forall>b k. g b k \<longrightarrow> int b + k \<le> 2 ^ 36"
  shows "heap_inv start h live"
  using assms(1)
proof induction
  case (heap_start h)
  then show ?case by (simp add: heap_inv_def)
next
  case (heap_malloc h live nbytes h' r)
  then show ?case using malloc_step [OF heap_malloc.IH heap_malloc.hyps(2) assms(2)] by auto
next
  case (heap_free h xs r nbytes ys h')
  then show ?case using free_step by fastforce
qed

section \<open>What the program can rely on\<close>

lemma payload: "16 \<le> q \<Longrightarrow> {q..<q + k} \<subseteq> live_blk (q, k)"
  using units_room [of k] by (auto simp: live_blk_def blk_def)

text \<open>
  C23: Blocks of \<open>malloc\<close> do not overlap. After any sequence of calls of \<open>malloc\<close> and \<open>free\<close> in which the
  program frees only what it holds and every request, this one included, is of at most \<open>2^31 - 32\<close> bytes, and
  with a heap that the kernel keeps below \<open>2^36\<close> bytes, \<open>malloc\<close> returns, with the null pointer or with
  \<open>nbytes\<close> bytes inside the heap that no other block the program holds has a byte of; and \<open>free\<close> of every
  pointer it holds returns. (The size of a larger request is cut to an \<open>int\<close> on its way to \<open>sbrk\<close>, and the
  claim fails: \<open>malloc_truncates_request\<close>.)
\<close>

theorem malloc_blocks_disjoint:
  assumes "heap_run g start h live" and "nbytes + 32 \<le> 2 ^ 31" and "\<forall>b k. g b k \<longrightarrow> int b + k \<le> 2 ^ 36"
  shows "(\<exists>h' r. malloc g h nbytes = Some (h', r) \<and>
      (r = 0 \<or> start + 16 \<le> r \<and> r + nbytes \<le> brk h' \<and> (\<forall>(q, k)\<in>set live. {r..<r + nbytes} \<inter> {q..<q + k} = {}))) \<and>
    (\<forall>(q, k)\<in>set live. \<exists>h'. ufree h q = Some h')"
proof -
  have inv: "heap_inv start h live" using heap_run_inv [OF assms(1,3)] .
  obtain h' r where m: "malloc g h nbytes = Some (h', r)" "heap_inv start h' (if r = 0 then live else (r, nbytes) # live)"
    using malloc_step [OF inv assms(2,3)] by blast
  have "start + 16 \<le> r \<and> r + nbytes \<le> brk h' \<and> (\<forall>(q, k)\<in>set live. {r..<r + nbytes} \<inter> {q..<q + k} = {})" if r0: "r \<noteq> 0"
  proof -
    obtain as where p: "heap_parts start h' ((r, nbytes) # live) as" using m(2) r0 by (auto simp: heap_inv_def)
    have r: "16 \<le> r" "start \<le> r - 16" and b: "live_blk (r, nbytes) \<subseteq> {start..<brk h'}"
      using p live_header(3) [OF p, of r nbytes] by (auto simp: heap_parts_def)
    have "r + nbytes - 1 \<in> live_blk (r, nbytes)" using units_room [of nbytes] r by (auto simp: live_blk_def blk_def)
    then have "r + nbytes - 1 < brk h'" using b by (meson atLeastLessThan_iff subsetD)
    then have "r + nbytes \<le> brk h'" by linarith
    moreover have "{r..<r + nbytes} \<inter> {q..<q + k} = {}" if "(q, k) \<in> set live" for q k
    proof -
      have "live_blk (r, nbytes) \<inter> live_blk (q, k) = {}" "16 \<le> q" using p that by (auto simp: heap_parts_def)
      then show ?thesis using payload [OF r(1), of nbytes] payload [of q k] by blast
    qed
    ultimately show ?thesis using r by auto
  qed
  moreover have "\<exists>h'. ufree h q = Some h'" if q: "(q, k) \<in> set live" for q k
  proof -
    obtain xs ys where "live = xs @ (q, k) # ys" using split_list [OF q] by blast
    then show ?thesis using free_step [of start h xs q k ys] inv by blast
  qed
  ultimately show ?thesis
    using m(1) by (intro conjI exI [of _ h'] exI [of _ r]) (assumption, cases "r = 0", simp_all only: simp_thms, auto)
qed

text \<open>A heap of 128 megabytes at most.\<close>

definition small_machine :: grant where
  "small_machine b k \<longleftrightarrow> int b + k \<le> 2 ^ 27"

definition fresh_heap :: uheap where
  "fresh_heap = \<lparr>hptr = \<lambda>_. 0, hsize = \<lambda>_. 0, freep = 0, base = 4096, brk = 8192\<rparr>"

theorem malloc_blocks_disjoint_witness:
  "\<exists>h' r. malloc small_machine fresh_heap 100 = Some (h', r) \<and> (r = 0 \<or> 8208 \<le> r \<and> r + 100 \<le> brk h')"
proof -
  have "heap_run small_machine 8192 fresh_heap []" by (rule heap_start) (simp_all add: fresh_heap_def)
  from malloc_blocks_disjoint [OF this, of 100] show ?thesis by (auto simp: small_machine_def)
qed

text \<open>
  C24: Freeing everything leaves one block. After calls of \<open>malloc\<close> and \<open>free\<close> in which every request was of
  at most \<open>2^31 - 32\<close> bytes, with a heap below \<open>2^36\<close> bytes, when the program has freed all its blocks, the free
  list holds nothing but the whole heap as one block, linked to and from \<open>base\<close>, or no memory had been
  obtained.
\<close>

theorem free_all_coalesces:
  assumes "heap_run g start h []" and "\<forall>b k. g b k \<longrightarrow> int b + k \<le> 2 ^ 36" and "start < brk h"
  shows "hptr h (base h) = start \<and> hptr h start = base h \<and> start + 16 * hsize h start = brk h"
proof -
  obtain as where p: "heap_parts start h [] as" using heap_run_inv [OF assms(1,2)] assms(3) by (auto simp: heap_inv_def)
  then have fl: "free_list h as" and all: "free_bytes h as = {start..<brk h}" by (auto simp: heap_parts_def)
  then obtain a as' where a: "as = a # as'" using assms(3) by (cases as) auto
  let ?e = "a + 16 * hsize h a"
  have la: "0 < hsize h a" "laid h ?e as' (brk h)" using fl by (auto simp: free_list_def a)
  have late: "c \<in> free_bytes h as' \<Longrightarrow> ?e < c" for c using laid_bounds [OF la(2)] by (force simp: free_bytes_def blk_def)
  have "a = start"
  proof -
    have "a \<in> free_bytes h as" using free_header [OF fl] by (simp add: a)
    moreover have "start \<in> free_bytes h as" unfolding all using assms(3) by simp
    then have "start \<in> blk a (hsize h a) \<or> ?e < start" using late [of start] by (auto simp only: a free_bytes_simps Un_iff)
    ultimately show ?thesis unfolding all by (auto simp: blk_def)
  qed
  moreover have "?e = brk h"
  proof (rule ccontr)
    assume "?e \<noteq> brk h"
    then have "?e \<in> free_bytes h as" using laid_le [OF la(2)] \<open>a = start\<close> unfolding all by simp
    then show False using late [of ?e] by (auto simp: a blk_def)
  qed
  moreover have "as' = []"
  proof (cases as')
    case (Cons c cs)
    then show ?thesis using laid_bounds [OF la(2), of c] \<open>?e = brk h\<close> by auto
  qed simp
  ultimately show ?thesis using fl by (simp add: free_list_def a)
qed

lemma malloc_first:
  assumes "freep h = 0" and "0 < base h" and "base h < brk h" and n: "n = units_for nbytes" "4096 \<le> n"
    and g: "g (brk h) (to_int32 (n * 16))"
  shows "\<exists>h'. malloc g h nbytes = Some (h', brk h + 16) \<and> brk h' = nat (int (brk h) + to_int32 (n * 16)) \<and>
    base h' = base h"
proof -
  let ?h = "malloc_init h" and ?t = "brk h"
  let ?h1 = "?h\<lparr>brk := nat (int ?t + to_int32 (n * 16)), hsize := (hsize ?h)(?t := n)\<rparr>"
  let ?h2 = "?h1\<lparr>hptr := (hptr ?h1)(?t := base h, base h := ?t), freep := base h\<rparr>"
  have i: "freep ?h = base h" "hptr ?h (base h) = base h" "hsize ?h (base h) = 0" "brk ?h = ?t" "base ?h = base h"
    using assms(1) by (auto simp: malloc_init_def)
  have "free_find ?h1 ?t (base h) = Some (base h)" using assms(3) i by (subst free_find.simps) simp
  moreover have "free_link ?h1 ?t (base h) = ?h2"
    using assms(3) i by (simp add: free_link_def join_next_def join_prev_def fun_upd_twist)
  ultimately have "ufree ?h1 (?t + 16) = Some ?h2" using i by (simp add: ufree_def Let_def)
  then have mc: "morecore g ?h n = Some (?h2, Some (base h))"
    using g n(2) i by (simp add: morecore_def sbrk_def Let_def)
  have "malloc g h nbytes = malloc_loop g ?h2 n (base h) ?t"
    unfolding malloc_def Let_def n(1) [symmetric] using i n(2) mc assms(3) by (subst malloc_loop.simps) simp
  also have "\<dots> = Some (malloc_take ?h2 n (base h) ?t)" by (subst malloc_loop.simps) simp
  finally show ?thesis using assms(3) i by (simp add: malloc_take_def)
qed

text \<open>A program that has asked for 65536 bytes and freed them.\<close>

lemma one_block_freed:
  "\<exists>h. heap_run small_machine 8192 h [] \<and> brk h = 73744 \<and> base h = 4096"
proof -
  have "units_for 65536 = 4097" "to_int32 65552 = 65552" by (simp_all add: units_for_def to_int32_def)
  then obtain h1 where h1: "malloc small_machine fresh_heap 65536 = Some (h1, 8208)" "brk h1 = 73744" "base h1 = 4096"
    using malloc_first [of fresh_heap 4097 65536 small_machine] by (auto simp: fresh_heap_def small_machine_def)
  have "heap_run small_machine 8192 fresh_heap []" by (rule heap_start) (simp_all add: fresh_heap_def)
  then have r: "heap_run small_machine 8192 h1 [(8208, 65536)]" using heap_malloc [OF _ _ h1(1)] by simp
  have "\<forall>b k. small_machine b k \<longrightarrow> int b + k \<le> 2 ^ 36" by (simp add: small_machine_def)
  then obtain h2 where "ufree h1 8208 = Some h2" "brk h2 = 73744" "base h2 = 4096"
    using free_step [of 8192 h1 "[]" 8208 65536 "[]"] heap_run_inv [OF r] h1 by auto
  moreover have "heap_run small_machine 8192 h2 []"
    using heap_free [of small_machine 8192 h1 "[]" 8208 65536 "[]"] r calculation(1) by simp
  ultimately show ?thesis by blast
qed

theorem free_all_coalesces_witness: "\<exists>h :: uheap. brk h = 73744 \<and> hptr h 4096 = 8192 \<and> hptr h 8192 = 4096 \<and> hsize h 8192 = 4097"
proof -
  obtain h where h: "heap_run small_machine 8192 h []" "brk h = 73744" "base h = 4096" using one_block_freed by blast
  have "\<forall>b k. small_machine b k \<longrightarrow> int b + k \<le> 2 ^ 36" by (simp add: small_machine_def)
  from free_all_coalesces [OF h(1) this] have "hptr h 4096 = 8192" "hptr h 8192 = 4096" "hsize h 8192 = 4097"
    using h(2,3) by auto
  then show ?thesis using h(2) by blast
qed

text \<open>
  \<open>malloc\<close> hands out 4 gigabytes that do not exist. \<open>morecore\<close> computes the number of bytes in 64 bits
  and passes it to \<open>sbrk\<close>, which takes an \<open>int\<close>: the first call of \<open>malloc\<close>, when it asks for \<open>0xffffffff\<close>
  bytes, makes the kernel extend the heap by 16 bytes, and returns a pointer to the end of the heap.
\<close>

lemma malloc_truncates_request:
  assumes "freep h = 0" and "0 < base h" and "base h < brk h" and "g (brk h) 16"
  shows "\<exists>h'. malloc g h 0xffffffff = Some (h', brk h + 16) \<and> brk h' = brk h + 16"
proof -
  have "units_for 0xffffffff = 0x10000001" "to_int32 (0x10000001 * 16) = 16" by (simp_all add: units_for_def to_int32_def)
  then show ?thesis using malloc_first [of h "0x10000001" "0xffffffff" g] assms by auto
qed

end
