(* ===== verification/Mkfs.thy ===== *)
theory Mkfs
  imports Inodelaws Uart
begin

text \<open>
  The program that builds the initial file system, \<open>mkfs/mkfs.c\<close>. The image is the list of its sectors;
  a failed assertion and a call of \<open>die\<close> end the program, which is \<open>Panic\<close>. The host is taken to be little
  endian. A \<open>struct dinode\<close> is an \<open>inode\<close> whose fields that are not on disk are never looked at. The files
  to store are given by their names on the command line and what \<open>read\<close> returns of them, chunk by chunk.
\<close>

section \<open>Sectors and inodes\<close>

definition FSSIZE :: nat where "FSSIZE = 2000"
definition NINODES :: nat where "NINODES = 200"

definition nbitmap :: nat where "nbitmap = FSSIZE div (BSIZE * 8) + 1"
definition ninodeblocks :: nat where "ninodeblocks = NINODES div IPB + 1"
definition nlog :: nat where "nlog = LOGSIZE"
definition nmeta :: nat where "nmeta = 2 + nlog + ninodeblocks + nbitmap"
definition nblocks :: nat where "nblocks = FSSIZE - nmeta"

record mk_st =
  img :: "u8 list list"
  freeinode :: u32
  freeblock :: u32

definition xshort :: "u16 \<Rightarrow> u16" where
  "xshort x = le_word [ucast x, ucast (drop_bit 8 x)]"

definition xint :: "u32 \<Rightarrow> u32" where
  "xint x = le_word [ucast x, ucast (drop_bit 8 x), ucast (drop_bit 16 x), ucast (drop_bit 24 x)]"

definition mk_sb :: superblock where
  "mk_sb = \<lparr>sb_magic = FSMAGIC, sb_size = xint (of_nat FSSIZE), sb_nblocks = xint (of_nat nblocks),
     sb_ninodes = xint (of_nat NINODES), sb_nlog = xint (of_nat nlog), sb_logstart = xint 2,
     sb_inodestart = xint (of_nat (2 + nlog)), sb_bmapstart = xint (of_nat (2 + nlog + ninodeblocks))\<rparr>"

text \<open>
  The offset \<open>sec * BSIZE\<close> is an \<open>unsigned int\<close>, so it wraps around at \<open>2 ^ 32\<close>. Writing past the end of the
  image leaves a hole of zeroes before the sector.
\<close>

definition sector :: "u32 \<Rightarrow> nat" where
  "sector sec = unat (sec * of_nat BSIZE) div BSIZE"

definition wsect :: "u32 \<Rightarrow> u8 list \<Rightarrow> mk_st \<Rightarrow> (unit, mk_st) res" where
  "wsect sec buf s =
     (let i = sector sec; d = img s in
      Ok () (s\<lparr>img := if i < length d then d[i := buf]
                    else d @ replicate (i - length d) (replicate BSIZE 0) @ [buf]\<rparr>))"

definition rsect :: "u32 \<Rightarrow> mk_st \<Rightarrow> (u8 list, mk_st) res" where
  "rsect sec s = (if sector sec < length (img s) then Ok (img s ! sector sec) s else Panic ''read'')"

definition blank_inode :: inode where
  "blank_inode = \<lparr>i_dev = 0, i_inum = 0, i_ref = 0, i_lock = initsleeplock ''inode'', i_valid = False, i_type = 0,
     i_major = 0, i_minor = 0, i_nlink = 0, i_size = 0, i_addrs = replicate (NDIRECT + 1) 0\<rparr>"

definition winode :: "u32 \<Rightarrow> inode \<Rightarrow> mk_st \<Rightarrow> (unit, mk_st) res" where
  "winode inum ip s =
     (let bn = IBLOCK (unat inum) mk_sb in
      bind (rsect bn s) (\<lambda>buf s. wsect bn (put_dinode ip buf (dinode_off (unat inum))) s))"

definition rinode :: "u32 \<Rightarrow> mk_st \<Rightarrow> (inode, mk_st) res" where
  "rinode inum s =
     (let bn = IBLOCK (unat inum) mk_sb in
      bind (rsect bn s) (\<lambda>buf s. Ok (get_dinode buf (dinode_off (unat inum)) blank_inode) s))"

definition mk_ialloc :: "u16 \<Rightarrow> mk_st \<Rightarrow> (u32, mk_st) res" where
  "mk_ialloc type s =
     (let inum = freeinode s; s = s\<lparr>freeinode := freeinode s + 1\<rparr>;
          din = blank_inode\<lparr>i_type := xshort type, i_nlink := xshort 1, i_size := xint 0\<rparr>
      in bind (winode inum din s) (\<lambda>_ s. Ok inum s))"

definition mk_balloc :: "u32 \<Rightarrow> mk_st \<Rightarrow> (unit, mk_st) res" where
  "mk_balloc used s =
     (if \<not> sint used < int (BSIZE * 8) then Panic ''used < BSIZE*8''
      else wsect (sb_bmapstart mk_sb) (fold (\<lambda>i buf. set_map_bit True buf i) [0..<nat (sint used)] (replicate BSIZE 0)) s)"

section \<open>Appending to a file\<close>

text \<open>The block behind entry \<open>k\<close> of the indirect block, allocated when there is none.\<close>

definition append_entry :: "inode \<Rightarrow> nat \<Rightarrow> mk_st \<Rightarrow> (inode \<times> u32, mk_st) res" where
  "append_entry din k s =
     bind (rsect (xint (i_addrs din ! NDIRECT)) s) (\<lambda>indirect s.
       if (field 4 indirect (4 * k) :: u32) = 0 then
         let indirect = put_field 4 indirect (4 * k) (xint (freeblock s)); s = s\<lparr>freeblock := freeblock s + 1\<rparr>
         in bind (wsect (xint (i_addrs din ! NDIRECT)) indirect s) (\<lambda>_ s. Ok (din, xint (field 4 indirect (4 * k))) s)
       else Ok (din, xint (field 4 indirect (4 * k))) s)"

text \<open>The block of the image that holds block \<open>fbn\<close> of the file.\<close>

definition append_block :: "inode \<Rightarrow> nat \<Rightarrow> mk_st \<Rightarrow> (inode \<times> u32, mk_st) res" where
  "append_block din fbn s =
     (if fbn < NDIRECT then
        let (din, s) =
              (if xint (i_addrs din ! fbn) = 0
               then (din\<lparr>i_addrs := (i_addrs din)[fbn := xint (freeblock s)]\<rparr>, s\<lparr>freeblock := freeblock s + 1\<rparr>)
               else (din, s))
        in Ok (din, xint (i_addrs din ! fbn)) s
      else
        let (din, s) =
              (if xint (i_addrs din ! NDIRECT) = 0
               then (din\<lparr>i_addrs := (i_addrs din)[NDIRECT := xint (freeblock s)]\<rparr>, s\<lparr>freeblock := freeblock s + 1\<rparr>)
               else (din, s))
        in append_entry din (fbn - NDIRECT) s)"

lemma append_less:
  "p \<noteq> [] \<Longrightarrow> length (drop (min (length p) ((off div BSIZE + 1) * BSIZE - off)) p) < length p"
  using dividend_less_div_times [of BSIZE off] by (simp add: BSIZE_def)

function iappend_loop :: "inode \<Rightarrow> nat \<Rightarrow> u8 list \<Rightarrow> mk_st \<Rightarrow> (inode \<times> nat, mk_st) res" where
  "iappend_loop din off p s =
     (if p = [] then Ok (din, off) s
      else let fbn = off div BSIZE in
        if \<not> fbn < MAXFILE then Panic ''fbn < MAXFILE''
        else bind (append_block din fbn s) (\<lambda>(din, x) s.
          let n1 = min (length p) ((fbn + 1) * BSIZE - off) in
          bind (rsect x s) (\<lambda>buf s.
          bind (wsect x (splice (off - fbn * BSIZE) (take n1 p) buf) s) (\<lambda>_ s.
          iappend_loop din (off + n1) (drop n1 p) s))))"
  by pat_completeness auto
termination
  by (relation "measure (\<lambda>(din, off, p, s). length p)") (use append_less in auto)

declare iappend_loop.simps [simp del]

definition iappend :: "u32 \<Rightarrow> u8 list \<Rightarrow> mk_st \<Rightarrow> (unit, mk_st) res" where
  "iappend inum xp s =
     bind (rinode inum s) (\<lambda>din s.
     bind (iappend_loop din (unat (xint (i_size din))) xp s) (\<lambda>(din, off) s.
     winode inum (din\<lparr>i_size := xint (of_nat off)\<rparr>) s))"

section \<open>main\<close>

definition sb_sector :: "u8 list" where
  "sb_sector =
     concat (map (le_bytes 4) [sb_magic mk_sb, sb_size mk_sb, sb_nblocks mk_sb, sb_ninodes mk_sb, sb_nlog mk_sb,
       sb_logstart mk_sb, sb_inodestart mk_sb, sb_bmapstart mk_sb]) @ replicate (BSIZE - 32) 0"

definition shortname :: "u8 list \<Rightarrow> u8 list" where
  "shortname arg = (if take 5 arg = ascii ''user/'' then drop 5 arg else arg)"

definition skip_underscore :: "u8 list \<Rightarrow> u8 list" where
  "skip_underscore name = (if name \<noteq> [] \<and> hd name = 0x5f then tl name else name)"

fun append_chunks :: "u32 \<Rightarrow> u8 list list \<Rightarrow> mk_st \<Rightarrow> (unit, mk_st) res" where
  "append_chunks inum [] s = Ok () s"
| "append_chunks inum (buf # chunks) s = bind (iappend inum buf s) (\<lambda>_ s. append_chunks inum chunks s)"

text \<open>The loop over the arguments: the name, and the chunks of the file or nothing where it cannot be opened.\<close>

fun add_files :: "u32 \<Rightarrow> (u8 list \<times> u8 list list option) list \<Rightarrow> mk_st \<Rightarrow> (unit, mk_st) res" where
  "add_files rootino [] s = Ok () s"
| "add_files rootino ((arg, content) # args) s =
     (if 0x2f \<in> set (shortname arg) then Panic ''index(shortname)''
      else case content of
        None \<Rightarrow> Panic ''open''
      | Some chunks \<Rightarrow>
          bind (mk_ialloc T_FILE s) (\<lambda>inum s.
          bind (iappend rootino (dirent_bytes inum (skip_underscore (shortname arg))) s) (\<lambda>_ s.
          bind (append_chunks inum chunks s) (\<lambda>_ s. add_files rootino args s))))"

definition fix_root :: "u32 \<Rightarrow> mk_st \<Rightarrow> (unit, mk_st) res" where
  "fix_root rootino s =
     bind (rinode rootino s) (\<lambda>din s.
       let off = xint (i_size din); off = (of_nat (unat off div BSIZE) + 1) * of_nat BSIZE in
       winode rootino (din\<lparr>i_size := xint off\<rparr>) s)"

definition zero_sectors :: "mk_st \<Rightarrow> (unit, mk_st) res" where
  "zero_sectors s = fold (\<lambda>i m. bind m (\<lambda>_ s. wsect (of_nat i) (replicate BSIZE 0) s)) [0..<FSSIZE] (Ok () s)"

definition mkfs :: "(u8 list \<times> u8 list list option) list \<Rightarrow> (unit, mk_st) res" where
  "mkfs args =
     bind (zero_sectors \<lparr>img = [], freeinode = 1, freeblock = of_nat nmeta\<rparr>) (\<lambda>_ s.
     bind (wsect 1 sb_sector s) (\<lambda>_ s.
     bind (mk_ialloc T_DIR s) (\<lambda>rootino s.
       if rootino \<noteq> ROOTINO then Panic ''rootino == ROOTINO''
       else
         bind (iappend rootino (dirent_bytes rootino (ascii ''.'')) s) (\<lambda>_ s.
         bind (iappend rootino (dirent_bytes rootino (ascii ''..'')) s) (\<lambda>_ s.
         bind (add_files rootino args s) (\<lambda>_ s.
         bind (fix_root rootino s) (\<lambda>_ s.
         mk_balloc (freeblock s) s)))))))"

end
