(* ===== verification/Mkfslaws.thy ===== *)
theory Mkfslaws
  imports Mkfs
begin

text \<open>
  The image that \<open>mkfs\<close> builds: files hold what was appended to them, no two share a block, and the free
  map marks what is in use.
\<close>

section \<open>Layout\<close>

lemma xshort_id [simp]: "xshort x = x"
proof -
  have "[ucast x, ucast (drop_bit 8 x)] = le_bytes 2 x" by (simp add: numeral_2_eq_2)
  then show ?thesis by (simp add: xshort_def)
qed

lemma xint_id [simp]: "xint x = x"
proof -
  have "[ucast x, ucast (drop_bit 8 x), ucast (drop_bit 16 x), ucast (drop_bit 24 x)] = le_bytes 4 x"
    by (simp add: numeral_eq_Suc)
  then show ?thesis by (simp add: xint_def)
qed

lemma layout [simp]:
  "nlog = 30" "ninodeblocks = 13" "nbitmap = 1" "nmeta = 46" "nblocks = 1954" "FSSIZE = 2000" "NINODES = 200"
  by (simp_all add: nlog_def ninodeblocks_def nbitmap_def nmeta_def nblocks_def FSSIZE_def NINODES_def LOGSIZE_def
      MAXOPBLOCKS_def fs_consts)

lemma mk_sb_fields [simp]:
  "sb_inodestart mk_sb = 32" "sb_bmapstart mk_sb = 45" "sb_size mk_sb = 2000" "sb_logstart mk_sb = 2" "sb_nlog mk_sb = 30"
  by (simp_all add: mk_sb_def)

lemma sector_id: "unat sec < 4194304 \<Longrightarrow> sector sec = unat sec"
  by (simp add: sector_def BSIZE_def unat_word_ariths)

lemma sector_io:
  assumes "length (img s) = 2000" and "unat sec < 2000"
  shows "rsect sec s = Ok (img s ! unat sec) s" "wsect sec buf s = Ok () (s\<lparr>img := (img s)[unat sec := buf]\<rparr>)"
  using assms by (simp_all add: rsect_def wsect_def sector_id)

section \<open>The blocks of a file\<close>

type_synonym sectors = "u8 list list"

text \<open>The sector of block \<open>j\<close> of a file, as the kernel's \<open>bmap\<close> finds it.\<close>

definition bno :: "sectors \<Rightarrow> inode \<Rightarrow> nat \<Rightarrow> u32" where
  "bno d din j = (if j < NDIRECT then i_addrs din ! j else field 4 (d ! unat (i_addrs din ! NDIRECT)) (4 * (j - NDIRECT)))"

definition own :: "sectors \<Rightarrow> inode \<Rightarrow> nat \<Rightarrow> u32 set" where
  "own d din k = bno d din ` {..<k} \<union> (if NDIRECT < k then {i_addrs din ! NDIRECT} else {})"

definition file_data :: "sectors \<Rightarrow> inode \<Rightarrow> nat \<Rightarrow> u8 list" where
  "file_data d din k = concat (map (\<lambda>j. d ! unat (bno d din j)) [0..<k])"

text \<open>
  A file with \<open>k\<close> blocks among the sectors from \<open>nmeta\<close> to \<open>tp\<close>; the entries behind them are zero.
\<close>

definition alloc_ok :: "sectors \<Rightarrow> nat \<Rightarrow> inode \<Rightarrow> nat \<Rightarrow> bool" where
  "alloc_ok d tp din k \<longleftrightarrow> length (i_addrs din) = NDIRECT + 1 \<and> k \<le> MAXFILE \<and>
     (\<forall>j < MAXFILE. j < NDIRECT \<or> NDIRECT < k \<longrightarrow> (bno d din j = 0 \<longleftrightarrow> k \<le> j)) \<and>
     (i_addrs din ! NDIRECT = 0 \<longleftrightarrow> k \<le> NDIRECT) \<and>
     (\<forall>b\<in>own d din k. nmeta \<le> unat b \<and> unat b < tp) \<and>
     inj_on (bno d din) {..<k} \<and> (NDIRECT < k \<longrightarrow> i_addrs din ! NDIRECT \<notin> bno d din ` {..<k})"

definition disk_ok :: "sectors \<Rightarrow> nat \<Rightarrow> bool" where
  "disk_ok d tp \<longleftrightarrow> length d = FSSIZE \<and> (\<forall>x\<in>set d. length x = BSIZE) \<and> nmeta \<le> tp \<and> tp \<le> FSSIZE \<and>
     (\<forall>b. tp \<le> b \<and> b < FSSIZE \<longrightarrow> d ! b = replicate BSIZE 0)"

definition cost :: "nat \<Rightarrow> nat" where
  "cost k = k + (if NDIRECT < k then 1 else 0)"

lemma alloc_okD:
  assumes "alloc_ok d tp din k"
  shows "length (i_addrs din) = NDIRECT + 1" "k \<le> MAXFILE"
    "\<And>j. j < MAXFILE \<Longrightarrow> j < NDIRECT \<or> NDIRECT < k \<Longrightarrow> bno d din j = 0 \<longleftrightarrow> k \<le> j"
    "i_addrs din ! NDIRECT = 0 \<longleftrightarrow> k \<le> NDIRECT"
    "\<And>b. b \<in> own d din k \<Longrightarrow> nmeta \<le> unat b \<and> unat b < tp"
    "inj_on (bno d din) {..<k}" "NDIRECT < k \<Longrightarrow> i_addrs din ! NDIRECT \<notin> bno d din ` {..<k}"
  using assms by (auto simp: alloc_ok_def)

lemma disk_okD:
  assumes "disk_ok d tp"
  shows "length d = 2000" "b < 2000 \<Longrightarrow> length (d ! b) = BSIZE" "46 \<le> tp" "tp \<le> 2000"
    "tp \<le> b \<Longrightarrow> b < 2000 \<Longrightarrow> d ! b = replicate BSIZE 0"
  using assms by (auto simp: disk_ok_def)

text \<open>Only the sectors of the file matter to it.\<close>

lemma bno_cong: "i_addrs din' = i_addrs din \<Longrightarrow> (NDIRECT < k \<Longrightarrow> d' ! unat (i_addrs din ! NDIRECT) = d ! unat (i_addrs din ! NDIRECT)) \<Longrightarrow>
    j < NDIRECT \<or> NDIRECT < k \<Longrightarrow> bno d' din' j = bno d din j"
  by (auto simp: bno_def)

lemma own_cong:
  assumes "i_addrs din' = i_addrs din" and "NDIRECT < k \<Longrightarrow> d' ! unat (i_addrs din ! NDIRECT) = d ! unat (i_addrs din ! NDIRECT)"
  shows "own d' din' k = own d din k"
  using bno_cong [OF assms] assms(1) by (force simp: own_def)

lemma alloc_ok_frame:
  assumes ok: "alloc_ok d tp din k" and "i_addrs din' = i_addrs din" "tp \<le> tp'"
    and "NDIRECT < k \<Longrightarrow> d' ! unat (i_addrs din ! NDIRECT) = d ! unat (i_addrs din ! NDIRECT)"
  shows "alloc_ok d' tp' din' k"
proof -
  have b: "bno d' din' j = bno d din j" if "j < NDIRECT \<or> NDIRECT < k" for j using bno_cong [OF assms(2,4) that] .
  then have "j < k \<Longrightarrow> bno d' din' j = bno d din j" for j by (cases "j < NDIRECT") auto
  then have "inj_on (bno d' din') {..<k} = inj_on (bno d din) {..<k}" "bno d' din' ` {..<k} = bno d din ` {..<k}"
    by (auto intro!: inj_on_cong image_cong)
  then show ?thesis
    using ok assms(2,3) b own_cong [OF assms(2,4)] by (auto simp: alloc_ok_def intro: less_le_trans)
qed

lemma file_data_cong:
  assumes "i_addrs din' = i_addrs din" and "\<And>b. b \<in> own d din k \<Longrightarrow> d' ! unat b = d ! unat b"
  shows "file_data d' din' k = file_data d din k"
proof -
  have "bno d' din' j = bno d din j" if "j < k" for j
    using assms that by (intro bno_cong [where k = k]) (auto simp: own_def)
  then show ?thesis using assms(2) by (auto simp: file_data_def own_def intro!: arg_cong [where f = concat])
qed

section \<open>Adding a block\<close>

lemma unat_tp: "tp \<le> 2000 \<Longrightarrow> unat (of_nat tp :: u32) = tp"
  by (simp add: unat_of_nat)

lemma alloc_okI:
  assumes "length (i_addrs din) = NDIRECT + 1" and "Suc k \<le> MAXFILE" and "tp < 2000" and "46 \<le> tp"
    and old: "\<forall>j < k. bno d' din' j = bno d din j" and new: "bno d' din' k = of_nat tp"
    and zero: "\<And>j. j < MAXFILE \<Longrightarrow> j < NDIRECT \<or> NDIRECT < Suc k \<Longrightarrow> Suc k \<le> j \<Longrightarrow> bno d' din' j = 0"
    and nz: "\<forall>j < k. bno d din j \<noteq> 0" and rng: "\<forall>j < k. 46 \<le> unat (bno d din j) \<and> unat (bno d din j) < tp"
    and inj: "inj_on (bno d din) {..<k}" and len: "length (i_addrs din') = NDIRECT + 1"
    and ind: "NDIRECT < Suc k \<longleftrightarrow> i_addrs din' ! NDIRECT \<noteq> 0"
    and indr: "NDIRECT < Suc k \<Longrightarrow> 46 \<le> unat (i_addrs din' ! NDIRECT) \<and> unat (i_addrs din' ! NDIRECT) < tp \<and>
        i_addrs din' ! NDIRECT \<notin> bno d din ` {..<k}"
  shows "alloc_ok d' (Suc tp) din' (Suc k)"
proof -
  have t: "unat (of_nat tp :: u32) = tp" using assms(3) by (simp add: unat_tp)
  have tn: "(of_nat tp :: u32) \<noteq> 0" using assms(3,4) t by (metis unat_0 not_numeral_le_zero)
  have sub: "{..<Suc k} = insert k {..<k}" by auto
  have img: "bno d' din' ` {..<Suc k} = insert (of_nat tp) (bno d din ` {..<k})"
    unfolding sub image_insert new using old by (auto intro!: arg_cong [where f = "insert _"] image_cong)
  have out: "(of_nat tp :: u32) \<notin> bno d din ` {..<k}" using rng t by fastforce
  have "inj_on (bno d' din') {..<k}" using inj old by (auto simp: inj_on_def)
  moreover have "bno d' din' ` {..<k} = bno d din ` {..<k}" using old by (intro image_cong) auto
  ultimately have inj': "inj_on (bno d' din') {..<Suc k}" unfolding sub inj_on_insert using out new by auto
  have "bno d' din' j = 0 \<longleftrightarrow> Suc k \<le> j" if "j < MAXFILE" "j < NDIRECT \<or> NDIRECT < Suc k" for j
    using zero [OF that] old new nz tn by (cases j k rule: linorder_cases) auto
  moreover have "46 \<le> unat b \<and> unat b < Suc tp" if "b \<in> own d' din' (Suc k)" for b
    using that rng indr t assms(4) unfolding own_def img by (auto split: if_splits)
  moreover have "i_addrs din' ! NDIRECT \<notin> bno d' din' ` {..<Suc k}" if "NDIRECT < Suc k"
    unfolding img using indr [OF that] t by auto
  ultimately show ?thesis unfolding alloc_ok_def using assms(2) len ind inj' by auto
qed

lemma disk_ok_grow: "disk_ok d tp \<Longrightarrow> tp < 2000 \<Longrightarrow> disk_ok d (Suc tp)"
  by (simp add: disk_ok_def)

lemma disk_ok_write:
  assumes "disk_ok d tp" and "length x = BSIZE" and "b < tp"
  shows "disk_ok (d[b := x]) tp"
proof -
  have "\<forall>y\<in>set (d[b := x]). length y = BSIZE"
    using assms set_update_subset_insert [of d b x] by (auto simp: disk_ok_def)
  then show ?thesis using assms by (simp add: disk_ok_def)
qed

text \<open>A new entry of the indirect block.\<close>

lemma entry_alloc:
  fixes din :: inode and d :: sectors
  assumes dk: "disk_ok d tp" "tp < 2000" and a: "length (i_addrs din) = NDIRECT + 1" "NDIRECT \<le> k" "k < MAXFILE"
    and z: "\<forall>j < MAXFILE. bno d din j = 0 \<longleftrightarrow> k \<le> j"
    and r: "\<forall>b\<in>bno d din ` {..<k} \<union> {i_addrs din ! NDIRECT}. 46 \<le> unat b \<and> unat b < tp"
    and inj: "inj_on (bno d din) {..<k}" "i_addrs din ! NDIRECT \<notin> bno d din ` {..<k}"
  defines "i \<equiv> unat (i_addrs din ! NDIRECT)"
  defines "d' \<equiv> d[i := put_field 4 (d ! i) (4 * (k - NDIRECT)) (of_nat tp :: u32)]"
  shows "alloc_ok d' (Suc tp) din (Suc k)" "\<forall>j < k. bno d' din j = bno d din j" "bno d' din k = of_nat tp" "disk_ok d' (Suc tp)"
proof -
  have i: "i < tp" "i < length d" "length (d ! i) = BSIZE" using r dk disk_okD [OF dk(1)] by (auto simp: i_def)
  have at: "d' ! i = put_field 4 (d ! i) (4 * (k - NDIRECT)) (of_nat tp :: u32)" using i by (simp add: d'_def)
  have room: "4 * (k - NDIRECT) + 4 \<le> length (d ! i)" using a i by (simp add: fs_consts)
  have b: "bno d' din j = (if j = k then of_nat tp else bno d din j)" if "j < MAXFILE" for j
  proof (cases "j < NDIRECT")
    case True
    then show ?thesis using a(2) by (simp add: bno_def)
  next
    case False
    have "4 * (j - NDIRECT) + 4 \<le> 4 * (k - NDIRECT) \<or> 4 * (k - NDIRECT) + 4 \<le> 4 * (j - NDIRECT)" if "j \<noteq> k"
      using False that a(2) by linarith
    then show ?thesis
      using False a(2) room by (auto simp: bno_def i_def [symmetric] at field_put_other)
  qed
  show old: "\<forall>j < k. bno d' din j = bno d din j" and new: "bno d' din k = of_nat tp" using b a(3) by auto
  show dk': "disk_ok d' (Suc tp)"
    unfolding d'_def using dk i room by (intro disk_ok_write disk_ok_grow) auto
  have tp: "46 \<le> tp" using disk_okD [OF dk(1)] by simp
  have ne: "i_addrs din ! NDIRECT \<noteq> 0" using r by auto
  show "alloc_ok d' (Suc tp) din (Suc k)"
    using a dk(2) tp old new z r inj ne b by (intro alloc_okI [where d = d and din = din]) auto
qed

definition appended :: "mk_st \<Rightarrow> nat \<Rightarrow> inode \<Rightarrow> nat \<Rightarrow> mk_st \<Rightarrow> nat \<Rightarrow> inode \<Rightarrow> nat \<Rightarrow> bool" where
  "appended s tp din k s' tp' din' k' \<longleftrightarrow> freeblock s' = of_nat tp' \<and> freeinode s' = freeinode s \<and> tp \<le> tp' \<and>
     tp' + cost k = tp + cost k' \<and> disk_ok (img s') tp' \<and>
     alloc_ok (img s') tp' din' k' \<and> own (img s') din' k' \<subseteq> own (img s) din k \<union> {b. tp \<le> unat b \<and> unat b < tp'} \<and>
     (\<forall>b < tp. of_nat b \<notin> own (img s) din k \<longrightarrow> img s' ! b = img s ! b) \<and>
     i_type din' = i_type din \<and> i_nlink din' = i_nlink din \<and> i_size din' = i_size din \<and> i_major din' = i_major din \<and> i_minor din' = i_minor din"

lemma unat_ne: "unat a = n \<Longrightarrow> unat b = m \<Longrightarrow> n \<noteq> m \<Longrightarrow> a \<noteq> b"
  by auto

lemma own_Suc:
  assumes "\<forall>j < k. bno d' din' j = bno d din j"
  shows "own d' din' (Suc k) \<subseteq> bno d din ` {..<k} \<union> {bno d' din' k} \<union> (if NDIRECT < Suc k then {i_addrs din' ! NDIRECT} else {})"
  using assms by (auto simp: own_def less_Suc_eq)

lemma append_direct:
  assumes dk: "disk_ok (img s) tp" "tp < 2000" and fb: "freeblock s = of_nat tp" and ok: "alloc_ok (img s) tp din k" and k: "k < NDIRECT"
  defines "din' \<equiv> din\<lparr>i_addrs := (i_addrs din)[k := of_nat tp]\<rparr>"
  defines "s' \<equiv> s\<lparr>freeblock := freeblock s + 1\<rparr>"
  shows "append_block din k s = Ok (din', of_nat tp) s'" "appended s tp din k s' (Suc tp) din' (Suc k)"
    "\<forall>j < k. bno (img s') din' j = bno (img s) din j" "bno (img s') din' k = of_nat tp"
proof -
  note a = alloc_okD [OF ok]
  have len: "length (i_addrs din) = 13" using a(1) by (simp add: NDIRECT_def)
  have k13: "k < 13" "k < MAXFILE" using k by (simp_all add: fs_consts)
  have "i_addrs din ! k = 0" using a(3) [of k] k k13 by (simp add: bno_def)
  then show "append_block din k s = Ok (din', of_nat tp) s'"
    using k k13 len by (simp add: append_block_def Let_def fb din'_def s'_def)
  have b: "bno (img s') din' j = (if j = k then of_nat tp else bno (img s) din j)" if "j < NDIRECT" for j
    using that len k13 by (simp add: bno_def din'_def s'_def)
  show old: "\<forall>j < k. bno (img s') din' j = bno (img s) din j" and new: "bno (img s') din' k = of_nat tp" using b k by auto
  have tp: "46 \<le> tp" using disk_okD [OF dk(1)] by simp
  have ind: "i_addrs din' ! NDIRECT = i_addrs din ! NDIRECT" using k by (simp add: din'_def)
  have rng: "\<forall>j < k. 46 \<le> unat (bno (img s) din j) \<and> unat (bno (img s) din j) < tp" using a(5) by (auto simp: own_def)
  have nz: "\<forall>j < k. bno (img s) din j \<noteq> 0" using a(3) k by (auto simp: fs_consts)
  have i0: "i_addrs din ! NDIRECT = 0" using a(4) k by simp
  have z: "bno (img s') din' j = 0" if "j < MAXFILE" "j < NDIRECT \<or> NDIRECT < Suc k" "Suc k \<le> j" for j
    using that b [of j] a(3) [of j] k by auto
  have "alloc_ok (img s') (Suc tp) din' (Suc k)"
    by (rule alloc_okI [OF a(1) _ dk(2) tp old new z nz rng a(6)]) (use k k13 len ind i0 in \<open>auto simp: din'_def NDIRECT_def\<close>)
  moreover have "own (img s') din' (Suc k) \<subseteq> own (img s) din k \<union> {b. tp \<le> unat b \<and> unat b < Suc tp}"
    using own_Suc [OF old] new k dk(2) by (auto simp: own_def unat_tp)
  ultimately show "appended s tp din k s' (Suc tp) din' (Suc k)"
    using dk fb k disk_ok_grow [OF dk] unfolding appended_def by (simp add: s'_def din'_def cost_def)
qed

lemma le_word_zeroes [simp]: "le_word (replicate n 0) = 0"
  by (induction n) auto

lemma field_zeroes [simp]: "field k (replicate n 0) off = 0"
  by (simp add: field_def)

lemma append_indirect_eq:
  "NDIRECT \<le> k \<Longrightarrow> append_block din k s =
     (if i_addrs din ! NDIRECT = 0
      then append_entry (din\<lparr>i_addrs := (i_addrs din)[NDIRECT := freeblock s]\<rparr>) (k - NDIRECT) (s\<lparr>freeblock := freeblock s + 1\<rparr>)
      else append_entry din (k - NDIRECT) s)"
  by (simp add: append_block_def Let_def)

lemma append_entry_law:
  fixes din :: inode and s :: mk_st
  assumes dk: "disk_ok (img s) tp" "tp < 2000" and fb: "freeblock s = of_nat tp"
    and a: "length (i_addrs din) = NDIRECT + 1" "NDIRECT \<le> k" "k < MAXFILE"
    and z: "\<forall>j < MAXFILE. bno (img s) din j = 0 \<longleftrightarrow> k \<le> j"
    and r: "\<forall>b\<in>bno (img s) din ` {..<k} \<union> {i_addrs din ! NDIRECT}. 46 \<le> unat b \<and> unat b < tp"
    and inj: "inj_on (bno (img s) din) {..<k}" "i_addrs din ! NDIRECT \<notin> bno (img s) din ` {..<k}"
  defines "i \<equiv> unat (i_addrs din ! NDIRECT)"
  shows "\<exists>s'. append_entry din (k - NDIRECT) s = Ok (din, of_nat tp) s' \<and>
    (\<forall>j < k. bno (img s') din j = bno (img s) din j) \<and> bno (img s') din k = of_nat tp \<and>
    alloc_ok (img s') (Suc tp) din (Suc k) \<and> disk_ok (img s') (Suc tp) \<and>
    freeblock s' = of_nat (Suc tp) \<and> freeinode s' = freeinode s \<and> (\<forall>b. b \<noteq> i \<longrightarrow> img s' ! b = img s ! b)"
proof -
  let ?d = "(img s)[i := put_field 4 (img s ! i) (4 * (k - NDIRECT)) (of_nat tp :: u32)]"
  note e = entry_alloc [OF dk a z r inj, folded i_def]
  have i: "i < tp" "i < length (img s)" "length (img s ! i) = BSIZE" using r dk disk_okD [OF dk(1)] by (auto simp: i_def)
  have "field 4 (img s ! i) (4 * (k - NDIRECT)) = (0 :: u32)" using z a by (auto simp: bno_def i_def)
  moreover have "4 * (k - NDIRECT) + 4 \<le> length (img s ! i)" using a i by (simp add: fs_consts)
  ultimately have "append_entry din (k - NDIRECT) s = Ok (din, of_nat tp) (s\<lparr>freeblock := freeblock s + 1, img := ?d\<rparr>)"
    using i fb disk_okD(1) [OF dk(1)] by (simp add: append_entry_def sector_io Let_def i_def [symmetric])
  then show ?thesis using e fb by (intro exI [of _ "s\<lparr>freeblock := freeblock s + 1, img := ?d\<rparr>"]) simp
qed

lemma append_indirect:
  assumes dk: "disk_ok (img s) tp" and fb: "freeblock s = of_nat tp" and ok: "alloc_ok (img s) tp din k"
    and k: "NDIRECT \<le> k" "k < MAXFILE" and room: "tp + (cost (Suc k) - cost k) \<le> 2000"
  defines "tp' \<equiv> tp + (cost (Suc k) - cost k)"
  shows "\<exists>din' s'. append_block din k s = Ok (din', of_nat (tp' - 1)) s' \<and> appended s tp din k s' tp' din' (Suc k) \<and>
    (\<forall>j < k. bno (img s') din' j = bno (img s) din j) \<and> bno (img s') din' k = of_nat (tp' - 1) \<and>
    img s' ! (tp' - 1) = img s ! (tp' - 1) \<and> (\<forall>j < k. img s' ! unat (bno (img s) din j) = img s ! unat (bno (img s) din j))"
proof -
  note a = alloc_okD [OF ok]
  have tp: "46 \<le> tp" using disk_okD [OF dk] by simp
  have rng: "46 \<le> unat b \<and> unat b < tp" if "b \<in> bno (img s) din ` {..<k}" for b using a(5) that by (auto simp: own_def)
  show ?thesis
  proof (cases "NDIRECT < k")
    case True
    let ?i = "i_addrs din ! NDIRECT"
    have t: "tp' = Suc tp" "tp < 2000" using True room by (auto simp: tp'_def cost_def)
    have i: "?i \<in> own (img s) din k" "?i \<noteq> 0" using True a(4) by (auto simp: own_def)
    have z: "\<forall>j < MAXFILE. bno (img s) din j = 0 \<longleftrightarrow> k \<le> j" using a(3) True by auto
    have r: "\<forall>b\<in>bno (img s) din ` {..<k} \<union> {?i}. 46 \<le> unat b \<and> unat b < tp" using rng a(5) [OF i(1)] by auto
    obtain s' where s': "append_entry din (k - NDIRECT) s = Ok (din, of_nat tp) s'" "\<forall>j < k. bno (img s') din j = bno (img s) din j"
        "bno (img s') din k = of_nat tp" "alloc_ok (img s') (Suc tp) din (Suc k)" "disk_ok (img s') (Suc tp)"
        "freeblock s' = of_nat (Suc tp)" "freeinode s' = freeinode s" "\<forall>b. b \<noteq> unat ?i \<longrightarrow> img s' ! b = img s ! b"
      using append_entry_law [OF dk t(2) fb a(1) k z r a(6) a(7) [OF True]] by blast
    have "own (img s') din (Suc k) \<subseteq> own (img s) din k \<union> {b. tp \<le> unat b \<and> unat b < Suc tp}"
      using own_Suc [OF s'(2)] s'(3) i(1) t(2) by (auto simp: own_def unat_tp split: if_splits)
    moreover have "img s' ! b = img s ! b" if "of_nat b \<notin> own (img s) din k" for b
    proof (cases "b = unat ?i")
      case True
      then have "of_nat b = ?i" by simp
      then show ?thesis using that i(1) by simp
    qed (use s'(8) in auto)
    ultimately have "appended s tp din k s' (Suc tp) din (Suc k)"
      using s' True by (simp add: appended_def cost_def)
    moreover have "img s' ! tp = img s ! tp" using s'(8) r by auto
    moreover have "img s' ! unat (bno (img s) din j) = img s ! unat (bno (img s) din j)" if "j < k" for j
      using s'(8) a(7) [OF True] that by (metis imageI lessThan_iff word_unat_eq_iff)
    ultimately show ?thesis
      using s' i(2) k t(1) by (intro exI [of _ din] exI [of _ s']) (simp add: append_indirect_eq)
  next
    case False
    then have k12: "k = NDIRECT" using k by simp
    then have t: "tp' = Suc (Suc tp)" "Suc tp < 2000" using room by (auto simp: tp'_def cost_def)
    let ?din = "din\<lparr>i_addrs := (i_addrs din)[NDIRECT := of_nat tp]\<rparr>" and ?s = "s\<lparr>freeblock := freeblock s + 1\<rparr>"
    have len: "length (i_addrs din) = 13" using a(1) by (simp add: NDIRECT_def)
    have u: "unat (of_nat tp :: u32) = tp" using t(2) by (simp add: unat_tp)
    have i: "i_addrs ?din ! NDIRECT = of_nat tp" "i_addrs din ! NDIRECT = 0" using len a(4) k12 by (auto simp: NDIRECT_def)
    have bn: "bno (img s) ?din j = (if j < NDIRECT then bno (img s) din j else 0)" for j
      using disk_okD(5) [OF dk, of tp] t(2) u i(1) by (simp add: bno_def)
    have z: "\<forall>j < MAXFILE. bno (img ?s) ?din j = 0 \<longleftrightarrow> k \<le> j" using a(3) k12 by (auto simp: bn)
    have im: "bno (img s) ?din ` {..<k} = bno (img s) din ` {..<k}" using k12 by (auto simp: bn)
    have r: "\<forall>b\<in>bno (img ?s) ?din ` {..<k} \<union> {i_addrs ?din ! NDIRECT}. 46 \<le> unat b \<and> unat b < Suc tp"
      using rng tp u unfolding i(1) by (auto simp: im less_Suc_eq)
    have inj: "inj_on (bno (img ?s) ?din) {..<k}" "i_addrs ?din ! NDIRECT \<notin> bno (img ?s) ?din ` {..<k}"
    proof -
      show "inj_on (bno (img ?s) ?din) {..<k}" using a(6) k12 by (auto simp: inj_on_def bn)
      have "(of_nat tp :: u32) \<notin> bno (img s) din ` {..<k}" using rng [of "of_nat tp"] u by auto
      then show "i_addrs ?din ! NDIRECT \<notin> bno (img ?s) ?din ` {..<k}" unfolding i(1) by (simp add: im)
    qed
    have fb': "freeblock ?s = of_nat (Suc tp)" "disk_ok (img ?s) (Suc tp)" using fb dk t(2) by (simp_all add: disk_ok_grow)
    obtain s' where s': "append_entry ?din (k - NDIRECT) ?s = Ok (?din, of_nat (Suc tp)) s'"
        "\<forall>j < k. bno (img s') ?din j = bno (img s) ?din j" "bno (img s') ?din k = of_nat (Suc tp)"
        "alloc_ok (img s') (Suc (Suc tp)) ?din (Suc k)" "disk_ok (img s') (Suc (Suc tp))"
        "freeblock s' = of_nat (Suc (Suc tp))" "freeinode s' = freeinode s" "\<forall>b. b \<noteq> tp \<longrightarrow> img s' ! b = img s ! b"
      using append_entry_law [OF fb'(2) t(2) fb'(1) _ k z r inj] a(1) u unfolding i(1) by auto
    have old: "\<forall>j < k. bno (img s') ?din j = bno (img s) din j" using s'(2) k12 by (auto simp: bn)
    have "own (img s') ?din (Suc k) \<subseteq> own (img s) din k \<union> {b. tp \<le> unat b \<and> unat b < Suc (Suc tp)}"
      using own_Suc [OF old] t(2) u unfolding s'(3) i(1)
      by (auto simp: own_def k12 unat_tp simp del: of_nat_Suc split: if_splits)
    then have "appended s tp din k s' (Suc (Suc tp)) ?din (Suc k)"
      using s' k12 by (simp add: appended_def cost_def)
    moreover have "img s' ! Suc tp = img s ! Suc tp" using s'(8) by auto
    moreover have "img s' ! unat (bno (img s) din j) = img s ! unat (bno (img s) din j)" if "j < k" for j
      using s'(8) rng [of "bno (img s) din j"] that by auto
    ultimately show ?thesis
      using s' old i(2) k t(1) fb by (intro exI [of _ ?din] exI [of _ s']) (simp add: append_indirect_eq del: of_nat_Suc)
  qed
qed

section \<open>Appending bytes\<close>

definition nblk :: "nat \<Rightarrow> nat" where
  "nblk n = (n + (BSIZE - 1)) div BSIZE"

definition file_is :: "sectors \<Rightarrow> nat \<Rightarrow> inode \<Rightarrow> u8 list \<Rightarrow> bool" where
  "file_is d tp din c \<longleftrightarrow> alloc_ok d tp din (nblk (length c)) \<and>
     file_data d din (nblk (length c)) = c @ replicate (nblk (length c) * BSIZE - length c) 0"

lemma nblk_eq: "r < BSIZE \<Longrightarrow> nblk (q * BSIZE + r) = (if r = 0 then q else Suc q)"
proof (cases "r = 0")
  case False
  assume "r < BSIZE"
  then have "q * BSIZE + r + (BSIZE - 1) = (r - 1) + Suc q * BSIZE" using False by simp
  then have "nblk (q * BSIZE + r) = Suc q + (r - 1) div BSIZE" unfolding nblk_def by (simp add: BSIZE_def)
  then show ?thesis using False \<open>r < BSIZE\<close> by simp
qed (simp add: nblk_def BSIZE_def)

lemma nblk_at: "nblk n = (if n mod BSIZE = 0 then n div BSIZE else Suc (n div BSIZE))"
  using nblk_eq [of "n mod BSIZE" "n div BSIZE"] by (simp add: BSIZE_def)

lemma nblk_chunk:
  assumes "0 < m" and "m \<le> BSIZE - n mod BSIZE"
  shows "nblk (n + m) = Suc (n div BSIZE)"
proof (cases "n mod BSIZE + m < BSIZE")
  case True
  have "n + m = n div BSIZE * BSIZE + (n mod BSIZE + m)" by simp
  then show ?thesis using nblk_eq [OF True, of "n div BSIZE"] assms(1) by simp
next
  case False
  then have "n mod BSIZE + m = BSIZE" using assms(2) mod_less_divisor [of BSIZE n] by (simp add: BSIZE_def)
  then have "n + m = Suc (n div BSIZE) * BSIZE" by (metis add.assoc add.commute div_mult_mod_eq mult_Suc)
  then show ?thesis using nblk_eq [of 0 "Suc (n div BSIZE)"] by (simp add: BSIZE_def)
qed

lemma file_data_Suc: "file_data d din (Suc k) = file_data d din k @ d ! unat (bno d din k)"
  by (simp add: file_data_def)

lemma file_data_length:
  assumes "disk_ok d tp" and "alloc_ok d tp din k"
  shows "length (file_data d din k) = k * BSIZE"
proof -
  have "length (d ! unat (bno d din j)) = BSIZE" if "j < k" for j
    using alloc_okD(5) [OF assms(2), of "bno d din j"] that disk_okD [OF assms(1)] by (auto simp: own_def)
  then have "n \<le> k \<Longrightarrow> length (file_data d din n) = n * BSIZE" for n
    by (induction n) (auto simp: file_data_def)
  then show ?thesis by simp
qed

lemma appended_refl:
  assumes "disk_ok (img s) tp" and "freeblock s = of_nat tp" and "alloc_ok (img s) tp din k"
  shows "appended s tp din k s tp din k"
  using assms by (simp add: appended_def)

lemma appended_trans:
  assumes a: "appended s tp din k s1 tp1 din1 k1" and b: "appended s1 tp1 din1 k1 s2 tp2 din2 k2"
  shows "appended s tp din k s2 tp2 din2 k2"
proof -
  have tp: "tp \<le> tp1" "tp1 \<le> 2000" "tp1 \<le> tp2" using a b disk_okD(4) by (auto simp: appended_def)
  have "own (img s2) din2 k2 \<subseteq> own (img s) din k \<union> {b. tp \<le> unat b \<and> unat b < tp2}"
    using a b tp by (fastforce simp: appended_def)
  moreover have "img s2 ! n = img s ! n" if n: "n < tp" "of_nat n \<notin> own (img s) din k" for n
  proof -
    have "unat (of_nat n :: u32) = n" using n tp by (simp add: unat_tp)
    then have "of_nat n \<notin> own (img s1) din1 k1" using a n by (auto simp: appended_def)
    then show ?thesis using a b n tp by (auto simp: appended_def)
  qed
  ultimately show ?thesis using a b by (auto simp: appended_def)
qed

text \<open>The last block of the file is there: the old one, or a new one.\<close>

lemma block_ready:
  assumes dk: "disk_ok (img s) tp" and fb: "freeblock s = of_nat tp" and f: "file_is (img s) tp din c"
    and n: "length c div BSIZE < MAXFILE" and room: "tp + cost (Suc (length c div BSIZE)) \<le> 2000 + cost (nblk (length c))"
  shows "\<exists>din' s' tp'. append_block din (length c div BSIZE) s = Ok (din', bno (img s') din' (length c div BSIZE)) s' \<and>
    appended s tp din (nblk (length c)) s' tp' din' (Suc (length c div BSIZE)) \<and>
    file_data (img s') din' (Suc (length c div BSIZE)) = c @ replicate (Suc (length c div BSIZE) * BSIZE - length c) 0"
proof (cases "length c mod BSIZE = 0")
  case False
  let ?k = "length c div BSIZE"
  have k: "nblk (length c) = Suc ?k" using False by (simp add: nblk_at)
  have ok: "alloc_ok (img s) tp din (Suc ?k)" using f k by (simp add: file_is_def)
  have "append_block din ?k s = Ok (din, bno (img s) din ?k) s"
  proof (cases "?k < NDIRECT")
    case True
    then show ?thesis using alloc_okD(3) [OF ok, of ?k] n by (simp add: append_block_def bno_def Let_def)
  next
    case ind: False
    have "i_addrs din ! NDIRECT \<in> own (img s) din (Suc ?k)" using ind by (simp add: own_def)
    then have "unat (i_addrs din ! NDIRECT) < length (img s)" using alloc_okD(5) [OF ok] disk_okD [OF dk] by fastforce
    moreover have "i_addrs din ! NDIRECT \<noteq> 0" using alloc_okD(4) [OF ok] ind by simp
    moreover have "field 4 (img s ! unat (i_addrs din ! NDIRECT)) (4 * (?k - NDIRECT)) \<noteq> (0 :: u32)"
      using alloc_okD(3) [OF ok, of ?k] n ind by (simp add: bno_def)
    ultimately show ?thesis using ind disk_okD(1) [OF dk] by (simp add: append_indirect_eq append_entry_def sector_io bno_def)
  qed
  then show ?thesis
    using appended_refl [OF dk fb ok] f by (intro exI [of _ din] exI [of _ s] exI [of _ tp]) (simp add: k file_is_def)
next
  case True
  let ?k = "length c div BSIZE"
  have k: "nblk (length c) = ?k" "length c = ?k * BSIZE" using True by (auto simp: nblk_at)
  have ok: "alloc_ok (img s) tp din ?k" and c: "file_data (img s) din ?k = c" using f k by (auto simp: file_is_def)
  have r: "tp + (cost (Suc ?k) - cost ?k) \<le> 2000" "cost ?k < cost (Suc ?k)" using room k by (auto simp: cost_def)
  have new: "\<exists>din' s' tp' x. append_block din ?k s = Ok (din', x) s' \<and> appended s tp din ?k s' tp' din' (Suc ?k) \<and>
    (\<forall>j < ?k. bno (img s') din' j = bno (img s) din j) \<and> bno (img s') din' ?k = x \<and> tp \<le> unat x \<and> unat x < 2000 \<and>
    img s' ! unat x = img s ! unat x \<and> (\<forall>j < ?k. img s' ! unat (bno (img s) din j) = img s ! unat (bno (img s) din j))"
  proof (cases "?k < NDIRECT")
    case lt: True
    have tp: "tp < 2000" using r by simp
    show ?thesis
      using append_direct [OF dk tp fb ok lt] tp
      by (intro exI [of _ "din\<lparr>i_addrs := (i_addrs din)[?k := of_nat tp]\<rparr>"] exI [of _ "s\<lparr>freeblock := freeblock s + 1\<rparr>"]
          exI [of _ "Suc tp"] exI [of _ "of_nat tp"]) (simp add: unat_tp)
  next
    case False
    let ?tp = "tp + (cost (Suc ?k) - cost ?k)"
    obtain din' s' where d: "append_block din ?k s = Ok (din', of_nat (?tp - 1)) s'" "appended s tp din ?k s' ?tp din' (Suc ?k)"
        "\<forall>j < ?k. bno (img s') din' j = bno (img s) din j" "bno (img s') din' ?k = of_nat (?tp - 1)"
        "img s' ! (?tp - 1) = img s ! (?tp - 1)" "\<forall>j < ?k. img s' ! unat (bno (img s) din j) = img s ! unat (bno (img s) din j)"
      using append_indirect [OF dk fb ok _ n r(1)] False by auto
    define x where "x = (of_nat (?tp - 1) :: u32)"
    have "unat x = ?tp - 1" using r unfolding x_def by (intro unat_tp) simp
    moreover have "tp \<le> ?tp - 1" "?tp - 1 < 2000" using r by auto
    ultimately show ?thesis
      using d unfolding x_def [symmetric]
      by (intro exI [of _ din'] exI [of _ s'] exI [of _ ?tp] exI [of _ x]) (simp only: simp_thms)
  qed
  then obtain din' s' tp' x where d: "append_block din ?k s = Ok (din', x) s'" "appended s tp din ?k s' tp' din' (Suc ?k)"
    "\<forall>j < ?k. bno (img s') din' j = bno (img s) din j" "bno (img s') din' ?k = x" "tp \<le> unat x" "unat x < 2000"
    "img s' ! unat x = img s ! unat x" "\<forall>j < ?k. img s' ! unat (bno (img s) din j) = img s ! unat (bno (img s) din j)"
    by blast
  have "file_data (img s') din' ?k = file_data (img s) din ?k"
    unfolding file_data_def using d(3,8) by (intro arg_cong [where f = concat] map_cong) auto
  then have "file_data (img s') din' ?k = c" using c by (rule trans)
  moreover have "img s' ! unat x = replicate BSIZE 0" using d(5-7) disk_okD(5) [OF dk] by simp
  ultimately have "file_data (img s') din' (Suc ?k) = c @ replicate BSIZE 0" using d(4) by (simp add: file_data_Suc)
  then show ?thesis using d k by (intro exI [of _ din'] exI [of _ s'] exI [of _ tp']) simp
qed

text \<open>A chunk is written into the last block.\<close>

lemma last_block_write:
  assumes dk: "disk_ok d tp" and ok: "alloc_ok d tp din (Suc k)" and c: "k * BSIZE \<le> length c" "length c < Suc k * BSIZE"
    and data: "file_data d din (Suc k) = c @ replicate (Suc k * BSIZE - length c) 0"
    and m: "length c + length ch \<le> Suc k * BSIZE"
  defines "x \<equiv> unat (bno d din k)"
  defines "d' \<equiv> d[x := splice (length c - k * BSIZE) ch (d ! x)]"
  shows "disk_ok d' tp" "alloc_ok d' tp din (Suc k)" "own d' din (Suc k) = own d din (Suc k)"
    "file_data d' din (Suc k) = (c @ ch) @ replicate (Suc k * BSIZE - length (c @ ch)) 0" "x < tp" "x < length d"
proof -
  have xo: "bno d din k \<in> own d din (Suc k)" by (simp add: own_def)
  show xr: "x < tp" and xl: "x < length d" using alloc_okD(5) [OF ok xo] disk_okD [OF dk] by (auto simp: x_def)
  have len: "length (d ! x) = BSIZE" using disk_okD(1,2) [OF dk] xl by simp
  have "length (splice (length c - k * BSIZE) ch (d ! x)) = BSIZE" using m c len by (subst splice_props) auto
  then show "disk_ok d' tp" unfolding d'_def using dk xr by (intro disk_ok_write)
  have ind: "d' ! unat (i_addrs din ! NDIRECT) = d ! unat (i_addrs din ! NDIRECT)" if "NDIRECT < Suc k"
  proof -
    have "i_addrs din ! NDIRECT \<noteq> bno d din k" using alloc_okD(7) [OF ok that] by auto
    then have "x \<noteq> unat (i_addrs din ! NDIRECT)" by (simp add: x_def word_unat_eq_iff)
    then show ?thesis by (simp add: d'_def)
  qed
  show "alloc_ok d' tp din (Suc k)" using alloc_ok_frame [OF ok refl le_refl ind] .
  show "own d' din (Suc k) = own d din (Suc k)" using own_cong [OF refl ind] .
  have b: "bno d' din j = bno d din j" if "j < Suc k" for j
    using that ind by (intro bno_cong [where k = "Suc k"]) auto
  have other: "d' ! unat (bno d din j) = d ! unat (bno d din j)" if "j < k" for j
  proof -
    have "bno d din j \<noteq> bno d din k" using inj_onD [OF alloc_okD(6) [OF ok], of j k] that by auto
    then show ?thesis by (simp add: d'_def x_def word_unat_eq_iff)
  qed
  have pre: "file_data d' din k = file_data d din k"
    unfolding file_data_def using b other by (intro arg_cong [where f = concat] map_cong) auto
  have lk: "length (file_data d din k) = k * BSIZE" using file_data_length [OF dk ok] len by (simp add: file_data_Suc x_def)
  have eq: "file_data d din k @ d ! x = c @ replicate (Suc k * BSIZE - length c) 0" using data by (simp add: file_data_Suc x_def)
  have c1: "file_data d din k = take (k * BSIZE) c" using arg_cong [OF eq, of "take (k * BSIZE)"] lk c(1) by simp
  have c2: "d ! x = drop (k * BSIZE) c @ replicate (Suc k * BSIZE - length c) 0"
    using arg_cong [OF eq, of "drop (k * BSIZE)"] lk c(1) by simp
  have sp: "splice (length c - k * BSIZE) ch (d ! x) = drop (k * BSIZE) c @ ch @ replicate (Suc k * BSIZE - length (c @ ch)) 0"
    using c m by (simp add: splice_def c2)
  have "file_data d' din (Suc k) = take (k * BSIZE) c @ drop (k * BSIZE) c @ ch @ replicate (Suc k * BSIZE - length (c @ ch)) 0"
    unfolding file_data_Suc pre c1 b [OF lessI] x_def [symmetric] using sp xl by (simp add: d'_def)
  then show "file_data d' din (Suc k) = (c @ ch) @ replicate (Suc k * BSIZE - length (c @ ch)) 0"
    using append_take_drop_id [of "k * BSIZE" c] by (metis append.assoc)
qed

lemma chunk_step:
  assumes dk: "disk_ok (img s) tp" and fb: "freeblock s = of_nat tp" and f: "file_is (img s) tp din c"
    and n: "length c div BSIZE < MAXFILE" and room: "tp + cost (Suc (length c div BSIZE)) \<le> 2000 + cost (nblk (length c))"
    and ch: "ch \<noteq> []" "length ch \<le> BSIZE - length c mod BSIZE"
  defines "k \<equiv> length c div BSIZE"
  shows "\<exists>din' x s1 buf s2 tp'. append_block din k s = Ok (din', x) s1 \<and> rsect x s1 = Ok buf s1 \<and>
    wsect x (splice (length c - k * BSIZE) ch buf) s1 = Ok () s2 \<and>
    file_is (img s2) tp' din' (c @ ch) \<and> appended s tp din (nblk (length c)) s2 tp' din' (nblk (length (c @ ch)))"
proof -
  obtain din' s1 tp' where a: "append_block din k s = Ok (din', bno (img s1) din' k) s1"
      "appended s tp din (nblk (length c)) s1 tp' din' (Suc k)"
      "file_data (img s1) din' (Suc k) = c @ replicate (Suc k * BSIZE - length c) 0"
    using block_ready [OF dk fb f n room] unfolding k_def by blast
  have ok: "disk_ok (img s1) tp'" "alloc_ok (img s1) tp' din' (Suc k)" using a(2) by (auto simp: appended_def)
  have b: "k * BSIZE \<le> length c" "length c < Suc k * BSIZE" "length c + length ch \<le> Suc k * BSIZE"
  proof -
    have "length c = k * BSIZE + length c mod BSIZE" "length c mod BSIZE < BSIZE" by (auto simp: k_def BSIZE_def)
    then show "k * BSIZE \<le> length c" "length c < Suc k * BSIZE" "length c + length ch \<le> Suc k * BSIZE" using ch(2) by auto
  qed
  let ?x = "bno (img s1) din' k"
  let ?d = "(img s1)[unat ?x := splice (length c - k * BSIZE) ch (img s1 ! unat ?x)]"
  note w = last_block_write [OF ok b(1,2) a(3) b(3)]
  have k': "nblk (length (c @ ch)) = Suc k" using nblk_chunk [of "length ch" "length c"] ch by (simp add: k_def)
  have "file_is ?d tp' din' (c @ ch)" unfolding file_is_def k' using w(2,4) by simp
  moreover have "appended s1 tp' din' (Suc k) (s1\<lparr>img := ?d\<rparr>) tp' din' (Suc k)"
  proof -
    have "?d ! i = img s1 ! i" if "of_nat i \<notin> own (img s1) din' (Suc k)" for i
    proof (cases "i = unat ?x")
      case True
      then show ?thesis using that by (simp add: own_def)
    qed simp
    then show ?thesis using w(1,2,3) a(2) by (simp add: appended_def)
  qed
  then have "appended s tp din (nblk (length c)) (s1\<lparr>img := ?d\<rparr>) tp' din' (Suc k)" using appended_trans [OF a(2)] by blast
  ultimately show ?thesis
    using a(1) w(6) k' disk_okD(1) [OF ok(1)]
    by (intro exI [of _ din'] exI [of _ ?x] exI [of _ s1] exI [of _ "img s1 ! unat ?x"] exI [of _ "s1\<lparr>img := ?d\<rparr>"] exI [of _ tp'])
      (simp add: sector_io Let_def)
qed

lemma nblk_mono: "n \<le> m \<Longrightarrow> nblk n \<le> nblk m"
  by (simp add: nblk_def div_le_mono)

lemma cost_mono: "n \<le> m \<Longrightarrow> cost n \<le> cost m"
  by (simp add: cost_def)

lemma iappend_loop_law:
  assumes "disk_ok (img s) tp" and "freeblock s = of_nat tp" and "file_is (img s) tp din c"
    and "length c + length p \<le> MAXFILE * BSIZE"
    and "tp + cost (nblk (length c + length p)) \<le> 2000 + cost (nblk (length c))"
  shows "\<exists>din' s' tp'. iappend_loop din (length c) p s = Ok (din', length (c @ p)) s' \<and>
    file_is (img s') tp' din' (c @ p) \<and> appended s tp din (nblk (length c)) s' tp' din' (nblk (length (c @ p)))"
  using assms
proof (induction "length p" arbitrary: p c din s tp rule: less_induct)
  case less
  show ?case
  proof (cases "p = []")
    case True
    then show ?thesis
      using less.prems appended_refl by (intro exI [of _ din] exI [of _ s] exI [of _ tp]) (auto simp: file_is_def iappend_loop.simps [of _ _ "[]"])
  next
    case False
    define k where "k = length c div BSIZE"
    define n1 where "n1 = min (length p) ((k + 1) * BSIZE - length c)"
    have gap: "(k + 1) * BSIZE - length c = BSIZE - length c mod BSIZE" "0 < BSIZE - length c mod BSIZE"
    proof -
      have "length c = k * BSIZE + length c mod BSIZE" by (simp add: k_def)
      then show "(k + 1) * BSIZE - length c = BSIZE - length c mod BSIZE" by simp
      show "0 < BSIZE - length c mod BSIZE" by (simp add: BSIZE_def)
    qed
    have ch: "take n1 p \<noteq> []" "length (take n1 p) \<le> BSIZE - length c mod BSIZE" "length (take n1 p) = n1" "n1 \<le> length p" "0 < n1"
      using False gap by (auto simp: n1_def)
    have kM: "length c div BSIZE < MAXFILE"
    proof -
      have "0 < length p" using False by simp
      then have "length c < MAXFILE * BSIZE" using less.prems(4) by linarith
      then show ?thesis by (rule less_mult_imp_div_less)
    qed
    have sk: "nblk (length c + n1) = Suc k" using nblk_chunk [of n1 "length c"] ch by (simp add: k_def)
    have "cost (Suc k) \<le> cost (nblk (length c + length p))" using ch(4) nblk_mono cost_mono sk by (metis add_left_mono)
    then have room: "tp + cost (Suc (length c div BSIZE)) \<le> 2000 + cost (nblk (length c))" using less.prems(5) by (simp add: k_def)
    obtain din1 x s1 buf s2 tp1 where st: "append_block din k s = Ok (din1, x) s1" "rsect x s1 = Ok buf s1"
        "wsect x (splice (length c - k * BSIZE) (take n1 p) buf) s1 = Ok () s2" "file_is (img s2) tp1 din1 (c @ take n1 p)"
        "appended s tp din (nblk (length c)) s2 tp1 din1 (nblk (length (c @ take n1 p)))"
      using chunk_step [OF less.prems(1-3) kM room ch(1,2)] unfolding k_def by blast
    have s2: "disk_ok (img s2) tp1" "freeblock s2 = of_nat tp1" using st(5) by (auto simp: appended_def)
    have r2: "tp1 + cost (nblk (length (c @ take n1 p) + length (drop n1 p))) \<le> 2000 + cost (nblk (length (c @ take n1 p)))"
      using st(5) less.prems(5) ch(3,4) by (simp add: appended_def)
    obtain din' s' tp' where i: "iappend_loop din1 (length (c @ take n1 p)) (drop n1 p) s2 = Ok (din', length (c @ p)) s'"
        "file_is (img s') tp' din' (c @ p)" "appended s2 tp1 din1 (nblk (length (c @ take n1 p))) s' tp' din' (nblk (length (c @ p)))"
      using less.hyps [OF _ s2 st(4) _ r2] less.prems(4) ch by auto
    have "iappend_loop din (length c) p s = iappend_loop din1 (length c + n1) (drop n1 p) s2"
      using False kM st(1-3) by (subst iappend_loop.simps) (simp add: Let_def n1_def k_def)
    then show ?thesis
      using i ch(3) appended_trans [OF st(5) i(3)] by (intro exI [of _ din'] exI [of _ s'] exI [of _ tp']) simp
  qed
qed

section \<open>Inodes\<close>

definition dino :: "sectors \<Rightarrow> nat \<Rightarrow> inode" where
  "dino d inum = get_dinode (d ! unat (IBLOCK inum mk_sb)) (dinode_off inum) blank_inode"

lemma IBLOCK_mk: "inum < 200 \<Longrightarrow> unat (IBLOCK inum mk_sb) = 32 + inum div 16 \<and> 32 + inum div 16 < 45"
proof -
  assume i: "inum < 200"
  have "IBLOCK inum mk_sb = of_nat (32 + inum div 16)" by (simp add: IBLOCK_def IPB_def BSIZE_def dinode_size_def)
  moreover have "32 + inum div 16 < 45" using i by auto
  ultimately show ?thesis by (simp only: unat_tp)
qed

text \<open>Storing an inode changes that inode only.\<close>

definition stored :: "mk_st \<Rightarrow> mk_st \<Rightarrow> nat \<Rightarrow> inode \<Rightarrow> bool" where
  "stored s s' inum ip \<longleftrightarrow> same_dinode (dino (img s') inum) ip \<and> (\<forall>j < 200. j \<noteq> inum \<longrightarrow> dino (img s') j = dino (img s) j) \<and>
     (\<forall>b. 45 \<le> b \<or> b < 32 \<longrightarrow> img s' ! b = img s ! b) \<and> freeinode s' = freeinode s \<and> freeblock s' = freeblock s"

lemma winode_law:
  assumes dk: "disk_ok (img s) tp" and i: "inum < 200" and len: "length (i_addrs ip) = NDIRECT + 1"
  shows "\<exists>s'. winode (of_nat inum) ip s = Ok () s' \<and> stored s s' inum ip \<and> disk_ok (img s') tp"
proof -
  let ?b = "32 + inum div 16" and ?o = "dinode_off inum"
  let ?x = "put_dinode ip (img s ! ?b) ?o"
  let ?d = "(img s)[?b := ?x]"
  have u: "unat (of_nat inum :: u32) = inum" using i by (simp add: unat_tp)
  have b: "unat (IBLOCK inum mk_sb) = ?b" "?b < 45" using IBLOCK_mk [OF i] by auto
  have bl: "?b < length (img s)" "length (img s ! ?b) = BSIZE" using disk_okD(1,2) [OF dk] b(2) by auto
  have off: "?o + dinode_size \<le> length (img s ! ?b)" using dinode_room bl(2) by simp
  have lx: "length ?x = BSIZE" using put_dinode_split(1) [OF off] bl(2) by simp
  have "dino ?d j = dino (img s) j" if j: "j < 200" "j \<noteq> inum" for j
  proof (cases "j div 16 = inum div 16")
    case True
    have "j mod IPB \<noteq> inum mod IPB"
      using True j(2) by (simp add: IPB_def BSIZE_def dinode_size_def) (metis mult_div_mod_eq)
    then show ?thesis
      using put_dinode_other [OF bl(2) len, of j inum blank_inode] IBLOCK_mk [OF j(1)] True bl(1) by (simp add: dino_def)
  next
    case False
    then show ?thesis using IBLOCK_mk [OF j(1)] by (simp add: dino_def)
  qed
  moreover have "same_dinode (dino ?d inum) ip"
    using put_dinode_fields(1) [OF off len, of blank_inode] b bl(1) by (simp add: dino_def)
  moreover have "disk_ok ?d tp" using disk_ok_write [OF dk lx] b(2) disk_okD(3) [OF dk] by simp
  ultimately show ?thesis
    using b bl u disk_okD(1) [OF dk] by (intro exI [of _ "s\<lparr>img := ?d\<rparr>"]) (simp add: winode_def sector_io stored_def Let_def)
qed

lemma rinode_law: "disk_ok (img s) tp \<Longrightarrow> inum < 200 \<Longrightarrow> rinode (of_nat inum) s = Ok (dino (img s) inum) s"
  using IBLOCK_mk [of inum] disk_okD(1) [of "img s" tp] by (simp add: rinode_def sector_io dino_def unat_tp Let_def)

section \<open>The image as a list of files\<close>

text \<open>File \<open>i\<close> of the list, with its type and contents, is inode \<open>i + 1\<close>.\<close>

type_synonym files = "(u16 \<times> u8 list) list"

definition blocks_used :: "files \<Rightarrow> nat" where
  "blocks_used cs = (\<Sum>(t, c)\<leftarrow>cs. cost (nblk (length c)))"

fun entry_ok :: "sectors \<Rightarrow> nat \<Rightarrow> nat \<Rightarrow> u16 \<times> u8 list \<Rightarrow> bool" where
  "entry_ok d tp i (t, c) \<longleftrightarrow> (let q = dino d (Suc i) in
     i_type q = t \<and> i_nlink q = 1 \<and> i_size q = of_nat (length c) \<and> file_is d tp q c \<and> length c \<le> MAXFILE * BSIZE)"

fun owned :: "sectors \<Rightarrow> nat \<Rightarrow> u16 \<times> u8 list \<Rightarrow> u32 set" where
  "owned d i (t, c) = own d (dino d (Suc i)) (nblk (length c))"

definition mk_inv :: "mk_st \<Rightarrow> files \<Rightarrow> bool" where
  "mk_inv s cs \<longleftrightarrow> disk_ok (img s) (46 + blocks_used cs) \<and> freeblock s = of_nat (46 + blocks_used cs) \<and>
     freeinode s = of_nat (Suc (length cs)) \<and> length cs < 200 \<and>
     (\<forall>i < length cs. entry_ok (img s) (46 + blocks_used cs) i (cs ! i)) \<and>
     (\<forall>i < length cs. \<forall>j < length cs. i \<noteq> j \<longrightarrow> owned (img s) i (cs ! i) \<inter> owned (img s) j (cs ! j) = {}) \<and>
     img s ! 1 = sb_sector \<and> (\<forall>b. 2 \<le> b \<and> b < 32 \<longrightarrow> img s ! b = replicate BSIZE 0)"

lemma blocks_used_simps [simp]: "blocks_used [] = 0" "blocks_used ((t, c) # cs) = cost (nblk (length c)) + blocks_used cs" "blocks_used (xs @ ys) = blocks_used xs + blocks_used ys"
  by (simp_all add: blocks_used_def)

lemma blocks_used_update:
  "i < length cs \<Longrightarrow> cs ! i = (t, c) \<Longrightarrow>
   blocks_used (cs[i := (t', c')]) + cost (nblk (length c)) = blocks_used cs + cost (nblk (length c'))"
proof (induction cs arbitrary: i)
  case (Cons x cs)
  then show ?case by (cases i; cases x) auto
qed simp

lemma file_is_frame:
  assumes f: "file_is d tp din c" and a: "i_addrs din' = i_addrs din" "tp \<le> tp'"
    and o: "\<And>b. b \<in> own d din (nblk (length c)) \<Longrightarrow> d' ! unat b = d ! unat b"
  shows "file_is d' tp' din' c" "own d' din' (nblk (length c)) = own d din (nblk (length c))"
proof -
  let ?k = "nblk (length c)"
  have ind: "d' ! unat (i_addrs din ! NDIRECT) = d ! unat (i_addrs din ! NDIRECT)" if "NDIRECT < ?k"
    using o that by (simp add: own_def)
  show "own d' din' ?k = own d din ?k" using own_cong [OF a(1) ind] .
  show "file_is d' tp' din' c"
    using f alloc_ok_frame [OF _ a ind] file_data_cong [OF a(1) o] by (simp add: file_is_def)
qed

lemma own_range: "file_is d tp din c \<Longrightarrow> b \<in> own d din (nblk (length c)) \<Longrightarrow> 46 \<le> unat b \<and> unat b < tp"
  using alloc_okD(5) [of d tp din "nblk (length c)" b] by (simp add: file_is_def)

lemma entry_ok_frame:
  assumes e: "entry_ok d tp i x" and q: "dino d' (Suc i) = dino d (Suc i)" and tp: "tp \<le> tp'"
    and o: "\<And>b. b \<in> owned d i x \<Longrightarrow> d' ! unat b = d ! unat b"
  shows "entry_ok d' tp' i x" "owned d' i x = owned d i x"
proof -
  obtain t c where x: "x = (t, c)" by (cases x)
  have f: "file_is d tp (dino d (Suc i)) c" using e by (simp add: x Let_def)
  note fr = file_is_frame [OF f _ tp, of "dino d (Suc i)" d']
  show "owned d' i x = owned d i x" using fr(2) o by (simp add: x q)
  show "entry_ok d' tp' i x" using e fr(1) o by (simp add: x q Let_def)
qed

lemma dino_cong: "(\<And>b. 32 \<le> b \<Longrightarrow> b < 45 \<Longrightarrow> d' ! b = d ! b) \<Longrightarrow> inum < 200 \<Longrightarrow> dino d' inum = dino d inum"
  using IBLOCK_mk [of inum] by (simp add: dino_def)

lemma mk_invD:
  assumes "mk_inv s cs" and "i < length cs" and "cs ! i = (t, c)"
  shows "entry_ok (img s) (46 + blocks_used cs) i (t, c)" "Suc i < 200" "length c \<le> MAXFILE * BSIZE" "unat (of_nat (length c) :: u32) = length c"
proof -
  have "\<forall>i < length cs. entry_ok (img s) (46 + blocks_used cs) i (cs ! i)" using assms(1) by (simp add: mk_inv_def)
  then show e: "entry_ok (img s) (46 + blocks_used cs) i (t, c)" using assms(2,3) by metis
  then show l: "length c \<le> MAXFILE * BSIZE" by (simp add: Let_def)
  then show "unat (of_nat (length c) :: u32) = length c" by (simp add: unat_of_nat fs_consts)
  show "Suc i < 200" using assms(1,2) by (simp add: mk_inv_def)
qed

text \<open>
  A file that is not written to: \<open>d1\<close> differs from the image only in the blocks of file \<open>i\<close> and in free ones,
  \<open>d2\<close> differs from \<open>d1\<close> only in the inode of file \<open>i\<close>.
\<close>

lemma other_entry:
  assumes inv: "mk_inv s cs" and i: "i < length cs" and j: "j < length cs" "j \<noteq> i" and tp: "46 + blocks_used cs \<le> tp1"
    and d1: "\<And>b. b < 46 + blocks_used cs \<Longrightarrow> of_nat b \<notin> owned (img s) i (cs ! i) \<Longrightarrow> d1 ! b = img s ! b"
    and d2: "\<And>b. 45 \<le> b \<or> b < 32 \<Longrightarrow> d2 ! b = d1 ! b" and q: "dino d2 (Suc j) = dino (img s) (Suc j)"
  shows "entry_ok d2 tp1 j (cs ! j)" "owned d2 j (cs ! j) = owned (img s) j (cs ! j)"
    "\<forall>b\<in>owned (img s) j (cs ! j). unat b < 46 + blocks_used cs \<and> b \<notin> owned (img s) i (cs ! i)"
proof -
  obtain t' c' where cj: "cs ! j = (t', c')" by (cases "cs ! j")
  note e = mk_invD [OF inv j(1) cj]
  have fj: "file_is (img s) (46 + blocks_used cs) (dino (img s) (Suc j)) c'" using e(1) by (simp add: Let_def)
  have "owned (img s) j (cs ! j) \<inter> owned (img s) i (cs ! i) = {}" using inv i j by (auto simp: mk_inv_def)
  then show o: "\<forall>b\<in>owned (img s) j (cs ! j). unat b < 46 + blocks_used cs \<and> b \<notin> owned (img s) i (cs ! i)"
    using own_range [OF fj] by (auto simp: cj)
  have "d2 ! unat b = img s ! unat b" if b: "b \<in> owned (img s) j (cs ! j)" for b
  proof -
    have "46 \<le> unat b" using own_range [OF fj, of b] b by (simp add: cj)
    then show ?thesis using d2 [of "unat b"] d1 [of "unat b"] o b by simp
  qed
  then show "entry_ok d2 tp1 j (cs ! j)" "owned d2 j (cs ! j) = owned (img s) j (cs ! j)"
    using entry_ok_frame [of "img s" "46 + blocks_used cs" j "cs ! j" d2 tp1] e(1) q tp by (auto simp: cj)
qed

text \<open>\<open>iappend\<close> appends to one file and leaves the others alone.\<close>

lemma iappend_law:
  assumes inv: "mk_inv s cs" and i: "i < length cs" "cs ! i = (t, c)" and len: "length (c @ p) \<le> MAXFILE * BSIZE"
    and room: "46 + blocks_used (cs[i := (t, c @ p)]) \<le> 2000"
  shows "\<exists>s'. iappend (of_nat (Suc i)) p s = Ok () s' \<and> mk_inv s' (cs[i := (t, c @ p)])"
proof -
  let ?tp = "46 + blocks_used cs" and ?q = "dino (img s) (Suc i)" and ?cs = "cs[i := (t, c @ p)]" and ?k = "nblk (length c)"
  let ?k' = "nblk (length (c @ p))"
  have dk: "disk_ok (img s) ?tp" and fb: "freeblock s = of_nat ?tp" using inv by (auto simp: mk_inv_def)
  note d = mk_invD [OF inv i]
  have q: "i_type ?q = t" "i_nlink ?q = 1" "i_size ?q = of_nat (length c)" "file_is (img s) ?tp ?q c" using d(1) by (auto simp: Let_def)
  have tot: "blocks_used ?cs + cost ?k = blocks_used cs + cost ?k'" using blocks_used_update [OF i, of t "c @ p"] by simp
  have r: "?tp + cost (nblk (length c + length p)) \<le> 2000 + cost ?k" using tot room by simp
  obtain q1 s1 tp1 where l: "iappend_loop ?q (length c) p s = Ok (q1, length (c @ p)) s1" "file_is (img s1) tp1 q1 (c @ p)"
      "appended s ?tp ?q ?k s1 tp1 q1 ?k'"
    using iappend_loop_law [OF dk fb q(4) _ r] len by auto
  have tp1: "tp1 = 46 + blocks_used ?cs" "?tp \<le> tp1" using l(3) tot by (auto simp: appended_def)
  have s1: "disk_ok (img s1) tp1" "freeblock s1 = of_nat tp1" "freeinode s1 = freeinode s"
    and same: "\<And>b. b < ?tp \<Longrightarrow> of_nat b \<notin> own (img s) ?q ?k \<Longrightarrow> img s1 ! b = img s ! b"
    and own1: "own (img s1) q1 ?k' \<subseteq> own (img s) ?q ?k \<union> {b. ?tp \<le> unat b \<and> unat b < tp1}"
    and q1: "i_type q1 = t" "i_nlink q1 = 1" "length (i_addrs q1) = NDIRECT + 1"
    using l(2,3) q alloc_okD(1) by (auto simp: appended_def file_is_def)
  let ?q2 = "q1\<lparr>i_size := of_nat (length (c @ p))\<rparr>"
  obtain s2 where w: "winode (of_nat (Suc i)) ?q2 s1 = Ok () s2" "stored s1 s2 (Suc i) ?q2" "disk_ok (img s2) tp1"
    using winode_law [OF s1(1) d(2), of ?q2] q1(3) by auto
  have meta: "img s1 ! b = img s ! b" if "b < 46" for b
  proof (rule same)
    show "b < ?tp" using that by simp
    show "of_nat b \<notin> own (img s) ?q ?k" using own_range [OF q(4), of "of_nat b"] that by (auto simp: unat_tp)
  qed
  have high: "img s2 ! b = img s1 ! b" if "45 \<le> b \<or> b < 32" for b using w(2) that by (auto simp: stored_def)
  have q2: "same_dinode (dino (img s2) (Suc i)) ?q2" using w(2) by (simp add: stored_def)
  have fi: "file_is (img s2) tp1 (dino (img s2) (Suc i)) (c @ p)" "own (img s2) (dino (img s2) (Suc i)) ?k' = own (img s1) q1 ?k'"
  proof -
    have "i_addrs (dino (img s2) (Suc i)) = i_addrs q1" using q2 by (simp add: same_dinode_def)
    moreover have "img s2 ! unat b = img s1 ! unat b" if "b \<in> own (img s1) q1 ?k'" for b
      using own_range [OF l(2) that] by (intro high) simp
    ultimately show "file_is (img s2) tp1 (dino (img s2) (Suc i)) (c @ p)" "own (img s2) (dino (img s2) (Suc i)) ?k' = own (img s1) q1 ?k'"
      using file_is_frame [OF l(2), of "dino (img s2) (Suc i)" tp1 "img s2"] by auto
  qed
  have ei: "entry_ok (img s2) tp1 i (t, c @ p)"
    using fi(1) q2 q1 len by (simp add: same_dinode_def Let_def)
  have ow: "owned (img s) i (cs ! i) = own (img s) ?q ?k" by (simp add: i(2))
  have dq: "dino (img s2) (Suc j) = dino (img s) (Suc j)" if "j < length cs" "j \<noteq> i" for j
    using w(2) that inv dino_cong [of "img s1" "img s" "Suc j"] meta by (simp add: stored_def mk_inv_def)
  have ej: "entry_ok (img s2) tp1 j (cs ! j)" "owned (img s2) j (cs ! j) = owned (img s) j (cs ! j)"
      "\<forall>b\<in>owned (img s) j (cs ! j). unat b < ?tp \<and> b \<notin> own (img s) ?q ?k" if j: "j < length cs" "j \<noteq> i" for j
    using other_entry [OF inv i(1) j tp1(2), of "img s1" "img s2"] same high dq [OF j] unfolding ow by blast+
  have dis: "owned (img s2) j (cs ! j) \<inter> own (img s1) q1 ?k' = {}" if "j < length cs" "j \<noteq> i" for j
    using ej(2,3) [OF that] own1 by fastforce
  have oi: "owned (img s2) i (t, c @ p) = own (img s1) q1 ?k'" using fi(2) by simp
  have "mk_inv s2 ?cs"
    unfolding mk_inv_def
  proof (intro conjI allI impI)
    show "disk_ok (img s2) (46 + blocks_used ?cs)" using w(3) tp1 by simp
    show "freeblock s2 = of_nat (46 + blocks_used ?cs)" using w(2) s1(2) tp1 by (simp add: stored_def)
    show "freeinode s2 = of_nat (Suc (length ?cs))" "length ?cs < 200"
      using w(2) s1(3) inv by (auto simp: stored_def mk_inv_def)
    show "img s2 ! 1 = sb_sector" using high [of 1] meta [of 1] inv by (simp add: mk_inv_def)
    show "img s2 ! b = replicate BSIZE 0" if "2 \<le> b \<and> b < 32" for b
      using high [of b] meta [of b] inv that by (simp add: mk_inv_def)
    fix j assume j: "j < length ?cs"
    show "entry_ok (img s2) (46 + blocks_used ?cs) j (?cs ! j)"
      using ei ej(1) [of j] i(1) j tp1 by (cases "j = i") auto
    fix j' assume "j' < length ?cs" "j \<noteq> j'"
    moreover have "owned (img s) j (cs ! j) \<inter> owned (img s) j' (cs ! j') = {}" if "j \<noteq> j'" "j' < length cs"
      using inv j that by (auto simp: mk_inv_def)
    ultimately show "owned (img s2) j (?cs ! j) \<inter> owned (img s2) j' (?cs ! j') = {}"
      using dis [of j] dis [of j'] ej(2) [of j] ej(2) [of j'] oi i(1) j
      by (cases "j = i"; cases "j' = i") (auto simp: Int_commute)
  qed
  moreover have "iappend (of_nat (Suc i)) p s = Ok () s2"
    using rinode_law [OF dk d(2)] l(1) w(1) q(3) d(4) by (simp add: iappend_def del: of_nat_Suc)
  ultimately show ?thesis by blast
qed

lemma empty_file:
  assumes "i_addrs q = replicate (NDIRECT + 1) 0"
  shows "file_is d tp q []" "own d q (nblk 0) = {}"
proof -
  have a: "i_addrs q ! j = 0" if "j < NDIRECT + 1" for j unfolding assms using that by (rule nth_replicate)
  have "bno d q j = 0" if "j < NDIRECT" for j using a [of j] that by (simp add: bno_def)
  moreover have "i_addrs q ! NDIRECT = 0" by (rule a) simp
  moreover have z: "nblk 0 = 0" by (simp add: nblk_def BSIZE_def)
  ultimately show "file_is d tp q []" using assms by (simp add: file_is_def alloc_ok_def file_data_def own_def)
  show "own d q (nblk 0) = {}" by (simp add: own_def z)
qed

lemma ialloc_law:
  assumes inv: "mk_inv s cs" and n: "Suc (length cs) < 200"
  shows "\<exists>s'. mk_ialloc t s = Ok (of_nat (Suc (length cs))) s' \<and> mk_inv s' (cs @ [(t, [])])"
proof -
  let ?n = "length cs" and ?tp = "46 + blocks_used cs"
  let ?q = "blank_inode\<lparr>i_type := t, i_nlink := 1, i_size := 0\<rparr>" and ?s = "s\<lparr>freeinode := freeinode s + 1\<rparr>"
  have dk: "disk_ok (img ?s) ?tp" and fi: "freeinode s = of_nat (Suc ?n)" using inv by (auto simp: mk_inv_def)
  have len: "length (i_addrs ?q) = NDIRECT + 1" by (simp add: blank_inode_def)
  obtain s' where w: "winode (of_nat (Suc ?n)) ?q ?s = Ok () s'" "stored ?s s' (Suc ?n) ?q" "disk_ok (img s') ?tp"
    using winode_law [OF dk n len] by auto
  have high: "img s' ! b = img s ! b" if "45 \<le> b \<or> b < 32" for b using w(2) that by (auto simp: stored_def)
  have q: "same_dinode (dino (img s') (Suc ?n)) ?q" using w(2) by (simp add: stored_def)
  have a0: "i_addrs (dino (img s') (Suc ?n)) = replicate (NDIRECT + 1) 0" using q by (simp add: same_dinode_def blank_inode_def)
  have z: "nblk 0 = 0" "cost 0 = 0" by (simp_all add: nblk_def BSIZE_def cost_def)
  have en: "entry_ok (img s') ?tp ?n (t, [])" "owned (img s') ?n (t, []) = {}"
    using q empty_file [OF a0] by (auto simp: same_dinode_def Let_def)
  have ej: "entry_ok (img s') ?tp j (cs ! j)" "owned (img s') j (cs ! j) = owned (img s) j (cs ! j)" if j: "j < ?n" for j
  proof -
    obtain t' c' where cj: "cs ! j = (t', c')" by (cases "cs ! j")
    note e = mk_invD [OF inv j cj]
    have f: "file_is (img s) ?tp (dino (img s) (Suc j)) c'" using e(1) by (simp add: Let_def)
    have "dino (img s') (Suc j) = dino (img s) (Suc j)" using w(2) e(2) j by (simp add: stored_def)
    moreover have "img s' ! unat b = img s ! unat b" if "b \<in> owned (img s) j (cs ! j)" for b
      using own_range [OF f, of b] that by (intro high) (simp add: cj)
    ultimately show "entry_ok (img s') ?tp j (cs ! j)" "owned (img s') j (cs ! j) = owned (img s) j (cs ! j)"
      using entry_ok_frame [of "img s" ?tp j "cs ! j" "img s'" ?tp] e(1) unfolding cj by auto
  qed
  have "mk_inv s' (cs @ [(t, [])])"
    unfolding mk_inv_def
  proof (intro conjI allI impI)
    show "disk_ok (img s') (46 + blocks_used (cs @ [(t, [])]))" "freeblock s' = of_nat (46 + blocks_used (cs @ [(t, [])]))"
      using w(2,3) inv by (simp_all add: z stored_def mk_inv_def)
    show "freeinode s' = of_nat (Suc (length (cs @ [(t, [])])))" "length (cs @ [(t, [])]) < 200"
      using w(2) fi n by (simp_all add: stored_def)
    show "img s' ! 1 = sb_sector" using high [of 1] inv by (simp add: mk_inv_def)
    show "img s' ! b = replicate BSIZE 0" if "2 \<le> b \<and> b < 32" for b using high [of b] inv that by (simp add: mk_inv_def)
    fix j assume j: "j < length (cs @ [(t, [])])"
    show "entry_ok (img s') (46 + blocks_used (cs @ [(t, [])])) j ((cs @ [(t, [])]) ! j)"
      using en(1) ej(1) j by (cases "j = ?n") (simp_all add: z nth_append)
    fix j' assume j': "j' < length (cs @ [(t, [])])" "j \<noteq> j'"
    have "owned (img s) j (cs ! j) \<inter> owned (img s) j' (cs ! j') = {}" if "j < ?n" "j' < ?n"
      using inv j'(2) that by (auto simp: mk_inv_def)
    then show "owned (img s') j ((cs @ [(t, [])]) ! j) \<inter> owned (img s') j' ((cs @ [(t, [])]) ! j') = {}"
      using en(2) ej(2) j j' by (cases "j = ?n"; cases "j' = ?n") (simp_all add: nth_append)
  qed
  moreover have "mk_ialloc t s = Ok (of_nat (Suc ?n)) s'" using w(1) by (simp add: mk_ialloc_def Let_def fi)
  ultimately show ?thesis by blast
qed

section \<open>Adding the files\<close>

lemma append_chunks_law:
  assumes "mk_inv s cs" and "i < length cs" "cs ! i = (t, c)" and "length (c @ concat chunks) \<le> MAXFILE * BSIZE"
    and "46 + blocks_used (cs[i := (t, c @ concat chunks)]) \<le> 2000"
  shows "\<exists>s'. append_chunks (of_nat (Suc i)) chunks s = Ok () s' \<and> mk_inv s' (cs[i := (t, c @ concat chunks)])"
  using assms
proof (induction chunks arbitrary: s cs c)
  case Nil
  then show ?case by (metis append_Nil2 append_chunks.simps(1) concat.simps(1) list_update_id)
next
  case (Cons p chunks)
  have "cost (nblk (length (c @ p))) \<le> cost (nblk (length (c @ concat (p # chunks))))" by (intro cost_mono nblk_mono) simp
  then have room: "46 + blocks_used (cs[i := (t, c @ p)]) \<le> 2000"
    using Cons.prems(5) blocks_used_update [OF Cons.prems(2,3), of t "c @ p"]
      blocks_used_update [OF Cons.prems(2,3), of t "c @ concat (p # chunks)"] by linarith
  obtain s1 where s1: "iappend (of_nat (Suc i)) p s = Ok () s1" "mk_inv s1 (cs[i := (t, c @ p)])"
    using iappend_law [OF Cons.prems(1-3) _ room] Cons.prems(4) by auto
  have "\<exists>s'. append_chunks (of_nat (Suc i)) chunks s1 = Ok () s' \<and>
      mk_inv s' ((cs[i := (t, c @ p)])[i := (t, (c @ p) @ concat chunks)])"
    by (rule Cons.IH [OF s1(2)]) (use Cons.prems in auto)
  then show ?case using s1(1) by simp
qed

type_synonym mk_args = "(u8 list \<times> u8 list list option) list"

fun dirents :: "nat \<Rightarrow> mk_args \<Rightarrow> u8 list" where
  "dirents n [] = []"
| "dirents n ((arg, content) # args) = dirent_bytes (of_nat n) (skip_underscore (shortname arg)) @ dirents (Suc n) args"

definition file_list :: "mk_args \<Rightarrow> files" where
  "file_list args = map (\<lambda>(arg, content). (T_FILE, concat (the content))) args"

text \<open>What the image should hold: the root directory, and the files in the order of the arguments.\<close>

definition mk_files :: "mk_args \<Rightarrow> files" where
  "mk_files args = (T_DIR, dirent_bytes 1 (ascii ''.'') @ dirent_bytes 1 (ascii ''..'') @ dirents 2 args) # file_list args"

definition fits :: "files \<Rightarrow> bool" where
  "fits cs \<longleftrightarrow> length cs < 200 \<and> 46 + blocks_used cs \<le> 2000 \<and> (\<forall>(t, c)\<in>set cs. length c \<le> MAXFILE * BSIZE)"

definition args_ok :: "mk_args \<Rightarrow> bool" where
  "args_ok args \<longleftrightarrow> (\<forall>(arg, content)\<in>set args. 0x2f \<notin> set (shortname arg) \<and> content \<noteq> None)"

lemma root_room:
  "46 + (cost (nblk (length (r @ x))) + n) \<le> 2000 \<Longrightarrow> 46 + (cost (nblk (length r)) + n) \<le> 2000"
proof -
  have "cost (nblk (length r)) \<le> cost (nblk (length (r @ x)))" by (intro cost_mono nblk_mono) simp
  then show "46 + (cost (nblk (length (r @ x))) + n) \<le> 2000 \<Longrightarrow> 46 + (cost (nblk (length r)) + n) \<le> 2000" by linarith
qed

lemma add_files_law:
  assumes "mk_inv s ((T_DIR, r) # fs)" and "args_ok args"
    and "fits ((T_DIR, r @ dirents (length fs + 2) args) # fs @ file_list args)"
  shows "\<exists>s'. add_files 1 args s = Ok () s' \<and> mk_inv s' ((T_DIR, r @ dirents (length fs + 2) args) # fs @ file_list args)"
  using assms
proof (induction args arbitrary: s r fs)
  case Nil
  then show ?case by (auto simp: file_list_def)
next
  case (Cons a args)
  obtain arg chunks where a: "a = (arg, Some chunks)" "0x2f \<notin> set (shortname arg)" "args_ok args"
    using Cons.prems(2) by (cases a) (auto simp: args_ok_def)
  let ?n = "length fs" and ?de = "dirent_bytes (of_nat (length fs + 2)) (skip_underscore (shortname arg))"
  let ?rest = "dirents (Suc (?n + 2)) args" and ?c = "concat chunks"
  have fl: "file_list (a # args) = (T_FILE, ?c) # file_list args" by (simp add: file_list_def a)
  have ft: "?n + 2 + length args < 200" "46 + (cost (nblk (length ((r @ ?de) @ ?rest))) + (blocks_used fs + cost (nblk (length ?c)) + blocks_used (file_list args))) \<le> 2000"
      "length ((r @ ?de) @ ?rest) \<le> MAXFILE * BSIZE" "length ?c \<le> MAXFILE * BSIZE"
    using Cons.prems(3) unfolding fl by (auto simp: fits_def a file_list_def)
  note rr = root_room [OF ft(2)]
  have z: "nblk 0 = 0" "cost 0 = 0" by (simp_all add: nblk_def BSIZE_def cost_def)
  obtain s1 where s1: "mk_ialloc T_FILE s = Ok (of_nat (Suc (length ((T_DIR, r) # fs)))) s1" "mk_inv s1 (((T_DIR, r) # fs) @ [(T_FILE, [])])"
    using ialloc_law [OF Cons.prems(1), of T_FILE] ft(1) by auto
  have "46 + blocks_used ((((T_DIR, r) # fs) @ [(T_FILE, [])])[0 := (T_DIR, r @ ?de)]) \<le> 2000" using rr by (simp add: z)
  then obtain s2 where s2: "iappend (of_nat (Suc 0)) ?de s1 = Ok () s2" "mk_inv s2 ((T_DIR, r @ ?de) # fs @ [(T_FILE, [])])"
    using iappend_law [OF s1(2), of 0 T_DIR r ?de] ft(3) by auto
  let ?cs = "(T_DIR, r @ ?de) # fs @ [(T_FILE, [])]"
  have up: "?cs[Suc ?n := (T_FILE, [] @ ?c)] = (T_DIR, r @ ?de) # fs @ [(T_FILE, ?c)]" by simp
  have "46 + blocks_used (?cs[Suc ?n := (T_FILE, [] @ ?c)]) \<le> 2000" unfolding up using rr by simp
  then obtain s3 where s3: "append_chunks (of_nat (Suc (Suc ?n))) chunks s2 = Ok () s3" "mk_inv s3 ((T_DIR, r @ ?de) # fs @ [(T_FILE, ?c)])"
    using append_chunks_law [OF s2(2), of "Suc ?n" T_FILE "[]" chunks] ft(4) unfolding up by (auto simp: nth_append)
  have fin: "(T_DIR, r @ dirents (?n + 2) (a # args)) # fs @ file_list (a # args) =
      (T_DIR, (r @ ?de) @ dirents (length (fs @ [(T_FILE, ?c)]) + 2) args) # (fs @ [(T_FILE, ?c)]) @ file_list args"
    by (simp add: file_list_def a(1))
  have "\<exists>s'. add_files 1 args s3 = Ok () s' \<and> mk_inv s' ((T_DIR, r @ dirents (?n + 2) (a # args)) # fs @ file_list (a # args))"
    unfolding fin by (rule Cons.IH [OF s3(2) a(3)]) (use Cons.prems(3) in \<open>simp only: fin\<close>)
  moreover have "add_files 1 (a # args) s = add_files 1 args s3"
    using s1(1) s2(1) s3(1) a by (simp add: add.commute)
  ultimately show ?case by simp
qed

section \<open>The whole program\<close>

lemma zero_sectors_law:
  "img s = [] \<Longrightarrow> zero_sectors s = Ok () (s\<lparr>img := replicate FSSIZE (replicate BSIZE 0)\<rparr>)"
proof -
  assume e: "img s = []"
  have "fold (\<lambda>i m. bind m (\<lambda>_ s. wsect (of_nat i) (replicate BSIZE 0) s)) [0..<n] (Ok () s) =
      Ok () (s\<lparr>img := replicate n (replicate BSIZE 0)\<rparr>)" if "n \<le> 2000" for n
    using that
  proof (induction n)
    case 0
    then show ?case using e by simp
  next
    case (Suc n)
    then have "unat (of_nat n :: u32) = n" by (simp add: unat_tp)
    then show ?case using Suc by (simp add: wsect_def sector_id Let_def replicate_append_same)
  qed
  then show ?thesis by (simp add: zero_sectors_def del: upt_Suc)
qed

lemma sb_sector_length [simp]: "length sb_sector = BSIZE"
  by (simp add: sb_sector_def BSIZE_def)

lemma superblock_sector: "superblock_of sb_sector = mk_sb"
proof -
  have skip: "field 4 (le_bytes 4 (v :: u32) @ y) (n + 4) = (field 4 y n :: u32)" for v y n
    by (simp add: field_def)
  have first: "field 4 (le_bytes 4 (v :: u32) @ y) 0 = v" for v y by (simp add: field_def)
  have "field 4 sb_sector 0 = sb_magic mk_sb" "field 4 sb_sector (0 + 4) = sb_size mk_sb" "field 4 sb_sector (0 + 4 + 4) = sb_nblocks mk_sb"
    "field 4 sb_sector (0 + 4 + 4 + 4) = sb_ninodes mk_sb" "field 4 sb_sector (0 + 4 + 4 + 4 + 4) = sb_nlog mk_sb"
    "field 4 sb_sector (0 + 4 + 4 + 4 + 4 + 4) = sb_logstart mk_sb"
    "field 4 sb_sector (0 + 4 + 4 + 4 + 4 + 4 + 4) = sb_inodestart mk_sb"
    "field 4 sb_sector (0 + 4 + 4 + 4 + 4 + 4 + 4 + 4) = sb_bmapstart mk_sb"
    by (simp_all only: sb_sector_def list.map concat.simps append_assoc append_Nil2 skip first)
  then show ?thesis by (simp add: superblock_of_def)
qed

lemma fold_map_bits:
  assumes "u \<le> 8192" and "j < 8192"
  shows "map_bit (fold (\<lambda>i buf. set_map_bit True buf i) [0..<u] (replicate BSIZE 0)) j \<longleftrightarrow> j < u"
    "length (fold (\<lambda>i buf. set_map_bit True buf i) [0..<u] (replicate BSIZE 0)) = BSIZE"
proof -
  have "length (fold (\<lambda>i buf. set_map_bit True buf i) [0..<u] (replicate BSIZE 0)) = BSIZE \<and>
      (map_bit (fold (\<lambda>i buf. set_map_bit True buf i) [0..<u] (replicate BSIZE 0)) j \<longleftrightarrow> j < u)"
    using assms(1)
  proof (induction u)
    case 0
    have "j div 8 < BSIZE" using assms(2) by (simp add: BSIZE_def)
    then show ?case by (simp add: map_bit_def)
  next
    case (Suc u)
    then show ?case
      using map_bit_set [of "fold (\<lambda>i buf. set_map_bit True buf i) [0..<u] (replicate BSIZE 0)" u j True] assms(2)
      by (auto simp: BPB_def BSIZE_def length_set_map_bit)
  qed
  then show "map_bit (fold (\<lambda>i buf. set_map_bit True buf i) [0..<u] (replicate BSIZE 0)) j \<longleftrightarrow> j < u"
    "length (fold (\<lambda>i buf. set_map_bit True buf i) [0..<u] (replicate BSIZE 0)) = BSIZE" by auto
qed

lemma mk_balloc_law:
  assumes dk: "disk_ok (img s) tp" and u: "u \<le> 2000"
  shows "\<exists>s'. mk_balloc (of_nat u) s = Ok () s' \<and> disk_ok (img s') tp \<and> (\<forall>b. b \<noteq> 45 \<longrightarrow> img s' ! b = img s ! b) \<and>
    (\<forall>j < 8192. map_bit (img s' ! 45) j \<longleftrightarrow> j < u)"
proof -
  let ?x = "fold (\<lambda>i buf. set_map_bit True buf i) [0..<u] (replicate BSIZE 0)"
  have un: "unat (of_nat u :: u32) = u" using u by (simp add: unat_tp)
  have "sint (of_nat u :: u32) = int u" using u by (simp add: signed_of_nat signed_take_bit_int_eq_self)
  then have "mk_balloc (of_nat u) s = Ok () (s\<lparr>img := (img s)[45 := ?x]\<rparr>)"
    using u un disk_okD(1) [OF dk] by (simp add: mk_balloc_def sector_io Let_def BSIZE_def)
  moreover have "(img s)[45 := ?x] ! 45 = ?x" using disk_okD(1) [OF dk] by simp
  moreover have "disk_ok ((img s)[45 := ?x]) tp"
    using fold_map_bits(2) [of u 0] u disk_okD(3) [OF dk] by (intro disk_ok_write [OF dk]) simp_all
  ultimately show ?thesis
    using fold_map_bits(1) [of u] u by (intro exI [of _ "s\<lparr>img := (img s)[45 := ?x]\<rparr>"]) (simp del: upt_Suc)
qed

lemma mk_start:
  "\<exists>s. bind (zero_sectors \<lparr>img = [], freeinode = 1, freeblock = of_nat nmeta\<rparr>) (\<lambda>_ s. wsect 1 sb_sector s) = Ok () s \<and> mk_inv s []"
proof -
  let ?z = "replicate FSSIZE (replicate BSIZE (0 :: u8))"
  let ?s = "\<lparr>img = ?z[1 := sb_sector], freeinode = 1, freeblock = of_nat nmeta\<rparr>"
  have "disk_ok ?z 46" by (simp add: disk_ok_def)
  then have "disk_ok (?z[1 := sb_sector]) 46" by (rule disk_ok_write) simp_all
  then have "mk_inv ?s []" by (simp add: mk_inv_def)
  moreover have "bind (zero_sectors \<lparr>img = [], freeinode = 1, freeblock = of_nat nmeta\<rparr>) (\<lambda>_ s. wsect 1 sb_sector s) = Ok () ?s"
    by (simp add: zero_sectors_law sector_io Let_def)
  ultimately show ?thesis by blast
qed

lemma mk_files_built:
  assumes "args_ok args" and "fits (mk_files args)"
  shows "\<exists>s. mk_inv s (mk_files args) \<and> mkfs args = bind (fix_root 1 s) (\<lambda>_ s. mk_balloc (freeblock s) s)"
proof -
  let ?d1 = "dirent_bytes 1 (ascii ''.'')" and ?d2 = "dirent_bytes 1 (ascii ''..'')" and ?ds = "dirents 2 args"
  obtain s0 where s0: "bind (zero_sectors \<lparr>img = [], freeinode = 1, freeblock = of_nat nmeta\<rparr>) (\<lambda>_ s. wsect 1 sb_sector s) = Ok () s0"
      "mk_inv s0 []" using mk_start by blast
  have ft: "length (?d1 @ ?d2 @ ?ds) \<le> MAXFILE * BSIZE"
      "46 + (cost (nblk (length ((?d1 @ ?d2) @ ?ds))) + blocks_used (file_list args)) \<le> 2000"
    using assms(2) by (auto simp: fits_def mk_files_def)
  have r2: "46 + (cost (nblk (length (?d1 @ ?d2))) + 0) \<le> 2000" using root_room [OF ft(2)] by simp
  obtain s1 where s1: "mk_ialloc T_DIR s0 = Ok 1 s1" "mk_inv s1 [(T_DIR, [])]" using ialloc_law [OF s0(2), of T_DIR] by auto
  obtain s2 where s2: "iappend 1 ?d1 s1 = Ok () s2" "mk_inv s2 [(T_DIR, ?d1)]"
    using iappend_law [OF s1(2), of 0 T_DIR "[]" ?d1] ft(1) root_room [OF r2] by auto
  obtain s3 where s3: "iappend 1 ?d2 s2 = Ok () s3" "mk_inv s3 [(T_DIR, ?d1 @ ?d2)]"
    using iappend_law [OF s2(2), of 0 T_DIR ?d1 ?d2] ft(1) r2 by auto
  obtain s4 where s4: "add_files 1 args s3 = Ok () s4" "mk_inv s4 (mk_files args)"
    using add_files_law [OF s3(2) assms(1)] assms(2) by (auto simp: mk_files_def numeral_2_eq_2)
  have "mkfs args = bind (bind (zero_sectors \<lparr>img = [], freeinode = 1, freeblock = of_nat nmeta\<rparr>) (\<lambda>_ s. wsect 1 sb_sector s))
      (\<lambda>_ s. bind (mk_ialloc T_DIR s) (\<lambda>rootino s.
         if rootino \<noteq> ROOTINO then Panic ''rootino == ROOTINO''
         else bind (iappend rootino (dirent_bytes rootino (ascii ''.'')) s) (\<lambda>_ s.
           bind (iappend rootino (dirent_bytes rootino (ascii ''..'')) s) (\<lambda>_ s.
           bind (add_files rootino args s) (\<lambda>_ s. bind (fix_root rootino s) (\<lambda>_ s. mk_balloc (freeblock s) s))))))"
    unfolding mkfs_def bind_assoc ..
  then have "mkfs args = bind (fix_root 1 s4) (\<lambda>_ s. mk_balloc (freeblock s) s)"
    unfolding s0(1) using s1(1) s2(1) s3(1) s4(1) by (simp add: ROOTINO_def)
  then show ?thesis using s4(2) by blast
qed

text \<open>What the kernel finds of a file: its inode, and the bytes of its blocks, padded with zeroes.\<close>

fun holds_file :: "sectors \<Rightarrow> nat \<Rightarrow> nat \<Rightarrow> u16 \<times> u8 list \<Rightarrow> bool" where
  "holds_file d sz i (t, c) \<longleftrightarrow> (let q = dino d (Suc i) in
     i_type q = t \<and> i_nlink q = 1 \<and> unat (i_size q) = sz \<and>
     file_data d q (nblk (length c)) = c @ replicate (nblk (length c) * BSIZE - length c) 0)"

lemma entry_holds:
  assumes e: "entry_ok d tp i (t, c)" and q: "i_addrs (dino d' (Suc i)) = i_addrs (dino d (Suc i))"
      "i_type (dino d' (Suc i)) = t" "i_nlink (dino d' (Suc i)) = 1" "unat (i_size (dino d' (Suc i))) = sz"
    and o: "\<And>b. 46 \<le> b \<Longrightarrow> d' ! b = d ! b"
  shows "holds_file d' sz i (t, c)" "owned d' i (t, c) = owned d i (t, c)" "\<forall>b\<in>owned d' i (t, c). 46 \<le> unat b \<and> unat b < tp"
    "file_is d' tp (dino d' (Suc i)) c"
proof -
  have f: "file_is d tp (dino d (Suc i)) c" using e by (simp add: Let_def)
  have same: "d' ! unat b = d ! unat b" if "b \<in> own d (dino d (Suc i)) (nblk (length c))" for b
    using own_range [OF f that] by (intro o) simp
  note fr = file_is_frame [OF f q(1) le_refl same]
  show "file_is d' tp (dino d' (Suc i)) c" by (rule fr(1))
  show "holds_file d' sz i (t, c)" using q fr(1) by (simp add: Let_def file_is_def)
  show "owned d' i (t, c) = owned d i (t, c)" using fr(2) by simp
  then show "\<forall>b\<in>owned d' i (t, c). 46 \<le> unat b \<and> unat b < tp" using own_range [OF f] by simp
qed

text \<open>The last two steps of \<open>main\<close> set the size of the root directory and the free map.\<close>

lemma mk_finish:
  assumes inv: "mk_inv s cs" and cs: "cs ! 0 = (t0, c0)" "0 < length cs"
  shows "\<exists>s'. bind (fix_root 1 s) (\<lambda>_ s. mk_balloc (freeblock s) s) = Ok () s' \<and> disk_ok (img s') (46 + blocks_used cs) \<and>
    img s' ! 1 = sb_sector \<and> (\<forall>b. 2 \<le> b \<and> b < 32 \<longrightarrow> img s' ! b = replicate BSIZE 0) \<and> (\<forall>b. 46 \<le> b \<longrightarrow> img s' ! b = img s ! b) \<and>
    same_dinode (dino (img s') 1) ((dino (img s) 1)\<lparr>i_size := of_nat ((length c0 div BSIZE + 1) * BSIZE)\<rparr>) \<and>
    (\<forall>i < length cs. 0 < i \<longrightarrow> dino (img s') (Suc i) = dino (img s) (Suc i)) \<and>
    (\<forall>j < 8192. map_bit (img s' ! 45) j \<longleftrightarrow> j < 46 + blocks_used cs)"
proof -
  let ?tp = "46 + blocks_used cs" and ?q = "dino (img s) 1"
  let ?q1 = "?q\<lparr>i_size := of_nat ((length c0 div BSIZE + 1) * BSIZE)\<rparr>"
  have dk: "disk_ok (img s) ?tp" and fb: "freeblock s = of_nat ?tp" and sb: "img s ! 1 = sb_sector"
    and lg: "\<forall>b. 2 \<le> b \<and> b < 32 \<longrightarrow> img s ! b = replicate BSIZE 0" using inv by (auto simp: mk_inv_def)
  note d = mk_invD [OF inv cs(2,1)]
  have q: "i_size ?q = of_nat (length c0)" "length (i_addrs ?q) = NDIRECT + 1"
    using d(1) alloc_okD(1) by (auto simp: Let_def file_is_def)
  obtain s1 where w: "winode (of_nat 1) ?q1 s = Ok () s1" "stored s s1 1 ?q1" "disk_ok (img s1) ?tp"
    using winode_law [OF dk, of 1 ?q1] q(2) by auto
  have "(of_nat (length c0 div BSIZE) + 1) * of_nat BSIZE = (of_nat ((length c0 div BSIZE + 1) * BSIZE) :: u32)"
    by (simp add: algebra_simps)
  then have fr: "fix_root 1 s = Ok () s1"
    using w(1) q(1) d(4) rinode_law [OF dk, of 1] by (simp add: fix_root_def Let_def del: of_nat_add of_nat_mult)
  obtain s2 where b: "mk_balloc (of_nat ?tp) s1 = Ok () s2" "\<forall>b. b \<noteq> 45 \<longrightarrow> img s2 ! b = img s1 ! b"
      "\<forall>j < 8192. map_bit (img s2 ! 45) j \<longleftrightarrow> j < ?tp" "disk_ok (img s2) ?tp"
    using mk_balloc_law [OF w(3), of ?tp] disk_okD(4) [OF dk] by blast
  have dn: "dino (img s2) i = dino (img s1) i" if "i < 200" for i using dino_cong [of "img s2" "img s1" i] b(2) that by auto
  have "bind (fix_root 1 s) (\<lambda>_ s. mk_balloc (freeblock s) s) = Ok () s2" using fr b(1) w(2) fb by (simp add: stored_def)
  moreover have "img s2 ! 1 = sb_sector" "\<forall>b. 46 \<le> b \<longrightarrow> img s2 ! b = img s ! b" using b(2) w(2) sb by (auto simp: stored_def)
  moreover have "\<forall>b. 2 \<le> b \<and> b < 32 \<longrightarrow> img s2 ! b = replicate BSIZE 0" using b(2) w(2) lg by (auto simp: stored_def)
  moreover have "same_dinode (dino (img s2) 1) ?q1" using w(2) dn [of 1] by (simp add: stored_def)
  moreover have "\<forall>i < length cs. 0 < i \<longrightarrow> dino (img s2) (Suc i) = dino (img s) (Suc i)"
    using w(2) dn inv by (auto simp: stored_def mk_inv_def)
  ultimately show ?thesis using b(3,4) by blast
qed

lemma finished_entry:
  assumes inv: "mk_inv s cs" and c0: "cs ! 0 = (t0, c0)" "0 < length cs" and i: "i < length cs"
    and hi: "\<forall>b. 46 \<le> b \<longrightarrow> d ! b = img s ! b"
    and root: "same_dinode (dino d 1) ((dino (img s) 1)\<lparr>i_size := of_nat ((length c0 div BSIZE + 1) * BSIZE)\<rparr>)"
    and rest: "\<forall>i < length cs. 0 < i \<longrightarrow> dino d (Suc i) = dino (img s) (Suc i)"
  defines "sz \<equiv> if i = 0 then (length c0 div BSIZE + 1) * BSIZE else length (snd (cs ! i))"
  shows "holds_file d sz i (cs ! i)" "owned d i (cs ! i) = owned (img s) i (cs ! i)"
    "\<forall>b\<in>owned d i (cs ! i). 46 \<le> unat b \<and> unat b < 46 + blocks_used cs"
    "file_is d (46 + blocks_used cs) (dino d (Suc i)) (snd (cs ! i))"
proof -
  obtain t c where ci: "cs ! i = (t, c)" by (cases "cs ! i")
  note e = mk_invD [OF inv i ci]
  have q: "i_type (dino (img s) (Suc i)) = t" "i_nlink (dino (img s) (Suc i)) = 1" "i_size (dino (img s) (Suc i)) = of_nat (length c)"
    using e(1) by (auto simp: Let_def)
  have "length c0 div BSIZE \<le> MAXFILE" using mk_invD(3) [OF inv c0(2,1)] by (simp add: BSIZE_def fs_consts)
  then have small: "unat (of_nat ((length c0 div BSIZE + 1) * BSIZE) :: u32) = (length c0 div BSIZE + 1) * BSIZE"
    by (intro unat_of_nat_eq) (simp add: fs_consts)
  have "i_addrs (dino d (Suc i)) = i_addrs (dino (img s) (Suc i))" "i_type (dino d (Suc i)) = t"
    "i_nlink (dino d (Suc i)) = 1" "unat (i_size (dino d (Suc i))) = sz"
    using root rest q small e(4) i ci by (cases "i = 0"; simp add: same_dinode_def sz_def)+
  then show "holds_file d sz i (cs ! i)" "owned d i (cs ! i) = owned (img s) i (cs ! i)"
      "\<forall>b\<in>owned d i (cs ! i). 46 \<le> unat b \<and> unat b < 46 + blocks_used cs"
      "file_is d (46 + blocks_used cs) (dino d (Suc i)) (snd (cs ! i))"
    using entry_holds [OF e(1), of d sz] hi unfolding ci snd_conv by blast+
qed

text \<open>What the kernel relies on in the image: an empty log, and files that are laid out as \<open>bmap\<close> expects.\<close>

definition stored_size :: "files \<Rightarrow> nat \<Rightarrow> nat" where
  "stored_size cs i = (if i = 0 then (length (snd (cs ! 0)) div BSIZE + 1) * BSIZE else length (snd (cs ! i)))"

lemma mkfs_image:
  assumes "args_ok args" and "fits (mk_files args)"
  shows "\<exists>s. mkfs args = Ok () s \<and> disk_ok (img s) (46 + blocks_used (mk_files args)) \<and> img s ! 1 = sb_sector \<and>
    (\<forall>b. 2 \<le> b \<and> b < 32 \<longrightarrow> img s ! b = replicate BSIZE 0) \<and>
    (\<forall>i < length (mk_files args). holds_file (img s) (stored_size (mk_files args) i) i (mk_files args ! i) \<and>
       file_is (img s) (46 + blocks_used (mk_files args)) (dino (img s) (Suc i)) (snd (mk_files args ! i)))"
proof -
  let ?cs = "mk_files args" and ?tp = "46 + blocks_used (mk_files args)"
  obtain s where s: "mk_inv s ?cs" "mkfs args = bind (fix_root 1 s) (\<lambda>_ s. mk_balloc (freeblock s) s)"
    using mk_files_built [OF assms] by blast
  obtain t0 c0 where c0: "?cs ! 0 = (t0, c0)" "0 < length ?cs" by (cases "?cs ! 0") (auto simp: mk_files_def)
  obtain s' where f: "mkfs args = Ok () s'" "disk_ok (img s') ?tp" "img s' ! 1 = sb_sector"
      "\<forall>b. 2 \<le> b \<and> b < 32 \<longrightarrow> img s' ! b = replicate BSIZE 0" "\<forall>b. 46 \<le> b \<longrightarrow> img s' ! b = img s ! b"
      "same_dinode (dino (img s') 1) ((dino (img s) 1)\<lparr>i_size := of_nat ((length c0 div BSIZE + 1) * BSIZE)\<rparr>)"
      "\<forall>i < length ?cs. 0 < i \<longrightarrow> dino (img s') (Suc i) = dino (img s) (Suc i)"
    using mk_finish [OF s(1) c0] unfolding s(2) [symmetric] by blast
  note e = finished_entry [OF s(1) c0 _ f(5-7)]
  have "holds_file (img s') (stored_size ?cs i) i (?cs ! i) \<and> file_is (img s') ?tp (dino (img s') (Suc i)) (snd (?cs ! i))"
      if "i < length ?cs" for i
    using e(1,4) [OF that] unfolding stored_size_def c0(1) snd_conv by blast
  then show ?thesis using f(1-4) by blast
qed

text \<open>
  C18: \<open>mkfs\<close> builds the file system that the kernel expects. When the arguments can be opened, their names
  have no slash and everything fits on the disk, \<open>mkfs\<close> ends, and in the image that it writes the
  superblock is the one that \<open>readsb\<close> will read; inode 1 is the root directory with an entry for every file;
  inode \<open>i + 1\<close> is file \<open>i\<close> with exactly its bytes, in blocks it shares with no other file; and the free map
  marks the meta data and the blocks of the files, and nothing else.
\<close>

theorem mkfs_builds_image:
  assumes "args_ok args" and "fits (mk_files args)"
  shows "\<exists>s. mkfs args = Ok () s \<and> superblock_of (img s ! 1) = mk_sb \<and>
    (\<forall>i < length (mk_files args).
       holds_file (img s) (if i = 0 then (length (snd (mk_files args ! 0)) div BSIZE + 1) * BSIZE else length (snd (mk_files args ! i)))
         i (mk_files args ! i) \<and>
       (\<forall>b\<in>owned (img s) i (mk_files args ! i). nmeta \<le> unat b \<and> map_bit (img s ! 45) (unat b)) \<and>
       (\<forall>j < i. owned (img s) i (mk_files args ! i) \<inter> owned (img s) j (mk_files args ! j) = {})) \<and>
    (\<forall>b < FSSIZE. map_bit (img s ! 45) b \<longleftrightarrow> b < nmeta + blocks_used (mk_files args))"
proof -
  let ?cs = "mk_files args"
  obtain s where s: "mk_inv s ?cs" "mkfs args = bind (fix_root 1 s) (\<lambda>_ s. mk_balloc (freeblock s) s)"
    using mk_files_built [OF assms] by blast
  obtain t0 c0 where c0: "?cs ! 0 = (t0, c0)" "0 < length ?cs" by (cases "?cs ! 0") (auto simp: mk_files_def)
  obtain s' where f: "mkfs args = Ok () s'" "img s' ! 1 = sb_sector" "\<forall>b. 46 \<le> b \<longrightarrow> img s' ! b = img s ! b"
      "same_dinode (dino (img s') 1) ((dino (img s) 1)\<lparr>i_size := of_nat ((length c0 div BSIZE + 1) * BSIZE)\<rparr>)"
      "\<forall>i < length ?cs. 0 < i \<longrightarrow> dino (img s') (Suc i) = dino (img s) (Suc i)"
      "\<forall>j < 8192. map_bit (img s' ! 45) j \<longleftrightarrow> j < 46 + blocks_used ?cs"
    using mk_finish [OF s(1) c0] unfolding s(2) [symmetric] by blast
  have tp: "46 + blocks_used ?cs \<le> 2000" using assms(2) by (simp add: fits_def)
  note each = finished_entry [OF s(1) c0 _ f(3-5)]
  have marked: "nmeta \<le> unat b \<and> map_bit (img s' ! 45) (unat b)" if "b \<in> owned (img s') i (?cs ! i)" "i < length ?cs" for i b
  proof -
    have "46 \<le> unat b" "unat b < 46 + blocks_used ?cs" "unat b < 8192" using each(3) [OF that(2)] that(1) tp by auto
    then show ?thesis using f(6) by simp
  qed
  have "owned (img s') i (?cs ! i) \<inter> owned (img s') j (?cs ! j) = {}" if "i < length ?cs" "j < i" for i j
    using each(2) [of i] each(2) [of j] that s(1) by (auto simp: mk_inv_def)
  moreover have "superblock_of (img s' ! 1) = mk_sb" using f(2) superblock_sector by simp
  moreover have "\<forall>b < FSSIZE. map_bit (img s' ! 45) b \<longleftrightarrow> b < nmeta + blocks_used ?cs" using f(6) by simp
  ultimately show ?thesis using f(1) each(1) marked unfolding c0(1) snd_conv by blast
qed

theorem mkfs_builds_image_witness:
  "\<exists>s. mkfs [(ascii ''user/_cat'', Some [replicate 1000 7, replicate 500 8])] = Ok () s \<and>
     file_data (img s) (dino (img s) 2) 2 = replicate 1000 7 @ replicate 500 8 @ replicate 548 0"
proof -
  let ?args = "[(ascii ''user/_cat'', Some [replicate 1000 7, replicate 500 8])]"
  have de: "length (dirent_bytes n x) = 16" for n x
    by (simp add: dirent_bytes_def Let_def DIRSIZ_def)
  have ok: "args_ok ?args" by (simp add: args_ok_def shortname_def ascii_def)
  have nb: "nblk 48 = 1" "nblk 1500 = 2" by (simp_all add: nblk_def BSIZE_def)
  have "fits (mk_files ?args)"
    by (simp add: fits_def mk_files_def file_list_def de nb cost_def fs_consts)
  from mkfs_builds_image [OF ok this] obtain s where s: "mkfs ?args = Ok () s"
      "holds_file (img s) 1500 1 (T_FILE, replicate 1000 7 @ replicate 500 8)"
    by (auto simp: mk_files_def file_list_def dest: spec [of _ "Suc 0"])
  then show ?thesis by (intro exI [of _ s]) (simp add: Let_def nb BSIZE_def numeral_2_eq_2)
qed

end
