(* ===== verification/Mount.thy ===== *)
theory Mount
  imports Mkfslaws
begin

text \<open>
  From \<open>mkfs\<close> to the kernel: a machine that boots with the disk \<open>mkfs\<close> has built mounts it, and reads from
  every file the bytes that were stored in it.
\<close>

section \<open>Mounting\<close>

text \<open>An inode table of which nothing is in use.\<close>

definition idle_table :: "'a fs_st_scheme \<Rightarrow> bool" where
  "idle_table s \<longleftrightarrow> 1 < length (itable s) \<and> (\<forall>q\<in>set (itable s). i_ref q = 0 \<and> \<not> sl_locked (i_lock q))"

text \<open>A machine that has booted with a disk: nothing is cached, no operation runs, no inode is in use.\<close>

definition fresh_machine :: "sectors \<Rightarrow> 'a fs_st_scheme \<Rightarrow> bool" where
  "fresh_machine d s \<longleftrightarrow> booted s \<and> (\<forall>b < FSSIZE. disk s (of_nat b) = d ! b) \<and> log_outstanding s = 0 \<and>
     \<not> log_committing s \<and> idle_table s"

lemma fs_frame: "bio_frame s t \<Longrightarrow> itable t = itable s \<and> sb t = sb s"
  by (auto simp: bio_frame_def)

lemma readsb_law:
  fixes s :: "'a fs_st_scheme"
  assumes "booted s"
  shows "\<exists>t. readsb ROOTDEV s = Ok () t \<and> booted t \<and> disk t = disk s \<and> sb t = superblock_of (disk s 1) \<and> itable t = itable s \<and>
    log_outstanding t = log_outstanding s \<and> log_committing t = log_committing s"
proof -
  have b: "bio_inv s" "rc s = (\<lambda>_. 0)" "lk s = (\<lambda>_. False)" "view s = disk s" "length (lh_block s) = LOGSIZE"
    using assms by (simp_all add: booted_def)
  obtain i t where t: "bread ROOTDEV 1 s = Ok i t" "bio_inv t" "bio_frame s t" "buf_of t = (buf_of s)(1 := Some i)"
      "rc t = (rc s)(1 := Suc (rc s 1))" "lk t = (lk s)(1 := True)" "view t = view s" "disk t = disk s"
    using bc.get_ok [of s 1] b by (auto simp: NBUF_def MAXOPBLOCKS_def)
  let ?t = "t\<lparr>sb := superblock_of (disk s 1)\<rparr>"
  note c = bio_cong [of ?t t]
  have "b_data (bcache t ! i) = disk s 1" using bc.dat_own [of t 1 i] t b by simp
  then have r: "readsb ROOTDEV s = brelse i ?t" using t(1) by (simp add: readsb_def)
  have "bio_inv ?t" "buf_of ?t 1 = Some i" "lk ?t 1" "1 < rc ?t 1 \<or> view ?t 1 = disk ?t 1"
    using c t b by simp_all
  from bc.rel_ok [OF this] obtain u where u: "brelse i ?t = Ok () u" "bio_inv u" "bio_frame ?t u"
      "rc u = (rc ?t)(1 := rc ?t 1 - 1)" "lk u = (lk ?t)(1 := False)" "view u = view ?t" "disk u = disk ?t"
    by blast
  have "booted u"
    using u c t b log_frame [OF u(3)] log_frame [OF t(3)] by (auto simp: booted_def)
  moreover have "disk u = disk s" "sb u = superblock_of (disk s 1)" "itable u = itable s"
      "log_outstanding u = log_outstanding s" "log_committing u = log_committing s"
    using u(7) t(8) fs_frame [OF u(3)] fs_frame [OF t(3)] log_frame [OF u(3)] log_frame [OF t(3)] by simp_all
  ultimately show ?thesis using r u(1) by simp
qed

text \<open>What the file system rests on once it is mounted.\<close>

definition mounted :: "sectors \<Rightarrow> 'a fs_st_scheme \<Rightarrow> bool" where
  "mounted d s \<longleftrightarrow> log_ok s [] \<and> rc s = (\<lambda>_. 0) \<and> sb s = mk_sb \<and> log_start s = 2 \<and> log_size s = 30 \<and>
     (\<forall>b < FSSIZE. b \<noteq> 2 \<longrightarrow> view s (of_nat b) = d ! b)"

lemma log_only_fields:
  assumes "log_only s t"
  shows "log_start t = log_start s" "log_size t = log_size s" "log_outstanding t = log_outstanding s"
    "log_committing t = log_committing s"
  using assms by (auto simp: log_only_def)

lemma fsinit_law:
  fixes s :: "'a fs_st_scheme"
  assumes m: "fresh_machine d s" and d: "d ! 1 = sb_sector" "d ! 2 = replicate BSIZE 0"
  shows "\<exists>t. fsinit ROOTDEV s = Ok () t \<and> mounted d t \<and> itable t = itable s \<and>
    log_outstanding t = log_outstanding s \<and> log_committing t = log_committing s"
proof -
  have ds: "disk s (of_nat b) = d ! b" if "b < 2000" for b using m that by (simp add: fresh_machine_def)
  obtain s1 where r: "readsb ROOTDEV s = Ok () s1" "booted s1" "disk s1 = disk s" "sb s1 = superblock_of (disk s 1)"
      "itable s1 = itable s" "log_outstanding s1 = log_outstanding s" "log_committing s1 = log_committing s"
    using readsb_law [of s] m by (auto simp: fresh_machine_def)
  have sb1: "sb s1 = mk_sb" using r(4) ds [of 1] d(1) superblock_sector by simp
  let ?s2 = "s1\<lparr>log_start := 2, log_size := 30, log_dev := ROOTDEV\<rparr>"
  let ?h = "replicate BSIZE (0 :: u8)"
  have b2: "booted ?s2" using r(2) bio_cong [of ?s2 s1] by (simp add: booted_def)
  have g: "log_dev ?s2 = ROOTDEV" "unat (log_start ?s2) + LOGSIZE < 0x80000000" by (simp_all add: LOGSIZE_def MAXOPBLOCKS_def)
  have h: "?h = disk ?s2 (log_start ?s2)" "length ?h = BSIZE" "0 \<le> header_count ?h" "header_count ?h < int LOGSIZE"
    using ds [of 2] d(2) r(3) by (simp_all add: header_count_def LOGSIZE_def MAXOPBLOCKS_def)
  have L: "[] = header_blocks ?h" "\<forall>b\<in>set []. b < 0x80000000 \<and> b \<notin> log_area ?s2"
    by (simp_all add: header_blocks_def header_count_def)
  obtain t where t: "recover_from_log ?s2 = Ok () t" "log_ok t []" "rc t = (\<lambda>_. 0)" "view t = disk t"
      "disk t = (disk ?s2)(2 := put_field 4 ?h 0 (0 :: u32))" "log_only ?s2 t"
    using recover_effect [OF b2 g h L] by (auto simp: home_writes_def)
  note f = log_only_fields [OF t(6)] fs_log_only [OF t(6)]
  have "fsinit ROOTDEV s = Ok () t"
    using r(1) sb1 t(1) by (simp add: fsinit_def initlog_def BSIZE_def LOGSIZE_def MAXOPBLOCKS_def mk_sb_def)
  moreover have "view t (of_nat b) = d ! b" if "b < 2000" "b \<noteq> 2" for b
  proof -
    have "(of_nat b :: u32) \<noteq> 2" using that unat_tp [of b] by (auto simp: word_unat_eq_iff)
    then show ?thesis using t(4,5) r(3) ds [OF that(1)] by simp
  qed
  ultimately show ?thesis using t(2,3) f sb1 r by (simp add: mounted_def)
qed

section \<open>Inside a system call\<close>

text \<open>A transaction has begun and has written nothing: every block outside the log is a sector of the image.\<close>

definition on_disk :: "sectors \<Rightarrow> 'a fs_st_scheme \<Rightarrow> bool" where
  "on_disk d s \<longleftrightarrow> tx_room (Suc 0) s [] \<and> sb s = mk_sb \<and> (\<forall>b. 32 \<le> unat b \<and> unat b < 2000 \<longrightarrow> home_block s b) \<and>
     (\<forall>b. 32 \<le> unat b \<and> unat b < 2000 \<longrightarrow> view s b = d ! unat b)"

lemma on_diskD:
  assumes "on_disk d s"
  shows "tx_room (Suc 0) s []" "sb s = mk_sb" "\<And>b. 32 \<le> unat b \<Longrightarrow> unat b < 2000 \<Longrightarrow> home_block s b"
    "\<And>b. 32 \<le> unat b \<Longrightarrow> unat b < 2000 \<Longrightarrow> view s b = d ! unat b" "me s < length (procs s)"
  using assms by (auto simp: on_disk_def tx_room_def tx_def log_wf_def bio_inv_def)

lemma on_disk_keep:
  assumes "on_disk d s" and "tx_room (Suc 0) t []" and "view t = view s" and "sb t = sb s" and "home_block t = home_block s"
  shows "on_disk d t"
  using assms by (simp add: on_disk_def)

lemma on_disk_upd [simp]: "on_disk d (upd_inode ip f s) = on_disk d s"
  by (simp add: on_disk_def upd_inode_view)

lemma begin_op_law:
  assumes "mounted d s" and "log_outstanding s = 0" and "\<not> log_committing s"
  shows "\<exists>t. begin_op s = Ok () t \<and> on_disk d t \<and> itable t = itable s"
proof -
  let ?t = "s\<lparr>log_outstanding := 1\<rparr>"
  have l: "log_ok s []" "rc s = (\<lambda>_. 0)" "sb s = mk_sb" "log_start s = 2" "log_size s = 30"
      "\<forall>b < FSSIZE. b \<noteq> 2 \<longrightarrow> view s (of_nat b) = d ! b"
    using assms(1) by (auto simp: mounted_def)
  then have n: "lh_n s = 0" by (simp add: log_ok_def log_wf_def)
  note c = bio_cong [of ?t s]
  have "begin_op s = Ok () ?t"
    using assms(2,3) n by (simp add: begin_op_def LOGSIZE_def MAXOPBLOCKS_def)
  moreover have "log_wf ?t []" "lk ?t = (\<lambda>_. False)"
    using l(1) c by (simp_all add: log_ok_def log_wf_def)
  then have "tx_room (Suc 0) ?t []"
    using l(2,5) c by (simp add: tx_room_def tx_def NBUF_def LOGSIZE_def MAXOPBLOCKS_def)
  moreover have "view ?t b = d ! unat b" "home_block ?t b" if "32 \<le> unat b" "unat b < 2000" for b
    using l(4) spec [OF l(6), of "unat b"] that c(5)
    by (auto simp: home_block_def log_area_def LOGSIZE_def MAXOPBLOCKS_def word_less_nat_alt)
  ultimately show ?thesis using l(3) by (simp add: on_disk_def)
qed

text \<open>Waking processes up changes nothing that a file system operation relies on.\<close>

lemma woken_keeps:
  fixes s :: "'a fs_st_scheme"
  assumes "woken (procs s) ps" and "on_disk d s"
  shows "on_disk d (s\<lparr>procs := ps\<rparr>)" "mypid (s\<lparr>procs := ps\<rparr>) = mypid s"
proof -
  let ?t = "s\<lparr>procs := ps\<rparr>"
  have m: "me s < length (procs s)" using on_diskD(5) [OF assms(2)] .
  have f: "bio_frame s ?t" unfolding bio_frame_def using assms(1)
    by (intro exI [of _ "bcache s"] exI [of _ "vdisk s"] exI [of _ "disk s"] exI [of _ "disk_writes s"] exI [of _ ps]) simp
  note p = mypid_frame [OF f m]
  have bo: "buf_of ?t = buf_of s" by (rule ext) (simp add: buf_of_def)
  have c: "rc ?t = rc s" "lk ?t = lk s" "view ?t = view s"
    by (rule ext; simp add: rc_def lk_def view_def bo split: option.split)+
  have "bio_inv ?t = bio_inv s" using p by (simp add: bio_inv_def buf_ok_def)
  then have "tx_room (Suc 0) ?t []"
    using on_diskD(1) [OF assms(2)] c by (simp add: tx_room_def tx_def log_wf_def log_area_def)
  moreover have "home_block ?t = home_block s" by (simp add: home_block_def log_area_def fun_eq_iff)
  ultimately show "on_disk d ?t" using on_disk_keep [OF assms(2), of ?t] c by simp
  show "mypid ?t = mypid s" by (rule p(1))
qed

section \<open>The inode table\<close>

text \<open>An entry of the table that holds inode \<open>i + 1\<close> of the image.\<close>

definition loaded :: "sectors \<Rightarrow> nat \<Rightarrow> inode \<Rightarrow> bool" where
  "loaded d i q \<longleftrightarrow> same_dinode q (dino d (Suc i)) \<and> i_dev q = ROOTDEV \<and> i_inum q = of_nat (Suc i) \<and> i_valid q"

lemma ilock_mounted:
  fixes s :: "'a fs_st_scheme"
  assumes d: "on_disk d s" and ip: "ip < length (itable s)" and i: "Suc i < 200" "i_type (dino d (Suc i)) \<noteq> 0"
    and q: "i_dev (itable s ! ip) = ROOTDEV" "i_ref (itable s ! ip) \<ge> 1" "\<not> sl_locked (i_lock (itable s ! ip))"
      "\<not> i_valid (itable s ! ip)" "i_inum (itable s ! ip) = of_nat (Suc i)"
  shows "\<exists>u. ilock (Some ip) s = Ok () u \<and> on_disk d u \<and> loaded d i (itable u ! ip) \<and> i_ref (itable u ! ip) = i_ref (itable s ! ip) \<and>
    holdingsleep (mypid u) (i_lock (itable u ! ip)) \<and> (\<forall>j. j \<noteq> ip \<longrightarrow> itable u ! j = itable s ! j) \<and>
    length (itable u) = length (itable s)"
proof -
  have un: "unat (i_inum (itable s ! ip)) = Suc i" using i(1) unfolding q(5) by (intro unat_tp) simp
  have ib: "inode_block s ip = IBLOCK (Suc i) mk_sb" using un on_diskD(2) [OF d] by (simp add: inode_block_def)
  have b: "32 \<le> unat (inode_block s ip)" "unat (inode_block s ip) < 2000" using IBLOCK_mk [OF i(1)] by (auto simp: ib)
  have g: "same_dinode (get_dinode (view s (inode_block s ip)) (dinode_off (unat (i_inum (itable s ! ip)))) (itable s ! ip)) (dino d (Suc i))"
    using on_diskD(4) [OF d b] un by (simp add: dino_def same_dinode_def get_dinode_def ib)
  then have ty: "i_type (get_dinode (view s (inode_block s ip)) (dinode_off (unat (i_inum (itable s ! ip)))) (itable s ! ip)) \<noteq> 0"
    using i(2) by (simp add: same_dinode_def)
  obtain u where u: "ilock (Some ip) s = Ok () u" "i_valid (itable u ! ip)" "sl_locked (i_lock (itable u ! ip))"
      "same_dinode (itable u ! ip) (get_dinode (view s (inode_block s ip)) (dinode_off (unat (i_inum (itable s ! ip)))) (itable s ! ip))"
      "i_dev (itable u ! ip) = ROOTDEV" "i_inum (itable u ! ip) = i_inum (itable s ! ip)"
      "i_ref (itable u ! ip) = i_ref (itable s ! ip)" "sl_pid (i_lock (itable u ! ip)) = mypid s" "mypid u = mypid s"
      "\<forall>j. j \<noteq> ip \<longrightarrow> itable u ! j = itable s ! j" "length (itable u) = length (itable s)"
      "tx_room (Suc 0) u []" "view u = view s" "sb u = sb s" "home_block u = home_block s"
    using ilock_loads [OF on_diskD(1) [OF d] on_diskD(3) [OF d b] ip q(1-4) ty] by blast
  have "loaded d i (itable u ! ip)" using u(2,4-6) g q(5) by (simp add: loaded_def same_dinode_def)
  moreover have "on_disk d u" using on_disk_keep [OF d u(12-15)] .
  ultimately show ?thesis using u(1,3,7-11) by (auto simp: holdingsleep_def)
qed

text \<open>\<open>iget\<close> takes the first free entry when no entry is for the inode.\<close>

lemma iget_new:
  assumes "ip < length (itable s)" and "i_ref (itable s ! ip) = 0" and "\<And>j. j < ip \<Longrightarrow> i_ref (itable s ! j) \<noteq> 0"
    and "\<And>j. j < length (itable s) \<Longrightarrow> \<not> entry_for dev inum (itable s ! j)"
  shows "iget dev inum s = Ok ip (upd_inode ip (\<lambda>q. q\<lparr>i_dev := dev, i_inum := inum, i_ref := 1, i_valid := False\<rparr>) s)"
proof -
  have "find (\<lambda>i. i_ref (itable s ! i) > 0 \<and> i_dev (itable s ! i) = dev \<and> i_inum (itable s ! i) = inum) [0..<length (itable s)] = None"
    using assms(4) by (auto simp: find_None_iff entry_for_def)
  moreover have "find (\<lambda>i. i_ref (itable s ! i) = 0) [0..<length (itable s)] = Some ip"
    using assms(1-3) by (auto simp: find_Some_iff intro!: exI [of _ ip])
  ultimately show ?thesis by (simp add: iget_def)
qed

section \<open>Reading a file\<close>

lemma file_data_nth:
  assumes "\<And>j. j < k \<Longrightarrow> length (d ! unat (bno d q j)) = BSIZE"
  shows "length (file_data d q k) = k * BSIZE"
    "i < k * BSIZE \<Longrightarrow> file_data d q k ! i = d ! unat (bno d q (i div BSIZE)) ! (i mod BSIZE)"
proof -
  have "length (file_data d q k) = k * BSIZE \<and>
      (i < k * BSIZE \<longrightarrow> file_data d q k ! i = d ! unat (bno d q (i div BSIZE)) ! (i mod BSIZE))"
    using assms
  proof (induction k)
    case (Suc k)
    have "i div BSIZE = k \<and> i mod BSIZE = i - k * BSIZE" if "k * BSIZE \<le> i" "i < Suc k * BSIZE"
    proof -
      have "i div BSIZE = k" using that by (intro div_nat_eqI) (simp_all add: algebra_simps)
      then show ?thesis by (simp add: minus_div_mult_eq_mod [symmetric])
    qed
    then show ?case using Suc by (auto simp: file_data_Suc nth_append)
  qed (simp add: file_data_def)
  then show "length (file_data d q k) = k * BSIZE"
    "i < k * BSIZE \<Longrightarrow> file_data d q k ! i = d ! unat (bno d q (i div BSIZE)) ! (i mod BSIZE)" by auto
qed

lemma nblk_covers: "n \<le> nblk n * BSIZE"
  unfolding nblk_def BSIZE_def by linarith

text \<open>A file of the image is a file of the kernel, with the same blocks and the same bytes.\<close>

lemma file_mounted:
  fixes s :: "'a fs_st_scheme"
  assumes f: "file_is d tp (dino d (Suc i)) c" "disk_ok d tp" and q: "loaded d i (itable s ! ip)" and o: "on_disk d s"
    and n: "Suc i < 200"
  shows "file_wf s ip (nblk (length c))" "j < length c \<Longrightarrow> file_byte s ip j = c ! j"
proof -
  let ?k = "nblk (length c)" and ?q = "dino d (Suc i)"
  have a: "i_addrs (itable s ! ip) = i_addrs ?q" "i_dev (itable s ! ip) = ROOTDEV" "unat (i_inum (itable s ! ip)) = Suc i"
    using q n unat_tp [of "Suc i"] by (auto simp: loaded_def same_dinode_def simp del: of_nat_Suc)
  have ok: "alloc_ok d tp ?q ?k" using f(1) by (simp add: file_is_def)
  have rng: "46 \<le> unat b" "unat b < 2000" "home_block s b" "view s b = d ! unat b" if "b \<in> own d ?q ?k" for b
    using alloc_okD(5) [OF ok that] disk_okD(4) [OF f(2)] on_diskD(3,4) [OF o, of b] by simp_all
  have io: "i_addrs ?q ! NDIRECT \<in> own d ?q ?k" if "NDIRECT < ?k" using that by (simp add: own_def)
  have bo: "bno d ?q j \<in> own d ?q ?k" if "j < ?k" for j using that by (simp add: own_def)
  have fb: "file_block s ip j = bno d ?q j" if "j < ?k" for j
    using that rng(4) [OF io] a(1) by (auto simp: file_block_def bno_def indirect_block_def)
  have len: "length (d ! unat (bno d ?q j)) = BSIZE" if "j < ?k" for j
    using rng [OF bo [OF that]] disk_okD(2) [OF f(2)] by simp
  have ib: "32 \<le> unat (inode_block s ip)" "unat (inode_block s ip) < 46"
    using IBLOCK_mk [OF n] a(3) by (auto simp: inode_block_def on_diskD(2) [OF o])
  have ne: "b \<noteq> inode_block s ip" if "b \<in> own d ?q ?k" for b using rng(1) [OF that] ib(2) by auto
  have "indirect_block s ip \<noteq> 0 \<and> home_block s (indirect_block s ip) \<and> indirect_block s ip \<noteq> inode_block s ip \<and>
      indirect_block s ip \<notin> bno d ?q ` {..<?k}" if "NDIRECT < ?k"
    using alloc_okD(4,7) [OF ok] that rng [OF io [OF that]] ne [OF io [OF that]]
    by (simp add: indirect_block_def a(1))
  moreover have "file_block s ip ` {..<?k} = bno d ?q ` {..<?k}" "inj_on (file_block s ip) {..<?k} = inj_on (bno d ?q) {..<?k}"
    using fb by (auto intro!: inj_on_cong image_cong)
  moreover have "file_block s ip j \<noteq> 0 \<and> home_block s (file_block s ip j) \<and> length (view s (file_block s ip j)) = BSIZE \<and>
      file_block s ip j \<noteq> inode_block s ip" if "j < ?k" for j
    using rng [OF bo [OF that]] len [OF that] ne [OF bo [OF that]] by (auto simp: fb [OF that])
  moreover have "home_block s (inode_block s ip)" using ib on_diskD(3) [OF o] by simp
  ultimately show "file_wf s ip ?k"
    using a(2) alloc_okD(2,6) [OF ok] by (simp add: file_wf_def)
  show "file_byte s ip j = c ! j" if "j < length c"
  proof -
    have j: "j < ?k * BSIZE" "j div BSIZE < ?k" using that nblk_covers [of "length c"] by (simp_all add: less_mult_imp_div_less)
    then have "file_byte s ip j = file_data d ?q ?k ! j"
      using file_data_nth(2) [OF len j(1)] fb [OF j(2)] rng(4) [OF bo [OF j(2)]] by (simp add: file_byte_def)
    then show ?thesis using f(1) that by (simp add: file_is_def nth_append)
  qed
qed

lemma readi_mounted:
  fixes s :: "'a fs_st_scheme"
  assumes f: "file_is d tp (dino d (Suc i)) c" "disk_ok d tp" and q: "loaded d i (itable s ! ip)" and o: "on_disk d s"
    and n: "Suc i < 200" and off: "unat off \<le> unat (i_size (itable s ! ip))" "unat off + unat m < 2 ^ 32"
      "unat off + min (unat m) (unat (i_size (itable s ! ip)) - unat off) \<le> length c"
  defines "j \<equiv> min (unat m) (unat (i_size (itable s ! ip)) - unat off)"
  shows "\<exists>t. readi ip ToLocal off m s = Ok (int j, take j (drop (unat off) c)) t \<and> on_disk d t \<and> itable t = itable s \<and> mypid t = mypid s"
proof -
  note fm = file_mounted [OF f q o n]
  let ?k = "nblk (length c)" and ?z = "i_size (itable s ! ip)"
  have sum: "unat (off + m) = unat off + unat m" using off(2) by (simp add: unat_word_ariths)
  then have "\<not> (off > ?z \<or> off + m < off)" using off(1) by (simp add: word_less_nat_alt)
  moreover have "unat (if off + m > ?z then ?z - off else m) = j"
    using sum off(1) by (auto simp: j_def word_less_nat_alt unat_sub word_le_nat_alt)
  ultimately have rd: "readi ip ToLocal off m s = readi_loop ip ToLocal (unat off) j 0 [] s"
    by (simp only: readi_def Let_def if_False)
  have jl: "unat off + j \<le> length c" using off(3) by (simp add: j_def)
  then have "unat off + (j - 0) \<le> ?k * BSIZE" using nblk_covers [of "length c"] by simp
  then obtain t where t: "readi_loop ip ToLocal (unat off) j 0 [] s = Ok (int j, map (file_byte s ip) [unat off..<unat off + j]) t"
      "tx_room (Suc 0) t []" "view t = view s" "log_only s t"
    using readi_loop_reads [OF fm(1) on_diskD(1) [OF o], of "unat off" j 0 "[]"] by auto
  have "map (file_byte s ip) [unat off..<unat off + j] = take j (drop (unat off) c)"
    using fm(2) jl by (intro nth_equalityI) simp_all
  moreover have "on_disk d t" using on_disk_keep [OF o t(2,3)] fs_log_only [OF t(4)] home_block_only [OF t(4)] by simp
  moreover have "itable t = itable s" "mypid t = mypid s"
    using fs_log_only [OF t(4)] mypid_only(1) [OF t(4) on_diskD(5) [OF o]] by simp_all
  ultimately show ?thesis using t(1) rd by simp
qed

section \<open>The root directory\<close>

text \<open>The name under which \<open>mkfs\<close> enters a file, and the entries of the root directory.\<close>

definition entry_name :: "u8 list \<Rightarrow> u8 list" where
  "entry_name nm = take DIRSIZ (takeWhile (\<lambda>c. c \<noteq> 0) nm)"

definition root_entries :: "mk_args \<Rightarrow> (nat \<times> u8 list) list" where
  "root_entries args = [(1, ascii ''.''), (1, ascii ''..'')] @
     zip [2..<2 + length args] (map (\<lambda>(arg, content). skip_underscore (shortname arg)) args)"

lemma dirents_entries:
  "dirents n args = concat (map (\<lambda>(k, nm). dirent_bytes (of_nat k) nm)
     (zip [n..<n + length args] (map (\<lambda>(arg, content). skip_underscore (shortname arg)) args)))"
  by (induction n args rule: dirents.induct) (auto simp: upt_conv_Cons simp del: upt_Suc)

lemma root_bytes: "snd (mk_files args ! 0) = concat (map (\<lambda>(k, nm). dirent_bytes (of_nat k) nm) (root_entries args))"
  by (simp add: mk_files_def root_entries_def dirents_entries del: upt_Suc)

lemma dirent_bytes_parts:
  "length (dirent_bytes n nm) = dirent_size" "field 2 (dirent_bytes n nm) 0 = (ucast n :: u16)"
  "drop 2 (dirent_bytes n nm) = entry_name nm @ replicate (DIRSIZ - length (entry_name nm)) 0"
  by (simp_all add: dirent_bytes_def Let_def entry_name_def field_def DIRSIZ_def dirent_size_def)

lemma namecmp_loop_padded:
  "0 \<notin> set p \<Longrightarrow> 0 \<notin> set q \<Longrightarrow> length p \<le> n \<Longrightarrow> length q \<le> n \<Longrightarrow> namecmp_loop n p (q @ replicate z 0) = 0 \<longleftrightarrow> p = q"
proof (induction n arbitrary: p q)
  case (Suc n)
  show ?case
  proof (cases p; cases q)
    fix a p' assume "p = a # p'" "q = []"
    then show ?thesis using Suc.prems by (cases z) (auto simp: word_uint_eq_iff)
  next
    fix b q' assume "p = []" "q = b # q'"
    then show ?thesis using Suc.prems by (auto simp: word_uint_eq_iff)
  next
    fix a p' b q' assume pq: "p = a # p'" "q = b # q'"
    then show ?thesis using Suc.IH [of p' q'] Suc.prems by (auto simp: word_uint_eq_iff)
  qed (cases z; simp)
qed simp

lemma namecmp_entry:
  assumes "0 \<notin> set name" and "length name \<le> DIRSIZ"
  shows "namecmp name (drop 2 (dirent_bytes n nm)) = 0 \<longleftrightarrow> name = entry_name nm"
proof -
  have "0 \<notin> set (entry_name nm)" "length (entry_name nm) \<le> DIRSIZ"
    using set_takeWhileD by (fastforce simp: entry_name_def dest!: in_set_takeD)+
  then show ?thesis unfolding dirent_bytes_parts(3) namecmp_def using assms by (intro namecmp_loop_padded)
qed

lemma entry_at:
  "\<forall>x\<in>set xs. length x = m \<Longrightarrow> k < length xs \<Longrightarrow> take m (drop (k * m) (concat xs)) = xs ! k"
  "\<forall>x\<in>set xs. length x = m \<Longrightarrow> length (concat xs) = length xs * m"
proof (induction xs arbitrary: k)
  case (Cons x xs)
  { case 1
    then show ?case using Cons by (cases k) simp_all
  next
    case 2
    then show ?case using Cons by simp }
qed simp_all

lemma read_entry:
  fixes s :: "'a fs_st_scheme"
  assumes f: "file_is d tp (dino d 1) c" "disk_ok d tp" and c: "c = concat (map (\<lambda>(k, nm). dirent_bytes (of_nat k) nm) es)"
    and q: "loaded d 0 (itable s ! dp)" "length c \<le> unat (i_size (itable s ! dp))" and o: "on_disk d s"
    and sz: "length c < 2 ^ 31" and j: "j < length es"
  shows "\<exists>t. readi dp ToLocal (of_nat (j * dirent_size)) (of_nat dirent_size) s =
      Ok (int dirent_size, dirent_bytes (of_nat (fst (es ! j))) (snd (es ! j))) t \<and> on_disk d t \<and> itable t = itable s \<and> mypid t = mypid s"
proof -
  let ?xs = "map (\<lambda>(k, nm). dirent_bytes (of_nat k) nm) es"
  have l: "\<forall>x\<in>set ?xs. length x = dirent_size" by (auto simp: dirent_bytes_parts(1))
  have "Suc j * dirent_size \<le> length es * dirent_size" using j by (intro mult_le_mono1) simp
  then have lc: "j * dirent_size + dirent_size \<le> length c" using entry_at(2) [OF l] c by simp
  have u: "unat (of_nat (j * dirent_size) :: u32) = j * dirent_size" "unat (of_nat dirent_size :: u32) = dirent_size"
    using lc sz by (intro unat_of_nat_eq; simp add: dirent_size_def)+
  have m: "min dirent_size (unat (i_size (itable s ! dp)) - j * dirent_size) = dirent_size" using lc q(2) by simp
  have r: "\<exists>t. readi dp ToLocal (of_nat (j * dirent_size)) (of_nat dirent_size) s =
      Ok (int dirent_size, take dirent_size (drop (j * dirent_size) c)) t \<and> on_disk d t \<and> itable t = itable s \<and> mypid t = mypid s"
    using readi_mounted [of d tp 0 c s dp "of_nat (j * dirent_size)" "of_nat dirent_size"] f q o lc sz u m
    by (simp add: dirent_size_def)
  have "take dirent_size (drop (j * dirent_size) c) = dirent_bytes (of_nat (fst (es ! j))) (snd (es ! j))"
    using entry_at(1) [OF l, of j] j c by (simp add: split_def)
  with r show ?thesis by simp
qed

lemma inum_field:
  assumes "n < 200"
  shows "(ucast (ucast (of_nat n :: u32) :: u16) :: u32) = of_nat n" "(ucast (of_nat n :: u32) :: u16) = 0 \<longleftrightarrow> n = 0"
proof -
  have u: "unat (of_nat n :: u32) = n" "unat (of_nat n :: u16) = n" using assms by (auto intro!: unat_of_nat_eq)
  have "take_bit 16 n = n" "take_bit 32 n = n" using assms by (simp_all add: take_bit_nat_eq_self)
  then show "(ucast (ucast (of_nat n :: u32) :: u16) :: u32) = of_nat n" "(ucast (of_nat n :: u32) :: u16) = 0 \<longleftrightarrow> n = 0"
    using u by (simp_all add: word_unat_eq_iff unsigned_ucast_eq unsigned_take_bit_eq)
qed

text \<open>The loop of \<open>dirlookup\<close> passes over the entries with other names.\<close>

lemma dirlookup_finds:
  fixes s :: "'a fs_st_scheme"
  assumes f: "file_is d tp (dino d 1) c" "disk_ok d tp" and c: "c = concat (map (\<lambda>(k, nm). dirent_bytes (of_nat k) nm) es)"
    and q: "loaded d 0 (itable s ! dp)" "length c \<le> unat (i_size (itable s ! dp))" and o: "on_disk d s"
    and sz: "length c < 2 ^ 31" and name: "0 \<notin> set name" "length name \<le> DIRSIZ"
    and k: "k < length es" "k < N" "name = entry_name (snd (es ! k))" "a \<le> k"
      "\<And>j. j < k \<Longrightarrow> name \<noteq> entry_name (snd (es ! j))" "\<And>j. j \<le> k \<Longrightarrow> 0 < fst (es ! j) \<and> fst (es ! j) < 200"
  shows "\<exists>t. dirlookup_loop dp name (map (\<lambda>k. k * dirent_size) [a..<N]) s =
      bind (iget ROOTDEV (of_nat (fst (es ! k))) t) (\<lambda>ip s. Ok (Some (ip, of_nat (k * dirent_size))) s) \<and>
    on_disk d t \<and> itable t = itable s \<and> mypid t = mypid s"
  using k(4) q o
proof (induction "k - a" arbitrary: a s)
  case (0 a)
  then have a: "a = k" by simp
  obtain t where t: "readi dp ToLocal (of_nat (k * dirent_size)) (of_nat dirent_size) s =
      Ok (int dirent_size, dirent_bytes (of_nat (fst (es ! k))) (snd (es ! k))) t" "on_disk d t" "itable t = itable s" "mypid t = mypid s"
    using read_entry [OF f c 0(3-5) sz k(1)] by blast
  have n: "fst (es ! k) \<noteq> 0" "fst (es ! k) < 200" using k(6) [of k] by auto
  have dv: "i_dev (itable t ! dp) = ROOTDEV" using 0(3) t(3) by (simp add: loaded_def)
  have nc: "namecmp name (drop 2 (dirent_bytes (of_nat (fst (es ! k))) (snd (es ! k)))) = 0"
    using namecmp_entry [OF name] k(3) by simp
  have "[a..<N] = k # [Suc k..<N]" using a k(2) by (simp add: upt_conv_Cons)
  then have "dirlookup_loop dp name (map (\<lambda>k. k * dirent_size) [a..<N]) s =
      bind (iget ROOTDEV (of_nat (fst (es ! k))) t) (\<lambda>ip s. Ok (Some (ip, of_nat (k * dirent_size))) s)"
    using t(1) nc n dv inum_field [OF n(2)]
    by (simp only: list.map dirlookup_loop.simps bind.simps split dirent_bytes_parts(2)) simp
  then show ?case using t(2-4) by blast
next
  case (Suc n)
  then have ak: "a < k" by simp
  then have al: "a < length es" using k(1) by simp
  obtain t where t: "readi dp ToLocal (of_nat (a * dirent_size)) (of_nat dirent_size) s =
      Ok (int dirent_size, dirent_bytes (of_nat (fst (es ! a))) (snd (es ! a))) t" "on_disk d t" "itable t = itable s" "mypid t = mypid s"
    using read_entry [OF f c Suc(4-6) sz al] by blast
  have nc: "namecmp name (drop 2 (dirent_bytes (of_nat (fst (es ! a))) (snd (es ! a)))) \<noteq> 0"
    using namecmp_entry [OF name] k(5) [OF ak] by simp
  have "[a..<N] = a # [Suc a..<N]" using ak k(2) by (simp add: upt_conv_Cons)
  then have st: "dirlookup_loop dp name (map (\<lambda>k. k * dirent_size) [a..<N]) s =
      dirlookup_loop dp name (map (\<lambda>k. k * dirent_size) [Suc a..<N]) t"
    using t(1) nc by (simp only: list.map dirlookup_loop.simps bind.simps split dirent_bytes_parts(2)) simp
  have "n = k - Suc a" "Suc a \<le> k" "loaded d 0 (itable t ! dp)" "length c \<le> unat (i_size (itable t ! dp))"
    using Suc.hyps(2) ak Suc.prems t(3) by simp_all
  from Suc.hyps(1) [OF this t(2)] show ?case unfolding st using t(3,4) by simp
qed

section \<open>Finding a file by its name\<close>

lemma iunlockput_law:
  fixes s :: "'a fs_st_scheme"
  assumes o: "on_disk d s" and q: "ip < length (itable s)" "holdingsleep (mypid s) (i_lock (itable s ! ip))" "i_ref (itable s ! ip) \<ge> 1"
    "i_nlink (itable s ! ip) \<noteq> 0"
  shows "\<exists>t. iunlockput ip s = Ok () t \<and> on_disk d t \<and> length (itable t) = length (itable s) \<and>
    (\<forall>j. j \<noteq> ip \<longrightarrow> itable t ! j = itable s ! j)"
proof -
  let ?s = "upd_inode ip (\<lambda>q. q\<lparr>i_lock := releasesleep (i_lock q)\<rparr>) s"
  obtain ps where ps: "wakeup (InodeLockChan ip) ?s = ?s\<lparr>procs := ps\<rparr>" "woken (procs ?s) ps"
    using wakeup_woken by blast
  let ?t = "upd_inode ip (\<lambda>q. q\<lparr>i_ref := i_ref q - 1\<rparr>) (?s\<lparr>procs := ps\<rparr>)"
  have "i_nlink (itable (?s\<lparr>procs := ps\<rparr>) ! ip) \<noteq> 0" using q(1,4) by (simp add: upd_inode_def)
  then have "iput ip (?s\<lparr>procs := ps\<rparr>) = Ok () ?t" by (simp add: iput_def Let_def)
  then have "iunlockput ip s = Ok () ?t"
    using q(2,3) by (simp add: iunlockput_def iunlock_def i_release_def ps(1) not_less)
  moreover have "on_disk d ?t" using woken_keeps(1) [OF ps(2)] o by simp
  ultimately show ?thesis by (intro exI [of _ ?t]) (simp add: upd_inode_def)
qed

lemma idle_entry: "idle_table s \<Longrightarrow> j < length (itable s) \<Longrightarrow> i_ref (itable s ! j) = 0 \<and> \<not> sl_locked (i_lock (itable s ! j))"
  by (auto simp: idle_table_def)

text \<open>\<open>root_open d s u\<close>: entry 0 has been taken for the root directory, which is locked, and the others are as in \<open>s\<close>.\<close>

definition root_open :: "sectors \<Rightarrow> 'a fs_st_scheme \<Rightarrow> 'a fs_st_scheme \<Rightarrow> bool" where
  "root_open d s u \<longleftrightarrow> on_disk d u \<and> loaded d 0 (itable u ! 0) \<and> i_ref (itable u ! 0) = 1 \<and>
     holdingsleep (mypid u) (i_lock (itable u ! 0)) \<and> (\<forall>j. j \<noteq> 0 \<longrightarrow> itable u ! j = itable s ! j) \<and>
     length (itable u) = length (itable s)"

lemma root_open_keep: "root_open d s u \<Longrightarrow> on_disk d t \<Longrightarrow> itable t = itable u \<Longrightarrow> mypid t = mypid u \<Longrightarrow> root_open d s t"
  by (simp add: root_open_def)

lemma open_root:
  fixes s :: "'a fs_st_scheme"
  assumes o: "on_disk d s" and it: "idle_table s" and ty: "i_type (dino d 1) \<noteq> 0"
  shows "\<exists>s1 u. iget ROOTDEV ROOTINO s = Ok 0 s1 \<and> ilock (Some 0) s1 = Ok () u \<and> root_open d s u"
proof -
  let ?f = "\<lambda>q. q\<lparr>i_dev := ROOTDEV, i_inum := ROOTINO, i_ref := 1, i_valid := False\<rparr>"
  let ?s1 = "upd_inode 0 ?f s"
  have l: "0 < length (itable s)" using it by (auto simp: idle_table_def)
  have g: "iget ROOTDEV ROOTINO s = Ok 0 ?s1"
    using idle_entry [OF it] l by (intro iget_new) (auto simp: entry_for_def)
  have q: "itable ?s1 ! 0 = ?f (itable s ! 0)" and r: "\<forall>j. j \<noteq> 0 \<longrightarrow> itable ?s1 ! j = itable s ! j"
    using l by (simp_all add: upd_inode_def)
  obtain u where "ilock (Some 0) ?s1 = Ok () u" "on_disk d u" "loaded d 0 (itable u ! 0)" "i_ref (itable u ! 0) = 1"
      "holdingsleep (mypid u) (i_lock (itable u ! 0))" "\<forall>j. j \<noteq> 0 \<longrightarrow> itable u ! j = itable ?s1 ! j" "length (itable u) = length (itable s)"
    using ilock_mounted [of d ?s1 0 0] o l ty idle_entry [OF it l] unfolding q by (auto simp: ROOTINO_def)
  then show ?thesis using g r by (auto simp: root_open_def)
qed

text \<open>\<open>iget\<close> for another inode takes entry 1.\<close>

lemma second_entry:
  fixes s :: "'a fs_st_scheme"
  assumes u: "root_open d s u" and it: "idle_table s" and i: "0 < i" "Suc i < 200"
  defines "v \<equiv> upd_inode 1 (\<lambda>q. q\<lparr>i_dev := ROOTDEV, i_inum := of_nat (Suc i), i_ref := 1, i_valid := False\<rparr>) u"
  shows "iget ROOTDEV (of_nat (Suc i)) u = Ok 1 v" "on_disk d v" "itable v ! 0 = itable u ! 0" "mypid v = mypid u"
    "itable v ! 1 = (itable s ! 1)\<lparr>i_dev := ROOTDEV, i_inum := of_nat (Suc i), i_ref := 1, i_valid := False\<rparr>"
    "length (itable v) = length (itable s)"
proof -
  have l: "1 < length (itable s)" using it by (auto simp: idle_table_def)
  have q: "i_inum (itable u ! 0) = 1" "i_ref (itable u ! 0) = 1" "\<forall>j. j \<noteq> 0 \<longrightarrow> itable u ! j = itable s ! j" "length (itable u) = length (itable s)"
    using u by (auto simp: root_open_def loaded_def)
  have ne: "(of_nat (Suc i) :: u32) \<noteq> 1"
    using i unat_tp [of "Suc i"] by (auto simp: word_unat_eq_iff simp del: of_nat_Suc)
  have ent: "\<not> entry_for ROOTDEV (of_nat (Suc i)) (itable u ! j)" if "j < length (itable u)" for j
    using that q ne idle_entry [OF it, of j] by (cases "j = 0") (auto simp: entry_for_def simp del: of_nat_Suc)
  show "iget ROOTDEV (of_nat (Suc i)) u = Ok 1 v"
    unfolding v_def using q l idle_entry [OF it l] ent by (intro iget_new) auto
  show "on_disk d v" using u by (simp add: v_def root_open_def)
  show "itable v ! 0 = itable u ! 0" "mypid v = mypid u" "length (itable v) = length (itable s)"
      "itable v ! 1 = (itable s ! 1)\<lparr>i_dev := ROOTDEV, i_inum := of_nat (Suc i), i_ref := 1, i_valid := False\<rparr>"
    using q(3,4) l by (simp_all add: v_def upd_inode_def mypid_def mine_def me_def myproc_def)
qed

text \<open>What the root directory of the image is to \<open>dirlookup\<close>.\<close>

definition root_dir :: "sectors \<Rightarrow> nat \<Rightarrow> (nat \<times> u8 list) list \<Rightarrow> bool" where
  "root_dir d tp es \<longleftrightarrow> (let c = concat (map (\<lambda>(k, nm). dirent_bytes (of_nat k) nm) es) in
     file_is d tp (dino d 1) c \<and> disk_ok d tp \<and> i_type (dino d 1) = T_DIR \<and> i_nlink (dino d 1) = 1 \<and>
     length c \<le> unat (i_size (dino d 1)) \<and> length c < 2 ^ 31)"

text \<open>\<open>finds es name k i\<close>: entry \<open>k\<close> is the first one with the name and is for inode \<open>i + 1\<close>.\<close>

definition finds :: "(nat \<times> u8 list) list \<Rightarrow> u8 list \<Rightarrow> nat \<Rightarrow> nat \<Rightarrow> bool" where
  "finds es name k i \<longleftrightarrow> 0 \<notin> set name \<and> length name \<le> DIRSIZ \<and> k < length es \<and> fst (es ! k) = Suc i \<and> name = entry_name (snd (es ! k)) \<and>
     (\<forall>j < k. name \<noteq> entry_name (snd (es ! j))) \<and> (\<forall>j \<le> k. 0 < fst (es ! j) \<and> fst (es ! j) < 200)"

lemma dirlookup_root:
  fixes s :: "'a fs_st_scheme"
  assumes r: "root_dir d tp es" and f: "finds es name k i" and u: "root_open d s u"
  shows "\<exists>t. dirlookup 0 name u = bind (iget ROOTDEV (of_nat (Suc i)) t) (\<lambda>ip s. Ok (Some (ip, of_nat (k * dirent_size))) s) \<and>
    root_open d s t"
proof -
  define c where "c = concat (map (\<lambda>(k, nm). dirent_bytes (of_nat k) nm) es)"
  have root: "file_is d tp (dino d 1) c" "disk_ok d tp" "i_type (dino d 1) = T_DIR" "length c \<le> unat (i_size (dino d 1))" "length c < 2 ^ 31"
    using r by (auto simp: root_dir_def c_def Let_def)
  have k: "0 \<notin> set name" "length name \<le> DIRSIZ" "k < length es" "fst (es ! k) = Suc i" "name = entry_name (snd (es ! k))"
      "\<And>j. j < k \<Longrightarrow> name \<noteq> entry_name (snd (es ! j))" "\<And>j. j \<le> k \<Longrightarrow> 0 < fst (es ! j) \<and> fst (es ! j) < 200"
    using f by (auto simp: finds_def)
  have o: "on_disk d u" "loaded d 0 (itable u ! 0)" using u by (auto simp: root_open_def)
  then have sd: "i_type (itable u ! 0) = T_DIR" "i_size (itable u ! 0) = i_size (dino d 1)"
    using root(3) by (auto simp: loaded_def same_dinode_def)
  let ?N = "(unat (i_size (itable u ! 0)) + dirent_size - 1) div dirent_size"
  have "length c = length (map (\<lambda>(k, nm). dirent_bytes (of_nat k) nm) es) * dirent_size"
    unfolding c_def by (intro entry_at(2)) (auto simp: dirent_bytes_parts(1))
  then have "Suc k * dirent_size \<le> unat (i_size (itable u ! 0))"
    using root(4) k(3) sd(2) mult_le_mono1 [of "Suc k" "length es" dirent_size] by simp
  then have kN: "k < ?N" by (simp add: dirent_size_def)
  have sz: "length c \<le> unat (i_size (itable u ! 0))" using root(4) sd(2) by simp
  obtain t where "dirlookup_loop 0 name (map (\<lambda>k. k * dirent_size) [0..<?N]) u =
      bind (iget ROOTDEV (of_nat (fst (es ! k))) t) (\<lambda>ip s. Ok (Some (ip, of_nat (k * dirent_size))) s)"
      "on_disk d t" "itable t = itable u" "mypid t = mypid u"
    using dirlookup_finds [OF root(1,2) c_def o(2) sz o(1) root(5) k(1-3) kN k(5) le0 k(6,7)] by blast
  then show ?thesis using sd(1) k(4) root_open_keep [OF u] by (auto simp: dirlookup_def dir_offsets_def)
qed

lemma namei_finds:
  fixes s :: "'a fs_st_scheme"
  assumes r: "root_dir d tp es" and f: "finds es name k i" "0 < i"
    and o: "on_disk d s" and it: "idle_table s" and path: "path \<noteq> []" "hd path = slash" "path_names path = [name]"
  shows "\<exists>t. namei path s = Ok (Some 1) t \<and> on_disk d t \<and> 1 < length (itable t) \<and>
    i_dev (itable t ! 1) = ROOTDEV \<and> i_inum (itable t ! 1) = of_nat (Suc i) \<and> i_ref (itable t ! 1) = 1 \<and>
    \<not> i_valid (itable t ! 1) \<and> \<not> sl_locked (i_lock (itable t ! 1))"
proof -
  have l: "1 < length (itable s)" using it by (simp add: idle_table_def)
  have i: "Suc i < 200" using f(1) by (auto simp: finds_def)
  have ty: "i_type (dino d 1) = T_DIR" "i_nlink (dino d 1) = 1" using r by (auto simp: root_dir_def Let_def)
  obtain s1 u where u: "iget ROOTDEV ROOTINO s = Ok 0 s1" "ilock (Some 0) s1 = Ok () u" "root_open d s u"
    using open_root [OF o it] ty(1) by (auto simp: T_DIR_def)
  obtain t where t: "dirlookup 0 name u = bind (iget ROOTDEV (of_nat (Suc i)) t) (\<lambda>ip s. Ok (Some (ip, of_nat (k * dirent_size))) s)"
      "root_open d s t"
    using dirlookup_root [OF r f(1) u(3)] by blast
  define v where "v = upd_inode 1 (\<lambda>q. q\<lparr>i_dev := ROOTDEV, i_inum := of_nat (Suc i), i_ref := 1, i_valid := False\<rparr>) t"
  note e = second_entry [OF t(2) it f(2) i, folded v_def]
  have q: "i_type (itable u ! 0) = T_DIR" "i_nlink (itable t ! 0) = 1" "i_ref (itable t ! 0) = 1" "holdingsleep (mypid t) (i_lock (itable t ! 0))"
    using u(3) t(2) ty by (auto simp: root_open_def loaded_def same_dinode_def)
  have "0 < length (itable v)" "holdingsleep (mypid v) (i_lock (itable v ! 0))" "i_ref (itable v ! 0) \<ge> 1" "i_nlink (itable v ! 0) \<noteq> 0"
    using e(3,4,6) q less_trans [OF zero_less_one l] by simp_all
  then obtain w where w: "iunlockput 0 v = Ok () w" "on_disk d w" "length (itable w) = length (itable v)" "itable w ! 1 = itable v ! 1"
    using iunlockput_law [OF e(2)] by (metis zero_neq_one)
  have "str_at path = slash" using path(1,2) by (cases path) auto
  then have "namei path s = Ok (Some 1) w"
    using u(1,2) q(1) t(1) e(1) w(1) path(3)
    by (simp add: namei_def namex_def namex_loop_walks del: of_nat_Suc)
  then show ?thesis using w(2-4) e(5,6) l idle_entry [OF it l] by (simp del: of_nat_Suc)
qed

section \<open>From mkfs to read\<close>

lemma mk_files_nth:
  assumes "k < length args"
  shows "mk_files args ! Suc k = (T_FILE, concat (the (snd (args ! k))))" "length (mk_files args) = Suc (length args)"
  using assms by (simp_all add: mk_files_def file_list_def split_def)

lemma root_entries_nth:
  assumes "k < length args"
  shows "root_entries args ! (k + 2) = (k + 2, skip_underscore (shortname (fst (args ! k))))" "length (root_entries args) = length args + 2"
  using assms by (simp_all add: root_entries_def nth_append split_def del: upt_Suc)

lemma built_root:
  assumes e: "holds_file d (stored_size (mk_files args) 0) 0 (mk_files args ! 0)" "file_is d tp (dino d 1) (snd (mk_files args ! 0))"
    and d: "disk_ok d tp" and f: "fits (mk_files args)"
  shows "root_dir d tp (root_entries args)"
proof -
  obtain c where c: "mk_files args ! 0 = (T_DIR, c)" "(T_DIR, c) \<in> set (mk_files args)" by (auto simp: mk_files_def)
  then have "length c \<le> MAXFILE * BSIZE" using f by (force simp: fits_def)
  then have s: "length c < 2 ^ 31" by (simp add: fs_consts)
  have h: "i_type (dino d 1) = T_DIR" "i_nlink (dino d 1) = 1" "unat (i_size (dino d 1)) = (length c div BSIZE + 1) * BSIZE"
    using e(1) unfolding stored_size_def c(1) by (simp_all add: Let_def)
  have "length c \<le> (length c div BSIZE + 1) * BSIZE" using dividend_less_div_times [of BSIZE "length c"] by (simp add: BSIZE_def)
  then show ?thesis using e(2) d s h unfolding root_dir_def root_bytes [symmetric] c(1) Let_def by simp
qed

definition dir_name :: "u8 list \<Rightarrow> u8 list" where
  "dir_name arg = entry_name (skip_underscore (shortname arg))"

lemma built_finds:
  assumes k: "k < length args" and n: "name = dir_name (fst (args ! k))" "name \<notin> {ascii ''.'', ascii ''..''}"
    "\<And>j. j < k \<Longrightarrow> name \<noteq> dir_name (fst (args ! j))" and f: "fits (mk_files args)"
  shows "finds (root_entries args) name (k + 2) (k + 1)"
proof -
  have l: "length args + 1 < 200" using f k by (simp add: fits_def mk_files_nth(2))
  have e: "root_entries args ! j = (if j < 2 then (1, if j = 0 then ascii ''.'' else ascii ''..'') else (j, skip_underscore (shortname (fst (args ! (j - 2))))))"
    if "j \<le> k + 2" for j
  proof (cases "j < 2")
    case True
    then show ?thesis by (auto simp: less_2_cases_iff root_entries_def)
  next
    case False
    then have j: "j - 2 + 2 = j" by simp
    have "j - 2 < length args" using False that k by simp
    then show ?thesis using root_entries_nth(1) [of "j - 2" args] False unfolding j by simp
  qed
  have dots: "entry_name (ascii ''.'') = ascii ''.''" "entry_name (ascii ''..'') = ascii ''..''"
    by (simp_all add: entry_name_def ascii_def DIRSIZ_def)
  have "name \<noteq> entry_name (snd (root_entries args ! j))" if "j < k + 2" for j
    using e [of j] that n(2) dots n(3) [of "j - 2"] by (cases "j < 2") (auto simp: dir_name_def)
  moreover have "0 < fst (root_entries args ! j) \<and> fst (root_entries args ! j) < 200" if "j \<le> k + 2" for j
    using e [OF that] that k l by auto
  moreover have "0 \<notin> set name" "length name \<le> DIRSIZ"
    using set_takeWhileD unfolding n(1) dir_name_def entry_name_def by (fastforce dest!: in_set_takeD)+
  ultimately show ?thesis
    using e [of "k + 2"] n(1) k root_entries_nth(2) [OF k] by (simp add: finds_def dir_name_def)
qed

text \<open>Locking an inode of the image and reading from its start.\<close>

lemma read_built:
  fixes s :: "'a fs_st_scheme"
  assumes e: "holds_file d (length c) i (T_FILE, c)" "file_is d tp (dino d (Suc i)) c" "disk_ok d tp" and i: "Suc i < 200"
    and o: "on_disk d s" and q: "ip < length (itable s)" "i_dev (itable s ! ip) = ROOTDEV" "i_inum (itable s ! ip) = of_nat (Suc i)"
      "i_ref (itable s ! ip) = 1" "\<not> i_valid (itable s ! ip)" "\<not> sl_locked (i_lock (itable s ! ip))"
  shows "\<exists>u t. ilock (Some ip) s = Ok () u \<and> readi ip ToLocal 0 n u = Ok (int (min (unat n) (length c)), take (unat n) c) t"
proof -
  have d: "i_type (dino d (Suc i)) \<noteq> 0" "unat (i_size (dino d (Suc i))) = length c"
    using e(1) by (simp_all add: Let_def T_FILE_def)
  obtain u where u: "ilock (Some ip) s = Ok () u" "on_disk d u" "loaded d i (itable u ! ip)"
    using ilock_mounted [OF o q(1) i d(1) q(2) _ q(6,5,3)] q(4) by auto
  have sz: "unat (i_size (itable u ! ip)) = length c" using u(3) d(2) by (simp add: loaded_def same_dinode_def)
  have "unat n < 2 ^ 32" using unsigned_less [of n] by simp
  then obtain t where "readi ip ToLocal 0 n u = Ok (int (min (unat n) (length c)), take (min (unat n) (length c)) c) t"
    using readi_mounted [OF e(2,3) u(3,2) i, of 0 n] sz by auto
  then show ?thesis using u(1) by (auto simp: min_def)
qed

text \<open>
  C2: What \<open>mkfs\<close> stores, the kernel reads. Take a disk that \<open>mkfs\<close> has built from files that fit, and a
  machine that boots with it. Then \<open>fsinit\<close> mounts the disk, and after \<open>begin_op\<close>, looking up an absolute path
  that names file \<open>k\<close> with \<open>namei\<close>, locking the inode with \<open>ilock\<close> and reading \<open>n\<close> bytes with \<open>readi\<close> returns the
  first \<open>n\<close> bytes of that file, or all of it when it is shorter. The names are those that \<open>mkfs\<close> enters
  into the directory, which drops \<open>user/\<close> and an underscore and keeps 14 characters; the name must not have been
  entered before.
\<close>

theorem mkfs_namei_readi:
  fixes s :: "'a fs_st_scheme"
  assumes "args_ok args" and "fits (mk_files args)" and "mkfs args = Ok () m" and "fresh_machine (img m) s"
    and "k < length args" and "args ! k = (arg, Some chunks)"
    and "dir_name arg \<notin> {ascii ''.'', ascii ''..''}" and "\<And>j. j < k \<Longrightarrow> dir_name arg \<noteq> dir_name (fst (args ! j))"
    and "path \<noteq> []" and "hd path = slash" and "path_names path = [dir_name arg]"
  shows "\<exists>t. bind (fsinit ROOTDEV s) (\<lambda>_ s. bind (begin_op s) (\<lambda>_ s. bind (namei path s) (\<lambda>ip s.
      bind (ilock ip s) (\<lambda>_ s. readi (the ip) ToLocal 0 n s)))) =
    Ok (int (min (unat n) (length (concat chunks))), take (unat n) (concat chunks)) t"
proof -
  let ?d = "img m" and ?tp = "46 + blocks_used (mk_files args)" and ?c = "concat chunks"
  have d: "disk_ok ?d ?tp" "?d ! 1 = sb_sector" "?d ! 2 = replicate BSIZE 0"
      and h: "\<And>i. i < length (mk_files args) \<Longrightarrow> holds_file ?d (stored_size (mk_files args) i) i (mk_files args ! i)"
      and fi: "\<And>i. i < length (mk_files args) \<Longrightarrow> file_is ?d ?tp (dino ?d (Suc i)) (snd (mk_files args ! i))"
    using mkfs_image [OF assms(1,2)] assms(3) by auto
  have i: "Suc (Suc k) < 200" using assms(2,5) by (simp add: fits_def mk_files_nth(2))
  have c: "mk_files args ! Suc k = (T_FILE, ?c)" "Suc k < length (mk_files args)" "0 < length (mk_files args)"
    using mk_files_nth [OF assms(5)] assms(5,6) by simp_all
  have ek: "holds_file ?d (length ?c) (Suc k) (T_FILE, ?c)" "file_is ?d ?tp (dino ?d (Suc (Suc k))) ?c"
    using h [OF c(2)] fi [OF c(2)] unfolding stored_size_def c(1) by simp_all
  have rd: "root_dir ?d ?tp (root_entries args)" using built_root [OF h [OF c(3)] _ d(1) assms(2)] fi [OF c(3)] by simp
  have fd: "finds (root_entries args) (dir_name arg) (k + 2) (k + 1)"
    using built_finds [OF assms(5) _ assms(7) assms(8) assms(2)] assms(6) by simp
  obtain s1 where s1: "fsinit ROOTDEV s = Ok () s1" "mounted ?d s1" "itable s1 = itable s" "log_outstanding s1 = 0" "\<not> log_committing s1"
    using fsinit_law [OF assms(4) d(2,3)] assms(4) by (auto simp: fresh_machine_def)
  obtain s2 where s2: "begin_op s1 = Ok () s2" "on_disk ?d s2" "itable s2 = itable s1" using begin_op_law [OF s1(2,4,5)] by blast
  have it: "idle_table s2" using assms(4) s1(3) s2(3) by (simp add: fresh_machine_def idle_table_def)
  obtain s3 where s3: "namei path s2 = Ok (Some 1) s3" "on_disk ?d s3" "1 < length (itable s3)" "i_dev (itable s3 ! 1) = ROOTDEV"
      "i_inum (itable s3 ! 1) = of_nat (Suc (k + 1))" "i_ref (itable s3 ! 1) = 1" "\<not> i_valid (itable s3 ! 1)" "\<not> sl_locked (i_lock (itable s3 ! 1))"
    using namei_finds [OF rd fd _ s2(2) it assms(9-11)] by auto
  obtain u t where "ilock (Some 1) s3 = Ok () u" "readi 1 ToLocal 0 n u = Ok (int (min (unat n) (length ?c)), take (unat n) ?c) t"
    using read_built [OF ek d(1) i s3(2-4) _ s3(6-8), of n] s3(5) by auto
  then show ?thesis using s1(1) s2(1) s3(1) by simp
qed

definition boot_machine :: "sectors \<Rightarrow> fs_st" where
  "boot_machine d = (fs_machine (\<lambda>b. if unat b < length d then d ! unat b else []) (superblock_of [])
     (replicate NINODE blank_inode))\<lparr>log_outstanding := 0, log_committing := False\<rparr>"

lemma boot_machine_fresh: "length d = 2000 \<Longrightarrow> fresh_machine d (boot_machine d)"
proof -
  assume l: "length d = 2000"
  let ?f = "\<lambda>b. if unat (b :: u32) < length d then d ! unat b else []"
  let ?m = "fs_machine ?f (superblock_of []) (replicate NINODE blank_inode)"
  have c: "bio_inv (boot_machine d) = bio_inv ?m" "rc (boot_machine d) = rc ?m" "lk (boot_machine d) = lk ?m" "view (boot_machine d) = view ?m"
    by (rule bio_cong; simp add: boot_machine_def)+
  have "booted (boot_machine d)"
    using c log_machine_tx(2) [of ?f] by (simp add: booted_def fs_machine_bio fs_machine_sel boot_machine_def)
  moreover have "disk (boot_machine d) (of_nat b) = d ! b" if "b < 2000" for b
    using that l unat_tp [of b] by (simp add: boot_machine_def fs_machine_sel log_machine_facts)
  moreover have "\<not> log_committing (boot_machine d)"
    by (simp add: boot_machine_def)
  moreover have "idle_table (boot_machine d)"
    by (simp add: boot_machine_def idle_table_def fs_machine_sel NINODE_def blank_inode_def initsleeplock_def)
  ultimately show "fresh_machine d (boot_machine d)" by (simp add: fresh_machine_def boot_machine_def)
qed

theorem mkfs_namei_readi_witness:
  "\<exists>m t. mkfs [(ascii ''user/_cat'', Some [replicate 1000 7, replicate 500 8])] = Ok () m \<and>
     bind (fsinit ROOTDEV (boot_machine (img m))) (\<lambda>_ s. bind (begin_op s) (\<lambda>_ s. bind (namei (ascii ''/cat'') s) (\<lambda>ip s.
       bind (ilock ip s) (\<lambda>_ s. readi (the ip) ToLocal 0 1002 s)))) =
     Ok (1002, replicate 1000 7 @ [8, 8]) t"
proof -
  let ?args = "[(ascii ''user/_cat'', Some [replicate 1000 7, replicate 500 8])]"
  have de: "length (dirent_bytes n x) = 16" for n x
    by (simp add: dirent_bytes_def Let_def DIRSIZ_def)
  have ok: "args_ok ?args" by (simp add: args_ok_def shortname_def ascii_def)
  have nb: "nblk 48 = 1" "nblk 1500 = 2" by (simp_all add: nblk_def BSIZE_def)
  have fits: "fits (mk_files ?args)"
    by (simp add: fits_def mk_files_def file_list_def de nb cost_def fs_consts)
  obtain m where m: "mkfs ?args = Ok () m" "length (img m) = 2000"
    using mkfs_image [OF ok fits] disk_okD(1) by blast
  have dn: "dir_name (ascii ''user/_cat'') = ascii ''cat''"
    by (simp add: dir_name_def entry_name_def skip_underscore_def shortname_def ascii_def DIRSIZ_def)
  have pn: "path_names (ascii ''/cat'') = [ascii ''cat'']"
    by (simp add: path_names_def ascii_def slash_def DIRSIZ_def)
  have "\<exists>t. bind (fsinit ROOTDEV (boot_machine (img m))) (\<lambda>_ s. bind (begin_op s) (\<lambda>_ s. bind (namei (ascii ''/cat'') s) (\<lambda>ip s.
      bind (ilock ip s) (\<lambda>_ s. readi (the ip) ToLocal 0 1002 s)))) =
    Ok (int (min (unat (1002 :: u32)) (length (concat [replicate 1000 7, replicate 500 8 :: u8 list]))),
      take (unat (1002 :: u32)) (concat [replicate 1000 7, replicate 500 8])) t"
    by (rule mkfs_namei_readi [OF ok fits m(1) boot_machine_fresh [OF m(2)], of 0 "ascii ''user/_cat''"])
      (simp_all add: dn pn, simp_all add: ascii_def slash_def)
  moreover have "replicate 2 (8 :: u8) = [8, 8]" by (simp add: numeral_2_eq_2)
  then have "take (unat (1002 :: u32)) (concat [replicate 1000 7, replicate 500 8]) = replicate 1000 7 @ [8, 8 :: u8]" by simp
  ultimately show ?thesis using m(1) by simp
qed

end
