(* ===== verification/Spec2Isabelle.thy ===== *)
theory Spec2Isabelle
  imports Trap Grep Sched Traplaws Inodelaws Progs Umalloc Mount
begin

text \<open>
  A model of the xv6 kernel, the user programs and the file system builder of this repository, and what makes them correct.

  \<^bold>\<open>The program.\<close> The repository holds solutions of the xv6 labs; the complete tree is
  \<open>src/pgtbl/system_backup\<close>, and paths below are relative to it. The kernel runs on RISC-V harts: \<open>kernel/main.c\<close>
  initialises the memory allocator, the page tables, the process table, the interrupt controller, the
  buffer cache, the inode and file tables and the disk, and starts the first process. A trap from user
  space goes through \<open>usertrap\<close> to \<open>syscall\<close>; system calls work on the process table, on open files and,
  through the inode layer, the log and the buffer cache, on the disk. Processes sleep on channels and are
  woken by interrupts or by each other. User programs call the kernel through the library of \<open>ulib.c\<close>.

  \<^bold>\<open>How it is modelled.\<close> Each C function is a definition of the same name (with a suffix where the name is
  taken). State is a record; the record of each layer extends the one below it (\<open>kmem_st\<close>, \<open>proc_st\<close>,
  \<open>virtio_st\<close>, \<open>log_st\<close>, \<open>fs_st\<close>, \<open>pipe_st\<close>, \<open>file_st\<close>, up to the whole kernel), and operations are
  polymorphic in the extension, so that the layers compose as the calls do. An operation returns a \<open>res\<close>:
  \<open>Ok\<close> with its value and the new state, \<open>Panic\<close>, or \<open>Sleep\<close> with the channel on which the process waits.
  Machine integers are words of their width, memory maps 64-bit addresses to bytes, and structures on disk
  and in memory are read and written as little-endian bytes at their offsets. Loops are recursive functions
  with a termination proof, or partial functions where the C loop may run for ever. Devices (the virtio disk,
  the UART) are modelled after their documented behaviour.

  \<^bold>\<open>The theories.\<close>
  \<^item> \<open>Prelude\<close>: the result type, byte-addressed memory, words and their bytes. \<open>Riscv\<close>: \<open>riscv.h\<close>,
    \<open>memlayout.h\<close>, \<open>param.h\<close>. \<open>Cstring\<close>: \<open>string.c\<close>. \<open>Ring\<close>: circular buffers with free-running indices.
  \<^item> \<open>Kalloc\<close>: \<open>kalloc.c\<close>; pages that have been handed out are not handed out again. \<open>Vm\<close>, \<open>Vmlaws\<close>,
    \<open>Procpt\<close>: \<open>vm.c\<close>; mapping a page, copying to and from user memory, a new address space that
    shows user code none of the kernel's pages.
  \<^item> \<open>Spinlock\<close>: \<open>spinlock.c\<close>, \<open>sleeplock.c\<close>; mutual exclusion under every interleaving. \<open>Proc\<close>, \<open>Proclaws\<close>,
    \<open>Smp\<close>, \<open>Sched\<close>, \<open>Process\<close>: \<open>proc.c\<close>; a process runs on one CPU at a time, no wakeup is lost, identifiers
    are unique; fork, exit and the first process.
  \<^item> \<open>Virtio\<close>: \<open>virtio_disk.c\<close>; a request transfers its block. \<open>Bio\<close>: \<open>bio.c\<close>; the cache agrees with the disk.
    \<open>Log\<close>: \<open>log.c\<close>; a crash at any point leaves all or nothing of a transaction. \<open>Fs\<close>, \<open>Fslaws\<close>, \<open>Filelaws\<close>,
    \<open>Inodelaws\<close>: \<open>fs.c\<close>; free map, file contents, inodes and path names. \<open>Mkfs\<close>, \<open>Mkfslaws\<close>: \<open>mkfs/mkfs.c\<close>, the
    host program that builds the disk; its image holds every file once, with its bytes. \<open>Mount\<close>: a machine that boots
    with this image mounts it (\<open>fsinit\<close>), finds each file by its name (\<open>namei\<close>) and reads what was stored (\<open>readi\<close>).
  \<^item> \<open>Uart\<close>, \<open>Console\<close>, \<open>Pipe\<close>, \<open>File\<close>: \<open>uart.c\<close> and \<open>printf.c\<close>, \<open>console.c\<close>, \<open>pipe.c\<close>, \<open>file.c\<close>; buffers lose and invent
    no bytes, line editing refines an edited line, failures leave nothing allocated.
  \<^item> \<open>Sysproc\<close>, \<open>Exec\<close>, \<open>Sysfile\<close>, \<open>Trap\<close>, \<open>Traplaws\<close>: \<open>syscall.c\<close>, \<open>sysproc.c\<close>, \<open>exec.c\<close>, \<open>sysfile.c\<close>, \<open>trap.c\<close>, \<open>plic.c\<close>,
    \<open>start.c\<close>, \<open>main.c\<close>; the way back to user space, unknown system calls, tracing.
  \<^item> \<open>Grep\<close>, \<open>Ulib\<close>, \<open>Umalloc\<close>, \<open>Sh\<close>, \<open>Shlaws\<close>, \<open>Shprint\<close>, \<open>Shrun\<close>, \<open>Utils\<close>, \<open>Progs\<close>: user programs. The matcher of \<open>grep\<close> implements
    its patterns; \<open>atoi\<close> reads what \<open>printf\<close> prints; blocks of \<open>malloc\<close> do not overlap and are joined again; the
    parser of the shell ends, reads back printed commands, and \<open>runcmd\<close> starts the right programs with the right
    descriptors; \<open>primes\<close> is a sieve, \<open>find\<close> visits every entry, and \<open>pingpong\<close> does the same
    under every schedule. A process is a tree of system calls (\<open>uprog\<close>).

  \<^bold>\<open>Interfaces.\<close> \<open>page_pool\<close> is what a page allocator promises, and \<open>kalloc\<close> and \<open>kfree\<close> are an instance;
  \<open>exclusive_lock\<close> covers the spin lock and the sleep lock; \<open>block_cache\<close> is the contract between the buffer
  cache and its clients, from which the log and the file system draw; \<open>ring_buffer\<close> is shared by the pipe, the
  console and the transmit buffer of the UART.

  \<^bold>\<open>Concurrency and crashes.\<close> Operations of the kernel are sequential between the points where they sleep. The
  interleaving of CPUs is modelled where it matters: the atomic steps of \<open>acquire\<close> and \<open>release\<close>
  (\<open>spin_step\<close>), the hand-over between \<open>sleep\<close> and \<open>wakeup\<close> (\<open>handover_step\<close>), the process table under several
  CPUs (\<open>smp_step\<close>: the scheduler, both sides of every switch, and the regions that run under the lock of one
  slot, with the holder of each \<open>p->lock\<close> and each CPU's interrupt nesting as part of the state), and the system calls of user processes that share pipes (\<open>proc_step\<close>), as inductive step relations with their reachable states. A crash is a prefix of the
  sequence of writes that reach the disk, followed by recovery.

  \<^bold>\<open>Bounds.\<close> \<open>freewalk\<close> has a fuel of \<open>2^52 + 1\<close>, more than the number of pages there are, so that only a table that contains
  itself runs out of it. The parser of the shell counts calls up to \<open>4 * strlen + 4\<close>, and it is proved that this
  is enough for every line. The allocator of user programs assumes a heap below \<open>2^36\<close> bytes, more than
  the machine has, so that a size fits its \<open>uint\<close>, and its theorems are about programs whose requests are all of at
  most \<open>2^31 - 32\<close> bytes: a larger size is cut to an \<open>int\<close> on its way to \<open>sbrk\<close> (\<open>malloc_truncates_request\<close>). \<open>balloc\<close> counts blocks in an \<open>int\<close>; its theorem is about file systems of at most
  \<open>2^31 - BPB\<close> blocks. What \<open>mkfs\<close> builds is described for files that fit on the
  disk and in the inode table (\<open>fits\<close>), which \<open>mkfs\<close> itself only checks in part.

  \<^bold>\<open>Not modelled.\<close> The assembly (\<open>entry.S\<close>, \<open>trampoline.S\<close>, \<open>kernelvec.S\<close>, \<open>swtch.S\<close>) is the boundary of the
  model. \<open>ramdisk.c\<close> is not compiled. \<open>usertests.c\<close>, \<open>grind.c\<close> and the other tests drive the kernel and have no logic of
  their own; \<open>init\<close>, which starts the shell again and again for ever, is left out. \<open>src/syscall\<close> and \<open>src/utilities\<close> hold earlier states of files of the
  complete tree. Timing, memory ordering of the processor and faults of the disk are outside the model.
\<close>

end
